(* ===== verification/OS161_Prelude.thy ===== *)
theory OS161_Prelude
  imports Main "HOL-Library.Word"
begin

text \<open>
  What every component of the development shares: the error codes of
  \<^verbatim>\<open>kern/include/kern/errno.h\<close>, the ways a kernel function can fail to return, the
  state-passing computations that model C functions, a small total-correctness calculus for
  them, and generic lemmas on lists and machine words.

  A C function that works on a state of type \<open>'s\<close> and returns a value of type \<open>'a\<close> is
  modelled by a function \<open>'s \<Rightarrow> halt + ('a \<times> 's)\<close>.  The result \<open>Inr (x, s')\<close> is a normal
  return.  The result \<open>Inl h\<close> is a run that does not return to its caller: a failed
  \<^verbatim>\<open>assert\<close>, a call of \<^verbatim>\<open>panic\<close>, or an operation C leaves undefined (an access through a
  null or dangling pointer, an access out of bounds, a signed overflow).  \<open>Blocked\<close> is a wait
  for a lock that somebody holds.  \<open>OutOfFuel\<close> marks a model whose recursion bound was too
  small.  A theorem whose
  conclusion is \<open>Inr\<close> therefore also states that none of these happens.

  A C function that returns an error number is modelled by a function whose value is
  \<open>errno + 'a\<close>: \<open>Inl e\<close> is the return of a non-zero code, \<open>Inr x\<close> the return of 0 with
  \<open>x\<close> in the out parameters.  The state is returned in both cases, since the code does not
  undo what it did before it found the error.
\<close>

unbundle bit_operations_syntax

section \<open>Error codes and failures\<close>

datatype errno =
    EINVAL | EFAULT | ENAMETOOLONG | ENOMEM | EIO | ENOENT | ENOTDIR | EISDIR | EEXIST
  | EXDEV | EAGAIN | ESPIPE | EUNIMP | ENXIO | ENODEV | EBUSY | EIOCTL | ENOTEMPTY | ERANGE
  | ENOSPC | EMFILE | ENFILE | ENOSYS | ENOEXEC | E2BIG | EBADF

primrec errno_code :: "errno \<Rightarrow> int" where
  "errno_code EINVAL = 1"
| "errno_code EFAULT = 2"
| "errno_code ENAMETOOLONG = 3"
| "errno_code ENOMEM = 4"
| "errno_code EIO = 5"
| "errno_code ENOENT = 6"
| "errno_code ENOTDIR = 7"
| "errno_code EISDIR = 8"
| "errno_code EEXIST = 9"
| "errno_code EXDEV = 10"
| "errno_code EAGAIN = 11"
| "errno_code ESPIPE = 12"
| "errno_code EUNIMP = 13"
| "errno_code ENXIO = 14"
| "errno_code ENODEV = 15"
| "errno_code EBUSY = 16"
| "errno_code EIOCTL = 17"
| "errno_code ENOTEMPTY = 18"
| "errno_code ERANGE = 19"
| "errno_code ENOSPC = 20"
| "errno_code EMFILE = 21"
| "errno_code ENFILE = 22"
| "errno_code ENOSYS = 23"
| "errno_code ENOEXEC = 24"
| "errno_code E2BIG = 25"
| "errno_code EBADF = 26"

datatype halt = AssertFail | PanicCall | BadPtr | IntOverflow | Blocked | OutOfFuel

type_synonym 'a kres = "halt + 'a"
type_synonym ('s, 'a) kern = "'s \<Rightarrow> halt + ('a \<times> 's)"

abbreviation INT_MAX :: int where "INT_MAX \<equiv> 2147483647"
abbreviation PAGE_SIZE :: nat where "PAGE_SIZE \<equiv> 4096"

section \<open>Computations\<close>

definition kret :: "'a \<Rightarrow> ('s, 'a) kern" where
  "kret x = (\<lambda>s. Inr (x, s))"

definition khalt :: "halt \<Rightarrow> ('s, 'a) kern" where
  "khalt h = (\<lambda>s. Inl h)"

definition kbind :: "('s, 'a) kern \<Rightarrow> ('a \<Rightarrow> ('s, 'b) kern) \<Rightarrow> ('s, 'b) kern" where
  "kbind m f = (\<lambda>s. case m s of Inl h \<Rightarrow> Inl h | Inr (x, s') \<Rightarrow> f x s')"

definition kbindE ::
  "('s, errno + 'a) kern \<Rightarrow> ('a \<Rightarrow> ('s, errno + 'b) kern) \<Rightarrow> ('s, errno + 'b) kern" where
  "kbindE m f = kbind m (\<lambda>r. case r of Inl e \<Rightarrow> kret (Inl e) | Inr x \<Rightarrow> f x)"

definition kassert :: "bool \<Rightarrow> ('s, unit) kern" where
  "kassert b = (\<lambda>s. if b then Inr ((), s) else Inl AssertFail)"

definition kget :: "('s \<Rightarrow> 'a) \<Rightarrow> ('s, 'a) kern" where
  "kget f = (\<lambda>s. Inr (f s, s))"

definition kmod :: "('s \<Rightarrow> 's) \<Rightarrow> ('s, unit) kern" where
  "kmod f = (\<lambda>s. Inr ((), f s))"

text \<open>
  \<open>kzoom get put m\<close> runs \<open>m\<close>, a computation on a struct, on the part of a larger state
  that \<open>get\<close> selects and \<open>put\<close> replaces.
\<close>

definition kzoom :: "('s \<Rightarrow> 't) \<Rightarrow> ('t \<Rightarrow> 's \<Rightarrow> 's) \<Rightarrow> ('t, 'a) kern \<Rightarrow> ('s, 'a) kern" where
  "kzoom get put m = (\<lambda>s. case m (get s) of Inl h \<Rightarrow> Inl h | Inr (x, t) \<Rightarrow> Inr (x, put t s))"

text \<open>
  \<open>kspec P m Q\<close>: from every state that satisfies \<open>P\<close>, \<open>m\<close> returns, and its value and
  final state satisfy \<open>Q\<close>.
\<close>

definition kspec :: "('s \<Rightarrow> bool) \<Rightarrow> ('s, 'a) kern \<Rightarrow> ('a \<Rightarrow> 's \<Rightarrow> bool) \<Rightarrow> bool" where
  "kspec P m Q \<longleftrightarrow> (\<forall>s. P s \<longrightarrow> (\<exists>x s'. m s = Inr (x, s') \<and> Q x s'))"

section \<open>Lemmas on computations\<close>

named_theorems kern_defs \<open>unfolding of the computation combinators\<close>
named_theorems kwp \<open>rules of the total-correctness calculus\<close>

lemmas [kern_defs] =
  kret_def khalt_def kbind_def kbindE_def kassert_def kget_def kmod_def kzoom_def

lemma kret_apply [simp]: "kret x s = Inr (x, s)"
  by (simp add: kret_def)

lemma khalt_apply [simp]: "khalt h s = Inl h"
  by (simp add: khalt_def)

lemma kget_apply [simp]: "kget f s = Inr (f s, s)"
  by (simp add: kget_def)

lemma kmod_apply [simp]: "kmod f s = Inr ((), f s)"
  by (simp add: kmod_def)

lemma kassert_True [simp]: "kassert True s = Inr ((), s)"
  by (simp add: kassert_def)

lemma kassert_Inr [simp]: "kassert b s = Inr (u, s') \<longleftrightarrow> b \<and> s' = s"
  by (auto simp: kassert_def)

lemma kbind_Inr: "kbind m f s = Inr r \<longleftrightarrow> (\<exists>x s'. m s = Inr (x, s') \<and> f x s' = Inr r)"
  by (auto simp: kbind_def split: sum.splits)

lemma kbind_Inl:
  "kbind m f s = Inl h \<longleftrightarrow> m s = Inl h \<or> (\<exists>x s'. m s = Inr (x, s') \<and> f x s' = Inl h)"
  by (auto simp: kbind_def split: sum.splits)

lemma kbind_step [simp]: "m s = Inr (x, s') \<Longrightarrow> kbind m f s = f x s'"
  by (simp add: kbind_def)

lemma kbind_halt [simp]: "m s = Inl h \<Longrightarrow> kbind m f s = Inl h"
  by (simp add: kbind_def)

lemma kbindE_ok [simp]: "m s = Inr (Inr x, s') \<Longrightarrow> kbindE m f s = f x s'"
  by (simp add: kbindE_def)

lemma kbindE_err [simp]: "m s = Inr (Inl e, s') \<Longrightarrow> kbindE m f s = Inr (Inl e, s')"
  by (simp add: kbindE_def)

lemma kbindE_halt [simp]: "m s = Inl h \<Longrightarrow> kbindE m f s = Inl h"
  by (simp add: kbindE_def)

lemma kzoom_Inr:
  "kzoom g p m s = Inr (x, s') \<longleftrightarrow> (\<exists>t. m (g s) = Inr (x, t) \<and> s' = p t s)"
  by (auto simp: kzoom_def split: sum.splits)

lemma kspecI: "(\<And>s. P s \<Longrightarrow> \<exists>x s'. m s = Inr (x, s') \<and> Q x s') \<Longrightarrow> kspec P m Q"
  by (simp add: kspec_def)

lemma kspecD: "kspec P m Q \<Longrightarrow> P s \<Longrightarrow> \<exists>x s'. m s = Inr (x, s') \<and> Q x s'"
  by (simp add: kspec_def)

lemma kspec_ret [kwp]: "(\<And>s. P s \<Longrightarrow> Q x s) \<Longrightarrow> kspec P (kret x) Q"
  by (simp add: kspec_def)

lemma kspec_mod [kwp]: "(\<And>s. P s \<Longrightarrow> Q () (f s)) \<Longrightarrow> kspec P (kmod f) Q"
  by (simp add: kspec_def)

lemma kspec_assert [kwp]: "(\<And>s. P s \<Longrightarrow> b \<and> Q () s) \<Longrightarrow> kspec P (kassert b) Q"
  by (auto simp: kspec_def)

lemma kspec_bind [kwp]:
  assumes "kspec P m R" and "\<And>x. kspec (R x) (f x) Q"
  shows "kspec P (kbind m f) Q"
  using assms unfolding kspec_def by (metis kbind_step)

lemma kspec_conseq:
  "kspec P m Q \<Longrightarrow> (\<And>s. P' s \<Longrightarrow> P s) \<Longrightarrow> (\<And>x s. Q x s \<Longrightarrow> Q' x s) \<Longrightarrow> kspec P' m Q'"
  unfolding kspec_def by blast

text \<open>
  \<open>kok m s Q\<close>: from \<open>s\<close>, \<open>m\<close> returns with a value and a state that satisfy \<open>Q\<close>, or it waits for
  an event that the model does not supply.  The equations compute it by simplification.
\<close>

definition kok :: "('s, 'a) kern \<Rightarrow> 's \<Rightarrow> ('a \<Rightarrow> 's \<Rightarrow> bool) \<Rightarrow> bool" where
  "kok m s Q = (case m s of Inl h \<Rightarrow> h = OutOfFuel | Inr (x, s') \<Rightarrow> Q x s')"

named_theorems kok_simps \<open>equations that compute \<open>kok\<close>\<close>

lemma kok_ret [kok_simps]: "kok (kret x) s Q = Q x s"
  by (simp add: kok_def)

lemma kok_halt [kok_simps]: "kok (khalt h) s Q = (h = OutOfFuel)"
  by (simp add: kok_def)

lemma kok_get [kok_simps]: "kok (kget f) s Q = Q (f s) s"
  by (simp add: kok_def)

lemma kok_mod [kok_simps]: "kok (kmod f) s Q = Q () (f s)"
  by (simp add: kok_def)

lemma kok_assert [kok_simps]: "kok (kassert b) s Q = (b \<and> Q () s)"
  by (simp add: kok_def kassert_def)

lemma kok_bind [kok_simps]: "kok (kbind m f) s Q = kok m s (\<lambda>x s'. kok (f x) s' Q)"
  by (auto simp: kok_def kbind_def split: sum.splits)

lemma kok_zoom [kok_simps]: "kok (kzoom g p m) s Q = kok m (g s) (\<lambda>x t. Q x (p t s))"
  by (auto simp: kok_def kzoom_def split: sum.splits)

lemma kok_Inr: "m s = Inr (x, s') \<Longrightarrow> kok m s Q = Q x s'"
  by (simp add: kok_def)

lemma kok_fuel: "m s = Inl OutOfFuel \<Longrightarrow> kok m s Q"
  by (simp add: kok_def)

lemma kok_mono: "kok m s Q \<Longrightarrow> (\<And>x s'. Q x s' \<Longrightarrow> Q' x s') \<Longrightarrow> kok m s Q'"
  by (auto simp: kok_def split: sum.splits)

text \<open>
  \<open>kruns m s Q\<close>: from \<open>s\<close>, \<open>m\<close> returns, with a value and a state that satisfy \<open>Q\<close>.
\<close>

definition kruns :: "('s, 'a) kern \<Rightarrow> 's \<Rightarrow> ('a \<Rightarrow> 's \<Rightarrow> bool) \<Rightarrow> bool" where
  "kruns m s Q = (case m s of Inl h \<Rightarrow> False | Inr (x, s') \<Rightarrow> Q x s')"

named_theorems kruns_simps \<open>equations that compute \<open>kruns\<close>\<close>

lemma kruns_ret [kruns_simps]: "kruns (kret x) s Q = Q x s"
  by (simp add: kruns_def)

lemma kruns_halt [kruns_simps]: "kruns (khalt h) s Q = False"
  by (simp add: kruns_def)

lemma kruns_get [kruns_simps]: "kruns (kget f) s Q = Q (f s) s"
  by (simp add: kruns_def)

lemma kruns_mod [kruns_simps]: "kruns (kmod f) s Q = Q () (f s)"
  by (simp add: kruns_def)

lemma kruns_assert [kruns_simps]: "kruns (kassert b) s Q = (b \<and> Q () s)"
  by (simp add: kruns_def kassert_def)

lemma kruns_bind [kruns_simps]: "kruns (kbind m f) s Q = kruns m s (\<lambda>x s'. kruns (f x) s' Q)"
  by (auto simp: kruns_def kbind_def split: sum.splits)

lemma kruns_bindE [kruns_simps]:
  "kruns (kbindE m f) s Q =
     kruns m s (\<lambda>r s'. case r of Inl e \<Rightarrow> Q (Inl e) s' | Inr x \<Rightarrow> kruns (f x) s' Q)"
  unfolding kbindE_def kruns_bind
  by (rule arg_cong [where f = "kruns m s"]) (auto simp: fun_eq_iff kruns_ret split: sum.splits)

lemma kruns_zoom [kruns_simps]: "kruns (kzoom g p m) s Q = kruns m (g s) (\<lambda>x t. Q x (p t s))"
  by (auto simp: kruns_def kzoom_def split: sum.splits)

lemma kruns_Inr: "m s = Inr (x, s') \<Longrightarrow> kruns m s Q = Q x s'"
  by (simp add: kruns_def)

lemma kruns_mono: "kruns m s Q \<Longrightarrow> (\<And>x s'. Q x s' \<Longrightarrow> Q' x s') \<Longrightarrow> kruns m s Q'"
  by (auto simp: kruns_def split: sum.splits)

lemma kruns_iff: "kruns m s Q \<longleftrightarrow> (\<exists>x s'. m s = Inr (x, s') \<and> Q x s')"
  by (auto simp: kruns_def split: sum.splits)

section \<open>Lemmas on lists\<close>

lemma set_remove_nth:
  assumes "distinct xs" and "i < length xs"
  shows "set (take i xs @ drop (Suc i) xs) = set xs - {xs ! i}"
proof -
  have xs: "xs = take i xs @ xs ! i # drop (Suc i) xs"
    using assms(2) by (rule id_take_nth_drop)
  from assms(1) xs have "xs ! i \<notin> set (take i xs)" and "xs ! i \<notin> set (drop (Suc i) xs)"
    by (metis distinct_append disjoint_iff list.set_intros(1), metis distinct.simps(2) distinct_append)
  moreover from xs have "set xs = set (take i xs) \<union> {xs ! i} \<union> set (drop (Suc i) xs)"
    by (metis Un_insert_left Un_insert_right list.simps(15) set_append sup_bot_right)
  ultimately show ?thesis by auto
qed

text \<open>Bounded quantifiers over indices, as evaluation needs them.\<close>

lemma all_less_upt: "(\<forall>i < (n :: nat). P i) \<longleftrightarrow> list_all P [0..<n]"
  by (auto simp: list_all_iff)

section \<open>Linked lists\<close>

text \<open>
  \<open>path nxt c xs\<close>: following the links \<open>nxt\<close> from the pointer \<open>c\<close> visits the nodes \<open>xs\<close> and
  ends at NULL.  \<open>trail n nxt c\<close> are the first \<open>n\<close> nodes at most.
\<close>

fun path :: "('a \<Rightarrow> 'a option) \<Rightarrow> 'a option \<Rightarrow> 'a list \<Rightarrow> bool" where
  "path nxt c [] \<longleftrightarrow> c = None"
| "path nxt c (x # xs) \<longleftrightarrow> c = Some x \<and> path nxt (nxt x) xs"

fun trail :: "nat \<Rightarrow> ('a \<Rightarrow> 'a option) \<Rightarrow> 'a option \<Rightarrow> 'a list" where
  "trail 0 nxt c = []"
| "trail (Suc n) nxt None = []"
| "trail (Suc n) nxt (Some x) = x # trail n nxt (nxt x)"

lemma path_cong: "(\<And>x. x \<in> set xs \<Longrightarrow> nxt' x = nxt x) \<Longrightarrow> path nxt' c xs = path nxt c xs"
  by (induction xs arbitrary: c) auto

lemma trail_path: "path nxt c xs \<Longrightarrow> length xs \<le> n \<Longrightarrow> trail n nxt c = xs"
proof (induction xs arbitrary: c n)
  case Nil
  then show ?case by (cases n) auto
next
  case (Cons x xs)
  then show ?case by (cases n) auto
qed

lemma path_head: "path nxt c xs \<Longrightarrow> c = (if xs = [] then None else Some (hd xs))"
  by (cases xs) auto

text \<open>Unlinking a node: its predecessor takes over its link.\<close>

lemma path_unlink:
  assumes "path nxt c (xs @ q # p # ys)" and "distinct (xs @ q # p # ys)"
  shows "path (nxt(q := nxt p)) c (xs @ q # ys)"
  using assms
proof (induction xs arbitrary: c)
  case Nil
  then have "path (nxt(q := nxt p)) (nxt p) ys = path nxt (nxt p) ys" by (intro path_cong) auto
  with Nil show ?case by (simp del: fun_upd_apply add: fun_upd_same)
next
  case (Cons x xs)
  then have "x \<noteq> q" by auto
  with Cons show ?case by simp
qed

section \<open>Lemmas on arithmetic\<close>

text \<open>Indices into a circular buffer of size \<open>s\<close>.\<close>

lemma mod_diff_ring:
  fixes s :: int
  assumes "0 \<le> r" and "r < s" and "0 \<le> w" and "w < s"
  shows "(w - r) mod s = (if r \<le> w then w - r else w - r + s)"
proof (cases "r \<le> w")
  case True
  with assms show ?thesis by (simp add: mod_pos_pos_trivial)
next
  case False
  have "(w - r) mod s = (w - r + s) mod s" by simp
  also have "\<dots> = w - r + s" using False assms by (intro mod_pos_pos_trivial) simp_all
  finally show ?thesis using False by simp
qed

lemma mod_succ_ring:
  fixes s :: int
  assumes "0 \<le> w" and "w < s"
  shows "(w + 1) mod s = (if w + 1 = s then 0 else w + 1)"
  using assms by (simp add: mod_pos_pos_trivial)

text \<open>Subtraction of unsigned numbers that does not wrap around.\<close>

lemma mod_sub_wrap:
  fixes a b m :: nat
  assumes "b \<le> a" and "a < m"
  shows "(a + m - b) mod m = a - b"
proof -
  have "a + m - b = (a - b) + m" using assms(1) by simp
  then have "(a + m - b) mod m = (a - b) mod m" by (simp only: mod_add_self2)
  also have "\<dots> = a - b" using assms by (intro mod_less) simp
  finally show ?thesis .
qed

end
