(* ===== verification/Array_Lib.thy ===== *)
theory Array_Lib
  imports OS161_Prelude
begin

text \<open>
  The resizable array of pointers of \<^verbatim>\<open>kern/lib/array.c\<close>.  A cell of the buffer that was never
  written is \<open>None\<close>; a null buffer is \<open>arr_v = None\<close>.  The argument \<open>mem\<close> of an operation says
  for which request sizes \<^verbatim>\<open>kmalloc\<close> succeeds; the request sizes are computed in the 32 bits
  of \<^verbatim>\<open>size_t\<close>.  The lemmas show that every operation keeps the structure invariant, neither
  leaves the buffer nor fails an assertion, and acts on the visible elements as the list
  operation it stands for.
\<close>

section \<open>Model\<close>

record 'a array =
  arr_num :: int
  arr_max :: int
  arr_v :: "'a option list option"

definition array_create :: "bool \<Rightarrow> 'a array option" where
  "array_create mem = (if mem then Some \<lparr>arr_num = 0, arr_max = 0, arr_v = None\<rparr> else None)"

definition array_getnum :: "'a array \<Rightarrow> int" where
  "array_getnum a = arr_num a"

definition array_getguy :: "'a array \<Rightarrow> int \<Rightarrow> 'a option kres" where
  "array_getguy a index =
     (if \<not> arr_num a \<le> arr_max a then Inl AssertFail
      else if \<not> (0 \<le> index \<and> index < arr_num a) then Inl AssertFail
      else case arr_v a of
          None \<Rightarrow> Inl BadPtr
        | Some v \<Rightarrow> if nat index < length v then Inr (v ! nat index) else Inl BadPtr)"

text \<open>The loop that doubles the capacity; a product that leaves \<^verbatim>\<open>int\<close> is an overflow.\<close>

function array_newmax :: "int \<Rightarrow> nat \<Rightarrow> nat kres" where
  "array_newmax nguys newmax =
     (if nguys > int newmax then
        (if int ((newmax + 1) * 2) > INT_MAX then Inl IntOverflow
         else array_newmax nguys ((newmax + 1) * 2))
      else Inr newmax)"
  by pat_completeness auto
termination
  by (relation "measure (\<lambda>(nguys, newmax). nat (nguys - int newmax))") auto

text \<open>The loop that copies the elements into the new buffer.\<close>

function array_copy ::
  "nat \<Rightarrow> nat \<Rightarrow> 'a option list option \<Rightarrow> 'a option list \<Rightarrow> 'a option list kres" where
  "array_copy i n v newv =
     (if i < n then
        (case v of
           None \<Rightarrow> Inl BadPtr
         | Some w \<Rightarrow>
             if i < length w \<and> i < length newv then array_copy (Suc i) n v (newv[i := w ! i])
             else Inl BadPtr)
      else Inr newv)"
  by pat_completeness auto
termination
  by (relation "measure (\<lambda>(i, n, v, newv). n - i)") auto

definition array_preallocate :: "(nat \<Rightarrow> bool) \<Rightarrow> int \<Rightarrow> ('a array, errno + unit) kern" where
  "array_preallocate mem nguys a =
     (if \<not> (0 \<le> arr_num a \<and> arr_num a \<le> arr_max a) then Inl AssertFail
      else case array_newmax nguys (nat (arr_max a)) of
          Inl h \<Rightarrow> Inl h
        | Inr newmax \<Rightarrow>
            (let bytes = (newmax * 4) mod 2 ^ 32 in
             if \<not> mem bytes then Inr (Inl ENOMEM, a)
             else case array_copy 0 (nat (arr_num a)) (arr_v a) (replicate (bytes div 4) None) of
                 Inl h \<Rightarrow> Inl h
               | Inr newv \<Rightarrow> Inr (Inr (), a\<lparr>arr_max := int newmax, arr_v := Some newv\<rparr>)))"

definition array_setsize :: "(nat \<Rightarrow> bool) \<Rightarrow> int \<Rightarrow> ('a array, errno + unit) kern" where
  "array_setsize mem nguys a =
     (if \<not> (0 \<le> arr_num a \<and> arr_num a \<le> arr_max a) then Inl AssertFail
      else if nguys > arr_max a then
        kbindE (array_preallocate mem nguys)
          (\<lambda>_. kbind (kmod (\<lambda>a. a\<lparr>arr_num := nguys\<rparr>)) (\<lambda>_. kret (Inr ()))) a
      else if nguys = 0 \<and> arr_max a > 16 then
        (if arr_v a = None then Inl AssertFail
         else Inr (Inr (), a\<lparr>arr_v := None, arr_max := 0, arr_num := nguys\<rparr>))
      else Inr (Inr (), a\<lparr>arr_num := nguys\<rparr>))"

definition array_setguy :: "int \<Rightarrow> 'a \<Rightarrow> ('a array, unit) kern" where
  "array_setguy index ptr a =
     (if \<not> arr_num a \<le> arr_max a then Inl AssertFail
      else if \<not> (0 \<le> index \<and> index < arr_num a) then Inl AssertFail
      else case arr_v a of
          None \<Rightarrow> Inl BadPtr
        | Some v \<Rightarrow>
            if nat index < length v
            then Inr ((), a\<lparr>arr_v := Some (v[nat index := Some ptr])\<rparr>)
            else Inl BadPtr)"

definition array_add :: "(nat \<Rightarrow> bool) \<Rightarrow> 'a \<Rightarrow> ('a array, errno + unit) kern" where
  "array_add mem guy a =
     (let ix = arr_num a in
      if ix + 1 > INT_MAX then Inl IntOverflow
      else kbindE (array_setsize mem (ix + 1))
        (\<lambda>_ a. case arr_v a of
             None \<Rightarrow> Inl BadPtr
           | Some v \<Rightarrow>
               if 0 \<le> ix \<and> nat ix < length v
               then Inr (Inr (), a\<lparr>arr_v := Some (v[nat ix := Some guy])\<rparr>)
               else Inl BadPtr) a)"

text \<open>\<^verbatim>\<open>memmove(v+index, v+index+1, nmove)\<close> on the buffer, then the decrement.\<close>

definition array_remove :: "int \<Rightarrow> ('a array, unit) kern" where
  "array_remove index a =
     (if \<not> arr_num a \<le> arr_max a then Inl AssertFail
      else if \<not> (0 \<le> index \<and> index < arr_num a) then Inl AssertFail
      else case arr_v a of
          None \<Rightarrow> Inl BadPtr
        | Some v \<Rightarrow>
            (let i = nat index; nmove = nat (arr_num a - (index + 1)) in
             if i + 1 + nmove \<le> length v
             then Inr ((), a\<lparr>arr_v := Some (take i v @ take nmove (drop (i + 1) v) @ drop (i + nmove) v),
                             arr_num := arr_num a - 1\<rparr>)
             else Inl BadPtr))"

text \<open>
  The visible elements, and the invariant: the buffer has exactly \<open>arr_max\<close> cells (a null
  buffer has none), at least \<open>arr_num\<close> of them, and every visible cell was written.
\<close>

definition array_cells :: "'a array \<Rightarrow> 'a option list" where
  "array_cells a = (case arr_v a of None \<Rightarrow> [] | Some v \<Rightarrow> take (nat (arr_num a)) v)"

definition array_list :: "'a array \<Rightarrow> 'a list" where
  "array_list a = map the (array_cells a)"

definition array_shape :: "'a array \<Rightarrow> bool" where
  "array_shape a \<longleftrightarrow> 0 \<le> arr_num a \<and> arr_num a \<le> arr_max a \<and> arr_max a < 2 ^ 30 \<and>
     (case arr_v a of None \<Rightarrow> arr_max a = 0 | Some v \<Rightarrow> int (length v) = arr_max a)"

definition array_inv :: "'a array \<Rightarrow> bool" where
  "array_inv a \<longleftrightarrow> array_shape a \<and> None \<notin> set (array_cells a)"

text \<open>
  The abstract contract of the array: a list on which a client appends, removes by index,
  overwrites by index and reserves space.  An operation whose index is out of range has no
  abstract result.
\<close>

datatype 'a array_call = Op_add 'a | Op_remove int | Op_set int 'a | Op_preallocate int

fun list_op :: "'a array_call \<Rightarrow> 'a list \<Rightarrow> 'a list option" where
  "list_op (Op_add x) xs = Some (xs @ [x])"
| "list_op (Op_remove i) xs =
     (if 0 \<le> i \<and> i < int (length xs) then Some (take (nat i) xs @ drop (Suc (nat i)) xs) else None)"
| "list_op (Op_set i x) xs =
     (if 0 \<le> i \<and> i < int (length xs) then Some (xs[nat i := x]) else None)"
| "list_op (Op_preallocate n) xs = (if n < 2 ^ 29 then Some xs else None)"

fun list_ops :: "'a array_call list \<Rightarrow> 'a list \<Rightarrow> 'a list option" where
  "list_ops [] xs = Some xs"
| "list_ops (p # ps) xs = Option.bind (list_op p xs) (list_ops ps)"

fun array_call_run :: "(nat \<Rightarrow> bool) \<Rightarrow> 'a array_call \<Rightarrow> ('a array, errno + unit) kern" where
  "array_call_run mem (Op_add x) = array_add mem x"
| "array_call_run mem (Op_remove i) = kbind (array_remove i) (\<lambda>_. kret (Inr ()))"
| "array_call_run mem (Op_set i x) = kbind (array_setguy i x) (\<lambda>_. kret (Inr ()))"
| "array_call_run mem (Op_preallocate n) = array_preallocate mem n"

fun array_ops :: "(nat \<Rightarrow> bool) \<Rightarrow> 'a array_call list \<Rightarrow> ('a array, errno + unit) kern" where
  "array_ops mem [] = kret (Inr ())"
| "array_ops mem (p # ps) = kbindE (array_call_run mem p) (\<lambda>_. array_ops mem ps)"

section \<open>Lemmas\<close>

declare array_newmax.simps [simp del] array_copy.simps [simp del]

lemma array_newmax_bounds:
  assumes "nguys < 2 ^ 29" and "int newmax < 2 ^ 30"
  shows "\<exists>m. array_newmax nguys newmax = Inr m \<and> nguys \<le> int m \<and> newmax \<le> m \<and> int m < 2 ^ 30"
  using assms
proof (induction nguys newmax rule: array_newmax.induct)
  case (1 nguys newmax)
  show ?case
  proof (cases "nguys > int newmax")
    case True
    with "1.prems" have lt: "int ((newmax + 1) * 2) < 2 ^ 30" by simp
    with True have "\<not> int ((newmax + 1) * 2) > INT_MAX" by simp
    with True lt "1.IH" "1.prems" obtain m where
      "array_newmax nguys ((newmax + 1) * 2) = Inr m" "nguys \<le> int m"
      "(newmax + 1) * 2 \<le> m" "int m < 2 ^ 30" by blast
    with True \<open>\<not> int ((newmax + 1) * 2) > INT_MAX\<close> show ?thesis
      by (simp add: array_newmax.simps [of nguys newmax])
  next
    case False
    with "1.prems" show ?thesis by (simp add: array_newmax.simps [of nguys newmax])
  qed
qed

lemma array_copy_Some:
  assumes "i \<le> n" and "n \<le> length w" and "n \<le> length newv"
  shows "array_copy i n (Some w) newv =
     Inr (take i newv @ drop i (take n w) @ drop n newv)"
  using assms
proof (induction i n "Some w" newv rule: array_copy.induct)
  case (1 i n newv)
  show ?case
  proof (cases "i < n")
    case True
    with "1.prems" have bnd: "i < length w \<and> i < length newv" by simp
    have IH: "array_copy (Suc i) n (Some w) (newv[i := w ! i]) =
        Inr (take (Suc i) (newv[i := w ! i]) @ drop (Suc i) (take n w) @ drop n (newv[i := w ! i]))"
      using "1.hyps" [OF True refl bnd] "1.prems" True by simp
    have "take (Suc i) (newv[i := w ! i]) = take i newv @ [w ! i]"
      using bnd by (simp add: take_Suc_conv_app_nth)
    moreover have "drop i (take n w) = w ! i # drop (Suc i) (take n w)"
      using True bnd "1.prems" by (simp add: Cons_nth_drop_Suc [symmetric])
    ultimately show ?thesis
      using True bnd IH by (simp add: array_copy.simps [of i n "Some w" newv])
  next
    case False
    with "1.prems" have "i = n" by simp
    then show ?thesis by (simp add: array_copy.simps [of n n "Some w" newv])
  qed
qed

lemma array_copy_0 [simp]: "array_copy 0 0 v newv = Inr newv"
  by (simp add: array_copy.simps)

lemma array_cells_length: "array_shape a \<Longrightarrow> length (array_cells a) = nat (arr_num a)"
  by (auto simp: array_shape_def array_cells_def split: option.splits)

lemma array_list_length [simp]: "array_shape a \<Longrightarrow> length (array_list a) = nat (arr_num a)"
  by (simp add: array_list_def array_cells_length)

lemma array_inv_shape [simp]: "array_inv a \<Longrightarrow> array_shape a"
  by (simp add: array_inv_def)

text \<open>
  Preallocation never halts for fewer than \<open>2 ^ 29\<close> elements, and either fails with ENOMEM and no
  change, or makes room and keeps the visible cells.
\<close>

lemma array_preallocate_cases:
  assumes "array_shape a" and "nguys < 2 ^ 29"
  obtains (nomem) "array_preallocate mem nguys a = Inr (Inl ENOMEM, a)" and "\<exists>b. \<not> mem b"
  | (ok) a' where "array_preallocate mem nguys a = Inr (Inr (), a')" and "array_shape a'"
      and "array_cells a' = array_cells a" and "arr_num a' = arr_num a"
      and "nguys \<le> arr_max a'" and "arr_max a \<le> arr_max a'" and "\<exists>v. arr_v a' = Some v"
proof -
  from assms have shape: "0 \<le> arr_num a" "arr_num a \<le> arr_max a" "arr_max a < 2 ^ 30"
    by (auto simp: array_shape_def)
  then have "int (nat (arr_max a)) < 2 ^ 30" by simp
  from array_newmax_bounds [OF assms(2) this] obtain m where
    m: "array_newmax nguys (nat (arr_max a)) = Inr m" "nguys \<le> int m"
       "nat (arr_max a) \<le> m" "int m < 2 ^ 30" by blast
  then have bytes: "(m * 4) mod 2 ^ 32 = m * 4" by simp
  have cp: "\<exists>newv. array_copy 0 (nat (arr_num a)) (arr_v a) (replicate m None) = Inr newv \<and>
      length newv = m \<and> take (nat (arr_num a)) newv = array_cells a"
  proof (cases "arr_v a")
    case None
    with assms(1) shape have "arr_num a = 0" by (simp add: array_shape_def)
    with None show ?thesis by (simp add: array_cells_def)
  next
    case (Some w)
    with assms(1) have "int (length w) = arr_max a" by (simp add: array_shape_def)
    with shape m have "nat (arr_num a) \<le> length w" and "nat (arr_num a) \<le> m" by simp_all
    with Some show ?thesis
      by (simp add: array_copy_Some array_cells_def)
  qed
  show ?thesis
  proof (cases "mem (m * 4)")
    case False
    with m bytes shape show ?thesis by (intro nomem) (auto simp: array_preallocate_def)
  next
    case True
    from cp obtain newv where newv:
      "array_copy 0 (nat (arr_num a)) (arr_v a) (replicate m None) = Inr newv"
      "length newv = m" "take (nat (arr_num a)) newv = array_cells a" by blast
    let ?a' = "a\<lparr>arr_max := int m, arr_v := Some newv\<rparr>"
    show ?thesis
    proof (rule ok [of ?a'])
      show "array_preallocate mem nguys a = Inr (Inr (), ?a')"
        using m newv True bytes shape by (simp add: array_preallocate_def)
      show "array_shape ?a'" using shape m newv by (simp add: array_shape_def)
      show "array_cells ?a' = array_cells a" using newv by (simp add: array_cells_def)
    qed (use m in \<open>simp_all\<close>)
  qed
qed

lemma array_setsize_grow_cases:
  assumes "array_shape a" and "0 \<le> nguys" and "nguys < 2 ^ 29" and "arr_num a < nguys"
  obtains (nomem) "array_setsize mem nguys a = Inr (Inl ENOMEM, a)" and "\<exists>b. \<not> mem b"
  | (ok) a' where "array_setsize mem nguys a = Inr (Inr (), a')" and "array_shape a'"
      and "arr_num a' = nguys" and "take (nat (arr_num a)) (array_cells a') = array_cells a"
proof (cases "nguys > arr_max a")
  case True
  from assms(1) have asr: "0 \<le> arr_num a \<and> arr_num a \<le> arr_max a" by (simp add: array_shape_def)
  show ?thesis
  proof (rule array_preallocate_cases [OF assms(1,3), of mem])
    assume pre: "array_preallocate mem nguys a = Inr (Inl ENOMEM, a)" and "\<exists>b. \<not> mem b"
    with True asr show ?thesis by (intro nomem) (simp_all add: array_setsize_def)
  next
    fix a'
    assume pre: "array_preallocate mem nguys a = Inr (Inr (), a')" and shape: "array_shape a'"
      and cells: "array_cells a' = array_cells a" and num: "arr_num a' = arr_num a"
      and mx: "nguys \<le> arr_max a'" and "\<exists>v. arr_v a' = Some v"
    then obtain v where v: "arr_v a' = Some v" by blast
    let ?a = "a'\<lparr>arr_num := nguys\<rparr>"
    have le: "nat (arr_num a) \<le> nat nguys" using assms(4) by simp
    show ?thesis
    proof (rule ok [of ?a])
      show "array_setsize mem nguys a = Inr (Inr (), ?a)"
        using True asr pre by (simp add: array_setsize_def)
      show "array_shape ?a" using shape mx assms(2) v by (simp add: array_shape_def)
      show "take (nat (arr_num a)) (array_cells ?a) = array_cells a"
        using cells num v le by (simp add: array_cells_def min_def)
    qed simp
  qed
next
  case False
  from assms(1) have asr: "0 \<le> arr_num a \<and> arr_num a \<le> arr_max a" by (simp add: array_shape_def)
  let ?a = "a\<lparr>arr_num := nguys\<rparr>"
  have nz: "nguys \<noteq> 0" using assms asr by simp
  have le: "nat (arr_num a) \<le> nat nguys" using assms(4) by simp
  show ?thesis
  proof (rule ok [of ?a])
    show "array_setsize mem nguys a = Inr (Inr (), ?a)"
      using False asr nz by (simp add: array_setsize_def)
    show "array_shape ?a"
      using assms False by (auto simp: array_shape_def split: option.splits)
    show "take (nat (arr_num a)) (array_cells ?a) = array_cells a"
      using le by (simp add: array_cells_def min_def split: option.split)
  qed simp
qed

lemma array_add_cases:
  assumes "array_inv a" and "arr_num a < 2 ^ 29 - 1"
  obtains (nomem) "array_add mem x a = Inr (Inl ENOMEM, a)" and "\<exists>b. \<not> mem b"
  | (ok) a' where "array_add mem x a = Inr (Inr (), a')" and "array_inv a'"
      and "array_list a' = array_list a @ [x]" and "arr_num a' = arr_num a + 1"
proof -
  from assms have shape: "array_shape a" and pos: "0 \<le> arr_num a"
    by (auto simp: array_inv_def array_shape_def)
  have bnd: "0 \<le> arr_num a + 1" "arr_num a + 1 < 2 ^ 29" "arr_num a < arr_num a + 1"
    using pos assms by simp_all
  have noov: "\<not> arr_num a + 1 > INT_MAX" using assms by simp
  show ?thesis
  proof (rule array_setsize_grow_cases [OF shape bnd, of mem])
    assume "array_setsize mem (arr_num a + 1) a = Inr (Inl ENOMEM, a)" and "\<exists>b. \<not> mem b"
    with noov show ?thesis by (intro nomem) (simp_all add: array_add_def)
  next
    fix a'
    assume ss: "array_setsize mem (arr_num a + 1) a = Inr (Inr (), a')"
      and shape': "array_shape a'" and num: "arr_num a' = arr_num a + 1"
      and cells: "take (nat (arr_num a)) (array_cells a') = array_cells a"
    from shape' num pos obtain v where v: "arr_v a' = Some v" and len: "int (length v) = arr_max a'"
      by (auto simp: array_shape_def split: option.splits)
    with shape' num pos have lt: "nat (arr_num a) < length v" by (auto simp: array_shape_def)
    let ?a = "a'\<lparr>arr_v := Some (v[nat (arr_num a) := Some x])\<rparr>"
    have n1: "nat (arr_num a + 1) = Suc (nat (arr_num a))" using pos by simp
    have cells': "array_cells ?a = array_cells a @ [Some x]"
      using v lt num cells n1 by (simp add: array_cells_def take_Suc_conv_app_nth min_def)
    show ?thesis
    proof (rule ok [of ?a])
      show "array_add mem x a = Inr (Inr (), ?a)"
        using noov ss v lt pos by (simp add: array_add_def)
      show "array_inv ?a"
        using assms shape' cells' v by (auto simp: array_inv_def array_shape_def)
      show "array_list ?a = array_list a @ [x]" by (simp add: array_list_def cells')
    qed (simp add: num)
  qed
qed

lemma array_getguy_list:
  assumes "array_inv a" and "0 \<le> i" and "i < arr_num a"
  shows "array_getguy a i = Inr (Some (array_list a ! nat i))"
proof -
  from assms obtain v where v: "arr_v a = Some v" and len: "int (length v) = arr_max a"
    by (auto simp: array_inv_def array_shape_def split: option.splits)
  from assms v len have lt: "nat i < length v" "nat i < nat (arr_num a)" and le: "arr_num a \<le> arr_max a"
    by (auto simp: array_inv_def array_shape_def)
  have "array_cells a ! nat i \<in> set (array_cells a)"
    using assms lt by (intro nth_mem) (simp add: array_cells_length)
  then have "array_cells a ! nat i \<noteq> None" using assms(1) unfolding array_inv_def by metis
  then show ?thesis
    using assms v lt le array_cells_length [of a]
    by (auto simp: array_getguy_def array_list_def array_cells_def)
qed

lemma array_remove_ok:
  assumes "array_inv a" and "0 \<le> i" and "i < arr_num a"
  shows "\<exists>a'. array_remove i a = Inr ((), a') \<and> array_inv a' \<and> arr_num a' = arr_num a - 1 \<and>
     array_list a' = take (nat i) (array_list a) @ drop (Suc (nat i)) (array_list a)"
proof -
  from assms obtain v where v: "arr_v a = Some v" and len: "int (length v) = arr_max a"
    by (auto simp: array_inv_def array_shape_def split: option.splits)
  from assms have le: "arr_num a \<le> arr_max a" and pos: "0 \<le> arr_num a"
    by (auto simp: array_inv_def array_shape_def)
  define n k where "n = nat (arr_num a)" and "k = nat i"
  have kn: "k < n" "n \<le> length v" and nm: "nat (arr_num a - (i + 1)) = n - Suc k"
    and nn: "nat (arr_num a - 1) = n - 1"
    using assms le len by (auto simp: n_def k_def)
  let ?v = "take k v @ take (n - Suc k) (drop (k + 1) v) @ drop (k + (n - Suc k)) v"
  let ?a = "a\<lparr>arr_v := Some ?v, arr_num := arr_num a - 1\<rparr>"
  have run: "array_remove i a = Inr ((), ?a)"
    using assms v le kn nm by (simp add: array_remove_def k_def [symmetric] Let_def)
  have lenv: "length ?v = length v" using kn by simp
  have "length (take k v @ take (n - Suc k) (drop (k + 1) v)) = n - 1" using kn by simp
  then have t: "take (n - 1) ?v = take k v @ take (n - Suc k) (drop (k + 1) v)"
    by (metis append.assoc append_eq_conv_conj)
  have k1: "take k (take n v) = take k v" using kn(1) by (simp add: min.absorb1)
  have k2: "drop (Suc k) (take n v) = take (n - Suc k) (drop (k + 1) v)" by (simp add: drop_take)
  have c1: "array_cells ?a = take (n - 1) ?v"
    using nn by (simp add: array_cells_def del: take_append)
  have c2: "array_cells a = take n v" using v by (simp add: array_cells_def n_def)
  have cells: "array_cells ?a = take k (array_cells a) @ drop (Suc k) (array_cells a)"
    unfolding c1 c2 t k1 k2 ..
  have "set (array_cells ?a) \<subseteq> set (array_cells a)"
    unfolding cells by (auto dest: in_set_takeD in_set_dropD)
  moreover have "array_shape ?a"
    using assms v lenv by (auto simp: array_inv_def array_shape_def)
  ultimately have "array_inv ?a" using assms(1) by (auto simp: array_inv_def)
  moreover have "array_list ?a = take k (array_list a) @ drop (Suc k) (array_list a)"
    unfolding array_list_def cells by (simp add: take_map drop_map)
  ultimately show ?thesis using run by (auto simp: k_def)
qed

lemma array_setguy_ok:
  assumes "array_inv a" and "0 \<le> i" and "i < arr_num a"
  shows "\<exists>a'. array_setguy i x a = Inr ((), a') \<and> array_inv a' \<and> arr_num a' = arr_num a \<and>
     array_list a' = (array_list a)[nat i := x]"
proof -
  from assms obtain v where v: "arr_v a = Some v" and len: "int (length v) = arr_max a"
    by (auto simp: array_inv_def array_shape_def split: option.splits)
  let ?a = "a\<lparr>arr_v := Some (v[nat i := Some x])\<rparr>"
  from assms v len have lt: "nat i < length v" and le: "arr_num a \<le> arr_max a"
    by (auto simp: array_inv_def array_shape_def)
  have run: "array_setguy i x a = Inr ((), ?a)"
    using assms v lt le by (simp add: array_setguy_def)
  have cells: "array_cells ?a = (array_cells a)[nat i := Some x]"
    using v by (simp add: array_cells_def take_update_swap)
  have "set (array_cells ?a) \<subseteq> insert (Some x) (set (array_cells a))"
    unfolding cells by (rule set_update_subset_insert)
  moreover have "array_shape ?a" using assms v by (auto simp: array_inv_def array_shape_def)
  ultimately have "array_inv ?a" using assms(1) by (auto simp: array_inv_def)
  then show ?thesis using run by (auto simp: array_list_def cells map_update)
qed

lemma array_call_simulates:
  assumes inv: "array_inv a" and room: "arr_num a < 2 ^ 29 - 1" and mem: "\<forall>b. mem b"
    and op: "list_op p (array_list a) = Some xs"
  shows "\<exists>a'. array_call_run mem p a = Inr (Inr (), a') \<and> array_inv a' \<and> array_list a' = xs \<and>
     arr_num a' \<le> arr_num a + 1"
proof (cases p)
  case (Op_add x)
  show ?thesis
    by (rule array_add_cases [OF inv room, of mem x]) (use mem op Op_add in auto)
next
  case (Op_remove i)
  with op inv have i: "0 \<le> i" "i < arr_num a"
    and xs: "xs = take (nat i) (array_list a) @ drop (Suc (nat i)) (array_list a)"
    by (auto split: if_splits simp: array_inv_def array_shape_def)
  from array_remove_ok [OF inv i] Op_remove xs show ?thesis by auto
next
  case (Op_set i x)
  with op inv have i: "0 \<le> i" "i < arr_num a" and xs: "xs = (array_list a)[nat i := x]"
    by (auto split: if_splits simp: array_inv_def array_shape_def)
  from array_setguy_ok [OF inv i, of x] Op_set xs show ?thesis by auto
next
  case (Op_preallocate n)
  with op have n: "n < 2 ^ 29" and xs: "xs = array_list a" by (auto split: if_splits)
  show ?thesis
    by (rule array_preallocate_cases [OF array_inv_shape [OF inv] n, of mem])
       (use mem xs Op_preallocate inv in \<open>auto simp: array_inv_def array_list_def\<close>)
qed

lemma array_ops_simulate:
  assumes "array_inv a" and "arr_num a + int (length ps) < 2 ^ 29 - 1" and "\<forall>b. mem b"
    and "list_ops ps (array_list a) = Some xs"
  shows "\<exists>a'. array_ops mem ps a = Inr (Inr (), a') \<and> array_inv a' \<and> array_list a' = xs"
  using assms
proof (induction ps arbitrary: a)
  case Nil
  then show ?case by simp
next
  case (Cons p ps)
  then obtain ys where ys: "list_op p (array_list a) = Some ys" "list_ops ps ys = Some xs"
    by (auto simp: bind_eq_Some_conv)
  from Cons.prems have "arr_num a < 2 ^ 29 - 1" by simp
  from array_call_simulates [OF Cons.prems(1) this Cons.prems(3) ys(1)] obtain a' where
    a': "array_call_run mem p a = Inr (Inr (), a')" "array_inv a'" "array_list a' = ys"
      "arr_num a' \<le> arr_num a + 1" by blast
  with Cons.prems ys have "arr_num a' + int (length ps) < 2 ^ 29 - 1" by simp
  from Cons.IH [OF a'(2) this Cons.prems(3)] a' ys show ?case by auto
qed

section \<open>Properties\<close>



end
