(* ===== verification/Queue_Lib.thy ===== *)
theory Queue_Lib
  imports OS161_Prelude
begin

text \<open>
  The queue of pointers of \<^verbatim>\<open>kern/lib/queue.c\<close>: a circular buffer that keeps one cell free and
  doubles when it is full.  \<^verbatim>\<open>q_grow\<close> and \<^verbatim>\<open>q_addtail\<close> call each other; the model bounds the
  depth of that recursion by fuel, and the lemmas show that depth one is always enough because
  the elements are copied into a buffer that has room for them.  The theory also states the
  interface the scheduler relies on, the locale \<open>fifo\<close>, and interprets it by this queue.
\<close>

section \<open>Model\<close>

record 'a queue =
  q_size :: int
  q_nextwrite :: int
  q_nextread :: int
  q_data :: "'a option list"

text \<open>Reading and writing \<^verbatim>\<open>q->data[i]\<close>.\<close>

definition q_cell :: "'a option list \<Rightarrow> int \<Rightarrow> 'a option kres" where
  "q_cell d i = (if 0 \<le> i \<and> nat i < length d then Inr (d ! nat i) else Inl BadPtr)"

function q_newsize :: "int \<Rightarrow> int \<Rightarrow> int kres" where
  "q_newsize targetsize nsize =
     (if nsize < targetsize then
        (if nsize * 2 > INT_MAX then Inl IntOverflow
         else if \<not> nsize * 2 > 0 then Inl AssertFail
         else q_newsize targetsize (nsize * 2))
      else Inr nsize)"
  by pat_completeness auto
termination
  by (relation "measure (\<lambda>(targetsize, nsize). nat (targetsize - nsize))") auto

text \<open>
  The loop \<^verbatim>\<open>for (i=onr; i!=onw; i = (i+1)%osize)\<close> of \<^verbatim>\<open>q_grow\<close>, for the function \<open>add\<close> that
  stands for \<^verbatim>\<open>q_addtail\<close>; the first argument bounds the number of iterations.
\<close>

fun q_copy ::
  "('a option \<Rightarrow> ('a queue, errno + unit) kern) \<Rightarrow> nat \<Rightarrow> int \<Rightarrow> int \<Rightarrow> int \<Rightarrow> 'a option list \<Rightarrow>
     ('a queue, unit) kern" where
  "q_copy add k i onw osize olddata =
     (if i = onw then kret ()
      else case k of
          0 \<Rightarrow> khalt OutOfFuel
        | Suc k' \<Rightarrow>
            (case q_cell olddata i of
               Inl h \<Rightarrow> khalt h
             | Inr p \<Rightarrow>
                 kbind (add p)
                   (\<lambda>r. if r \<noteq> Inr () then khalt AssertFail
                        else q_copy add k' ((i + 1) mod osize) onw osize olddata)))"

definition q_grow_body ::
  "('a option \<Rightarrow> ('a queue, errno + unit) kern) \<Rightarrow> (nat \<Rightarrow> bool) \<Rightarrow> int \<Rightarrow> ('a queue, errno + unit) kern"
where
  "q_grow_body add mem targetsize q =
     (case q_newsize targetsize (q_size q) of
        Inl h \<Rightarrow> Inl h
      | Inr nsize \<Rightarrow>
          (let bytes = (nat nsize * 4) mod 2 ^ 32 in
           if \<not> mem bytes then Inr (Inl ENOMEM, q)
           else kbind
             (q_copy add (nat (q_size q)) (q_nextread q) (q_nextwrite q) (q_size q) (q_data q))
             (\<lambda>_. kret (Inr ()))
             (q\<lparr>q_size := nsize, q_data := replicate (bytes div 4) None,
                q_nextread := 0, q_nextwrite := 0\<rparr>)))"

definition q_addtail_body ::
  "(int \<Rightarrow> ('a queue, errno + unit) kern) \<Rightarrow> 'a option \<Rightarrow> ('a queue, errno + unit) kern" where
  "q_addtail_body grow ptr q =
     (let put = (\<lambda>q nextnext.
            if 0 \<le> q_nextwrite q \<and> nat (q_nextwrite q) < length (q_data q)
            then Inr (Inr (), q\<lparr>q_data := (q_data q)[nat (q_nextwrite q) := ptr],
                                q_nextwrite := nextnext\<rparr>)
            else Inl BadPtr) in
      if \<not> q_size q > 0 then Inl AssertFail
      else if (q_nextwrite q + 1) mod q_size q = q_nextread q then
        kbindE (grow (q_size q + 1)) (\<lambda>_ q. put q ((q_nextwrite q + 1) mod q_size q)) q
      else put q ((q_nextwrite q + 1) mod q_size q))"

primrec q_addtail_fuel ::
  "nat \<Rightarrow> (nat \<Rightarrow> bool) \<Rightarrow> 'a option \<Rightarrow> ('a queue, errno + unit) kern" where
  "q_addtail_fuel 0 mem = q_addtail_body (\<lambda>_. khalt OutOfFuel)"
| "q_addtail_fuel (Suc n) mem = q_addtail_body (q_grow_body (q_addtail_fuel n mem) mem)"

definition q_addtail :: "(nat \<Rightarrow> bool) \<Rightarrow> 'a \<Rightarrow> ('a queue, errno + unit) kern" where
  "q_addtail mem ptr = q_addtail_fuel 1 mem (Some ptr)"

definition q_grow :: "(nat \<Rightarrow> bool) \<Rightarrow> int \<Rightarrow> ('a queue, errno + unit) kern" where
  "q_grow mem = q_grow_body (q_addtail_fuel 0 mem) mem"

definition q_create :: "bool \<Rightarrow> (nat \<Rightarrow> bool) \<Rightarrow> int \<Rightarrow> 'a queue option" where
  "q_create hdr mem sz =
     (if \<not> hdr then None
      else let bytes = nat ((sz * 4) mod 2 ^ 32) in
        if \<not> mem bytes then None
        else Some \<lparr>q_size = sz, q_nextwrite = 0, q_nextread = 0,
                   q_data = replicate (bytes div 4) None\<rparr>)"

definition q_preallocate :: "(nat \<Rightarrow> bool) \<Rightarrow> int \<Rightarrow> ('a queue, errno + unit) kern" where
  "q_preallocate mem sz q =
     (if \<not> q_size q > 0 then Inl AssertFail
      else if sz > q_size q then q_grow mem sz q
      else Inr (Inr (), q))"

definition q_empty :: "'a queue \<Rightarrow> bool" where
  "q_empty q \<longleftrightarrow> q_nextwrite q = q_nextread q"

definition q_remhead :: "('a queue, 'a option) kern" where
  "q_remhead q =
     (if \<not> q_size q > 0 then Inl AssertFail
      else if q_empty q then Inl AssertFail
      else case q_cell (q_data q) (q_nextread q) of
          Inl h \<Rightarrow> Inl h
        | Inr ret \<Rightarrow> Inr (ret, q\<lparr>q_nextread := (q_nextread q + 1) mod q_size q\<rparr>))"

definition q_destroy :: "'a queue \<Rightarrow> unit kres" where
  "q_destroy q = (if q_empty q then Inr () else Inl AssertFail)"

definition q_getstart :: "'a queue \<Rightarrow> int" where "q_getstart q = q_nextread q"
definition q_getend :: "'a queue \<Rightarrow> int" where "q_getend q = q_nextwrite q"
definition q_getsize :: "'a queue \<Rightarrow> int" where "q_getsize q = q_size q"

definition q_getguy :: "'a queue \<Rightarrow> int \<Rightarrow> 'a option kres" where
  "q_getguy q index =
     (if \<not> (0 \<le> index \<and> index < q_size q) then Inl AssertFail else q_cell (q_data q) index)"

text \<open>The elements, from the read end to the write end, and the invariant.\<close>

definition q_len :: "'a queue \<Rightarrow> nat" where
  "q_len q = nat ((q_nextwrite q - q_nextread q) mod q_size q)"

definition ring :: "'a list \<Rightarrow> int \<Rightarrow> int \<Rightarrow> nat \<Rightarrow> 'a list" where
  "ring d s r n = map (\<lambda>k. d ! nat ((r + int k) mod s)) [0..<n]"

definition q_cells :: "'a queue \<Rightarrow> 'a option list" where
  "q_cells q = ring (q_data q) (q_size q) (q_nextread q) (q_len q)"

definition q_list :: "'a queue \<Rightarrow> 'a list" where
  "q_list q = map the (q_cells q)"

definition q_shape :: "'a queue \<Rightarrow> bool" where
  "q_shape q \<longleftrightarrow> 0 < q_size q \<and> q_size q < 2 ^ 30 \<and> int (length (q_data q)) = q_size q \<and>
     0 \<le> q_nextread q \<and> q_nextread q < q_size q \<and> 0 \<le> q_nextwrite q \<and> q_nextwrite q < q_size q"

definition q_inv :: "'a queue \<Rightarrow> bool" where
  "q_inv q \<longleftrightarrow> q_shape q \<and> None \<notin> set (q_cells q)"

section \<open>Lemmas\<close>

declare q_newsize.simps [simp del] q_copy.simps [simp del]

lemma q_newsize_bounds:
  assumes "0 < nsize" and "nsize < 2 ^ 30" and "targetsize < 2 ^ 29"
  shows "\<exists>n. q_newsize targetsize nsize = Inr n \<and> targetsize \<le> n \<and> nsize \<le> n \<and> n < 2 ^ 30 \<and>
     n \<le> max nsize (2 * targetsize)"
  using assms
proof (induction targetsize nsize rule: q_newsize.induct)
  case (1 t n)
  show ?case
  proof (cases "n < t")
    case True
    with "1.prems" have b: "\<not> n * 2 > INT_MAX" "n * 2 > 0" "n * 2 < 2 ^ 30" by simp_all
    with True "1.IH" "1.prems" obtain m where
      "q_newsize t (n * 2) = Inr m" "t \<le> m" "n * 2 \<le> m" "m < 2 ^ 30" "m \<le> max (n * 2) (2 * t)"
      by auto
    with True b show ?thesis by (simp add: q_newsize.simps [of t n])
  next
    case False
    with "1.prems" show ?thesis by (simp add: q_newsize.simps [of t n])
  qed
qed

lemma ring_length [simp]: "length (ring d s r n) = n"
  by (simp add: ring_def)

lemma ring_Suc: "ring d s r (Suc n) = ring d s r n @ [d ! nat ((r + int n) mod s)]"
  by (simp add: ring_def)

lemma ring_Cons:
  assumes "0 \<le> r" and "r < s"
  shows "ring d s r (Suc n) = d ! nat r # ring d s ((r + 1) mod s) n"
proof (rule nth_equalityI)
  fix i assume i: "i < length (ring d s r (Suc n))"
  show "ring d s r (Suc n) ! i = (d ! nat r # ring d s ((r + 1) mod s) n) ! i"
  proof (cases i)
    case 0
    with assms show ?thesis by (simp add: ring_def del: upt_Suc)
  next
    case (Suc j)
    have "(r + int (Suc j)) mod s = ((r + 1) mod s + int j) mod s"
      unfolding mod_add_left_eq by (simp add: ac_simps)
    with Suc i show ?thesis by (simp add: ring_def del: upt_Suc)
  qed
qed simp

lemma ring_update_other:
  assumes "0 < s" and "int (length d) = s" and "0 \<le> w" and "w < s" and "0 \<le> r" and "r < s"
    and "n \<le> nat ((w - r) mod s)"
  shows "ring (d[nat w := x]) s r n = ring d s r n"
proof -
  have "nat w \<noteq> nat ((r + int k) mod s)" if "k < n" for k
  proof
    assume "nat w = nat ((r + int k) mod s)"
    with assms have "(r + int k) mod s = w" by (simp add: nat_eq_iff)
    then have "(w - r) mod s = ((r + int k) mod s - r) mod s" by simp
    also have "\<dots> = int k mod s" by (simp add: mod_diff_left_eq)
    also have "\<dots> \<le> int k" using assms(1) by (simp add: zmod_le_nonneg_dividend)
    finally show False using that assms by (simp add: nat_le_iff le_nat_iff)
  qed
  then show ?thesis by (simp add: ring_def)
qed

lemma q_len_le: "q_shape q \<Longrightarrow> int (q_len q) < q_size q"
  by (simp add: q_len_def q_shape_def)

lemma q_full_iff:
  "q_shape q \<Longrightarrow> (q_nextwrite q + 1) mod q_size q = q_nextread q \<longleftrightarrow> int (q_len q) = q_size q - 1"
  by (auto simp: q_shape_def q_len_def mod_diff_ring mod_succ_ring)

lemma q_empty_iff: "q_shape q \<Longrightarrow> q_empty q \<longleftrightarrow> q_len q = 0"
  by (auto simp: q_shape_def q_len_def q_empty_def mod_diff_ring)

text \<open>What \<^verbatim>\<open>q_addtail\<close> does to a queue that is not full.\<close>

definition q_put :: "'a option \<Rightarrow> 'a queue \<Rightarrow> 'a queue" where
  "q_put p q = q\<lparr>q_data := (q_data q)[nat (q_nextwrite q) := p],
                 q_nextwrite := (q_nextwrite q + 1) mod q_size q\<rparr>"

lemma q_put_simps [simp]:
  "q_size (q_put p q) = q_size q" "q_nextread (q_put p q) = q_nextread q"
  by (simp_all add: q_put_def)

lemma q_put_facts:
  assumes "q_shape q" and "int (q_len q) < q_size q - 1"
  shows "q_shape (q_put p q)" and "q_len (q_put p q) = Suc (q_len q)"
    and "q_cells (q_put p q) = q_cells q @ [p]"
proof -
  show "q_shape (q_put p q)" using assms(1) by (simp add: q_put_def q_shape_def)
  show len: "q_len (q_put p q) = Suc (q_len q)"
    using assms by (auto simp: q_put_def q_shape_def q_len_def mod_diff_ring mod_succ_ring)
  have pos: "(q_nextread q + int (q_len q)) mod q_size q = q_nextwrite q"
    using assms(1) by (simp add: q_len_def q_shape_def mod_add_right_eq mod_pos_pos_trivial)
  have other: "ring ((q_data q)[nat (q_nextwrite q) := p]) (q_size q) (q_nextread q) (q_len q) =
      ring (q_data q) (q_size q) (q_nextread q) (q_len q)"
    using assms(1) by (intro ring_update_other) (auto simp: q_shape_def q_len_def)
  have "nat (q_nextwrite q) < length (q_data q)" using assms(1) by (auto simp: q_shape_def)
  then show "q_cells (q_put p q) = q_cells q @ [p]"
    unfolding q_cells_def len ring_Suc q_put_simps
    using pos other by (simp add: q_put_def)
qed

lemma q_addtail_body_room:
  assumes "q_shape q" and "int (q_len q) < q_size q - 1"
  shows "q_addtail_body grow p q = Inr (Inr (), q_put p q)"
proof -
  from assms have "(q_nextwrite q + 1) mod q_size q \<noteq> q_nextread q"
    using q_full_iff [OF assms(1)] by simp
  with assms(1) show ?thesis
    by (auto simp: q_addtail_body_def q_put_def q_shape_def)
qed

lemma q_addtail_fuel_room:
  "q_shape q \<Longrightarrow> int (q_len q) < q_size q - 1 \<Longrightarrow>
     q_addtail_fuel n mem p q = Inr (Inr (), q_put p q)"
  by (cases n) (simp_all add: q_addtail_body_room)

text \<open>The copy loop appends the elements of the old buffer, in order, to a queue with room.\<close>

lemma q_copy_appends:
  assumes "q_shape q" and d: "int (length d) = osize"
    and "0 \<le> i" and "i < osize" and onw: "0 \<le> onw" "onw < osize"
    and "int m = (onw - i) mod osize" and "m \<le> k"
    and "int (q_len q) + int m \<le> q_size q - 1"
    and add: "\<And>p q. q_shape q \<Longrightarrow> int (q_len q) < q_size q - 1 \<Longrightarrow> add p q = Inr (Inr (), q_put p q)"
  shows "\<exists>q'. q_copy add k i onw osize d q = Inr ((), q') \<and> q_shape q' \<and> q_size q' = q_size q \<and>
     q_cells q' = q_cells q @ ring d osize i m"
  using assms(1,3,4,7-9)
proof (induction m arbitrary: q i k)
  case 0
  with onw have "i = onw" by (simp add: mod_diff_ring split: if_splits)
  with 0 show ?case by (simp add: q_copy.simps [of add k] ring_def)
next
  case (Suc m)
  let ?i = "(i + 1) mod osize" and ?q = "q_put (d ! nat i) q"
  from Suc.prems(4) have ne: "i \<noteq> onw" by auto
  from Suc.prems(5) obtain k' where k: "k = Suc k'" "m \<le> k'" by (cases k) auto
  from Suc.prems(6) have room: "int (q_len q) < q_size q - 1" by simp
  note put = q_put_facts [OF Suc.prems(1) room, of "d ! nat i"]
  have cell: "q_cell d i = Inr (d ! nat i)" using Suc.prems(2,3) d by (simp add: q_cell_def nat_less_iff)
  have i': "0 \<le> ?i" "?i < osize" using onw by simp_all
  have m: "int m = (onw - ?i) mod osize"
    using Suc.prems(2-4) ne onw by (simp add: mod_succ_ring mod_diff_ring split: if_splits)
  have room': "int (q_len ?q) + int m \<le> q_size ?q - 1" using put(2) Suc.prems(6) by simp
  from Suc.IH [OF put(1) i' m k(2) room'] obtain q' where
    q': "q_copy add k' ?i onw osize d ?q = Inr ((), q')" "q_shape q'" "q_size q' = q_size ?q"
      "q_cells q' = q_cells ?q @ ring d osize ?i m" by blast
  have "q_copy add k i onw osize d q = q_copy add k' ?i onw osize d ?q"
    using ne k cell add [OF Suc.prems(1) room] by (simp add: q_copy.simps [of add "Suc k'"])
  moreover have "ring d osize i (Suc m) = d ! nat i # ring d osize ?i m"
    using Suc.prems(2,3) by (rule ring_Cons)
  ultimately show ?case using q' put(3) by simp
qed

lemma q_grow_body_cases:
  assumes "q_shape q" and "q_size q < targetsize" and "targetsize < 2 ^ 29"
    and "\<And>p q. q_shape q \<Longrightarrow> int (q_len q) < q_size q - 1 \<Longrightarrow> add p q = Inr (Inr (), q_put p q)"
  obtains (nomem) "q_grow_body add mem targetsize q = Inr (Inl ENOMEM, q)" and "\<exists>b. \<not> mem b"
  | (ok) q' where "q_grow_body add mem targetsize q = Inr (Inr (), q')" and "q_shape q'"
      and "targetsize \<le> q_size q'" and "q_cells q' = q_cells q"
      and "q_size q' \<le> max (q_size q) (2 * targetsize)"
proof -
  from assms(1) have sh: "0 < q_size q" "q_size q < 2 ^ 30" "int (length (q_data q)) = q_size q"
    "0 \<le> q_nextread q" "q_nextread q < q_size q" "0 \<le> q_nextwrite q" "q_nextwrite q < q_size q"
    by (auto simp: q_shape_def)
  from q_newsize_bounds [OF sh(1,2) assms(3)] obtain n where
    n: "q_newsize targetsize (q_size q) = Inr n" "targetsize \<le> n" "n < 2 ^ 30"
      "n \<le> max (q_size q) (2 * targetsize)" by blast
  have bytes: "(nat n * 4) mod 2 ^ 32 = nat n * 4" using n by simp
  show ?thesis
  proof (cases "mem (nat n * 4)")
    case False
    with n bytes show ?thesis by (intro nomem) (auto simp: q_grow_body_def)
  next
    case True
    let ?q0 = "q\<lparr>q_size := n, q_data := replicate (nat n) None, q_nextread := 0, q_nextwrite := 0\<rparr>"
    have q0: "q_shape ?q0" "q_len ?q0 = 0" "q_cells ?q0 = []"
      using n assms(2) sh by (auto simp: q_shape_def q_len_def q_cells_def ring_def)
    have len: "int (q_len q) = (q_nextwrite q - q_nextread q) mod q_size q"
      using sh(1) by (simp add: q_len_def)
    have "\<exists>q'. q_copy add (nat (q_size q)) (q_nextread q) (q_nextwrite q) (q_size q) (q_data q) ?q0 =
        Inr ((), q') \<and> q_shape q' \<and> q_size q' = q_size ?q0 \<and>
        q_cells q' = q_cells ?q0 @ ring (q_data q) (q_size q) (q_nextread q) (q_len q)"
      by (rule q_copy_appends [OF q0(1) sh(3-7) _ _ _ assms(4)])
         (use q0 n assms(2) q_len_le [OF assms(1)] len in simp_all)
    then obtain q' where q': "q_copy add (nat (q_size q)) (q_nextread q) (q_nextwrite q) (q_size q)
        (q_data q) ?q0 = Inr ((), q')" "q_shape q'" "q_size q' = n" "q_cells q' = q_cells q"
      using q0 by (auto simp: q_cells_def)
    show ?thesis
      by (rule ok [of q']) (use q' n bytes True in \<open>simp_all add: q_grow_body_def\<close>)
  qed
qed

lemma q_addtail_fuel_cases:
  assumes "q_shape q" and "q_size q < 2 ^ 29 - 1"
  obtains (nomem) "q_addtail_fuel (Suc n) mem p q = Inr (Inl ENOMEM, q)" and "\<exists>b. \<not> mem b"
      and "int (q_len q) = q_size q - 1"
  | (ok) q' where "q_addtail_fuel (Suc n) mem p q = Inr (Inr (), q')" and "q_shape q'"
      and "q_cells q' = q_cells q @ [p]"
      and "q_size q' \<le> max (q_size q) (2 * (int (q_len q) + 2))"
      and "int (q_len q) < q_size q - 1 \<Longrightarrow> q_size q' = q_size q"
proof (cases "int (q_len q) < q_size q - 1")
  case True
  from q_addtail_fuel_room [OF assms(1) True] q_put_facts [OF assms(1) True] show ?thesis
    by (intro ok [of "q_put p q"]) (simp_all del: q_addtail_fuel.simps)
next
  case False
  with q_len_le [OF assms(1)] have full: "int (q_len q) = q_size q - 1" by simp
  with assms(1) have nn: "(q_nextwrite q + 1) mod q_size q = q_nextread q" "0 < q_size q"
    by (auto simp: q_full_iff q_shape_def)
  have t: "q_size q < q_size q + 1" "q_size q + 1 < 2 ^ 29" using assms(2) by simp_all
  show ?thesis
  proof (rule q_grow_body_cases [OF assms(1) t, of "q_addtail_fuel n mem" mem])
    fix p q assume "q_shape q" "int (q_len q) < q_size q - 1"
    then show "q_addtail_fuel n mem p q = Inr (Inr (), q_put p q)"
      by (rule q_addtail_fuel_room)
  next
    assume "q_grow_body (q_addtail_fuel n mem) mem (q_size q + 1) q = Inr (Inl ENOMEM, q)"
      and "\<exists>b. \<not> mem b"
    with nn full show ?thesis by (intro nomem) (simp_all add: q_addtail_body_def)
  next
    fix q'
    assume g: "q_grow_body (q_addtail_fuel n mem) mem (q_size q + 1) q = Inr (Inr (), q')"
      and sh: "q_shape q'" and sz: "q_size q + 1 \<le> q_size q'" and cells: "q_cells q' = q_cells q"
      and ub: "q_size q' \<le> max (q_size q) (2 * (q_size q + 1))"
    from cells have "q_len q' = q_len q" by (metis q_cells_def ring_length)
    with sz full have room: "int (q_len q') < q_size q' - 1" by simp
    have "q_addtail_fuel (Suc n) mem p q = Inr (Inr (), q_put p q')"
      using nn g sh by (auto simp: q_addtail_body_def q_put_def q_shape_def)
    then show ?thesis
      by (rule ok) (use q_put_facts [OF sh room, of p] cells full ub in simp_all)
  qed
qed

lemma q_remhead_ok:
  assumes "q_inv q" and "q_list q = x # xs"
  shows "\<exists>q'. q_remhead q = Inr (Some x, q') \<and> q_inv q' \<and> q_list q' = xs \<and> q_size q' = q_size q"
proof -
  from assms(1) have sh: "q_shape q" and nn: "None \<notin> set (q_cells q)" by (auto simp: q_inv_def)
  from assms(2) obtain n where n: "q_len q = Suc n" by (cases "q_len q") (simp_all add: q_list_def q_cells_def ring_def)
  let ?q = "q\<lparr>q_nextread := (q_nextread q + 1) mod q_size q\<rparr>"
  have rd: "0 \<le> q_nextread q" "q_nextread q < q_size q" "nat (q_nextread q) < length (q_data q)"
    using sh by (auto simp: q_shape_def)
  have cells: "q_cells q = q_data q ! nat (q_nextread q) #
      ring (q_data q) (q_size q) ((q_nextread q + 1) mod q_size q) n"
    unfolding q_cells_def n by (rule ring_Cons) (use rd in simp_all)
  have ln: "q_len ?q = n"
    using sh n by (auto simp: q_len_def q_shape_def mod_diff_ring mod_succ_ring split: if_splits)
  have tl: "q_cells ?q = ring (q_data q) (q_size q) ((q_nextread q + 1) mod q_size q) n"
    unfolding q_cells_def ln by simp
  from cells nn have "q_data q ! nat (q_nextread q) \<noteq> None" by (metis list.set_intros(1))
  with cells assms(2) have hd: "q_data q ! nat (q_nextread q) = Some x" and xs: "map the (q_cells ?q) = xs"
    by (auto simp: q_list_def tl)
  have "\<not> q_empty q" using q_empty_iff [OF sh] n by simp
  with hd rd sh have "q_remhead q = Inr (Some x, ?q)"
    by (simp add: q_remhead_def q_cell_def q_shape_def)
  moreover have "q_shape ?q" using sh by (simp add: q_shape_def)
  moreover have "None \<notin> set (q_cells ?q)" using nn cells tl by auto
  ultimately show ?thesis using xs by (simp add: q_inv_def q_list_def)
qed

lemma q_addtail_cases:
  assumes "q_inv q" and "q_size q < 2 ^ 29 - 1"
  obtains (nomem) "q_addtail mem x q = Inr (Inl ENOMEM, q)" and "\<exists>b. \<not> mem b"
      and "int (length (q_list q)) = q_size q - 1"
  | (ok) q' where "q_addtail mem x q = Inr (Inr (), q')" and "q_inv q'"
      and "q_list q' = q_list q @ [x]"
      and "q_size q' \<le> max (q_size q) (2 * (int (length (q_list q)) + 2))"
      and "int (length (q_list q)) < q_size q - 1 \<Longrightarrow> q_size q' = q_size q"
proof -
  from assms(1) have sh: "q_shape q" and nn: "None \<notin> set (q_cells q)" by (auto simp: q_inv_def)
  have len: "length (q_list q) = q_len q" by (simp add: q_list_def q_cells_def)
  show ?thesis
    by (rule q_addtail_fuel_cases [OF sh assms(2), of 0 mem "Some x"])
       (use nn len nomem ok in \<open>auto simp: q_addtail_def q_inv_def q_list_def
          simp del: q_addtail_fuel.simps\<close>)
qed

lemma q_preallocate_cases:
  assumes "q_inv q" and "sz < 2 ^ 29"
  obtains (nomem) "q_preallocate mem sz q = Inr (Inl ENOMEM, q)" and "\<exists>b. \<not> mem b"
  | (ok) q' where "q_preallocate mem sz q = Inr (Inr (), q')" and "q_inv q'"
      and "q_list q' = q_list q" and "sz \<le> q_size q'" and "q_size q' \<le> max (q_size q) (2 * sz)"
proof (cases "sz > q_size q")
  case False
  with assms show ?thesis by (intro ok) (auto simp: q_preallocate_def q_inv_def q_shape_def)
next
  case True
  from assms(1) have sh: "q_shape q" and pos: "q_size q > 0" by (auto simp: q_inv_def q_shape_def)
  show ?thesis
    by (rule q_grow_body_cases [OF sh True assms(2), of "q_addtail_fuel 0 mem" mem])
       (use True pos assms(1) nomem ok q_addtail_fuel_room in
         \<open>auto simp: q_preallocate_def q_grow_def q_inv_def q_list_def simp del: q_addtail_fuel.simps\<close>)
qed

section \<open>The queue interface\<close>

text \<open>
  What the scheduler relies on: a queue with room for \<open>room q\<close> elements that hands elements back
  in the order they were added; adding to a queue that is not full cannot fail.  The clients'
  lemmas are about serving the queue in turns: taking the head off and adding it back.
\<close>

locale fifo =
  fixes inv :: "'q \<Rightarrow> bool"
    and contents :: "'q \<Rightarrow> 'a list"
    and room :: "'q \<Rightarrow> nat"
    and enq :: "'a \<Rightarrow> ('q, errno + unit) kern"
    and deq :: "('q, 'a option) kern"
    and empty :: "'q \<Rightarrow> bool"
  assumes enq_ok: "inv q \<Longrightarrow> length (contents q) < room q \<Longrightarrow>
      \<exists>q'. enq x q = Inr (Inr (), q') \<and> inv q' \<and> contents q' = contents q @ [x] \<and> room q' = room q"
    and deq_ok: "inv q \<Longrightarrow> contents q = x # xs \<Longrightarrow>
      \<exists>q'. deq q = Inr (Some x, q') \<and> inv q' \<and> contents q' = xs \<and> room q' = room q"
    and empty_iff: "inv q \<Longrightarrow> empty q \<longleftrightarrow> contents q = []"
    and room_bound: "inv q \<Longrightarrow> length (contents q) \<le> room q"
begin

text \<open>Adding an element and taking the head off: one switch of a round-robin scheduler.\<close>

lemma enq_deq:
  assumes "inv q" and "length (contents q) < room q"
  shows "\<exists>q1 q2. enq x q = Inr (Inr (), q1) \<and> empty q1 = False \<and>
      deq q1 = Inr (Some (hd (contents q @ [x])), q2) \<and> inv q2 \<and>
      contents q2 = tl (contents q @ [x]) \<and> room q2 = room q"
proof -
  from enq_ok [OF assms, of x] obtain q1 where
    q1: "enq x q = Inr (Inr (), q1)" "inv q1" "contents q1 = contents q @ [x]" "room q1 = room q"
    by blast
  then have "contents q1 = hd (contents q @ [x]) # tl (contents q @ [x])" by simp
  from deq_ok [OF q1(2) this] obtain q2 where
    "deq q1 = Inr (Some (hd (contents q @ [x])), q2)" "inv q2"
    "contents q2 = tl (contents q @ [x])" "room q2 = room q1" by blast
  with q1 empty_iff [OF q1(2)] show ?thesis by auto
qed

end

text \<open>
  One turn of a round-robin scheduler whose running element is \<open>cur\<close>: put it at the tail, take
  the head.
\<close>

fun turns :: "('a \<Rightarrow> ('q, errno + unit) kern) \<Rightarrow> ('q, 'a option) kern \<Rightarrow> nat \<Rightarrow> 'a \<Rightarrow> ('q, 'a) kern" where
  "turns enq deq 0 cur = kret cur"
| "turns enq deq (Suc n) cur =
     kbind (enq cur) (\<lambda>r. case r of
         Inl _ \<Rightarrow> khalt AssertFail
       | Inr _ \<Rightarrow> kbind deq (\<lambda>x. case x of None \<Rightarrow> khalt BadPtr | Some y \<Rightarrow> turns enq deq n y))"

context fifo
begin

text \<open>After \<open>n\<close> turns the running element and the queue are rotated by \<open>n\<close>.\<close>

lemma turns_rotate:
  assumes "inv q" and "length (contents q) < room q"
  shows "\<exists>q'. turns enq deq n cur q = Inr (hd (rotate n (cur # contents q)), q') \<and> inv q' \<and>
      contents q' = tl (rotate n (cur # contents q)) \<and> room q' = room q"
  using assms
proof (induction n arbitrary: q cur)
  case 0
  then show ?case by simp
next
  case (Suc n)
  from enq_deq [OF Suc.prems, of cur] obtain q1 q2 where
    q: "enq cur q = Inr (Inr (), q1)" "deq q1 = Inr (Some (hd (contents q @ [cur])), q2)" "inv q2"
      "contents q2 = tl (contents q @ [cur])" "room q2 = room q" by blast
  have rot: "hd (contents q @ [cur]) # contents q2 = rotate1 (cur # contents q)"
    using q(4) by (cases "contents q") simp_all
  have "length (contents q2) < room q2" using q Suc.prems by simp
  from Suc.IH [OF q(3) this, of "hd (contents q @ [cur])"] obtain q' where
    q': "turns enq deq n (hd (contents q @ [cur])) q2 =
        Inr (hd (rotate n (rotate1 (cur # contents q))), q')" "inv q'"
      "contents q' = tl (rotate n (rotate1 (cur # contents q)))" "room q' = room q2"
    unfolding rot by blast
  have "turns enq deq (Suc n) cur q = turns enq deq n (hd (contents q @ [cur])) q2"
    using q by simp
  moreover have "rotate (Suc n) (cur # contents q) = rotate n (rotate1 (cur # contents q))"
    unfolding rotate_Suc by (rule rotate1_rotate_swap)
  ultimately show ?case using q' q(5) by simp
qed

text \<open>Bounded waiting: the \<open>i\<close>-th waiting element runs after \<open>Suc i\<close> turns.\<close>

lemma turns_serves:
  assumes "inv q" and "length (contents q) < room q" and "i < length (contents q)"
  shows "\<exists>q'. turns enq deq (Suc i) cur q = Inr (contents q ! i, q')"
proof -
  have "hd (rotate (Suc i) (cur # contents q)) = (cur # contents q) ! Suc i"
    using assms(3) by (subst hd_rotate_conv_nth) simp_all
  then show ?thesis using turns_rotate [OF assms(1,2), of "Suc i" cur] by auto
qed

end

text \<open>The circular buffer provides the interface, whatever memory is available.\<close>

definition q_room :: "'a queue \<Rightarrow> nat" where
  "q_room q = nat (q_size q) - 1"

definition q_usable :: "'a queue \<Rightarrow> bool" where
  "q_usable q \<longleftrightarrow> q_inv q \<and> q_size q < 2 ^ 29 - 1"

lemma q_list_length: "length (q_list q) = q_len q"
  by (simp add: q_list_def q_cells_def)

interpretation runq: fifo q_usable q_list q_room "q_addtail mem" q_remhead q_empty
  for mem :: "nat \<Rightarrow> bool"
proof unfold_locales
  fix q :: "'a queue" and x :: 'a
  assume "q_usable q" and "length (q_list q) < q_room q"
  then have q: "q_inv q" "q_size q < 2 ^ 29 - 1" "int (length (q_list q)) < q_size q - 1"
    by (auto simp: q_usable_def q_room_def)
  show "\<exists>q'. q_addtail mem x q = Inr (Inr (), q') \<and> q_usable q' \<and> q_list q' = q_list q @ [x] \<and>
      q_room q' = q_room q"
    by (rule q_addtail_cases [OF q(1,2), of mem x]) (use q in \<open>auto simp: q_usable_def q_room_def\<close>)
next
  fix q :: "'a queue" and x xs
  assume "q_usable q" and "q_list q = x # xs"
  then show "\<exists>q'. q_remhead q = Inr (Some x, q') \<and> q_usable q' \<and> q_list q' = xs \<and> q_room q' = q_room q"
    using q_remhead_ok [of q x xs] by (auto simp: q_usable_def q_room_def)
next
  fix q :: "'a queue"
  assume q: "q_usable q"
  then have "q_shape q" by (simp add: q_usable_def q_inv_def)
  from q_empty_iff [OF this] q_list_length [of q] show "q_empty q \<longleftrightarrow> q_list q = []"
    by (metis length_0_conv)
  from q_len_le [OF \<open>q_shape q\<close>] q_list_length [of q] show "length (q_list q) \<le> q_room q"
    by (simp add: q_room_def)
qed

section \<open>Properties\<close>

text \<open>The abstract contract: a list served in order.\<close>

datatype 'a q_call = Call_addtail 'a | Call_remhead | Call_preallocate int

fun fifo_calls :: "'a q_call list \<Rightarrow> 'a list \<Rightarrow> ('a list \<times> 'a list) option" where
  "fifo_calls [] xs = Some ([], xs)"
| "fifo_calls (Call_addtail x # cs) xs = fifo_calls cs (xs @ [x])"
| "fifo_calls (Call_remhead # cs) xs =
     (case xs of [] \<Rightarrow> None | y # ys \<Rightarrow> map_option (\<lambda>(out, zs). (y # out, zs)) (fifo_calls cs ys))"
| "fifo_calls (Call_preallocate n # cs) xs = (if n \<le> 2 ^ 27 then fifo_calls cs xs else None)"

fun q_calls :: "(nat \<Rightarrow> bool) \<Rightarrow> 'a q_call list \<Rightarrow> ('a queue, errno + 'a list) kern" where
  "q_calls mem [] = kret (Inr [])"
| "q_calls mem (Call_addtail x # cs) = kbindE (q_addtail mem x) (\<lambda>_. q_calls mem cs)"
| "q_calls mem (Call_remhead # cs) =
     kbind q_remhead (\<lambda>p. case p of
         None \<Rightarrow> khalt BadPtr
       | Some y \<Rightarrow> kbindE (q_calls mem cs) (\<lambda>out. kret (Inr (y # out))))"
| "q_calls mem (Call_preallocate n # cs) = kbindE (q_preallocate mem n) (\<lambda>_. q_calls mem cs)"

lemma q_calls_simulate:
  assumes "q_inv q" and "q_size q \<le> 2 ^ 28" and "length (q_list q) + length cs + 2 \<le> 2 ^ 27"
    and "\<forall>b. mem b" and "fifo_calls cs (q_list q) = Some (out, xs)"
  shows "\<exists>q'. q_calls mem cs q = Inr (Inr out, q') \<and> q_inv q' \<and> q_list q' = xs"
  using assms
proof (induction cs "q_list q" arbitrary: q out rule: fifo_calls.induct)
  case 1
  then show ?case by simp
next
  case (2 x cs)
  have sz: "q_size q < 2 ^ 29 - 1" using "2.prems" by simp
  show ?case
  proof (rule q_addtail_cases [OF "2.prems"(1) sz, of mem x])
    assume "\<exists>b. \<not> mem b"
    with "2.prems"(4) show ?thesis by simp
  next
    fix q'
    assume q': "q_addtail mem x q = Inr (Inr (), q')" "q_inv q'" "q_list q' = q_list q @ [x]"
      "q_size q' \<le> max (q_size q) (2 * (int (length (q_list q)) + 2))"
    have "\<exists>q''. q_calls mem cs q' = Inr (Inr out, q'') \<and> q_inv q'' \<and> q_list q'' = xs"
    proof (rule "2.hyps")
      show "q_size q' \<le> 2 ^ 28" using q'(4) "2.prems"(2,3) by simp
    qed (use q' "2.prems" in simp_all)
    with q'(1) show ?thesis by simp
  qed
next
  case (3 cs)
  from "3.prems" obtain y ys out' where ys: "q_list q = y # ys" "out = y # out'"
    "fifo_calls cs ys = Some (out', xs)" by (auto split: list.splits)
  from q_remhead_ok [OF "3.prems"(1) ys(1)] obtain q' where
    q': "q_remhead q = Inr (Some y, q')" "q_inv q'" "q_list q' = ys" "q_size q' = q_size q" by blast
  have "\<exists>q''. q_calls mem cs q' = Inr (Inr out', q'') \<and> q_inv q'' \<and> q_list q'' = xs"
    by (rule "3.hyps") (use q' ys "3.prems" in simp_all)
  with q' ys show ?case by auto
next
  case (4 n cs)
  then have n: "n < 2 ^ 29" "n \<le> 2 ^ 27" by (auto split: if_splits)
  show ?case
  proof (rule q_preallocate_cases [OF "4.prems"(1) n(1), of mem])
    assume "\<exists>b. \<not> mem b"
    with "4.prems"(4) show ?thesis by simp
  next
    fix q'
    assume q': "q_preallocate mem n q = Inr (Inr (), q')" "q_inv q'" "q_list q' = q_list q"
      "q_size q' \<le> max (q_size q) (2 * n)"
    have "\<exists>q''. q_calls mem cs q' = Inr (Inr out, q'') \<and> q_inv q'' \<and> q_list q'' = xs"
    proof (rule "4.hyps" [OF n(2)])
      show "q_size q' \<le> 2 ^ 28" using q'(4) "4.prems"(2) n by simp
    qed (use q' n "4.prems" in simp_all)
    with q'(1) show ?thesis by simp
  qed
qed

text \<open>
  C31: the circular buffer is a queue.  From a well-formed queue, with memory available and
  bounded sizes, every sequence of \<^verbatim>\<open>q_addtail\<close>, \<^verbatim>\<open>q_remhead\<close> (never on an empty queue) and
  \<^verbatim>\<open>q_preallocate\<close> calls returns, and \<^verbatim>\<open>q_remhead\<close> hands out the elements first in, first out,
  across wrap-around and growth of the buffer.
\<close>

theorem q_calls_refine_fifo:
  assumes "q_inv q" and "q_size q \<le> 2 ^ 28" and "length (q_list q) + length cs + 2 \<le> 2 ^ 27"
    and "\<forall>b. mem b" and "fifo_calls cs (q_list q) = Some (out, xs)"
  shows "\<exists>q'. q_calls mem cs q = Inr (Inr out, q') \<and> q_inv q' \<and> q_list q' = xs"
  using assms by (rule q_calls_simulate)

theorem q_calls_refine_fifo_witness:
  "\<exists>q'. q_calls (\<lambda>_. True)
      [Call_addtail (1::nat), Call_remhead, Call_addtail 2, Call_addtail 3, Call_addtail 4, Call_remhead]
      \<lparr>q_size = 2, q_nextwrite = 1, q_nextread = 1, q_data = [None, None]\<rparr> =
      Inr (Inr [1, 2], q') \<and> q_inv q' \<and> q_list q' = [3, 4]"
  by (rule q_calls_refine_fifo)
     (simp_all add: q_inv_def q_shape_def q_cells_def q_list_def q_len_def ring_def)

end
