(* ===== verification/Bitmap_Lib.thy ===== *)
theory Bitmap_Lib
  imports OS161_Prelude
begin

text \<open>
  The array of bits of \<^verbatim>\<open>kern/lib/bitmap.c\<close>, kept in bytes.  Bit counts and indices are the
  source's \<^verbatim>\<open>u_int32_t\<close>, here natural numbers with the wrap-around of the rounding macro
  written out.  The lemmas relate every operation to the set of the bits that are set, and the
  locale \<open>slot_alloc\<close> states the interface of an allocator of numbered slots that the file
  system and the swap code rely on.
\<close>

section \<open>Model\<close>

abbreviation BITS_PER_WORD :: nat where "BITS_PER_WORD \<equiv> 8"
abbreviation WORD_ALLBITS :: "8 word" where "WORD_ALLBITS \<equiv> 255"

definition DIVROUNDUP :: "nat \<Rightarrow> nat \<Rightarrow> nat" where
  "DIVROUNDUP a b = ((a + b - 1) mod 2 ^ 32) div b"

text \<open>The byte \<^verbatim>\<open>((WORD_TYPE)1) << offset\<close>.\<close>

definition bm_mask :: "nat \<Rightarrow> 8 word" where
  "bm_mask offset = push_bit offset 1"

record bitmap =
  bm_nbits :: nat
  bm_v :: "8 word list"

definition bitmap_create :: "bool \<Rightarrow> (nat \<Rightarrow> bool) \<Rightarrow> nat \<Rightarrow> bitmap option kres" where
  "bitmap_create hdr mem nbits =
     (let words = DIVROUNDUP nbits BITS_PER_WORD in
      if \<not> hdr then Inr None
      else if \<not> mem words then Inr None
      else
        let v = replicate words 0 in
        if nbits div BITS_PER_WORD < words then
          let ix = words - 1; overbits = nbits - ix * BITS_PER_WORD in
          if \<not> (nbits div BITS_PER_WORD = words - 1) then Inl AssertFail
          else if \<not> (overbits > 0 \<and> overbits < BITS_PER_WORD) then Inl AssertFail
          else Inr (Some \<lparr>bm_nbits = nbits,
            bm_v = v[ix := fold (\<lambda>j w. w OR bm_mask j) [overbits..<BITS_PER_WORD] (v ! ix)]\<rparr>)
        else Inr (Some \<lparr>bm_nbits = nbits, bm_v = v\<rparr>))"

definition bitmap_getdata :: "bitmap \<Rightarrow> 8 word list" where
  "bitmap_getdata b = bm_v b"

text \<open>The inner loop of \<^verbatim>\<open>bitmap_alloc\<close>: the first clear bit of a byte, from \<open>offset\<close> up.\<close>

function bitmap_scan :: "8 word \<Rightarrow> nat \<Rightarrow> nat option" where
  "bitmap_scan w offset =
     (if offset < BITS_PER_WORD then
        (if w AND bm_mask offset = 0 then Some offset else bitmap_scan w (Suc offset))
      else None)"
  by pat_completeness auto
termination
  by (relation "measure (\<lambda>(w, offset). BITS_PER_WORD - offset)") auto

function bitmap_alloc_from :: "nat \<Rightarrow> nat \<Rightarrow> (bitmap, errno + nat) kern" where
  "bitmap_alloc_from ix maxix b =
     (if ix < maxix then
        (if ix < length (bm_v b) then
           (if bm_v b ! ix \<noteq> WORD_ALLBITS then
              (case bitmap_scan (bm_v b ! ix) 0 of
                 None \<Rightarrow> Inl AssertFail
               | Some offset \<Rightarrow>
                   (let index = ix * BITS_PER_WORD + offset in
                    if index < bm_nbits b
                    then Inr (Inr index,
                      b\<lparr>bm_v := (bm_v b)[ix := (bm_v b ! ix) OR bm_mask offset]\<rparr>)
                    else Inl AssertFail))
            else bitmap_alloc_from (Suc ix) maxix b)
         else Inl BadPtr)
      else Inr (Inl ENOSPC, b))"
  by pat_completeness auto
termination
  by (relation "measure (\<lambda>(ix, maxix, b). maxix - ix)") auto

definition bitmap_alloc :: "(bitmap, errno + nat) kern" where
  "bitmap_alloc b = bitmap_alloc_from 0 (DIVROUNDUP (bm_nbits b) BITS_PER_WORD) b"

definition bitmap_translate :: "nat \<Rightarrow> nat \<times> 8 word" where
  "bitmap_translate bitno = (bitno div BITS_PER_WORD, bm_mask (bitno mod BITS_PER_WORD))"

definition bitmap_mark :: "nat \<Rightarrow> (bitmap, unit) kern" where
  "bitmap_mark index b =
     (if \<not> index < bm_nbits b then Inl AssertFail
      else let (ix, mask) = bitmap_translate index in
        if \<not> ix < length (bm_v b) then Inl BadPtr
        else if \<not> (bm_v b ! ix) AND mask = 0 then Inl AssertFail
        else Inr ((), b\<lparr>bm_v := (bm_v b)[ix := (bm_v b ! ix) OR mask]\<rparr>))"

definition bitmap_unmark :: "nat \<Rightarrow> (bitmap, unit) kern" where
  "bitmap_unmark index b =
     (if \<not> index < bm_nbits b then Inl AssertFail
      else let (ix, mask) = bitmap_translate index in
        if \<not> ix < length (bm_v b) then Inl BadPtr
        else if \<not> (bm_v b ! ix) AND mask \<noteq> 0 then Inl AssertFail
        else Inr ((), b\<lparr>bm_v := (bm_v b)[ix := (bm_v b ! ix) AND NOT mask]\<rparr>))"

definition bitmap_isset :: "nat \<Rightarrow> bitmap \<Rightarrow> bool kres" where
  "bitmap_isset index b =
     (let (ix, mask) = bitmap_translate index in
      if \<not> ix < length (bm_v b) then Inl BadPtr
      else Inr ((bm_v b ! ix) AND mask \<noteq> 0))"

text \<open>The bit at an index, the set of the bits in use, and the invariant.\<close>

definition bm_bit :: "bitmap \<Rightarrow> nat \<Rightarrow> bool" where
  "bm_bit b i = bit (bm_v b ! (i div 8)) (i mod 8)"

definition bm_used :: "bitmap \<Rightarrow> nat set" where
  "bm_used b = {i. i < bm_nbits b \<and> bm_bit b i}"

definition bm_inv :: "bitmap \<Rightarrow> bool" where
  "bm_inv b \<longleftrightarrow> bm_nbits b + 7 < 2 ^ 32 \<and> length (bm_v b) = (bm_nbits b + 7) div 8 \<and>
     (\<forall>i. bm_nbits b \<le> i \<and> i < 8 * length (bm_v b) \<longrightarrow> bm_bit b i)"

section \<open>Lemmas\<close>

declare bitmap_scan.simps [simp del] bitmap_alloc_from.simps [simp del]

lemma bit_bm_mask: "bit (bm_mask n) k \<longleftrightarrow> n < 8 \<and> k = n"
  by (auto simp: bm_mask_def bit_simps)

lemma and_mask_0: "(w :: 8 word) AND bm_mask n = 0 \<longleftrightarrow> n \<ge> 8 \<or> \<not> bit w n"
  by (auto simp: bit_eq_iff [of "w AND bm_mask n"] bit_and_iff bit_bm_mask not_le)

lemma bit_or_mask: "n < 8 \<Longrightarrow> bit ((w :: 8 word) OR bm_mask n) k \<longleftrightarrow> bit w k \<or> k = n"
  by (auto simp: bit_or_iff bit_bm_mask)

lemma bit_and_not_mask: "n < 8 \<Longrightarrow> bit ((w :: 8 word) AND NOT (bm_mask n)) k \<longleftrightarrow> bit w k \<and> k \<noteq> n"
  by (auto simp: bit_and_iff bit_not_iff bit_bm_mask dest: bit_imp_le_length)

lemma word8_allbits: "(w :: 8 word) = 255 \<longleftrightarrow> (\<forall>n < 8. bit w n)"
proof -
  have "(255 :: 8 word) = -1" by simp
  then show ?thesis by (auto simp: bit_eq_iff bit_simps)
qed

lemma bitmap_scan_Some:
  "bitmap_scan w off = Some n \<Longrightarrow> off \<le> n \<and> n < 8 \<and> \<not> bit w n \<and> (\<forall>k. off \<le> k \<and> k < n \<longrightarrow> bit w k)"
proof (induction w off rule: bitmap_scan.induct)
  case (1 w off)
  show ?case
  proof (cases "off < 8 \<and> bit w off")
    case True
    with "1.prems" have "bitmap_scan w (Suc off) = Some n"
      by (simp add: bitmap_scan.simps [of w off] and_mask_0)
    with 1 True have "Suc off \<le> n \<and> n < 8 \<and> \<not> bit w n \<and> (\<forall>k. Suc off \<le> k \<and> k < n \<longrightarrow> bit w k)"
      by (simp add: and_mask_0)
    with True show ?thesis by (metis Suc_leI Suc_leD le_neq_implies_less)
  next
    case False
    with "1.prems" show ?thesis
      by (auto simp: bitmap_scan.simps [of w off] and_mask_0 split: if_splits)
  qed
qed

lemma bitmap_scan_None: "bitmap_scan w off = None \<Longrightarrow> (\<forall>k. off \<le> k \<and> k < 8 \<longrightarrow> bit w k)"
proof (induction w off rule: bitmap_scan.induct)
  case (1 w off)
  show ?case
  proof (cases "off < 8")
    case True
    with "1.prems" have b: "bit w off" and "bitmap_scan w (Suc off) = None"
      by (auto simp: bitmap_scan.simps [of w off] and_mask_0 split: if_splits)
    with 1 True have "\<forall>k. Suc off \<le> k \<and> k < 8 \<longrightarrow> bit w k" by (simp add: and_mask_0)
    with b show ?thesis by (metis Suc_leI le_neq_implies_less)
  qed auto
qed

lemma bm_bit_update:
  assumes "ix < length (bm_v b)"
  shows "bm_bit (b\<lparr>bm_v := (bm_v b)[ix := w]\<rparr>) i = (if i div 8 = ix then bit w (i mod 8) else bm_bit b i)"
  using assms by (simp add: bm_bit_def nth_list_update)

lemma bm_inv_words: "bm_inv b \<Longrightarrow> i < bm_nbits b \<Longrightarrow> i div 8 < length (bm_v b)"
  by (auto simp: bm_inv_def)

lemma DIVROUNDUP_inv: "bm_inv b \<Longrightarrow> DIVROUNDUP (bm_nbits b) 8 = length (bm_v b)"
  by (simp add: bm_inv_def DIVROUNDUP_def)

text \<open>Setting a clear bit and clearing a set one, on the set of used bits.\<close>

lemma bm_set_bit:
  assumes "bm_inv b" and "i < bm_nbits b"
  shows "bm_inv (b\<lparr>bm_v := (bm_v b)[i div 8 := (bm_v b ! (i div 8)) OR bm_mask (i mod 8)]\<rparr>)"
    and "bm_used (b\<lparr>bm_v := (bm_v b)[i div 8 := (bm_v b ! (i div 8)) OR bm_mask (i mod 8)]\<rparr>) =
      insert i (bm_used b)"
proof -
  let ?b = "b\<lparr>bm_v := (bm_v b)[i div 8 := (bm_v b ! (i div 8)) OR bm_mask (i mod 8)]\<rparr>"
  have bit: "bm_bit ?b k \<longleftrightarrow> bm_bit b k \<or> k = i" for k
  proof -
    have "k div 8 = i div 8 \<and> k mod 8 = i mod 8 \<longleftrightarrow> k = i" by (metis div_mult_mod_eq)
    then show ?thesis
      by (auto simp: bm_bit_update [OF bm_inv_words [OF assms]] bit_or_mask) (auto simp: bm_bit_def)
  qed
  show "bm_inv ?b" using assms(1) bit by (auto simp: bm_inv_def)
  show "bm_used ?b = insert i (bm_used b)" using assms(2) bit by (auto simp: bm_used_def)
qed

lemma bm_clear_bit:
  assumes "bm_inv b" and "i < bm_nbits b"
  shows "bm_inv (b\<lparr>bm_v := (bm_v b)[i div 8 := (bm_v b ! (i div 8)) AND NOT (bm_mask (i mod 8))]\<rparr>)"
    and "bm_used (b\<lparr>bm_v := (bm_v b)[i div 8 := (bm_v b ! (i div 8)) AND NOT (bm_mask (i mod 8))]\<rparr>) =
      bm_used b - {i}"
proof -
  let ?b = "b\<lparr>bm_v := (bm_v b)[i div 8 := (bm_v b ! (i div 8)) AND NOT (bm_mask (i mod 8))]\<rparr>"
  have bit: "bm_bit ?b k \<longleftrightarrow> bm_bit b k \<and> k \<noteq> i" for k
  proof -
    have "k div 8 = i div 8 \<and> k mod 8 = i mod 8 \<longleftrightarrow> k = i" by (metis div_mult_mod_eq)
    then show ?thesis
      by (auto simp: bm_bit_update [OF bm_inv_words [OF assms]] bit_and_not_mask) (auto simp: bm_bit_def)
  qed
  show "bm_inv ?b" using assms bit by (auto simp: bm_inv_def)
  show "bm_used ?b = bm_used b - {i}" using assms(2) bit by (auto simp: bm_used_def)
qed

lemma bm_bitI: "bm_inv b \<Longrightarrow> i < 8 * length (bm_v b) \<Longrightarrow> \<not> bm_bit b i \<Longrightarrow> i < bm_nbits b"
  unfolding bm_inv_def by (meson not_le_imp_less)

text \<open>The outer loop finds the lowest clear bit at or above byte \<open>ix\<close>, or none.\<close>

lemma bitmap_alloc_from_spec:
  assumes "bm_inv b" and "maxix = length (bm_v b)"
  shows "bitmap_alloc_from ix maxix b = Inr (Inl ENOSPC, b) \<and>
      (\<forall>i. 8 * ix \<le> i \<and> i < bm_nbits b \<longrightarrow> bm_bit b i) \<or>
    (\<exists>i. bitmap_alloc_from ix maxix b =
        Inr (Inr i, b\<lparr>bm_v := (bm_v b)[i div 8 := (bm_v b ! (i div 8)) OR bm_mask (i mod 8)]\<rparr>) \<and>
      i < bm_nbits b \<and> \<not> bm_bit b i \<and> (\<forall>k. 8 * ix \<le> k \<and> k < i \<longrightarrow> bm_bit b k))"
  using assms
proof (induction ix maxix b rule: bitmap_alloc_from.induct)
  case (1 ix maxix b)
  have byte: "bm_bit b i \<longleftrightarrow> bit (bm_v b ! ix) (i - 8 * ix)" if "8 * ix \<le> i" "i < 8 * Suc ix" for i
  proof -
    from that have "i div 8 = ix" by (intro div_nat_eqI) simp_all
    moreover from this have "i mod 8 = i - 8 * ix" by (simp add: minus_mult_div_eq_mod [symmetric])
    ultimately show ?thesis by (simp add: bm_bit_def)
  qed
  consider (past) "\<not> ix < maxix" | (skip) "ix < maxix" "bm_v b ! ix = 255"
    | (here) "ix < maxix" "bm_v b ! ix \<noteq> 255" by blast
  then show ?case
  proof cases
    case past
    with "1.prems" have "bm_nbits b \<le> 8 * ix" by (auto simp: bm_inv_def)
    with past show ?thesis by (auto simp: bitmap_alloc_from.simps [of ix maxix b])
  next
    case skip
    then have all: "bm_bit b i" if "8 * ix \<le> i" "i < 8 * Suc ix" for i
      using byte [OF that] that word8_allbits [of "bm_v b ! ix"] by simp
    have step: "bitmap_alloc_from ix maxix b = bitmap_alloc_from (Suc ix) maxix b"
      using skip "1.prems" by (subst bitmap_alloc_from.simps) simp
    have ext: "8 * ix \<le> k \<Longrightarrow> (8 * Suc ix \<le> k \<Longrightarrow> bm_bit b k) \<Longrightarrow> bm_bit b k" for k
      using all [of k] by (meson not_le_imp_less)
    have IH: "bitmap_alloc_from (Suc ix) maxix b = Inr (Inl ENOSPC, b) \<and>
        (\<forall>i. 8 * Suc ix \<le> i \<and> i < bm_nbits b \<longrightarrow> bm_bit b i) \<or>
      (\<exists>i. bitmap_alloc_from (Suc ix) maxix b =
          Inr (Inr i, b\<lparr>bm_v := (bm_v b)[i div 8 := (bm_v b ! (i div 8)) OR bm_mask (i mod 8)]\<rparr>) \<and>
        i < bm_nbits b \<and> \<not> bm_bit b i \<and> (\<forall>k. 8 * Suc ix \<le> k \<and> k < i \<longrightarrow> bm_bit b k))"
      using "1.IH" skip "1.prems" by simp
    then show ?thesis unfolding step using ext by blast
  next
    case here
    then obtain off where off: "bitmap_scan (bm_v b ! ix) 0 = Some off"
      using bitmap_scan_None [of "bm_v b ! ix" 0] word8_allbits [of "bm_v b ! ix"] by fastforce
    note sc = bitmap_scan_Some [OF off]
    let ?i = "ix * 8 + off"
    have dm: "?i div 8 = ix" "?i mod 8 = off" using sc by simp_all
    have clear: "\<not> bm_bit b ?i" using sc dm by (simp add: bm_bit_def)
    have lt: "?i < bm_nbits b"
      by (rule bm_bitI [OF "1.prems"(1) _ clear]) (use sc here "1.prems"(2) in simp)
    have below: "bm_bit b k" if "8 * ix \<le> k" "k < ?i" for k
      using byte [of k] that sc by simp
    have "bitmap_alloc_from ix maxix b = Inr (Inr ?i,
        b\<lparr>bm_v := (bm_v b)[?i div 8 := (bm_v b ! (?i div 8)) OR bm_mask (?i mod 8)]\<rparr>)"
      using here off lt "1.prems"(2) dm by (subst bitmap_alloc_from.simps) simp
    with lt clear below show ?thesis by blast
  qed
qed

lemma bitmap_alloc_cases:
  assumes "bm_inv b"
  obtains (full) "bitmap_alloc b = Inr (Inl ENOSPC, b)" and "bm_used b = {..<bm_nbits b}"
  | (ok) i b' where "bitmap_alloc b = Inr (Inr i, b')" and "bm_inv b'" and "bm_nbits b' = bm_nbits b"
      and "i < bm_nbits b" and "i \<notin> bm_used b" and "\<forall>k < i. k \<in> bm_used b"
      and "bm_used b' = insert i (bm_used b)"
proof -
  have "bitmap_alloc b = bitmap_alloc_from 0 (length (bm_v b)) b"
    by (simp add: bitmap_alloc_def DIVROUNDUP_inv [OF assms])
  with bitmap_alloc_from_spec [OF assms refl, of 0] show ?thesis
    using bm_set_bit [OF assms] by (auto simp: bm_used_def intro: full ok)
qed

lemma bitmap_mark_ok:
  assumes "bm_inv b" and "i < bm_nbits b" and "i \<notin> bm_used b"
  shows "\<exists>b'. bitmap_mark i b = Inr ((), b') \<and> bm_inv b' \<and> bm_nbits b' = bm_nbits b \<and>
     bm_used b' = insert i (bm_used b)"
proof -
  from assms have "\<not> bit (bm_v b ! (i div 8)) (i mod 8)" by (simp add: bm_used_def bm_bit_def)
  with assms bm_inv_words [OF assms(1,2)] bm_set_bit [OF assms(1,2)] show ?thesis
    by (simp add: bitmap_mark_def bitmap_translate_def and_mask_0)
qed

lemma bitmap_unmark_ok:
  assumes "bm_inv b" and "i \<in> bm_used b"
  shows "\<exists>b'. bitmap_unmark i b = Inr ((), b') \<and> bm_inv b' \<and> bm_nbits b' = bm_nbits b \<and>
     bm_used b' = bm_used b - {i}"
proof -
  from assms have i: "i < bm_nbits b" and "bit (bm_v b ! (i div 8)) (i mod 8)"
    by (simp_all add: bm_used_def bm_bit_def)
  with assms bm_inv_words [OF assms(1) i] bm_clear_bit [OF assms(1) i] show ?thesis
    by (simp add: bitmap_unmark_def bitmap_translate_def and_mask_0)
qed

lemma bitmap_isset_iff:
  assumes "bm_inv b" and "i < bm_nbits b"
  shows "bitmap_isset i b = Inr (i \<in> bm_used b)"
  using assms bm_inv_words [OF assms]
  by (simp add: bitmap_isset_def bitmap_translate_def and_mask_0 bm_used_def bm_bit_def not_le)

lemma bit_fold_mask:
  "n \<le> 8 \<Longrightarrow> bit (fold (\<lambda>j w. w OR bm_mask j) [m..<n] w) k \<longleftrightarrow> bit w k \<or> m \<le> k \<and> k < n"
proof (induction n)
  case (Suc n)
  then show ?case
    by (cases "m \<le> n") (auto simp: bit_or_mask less_Suc_eq)
qed simp

text \<open>A fresh bitmap has every bit clear, and only the padding of its last byte set.\<close>

lemma bitmap_create_ok:
  assumes "nbits + 7 < 2 ^ 32"
  shows "\<exists>b. bitmap_create True (\<lambda>_. True) nbits = Inr (Some b) \<and> bm_inv b \<and>
     bm_nbits b = nbits \<and> bm_used b = {}"
proof -
  have words: "DIVROUNDUP nbits 8 = (nbits + 7) div 8" using assms by (simp add: DIVROUNDUP_def)
  show ?thesis
  proof (cases "nbits mod 8 = 0")
    case True
    then have w: "(nbits + 7) div 8 = nbits div 8" by (simp add: div_add1_eq [of nbits 7 8])
    let ?b = "\<lparr>bm_nbits = nbits, bm_v = replicate (nbits div 8) 0\<rparr>"
    have nb: "8 * (nbits div 8) = nbits" using True by (simp add: mod_eq_0_iff_dvd)
    have "bitmap_create True (\<lambda>_. True) nbits = Inr (Some ?b)"
      by (simp add: bitmap_create_def words w)
    moreover have "bm_inv ?b" using assms w nb by (auto simp: bm_inv_def)
    moreover have "bm_used ?b = {}"
      using nb by (auto simp: bm_used_def bm_bit_def)
    ultimately show ?thesis by auto
  next
    case False
    have "(nbits mod 8 + 7) div 8 = 1" using False by (intro div_nat_eqI) simp_all
    then have w: "(nbits + 7) div 8 = Suc (nbits div 8)" by (simp add: div_add1_eq [of nbits 7 8])
    let ?o = "nbits mod 8"
    let ?w = "fold (\<lambda>j w. w OR bm_mask j) [?o..<8] (0 :: 8 word)"
    let ?b = "\<lparr>bm_nbits = nbits, bm_v = (replicate (Suc (nbits div 8)) 0)[nbits div 8 := ?w]\<rparr>"
    have ob: "nbits - (nbits div 8) * 8 = ?o" by (simp add: minus_div_mult_eq_mod)
    have bit: "bm_bit ?b i \<longleftrightarrow> nbits \<le> i" if "i div 8 \<le> nbits div 8" for i
    proof (cases "i div 8 = nbits div 8")
      case True
      have "bm_bit ?b i \<longleftrightarrow> ?o \<le> i mod 8"
        using True by (simp add: bm_bit_def bit_fold_mask nth_append nth_list_update del: replicate_Suc)
      with True show ?thesis by (metis div_mod_decomp add_le_cancel_left)
    next
      case False
      with that have "i div 8 < nbits div 8" by simp
      then have "i < nbits" by (metis not_less div_le_mono leD)
      with that False show ?thesis by (simp add: bm_bit_def nth_list_update del: replicate_Suc)
    qed
    have "bitmap_create True (\<lambda>_. True) nbits = Inr (Some ?b)"
      using False ob by (simp add: bitmap_create_def words w Let_def del: replicate_Suc upt_Suc)
    moreover have "bm_inv ?b"
      using assms w bit by (auto simp: bm_inv_def simp del: replicate_Suc)
    moreover have "bm_used ?b = {}"
      using bit by (auto simp: bm_used_def div_le_mono simp del: replicate_Suc)
    ultimately show ?thesis by auto
  qed
qed

section \<open>The slot allocator interface\<close>

text \<open>
  An allocator of the slots \<open>0, \<dots>, cap - 1\<close>: allocation hands out a slot that is not in use and
  fails only when every slot is; freeing a slot in use makes it available again.
\<close>

locale slot_alloc =
  fixes inv :: "'b \<Rightarrow> bool"
    and cap :: "'b \<Rightarrow> nat"
    and used :: "'b \<Rightarrow> nat set"
    and alloc :: "('b, errno + nat) kern"
    and free :: "nat \<Rightarrow> ('b, unit) kern"
  assumes used_cap: "inv b \<Longrightarrow> used b \<subseteq> {..<cap b}"
    and alloc_full: "inv b \<Longrightarrow> used b = {..<cap b} \<Longrightarrow> \<exists>e. alloc b = Inr (Inl e, b)"
    and alloc_room: "inv b \<Longrightarrow> used b \<noteq> {..<cap b} \<Longrightarrow>
      \<exists>i b'. alloc b = Inr (Inr i, b') \<and> inv b' \<and> cap b' = cap b \<and> i < cap b \<and> i \<notin> used b \<and>
        used b' = insert i (used b)"
    and free_used: "inv b \<Longrightarrow> i \<in> used b \<Longrightarrow>
      \<exists>b'. free i b = Inr ((), b') \<and> inv b' \<and> cap b' = cap b \<and> used b' = used b - {i}"
begin

lemma finite_used: "inv b \<Longrightarrow> finite (used b)"
  using used_cap finite_subset by blast

lemma free_slots: "inv b \<Longrightarrow> used b \<noteq> {..<cap b} \<longleftrightarrow> card (used b) < cap b"
  using used_cap [of b] psubset_card_mono [of "{..<cap b}" "used b"]
  by (metis card_lessThan finite_lessThan less_irrefl psubsetI)

text \<open>Freeing a slot that was just allocated restores the set of used slots.\<close>

lemma alloc_free:
  assumes "inv b" and "card (used b) < cap b"
  shows "\<exists>i b' b''. alloc b = Inr (Inr i, b') \<and> free i b' = Inr ((), b'') \<and> inv b'' \<and>
      used b'' = used b"
proof -
  from assms obtain i b' where b': "alloc b = Inr (Inr i, b')" "inv b'" "i \<notin> used b"
    "used b' = insert i (used b)" using alloc_room [of b] free_slots [of b] by blast
  then obtain b'' where "free i b' = Inr ((), b'')" "inv b''" "used b'' = used b' - {i}"
    using free_used [of b' i] by auto
  with b' show ?thesis by auto
qed

end

text \<open>Allocating \<open>n\<close> slots in a row, as a file that grows does.\<close>

fun alloc_many :: "('b, errno + nat) kern \<Rightarrow> nat \<Rightarrow> ('b, errno + nat list) kern" where
  "alloc_many alloc 0 = kret (Inr [])"
| "alloc_many alloc (Suc n) =
     kbindE alloc (\<lambda>i. kbindE (alloc_many alloc n) (\<lambda>is. kret (Inr (i # is))))"

context slot_alloc
begin

lemma alloc_many_distinct:
  assumes "inv b" and "card (used b) + n \<le> cap b"
  shows "\<exists>is b'. alloc_many alloc n b = Inr (Inr is, b') \<and> inv b' \<and> cap b' = cap b \<and>
      length is = n \<and> distinct is \<and> set is \<inter> used b = {} \<and> used b' = used b \<union> set is"
  using assms
proof (induction n arbitrary: b)
  case 0
  then show ?case by auto
next
  case (Suc n)
  then have "used b \<noteq> {..<cap b}" by auto
  with alloc_room Suc.prems obtain i b' where
    b': "alloc b = Inr (Inr i, b')" "inv b'" "cap b' = cap b" "i \<notin> used b"
      "used b' = insert i (used b)" by blast
  then have "card (used b') + n \<le> cap b'"
    using Suc.prems finite_used by simp
  from Suc.IH [OF b'(2) this] obtain "is" b'' where
    r: "alloc_many alloc n b' = Inr (Inr is, b'')" "inv b''" "cap b'' = cap b'" "length is = n"
    "distinct is" "set is \<inter> used b' = {}" "used b'' = used b' \<union> set is" by blast
  have "alloc_many alloc (Suc n) b = Inr (Inr (i # is), b'')" using b'(1) r(1) by simp
  moreover have "distinct (i # is)" "set (i # is) \<inter> used b = {}" "used b'' = used b \<union> set (i # is)"
    using r(5-7) b'(4,5) by auto
  ultimately show ?case using r(2-4) b'(3) by (metis length_Cons)
qed

end

lemma bm_used_cap: "bm_used b \<subseteq> {..<bm_nbits b}"
  by (auto simp: bm_used_def)

interpretation bm: slot_alloc bm_inv bm_nbits bm_used bitmap_alloc bitmap_unmark
proof unfold_locales
  fix b
  show "bm_used b \<subseteq> {..<bm_nbits b}" by (rule bm_used_cap)
next
  fix b
  assume b: "bm_inv b" and full: "bm_used b = {..<bm_nbits b}"
  show "\<exists>e. bitmap_alloc b = Inr (Inl e, b)"
    by (rule bitmap_alloc_cases [OF b]) (use full in blast)+
next
  fix b
  assume b: "bm_inv b" and room: "bm_used b \<noteq> {..<bm_nbits b}"
  show "\<exists>i b'. bitmap_alloc b = Inr (Inr i, b') \<and> bm_inv b' \<and> bm_nbits b' = bm_nbits b \<and>
      i < bm_nbits b \<and> i \<notin> bm_used b \<and> bm_used b' = insert i (bm_used b)"
    by (rule bitmap_alloc_cases [OF b]) (use room in blast)+
next
  fix b i
  assume "bm_inv b" and "i \<in> bm_used b"
  then show "\<exists>b'. bitmap_unmark i b = Inr ((), b') \<and> bm_inv b' \<and> bm_nbits b' = bm_nbits b \<and>
      bm_used b' = bm_used b - {i}" by (rule bitmap_unmark_ok)
qed

section \<open>Properties\<close>

text \<open>
  C32: \<^verbatim>\<open>bitmap_alloc\<close> on a well-formed bitmap returns the lowest index that is clear, sets
  exactly that bit and keeps the bitmap well formed; it reports ENOSPC, and changes nothing,
  exactly when all \<open>nbits\<close> bits are set.  In particular its assertions never fail and the
  padding bits of the last byte are never handed out.
\<close>

theorem bitmap_alloc_lowest_clear:
  assumes "bm_inv b"
  shows "(if bm_used b = {..<bm_nbits b} then bitmap_alloc b = Inr (Inl ENOSPC, b)
      else \<exists>b'. bitmap_alloc b = Inr (Inr (LEAST i. i \<notin> bm_used b), b') \<and> bm_inv b' \<and>
        bm_nbits b' = bm_nbits b \<and> (LEAST i. i \<notin> bm_used b) < bm_nbits b \<and>
        bm_used b' = insert (LEAST i. i \<notin> bm_used b) (bm_used b))"
proof (rule bitmap_alloc_cases [OF assms])
  fix i b'
  assume i: "bitmap_alloc b = Inr (Inr i, b')" "bm_inv b'" "bm_nbits b' = bm_nbits b"
    "i < bm_nbits b" "i \<notin> bm_used b" "\<forall>k<i. k \<in> bm_used b" "bm_used b' = insert i (bm_used b)"
  then have L: "(LEAST i. i \<notin> bm_used b) = i" by (intro Least_equality) (simp, meson not_le_imp_less)
  from i(4,5) have "bm_used b \<noteq> {..<bm_nbits b}" by blast
  with L i show ?thesis by simp
qed simp

theorem bitmap_alloc_lowest_clear_witness:
  "bm_inv \<lparr>bm_nbits = 10, bm_v = [255, 252]\<rparr> \<and>
   bm_used \<lparr>bm_nbits = 10, bm_v = [255, 252]\<rparr> = {..<8} \<and>
   (\<exists>b'. bitmap_alloc \<lparr>bm_nbits = 10, bm_v = [255, 252]\<rparr> = Inr (Inr 8, b') \<and> bm_inv b')"
proof -
  let ?b = "\<lparr>bm_nbits = 10, bm_v = [255, 252]\<rparr>"
  have "\<forall>i<16. bm_bit ?b i \<longleftrightarrow> i < 8 \<or> 10 \<le> i"
    unfolding all_less_upt by code_simp
  then have bits: "i < 16 \<Longrightarrow> bm_bit ?b i \<longleftrightarrow> i < 8 \<or> 10 \<le> i" for i by blast
  have inv: "bm_inv ?b" using bits by (simp add: bm_inv_def)
  have used: "bm_used ?b = {..<8}" using bits by (auto simp: bm_used_def)
  have L: "(LEAST i. i \<notin> bm_used ?b) = 8" unfolding used by (rule Least_equality) auto
  have "bm_used ?b \<noteq> {..<bm_nbits ?b}" unfolding used by (simp add: lessThan_eq_iff)
  with bitmap_alloc_lowest_clear [OF inv] have "\<exists>b'. bitmap_alloc ?b = Inr (Inr 8, b') \<and> bm_inv b'"
    unfolding L by (metis (lifting))
  with inv used show ?thesis by blast
qed

end
