(* ===== verification/Lock_View.thy ===== *)
theory Lock_View
  imports OS161_Prelude
begin

text \<open>
  Sleep locks of \<^verbatim>\<open>kern/thread/synch.c\<close> as the code inside one system call sees them: a lock
  is the thread that owns it.  Acquiring a lock that has an owner does not return
  (\<^term>\<open>Blocked\<close>): the thread sleeps until some other thread releases it.  The thread system
  behind the sleep is modelled in the theories on threads and synchronisation.

  The current thread is an option, because \<^verbatim>\<open>curthread\<close> is NULL early in the boot; a lock that
  is acquired then has the owner NULL, that is, none.
\<close>

record klock =
  lk_owner :: "nat option"

definition lock_new :: klock where
  "lock_new = \<lparr>lk_owner = None\<rparr>"

definition lock_do_i_hold :: "nat option \<Rightarrow> klock \<Rightarrow> bool" where
  "lock_do_i_hold cur l \<longleftrightarrow> cur = lk_owner l"

definition lock_acquire :: "nat option \<Rightarrow> (klock, unit) kern" where
  "lock_acquire cur l = (if lk_owner l \<noteq> None then Inl Blocked else Inr ((), l\<lparr>lk_owner := cur\<rparr>))"

definition lock_release :: "nat option \<Rightarrow> (klock, unit) kern" where
  "lock_release cur l =
     (if \<not> lock_do_i_hold cur l then Inl AssertFail else Inr ((), l\<lparr>lk_owner := None\<rparr>))"

lemma lock_acquire_free [simp]:
  "lk_owner l = None \<Longrightarrow> lock_acquire cur l = Inr ((), l\<lparr>lk_owner := cur\<rparr>)"
  by (simp add: lock_acquire_def)

lemma lock_release_mine [simp]:
  "lk_owner l = cur \<Longrightarrow> lock_release cur l = Inr ((), l\<lparr>lk_owner := None\<rparr>)"
  by (simp add: lock_release_def lock_do_i_hold_def)

lemma lock_unlocked [simp]: "lk_owner l = None \<Longrightarrow> l\<lparr>lk_owner := None\<rparr> = l"
  by (cases l) simp

end
