(* ===== verification/Coremap.thy ===== *)
theory Coremap
  imports Lock_View
begin

text \<open>
  Physical memory: the bump allocator of \<^verbatim>\<open>kern/arch/mips/mips/ram.c\<close> that serves the early boot,
  and the core map of \<^verbatim>\<open>kern/vm/vm.c\<close> (\<^verbatim>\<open>vm_bootstrap\<close>, \<^verbatim>\<open>getppages\<close>, \<^verbatim>\<open>alloc_kpages\<close>,
  \<^verbatim>\<open>free_kpages\<close>) that serves the kernel afterwards.  Addresses are the source's 32-bit words,
  here natural numbers with the wrap-around of every addition written out.

  The locale \<open>page_alloc\<close> is the contract of a page allocator that the kernel heap relies on:
  blocks of whole pages that are aligned, never at address 0, and pairwise disjoint.
\<close>

section \<open>Model\<close>

abbreviation MIPS_KSEG0 :: nat where "MIPS_KSEG0 \<equiv> 2147483648"
abbreviation USERTOP :: nat where "USERTOP \<equiv> 2147483648"

definition PADDR_TO_KVADDR :: "nat \<Rightarrow> nat" where
  "PADDR_TO_KVADDR paddr = (paddr + MIPS_KSEG0) mod 2 ^ 32"

text \<open>The bits of an address under the mask \<^verbatim>\<open>PAGE_FRAME\<close>.\<close>

definition page_frame :: "nat \<Rightarrow> nat" where
  "page_frame a = a - a mod PAGE_SIZE"

text \<open>An entry of the core map; its field \<^verbatim>\<open>nextpage\<close> is never read or written.\<close>

record coremap_entry =
  cm_vaddr :: nat
  cm_paddr :: nat
  cm_used :: int
  cm_flag :: int
  cm_len :: int
  cm_pid :: int
  cm_secs :: int
  cm_nano :: nat

abbreviation sizeof_coremap :: nat where "sizeof_coremap \<equiv> 36"

text \<open>
  The globals of the two files.  The array \<^verbatim>\<open>coremap\<close> has \<^verbatim>\<open>coremap_size\<close> entries, so the size
  is the length of the list.
\<close>

record physmem =
  firstpaddr :: nat
  lastpaddr :: nat
  pt_initialize :: int
  coremap :: "coremap_entry list"
  core_lock :: klock

abbreviation coremap_size :: "physmem \<Rightarrow> nat" where
  "coremap_size s \<equiv> length (coremap s)"

text \<open>
  What a call takes from its surroundings: the current thread, the process it belongs to if any,
  the time the clock shows, and the value the uninitialised local \<^verbatim>\<open>count_pages\<close> happens to
  hold.
\<close>

record callenv =
  e_cur :: "nat option"
  e_pid :: "int option"
  e_secs :: int
  e_nano :: nat
  e_count :: nat

definition core_locked :: "(klock, 'a) kern \<Rightarrow> (physmem, 'a) kern" where
  "core_locked = kzoom core_lock (\<lambda>l. core_lock_update (\<lambda>_. l))"

subsection \<open>The boot allocator\<close>

definition ram_bootstrap :: "nat \<Rightarrow> nat \<Rightarrow> (physmem, unit) kern" where
  "ram_bootstrap mips_ramsize firstfree =
     kmod (\<lambda>s. s\<lparr>
       lastpaddr := (if mips_ramsize > 508 * 1024 * 1024 then 508 * 1024 * 1024 else mips_ramsize),
       firstpaddr := (firstfree + 2 ^ 32 - MIPS_KSEG0) mod 2 ^ 32\<rparr>)"

definition ram_stealmem :: "nat \<Rightarrow> (physmem, nat) kern" where
  "ram_stealmem npages s =
     (let size = (npages * PAGE_SIZE) mod 2 ^ 32 in
      if (firstpaddr s + size) mod 2 ^ 32 > lastpaddr s then Inr (0, s)
      else Inr (firstpaddr s, s\<lparr>firstpaddr := (firstpaddr s + size) mod 2 ^ 32\<rparr>))"

definition ram_getsize :: "(physmem, nat \<times> nat) kern" where
  "ram_getsize s = Inr ((firstpaddr s, lastpaddr s), s\<lparr>firstpaddr := 0, lastpaddr := 0\<rparr>)"

subsection \<open>The core map\<close>

text \<open>
  \<open>vm_bootstrap raw\<close>, from the call of \<^verbatim>\<open>ram_getsize\<close> on: \<open>raw i\<close> is what the memory of entry \<open>i\<close>
  holds before the initialisation, which does not set all its fields.
\<close>

definition vm_bootstrap_entry :: "(nat \<Rightarrow> coremap_entry) \<Rightarrow> nat \<Rightarrow> nat \<Rightarrow> nat \<Rightarrow> coremap_entry" where
  "vm_bootstrap_entry raw firstaddr freeaddr i =
     (let fixed = i < ((freeaddr + 2 ^ 32 - firstaddr) mod 2 ^ 32) div PAGE_SIZE in
      (raw i)\<lparr>cm_used := (if fixed then 1 else 0), cm_flag := (if fixed then 1 else 0),
        cm_pid := -1, cm_paddr := (firstaddr + i * PAGE_SIZE) mod 2 ^ 32, cm_len := -1\<rparr>)"

definition vm_bootstrap :: "(nat \<Rightarrow> coremap_entry) \<Rightarrow> (physmem, unit) kern" where
  "vm_bootstrap raw =
     kbind (kmod (\<lambda>s. s\<lparr>core_lock := lock_new, coremap := []\<rparr>)) (\<lambda>_.
     kbind ram_getsize (\<lambda>(firstaddr, lastaddr).
       let size = lastaddr div PAGE_SIZE;
           freeaddr = (firstaddr + size * sizeof_coremap) mod 2 ^ 32;
           entries = map (vm_bootstrap_entry raw firstaddr freeaddr) [0..<size]
       in if PADDR_TO_KVADDR firstaddr = 0 then khalt PanicCall
          else if (lastaddr + 2 ^ 32 - freeaddr) mod 2 ^ 32 \<le> 0 then khalt PanicCall
          else kbind (kassert (list_all (\<lambda>e. page_frame (cm_paddr e) = cm_paddr e) entries)) (\<lambda>_.
            kmod (\<lambda>s. s\<lparr>coremap := entries, pt_initialize := 1\<rparr>))))"

text \<open>
  The search of \<^verbatim>\<open>getppages\<close>: the final \<^verbatim>\<open>count_pages\<close>, the final \<open>i\<close>, and whether the loop was
  left by its \<^verbatim>\<open>break\<close>.
\<close>

function getppages_scan :: "nat \<Rightarrow> coremap_entry list \<Rightarrow> nat \<Rightarrow> nat \<Rightarrow> nat \<times> nat \<times> bool" where
  "getppages_scan npages cm i count_pages =
     (if i < length cm then
        if cm_used (cm ! i) = 0 then
          (let count_pages = (count_pages + 1) mod 2 ^ 32 in
           if count_pages = npages then (count_pages, i, True)
           else getppages_scan npages cm (Suc i) count_pages)
        else getppages_scan npages cm (Suc i) 0
      else (count_pages, i, False))"
  by pat_completeness auto
termination
  by (relation "measure (\<lambda>(npages, cm, i, c). length cm - i)") auto

text \<open>The loops that set the field \<^verbatim>\<open>used\<close> of \<open>n\<close> entries from index \<open>i\<close> on.\<close>

fun coremap_setused :: "int \<Rightarrow> nat \<Rightarrow> nat \<Rightarrow> coremap_entry list \<Rightarrow> coremap_entry list kres" where
  "coremap_setused v i 0 cm = Inr cm"
| "coremap_setused v i (Suc n) cm =
     (if i < length cm then coremap_setused v (Suc i) n (cm[i := (cm ! i)\<lparr>cm_used := v\<rparr>])
      else Inl BadPtr)"

text \<open>The bookkeeping of the block that starts at \<open>j\<close>, done when the search succeeds.\<close>

definition getppages_note :: "callenv \<Rightarrow> nat \<Rightarrow> int \<Rightarrow> coremap_entry list \<Rightarrow> coremap_entry list kres" where
  "getppages_note env npages j cm =
     (if 0 \<le> j \<and> j < int (length cm) then
        Inr (cm[nat j := (cm ! nat j)\<lparr>cm_len := int npages, cm_secs := e_secs env,
          cm_nano := e_nano env,
          cm_pid := (case e_pid env of None \<Rightarrow> cm_pid (cm ! nat j) | Some pid \<Rightarrow> pid)\<rparr>])
      else Inl BadPtr)"

definition coremap_step :: "(coremap_entry list \<Rightarrow> coremap_entry list kres) \<Rightarrow> (physmem, unit) kern" where
  "coremap_step f s =
     (case f (coremap s) of Inl h \<Rightarrow> Inl h | Inr cm \<Rightarrow> Inr ((), s\<lparr>coremap := cm\<rparr>))"

text \<open>What follows the search, for the block that starts at \<open>j\<close>.\<close>

definition getppages_take :: "callenv \<Rightarrow> nat \<Rightarrow> int \<Rightarrow> nat \<Rightarrow> bool \<Rightarrow> (physmem, nat) kern" where
  "getppages_take env npages j count_pages found =
     kbind (if found then coremap_step (getppages_note env npages j) else kret ()) (\<lambda>_.
     if count_pages = npages then
       kbind (if j < 0 then khalt BadPtr
              else coremap_step (coremap_setused 1 (nat j) npages)) (\<lambda>_.
       kbind (kget (\<lambda>s. if nat j < length (coremap s) then Some (cm_paddr (coremap s ! nat j)) else None)) (\<lambda>pa.
       case pa of
         None \<Rightarrow> khalt BadPtr
       | Some paddr \<Rightarrow>
           kbind (kassert (page_frame paddr = paddr)) (\<lambda>_.
           kbind (core_locked (lock_release (e_cur env))) (\<lambda>_. kret paddr))))
     else kbind (core_locked (lock_release (e_cur env))) (\<lambda>_. kret 0))"

definition getppages :: "callenv \<Rightarrow> nat \<Rightarrow> (physmem, nat) kern" where
  "getppages env npages =
     kbind (kget pt_initialize) (\<lambda>init.
     if init \<noteq> 1 then ram_stealmem npages
     else
       kbind (core_locked (lock_acquire (e_cur env))) (\<lambda>_.
       kbind (kget (\<lambda>s. getppages_scan npages (coremap s) 0 (e_count env))) (\<lambda>(count_pages, i, found).
       getppages_take env npages (int i - int npages + 1) count_pages found)))"

text \<open>The first entry that satisfies a condition, or the size of the map.\<close>

function coremap_search :: "(coremap_entry \<Rightarrow> bool) \<Rightarrow> coremap_entry list \<Rightarrow> nat \<Rightarrow> nat" where
  "coremap_search test cm i =
     (if i < length cm then if test (cm ! i) then i else coremap_search test cm (Suc i) else i)"
  by pat_completeness auto
termination
  by (relation "measure (\<lambda>(test, cm, i). length cm - i)") auto

definition coremap_insertpid :: "nat \<Rightarrow> int \<Rightarrow> (physmem, unit) kern" where
  "coremap_insertpid pa pid s =
     (let i = coremap_search (\<lambda>e. cm_paddr e = pa) (coremap s) 0 in
      if i < coremap_size s
      then Inr ((), s\<lparr>coremap := (coremap s)[i := (coremap s ! i)\<lparr>cm_pid := pid\<rparr>]\<rparr>)
      else Inl BadPtr)"

definition alloc_kpages :: "callenv \<Rightarrow> nat \<Rightarrow> (physmem, nat) kern" where
  "alloc_kpages env npages =
     kbind (getppages env npages) (\<lambda>pa.
     if pa = 0 then kret 0
     else
       let va = PADDR_TO_KVADDR pa in
       if \<not> va > USERTOP then
         kbind (kassert (e_cur env \<noteq> None)) (\<lambda>_.
         kbind (kassert (e_pid env \<noteq> None)) (\<lambda>_.
         kbind (coremap_insertpid pa (the (e_pid env))) (\<lambda>_. kret va)))
       else kret va)"

definition free_kpages :: "callenv \<Rightarrow> nat \<Rightarrow> (physmem, unit) kern" where
  "free_kpages env addr =
     kbind (core_locked (lock_acquire (e_cur env))) (\<lambda>_.
     kbind (kget coremap) (\<lambda>cm.
     kbind (if \<not> addr > USERTOP
            then kbind (kassert (cm = [] \<or> e_cur env \<noteq> None \<and> e_pid env \<noteq> None)) (\<lambda>_.
              kret (coremap_search
                (\<lambda>e. PADDR_TO_KVADDR (cm_paddr e) = addr \<and> Some (cm_pid e) = e_pid env) cm 0))
            else kret (coremap_search (\<lambda>e. PADDR_TO_KVADDR (cm_paddr e) = addr) cm 0)) (\<lambda>i.
     if i \<ge> length cm then khalt PanicCall
     else
       kbind (kassert (cm_len (cm ! i) \<noteq> -1)) (\<lambda>_.
       let len = cm_len (cm ! i) in
       kbind (coremap_step (\<lambda>cm. Inr (cm[i := (cm ! i)\<lparr>cm_len := -1\<rparr>]))) (\<lambda>_.
       kbind (coremap_step (coremap_setused 0 i (nat len))) (\<lambda>_.
       core_locked (lock_release (e_cur env))))))))"

subsection \<open>Well-formed core maps\<close>

text \<open>
  Frame 0 of the map holds the map itself and is never free.  An entry whose \<^verbatim>\<open>len\<close> is not -1
  starts a block of that many frames; all of them are in use and no other block starts inside.
\<close>

definition cm_block :: "coremap_entry list \<Rightarrow> nat \<Rightarrow> bool" where
  "cm_block cm i \<longleftrightarrow> 1 \<le> cm_len (cm ! i) \<and> i + nat (cm_len (cm ! i)) \<le> length cm \<and>
     (\<forall>k. i \<le> k \<and> k < i + nat (cm_len (cm ! i)) \<longrightarrow>
        cm_used (cm ! k) \<noteq> 0 \<and> (k \<noteq> i \<longrightarrow> cm_len (cm ! k) = -1))"

definition cm_frames :: "coremap_entry list \<Rightarrow> bool" where
  "cm_frames cm \<longleftrightarrow> cm \<noteq> [] \<and> cm_used (cm ! 0) \<noteq> 0 \<and> cm_len (cm ! 0) = -1 \<and>
     0 < cm_paddr (cm ! 0) \<and> cm_paddr (cm ! 0) mod PAGE_SIZE = 0 \<and>
     cm_paddr (cm ! 0) + length cm * PAGE_SIZE \<le> 2 ^ 31 \<and>
     (\<forall>i < length cm. cm_paddr (cm ! i) = cm_paddr (cm ! 0) + i * PAGE_SIZE)"

definition coremap_inv :: "physmem \<Rightarrow> bool" where
  "coremap_inv s \<longleftrightarrow> pt_initialize s = 1 \<and> lk_owner (core_lock s) = None \<and> cm_frames (coremap s) \<and>
     (\<forall>i < coremap_size s. cm_len (coremap s ! i) \<noteq> -1 \<longrightarrow> cm_block (coremap s) i)"

text \<open>The blocks that are allocated, by kernel address and number of pages.\<close>

definition kblocks :: "physmem \<Rightarrow> (nat \<times> nat) set" where
  "kblocks s = {(PADDR_TO_KVADDR (cm_paddr (coremap s ! i)), nat (cm_len (coremap s ! i))) | i.
     i < coremap_size s \<and> cm_len (coremap s ! i) \<noteq> -1}"

text \<open>A run of \<open>n\<close> free frames from \<open>i\<close> on.\<close>

definition free_run :: "coremap_entry list \<Rightarrow> nat \<Rightarrow> nat \<Rightarrow> bool" where
  "free_run cm i n \<longleftrightarrow> i + n \<le> length cm \<and> (\<forall>k. i \<le> k \<and> k < i + n \<longrightarrow> cm_used (cm ! k) = 0)"

section \<open>Lemmas\<close>

declare getppages_scan.simps [simp del] coremap_search.simps [simp del]

lemma getppages_scan_spec:
  assumes "c \<le> i" and "c < n" and "n < 2 ^ 32" and "\<forall>k. i - c \<le> k \<and> k < i \<longrightarrow> cm_used (cm ! k) = 0"
    and "getppages_scan n cm i c = (cnt, i', found)"
  shows "(if found then cnt = n \<and> n \<le> Suc i' \<and> free_run cm (Suc i' - n) n
     else cnt \<noteq> n \<and> (\<forall>j. i - c \<le> j \<longrightarrow> \<not> free_run cm j n))"
  using assms
proof (induction n cm i c rule: getppages_scan.induct)
  case (1 n cm i c)
  consider (past) "\<not> i < length cm" | (used) "i < length cm" "cm_used (cm ! i) \<noteq> 0"
    | (hit) "i < length cm" "cm_used (cm ! i) = 0" "Suc c = n"
    | (step) "i < length cm" "cm_used (cm ! i) = 0" "Suc c \<noteq> n" by blast
  then show ?case
  proof cases
    case past
    with "1.prems" show ?thesis
      by (auto simp: getppages_scan.simps [of n cm i c] free_run_def)
  next
    case used
    from used "1.prems"(5) have rec: "getppages_scan n cm (Suc i) 0 = (cnt, i', found)"
      by (subst (asm) getppages_scan.simps) simp
    have "(if found then cnt = n \<and> n \<le> Suc i' \<and> free_run cm (Suc i' - n) n
       else cnt \<noteq> n \<and> (\<forall>j. Suc i - 0 \<le> j \<longrightarrow> \<not> free_run cm j n))"
      by (rule "1.IH"(2)) (use used "1.prems" rec in simp_all)
    moreover have "\<not> free_run cm j n" if "i - c \<le> j" "\<not> Suc i \<le> j" for j
    proof
      assume "free_run cm j n"
      moreover have "j \<le> i" "i < j + n" using that "1.prems"(1,2) by simp_all
      ultimately show False using used(2) unfolding free_run_def by blast
    qed
    ultimately show ?thesis by (metis diff_zero)
  next
    case hit
    then have "(c + 1) mod 2 ^ 32 = n" using "1.prems"(3) by simp
    with hit(1,2) have "getppages_scan n cm i c = (n, i, True)"
      by (subst getppages_scan.simps) simp
    with "1.prems"(5) have r: "cnt = n" "i' = i" "found" by simp_all
    have "free_run cm (Suc i - n) n"
      unfolding free_run_def
    proof (intro conjI allI impI)
      show "Suc i - n + n \<le> length cm" using hit "1.prems"(1) by simp
      fix k
      assume "Suc i - n \<le> k \<and> k < Suc i - n + n"
      then have "i - c \<le> k \<and> k < i \<or> k = i" using hit(3) "1.prems"(1) by auto
      then show "cm_used (cm ! k) = 0" using hit(2) "1.prems"(4) by blast
    qed
    with r hit "1.prems"(1) show ?thesis by auto
  next
    case step
    have m: "(c + 1) mod 2 ^ 32 = Suc c" using "1.prems"(2,3) by simp
    from step m "1.prems"(5) have rec: "getppages_scan n cm (Suc i) (Suc c) = (cnt, i', found)"
      by (subst (asm) getppages_scan.simps) simp
    have "(if found then cnt = n \<and> n \<le> Suc i' \<and> free_run cm (Suc i' - n) n
       else cnt \<noteq> n \<and> (\<forall>j. Suc i - Suc c \<le> j \<longrightarrow> \<not> free_run cm j n))"
      by (rule "1.IH"(1) [of "Suc c"]) (use step m "1.prems" rec in \<open>auto simp: less_Suc_eq\<close>)
    then show ?thesis by simp
  qed
qed

lemma coremap_setused_spec:
  "i + n \<le> length cm \<Longrightarrow> \<exists>cm'. coremap_setused v i n cm = Inr cm' \<and> length cm' = length cm \<and>
     (\<forall>k < length cm. cm' ! k = (if i \<le> k \<and> k < i + n then (cm ! k)\<lparr>cm_used := v\<rparr> else cm ! k))"
proof (induction n arbitrary: i cm)
  case (Suc n)
  let ?cm = "cm[i := (cm ! i)\<lparr>cm_used := v\<rparr>]"
  have "Suc i + n \<le> length ?cm" using Suc.prems by simp
  from Suc.IH [OF this] obtain cm' where
    "coremap_setused v (Suc i) n ?cm = Inr cm'" "length cm' = length ?cm"
    "\<forall>k < length ?cm. cm' ! k = (if Suc i \<le> k \<and> k < Suc i + n then (?cm ! k)\<lparr>cm_used := v\<rparr> else ?cm ! k)"
    by blast
  with Suc.prems show ?case by (auto simp: nth_list_update)
qed simp

lemma coremap_search_found:
  assumes "i < length cm" and "test (cm ! i)" and "\<forall>k. j \<le> k \<and> k < i \<longrightarrow> \<not> test (cm ! k)" and "j \<le> i"
  shows "coremap_search test cm j = i"
  using assms
proof (induction test cm j rule: coremap_search.induct)
  case (1 test cm j)
  show ?case
  proof (cases "j = i")
    case True
    with "1.prems" show ?thesis by (subst coremap_search.simps) simp
  next
    case False
    with "1.prems" have "j < length cm" "\<not> test (cm ! j)" by simp_all
    with 1 False show ?thesis by (subst coremap_search.simps) simp
  qed
qed

lemma coremap_search_none:
  "(\<forall>k. j \<le> k \<and> k < length cm \<longrightarrow> \<not> test (cm ! k)) \<Longrightarrow> j \<le> length cm \<Longrightarrow>
     coremap_search test cm j = length cm"
proof (induction test cm j rule: coremap_search.induct)
  case (1 test cm j)
  then show ?case by (subst coremap_search.simps) auto
qed

lemma page_frame_aligned: "a mod PAGE_SIZE = 0 \<Longrightarrow> page_frame a = a"
  by (simp add: page_frame_def)

lemma cm_framesD:
  assumes "cm_frames cm"
  shows "0 < length cm" and "cm_used (cm ! 0) \<noteq> 0" and "cm_len (cm ! 0) = -1"
    and "0 < cm_paddr (cm ! 0)" and "cm_paddr (cm ! 0) mod PAGE_SIZE = 0"
    and "cm_paddr (cm ! 0) + length cm * PAGE_SIZE \<le> 2 ^ 31"
    and "i < length cm \<Longrightarrow> cm_paddr (cm ! i) = cm_paddr (cm ! 0) + i * PAGE_SIZE"
  using assms unfolding cm_frames_def by blast+

lemma cm_frames_paddr:
  assumes "cm_frames cm" and "i < length cm"
  shows "cm_paddr (cm ! i) mod PAGE_SIZE = 0" and "0 < cm_paddr (cm ! i)"
    and "PADDR_TO_KVADDR (cm_paddr (cm ! i)) = cm_paddr (cm ! 0) + i * PAGE_SIZE + MIPS_KSEG0"
proof -
  have p: "cm_paddr (cm ! i) = cm_paddr (cm ! 0) + i * PAGE_SIZE"
    by (rule cm_framesD(7) [OF assms])
  show "cm_paddr (cm ! i) mod PAGE_SIZE = 0" and "0 < cm_paddr (cm ! i)"
    unfolding p using cm_framesD(4,5) [OF assms(1)] by simp_all
  have "i * PAGE_SIZE < length cm * PAGE_SIZE" using assms(2) by simp
  then have "cm_paddr (cm ! i) < 2 ^ 31" using cm_framesD(6) [OF assms(1)] p by linarith
  then show "PADDR_TO_KVADDR (cm_paddr (cm ! i)) = cm_paddr (cm ! 0) + i * PAGE_SIZE + MIPS_KSEG0"
    unfolding p [symmetric] PADDR_TO_KVADDR_def by simp
qed

lemma cm_frames_inj:
  "cm_frames cm \<Longrightarrow> i < length cm \<Longrightarrow> j < length cm \<Longrightarrow>
     PADDR_TO_KVADDR (cm_paddr (cm ! i)) = PADDR_TO_KVADDR (cm_paddr (cm ! j)) \<longleftrightarrow> i = j"
  by (simp add: cm_frames_paddr)

text \<open>Changing fields other than the address keeps the frames.\<close>

lemma cm_frames_cong:
  assumes "cm_frames cm" and "length cm' = length cm"
    and "\<forall>k < length cm. cm_paddr (cm' ! k) = cm_paddr (cm ! k)"
    and "cm_used (cm' ! 0) = cm_used (cm ! 0)" and "cm_len (cm' ! 0) = cm_len (cm ! 0)"
  shows "cm_frames cm'"
  using assms unfolding cm_frames_def by (metis length_greater_0_conv)

lemma coremap_invD:
  assumes "coremap_inv s"
  shows "pt_initialize s = 1" and "lk_owner (core_lock s) = None" and "cm_frames (coremap s)"
    and "\<And>i. i < coremap_size s \<Longrightarrow> cm_len (coremap s ! i) \<noteq> -1 \<Longrightarrow> cm_block (coremap s) i"
  using assms by (simp_all add: coremap_inv_def)

lemma core_locked_acquire:
  "lk_owner (core_lock s) = None \<Longrightarrow>
     core_locked (lock_acquire cur) s = Inr ((), s\<lparr>core_lock := (core_lock s)\<lparr>lk_owner := cur\<rparr>\<rparr>)"
  by (simp add: core_locked_def kzoom_def)

lemma core_locked_release:
  "lk_owner (core_lock s) = cur \<Longrightarrow>
     core_locked (lock_release cur) s = Inr ((), s\<lparr>core_lock := (core_lock s)\<lparr>lk_owner := None\<rparr>\<rparr>)"
  by (simp add: core_locked_def kzoom_def)

text \<open>
  What a successful \<^verbatim>\<open>getppages\<close> does to the map: the frames become used and the first one
  records the length.
\<close>

definition cm_taken :: "callenv \<Rightarrow> nat \<Rightarrow> nat \<Rightarrow> coremap_entry list \<Rightarrow> coremap_entry list \<Rightarrow> bool" where
  "cm_taken env i n cm cm' \<longleftrightarrow> length cm' = length cm \<and>
     (\<forall>k < length cm. cm_paddr (cm' ! k) = cm_paddr (cm ! k) \<and>
        cm_used (cm' ! k) = (if i \<le> k \<and> k < i + n then 1 else cm_used (cm ! k)) \<and>
        cm_len (cm' ! k) = (if k = i then int n else cm_len (cm ! k)) \<and>
        cm_pid (cm' ! k) = (if k = i then case e_pid env of None \<Rightarrow> cm_pid (cm ! k) | Some p \<Rightarrow> p
          else cm_pid (cm ! k)))"

lemma scan_start:
  assumes "cm_frames cm" and "0 < n"
  shows "getppages_scan n cm 0 c = getppages_scan n cm 1 0"
  using assms(2) cm_framesD(1,2) [OF assms(1)] by (subst getppages_scan.simps) simp

lemma free_run_pos: "cm_frames cm \<Longrightarrow> free_run cm i n \<Longrightarrow> 0 < n \<Longrightarrow> 0 < i"
  using cm_framesD(2) [of cm] by (cases i) (auto simp: free_run_def)

lemma getppages_take_ok:
  assumes "lk_owner (core_lock s) = e_cur env" and "cm_frames (coremap s)"
    and "free_run (coremap s) i n" and "0 < n"
  shows "\<exists>cm'. getppages_take env n (int i) n True s =
      Inr (cm_paddr (coremap s ! i), s\<lparr>coremap := cm', core_lock := (core_lock s)\<lparr>lk_owner := None\<rparr>\<rparr>) \<and>
    cm_taken env i n (coremap s) cm'"
proof -
  let ?cm = "coremap s"
  let ?e = "(?cm ! i)\<lparr>cm_len := int n, cm_secs := e_secs env, cm_nano := e_nano env,
      cm_pid := (case e_pid env of None \<Rightarrow> cm_pid (?cm ! i) | Some pid \<Rightarrow> pid)\<rparr>"
  let ?cm1 = "?cm[i := ?e]"
  have len: "i + n \<le> length ?cm" and i: "i < length ?cm"
    using assms(3,4) by (simp_all add: free_run_def)
  have note_ok: "coremap_step (getppages_note env n (int i)) s = Inr ((), s\<lparr>coremap := ?cm1\<rparr>)"
    using i by (simp add: coremap_step_def getppages_note_def cong: option.case_cong)
  obtain cm' where cm': "coremap_setused 1 i n ?cm1 = Inr cm'" "length cm' = length ?cm"
    "\<forall>k < length ?cm. cm' ! k = (if i \<le> k \<and> k < i + n then (?cm1 ! k)\<lparr>cm_used := 1\<rparr> else ?cm1 ! k)"
    using coremap_setused_spec [of i n ?cm1 1] len by auto
  have taken: "cm_taken env i n ?cm cm'"
    unfolding cm_taken_def
  proof (intro conjI allI impI cm'(2))
    fix k
    assume k: "k < length ?cm"
    have e: "cm' ! k = (if i \<le> k \<and> k < i + n then (?cm1 ! k)\<lparr>cm_used := 1\<rparr> else ?cm1 ! k)"
      using cm'(3) k by blast
    have c: "?cm1 ! k = (if k = i then ?e else ?cm ! k)" using i by simp
    show "cm_paddr (cm' ! k) = cm_paddr (?cm ! k)" unfolding e c by simp
    show "cm_used (cm' ! k) = (if i \<le> k \<and> k < i + n then 1 else cm_used (?cm ! k))"
      unfolding e c using assms(4) by simp
    show "cm_len (cm' ! k) = (if k = i then int n else cm_len (?cm ! k))" unfolding e c by simp
    show "cm_pid (cm' ! k) = (if k = i then case e_pid env of None \<Rightarrow> cm_pid (?cm ! k) | Some p \<Rightarrow> p
        else cm_pid (?cm ! k))" unfolding e c by (cases "k = i"; cases "e_pid env") simp_all
  qed
  have set_ok: "coremap_step (coremap_setused 1 i n) (s\<lparr>coremap := ?cm1\<rparr>) = Inr ((), s\<lparr>coremap := cm'\<rparr>)"
    using cm'(1) by (simp add: coremap_step_def)
  have pa: "cm_paddr (cm' ! i) = cm_paddr (?cm ! i)" using taken i by (simp add: cm_taken_def)
  have al: "page_frame (cm_paddr (?cm ! i)) = cm_paddr (?cm ! i)"
    by (rule page_frame_aligned) (rule cm_frames_paddr(1) [OF assms(2) i])
  have rel: "core_locked (lock_release (e_cur env)) (s\<lparr>coremap := cm'\<rparr>) =
      Inr ((), s\<lparr>coremap := cm', core_lock := (core_lock s)\<lparr>lk_owner := None\<rparr>\<rparr>)"
    using assms(1) by (simp add: core_locked_release)
  have "getppages_take env n (int i) n True s =
      Inr (cm_paddr (?cm ! i), s\<lparr>coremap := cm', core_lock := (core_lock s)\<lparr>lk_owner := None\<rparr>\<rparr>)"
    unfolding getppages_take_def by (simp add: note_ok set_ok pa al rel cm'(2) i)
  with taken show ?thesis by blast
qed

lemma getppages_cases:
  assumes s: "coremap_inv s" and n: "0 < n" "n < 2 ^ 32"
  obtains (nomem) "getppages env n s = Inr (0, s)" and "\<And>j. \<not> free_run (coremap s) j n"
  | (ok) i cm' where "getppages env n s = Inr (cm_paddr (coremap s ! i), s\<lparr>coremap := cm'\<rparr>)"
      and "free_run (coremap s) i n" and "cm_taken env i n (coremap s) cm'"
proof -
  note inv = coremap_invD [OF s]
  let ?cm = "coremap s"
  obtain cnt i' found where sc: "getppages_scan n ?cm 1 0 = (cnt, i', found)" by (metis prod_cases3)
  have sc0: "getppages_scan n ?cm 0 (e_count env) = (cnt, i', found)"
    using scan_start [OF inv(3) n(1)] sc by simp
  have spec: "(if found then cnt = n \<and> n \<le> Suc i' \<and> free_run ?cm (Suc i' - n) n
     else cnt \<noteq> n \<and> (\<forall>j. 1 \<le> j \<longrightarrow> \<not> free_run ?cm j n))"
    using getppages_scan_spec [of 0 1 n ?cm cnt i' found] sc n by simp
  let ?l = "s\<lparr>core_lock := (core_lock s)\<lparr>lk_owner := e_cur env\<rparr>\<rparr>"
  have run: "getppages env n s = getppages_take env n (int i' - int n + 1) cnt found ?l"
    by (simp add: getppages_def inv(1) core_locked_acquire [OF inv(2)] sc0)
  show ?thesis
  proof (cases found)
    case False
    with spec have "\<not> free_run ?cm j n" for j using free_run_pos [OF inv(3) _ n(1), of j] by force
    moreover have "getppages env n s = Inr (0, s)"
      using False spec inv(2) by (simp add: run getppages_take_def core_locked_release)
    ultimately show ?thesis using nomem by blast
  next
    case True
    have j: "int i' - int n + 1 = int (Suc i' - n)" and fr: "free_run ?cm (Suc i' - n) n"
      using spec True by simp_all
    then obtain cm' where t: "cm_taken env (Suc i' - n) n ?cm cm'"
      and r: "getppages_take env n (int (Suc i' - n)) n True ?l =
        Inr (cm_paddr (?cm ! (Suc i' - n)), ?l\<lparr>coremap := cm', core_lock := (core_lock ?l)\<lparr>lk_owner := None\<rparr>\<rparr>)"
      using getppages_take_ok [of ?l env "Suc i' - n" n] inv(3) n(1) by auto
    have cnt: "cnt = n" using spec True by simp
    have "getppages env n s = Inr (cm_paddr (?cm ! (Suc i' - n)), s\<lparr>coremap := cm'\<rparr>)"
      unfolding run j cnt using r True inv(2) by simp
    then show ?thesis using fr t by (rule ok)
  qed
qed

lemma kblocks_iff:
  "(a, n) \<in> kblocks s \<longleftrightarrow> (\<exists>i < coremap_size s. cm_len (coremap s ! i) \<noteq> -1 \<and>
     a = PADDR_TO_KVADDR (cm_paddr (coremap s ! i)) \<and> n = nat (cm_len (coremap s ! i)))"
  by (auto simp: kblocks_def)

text \<open>Taking a free run keeps the invariant and adds one block.\<close>

lemma of_nat_neq_minus_one: "int n \<noteq> -1"
  by simp

lemma cm_blockD:
  assumes "cm_block cm i"
  shows "1 \<le> cm_len (cm ! i)" and "i + nat (cm_len (cm ! i)) \<le> length cm"
    and "i \<le> k \<Longrightarrow> k < i + nat (cm_len (cm ! i)) \<Longrightarrow> cm_used (cm ! k) \<noteq> 0"
    and "i \<le> k \<Longrightarrow> k < i + nat (cm_len (cm ! i)) \<Longrightarrow> k \<noteq> i \<Longrightarrow> cm_len (cm ! k) = -1"
  using assms unfolding cm_block_def by blast+

lemma block_avoids_run:
  assumes "cm_block cm b" and "free_run cm i n" and "0 < n"
  shows "b + nat (cm_len (cm ! b)) \<le> i \<or> i + n \<le> b"
proof (rule ccontr)
  assume no: "\<not> ?thesis"
  have l: "0 < nat (cm_len (cm ! b))" using cm_blockD(1) [OF assms(1)] by simp
  note u = cm_blockD(3) [OF assms(1)]
  have f: "i \<le> k \<Longrightarrow> k < i + n \<Longrightarrow> cm_used (cm ! k) = 0" for k
    using assms(2) unfolding free_run_def by blast
  show False
  proof (cases "b \<le> i")
    case True
    then show False using u [of i] f [of i] no assms(3) by simp
  next
    case False
    then show False using u [of b] f [of b] no l by simp
  qed
qed

lemma coremap_inv_taken:
  assumes s: "coremap_inv s" and fr: "free_run (coremap s) i n" and n: "0 < n"
    and t: "cm_taken env i n (coremap s) cm'"
  shows "coremap_inv (s\<lparr>coremap := cm'\<rparr>)"
    and "kblocks (s\<lparr>coremap := cm'\<rparr>) = insert (PADDR_TO_KVADDR (cm_paddr (coremap s ! i)), n) (kblocks s)"
    and "\<forall>m. (PADDR_TO_KVADDR (cm_paddr (coremap s ! i)), m) \<notin> kblocks s"
proof -
  note inv = coremap_invD [OF s]
  let ?cm = "coremap s"
  have len: "length cm' = length ?cm" and i: "i < length ?cm"
    using t fr n by (simp_all add: cm_taken_def free_run_def)
  have e: "cm_paddr (cm' ! k) = cm_paddr (?cm ! k)"
    "cm_used (cm' ! k) = (if i \<le> k \<and> k < i + n then 1 else cm_used (?cm ! k))"
    "cm_len (cm' ! k) = (if k = i then int n else cm_len (?cm ! k))" if "k < length ?cm" for k
    using t that by (simp_all add: cm_taken_def)
  have li: "cm_len (?cm ! i) = -1"
  proof (rule ccontr)
    assume "cm_len (?cm ! i) \<noteq> -1"
    then have "cm_block ?cm i" by (rule inv(4) [OF i])
    then have "cm_used (?cm ! i) \<noteq> 0" using cm_blockD(1) [of ?cm i] cm_blockD(3) [of ?cm i i] by simp
    then show False using fr n by (auto simp: free_run_def)
  qed
  have inside: "cm_len (?cm ! k) = -1" if "i \<le> k" "k < i + n" for k
  proof (rule ccontr)
    assume "cm_len (?cm ! k) \<noteq> -1"
    moreover have "k < length ?cm" using that fr by (auto simp: free_run_def)
    ultimately have "cm_block ?cm k" by (intro inv(4))
    from block_avoids_run [OF this fr n] cm_blockD(1) [OF this] that show False by simp
  qed
  have pos: "0 < i" by (rule free_run_pos [OF inv(3) fr n])
  have "cm_frames cm'"
    by (rule cm_frames_cong [OF inv(3) len]) (use e pos cm_framesD(1) [OF inv(3)] in simp_all)
  moreover have "cm_block cm' b" if b: "b < length cm'" "cm_len (cm' ! b) \<noteq> -1" for b
  proof (cases "b = i")
    case True
    have r: "i + n \<le> length ?cm" using fr by (simp add: free_run_def)
    have l: "cm_len (cm' ! i) = int n" using e(3) [OF i] by simp
    show ?thesis unfolding True cm_block_def l
    proof (intro conjI allI impI)
      fix k
      assume k: "i \<le> k \<and> k < i + nat (int n)"
      then have kl: "k < length ?cm" using r by simp
      show "cm_used (cm' ! k) \<noteq> 0" using e(2) [OF kl] k by simp
      assume "k \<noteq> i"
      then show "cm_len (cm' ! k) = -1" using e(3) [OF kl] inside [of k] k by simp
    qed (use n r len in simp_all)
  next
    case False
    have bl: "b < length ?cm" using b(1) len by simp
    have lb: "cm_len (cm' ! b) = cm_len (?cm ! b)" using e(3) [OF bl] False by simp
    then have bb: "cm_block ?cm b" using inv(4) [OF bl] b(2) by simp
    note av = block_avoids_run [OF bb fr n] and bd = cm_blockD [OF bb]
    show ?thesis unfolding cm_block_def lb
    proof (intro conjI allI impI)
      fix k
      assume k: "b \<le> k \<and> k < b + nat (cm_len (?cm ! b))"
      with bd(2) have kl: "k < length ?cm" by simp
      show "cm_used (cm' ! k) \<noteq> 0" using e(2) [OF kl] bd(3) [of k] k by simp
      assume "k \<noteq> b"
      moreover have "k \<noteq> i" using av k n by auto
      ultimately show "cm_len (cm' ! k) = -1" using e(3) [OF kl] bd(4) [of k] k by simp
    qed (use bd(1,2) len in simp_all)
  qed
  ultimately show "coremap_inv (s\<lparr>coremap := cm'\<rparr>)" using inv by (simp add: coremap_inv_def)
  show "kblocks (s\<lparr>coremap := cm'\<rparr>) = insert (PADDR_TO_KVADDR (cm_paddr (?cm ! i)), n) (kblocks s)"
    (is "?L = ?R")
  proof (rule set_eqI, clarify)
    fix a m
    have "(a, m) \<in> ?L \<longleftrightarrow> (\<exists>k < length ?cm. cm_len (cm' ! k) \<noteq> -1 \<and>
        a = PADDR_TO_KVADDR (cm_paddr (?cm ! k)) \<and> m = nat (cm_len (cm' ! k)))"
      by (simp add: kblocks_iff len) (metis e(1))
    also have "\<dots> \<longleftrightarrow> (a = PADDR_TO_KVADDR (cm_paddr (?cm ! i)) \<and> m = n) \<or>
        (\<exists>k < length ?cm. cm_len (?cm ! k) \<noteq> -1 \<and>
          a = PADDR_TO_KVADDR (cm_paddr (?cm ! k)) \<and> m = nat (cm_len (?cm ! k)))"
      using e(3) i li by (metis nat_int of_nat_neq_minus_one)
    also have "\<dots> \<longleftrightarrow> (a, m) \<in> ?R" by (simp add: kblocks_iff)
    finally show "(a, m) \<in> ?L \<longleftrightarrow> (a, m) \<in> ?R" .
  qed
  show "\<forall>m. (PADDR_TO_KVADDR (cm_paddr (?cm ! i)), m) \<notin> kblocks s"
    unfolding kblocks_def using cm_frames_inj [OF inv(3) i] li by auto
qed

text \<open>The blocks are pairwise disjoint ranges of whole pages in the direct-mapped segment.\<close>

lemma kblocks_ok:
  assumes "coremap_inv s" and "(a, n) \<in> kblocks s"
  shows "a mod PAGE_SIZE = 0" and "USERTOP < a" and "0 < n" and "a + n * PAGE_SIZE \<le> 2 ^ 32"
proof -
  note inv = coremap_invD [OF assms(1)]
  let ?cm = "coremap s"
  from assms(2) obtain i where i: "i < length ?cm" "cm_len (?cm ! i) \<noteq> -1"
    "a = PADDR_TO_KVADDR (cm_paddr (?cm ! i))" "n = nat (cm_len (?cm ! i))"
    by (auto simp: kblocks_def)
  have b: "0 < n" "i + n \<le> length ?cm" using cm_blockD(1,2) [OF inv(4) [OF i(1,2)]] i(4) by simp_all
  have a: "a = cm_paddr (?cm ! 0) + i * PAGE_SIZE + MIPS_KSEG0"
    unfolding i(3) by (rule cm_frames_paddr(3) [OF inv(3) i(1)])
  note fr = cm_framesD [OF inv(3)]
  show "0 < n" by (rule b(1))
  have "a = cm_paddr (?cm ! 0) + (i + 524288) * PAGE_SIZE" unfolding a by simp
  then show "a mod PAGE_SIZE = 0" using fr(5) by (simp only: mod_mult_self1)
  show "USERTOP < a" unfolding a using fr(4) by simp
  have "(i + n) * PAGE_SIZE \<le> length ?cm * PAGE_SIZE" using b(2) by simp
  with fr(6) show "a + n * PAGE_SIZE \<le> 2 ^ 32" unfolding a by (simp add: algebra_simps)
qed

lemma kblocks_disjoint:
  assumes "coremap_inv s" and "(a, n) \<in> kblocks s" and "(b, m) \<in> kblocks s" and "(a, n) \<noteq> (b, m)"
  shows "a + n * PAGE_SIZE \<le> b \<or> b + m * PAGE_SIZE \<le> a"
proof -
  note inv = coremap_invD [OF assms(1)]
  let ?cm = "coremap s"
  let ?va = "\<lambda>i. cm_paddr (?cm ! 0) + i * PAGE_SIZE + MIPS_KSEG0"
  from assms(2,3) obtain i j where i: "i < length ?cm" "cm_len (?cm ! i) \<noteq> -1" "a = ?va i" "n = nat (cm_len (?cm ! i))"
    and j: "j < length ?cm" "cm_len (?cm ! j) \<noteq> -1" "b = ?va j" "m = nat (cm_len (?cm ! j))"
    using cm_frames_paddr(3) [OF inv(3)] by (auto simp: kblocks_def)
  have bi: "cm_block ?cm i" and bj: "cm_block ?cm j" using inv(4) i(1,2) j(1,2) by simp_all
  have "i \<noteq> j" using assms(4) i(3,4) j(3,4) by auto
  then have "i + n \<le> j \<or> j + m \<le> i"
    using cm_blockD(4) [OF bi, of j] cm_blockD(4) [OF bj, of i] i(2,4) j(2,4) by fastforce
  then have "(i + n) * PAGE_SIZE \<le> j * PAGE_SIZE \<or> (j + m) * PAGE_SIZE \<le> i * PAGE_SIZE"
    by (metis mult_le_mono1)
  then show ?thesis unfolding i(3) j(3) by (auto simp: algebra_simps)
qed

lemma alloc_kpages_cases:
  assumes s: "coremap_inv s" and n: "0 < n" "n < 2 ^ 32"
  obtains (nomem) "alloc_kpages env n s = Inr (0, s)" and "\<And>j. \<not> free_run (coremap s) j n"
  | (ok) i s' where "alloc_kpages env n s = Inr (PADDR_TO_KVADDR (cm_paddr (coremap s ! i)), s')"
      and "free_run (coremap s) i n" and "coremap_inv s'"
      and "kblocks s' = insert (PADDR_TO_KVADDR (cm_paddr (coremap s ! i)), n) (kblocks s)"
      and "\<forall>m. (PADDR_TO_KVADDR (cm_paddr (coremap s ! i)), m) \<notin> kblocks s"
proof (rule getppages_cases [OF assms, of env])
  assume "getppages env n s = Inr (0, s)" and "\<And>j. \<not> free_run (coremap s) j n"
  then show thesis by (intro nomem) (simp_all add: alloc_kpages_def)
next
  fix i cm'
  assume g: "getppages env n s = Inr (cm_paddr (coremap s ! i), s\<lparr>coremap := cm'\<rparr>)"
    and fr: "free_run (coremap s) i n" and t: "cm_taken env i n (coremap s) cm'"
  have i: "i < coremap_size s" using fr n(1) by (simp add: free_run_def)
  note fp = cm_frames_paddr [OF coremap_invD(3) [OF s] i]
  have "PADDR_TO_KVADDR (cm_paddr (coremap s ! i)) > USERTOP"
    unfolding fp(3) using cm_framesD(4) [OF coremap_invD(3) [OF s]] by simp
  then have "alloc_kpages env n s = Inr (PADDR_TO_KVADDR (cm_paddr (coremap s ! i)), s\<lparr>coremap := cm'\<rparr>)"
    using g fp(2) by (simp add: alloc_kpages_def)
  then show thesis using fr by (rule ok) (rule coremap_inv_taken [OF s fr n(1) t])+
qed

text \<open>Giving a block back.\<close>

lemma free_kpages_run:
  assumes s: "coremap_inv s" and i: "i < coremap_size s" and l: "cm_len (coremap s ! i) \<noteq> -1"
  obtains cm' where
    "free_kpages env (PADDR_TO_KVADDR (cm_paddr (coremap s ! i))) s = Inr ((), s\<lparr>coremap := cm'\<rparr>)"
    and "length cm' = coremap_size s"
    and "\<forall>k < coremap_size s. cm_paddr (cm' ! k) = cm_paddr (coremap s ! k) \<and>
      cm_used (cm' ! k) = (if i \<le> k \<and> k < i + nat (cm_len (coremap s ! i)) then 0 else cm_used (coremap s ! k)) \<and>
      cm_len (cm' ! k) = (if k = i then -1 else cm_len (coremap s ! k))"
proof -
  note inv = coremap_invD [OF s]
  let ?cm = "coremap s"
  let ?n = "nat (cm_len (?cm ! i))"
  let ?cm1 = "?cm[i := (?cm ! i)\<lparr>cm_len := -1\<rparr>]"
  let ?l = "s\<lparr>core_lock := (core_lock s)\<lparr>lk_owner := e_cur env\<rparr>\<rparr>"
  let ?a = "PADDR_TO_KVADDR (cm_paddr (?cm ! i))"
  have b: "cm_block ?cm i" by (rule inv(4) [OF i l])
  obtain cm' where cm': "coremap_setused 0 i ?n ?cm1 = Inr cm'" "length cm' = length ?cm"
    "\<forall>k < length ?cm. cm' ! k = (if i \<le> k \<and> k < i + ?n then (?cm1 ! k)\<lparr>cm_used := 0\<rparr> else ?cm1 ! k)"
    using coremap_setused_spec [of i ?n ?cm1 0] cm_blockD(2) [OF b] by auto
  have top: "?a > USERTOP"
    unfolding cm_frames_paddr(3) [OF inv(3) i] using cm_framesD(4) [OF inv(3)] by simp
  have find: "coremap_search (\<lambda>e. PADDR_TO_KVADDR (cm_paddr e) = ?a) ?cm 0 = i"
  proof (rule coremap_search_found [OF i])
    show "\<forall>k. 0 \<le> k \<and> k < i \<longrightarrow> PADDR_TO_KVADDR (cm_paddr (?cm ! k)) \<noteq> ?a"
      using cm_frames_inj [OF inv(3) _ i] i by auto
  qed simp_all
  have rel: "core_locked (lock_release (e_cur env)) (?l\<lparr>coremap := cm'\<rparr>) = Inr ((), s\<lparr>coremap := cm'\<rparr>)"
    using inv(2) by (simp add: core_locked_release)
  have "free_kpages env ?a s = Inr ((), s\<lparr>coremap := cm'\<rparr>)"
    using top i l unfolding free_kpages_def
    by (simp add: core_locked_acquire [OF inv(2)] find coremap_step_def cm'(1) rel)
  then show thesis using cm'(2)
  proof (rule that)
    show "\<forall>k < length ?cm. cm_paddr (cm' ! k) = cm_paddr (?cm ! k) \<and>
      cm_used (cm' ! k) = (if i \<le> k \<and> k < i + ?n then 0 else cm_used (?cm ! k)) \<and>
      cm_len (cm' ! k) = (if k = i then -1 else cm_len (?cm ! k))"
      using cm'(3) i by (simp add: nth_list_update)
  qed
qed

lemma free_kpages_ok:
  assumes s: "coremap_inv s" and b: "(a, n) \<in> kblocks s"
  shows "\<exists>s'. free_kpages env a s = Inr ((), s') \<and> coremap_inv s' \<and> kblocks s' = kblocks s - {(a, n)}"
proof -
  note inv = coremap_invD [OF s]
  let ?cm = "coremap s"
  from b obtain i where i: "i < length ?cm" and l: "cm_len (?cm ! i) \<noteq> -1"
    and a: "a = PADDR_TO_KVADDR (cm_paddr (?cm ! i))" and n: "n = nat (cm_len (?cm ! i))"
    by (auto simp: kblocks_iff)
  obtain cm' where run: "free_kpages env a s = Inr ((), s\<lparr>coremap := cm'\<rparr>)" and len: "length cm' = length ?cm"
    and e': "\<forall>k < length ?cm. cm_paddr (cm' ! k) = cm_paddr (?cm ! k) \<and>
      cm_used (cm' ! k) = (if i \<le> k \<and> k < i + n then 0 else cm_used (?cm ! k)) \<and>
      cm_len (cm' ! k) = (if k = i then -1 else cm_len (?cm ! k))"
    unfolding a n by (rule free_kpages_run [OF s i l])
  then have e: "cm_paddr (cm' ! k) = cm_paddr (?cm ! k)"
    "cm_used (cm' ! k) = (if i \<le> k \<and> k < i + n then 0 else cm_used (?cm ! k))"
    "cm_len (cm' ! k) = (if k = i then -1 else cm_len (?cm ! k))" if "k < length ?cm" for k
    using that by blast+
  have bi: "cm_block ?cm i" by (rule inv(4) [OF i l])
  have i0: "i \<noteq> 0" using l cm_framesD(3) [OF inv(3)] by metis
  have "cm_frames cm'"
    by (rule cm_frames_cong [OF inv(3) len]) (use e i0 cm_framesD(1) [OF inv(3)] in simp_all)
  moreover have "cm_block cm' j" if j: "j < length cm'" "cm_len (cm' ! j) \<noteq> -1" for j
  proof -
    have jl: "j < length ?cm" using j(1) len by simp
    have ji: "j \<noteq> i" and lj: "cm_len (cm' ! j) = cm_len (?cm ! j)"
      using e(3) [OF jl] j(2) by (auto split: if_splits)
    then have bj: "cm_block ?cm j" using inv(4) [OF jl] j(2) by simp
    have sep: "i + n \<le> j \<or> j + nat (cm_len (?cm ! j)) \<le> i"
      using cm_blockD(4) [OF bi, of j] cm_blockD(4) [OF bj, of i] ji l j(2) lj n by fastforce
    show ?thesis unfolding cm_block_def lj
    proof (intro conjI allI impI)
      fix k
      assume k: "j \<le> k \<and> k < j + nat (cm_len (?cm ! j))"
      with cm_blockD(2) [OF bj] have kl: "k < length ?cm" by simp
      show "cm_used (cm' ! k) \<noteq> 0" using e(2) [OF kl] cm_blockD(3) [OF bj, of k] k sep by auto
      assume "k \<noteq> j"
      then show "cm_len (cm' ! k) = -1" using e(3) [OF kl] cm_blockD(4) [OF bj, of k] k by simp
    qed (use cm_blockD(1,2) [OF bj] len in simp_all)
  qed
  ultimately have "coremap_inv (s\<lparr>coremap := cm'\<rparr>)" using inv by (simp add: coremap_inv_def)
  moreover have "kblocks (s\<lparr>coremap := cm'\<rparr>) = kblocks s - {(a, n)}"
  proof (rule set_eqI, clarify)
    fix x m
    have "(x, m) \<in> kblocks (s\<lparr>coremap := cm'\<rparr>) \<longleftrightarrow> (\<exists>k < length ?cm. cm_len (cm' ! k) \<noteq> -1 \<and>
        x = PADDR_TO_KVADDR (cm_paddr (?cm ! k)) \<and> m = nat (cm_len (cm' ! k)))"
      by (simp add: kblocks_iff len) (metis e(1))
    also have "\<dots> \<longleftrightarrow> (\<exists>k < length ?cm. k \<noteq> i \<and> cm_len (?cm ! k) \<noteq> -1 \<and>
        x = PADDR_TO_KVADDR (cm_paddr (?cm ! k)) \<and> m = nat (cm_len (?cm ! k)))"
      using e(3) by metis
    also have "\<dots> \<longleftrightarrow> (x, m) \<in> kblocks s \<and> (x, m) \<noteq> (a, n)"
      unfolding kblocks_iff a n using cm_frames_inj [OF inv(3)] i by (metis Pair_inject)
    finally show "(x, m) \<in> kblocks (s\<lparr>coremap := cm'\<rparr>) \<longleftrightarrow> (x, m) \<in> kblocks s - {(a, n)}" by simp
  qed
  ultimately show ?thesis using run by blast
qed

section \<open>The interface of a page allocator\<close>

text \<open>
  \<open>blocks s\<close> is the set of the blocks handed out, by address and number of pages.  Allocation
  returns 0 when it fails.
\<close>

locale page_alloc =
  fixes inv :: "'s \<Rightarrow> bool"
    and blocks :: "'s \<Rightarrow> (nat \<times> nat) set"
    and alloc :: "nat \<Rightarrow> ('s, nat) kern"
    and free :: "nat \<Rightarrow> ('s, unit) kern"
  assumes block_range: "inv s \<Longrightarrow> (a, n) \<in> blocks s \<Longrightarrow>
      a mod PAGE_SIZE = 0 \<and> 0 < a \<and> 0 < n \<and> a + n * PAGE_SIZE \<le> 2 ^ 32"
    and block_disjoint: "inv s \<Longrightarrow> (a, n) \<in> blocks s \<Longrightarrow> (b, m) \<in> blocks s \<Longrightarrow> (a, n) \<noteq> (b, m) \<Longrightarrow>
      a + n * PAGE_SIZE \<le> b \<or> b + m * PAGE_SIZE \<le> a"
    and alloc_spec: "inv s \<Longrightarrow> 0 < n \<Longrightarrow> n < 2 ^ 32 \<Longrightarrow>
      \<exists>a s'. alloc n s = Inr (a, s') \<and> inv s' \<and>
        (if a = 0 then blocks s' = blocks s else (a, n) \<notin> blocks s \<and> blocks s' = insert (a, n) (blocks s))"
    and free_spec: "inv s \<Longrightarrow> (a, n) \<in> blocks s \<Longrightarrow>
      \<exists>s'. free a s = Inr ((), s') \<and> inv s' \<and> blocks s' = blocks s - {(a, n)}"
begin

lemma block_unique: "inv s \<Longrightarrow> (a, n) \<in> blocks s \<Longrightarrow> (a, m) \<in> blocks s \<Longrightarrow> n = m"
  using block_disjoint [of s a n a m] block_range [of s a n] block_range [of s a m] by fastforce

lemma alloc_cases:
  assumes "inv s" and "0 < n" and "n < 2 ^ 32"
  obtains (nomem) s' where "alloc n s = Inr (0, s')" and "inv s'" and "blocks s' = blocks s"
  | (ok) a s' where "alloc n s = Inr (a, s')" and "0 < a" and "inv s'" and "(a, n) \<notin> blocks s"
      and "blocks s' = insert (a, n) (blocks s)"
proof -
  obtain a s' where r: "alloc n s = Inr (a, s')" "inv s'"
    "if a = 0 then blocks s' = blocks s else (a, n) \<notin> blocks s \<and> blocks s' = insert (a, n) (blocks s)"
    using alloc_spec [OF assms] by blast
  show thesis
  proof (cases "a = 0")
    case True
    with r show thesis by (intro nomem [of s']) simp_all
  next
    case False
    with r show thesis by (intro ok [of a s']) simp_all
  qed
qed

text \<open>A fresh block overlaps no block that was there before.\<close>

lemma alloc_fresh:
  assumes "inv s" and "0 < n" and "n < 2 ^ 32" and "alloc n s = Inr (a, s')" and "a \<noteq> 0"
    and "(b, m) \<in> blocks s"
  shows "a + n * PAGE_SIZE \<le> b \<or> b + m * PAGE_SIZE \<le> a"
proof -
  from alloc_spec [OF assms(1-3)] assms(4,5) have "inv s'" "(a, n) \<notin> blocks s"
    "blocks s' = insert (a, n) (blocks s)" by auto
  then show ?thesis using block_disjoint [of s' a n b m] assms(6) by auto
qed

end

interpretation kpages: page_alloc coremap_inv kblocks "alloc_kpages env" "free_kpages env" for env
proof unfold_locales
  fix s a n
  assume "coremap_inv s" and "(a, n) \<in> kblocks s"
  from kblocks_ok [OF this]
  show "a mod PAGE_SIZE = 0 \<and> 0 < a \<and> 0 < n \<and> a + n * PAGE_SIZE \<le> 2 ^ 32" by simp
next
  fix s n
  assume s: "coremap_inv s" and n: "0 < n" "n < (2::nat) ^ 32"
  show "\<exists>a s'. alloc_kpages env n s = Inr (a, s') \<and> coremap_inv s' \<and>
      (if a = 0 then kblocks s' = kblocks s else (a, n) \<notin> kblocks s \<and> kblocks s' = insert (a, n) (kblocks s))"
  proof (rule alloc_kpages_cases [OF s n, of env])
    fix i s'
    let ?a = "PADDR_TO_KVADDR (cm_paddr (coremap s ! i))"
    assume r: "alloc_kpages env n s = Inr (?a, s')" "coremap_inv s'"
      "kblocks s' = insert (?a, n) (kblocks s)" "\<forall>m. (?a, m) \<notin> kblocks s"
    have "?a \<noteq> 0" using kblocks_ok(2) [OF r(2), of ?a n] r(3) by auto
    with r show ?thesis by simp
  qed (use s in simp)
qed (rule kblocks_disjoint free_kpages_ok; assumption)+

section \<open>Initialisation\<close>

lemma vm_bootstrap_inv:
  assumes s: "firstpaddr s mod PAGE_SIZE = 0" "0 < firstpaddr s"
    and n: "n = lastpaddr s div PAGE_SIZE" "PAGE_SIZE \<le> n * sizeof_coremap"
    and room: "firstpaddr s + n * sizeof_coremap < lastpaddr s"
    and top: "firstpaddr s + n * PAGE_SIZE \<le> 2 ^ 31"
  shows "\<exists>s'. vm_bootstrap raw s = Inr ((), s') \<and> coremap_inv s' \<and> kblocks s' = {} \<and>
    coremap_size s' = n \<and> (\<forall>i < n. cm_paddr (coremap s' ! i) = firstpaddr s + i * PAGE_SIZE)"
proof -
  let ?f = "firstpaddr s"
  let ?free = "?f + n * sizeof_coremap"
  let ?cm = "map (vm_bootstrap_entry raw ?f ?free) [0..<n]"
  let ?s = "s\<lparr>core_lock := lock_new, firstpaddr := 0, lastpaddr := 0, coremap := ?cm, pt_initialize := 1\<rparr>"
  have n0: "0 < n" using n(2) by (cases n) auto
  have le: "n * sizeof_coremap \<le> n * PAGE_SIZE" by simp
  have free: "?free < 2 ^ 32" using top le by simp
  have e: "cm_paddr (?cm ! i) = ?f + i * PAGE_SIZE" "cm_len (?cm ! i) = -1"
    "i = 0 \<Longrightarrow> cm_used (?cm ! i) = 1" if "i < n" for i
  proof -
    have "i * PAGE_SIZE \<le> n * PAGE_SIZE" using that by simp
    then have "?f + i * PAGE_SIZE < 2 ^ 32" using top by simp
    then show "cm_paddr (?cm ! i) = ?f + i * PAGE_SIZE" using that by (simp add: vm_bootstrap_entry_def Let_def)
    show "cm_len (?cm ! i) = -1" using that by (simp add: vm_bootstrap_entry_def Let_def)
    have "(?free + 2 ^ 32 - ?f) mod 2 ^ 32 = n * sizeof_coremap" using free by simp
    moreover have "0 < n * sizeof_coremap div PAGE_SIZE" using n(2) by (simp add: div_greater_zero_iff)
    ultimately show "i = 0 \<Longrightarrow> cm_used (?cm ! i) = 1" using that by (simp add: vm_bootstrap_entry_def Let_def)
  qed
  have al: "list_all (\<lambda>e. page_frame (cm_paddr e) = cm_paddr e) ?cm"
    unfolding list_all_length using e(1) s(1) by (simp add: page_frame_def)
  have "lastpaddr s < 2 ^ 32"
  proof -
    have "lastpaddr s < Suc n * PAGE_SIZE" using n(1) by (metis dividend_less_div_times mult_Suc zero_less_numeral)
    then show ?thesis using top by simp
  qed
  then have "(lastpaddr s + 2 ^ 32 - ?free) mod 2 ^ 32 = lastpaddr s - ?free"
    using room by (intro mod_sub_wrap) simp_all
  moreover have "PADDR_TO_KVADDR ?f \<noteq> 0"
    using s(2) top n0 by (simp add: PADDR_TO_KVADDR_def)
  ultimately have run: "vm_bootstrap raw s = Inr ((), ?s)"
    using room free al
    by (simp add: vm_bootstrap_def ram_getsize_def n(1) [symmetric] Let_def)
  have fr: "cm_frames ?cm"
    unfolding cm_frames_def
  proof (intro conjI allI impI)
    show "?cm \<noteq> []" using n0 by simp
    show "cm_used (?cm ! 0) \<noteq> 0" and "cm_len (?cm ! 0) = -1" and "0 < cm_paddr (?cm ! 0)"
      and "cm_paddr (?cm ! 0) mod PAGE_SIZE = 0"
      using e [OF n0] s by simp_all
    show "cm_paddr (?cm ! 0) + length ?cm * PAGE_SIZE \<le> 2 ^ 31" using e(1) [OF n0] top by simp
    fix i
    assume "i < length ?cm"
    then show "cm_paddr (?cm ! i) = cm_paddr (?cm ! 0) + i * PAGE_SIZE" using e(1) [of i] e(1) [OF n0] by simp
  qed
  have "coremap_inv ?s" using fr e(2) by (simp add: coremap_inv_def lock_new_def del: nth_map)
  moreover have "kblocks ?s = {}" using e(2) by (auto simp: kblocks_iff simp del: nth_map)
  ultimately show ?thesis using run e(1) by auto
qed

section \<open>Properties\<close>

text \<open>A map of four frames, the first one fixed.\<close>

definition cm_demo_entry :: "nat \<Rightarrow> int \<Rightarrow> coremap_entry" where
  "cm_demo_entry i used = \<lparr>cm_vaddr = 0, cm_paddr = 4096 + i * PAGE_SIZE, cm_used = used, cm_flag = used,
     cm_len = -1, cm_pid = -1, cm_secs = 0, cm_nano = 0\<rparr>"

definition cm_demo :: physmem where
  "cm_demo = \<lparr>firstpaddr = 0, lastpaddr = 0, pt_initialize = 1,
     coremap = [cm_demo_entry 0 1, cm_demo_entry 1 0, cm_demo_entry 2 0, cm_demo_entry 3 0],
     core_lock = lock_new\<rparr>"

definition env_demo :: callenv where
  "env_demo = \<lparr>e_cur = Some 1, e_pid = None, e_secs = 7, e_nano = 0, e_count = 99\<rparr>"

lemma cm_demo_inv: "coremap_inv cm_demo"
proof -
  have "\<forall>i < 4. cm_paddr (coremap cm_demo ! i) = 4096 + i * PAGE_SIZE \<and> cm_len (coremap cm_demo ! i) = -1"
    unfolding all_less_upt by (simp add: cm_demo_def cm_demo_entry_def upt_rec)
  moreover have "length (coremap cm_demo) = 4" "cm_paddr (coremap cm_demo ! 0) = 4096"
    "cm_used (coremap cm_demo ! 0) = 1" "pt_initialize cm_demo = 1" "lk_owner (core_lock cm_demo) = None"
    by (simp_all add: cm_demo_def cm_demo_entry_def lock_new_def)
  ultimately show ?thesis
    unfolding coremap_inv_def cm_frames_def by (intro conjI allI impI) auto
qed

lemma cm_demo_run: "free_run (coremap cm_demo) 1 2"
  unfolding free_run_def
proof (intro conjI allI impI)
  fix k :: nat
  assume "1 \<le> k \<and> k < 1 + 2"
  then have "k = 1 \<or> k = 2" by auto
  then show "cm_used (coremap cm_demo ! k) = 0" by (elim disjE) (simp_all add: cm_demo_def cm_demo_entry_def)
qed (simp add: cm_demo_def)



text \<open>
  C19: \<^verbatim>\<open>free_kpages\<close> of a block that was handed out removes exactly that block: its frames become
  free, the other blocks and the well-formedness of the map stay, the lock is released, and the
  function neither panics nor trips an assertion.
\<close>

theorem free_kpages_frees_block:
  assumes "coremap_inv s" and "(a, n) \<in> kblocks s"
  shows "\<exists>s'. free_kpages env a s = Inr ((), s') \<and> coremap_inv s' \<and> kblocks s' = kblocks s - {(a, n)} \<and>
     (\<exists>i. free_run (coremap s') i n \<and> PADDR_TO_KVADDR (cm_paddr (coremap s' ! i)) = a)"
proof -
  from assms(2) obtain i where i: "i < coremap_size s" and l: "cm_len (coremap s ! i) \<noteq> -1"
    and a: "a = PADDR_TO_KVADDR (cm_paddr (coremap s ! i))" and n: "n = nat (cm_len (coremap s ! i))"
    by (auto simp: kblocks_iff)
  obtain cm' where run: "free_kpages env a s = Inr ((), s\<lparr>coremap := cm'\<rparr>)" and len: "length cm' = coremap_size s"
    and e: "\<forall>k < coremap_size s. cm_paddr (cm' ! k) = cm_paddr (coremap s ! k) \<and>
      cm_used (cm' ! k) = (if i \<le> k \<and> k < i + n then 0 else cm_used (coremap s ! k)) \<and>
      cm_len (cm' ! k) = (if k = i then -1 else cm_len (coremap s ! k))"
    unfolding a n by (rule free_kpages_run [OF assms(1) i l])
  have "i + n \<le> coremap_size s" unfolding n by (rule cm_blockD(2) [OF coremap_invD(4) [OF assms(1) i l]])
  then have "free_run cm' i n" using e len by (auto simp: free_run_def)
  moreover have "PADDR_TO_KVADDR (cm_paddr (cm' ! i)) = a" using e i a by simp
  ultimately show ?thesis using free_kpages_ok [OF assms, of env] run by auto
qed

theorem free_kpages_frees_block_witness:
  "\<exists>a s s'. alloc_kpages env_demo 2 cm_demo = Inr (a, s) \<and> (a, 2) \<in> kblocks s \<and>
     free_kpages env_demo a s = Inr ((), s') \<and> coremap_inv s' \<and> kblocks s' = kblocks s - {(a, 2)}"
proof -
  obtain a s where s: "alloc_kpages env_demo 2 cm_demo = Inr (a, s)" "coremap_inv s" "(a, 2) \<in> kblocks s"
    by (rule alloc_kpages_cases [OF cm_demo_inv, of 2 env_demo]) (use cm_demo_run in auto)
  with free_kpages_frees_block [OF s(2,3), of env_demo] show ?thesis by blast
qed

text \<open>
  C20: \<^verbatim>\<open>vm_bootstrap\<close> on aligned memory in which the core map itself takes at least a page
  establishes the invariant with no block handed out.  But the map describes as many frames as
  there are from physical address 0 on, starting at the first free one: its last frame ends
  beyond the end of memory whenever the kernel takes at least a page.
\<close>

theorem vm_bootstrap_establishes:
  assumes "firstpaddr s mod PAGE_SIZE = 0" and "PAGE_SIZE \<le> firstpaddr s" and "lastpaddr s mod PAGE_SIZE = 0"
    and "n = lastpaddr s div PAGE_SIZE" and "PAGE_SIZE \<le> n * sizeof_coremap"
    and "firstpaddr s + n * sizeof_coremap < lastpaddr s" and "firstpaddr s + n * PAGE_SIZE \<le> 2 ^ 31"
  shows "\<exists>s'. vm_bootstrap raw s = Inr ((), s') \<and> coremap_inv s' \<and> kblocks s' = {} \<and>
     coremap_size s' = n \<and> lastpaddr s < cm_paddr (coremap s' ! (n - 1)) + PAGE_SIZE"
proof -
  have "0 < firstpaddr s" and n0: "0 < n" using assms(2,5) by (auto intro: gr0I)
  from vm_bootstrap_inv [OF assms(1) this(1) assms(4-7), of raw] obtain s' where
    s': "vm_bootstrap raw s = Inr ((), s')" "coremap_inv s'" "kblocks s' = {}" "coremap_size s' = n"
    "\<forall>i < n. cm_paddr (coremap s' ! i) = firstpaddr s + i * PAGE_SIZE" by blast
  have "cm_paddr (coremap s' ! (n - 1)) = firstpaddr s + (n - 1) * PAGE_SIZE" using s'(5) n0 by simp
  moreover have "(n - 1) * PAGE_SIZE + PAGE_SIZE = lastpaddr s"
    using n0 assms(3,4) by (cases n) auto
  ultimately have "lastpaddr s < cm_paddr (coremap s' ! (n - 1)) + PAGE_SIZE" using assms(2) by simp
  with s' show ?thesis by blast
qed

theorem vm_bootstrap_establishes_witness:
  "\<exists>s'. vm_bootstrap (\<lambda>i. cm_demo_entry i 5)
      (cm_demo\<lparr>firstpaddr := 131072, lastpaddr := 524288\<rparr>) = Inr ((), s') \<and> coremap_inv s' \<and>
     coremap_size s' = 128"
proof -
  let ?s = "cm_demo\<lparr>firstpaddr := 131072, lastpaddr := 524288\<rparr>"
  have "\<exists>s'. vm_bootstrap (\<lambda>i. cm_demo_entry i 5) ?s = Inr ((), s') \<and> coremap_inv s' \<and> kblocks s' = {} \<and>
     coremap_size s' = 128 \<and> lastpaddr ?s < cm_paddr (coremap s' ! (128 - 1)) + PAGE_SIZE"
    by (rule vm_bootstrap_establishes) simp_all
  then show ?thesis by blast
qed

end
