(* ===== verification/Kheap.thy ===== *)
theory Kheap
  imports Coremap
begin

text \<open>
  The kernel heap of \<^verbatim>\<open>kern/lib/kheap.c\<close>: \<^verbatim>\<open>kmalloc\<close> and \<^verbatim>\<open>kfree\<close> over a pool of pages, each cut
  into blocks of one of eight sizes and carrying a free list threaded through its blocks, with
  page references kept in two linked lists.  Requests of 2048 bytes and more go to the page
  allocator, which is an argument of the operations: the contract \<open>page_alloc\<close> is all that the
  proofs use of it, and the final theorems are about \<^verbatim>\<open>alloc_kpages\<close> and \<^verbatim>\<open>free_kpages\<close>.

  Pointers to page references are indices into the array \<^verbatim>\<open>pagerefs\<close>; NULL is \<open>None\<close>.  The memory
  of the pages is a function from the address of a 32-bit word to its contents.  A page ends at
  most at address \<open>2 ^ 32\<close>, so that additions inside a page do not wrap around.  The
  functions run with interrupts off from beginning to end; the interrupt level is not part of the
  state.
\<close>

section \<open>Model\<close>

abbreviation NSIZES :: nat where "NSIZES \<equiv> 8"
abbreviation LARGEST_SUBPAGE_SIZE :: nat where "LARGEST_SUBPAGE_SIZE \<equiv> 2048"
abbreviation NPAGEREFS :: nat where "NPAGEREFS \<equiv> 256"
abbreviation INUSE_WORDS :: nat where "INUSE_WORDS \<equiv> 8"
abbreviation INVALID_OFFSET :: nat where "INVALID_OFFSET \<equiv> 65535"

definition sizes :: "nat list" where
  "sizes = [16, 32, 64, 128, 256, 512, 1024, 2048]"

record pageref =
  next_samesize :: "nat option"
  next_all :: "nat option"
  pageaddr_and_blocktype :: nat
  freelist_offset :: nat
  nfree :: nat

definition PR_PAGEADDR :: "pageref \<Rightarrow> nat" where
  "PR_PAGEADDR pr = page_frame (pageaddr_and_blocktype pr)"

definition PR_BLOCKTYPE :: "pageref \<Rightarrow> nat" where
  "PR_BLOCKTYPE pr = pageaddr_and_blocktype pr mod PAGE_SIZE"

definition MKPAB :: "nat \<Rightarrow> nat \<Rightarrow> nat" where
  "MKPAB pa blk = page_frame pa + blk mod PAGE_SIZE"

record 'p kheap =
  pagerefs :: "pageref list"
  pagerefs_inuse :: "32 word list"
  sizebases :: "nat option list"
  allbase :: "nat option"
  kmem :: "nat \<Rightarrow> nat"
  pager :: 'p

definition in_pager :: "('p, 'a) kern \<Rightarrow> ('p kheap, 'a) kern" where
  "in_pager = kzoom pager (\<lambda>p. pager_update (\<lambda>_. p))"

subsection \<open>Page references\<close>

function inuse_scan :: "32 word \<Rightarrow> nat \<Rightarrow> nat option" where
  "inuse_scan w j =
     (if j < 32 then if w AND 2 ^ j = 0 then Some j else inuse_scan w (Suc j) else None)"
  by pat_completeness auto
termination
  by (relation "measure (\<lambda>(w, j). 32 - j)") auto

function allocpageref_from :: "nat \<Rightarrow> ('p kheap, nat option) kern" where
  "allocpageref_from i h =
     (if i < INUSE_WORDS then
        if pagerefs_inuse h ! i = 4294967295 then allocpageref_from (Suc i) h
        else case inuse_scan (pagerefs_inuse h ! i) 0 of
            None \<Rightarrow> Inl AssertFail
          | Some j \<Rightarrow> Inr (Some (i * 32 + j),
              h\<lparr>pagerefs_inuse := (pagerefs_inuse h)[i := (pagerefs_inuse h ! i) OR 2 ^ j]\<rparr>)
      else Inr (None, h))"
  by pat_completeness auto
termination
  by (relation "measure (\<lambda>(i, h). INUSE_WORDS - i)") auto

definition allocpageref :: "('p kheap, nat option) kern" where
  "allocpageref = allocpageref_from 0"

definition freepageref :: "nat \<Rightarrow> ('p kheap, unit) kern" where
  "freepageref j h =
     (if \<not> j < NPAGEREFS then Inl AssertFail
      else
        let i = j div 32; k = (2 :: 32 word) ^ (j mod 32) in
        if \<not> pagerefs_inuse h ! i AND k \<noteq> 0 then Inl AssertFail
        else Inr ((), h\<lparr>pagerefs_inuse := (pagerefs_inuse h)[i := (pagerefs_inuse h ! i) AND NOT k]\<rparr>))"

definition pr_set :: "nat \<Rightarrow> (pageref \<Rightarrow> pageref) \<Rightarrow> 'p kheap \<Rightarrow> 'p kheap" where
  "pr_set p f h = h\<lparr>pagerefs := (pagerefs h)[p := f (pagerefs h ! p)]\<rparr>"

subsection \<open>Lists of pages\<close>

text \<open>
  The loop of \<^verbatim>\<open>remove_lists\<close> over one list.  The variable \<^verbatim>\<open>guy\<close> points at the head of the list
  (\<open>None\<close>) or at the link field of a page reference (\<open>Some q\<close>); \<open>cur\<close> is \<^verbatim>\<open>*guy\<close>.  The result is
  the place where the link to \<open>p\<close> was found.
\<close>

primrec unlink_find :: "nat \<Rightarrow> (nat \<Rightarrow> nat option) \<Rightarrow> nat option \<Rightarrow> nat option \<Rightarrow> nat \<Rightarrow> nat option option kres" where
  "unlink_find 0 nxt guy cur p = Inl OutOfFuel"
| "unlink_find (Suc n) nxt guy cur p =
     (case cur of
        None \<Rightarrow> Inr None
      | Some q \<Rightarrow> if q = p then Inr (Some guy) else unlink_find n nxt (Some q) (nxt q) p)"

definition nxt_same :: "'p kheap \<Rightarrow> nat \<Rightarrow> nat option" where
  "nxt_same h q = next_samesize (pagerefs h ! q)"

definition nxt_all :: "'p kheap \<Rightarrow> nat \<Rightarrow> nat option" where
  "nxt_all h q = next_all (pagerefs h ! q)"

definition remove_samesize :: "nat \<Rightarrow> nat \<Rightarrow> ('p kheap, unit) kern" where
  "remove_samesize p blktype h =
     (case unlink_find (Suc NPAGEREFS) (nxt_same h) None (sizebases h ! blktype) p of
        Inl e \<Rightarrow> Inl e
      | Inr None \<Rightarrow> Inr ((), h)
      | Inr (Some None) \<Rightarrow> Inr ((), h\<lparr>sizebases := (sizebases h)[blktype := nxt_same h p]\<rparr>)
      | Inr (Some (Some q)) \<Rightarrow> Inr ((), pr_set q (\<lambda>r. r\<lparr>next_samesize := nxt_same h p\<rparr>) h))"

definition remove_all :: "nat \<Rightarrow> ('p kheap, unit) kern" where
  "remove_all p h =
     (case unlink_find (Suc NPAGEREFS) (nxt_all h) None (allbase h) p of
        Inl e \<Rightarrow> Inl e
      | Inr None \<Rightarrow> Inr ((), h)
      | Inr (Some None) \<Rightarrow> Inr ((), h\<lparr>allbase := nxt_all h p\<rparr>)
      | Inr (Some (Some q)) \<Rightarrow> Inr ((), pr_set q (\<lambda>r. r\<lparr>next_all := nxt_all h p\<rparr>) h))"

definition remove_lists :: "nat \<Rightarrow> nat \<Rightarrow> ('p kheap, unit) kern" where
  "remove_lists p blktype =
     kbind (kassert (blktype < NSIZES)) (\<lambda>_. kbind (remove_samesize p blktype) (\<lambda>_. remove_all p))"

subsection \<open>Allocation\<close>

fun blocktype_from :: "nat \<Rightarrow> nat list \<Rightarrow> nat \<Rightarrow> nat kres" where
  "blocktype_from i [] sz = Inl PanicCall"
| "blocktype_from i (s # ss) sz = (if sz \<le> s then Inr i else blocktype_from (Suc i) ss sz)"

definition blocktype :: "nat \<Rightarrow> nat kres" where
  "blocktype sz = blocktype_from 0 sizes sz"

text \<open>The search of \<^verbatim>\<open>subpage_kmalloc\<close> for a page of the right size with a free block.\<close>

primrec find_samesize :: "nat \<Rightarrow> 'p kheap \<Rightarrow> nat \<Rightarrow> nat option \<Rightarrow> nat option kres" where
  "find_samesize 0 h blktype pr = Inl OutOfFuel"
| "find_samesize (Suc n) h blktype pr =
     (case pr of
        None \<Rightarrow> Inr None
      | Some p \<Rightarrow>
          if \<not> PR_BLOCKTYPE (pagerefs h ! p) = blktype then Inl AssertFail
          else if nfree (pagerefs h ! p) > 0 then Inr (Some p)
          else find_samesize n h blktype (nxt_same h p))"

text \<open>The code after the label \<^verbatim>\<open>doalloc\<close>: take the first block of the free list of page \<open>p\<close>.\<close>

definition doalloc :: "nat \<Rightarrow> ('p kheap, nat) kern" where
  "doalloc p h =
     (let pr = pagerefs h ! p; prpage = PR_PAGEADDR pr; fla = prpage + freelist_offset pr;
          fl = kmem h fla; nf = nfree pr - 1 in
      if \<not> freelist_offset pr < PAGE_SIZE then Inl AssertFail
      else if fl \<noteq> 0 then
        if \<not> nf > 0 then Inl AssertFail
        else if \<not> (fl + 2 ^ 32 - prpage) mod 2 ^ 32 < PAGE_SIZE then Inl AssertFail
        else Inr (fla, pr_set p (\<lambda>r. r\<lparr>nfree := nf, freelist_offset := (fl + 2 ^ 32 - prpage) mod 2 ^ 32\<rparr>) h)
      else
        if \<not> nf = 0 then Inl AssertFail
        else Inr (fla, pr_set p (\<lambda>r. r\<lparr>nfree := nf, freelist_offset := INVALID_OFFSET\<rparr>) h))"

text \<open>Threading the free list through a fresh page of \<open>n\<close> blocks.\<close>

definition init_freelist :: "nat \<Rightarrow> nat \<Rightarrow> nat \<Rightarrow> (nat \<Rightarrow> nat) \<Rightarrow> nat \<Rightarrow> nat" where
  "init_freelist fla sz n m = fold (\<lambda>i m. m(fla + i * sz := fla + (i - 1) * sz)) [1..<n] (m(fla := 0))"

definition setup_page :: "nat \<Rightarrow> nat \<Rightarrow> nat \<Rightarrow> ('p kheap, unit) kern" where
  "setup_page p prpage blktype h =
     (let sz = sizes ! blktype; n = PAGE_SIZE div sz; off = (n - 1) * sz in
      if \<not> list_all (\<lambda>i. prpage + i * sz \<noteq> prpage + (i - 1) * sz) [1..<n] then Inl AssertFail
      else Inr ((), pr_set p (\<lambda>r. r\<lparr>pageaddr_and_blocktype := MKPAB prpage blktype, nfree := n,
          freelist_offset := off, next_samesize := sizebases h ! blktype, next_all := allbase h\<rparr>)
        h\<lparr>kmem := init_freelist prpage sz n (kmem h),
          sizebases := (sizebases h)[blktype := Some p], allbase := Some p\<rparr>))"

definition subpage_kmalloc :: "(nat \<Rightarrow> ('p, nat) kern) \<Rightarrow> nat \<Rightarrow> ('p kheap, nat) kern" where
  "subpage_kmalloc palloc sz h =
     (case blocktype sz of
        Inl e \<Rightarrow> Inl e
      | Inr blktype \<Rightarrow>
          (case find_samesize (Suc NPAGEREFS) h blktype (sizebases h ! blktype) of
             Inl e \<Rightarrow> Inl e
           | Inr (Some p) \<Rightarrow> doalloc p h
           | Inr None \<Rightarrow>
               kbind allocpageref (\<lambda>pr.
               case pr of
                 None \<Rightarrow> kret 0
               | Some p \<Rightarrow>
                   kbind (in_pager (palloc 1)) (\<lambda>prpage.
                   if prpage = 0 then kbind (freepageref p) (\<lambda>_. kret 0)
                   else kbind (setup_page p prpage blktype) (\<lambda>_. doalloc p))) h))"

definition kmalloc :: "(nat \<Rightarrow> ('p, nat) kern) \<Rightarrow> nat \<Rightarrow> ('p kheap, nat) kern" where
  "kmalloc palloc sz =
     (if sz \<ge> LARGEST_SUBPAGE_SIZE then
        let npages = ((sz + PAGE_SIZE - 1) mod 2 ^ 32) div PAGE_SIZE in
        kbind (in_pager (palloc npages)) (\<lambda>address. kret (if address = 0 then 0 else address))
      else subpage_kmalloc palloc sz)"

subsection \<open>Release\<close>

definition fill_deadbeef :: "nat \<Rightarrow> nat \<Rightarrow> (nat \<Rightarrow> nat) \<Rightarrow> nat \<Rightarrow> nat" where
  "fill_deadbeef ptr len m = fold (\<lambda>i m. m(ptr + 4 * i := 3735928559)) [0..<len div 4] m"

text \<open>The search of \<^verbatim>\<open>subpage_kfree\<close> for the page that holds an address.\<close>

primrec find_page :: "nat \<Rightarrow> 'p kheap \<Rightarrow> nat \<Rightarrow> nat option \<Rightarrow> nat option kres" where
  "find_page 0 h ptraddr pr = Inl OutOfFuel"
| "find_page (Suc n) h ptraddr pr =
     (case pr of
        None \<Rightarrow> Inr None
      | Some p \<Rightarrow>
          if \<not> PR_BLOCKTYPE (pagerefs h ! p) < NSIZES then Inl AssertFail
          else if ptraddr \<ge> PR_PAGEADDR (pagerefs h ! p) \<and>
              ptraddr < PR_PAGEADDR (pagerefs h ! p) + PAGE_SIZE then Inr (Some p)
          else find_page n h ptraddr (nxt_all h p))"

text \<open>Putting the block at \<open>offset\<close> of page \<open>p\<close> on the free list.\<close>

definition dofree :: "nat \<Rightarrow> nat \<Rightarrow> 'p kheap \<Rightarrow> 'p kheap" where
  "dofree p offset h =
     (let pr = pagerefs h ! p; prpage = PR_PAGEADDR pr; ptr = prpage + offset;
          m = fill_deadbeef ptr (sizes ! PR_BLOCKTYPE pr) (kmem h) in
      pr_set p (\<lambda>r. r\<lparr>freelist_offset := offset, nfree := (nfree r + 1) mod 2 ^ 16\<rparr>)
        (h\<lparr>kmem := m(ptr := (if freelist_offset pr = INVALID_OFFSET then 0
          else prpage + freelist_offset pr))\<rparr>))"

definition subpage_kfree :: "(nat \<Rightarrow> ('p, unit) kern) \<Rightarrow> nat \<Rightarrow> ('p kheap, int) kern" where
  "subpage_kfree pfree ptraddr h =
     (case find_page (Suc NPAGEREFS) h ptraddr (allbase h) of
        Inl e \<Rightarrow> Inl e
      | Inr None \<Rightarrow> Inr (-1, h)
      | Inr (Some p) \<Rightarrow>
          (let pr = pagerefs h ! p; prpage = PR_PAGEADDR pr; blktype = PR_BLOCKTYPE pr;
               offset = ptraddr - prpage in
           if offset \<ge> PAGE_SIZE \<or> offset mod sizes ! blktype \<noteq> 0 then Inl PanicCall
           else
             let h1 = dofree p offset h; nf = nfree (pagerefs h1 ! p) in
             if \<not> nf \<le> PAGE_SIZE div sizes ! blktype then Inl AssertFail
             else if nf = PAGE_SIZE div sizes ! blktype then
               kbind (remove_lists p blktype) (\<lambda>_.
               kbind (in_pager (pfree prpage)) (\<lambda>_.
               kbind (freepageref p) (\<lambda>_. kret 0))) h1
             else Inr (0, h1)))"

definition kfree :: "(nat \<Rightarrow> ('p, unit) kern) \<Rightarrow> nat \<Rightarrow> ('p kheap, unit) kern" where
  "kfree pfree ptr =
     (if ptr = 0 then kret ()
      else kbind (subpage_kfree pfree ptr) (\<lambda>r.
        if r \<noteq> 0 then
          kbind (kassert (ptr mod PAGE_SIZE = 0)) (\<lambda>_. in_pager (pfree ptr))
        else kret ()))"

section \<open>The invariant\<close>

definition mnxt :: "(nat \<Rightarrow> nat) \<Rightarrow> nat \<Rightarrow> nat option" where
  "mnxt m x = (if m x = 0 then None else Some (m x))"

definition fl_start :: "pageref \<Rightarrow> nat option" where
  "fl_start pr = (if freelist_offset pr = INVALID_OFFSET then None else Some (PR_PAGEADDR pr + freelist_offset pr))"

definition pr_size :: "pageref \<Rightarrow> nat" where
  "pr_size pr = sizes ! PR_BLOCKTYPE pr"

definition page_blocks :: "pageref \<Rightarrow> nat set" where
  "page_blocks pr = {PR_PAGEADDR pr + i * pr_size pr | i. i < PAGE_SIZE div pr_size pr}"

text \<open>Page reference \<open>pr\<close> describes a page whose free list, in memory \<open>m\<close>, is \<open>fs\<close>.\<close>

definition pr_ok :: "(nat \<Rightarrow> nat) \<Rightarrow> pageref \<Rightarrow> nat list \<Rightarrow> bool" where
  "pr_ok m pr fs \<longleftrightarrow> PR_BLOCKTYPE pr < NSIZES \<and> 0 < PR_PAGEADDR pr \<and>
     PR_PAGEADDR pr + PAGE_SIZE \<le> 2 ^ 32 \<and> path (mnxt m) (fl_start pr) fs \<and>
     distinct fs \<and> set fs \<subseteq> page_blocks pr \<and> nfree pr = length fs"

definition kh_used :: "'p kheap \<Rightarrow> nat set" where
  "kh_used h = {j. j < NPAGEREFS \<and> bit (pagerefs_inuse h ! (j div 32)) (j mod 32)}"

abbreviation pg :: "'p kheap \<Rightarrow> nat \<Rightarrow> nat" where "pg h j \<equiv> PR_PAGEADDR (pagerefs h ! j)"
abbreviation bt :: "'p kheap \<Rightarrow> nat \<Rightarrow> nat" where "bt h j \<equiv> PR_BLOCKTYPE (pagerefs h ! j)"

text \<open>
  The heap \<open>h\<close> has the pages \<open>alls\<close> in its list of all pages, the pages \<open>same b\<close> in the list of
  block type \<open>b\<close>, and the free blocks \<open>fl j\<close> in page \<open>j\<close>.
\<close>

definition kh_rep :: "('p \<Rightarrow> bool) \<Rightarrow> ('p \<Rightarrow> (nat \<times> nat) set) \<Rightarrow> 'p kheap \<Rightarrow> nat list \<Rightarrow>
    (nat \<Rightarrow> nat list) \<Rightarrow> (nat \<Rightarrow> nat list) \<Rightarrow> bool" where
  "kh_rep pinv pblocks h alls same fl \<longleftrightarrow> pinv (pager h) \<and>
     length (pagerefs h) = NPAGEREFS \<and> length (pagerefs_inuse h) = INUSE_WORDS \<and> length (sizebases h) = NSIZES \<and>
     path (nxt_all h) (allbase h) alls \<and> distinct alls \<and> set alls = kh_used h \<and>
     (\<forall>b < NSIZES. path (nxt_same h) (sizebases h ! b) (same b) \<and> distinct (same b) \<and>
        set (same b) = {j \<in> set alls. bt h j = b}) \<and>
     (\<forall>j \<in> set alls. pr_ok (kmem h) (pagerefs h ! j) (fl j) \<and> (pg h j, 1) \<in> pblocks (pager h)) \<and>
     inj_on (pg h) (set alls)"

definition kh_all :: "'p kheap \<Rightarrow> nat list" where
  "kh_all h = trail NPAGEREFS (nxt_all h) (allbase h)"

definition kh_same :: "'p kheap \<Rightarrow> nat \<Rightarrow> nat list" where
  "kh_same h b = trail NPAGEREFS (nxt_same h) (sizebases h ! b)"

definition kh_free :: "'p kheap \<Rightarrow> nat \<Rightarrow> nat list" where
  "kh_free h j = trail NPAGEREFS (mnxt (kmem h)) (fl_start (pagerefs h ! j))"

definition kh_inv :: "('p \<Rightarrow> bool) \<Rightarrow> ('p \<Rightarrow> (nat \<times> nat) set) \<Rightarrow> 'p kheap \<Rightarrow> bool" where
  "kh_inv pinv pblocks h \<longleftrightarrow> kh_rep pinv pblocks h (kh_all h) (kh_same h) (kh_free h) \<and>
     (\<forall>j \<in> set (kh_all h). length (kh_free h j) < PAGE_SIZE div pr_size (pagerefs h ! j))"

text \<open>
  The blocks the heap has handed out, by address and size: the blocks of its pages that are not
  on a free list, and the blocks of the page allocator other than those pages.
\<close>

definition page_live :: "pageref \<Rightarrow> nat list \<Rightarrow> (nat \<times> nat) set" where
  "page_live pr fs = (\<lambda>a. (a, pr_size pr)) ` (page_blocks pr - set fs)"

definition live_of :: "('p \<Rightarrow> (nat \<times> nat) set) \<Rightarrow> 'p kheap \<Rightarrow> nat set \<Rightarrow> (nat \<Rightarrow> nat list) \<Rightarrow> (nat \<times> nat) set" where
  "live_of pblocks h J fl =
     (\<Union>j \<in> J. page_live (pagerefs h ! j) (fl j)) \<union>
     {(a, n * PAGE_SIZE) | a n. (a, n) \<in> pblocks (pager h) \<and> a \<notin> pg h ` J}"

definition kh_live :: "('p \<Rightarrow> (nat \<times> nat) set) \<Rightarrow> 'p kheap \<Rightarrow> (nat \<times> nat) set" where
  "kh_live pblocks h = live_of pblocks h (set (kh_all h)) (kh_free h)"

section \<open>Lemmas\<close>

declare inuse_scan.simps [simp del] allocpageref_from.simps [simp del]

lemma sizes_ok:
  assumes "b < NSIZES"
  shows "16 \<le> sizes ! b" and "PAGE_SIZE div sizes ! b \<le> NPAGEREFS" and "2 \<le> PAGE_SIZE div sizes ! b"
    and "PAGE_SIZE div sizes ! b * sizes ! b = PAGE_SIZE" and "sizes ! b mod 4 = 0"
proof -
  have "\<forall>b < 8. 16 \<le> sizes ! b \<and> PAGE_SIZE div sizes ! b \<le> 256 \<and> 2 \<le> PAGE_SIZE div sizes ! b \<and>
      PAGE_SIZE div sizes ! b * sizes ! b = PAGE_SIZE \<and> sizes ! b mod 4 = 0"
    unfolding all_less_upt by (simp add: sizes_def upt_rec)
  with assms show "16 \<le> sizes ! b" and "PAGE_SIZE div sizes ! b \<le> NPAGEREFS" and "2 \<le> PAGE_SIZE div sizes ! b"
    and "PAGE_SIZE div sizes ! b * sizes ! b = PAGE_SIZE" and "sizes ! b mod 4 = 0" by blast+
qed

lemma block_in_page:
  assumes "b < NSIZES" and "i < PAGE_SIZE div sizes ! b"
  shows "i * sizes ! b + sizes ! b \<le> PAGE_SIZE"
proof -
  have "Suc i * sizes ! b \<le> PAGE_SIZE div sizes ! b * sizes ! b" using assms(2) by (intro mult_le_mono1) simp
  then show ?thesis using sizes_ok(4) [OF assms(1)] by simp
qed

lemma page_blocks_range:
  assumes "PR_BLOCKTYPE pr < NSIZES" and "a \<in> page_blocks pr"
  shows "PR_PAGEADDR pr \<le> a" and "a + pr_size pr \<le> PR_PAGEADDR pr + PAGE_SIZE"
    and "(a - PR_PAGEADDR pr) mod pr_size pr = 0"
  using assms block_in_page [OF assms(1)] by (auto simp: page_blocks_def pr_size_def)

lemma page_blocks_disjoint:
  assumes "a \<in> page_blocks pr" and "b \<in> page_blocks pr" and "a \<noteq> b"
  shows "a + pr_size pr \<le> b \<or> b + pr_size pr \<le> a"
proof -
  from assms obtain i j where "a = PR_PAGEADDR pr + i * pr_size pr" "b = PR_PAGEADDR pr + j * pr_size pr" "i \<noteq> j"
    by (auto simp: page_blocks_def)
  moreover have "Suc i * pr_size pr \<le> j * pr_size pr \<or> Suc j * pr_size pr \<le> i * pr_size pr"
    using \<open>i \<noteq> j\<close> by (metis Suc_leI linorder_neqE_nat mult_le_mono1)
  ultimately show ?thesis by auto
qed

lemma card_page_blocks:
  assumes "PR_BLOCKTYPE pr < NSIZES"
  shows "card (page_blocks pr) = PAGE_SIZE div pr_size pr" and "finite (page_blocks pr)"
proof -
  have eq: "page_blocks pr = (\<lambda>i. PR_PAGEADDR pr + i * pr_size pr) ` {..<PAGE_SIZE div pr_size pr}"
    by (auto simp: page_blocks_def)
  have "0 < pr_size pr" using sizes_ok(1) [OF assms] by (simp add: pr_size_def)
  then have "inj_on (\<lambda>i. PR_PAGEADDR pr + i * pr_size pr) {..<PAGE_SIZE div pr_size pr}"
    by (auto simp: inj_on_def)
  then show "card (page_blocks pr) = PAGE_SIZE div pr_size pr" unfolding eq by (simp add: card_image)
  show "finite (page_blocks pr)" unfolding eq by simp
qed

lemma PR_MKPAB:
  assumes "pa mod PAGE_SIZE = 0" and "blk < NSIZES"
  shows "page_frame (MKPAB pa blk) = pa" and "MKPAB pa blk mod PAGE_SIZE = blk"
proof -
  have "(pa + blk) mod PAGE_SIZE = (pa mod PAGE_SIZE + blk) mod PAGE_SIZE" by (simp only: mod_add_left_eq)
  with assms have "(pa + blk) mod PAGE_SIZE = blk" by simp
  with assms show "page_frame (MKPAB pa blk) = pa" and "MKPAB pa blk mod PAGE_SIZE = blk"
    by (simp_all add: MKPAB_def page_frame_def)
qed

lemma page_frame_mod: "page_frame a mod PAGE_SIZE = 0"
  unfolding page_frame_def by (metis minus_mod_eq_mult_div mod_mult_self1_is_0)

subsection \<open>Page references in use\<close>

lemma word32_allbits: "(w :: 32 word) = 4294967295 \<longleftrightarrow> (\<forall>n < 32. bit w n)"
proof -
  have "(4294967295 :: 32 word) = -1" by simp
  then show ?thesis by (auto simp: bit_eq_iff bit_simps)
qed

lemma inuse_scan_Some: "inuse_scan w i = Some j \<Longrightarrow> j < 32 \<and> \<not> bit w j"
proof (induction w i rule: inuse_scan.induct)
  case (1 w i)
  show ?case
  proof (cases "i < 32 \<and> w AND 2 ^ i \<noteq> 0")
    case True
    with "1.prems" have "inuse_scan w (Suc i) = Some j" by (simp add: inuse_scan.simps [of w i])
    with "1.IH" True show ?thesis by simp
  next
    case False
    with "1.prems" show ?thesis
      by (auto simp: inuse_scan.simps [of w i] and_exp_eq_0_iff_not_bit split: if_splits)
  qed
qed

lemma inuse_scan_None: "inuse_scan w i = None \<Longrightarrow> i \<le> k \<Longrightarrow> k < 32 \<Longrightarrow> bit w k"
proof (induction w i rule: inuse_scan.induct)
  case (1 w i)
  then have i: "i < 32" by simp
  with "1.prems"(1) have b: "w AND 2 ^ i \<noteq> 0" and n: "inuse_scan w (Suc i) = None"
    by (simp_all add: inuse_scan.simps [of w i] split: if_splits)
  show ?case
  proof (cases "i = k")
    case True
    with b show ?thesis by (simp add: and_exp_eq_0_iff_not_bit)
  next
    case False
    with "1.IH" [OF i] b n "1.prems"(2,3) show ?thesis by simp
  qed
qed

lemma kh_used_update:
  assumes "length (pagerefs_inuse h) = INUSE_WORDS" and "p < NPAGEREFS"
  shows "kh_used (h\<lparr>pagerefs_inuse := (pagerefs_inuse h)[p div 32 := (pagerefs_inuse h ! (p div 32)) OR 2 ^ (p mod 32)]\<rparr>) =
      insert p (kh_used h)"
    and "kh_used (h\<lparr>pagerefs_inuse := (pagerefs_inuse h)[p div 32 := (pagerefs_inuse h ! (p div 32)) AND NOT (2 ^ (p mod 32))]\<rparr>) =
      kh_used h - {p}"
proof -
  let ?ws = "pagerefs_inuse h"
  let ?w = "?ws ! (p div 32)"
  have i: "p div 32 < length ?ws" using assms by simp
  have eq: "q mod 32 = p mod 32 \<longleftrightarrow> q = p" if "q div 32 = p div 32" for q
    using that by (metis div_mult_mod_eq)
  have or: "bit (?ws[p div 32 := ?w OR 2 ^ (p mod 32)] ! (q div 32)) (q mod 32) \<longleftrightarrow>
      bit (?ws ! (q div 32)) (q mod 32) \<or> q = p" for q
  proof (cases "q div 32 = p div 32")
    case True
    then show ?thesis using i eq [OF True] by (simp add: bit_or_iff bit_exp_iff)
  qed auto
  have an: "bit (?ws[p div 32 := ?w AND NOT (2 ^ (p mod 32))] ! (q div 32)) (q mod 32) \<longleftrightarrow>
      bit (?ws ! (q div 32)) (q mod 32) \<and> q \<noteq> p" for q
  proof (cases "q div 32 = p div 32")
    case True
    then show ?thesis using i eq [OF True] by (simp add: bit_and_iff bit_not_iff bit_exp_iff)
  qed auto
  show "kh_used (h\<lparr>pagerefs_inuse := ?ws[p div 32 := ?w OR 2 ^ (p mod 32)]\<rparr>) = insert p (kh_used h)"
    using assms(2) by (auto simp: kh_used_def or)
  show "kh_used (h\<lparr>pagerefs_inuse := ?ws[p div 32 := ?w AND NOT (2 ^ (p mod 32))]\<rparr>) = kh_used h - {p}"
    by (auto simp: kh_used_def an)
qed

lemma allocpageref_from_spec:
  assumes "length (pagerefs_inuse h) = INUSE_WORDS" and "i \<le> INUSE_WORDS"
  shows "(allocpageref_from i h = Inr (None, h) \<and> (\<forall>j. 32 * i \<le> j \<and> j < NPAGEREFS \<longrightarrow> j \<in> kh_used h)) \<or>
     (\<exists>p < NPAGEREFS. p \<notin> kh_used h \<and> allocpageref_from i h = Inr (Some p,
        h\<lparr>pagerefs_inuse := (pagerefs_inuse h)[p div 32 := (pagerefs_inuse h ! (p div 32)) OR 2 ^ (p mod 32)]\<rparr>))"
  using assms
proof (induction i h rule: allocpageref_from.induct)
  case (1 i h)
  consider (past) "\<not> i < 8" | (skip) "i < 8" "pagerefs_inuse h ! i = 4294967295"
    | (here) "i < 8" "pagerefs_inuse h ! i \<noteq> 4294967295" by blast
  then show ?case
  proof cases
    case past
    then have "allocpageref_from i h = Inr (None, h)" by (subst allocpageref_from.simps) simp
    moreover have "\<not> (32 * i \<le> j \<and> j < NPAGEREFS)" for j using past by auto
    ultimately show ?thesis by blast
  next
    case skip
    have step: "allocpageref_from i h = allocpageref_from (Suc i) h"
      using skip by (subst allocpageref_from.simps) simp
    have "j \<in> kh_used h" if "32 * i \<le> j" "\<not> 32 * Suc i \<le> j" for j
    proof -
      from that have "j div 32 = i" by (intro div_nat_eqI) simp_all
      then show ?thesis using skip word32_allbits [of "pagerefs_inuse h ! i"] that by (simp add: kh_used_def)
    qed
    with "1.IH" skip "1.prems" show ?thesis unfolding step by auto
  next
    case here
    then obtain j where j: "inuse_scan (pagerefs_inuse h ! i) 0 = Some j"
      using inuse_scan_None [of "pagerefs_inuse h ! i" 0] word32_allbits [of "pagerefs_inuse h ! i"] by fastforce
    have b: "j < 32" "\<not> bit (pagerefs_inuse h ! i) j" using inuse_scan_Some [OF j] by simp_all
    then have dm: "(i * 32 + j) div 32 = i" "(i * 32 + j) mod 32 = j" by simp_all
    have "i * 32 + j < NPAGEREFS" using here(1) b(1) by simp
    moreover have "i * 32 + j \<notin> kh_used h" using b(2) dm by (simp add: kh_used_def)
    moreover have "allocpageref_from i h = Inr (Some (i * 32 + j),
        h\<lparr>pagerefs_inuse := (pagerefs_inuse h)[i := (pagerefs_inuse h ! i) OR 2 ^ j]\<rparr>)"
      using here j by (subst allocpageref_from.simps) simp
    ultimately show ?thesis using dm by metis
  qed
qed

lemma allocpageref_cases:
  assumes "length (pagerefs_inuse h) = INUSE_WORDS"
  obtains (full) "allocpageref h = Inr (None, h)"
  | (ok) p w where "allocpageref h = Inr (Some p, h\<lparr>pagerefs_inuse := w\<rparr>)" and "p < NPAGEREFS"
      and "p \<notin> kh_used h" and "length w = INUSE_WORDS" and "kh_used (h\<lparr>pagerefs_inuse := w\<rparr>) = insert p (kh_used h)"
  using allocpageref_from_spec [OF assms, of 0] kh_used_update(1) [OF assms] assms
  unfolding allocpageref_def by (metis le0 length_list_update)

lemma freepageref_ok:
  assumes "length (pagerefs_inuse h) = INUSE_WORDS" and "p \<in> kh_used h"
  shows "\<exists>w. freepageref p h = Inr ((), h\<lparr>pagerefs_inuse := w\<rparr>) \<and> length w = INUSE_WORDS \<and>
     kh_used (h\<lparr>pagerefs_inuse := w\<rparr>) = kh_used h - {p}"
proof -
  from assms(2) have "p < NPAGEREFS" and "pagerefs_inuse h ! (p div 32) AND 2 ^ (p mod 32) \<noteq> 0"
    by (simp_all add: kh_used_def and_exp_eq_0_iff_not_bit)
  then have "freepageref p h = Inr ((), h\<lparr>pagerefs_inuse :=
      (pagerefs_inuse h)[p div 32 := (pagerefs_inuse h ! (p div 32)) AND NOT (2 ^ (p mod 32))]\<rparr>)"
    by (simp add: freepageref_def Let_def)
  with kh_used_update(2) [OF assms(1) \<open>p < NPAGEREFS\<close>] assms(1) show ?thesis by (metis length_list_update)
qed

subsection \<open>Unlinking\<close>

lemma unlink_find_spec:
  assumes "path nxt cur ys" and "p \<in> set ys" and "length ys < n"
  shows "\<exists>us vs. ys = us @ p # vs \<and> p \<notin> set us \<and>
    unlink_find n nxt guy cur p = Inr (Some (if us = [] then guy else Some (last us)))"
  using assms
proof (induction ys arbitrary: n guy cur)
  case (Cons y ys)
  then obtain m where n: "n = Suc m" by (cases n) auto
  show ?case
  proof (cases "y = p")
    case True
    with Cons.prems n show ?thesis by (intro exI [of _ "[]"] exI [of _ ys]) simp
  next
    case False
    with Cons.prems n Cons.IH [of "nxt y" m "Some y"] obtain us vs where
      r: "ys = us @ p # vs" "p \<notin> set us"
        "unlink_find m nxt (Some y) (nxt y) p = Inr (Some (if us = [] then Some y else Some (last us)))" by auto
    with False Cons.prems n show ?thesis by (intro exI [of _ "y # us"] exI [of _ vs]) auto
  qed
qed simp

lemma path_after: "path nxt cur (us @ p # vs) \<Longrightarrow> path nxt (nxt p) vs"
  by (induction us arbitrary: cur) auto

text \<open>The pointers after the link to \<open>p\<close> has been replaced by its successor.\<close>

lemma unlink_path:
  assumes "path nxt cur ys" and "distinct ys" and "ys = us @ p # vs"
  shows "us = [] \<Longrightarrow> path nxt (nxt p) (us @ vs)"
    and "us \<noteq> [] \<Longrightarrow> path (nxt(last us := nxt p)) cur (us @ vs)"
proof -
  show "us = [] \<Longrightarrow> path nxt (nxt p) (us @ vs)" using path_after assms by fastforce
  assume "us \<noteq> []"
  then have us: "us = butlast us @ [last us]" by simp
  then have "ys = butlast us @ last us # p # vs" using assms(3) by (metis append.assoc append_Cons append_Nil)
  with path_unlink [of nxt cur "butlast us" "last us" p vs] assms(1,2)
  have "path (nxt(last us := nxt p)) cur (butlast us @ last us # vs)" by simp
  then show "path (nxt(last us := nxt p)) cur (us @ vs)" using us by (metis append.assoc append_Cons append_Nil)
qed

subsection \<open>One page\<close>

lemma pr_simps [simp]:
  "PR_PAGEADDR (pr\<lparr>nfree := a\<rparr>) = PR_PAGEADDR pr" "PR_BLOCKTYPE (pr\<lparr>nfree := a\<rparr>) = PR_BLOCKTYPE pr"
  "PR_PAGEADDR (pr\<lparr>freelist_offset := a\<rparr>) = PR_PAGEADDR pr" "PR_BLOCKTYPE (pr\<lparr>freelist_offset := a\<rparr>) = PR_BLOCKTYPE pr"
  "PR_PAGEADDR (pr\<lparr>next_samesize := q\<rparr>) = PR_PAGEADDR pr" "PR_BLOCKTYPE (pr\<lparr>next_samesize := q\<rparr>) = PR_BLOCKTYPE pr"
  "PR_PAGEADDR (pr\<lparr>next_all := q\<rparr>) = PR_PAGEADDR pr" "PR_BLOCKTYPE (pr\<lparr>next_all := q\<rparr>) = PR_BLOCKTYPE pr"
  by (simp_all add: PR_PAGEADDR_def PR_BLOCKTYPE_def)

lemma page_blocks_cong:
  "PR_PAGEADDR pr' = PR_PAGEADDR pr \<Longrightarrow> PR_BLOCKTYPE pr' = PR_BLOCKTYPE pr \<Longrightarrow>
     page_blocks pr' = page_blocks pr \<and> pr_size pr' = pr_size pr"
  by (simp add: page_blocks_def pr_size_def)

lemma pr_okD:
  assumes "pr_ok m pr fs"
  shows "PR_BLOCKTYPE pr < NSIZES" and "0 < PR_PAGEADDR pr" and "PR_PAGEADDR pr + PAGE_SIZE \<le> 2 ^ 32"
    and "path (mnxt m) (fl_start pr) fs" and "distinct fs" and "set fs \<subseteq> page_blocks pr" and "nfree pr = length fs"
  using assms by (simp_all add: pr_ok_def)

lemma pr_ok_length: "pr_ok m pr fs \<Longrightarrow> length fs \<le> PAGE_SIZE div pr_size pr"
  by (metis card_mono card_page_blocks distinct_card pr_okD(1,5,6))

lemma pr_ok_cong:
  assumes "pr_ok m pr fs" and "\<forall>x \<in> set fs. m' x = m x"
    and "pageaddr_and_blocktype pr' = pageaddr_and_blocktype pr" and "freelist_offset pr' = freelist_offset pr"
    and "nfree pr' = nfree pr"
  shows "pr_ok m' pr' fs"
proof -
  have "path (mnxt m') c fs = path (mnxt m) c fs" for c
    using assms(2) by (intro path_cong) (simp add: mnxt_def)
  moreover have "PR_PAGEADDR pr' = PR_PAGEADDR pr" "PR_BLOCKTYPE pr' = PR_BLOCKTYPE pr"
    using assms(3) by (simp_all add: PR_PAGEADDR_def PR_BLOCKTYPE_def)
  moreover from this(1) have "fl_start pr' = fl_start pr" using assms(4) by (simp add: fl_start_def)
  ultimately show ?thesis
    using assms(1,5) page_blocks_cong [of pr' pr] by (simp add: pr_ok_def)
qed

text \<open>Taking the first block off the free list of a page.\<close>

lemma pr_ok_take:
  assumes "pr_ok m pr (x # xs)"
  shows "freelist_offset pr < PAGE_SIZE" and "PR_PAGEADDR pr + freelist_offset pr = x"
    and "m x \<noteq> 0 \<Longrightarrow> xs \<noteq> [] \<and> m x = hd xs \<and> (m x + 2 ^ 32 - PR_PAGEADDR pr) mod 2 ^ 32 = m x - PR_PAGEADDR pr \<and>
      m x - PR_PAGEADDR pr < PAGE_SIZE \<and> PR_PAGEADDR pr \<le> m x"
    and "m x = 0 \<Longrightarrow> xs = []"
    and "pr_ok m (pr\<lparr>nfree := length xs, freelist_offset := (if xs = [] then INVALID_OFFSET else m x - PR_PAGEADDR pr)\<rparr>) xs"
proof -
  note ok = pr_okD [OF assms]
  have sz: "16 \<le> pr_size pr" using sizes_ok(1) [OF ok(1)] by (simp add: pr_size_def)
  have inp: "PR_PAGEADDR pr \<le> y" "y < PR_PAGEADDR pr + PAGE_SIZE" if "y \<in> set (x # xs)" for y
    using page_blocks_range [OF ok(1), of y] ok(6) that sz by auto
  have off: "fl_start pr = Some x" and rest: "path (mnxt m) (mnxt m x) xs" using ok(4) by simp_all
  then have x: "PR_PAGEADDR pr + freelist_offset pr = x" by (simp add: fl_start_def split: if_splits)
  then show "PR_PAGEADDR pr + freelist_offset pr = x" and "freelist_offset pr < PAGE_SIZE"
    using inp [of x] by simp_all
  show "m x = 0 \<Longrightarrow> xs = []" using rest path_head [OF rest] by (auto simp: mnxt_def split: if_splits)
  have mx: "xs \<noteq> [] \<and> m x = hd xs" if "m x \<noteq> 0"
    using that path_head [OF rest] by (auto simp: mnxt_def split: if_splits)
  have hd: "PR_PAGEADDR pr \<le> m x" "m x < PR_PAGEADDR pr + PAGE_SIZE" if "m x \<noteq> 0"
    using mx [OF that] inp [of "m x"] by auto
  then show "m x \<noteq> 0 \<Longrightarrow> xs \<noteq> [] \<and> m x = hd xs \<and> (m x + 2 ^ 32 - PR_PAGEADDR pr) mod 2 ^ 32 = m x - PR_PAGEADDR pr \<and>
      m x - PR_PAGEADDR pr < PAGE_SIZE \<and> PR_PAGEADDR pr \<le> m x"
    using mx ok(3) mod_sub_wrap [of "PR_PAGEADDR pr" "m x" "2 ^ 32"] by auto
  let ?pr = "pr\<lparr>nfree := length xs, freelist_offset := (if xs = [] then INVALID_OFFSET else m x - PR_PAGEADDR pr)\<rparr>"
  have st: "fl_start ?pr = mnxt m x"
  proof (cases "m x = 0")
    case True
    then show ?thesis using \<open>m x = 0 \<Longrightarrow> xs = []\<close> by (simp add: fl_start_def mnxt_def)
  next
    case False
    then show ?thesis using mx hd by (auto simp: fl_start_def mnxt_def)
  qed
  then show "pr_ok m ?pr xs"
    using ok rest page_blocks_cong [of ?pr pr] unfolding pr_ok_def by simp
qed

text \<open>Putting a block on the free list of its page.\<close>

lemma fill_deadbeef_other: "a < ptr \<or> ptr + len \<le> a \<Longrightarrow> fill_deadbeef ptr len m a = m a"
proof -
  have "fold (\<lambda>i m. m(ptr + 4 * i := 3735928559)) [0..<k] m a = m a"
    if "a < ptr \<or> ptr + 4 * k \<le> a" for k
    using that by (induction k) auto
  moreover have "4 * (len div 4) \<le> len" by simp
  ultimately show "a < ptr \<or> ptr + len \<le> a \<Longrightarrow> ?thesis" unfolding fill_deadbeef_def by auto
qed

definition free_mem :: "pageref \<Rightarrow> nat \<Rightarrow> (nat \<Rightarrow> nat) \<Rightarrow> nat \<Rightarrow> nat" where
  "free_mem pr ptr m = (fill_deadbeef ptr (pr_size pr) m)
     (ptr := (if freelist_offset pr = INVALID_OFFSET then 0 else PR_PAGEADDR pr + freelist_offset pr))"

lemma free_mem_other: "0 < pr_size pr \<Longrightarrow> a < ptr \<or> ptr + pr_size pr \<le> a \<Longrightarrow> free_mem pr ptr m a = m a"
  by (auto simp: free_mem_def fill_deadbeef_other)

lemma pr_ok_put:
  assumes "pr_ok m pr fs" and "x \<in> page_blocks pr" and "x \<notin> set fs"
  shows "pr_ok (free_mem pr x m) (pr\<lparr>freelist_offset := x - PR_PAGEADDR pr, nfree := (nfree pr + 1) mod 2 ^ 16\<rparr>) (x # fs)"
proof -
  note ok = pr_okD [OF assms(1)]
  let ?m = "free_mem pr x m"
  let ?pr = "pr\<lparr>freelist_offset := x - PR_PAGEADDR pr, nfree := (nfree pr + 1) mod 2 ^ 16\<rparr>"
  have sz: "16 \<le> pr_size pr" "PAGE_SIZE div pr_size pr \<le> NPAGEREFS"
    using sizes_ok(1,2) [OF ok(1)] by (simp_all add: pr_size_def)
  note x = page_blocks_range [OF ok(1) assms(2)]
  have "?m y = m y" if "y \<in> set fs" for y
  proof (rule free_mem_other)
    have "y \<in> page_blocks pr" and "y \<noteq> x" using that ok(6) assms(3) by blast+
    then show "y < x \<or> x + pr_size pr \<le> y" using page_blocks_disjoint [OF _ assms(2)] sz(1) by fastforce
  qed (use sz(1) in simp)
  then have "path (mnxt ?m) (fl_start pr) fs = path (mnxt m) (fl_start pr) fs"
    by (intro path_cong) (simp add: mnxt_def)
  moreover have "mnxt ?m x = fl_start pr" using ok(2) by (simp add: mnxt_def free_mem_def fl_start_def)
  moreover have "fl_start ?pr = Some x" using x sz by (simp add: fl_start_def)
  moreover have "(nfree pr + 1) mod 2 ^ 16 = length (x # fs)"
    using pr_ok_length [OF assms(1)] sz(2) ok(7) by simp
  ultimately show ?thesis
    using ok assms(2,3) page_blocks_cong [of ?pr pr] unfolding pr_ok_def by simp
qed

text \<open>The free list of a fresh page.\<close>

lemma init_freelist_at:
  assumes "0 < sz" and "i < n"
  shows "init_freelist a sz n m (a + i * sz) = (if i = 0 then 0 else a + (i - 1) * sz)"
proof -
  have "fold (\<lambda>i m. m(a + i * sz := a + (i - 1) * sz)) [1..<n] (m(a := 0)) (a + i * sz) =
      (if i = 0 then 0 else a + (i - 1) * sz)" if "i < n" for i n
    using that assms(1) by (induction n) (auto simp: less_Suc_eq upt_Suc_append)
  from this [OF assms(2)] show ?thesis unfolding init_freelist_def .
qed

lemma init_freelist_other:
  assumes "0 < n" and "b < a \<or> a + n * sz \<le> b" and "0 < sz"
  shows "init_freelist a sz n m b = m b"
proof -
  have "fold (\<lambda>i m. m(a + i * sz := a + (i - 1) * sz)) [1..<n] (m(a := 0)) b = m b"
    if "0 < n" "b < a \<or> a + n * sz \<le> b" for n
    using that assms(3) by (induction n) (auto simp: upt_Suc_append)
  from this [OF assms(1,2)] show ?thesis unfolding init_freelist_def .
qed

lemma init_freelist_path:
  assumes "0 < a" and "0 < sz" and "k < n"
  shows "path (mnxt (init_freelist a sz n m)) (Some (a + k * sz)) (map (\<lambda>i. a + i * sz) (rev [0..<Suc k]))"
  using assms(3)
proof (induction k)
  case 0
  then show ?case using init_freelist_at [of sz 0 n a m] assms by (simp add: mnxt_def)
next
  case (Suc k)
  then have "mnxt (init_freelist a sz n m) (a + Suc k * sz) = Some (a + k * sz)"
    using init_freelist_at [of sz "Suc k" n a m] assms by (simp add: mnxt_def)
  with Suc show ?case by simp
qed

lemma pr_ok_fresh:
  assumes "0 < a" and "a mod PAGE_SIZE = 0" and "a + PAGE_SIZE \<le> 2 ^ 32" and "b < NSIZES"
    and n: "n = PAGE_SIZE div sizes ! b"
    and pr: "pageaddr_and_blocktype pr = MKPAB a b" "nfree pr = n" "freelist_offset pr = (n - 1) * sizes ! b"
  shows "pr_ok (init_freelist a (sizes ! b) n m) pr (map (\<lambda>i. a + i * sizes ! b) (rev [0..<n]))"
    and "PR_PAGEADDR pr = a" and "PR_BLOCKTYPE pr = b"
    and "page_blocks pr = set (map (\<lambda>i. a + i * sizes ! b) (rev [0..<n]))"
proof -
  let ?sz = "sizes ! b"
  have p: "PR_PAGEADDR pr = a" "PR_BLOCKTYPE pr = b"
    using PR_MKPAB [OF assms(2,4)] pr(1) by (simp_all add: PR_PAGEADDR_def PR_BLOCKTYPE_def)
  then show "PR_PAGEADDR pr = a" and "PR_BLOCKTYPE pr = b" by simp_all
  note sz = sizes_ok [OF assms(4)]
  have n1: "0 < n" "n = Suc (n - 1)" "n - 1 < n" using sz(3) n by simp_all
  have sz0: "0 < ?sz" using sz(1) by simp
  have blocks: "page_blocks pr = set (map (\<lambda>i. a + i * ?sz) (rev [0..<n]))"
    by (auto simp: page_blocks_def pr_size_def p n)
  then show "page_blocks pr = set (map (\<lambda>i. a + i * ?sz) (rev [0..<n]))" .
  have "(n - 1) * ?sz + ?sz \<le> PAGE_SIZE" using block_in_page [OF assms(4), of "n - 1"] n n1(3) by simp
  then have st: "fl_start pr = Some (a + (n - 1) * ?sz)" using pr(3) p sz(1) by (simp add: fl_start_def)
  have path: "path (mnxt (init_freelist a ?sz n m)) (fl_start pr) (map (\<lambda>i. a + i * ?sz) (rev [0..<n]))"
    using init_freelist_path [OF assms(1) sz0 n1(3)] n1(2) st by metis
  have dist: "distinct (map (\<lambda>i. a + i * ?sz) (rev [0..<n]))" using sz0 by (simp add: distinct_map inj_on_def)
  show "pr_ok (init_freelist a ?sz n m) pr (map (\<lambda>i. a + i * ?sz) (rev [0..<n]))"
    unfolding pr_ok_def using p assms(1,3,4) path dist blocks pr(2) by simp
qed

subsection \<open>The whole heap\<close>

lemma kh_repD:
  assumes "kh_rep pinv pblocks h alls same fl"
  shows "pinv (pager h)" and "length (pagerefs h) = NPAGEREFS" and "length (pagerefs_inuse h) = INUSE_WORDS"
    and "length (sizebases h) = NSIZES" and "path (nxt_all h) (allbase h) alls" and "distinct alls"
    and "set alls = kh_used h"
    and "b < NSIZES \<Longrightarrow> path (nxt_same h) (sizebases h ! b) (same b)" and "b < NSIZES \<Longrightarrow> distinct (same b)"
    and "b < NSIZES \<Longrightarrow> set (same b) = {j \<in> set alls. bt h j = b}"
    and "j \<in> set alls \<Longrightarrow> pr_ok (kmem h) (pagerefs h ! j) (fl j)"
    and "j \<in> set alls \<Longrightarrow> (pg h j, 1) \<in> pblocks (pager h)" and "inj_on (pg h) (set alls)"
  using assms unfolding kh_rep_def by blast+

lemma kh_rep_bounds:
  assumes "kh_rep pinv pblocks h alls same fl"
  shows "j \<in> set alls \<Longrightarrow> j < NPAGEREFS" and "length alls \<le> NPAGEREFS" and "b < NSIZES \<Longrightarrow> length (same b) \<le> NPAGEREFS"
proof -
  note rep = kh_repD [OF assms]
  have sub: "set alls \<subseteq> {..<NPAGEREFS}" using rep(7) by (auto simp: kh_used_def)
  then show "j \<in> set alls \<Longrightarrow> j < NPAGEREFS" by blast
  have "card (set alls) \<le> NPAGEREFS" using card_mono [OF _ sub] by simp
  then show "length alls \<le> NPAGEREFS" using distinct_card [OF rep(6)] by simp
  assume b: "b < NSIZES"
  have "set (same b) \<subseteq> {..<NPAGEREFS}" using rep(10) [OF b] sub by auto
  from card_mono [OF _ this] have "card (set (same b)) \<le> NPAGEREFS" by simp
  then show "length (same b) \<le> NPAGEREFS" using distinct_card [OF rep(9) [OF b]] by simp
qed

text \<open>The lists are determined by the heap.\<close>

lemma kh_rep_lists:
  assumes "kh_rep pinv pblocks h alls same fl"
  shows "kh_all h = alls" and "b < NSIZES \<Longrightarrow> kh_same h b = same b" and "j \<in> set alls \<Longrightarrow> kh_free h j = fl j"
proof -
  note rep = kh_repD [OF assms] and bd = kh_rep_bounds [OF assms]
  show "kh_all h = alls" unfolding kh_all_def by (rule trail_path [OF rep(5) bd(2)])
  show "b < NSIZES \<Longrightarrow> kh_same h b = same b" unfolding kh_same_def by (rule trail_path [OF rep(8) bd(3)])
  assume j: "j \<in> set alls"
  note ok = rep(11) [OF j]
  have "length (fl j) \<le> NPAGEREFS"
    using pr_ok_length [OF ok] sizes_ok(2) [OF pr_okD(1) [OF ok]] by (simp add: pr_size_def)
  then show "kh_free h j = fl j" unfolding kh_free_def by (rule trail_path [OF pr_okD(4) [OF ok]])
qed

lemma kh_invI:
  assumes "kh_rep pinv pblocks h alls same fl"
    and "\<forall>j \<in> set alls. length (fl j) < PAGE_SIZE div pr_size (pagerefs h ! j)"
  shows "kh_inv pinv pblocks h" and "kh_live pblocks h = live_of pblocks h (set alls) fl"
proof -
  note l = kh_rep_lists [OF assms(1)]
  have "kh_rep pinv pblocks h (kh_all h) (kh_same h) (kh_free h)"
    using assms(1) unfolding kh_rep_def l(1) using l(2,3) by auto
  then show "kh_inv pinv pblocks h" unfolding kh_inv_def using l(1,3) assms(2) by simp
  show "kh_live pblocks h = live_of pblocks h (set alls) fl"
    unfolding kh_live_def live_of_def l(1) using l(3) by auto
qed

text \<open>Changing the free list of one page.\<close>

definition live_rest :: "('p \<Rightarrow> (nat \<times> nat) set) \<Rightarrow> 'p kheap \<Rightarrow> nat set \<Rightarrow> (nat \<Rightarrow> nat list) \<Rightarrow> nat \<Rightarrow> (nat \<times> nat) set" where
  "live_rest pblocks h J fl p =
     (\<Union>j \<in> J - {p}. page_live (pagerefs h ! j) (fl j)) \<union>
     {(a, n * PAGE_SIZE) | a n. (a, n) \<in> pblocks (pager h) \<and> a \<notin> pg h ` J}"

lemma live_split: "p \<in> J \<Longrightarrow> live_of pblocks h J fl = page_live (pagerefs h ! p) (fl p) \<union> live_rest pblocks h J fl p"
  unfolding live_of_def live_rest_def by blast

lemma kh_rep_upd:
  assumes rep: "kh_rep pinv pblocks h alls same fl" and p: "p \<in> set alls"
    and pr: "pageaddr_and_blocktype pr' = pageaddr_and_blocktype (pagerefs h ! p)"
      "next_samesize pr' = next_samesize (pagerefs h ! p)" "next_all pr' = next_all (pagerefs h ! p)"
    and ok: "pr_ok m' pr' fs'"
    and other: "\<And>j x. j \<in> set alls \<Longrightarrow> j \<noteq> p \<Longrightarrow> x \<in> set (fl j) \<Longrightarrow> m' x = kmem h x"
  defines "h' \<equiv> h\<lparr>pagerefs := (pagerefs h)[p := pr'], kmem := m'\<rparr>"
  shows "kh_rep pinv pblocks h' alls same (fl(p := fs'))"
    and "live_rest pblocks h' (set alls) (fl(p := fs')) p = live_rest pblocks h (set alls) fl p"
    and "pagerefs h' ! p = pr'"
proof -
  note r = kh_repD [OF rep]
  have pl: "p < length (pagerefs h)" using kh_rep_bounds(1) [OF rep p] r(2) by simp
  then show prp: "pagerefs h' ! p = pr'" by (simp add: h'_def)
  have prj: "pagerefs h' ! j = pagerefs h ! j" if "j \<noteq> p" for j using that by (simp add: h'_def)
  have na: "nxt_all h' = nxt_all h" and ns: "nxt_same h' = nxt_same h"
    using prp prj pr(2,3) by (auto simp: nxt_all_def nxt_same_def fun_eq_iff) metis+
  have pg': "pg h' j = pg h j" and bt': "bt h' j = bt h j" for j
    using prp prj [of j] pr(1) by (cases "j = p"; simp add: PR_PAGEADDR_def PR_BLOCKTYPE_def)+
  have "pr_ok (kmem h') (pagerefs h' ! j) ((fl(p := fs')) j)" if j: "j \<in> set alls" for j
  proof (cases "j = p")
    case True
    then show ?thesis using ok prp by (simp add: h'_def)
  next
    case False
    then show ?thesis using other [OF j False] pr_ok_cong [OF r(11) [OF j]] prj [OF False]
      by (simp add: h'_def)
  qed
  moreover have "inj_on (pg h') (set alls)" using r(13) pg' by (simp add: inj_on_def)
  moreover have "kh_used h' = kh_used h" by (simp add: kh_used_def h'_def)
  ultimately show "kh_rep pinv pblocks h' alls same (fl(p := fs'))"
    unfolding kh_rep_def na ns pg' bt' using r by (simp add: h'_def)
  show "live_rest pblocks h' (set alls) (fl(p := fs')) p = live_rest pblocks h (set alls) fl p"
    unfolding live_rest_def using prj pg' by (auto simp: h'_def)
qed

text \<open>The free pages of one size, and the page that holds an address.\<close>

lemma find_samesize_spec:
  assumes "path (nxt_same h) cur ys" and "length ys < n" and "\<forall>j \<in> set ys. bt h j = b"
  shows "(find_samesize n h b cur = Inr None) \<or>
    (\<exists>p \<in> set ys. nfree (pagerefs h ! p) > 0 \<and> find_samesize n h b cur = Inr (Some p))"
  using assms
proof (induction ys arbitrary: n cur)
  case Nil
  then show ?case by (cases n) auto
next
  case (Cons y ys)
  then obtain m where n: "n = Suc m" by (cases n) auto
  show ?case
  proof (cases "nfree (pagerefs h ! y) > 0")
    case True
    with Cons.prems n show ?thesis by simp
  next
    case False
    with Cons.prems n Cons.IH [of "nxt_same h y" m] show ?thesis by auto
  qed
qed

definition in_page :: "'p kheap \<Rightarrow> nat \<Rightarrow> nat \<Rightarrow> bool" where
  "in_page h a j \<longleftrightarrow> pg h j \<le> a \<and> a < pg h j + PAGE_SIZE"

lemma find_page_spec:
  assumes "path (nxt_all h) cur ys" and "length ys < n" and "\<forall>j \<in> set ys. bt h j < NSIZES"
  shows "(find_page n h a cur = Inr None \<and> (\<forall>j \<in> set ys. \<not> in_page h a j)) \<or>
    (\<exists>p \<in> set ys. in_page h a p \<and> find_page n h a cur = Inr (Some p))"
  using assms
proof (induction ys arbitrary: n cur)
  case Nil
  then show ?case by (cases n) auto
next
  case (Cons y ys)
  then obtain m where n: "n = Suc m" by (cases n) auto
  show ?case
  proof (cases "in_page h a y")
    case True
    with Cons.prems n show ?thesis by (simp add: in_page_def)
  next
    case False
    with Cons.prems n have "find_page n h a cur = find_page m h a (nxt_all h y)" by (auto simp: in_page_def)
    with False Cons.prems n Cons.IH [of "nxt_all h y" m] show ?thesis by auto
  qed
qed

text \<open>Taking a block.\<close>

lemma doalloc_ok:
  assumes rep: "kh_rep pinv pblocks h alls same fl" and p: "p \<in> set alls" and fp: "fl p = x # xs"
  shows "\<exists>h'. doalloc p h = Inr (x, h') \<and> kh_rep pinv pblocks h' alls same (fl(p := xs)) \<and>
    live_of pblocks h' (set alls) (fl(p := xs)) = insert (x, pr_size (pagerefs h ! p)) (live_of pblocks h (set alls) fl) \<and>
    kmem h' = kmem h \<and> pager h' = pager h \<and> (\<forall>j. pageaddr_and_blocktype (pagerefs h' ! j) = pageaddr_and_blocktype (pagerefs h ! j))"
proof -
  let ?pr = "pagerefs h ! p"
  have ok: "pr_ok (kmem h) ?pr (x # xs)" using kh_repD(11) [OF rep p] fp by simp
  note t = pr_ok_take [OF ok]
  let ?pr' = "?pr\<lparr>nfree := length xs, freelist_offset := (if xs = [] then INVALID_OFFSET else kmem h x - PR_PAGEADDR ?pr)\<rparr>"
  let ?h' = "h\<lparr>pagerefs := (pagerefs h)[p := ?pr'], kmem := kmem h\<rparr>"
  have nf: "nfree ?pr - 1 = length xs" using pr_okD(7) [OF ok] by simp
  have run: "doalloc p h = Inr (x, ?h')"
  proof (cases "kmem h x = 0")
    case True
    with t(4) have "xs = []" by simp
    with True t(1,2) nf show ?thesis by (simp add: doalloc_def Let_def pr_set_def)
  next
    case False
    with t(3) have "xs \<noteq> []" "(kmem h x + 2 ^ 32 - PR_PAGEADDR ?pr) mod 2 ^ 32 = kmem h x - PR_PAGEADDR ?pr"
      "kmem h x - PR_PAGEADDR ?pr < PAGE_SIZE" by blast+
    with False t(1,2) nf show ?thesis by (simp add: doalloc_def Let_def pr_set_def del: diff_is_0_eq)
  qed
  note u = kh_rep_upd [OF rep p, of ?pr' "kmem h" xs, OF _ _ _ t(5)]
  have x: "x \<in> page_blocks ?pr" "x \<notin> set xs" using pr_okD(5,6) [OF ok] by simp_all
  have sz: "page_blocks ?pr' = page_blocks ?pr" "pr_size ?pr' = pr_size ?pr"
    using page_blocks_cong [of ?pr' ?pr] by simp_all
  have "page_live ?pr' xs = insert (x, pr_size ?pr) (page_live ?pr (x # xs))"
    unfolding page_live_def sz using x by auto
  then have "live_of pblocks ?h' (set alls) (fl(p := xs)) = insert (x, pr_size ?pr) (live_of pblocks h (set alls) fl)"
    using live_split [OF p, of pblocks ?h' "fl(p := xs)"] live_split [OF p, of pblocks h fl] u(2,3) fp by simp
  moreover have "pageaddr_and_blocktype (pagerefs ?h' ! j) = pageaddr_and_blocktype (pagerefs h ! j)" for j
    using u(3) by (cases "j = p") simp_all
  ultimately show ?thesis using run u(1) by auto
qed

lemma live_insert_page:
  assumes rep: "kh_rep pinv pblocks h alls same fl" and p: "p \<notin> set alls"
    and pl: "p < NPAGEREFS"
    and h': "\<And>j. j \<noteq> p \<Longrightarrow> pagerefs h' ! j = pagerefs h ! j" "pblocks (pager h') = insert (pg h' p, 1) (pblocks (pager h))"
    and new: "\<And>n. (pg h' p, n) \<notin> pblocks (pager h)"
    and full: "page_blocks (pagerefs h' ! p) = set fs"
  shows "live_of pblocks h' (insert p (set alls)) (fl(p := fs)) = live_of pblocks h (set alls) fl"
proof -
  have e: "pagerefs h' ! j = pagerefs h ! j" if "j \<in> set alls" for j using h'(1) p that by metis
  have "page_live (pagerefs h' ! p) fs = {}" using full by (simp add: page_live_def)
  moreover have "pg h' ` insert p (set alls) = insert (pg h' p) (pg h ` set alls)" using e by auto
  ultimately have big: "{(a, n * PAGE_SIZE) | a n. (a, n) \<in> pblocks (pager h') \<and> a \<notin> pg h' ` insert p (set alls)} =
      {(a, n * PAGE_SIZE) | a n. (a, n) \<in> pblocks (pager h) \<and> a \<notin> pg h ` set alls}"
    using h'(2) new by auto
  have "(\<Union>j \<in> set alls. page_live (pagerefs h' ! j) ((fl(p := fs)) j)) =
      (\<Union>j \<in> set alls. page_live (pagerefs h ! j) (fl j))"
    using e p by (intro SUP_cong) auto
  then show ?thesis unfolding live_of_def big using \<open>page_live (pagerefs h' ! p) fs = {}\<close> by simp
qed

text \<open>Linking a fresh page into the heap.\<close>

lemma setup_page_ok:
  assumes rep: "kh_rep pinv pblocks h0 alls same fl"
    and p: "p < NPAGEREFS" "p \<notin> set alls" and b: "b < NSIZES"
    and h: "h = h0\<lparr>pagerefs_inuse := w, pager := q\<rparr>" "length w = INUSE_WORDS" "kh_used h = insert p (kh_used h0)"
    and q: "pinv q" "pblocks q = insert (a, 1) (pblocks (pager h0))" "\<And>n. (a, n) \<notin> pblocks (pager h0)"
    and a: "0 < a" "a mod PAGE_SIZE = 0" "a + PAGE_SIZE \<le> 2 ^ 32"
    and away: "\<forall>j \<in> set alls. \<forall>x \<in> set (fl j). x < a \<or> a + PAGE_SIZE \<le> x"
  shows "\<exists>h'. setup_page p a b h = Inr ((), h') \<and>
    kh_rep pinv pblocks h' (p # alls) (same(b := p # same b))
      (fl(p := map (\<lambda>i. a + i * sizes ! b) (rev [0..<PAGE_SIZE div sizes ! b]))) \<and>
    live_of pblocks h' (set (p # alls)) (fl(p := map (\<lambda>i. a + i * sizes ! b) (rev [0..<PAGE_SIZE div sizes ! b]))) =
      live_of pblocks h0 (set alls) fl \<and> pager h' = q \<and> pr_size (pagerefs h' ! p) = sizes ! b \<and>
    (\<forall>x. x < a \<or> a + PAGE_SIZE \<le> x \<longrightarrow> kmem h' x = kmem h0 x) \<and>
    (\<forall>j \<noteq> p. pagerefs h' ! j = pagerefs h0 ! j)"
proof -
  note r = kh_repD [OF rep]
  let ?sz = "sizes ! b"
  let ?n = "PAGE_SIZE div ?sz"
  let ?fs = "map (\<lambda>i. a + i * ?sz) (rev [0..<?n])"
  let ?pr = "(pagerefs h0 ! p)\<lparr>pageaddr_and_blocktype := MKPAB a b, nfree := ?n, freelist_offset := (?n - 1) * ?sz,
      next_samesize := sizebases h0 ! b, next_all := allbase h0\<rparr>"
  let ?m = "init_freelist a ?sz ?n (kmem h0)"
  let ?h = "h\<lparr>pagerefs := (pagerefs h0)[p := ?pr], kmem := ?m, sizebases := (sizebases h0)[b := Some p], allbase := Some p\<rparr>"
  note sz = sizes_ok [OF b]
  have sz0: "0 < ?sz" and n0: "0 < ?n" using sz(1,3) by simp_all
  obtain H where run: "setup_page p a b h = Inr ((), H)"
    and prp: "pagerefs H ! p = ?pr" and prj: "\<And>j. j \<noteq> p \<Longrightarrow> pagerefs H ! j = pagerefs h0 ! j"
    and H: "kmem H = ?m" "sizebases H = (sizebases h0)[b := Some p]" "allbase H = Some p" "pager H = q"
      "pagerefs_inuse H = w" "length (pagerefs H) = NPAGEREFS"
  proof
    show "setup_page p a b h = Inr ((), ?h)"
      using sz0 by (auto simp: setup_page_def h(1) Let_def pr_set_def list_all_iff)
  qed (use p(1) r(2) h(1) in simp_all)
  have other: "?m x = kmem h0 x" if "x < a \<or> a + PAGE_SIZE \<le> x" for x
    using init_freelist_other [OF n0, of x a ?sz] that sz(4) sz0 by simp
  have fresh: "pr_ok ?m ?pr ?fs" "PR_PAGEADDR ?pr = a" "PR_BLOCKTYPE ?pr = b" "page_blocks ?pr = set ?fs"
    by (rule pr_ok_fresh [OF a b refl]; simp)+
  have alls: "j \<noteq> p" if "j \<in> set alls" for j using that p(2) by blast
  have nx: "nxt_all H j = nxt_all h0 j" "nxt_same H j = nxt_same h0 j" if "j \<in> set alls" for j
    using prj [OF alls [OF that]] by (simp_all only: nxt_all_def nxt_same_def)
  have ok: "pr_ok (kmem H) (pagerefs H ! j) ((fl(p := ?fs)) j)" if j: "j \<in> set (p # alls)" for j
  proof (cases "j = p")
    case True
    then show ?thesis using fresh(1) prp H(1) by simp
  next
    case False
    with j have ja: "j \<in> set alls" by simp
    then have "\<forall>x \<in> set (fl j). ?m x = kmem h0 x" using away other by blast
    then show ?thesis using pr_ok_cong [OF r(11) [OF ja], of ?m "pagerefs H ! j"] False prj H(1) by simp
  qed
  have pa: "path (nxt_all H) (allbase H) (p # alls)"
  proof -
    have "path (nxt_all H) (allbase h0) alls = path (nxt_all h0) (allbase h0) alls"
      by (intro path_cong nx(1))
    then show ?thesis using r(5) prp H(3) by (simp add: nxt_all_def)
  qed
  have ps: "path (nxt_same H) (sizebases H ! c) ((same(b := p # same b)) c)" if c: "c < NSIZES" for c
  proof -
    have "path (nxt_same H) (sizebases h0 ! c) (same c) = path (nxt_same h0) (sizebases h0 ! c) (same c)"
      using r(10) [OF c] by (intro path_cong nx(2)) blast
    then show ?thesis using r(8) [OF c] prp r(4) c H(2) by (cases "c = b") (simp_all add: nxt_same_def)
  qed
  have btp: "bt H p = b" and pgp: "pg H p = a" using fresh(2,3) prp by simp_all
  have st: "distinct ((same(b := p # same b)) c) \<and>
      set ((same(b := p # same b)) c) = {j \<in> set (p # alls). bt H j = c}" if c: "c < NSIZES" for c
    using r(9,10) [OF c] alls p(2) btp prj by auto
  have notp: "a \<notin> pg h0 ` set alls" using r(12) q(3) by auto
  have inj: "inj_on (pg H) (set (p # alls))"
  proof -
    have "pg H ` set alls = pg h0 ` set alls" using alls prj by auto
    moreover have "inj_on (pg H) (set alls)" using r(13) alls prj by (simp add: inj_on_def)
    ultimately show ?thesis using notp pgp p(2) by simp
  qed
  have blk: "(pg H j, 1) \<in> pblocks (pager H)" if "j \<in> set (p # alls)" for j
    using that r(12) [of j] q(2) pgp alls prj H(4) by auto
  have "kh_used H = kh_used h" using H(5) h(1) by (simp add: kh_used_def)
  then have "kh_used H = set (p # alls)" using h(3) r(7) by simp
  then have rep': "kh_rep pinv pblocks H (p # alls) (same(b := p # same b)) (fl(p := ?fs))"
    unfolding kh_rep_def using r(4,6) h(2) q(1) pa ps st ok inj blk p(2) H(2-6) by simp
  have lv: "live_of pblocks H (insert p (set alls)) (fl(p := ?fs)) = live_of pblocks h0 (set alls) fl"
  proof (rule live_insert_page [OF rep p(2) p(1)])
    show "page_blocks (pagerefs H ! p) = set ?fs" using fresh(4) prp by simp
  qed (use prj q(2,3) pgp H(4) in simp_all)
  have "pr_size (pagerefs H ! p) = ?sz" unfolding pr_size_def btp ..
  then show ?thesis using run rep' lv other prj H(1,4) by auto
qed

text \<open>Putting a block back.\<close>

lemma dofree_ok:
  assumes rep: "kh_rep pinv pblocks h alls same fl" and p: "p \<in> set alls"
    and x: "x \<in> page_blocks (pagerefs h ! p)" "x \<notin> set (fl p)"
    and away: "\<forall>j \<in> set alls. j \<noteq> p \<longrightarrow> (\<forall>y \<in> set (fl j). y < x \<or> x + pr_size (pagerefs h ! p) \<le> y)"
  defines "h' \<equiv> dofree p (x - pg h p) h"
  shows "kh_rep pinv pblocks h' alls same (fl(p := x # fl p))"
    and "live_rest pblocks h' (set alls) (fl(p := x # fl p)) p = live_rest pblocks h (set alls) fl p"
    and "page_live (pagerefs h' ! p) (x # fl p) = page_live (pagerefs h ! p) (fl p) - {(x, pr_size (pagerefs h ! p))}"
    and "nfree (pagerefs h' ! p) = Suc (length (fl p))" and "pager h' = pager h"
    and "pageaddr_and_blocktype (pagerefs h' ! j) = pageaddr_and_blocktype (pagerefs h ! j)"
    and "y < x \<or> x + pr_size (pagerefs h ! p) \<le> y \<Longrightarrow> kmem h' y = kmem h y"
proof -
  let ?pr = "pagerefs h ! p"
  have ok: "pr_ok (kmem h) ?pr (fl p)" by (rule kh_repD(11) [OF rep p])
  let ?pr' = "?pr\<lparr>freelist_offset := x - PR_PAGEADDR ?pr, nfree := (nfree ?pr + 1) mod 2 ^ 16\<rparr>"
  let ?m = "free_mem ?pr x (kmem h)"
  have ge: "PR_PAGEADDR ?pr \<le> x" by (rule page_blocks_range(1) [OF pr_okD(1) [OF ok] x(1)])
  have h': "h' = h\<lparr>pagerefs := (pagerefs h)[p := ?pr'], kmem := ?m\<rparr>"
    unfolding h'_def using ge by (simp add: dofree_def Let_def pr_set_def free_mem_def pr_size_def)
  note put = pr_ok_put [OF ok x]
  have sz: "0 < pr_size ?pr" using sizes_ok(1) [OF pr_okD(1) [OF ok]] by (simp add: pr_size_def)
  have other: "?m y = kmem h y" if "j \<in> set alls" "j \<noteq> p" "y \<in> set (fl j)" for j y
    by (rule free_mem_other [OF sz]) (use away that in blast)
  have u: "kh_rep pinv pblocks h' alls same (fl(p := x # fl p))"
    "live_rest pblocks h' (set alls) (fl(p := x # fl p)) p = live_rest pblocks h (set alls) fl p"
    "pagerefs h' ! p = ?pr'"
    unfolding h' by (rule kh_rep_upd [OF rep p _ _ _ put other]; simp)+
  show "kh_rep pinv pblocks h' alls same (fl(p := x # fl p))" by (rule u(1))
  show "live_rest pblocks h' (set alls) (fl(p := x # fl p)) p = live_rest pblocks h (set alls) fl p" by (rule u(2))
  have prp: "pagerefs h' ! p = ?pr'" using u(3) by simp
  show "page_live (pagerefs h' ! p) (x # fl p) = page_live ?pr (fl p) - {(x, pr_size ?pr)}"
    unfolding prp page_live_def using page_blocks_cong [of ?pr' ?pr] by auto
  show "nfree (pagerefs h' ! p) = Suc (length (fl p))" using pr_okD(7) [OF put] prp by simp
  show "pager h' = pager h" by (simp add: h')
  show "pageaddr_and_blocktype (pagerefs h' ! j) = pageaddr_and_blocktype (pagerefs h ! j)"
    using prp by (cases "j = p") (simp_all add: h')
  show "y < x \<or> x + pr_size ?pr \<le> y \<Longrightarrow> kmem h' y = kmem h y"
    using free_mem_other [OF sz] by (simp add: h')
qed

lemma nth_list_update': "xs[i := x] ! j = (if i = j \<and> i < length xs then x else xs ! j)"
  by (cases "i < length xs"; cases "i = j") (simp_all add: list_update_beyond)

text \<open>Heaps that differ in their page lists only.\<close>

definition links_only :: "'p kheap \<Rightarrow> 'p kheap \<Rightarrow> bool" where
  "links_only h h' \<longleftrightarrow> kmem h' = kmem h \<and> pager h' = pager h \<and> pagerefs_inuse h' = pagerefs_inuse h \<and>
     length (pagerefs h') = length (pagerefs h) \<and> length (sizebases h') = length (sizebases h) \<and>
     (\<forall>j. pageaddr_and_blocktype (pagerefs h' ! j) = pageaddr_and_blocktype (pagerefs h ! j) \<and>
        freelist_offset (pagerefs h' ! j) = freelist_offset (pagerefs h ! j) \<and>
        nfree (pagerefs h' ! j) = nfree (pagerefs h ! j))"

lemma links_only_refl: "links_only h h"
  by (simp add: links_only_def)

lemma links_only_trans: "links_only h h' \<Longrightarrow> links_only h' h'' \<Longrightarrow> links_only h h''"
  by (simp add: links_only_def)

lemma links_onlyD:
  assumes "links_only h h'"
  shows "pg h' j = pg h j" and "bt h' j = bt h j" and "pr_ok m (pagerefs h ! j) fs \<Longrightarrow> pr_ok m (pagerefs h' ! j) fs"
    and "page_live (pagerefs h' ! j) fs = page_live (pagerefs h ! j) fs" and "pr_size (pagerefs h' ! j) = pr_size (pagerefs h ! j)"
    and "kh_used h' = kh_used h"
proof -
  have e: "pageaddr_and_blocktype (pagerefs h' ! j) = pageaddr_and_blocktype (pagerefs h ! j)"
    using assms by (simp add: links_only_def)
  then show p: "pg h' j = pg h j" and b: "bt h' j = bt h j" by (simp_all add: PR_PAGEADDR_def PR_BLOCKTYPE_def)
  from page_blocks_cong [OF this] show "page_live (pagerefs h' ! j) fs = page_live (pagerefs h ! j) fs"
    and "pr_size (pagerefs h' ! j) = pr_size (pagerefs h ! j)" by (simp_all add: page_live_def)
  show "pr_ok m (pagerefs h ! j) fs \<Longrightarrow> pr_ok m (pagerefs h' ! j) fs"
    using assms pr_ok_cong [of m "pagerefs h ! j" fs m "pagerefs h' ! j"] by (simp add: links_only_def)
  show "kh_used h' = kh_used h" using assms by (simp add: links_only_def kh_used_def)
qed

lemma remove_samesize_ok:
  assumes ys: "path (nxt_same h) (sizebases h ! b) ys" "distinct ys" "p \<in> set ys" "length ys \<le> NPAGEREFS"
    and b: "b < length (sizebases h)" and lt: "\<And>q. q \<in> set ys \<Longrightarrow> q < length (pagerefs h)"
  shows "\<exists>h'. remove_samesize p b h = Inr ((), h') \<and> links_only h h' \<and> nxt_all h' = nxt_all h \<and> allbase h' = allbase h \<and>
    path (nxt_same h') (sizebases h' ! b) (remove1 p ys) \<and> (\<forall>c. c \<noteq> b \<longrightarrow> sizebases h' ! c = sizebases h ! c) \<and>
    (\<forall>q. q \<notin> set ys \<longrightarrow> nxt_same h' q = nxt_same h q)"
proof -
  obtain us vs where u: "ys = us @ p # vs" "p \<notin> set us"
    "unlink_find (Suc NPAGEREFS) (nxt_same h) None (sizebases h ! b) p = Inr (Some (if us = [] then None else Some (last us)))"
    using unlink_find_spec [OF ys(1,3), of "Suc NPAGEREFS" None] ys(4) by auto
  have rem: "remove1 p ys = us @ vs" using u(1,2) by (simp add: remove1_append)
  note up = unlink_path [OF ys(1,2) u(1)]
  show ?thesis
  proof (cases "us = []")
    case True
    let ?h = "h\<lparr>sizebases := (sizebases h)[b := nxt_same h p]\<rparr>"
    have "remove_samesize p b h = Inr ((), ?h)" using u(3) True by (simp add: remove_samesize_def)
    moreover have "nxt_same ?h = nxt_same h" "nxt_all ?h = nxt_all h"
      by (simp_all add: nxt_same_def nxt_all_def fun_eq_iff)
    ultimately show ?thesis using True rem up(1) b by (auto simp: links_only_def)
  next
    case False
    let ?q = "last us"
    let ?h = "pr_set ?q (\<lambda>r. r\<lparr>next_samesize := nxt_same h p\<rparr>) h"
    have q: "?q < length (pagerefs h)" "?q \<in> set ys" using lt [of ?q] False u(1) by simp_all
    have "remove_samesize p b h = Inr ((), ?h)" using u(3) False by (simp add: remove_samesize_def)
    moreover have "nxt_same ?h = (nxt_same h)(?q := nxt_same h p)" "nxt_all ?h = nxt_all h"
      using q(1) by (auto simp: nxt_same_def nxt_all_def pr_set_def fun_eq_iff nth_list_update')
    moreover have "links_only h ?h" by (auto simp: links_only_def pr_set_def nth_list_update')
    moreover have "sizebases ?h = sizebases h" "allbase ?h = allbase h" by (simp_all add: pr_set_def)
    ultimately show ?thesis using False rem up(2) q(2) by auto
  qed
qed

lemma remove_all_ok:
  assumes ys: "path (nxt_all h) (allbase h) ys" "distinct ys" "p \<in> set ys" "length ys \<le> NPAGEREFS"
    and lt: "\<And>q. q \<in> set ys \<Longrightarrow> q < length (pagerefs h)"
  shows "\<exists>h'. remove_all p h = Inr ((), h') \<and> links_only h h' \<and> nxt_same h' = nxt_same h \<and>
    sizebases h' = sizebases h \<and> path (nxt_all h') (allbase h') (remove1 p ys)"
proof -
  obtain us vs where u: "ys = us @ p # vs" "p \<notin> set us"
    "unlink_find (Suc NPAGEREFS) (nxt_all h) None (allbase h) p = Inr (Some (if us = [] then None else Some (last us)))"
    using unlink_find_spec [OF ys(1,3), of "Suc NPAGEREFS" None] ys(4) by auto
  have rem: "remove1 p ys = us @ vs" using u(1,2) by (simp add: remove1_append)
  note up = unlink_path [OF ys(1,2) u(1)]
  show ?thesis
  proof (cases "us = []")
    case True
    let ?h = "h\<lparr>allbase := nxt_all h p\<rparr>"
    have "remove_all p h = Inr ((), ?h)" using u(3) True by (simp add: remove_all_def)
    moreover have "nxt_same ?h = nxt_same h" "nxt_all ?h = nxt_all h"
      by (simp_all add: nxt_same_def nxt_all_def fun_eq_iff)
    ultimately show ?thesis using True rem up(1) by (auto simp: links_only_def)
  next
    case False
    let ?q = "last us"
    let ?h = "pr_set ?q (\<lambda>r. r\<lparr>next_all := nxt_all h p\<rparr>) h"
    have q: "?q < length (pagerefs h)" using lt [of ?q] False u(1) by simp
    have "remove_all p h = Inr ((), ?h)" using u(3) False by (simp add: remove_all_def)
    moreover have "nxt_all ?h = (nxt_all h)(?q := nxt_all h p)" "nxt_same ?h = nxt_same h"
      using q by (auto simp: nxt_same_def nxt_all_def pr_set_def fun_eq_iff nth_list_update')
    moreover have "links_only h ?h" by (auto simp: links_only_def pr_set_def nth_list_update')
    moreover have "sizebases ?h = sizebases h" "allbase ?h = allbase h" by (simp_all add: pr_set_def)
    ultimately show ?thesis using False rem up(2) by auto
  qed
qed

text \<open>Releasing a page whose blocks are all free.\<close>

definition release_page :: "(nat \<Rightarrow> ('p, unit) kern) \<Rightarrow> nat \<Rightarrow> ('p kheap, int) kern" where
  "release_page pfree p h =
     kbind (remove_lists p (bt h p)) (\<lambda>_.
     kbind (in_pager (pfree (pg h p))) (\<lambda>_.
     kbind (freepageref p) (\<lambda>_. kret 0))) h"

lemma live_remove_page:
  assumes p: "p \<in> set alls" "distinct alls"
    and h': "\<And>j. page_live (pagerefs h' ! j) (fl j) = page_live (pagerefs h ! j) (fl j)" "\<And>j. pg h' j = pg h j"
      "pblocks (pager h') = pblocks (pager h) - {(pg h p, 1)}"
    and uniq: "\<And>n. (pg h p, n) \<in> pblocks (pager h) \<Longrightarrow> n = 1"
    and full: "page_blocks (pagerefs h ! p) \<subseteq> set (fl p)"
  shows "live_of pblocks h' (set (remove1 p alls)) fl = live_of pblocks h (set alls) fl"
proof -
  have J: "set alls = insert p (set (remove1 p alls))" "set (remove1 p alls) = set alls - {p}"
    using p by auto
  have none: "page_live (pagerefs h ! p) (fl p) = {}" using full by (auto simp: page_live_def)
  have big: "{(a, n * PAGE_SIZE) | a n. (a, n) \<in> pblocks (pager h') \<and> a \<notin> pg h' ` set (remove1 p alls)} =
      {(a, n * PAGE_SIZE) | a n. (a, n) \<in> pblocks (pager h) \<and> a \<notin> pg h ` set alls}"
  proof -
    have img: "pg h ` set alls = insert (pg h p) (pg h ` set (remove1 p alls))" by (subst J(1)) simp
    have "(a, n) \<in> pblocks (pager h) - {(pg h p, 1)} \<and> a \<notin> X \<longleftrightarrow>
        (a, n) \<in> pblocks (pager h) \<and> a \<notin> insert (pg h p) X" for a n X using uniq by auto
    then show ?thesis unfolding h'(2,3) img by auto
  qed
  have "(\<Union>j \<in> set alls. page_live (pagerefs h ! j) (fl j)) = (\<Union>j \<in> set (remove1 p alls). page_live (pagerefs h ! j) (fl j))"
    using none J(1) by auto
  then show ?thesis unfolding live_of_def big h'(1) by simp
qed

lemma release_page_ok:
  assumes rep: "kh_rep pinv pblocks h alls same fl" and p: "p \<in> set alls"
    and full: "page_blocks (pagerefs h ! p) \<subseteq> set (fl p)"
    and free: "pfree (pg h p) (pager h) = Inr ((), q)" "pinv q" "pblocks q = pblocks (pager h) - {(pg h p, 1)}"
    and uniq: "\<And>n. (pg h p, n) \<in> pblocks (pager h) \<Longrightarrow> n = 1"
  shows "\<exists>h'. release_page pfree p h = Inr (0, h') \<and>
    kh_rep pinv pblocks h' (remove1 p alls) (same(bt h p := remove1 p (same (bt h p)))) fl \<and>
    live_of pblocks h' (set (remove1 p alls)) fl = live_of pblocks h (set alls) fl \<and> kmem h' = kmem h \<and>
    (\<forall>j. pr_size (pagerefs h' ! j) = pr_size (pagerefs h ! j))"
proof -
  note r = kh_repD [OF rep] and bd = kh_rep_bounds [OF rep]
  let ?b = "bt h p"
  have b: "?b < NSIZES" using pr_okD(1) [OF r(11) [OF p]] .
  have inb: "p \<in> set (same ?b)" using r(10) [OF b] p by simp
  have lt: "j < length (pagerefs h)" if "j \<in> set alls" for j using bd(1) [OF that] r(2) by simp
  obtain h1 where h1: "remove_samesize p ?b h = Inr ((), h1)" "links_only h h1" "nxt_all h1 = nxt_all h" "allbase h1 = allbase h"
    "path (nxt_same h1) (sizebases h1 ! ?b) (remove1 p (same ?b))" "\<forall>c. c \<noteq> ?b \<longrightarrow> sizebases h1 ! c = sizebases h ! c"
    "\<forall>q. q \<notin> set (same ?b) \<longrightarrow> nxt_same h1 q = nxt_same h q"
    using remove_samesize_ok [OF r(8) [OF b] r(9) [OF b] inb bd(3) [OF b]] b r(4) r(10) [OF b] lt by auto
  have len1: "length (pagerefs h1) = length (pagerefs h)" using h1(2) by (simp add: links_only_def)
  obtain h2 where h2: "remove_all p h1 = Inr ((), h2)" "links_only h1 h2" "nxt_same h2 = nxt_same h1"
    "sizebases h2 = sizebases h1" "path (nxt_all h2) (allbase h2) (remove1 p alls)"
    using remove_all_ok [of h1 alls p] r(5,6) p bd(2) lt h1(3,4) len1 by auto
  note lo = links_only_trans [OF h1(2) h2(2)]
  note ld = links_onlyD [OF lo]
  have lists: "remove_lists p ?b h = Inr ((), h2)" using h1(1) h2(1) b by (simp add: remove_lists_def)
  have pager2: "pager h2 = pager h" and inuse2: "pagerefs_inuse h2 = pagerefs_inuse h" and kmem2: "kmem h2 = kmem h"
    and len2: "length (pagerefs h2) = NPAGEREFS" "length (sizebases h2) = NSIZES"
    using lo r(2,4) by (simp_all add: links_only_def)
  let ?h3 = "h2\<lparr>pager := q\<rparr>"
  have pf: "in_pager (pfree (pg h p)) h2 = Inr ((), ?h3)" using free(1) pager2 by (simp add: in_pager_def kzoom_def)
  have used3: "kh_used ?h3 = set alls" using r(7) ld(6) by (simp add: kh_used_def)
  obtain w where w: "freepageref p ?h3 = Inr ((), ?h3\<lparr>pagerefs_inuse := w\<rparr>)" "length w = INUSE_WORDS"
    "kh_used (?h3\<lparr>pagerefs_inuse := w\<rparr>) = set alls - {p}"
    using freepageref_ok [of ?h3 p] used3 p inuse2 r(3) by auto
  let ?h4 = "?h3\<lparr>pagerefs_inuse := w\<rparr>"
  have run: "release_page pfree p h = Inr (0, ?h4)"
    using lists pf w(1) by (simp add: release_page_def)
  have links4: "nxt_all ?h4 = nxt_all h2" "nxt_same ?h4 = nxt_same h2" by (simp_all add: nxt_all_def nxt_same_def fun_eq_iff)
  have sm: "path (nxt_same ?h4) (sizebases ?h4 ! c) ((same(?b := remove1 p (same ?b))) c) \<and>
      distinct ((same(?b := remove1 p (same ?b))) c) \<and>
      set ((same(?b := remove1 p (same ?b))) c) = {j \<in> set (remove1 p alls). bt ?h4 j = c}" if c: "c < NSIZES" for c
  proof (cases "c = ?b")
    case True
    then show ?thesis using h1(5) h2(3,4) links4 r(9,10) [OF b] r(6) ld(2) by auto
  next
    case False
    have "path (nxt_same h1) (sizebases h ! c) (same c) = path (nxt_same h) (sizebases h ! c) (same c)"
      using h1(7) r(10) [OF b] r(10) [OF c] False by (intro path_cong) auto
    then show ?thesis using False h1(6) h2(3,4) links4 r(8,9,10) [OF c] r(6) ld(2) by auto
  qed
  have ok4: "pr_ok (kmem ?h4) (pagerefs ?h4 ! j) (fl j) \<and> (pg ?h4 j, 1) \<in> pblocks (pager ?h4)"
    if j: "j \<in> set (remove1 p alls)" for j
  proof -
    from j r(6) have ja: "j \<in> set alls" "j \<noteq> p" by auto
    then have "pg h j \<noteq> pg h p" using r(13) p by (auto simp: inj_on_def)
    then show ?thesis using ld(1,3) r(11,12) [OF ja(1)] kmem2 free(3) by simp
  qed
  have inj4: "inj_on (pg ?h4) (set (remove1 p alls))"
    using r(13) ld(1) set_remove1_subset [of p alls] by (auto simp: inj_on_def)
  have "kh_rep pinv pblocks ?h4 (remove1 p alls) (same(?b := remove1 p (same ?b))) fl"
    unfolding kh_rep_def
  proof (intro conjI ballI allI impI)
    show "pinv (pager ?h4)" using free(2) by simp
    show "path (nxt_all ?h4) (allbase ?h4) (remove1 p alls)" using h2(5) links4 by simp
    show "set (remove1 p alls) = kh_used ?h4" using w(3) r(6) by simp
  qed (use sm ok4 inj4 len2 w(2) r(6) in simp_all)
  moreover have "live_of pblocks ?h4 (set (remove1 p alls)) fl = live_of pblocks h (set alls) fl"
    by (rule live_remove_page [of p alls _ fl h pblocks]) (use p r(6) uniq full ld(1,4) free(3) in simp_all)
  ultimately show ?thesis using run ld(5) kmem2 by auto
qed

lemma blocktype_ok:
  assumes "sz \<le> 2048"
  shows "\<exists>b < NSIZES. blocktype sz = Inr b \<and> sz \<le> sizes ! b"
proof -
  have "\<exists>b. blocktype sz = Inr b \<and> b < 8 \<and> sz \<le> sizes ! b"
    using assms by (simp add: blocktype_def sizes_def)
  then show ?thesis by blast
qed

text \<open>Reading a live block through an operation that leaves it alone.\<close>

definition keeps :: "(nat \<times> nat) set \<Rightarrow> 'p kheap \<Rightarrow> 'p kheap \<Rightarrow> bool" where
  "keeps L h h' \<longleftrightarrow> (\<forall>a n x. (a, n) \<in> L \<longrightarrow> a \<le> x \<longrightarrow> x < a + n \<longrightarrow> kmem h' x = kmem h x)"

lemma keeps_Diff: "keeps (L - {b}) h h' \<longleftrightarrow>
    (\<forall>a n x. (a, n) \<in> L \<longrightarrow> (a, n) \<noteq> b \<longrightarrow> a \<le> x \<longrightarrow> x < a + n \<longrightarrow> kmem h' x = kmem h x)"
  unfolding keeps_def by blast

lemma keeps_same: "kmem h' = kmem h \<Longrightarrow> keeps L h h'"
  by (simp add: keeps_def)

context page_alloc
begin

lemma pages_apart:
  assumes "kh_rep inv blocks h alls same fl" and "j \<in> set alls" and "k \<in> set alls" and "j \<noteq> k"
  shows "pg h j + PAGE_SIZE \<le> pg h k \<or> pg h k + PAGE_SIZE \<le> pg h j"
proof -
  note r = kh_repD [OF assms(1)]
  have "pg h j \<noteq> pg h k" using r(13) assms(2-4) by (auto simp: inj_on_def)
  then show ?thesis using block_disjoint [OF r(1) r(12) [OF assms(2)] r(12) [OF assms(3)]] by simp
qed

lemma live_cases:
  assumes rep: "kh_rep inv blocks h alls same fl" and "(a, n) \<in> live_of blocks h (set alls) fl"
  obtains (sub) j where "j \<in> set alls" and "a \<in> page_blocks (pagerefs h ! j)" and "a \<notin> set (fl j)"
      and "n = pr_size (pagerefs h ! j)" and "pg h j \<le> a" and "a + n \<le> pg h j + PAGE_SIZE" and "0 < n" and "n \<le> 2048"
  | (big) m where "(a, m) \<in> blocks (pager h)" and "n = m * PAGE_SIZE" and "0 < m"
      and "\<And>j. j \<in> set alls \<Longrightarrow> pg h j + PAGE_SIZE \<le> a \<or> a + n \<le> pg h j"
proof -
  note r = kh_repD [OF rep]
  from assms(2) consider (s) j where "j \<in> set alls" "(a, n) \<in> page_live (pagerefs h ! j) (fl j)"
    | (b) m where "(a, m) \<in> blocks (pager h)" "n = m * PAGE_SIZE" "a \<notin> pg h ` set alls"
    unfolding live_of_def by blast
  then show thesis
  proof cases
    case s
    then have a: "a \<in> page_blocks (pagerefs h ! j)" "a \<notin> set (fl j)" "n = pr_size (pagerefs h ! j)"
      by (auto simp: page_live_def)
    have t: "bt h j < NSIZES" by (rule pr_okD(1) [OF r(11) [OF s(1)]])
    note rg = page_blocks_range [OF t a(1)]
    have "2 \<le> PAGE_SIZE div n" "0 < n" using sizes_ok(1,3) [OF t] a(3) by (simp_all add: pr_size_def)
    then have "2 * n \<le> PAGE_SIZE" by (simp add: less_eq_div_iff_mult_less_eq)
    then show thesis using sub [OF s(1) a] rg a(3) \<open>0 < n\<close> by simp
  next
    case b
    have "pg h j + PAGE_SIZE \<le> a \<or> a + n \<le> pg h j" if "j \<in> set alls" for j
      using block_disjoint [OF r(1) r(12) [OF that] b(1)] b(2,3) that by auto
    then show thesis using big [OF b(1,2)] block_range [OF r(1) b(1)] by blast
  qed
qed

lemma live_of_disjoint:
  assumes rep: "kh_rep inv blocks h alls same fl" and x: "(a, n) \<in> live_of blocks h (set alls) fl"
    and y: "(b, m) \<in> live_of blocks h (set alls) fl" and ne: "(a, n) \<noteq> (b, m)"
  shows "a + n \<le> b \<or> b + m \<le> a"
proof (rule live_cases [OF rep x])
  fix j
  assume j: "j \<in> set alls" "a \<in> page_blocks (pagerefs h ! j)" "n = pr_size (pagerefs h ! j)"
    "pg h j \<le> a" "a + n \<le> pg h j + PAGE_SIZE"
  show ?thesis
  proof (rule live_cases [OF rep y])
    fix k
    assume k: "k \<in> set alls" "b \<in> page_blocks (pagerefs h ! k)" "m = pr_size (pagerefs h ! k)"
      "pg h k \<le> b" "b + m \<le> pg h k + PAGE_SIZE"
    show ?thesis
    proof (cases "j = k")
      case True
      with j k ne have "a \<noteq> b" by simp
      with True j k page_blocks_disjoint [of a "pagerefs h ! j" b] show ?thesis by simp
    next
      case False
      from pages_apart [OF rep j(1) k(1) False] j k show ?thesis by linarith
    qed
  next
    fix l
    assume "m = l * PAGE_SIZE" and away: "\<And>j. j \<in> set alls \<Longrightarrow> pg h j + PAGE_SIZE \<le> b \<or> b + m \<le> pg h j"
    from away [OF j(1)] j show ?thesis by linarith
  qed
next
  fix l
  assume l: "(a, l) \<in> blocks (pager h)" "n = l * PAGE_SIZE"
    and away: "\<And>j. j \<in> set alls \<Longrightarrow> pg h j + PAGE_SIZE \<le> a \<or> a + n \<le> pg h j"
  show ?thesis
  proof (rule live_cases [OF rep y])
    fix k
    assume "k \<in> set alls" "pg h k \<le> b" "b + m \<le> pg h k + PAGE_SIZE"
    with away [of k] show ?thesis by linarith
  next
    fix l'
    assume "(b, l') \<in> blocks (pager h)" "m = l' * PAGE_SIZE"
    with l ne block_disjoint [OF kh_repD(1) [OF rep] l(1)] show ?thesis by blast
  qed
qed

lemma kh_live_ok:
  assumes "kh_inv inv blocks h" and "(a, n) \<in> kh_live blocks h"
  shows "0 < a" and "0 < n" and "a + n \<le> 2 ^ 32"
proof -
  let ?J = "kh_all h"
  have rep: "kh_rep inv blocks h ?J (kh_same h) (kh_free h)" using assms(1) by (simp add: kh_inv_def)
  note r = kh_repD [OF rep]
  show "0 < a" and "0 < n" and "a + n \<le> 2 ^ 32"
    using assms(2) unfolding kh_live_def
    by (rule live_cases [OF rep]; use pr_okD(2,3) [OF r(11)] block_range [OF r(1)] in fastforce)+
qed

lemma kh_live_disjoint:
  assumes "kh_inv inv blocks h" and "(a, n) \<in> kh_live blocks h" and "(b, m) \<in> kh_live blocks h" and "(a, n) \<noteq> (b, m)"
  shows "a + n \<le> b \<or> b + m \<le> a"
  using assms live_of_disjoint unfolding kh_inv_def kh_live_def by blast

lemma subpage_kmalloc_new_page:
  assumes rep: "kh_rep inv blocks h alls same fl"
    and part: "\<And>j. j \<in> set alls \<Longrightarrow> length (fl j) < PAGE_SIZE div pr_size (pagerefs h ! j)"
    and b: "b < NSIZES"
    and run: "allocpageref h = Inr (Some p, h\<lparr>pagerefs_inuse := w\<rparr>)" "p < NPAGEREFS" "p \<notin> kh_used h"
      "length w = INUSE_WORDS" "kh_used (h\<lparr>pagerefs_inuse := w\<rparr>) = insert p (kh_used h)"
    and al: "alloc 1 (pager h) = Inr (a, q)" "0 < a" "inv q" "(a, 1) \<notin> blocks (pager h)"
      "blocks q = insert (a, 1) (blocks (pager h))"
  shows "\<exists>x h'. kbind (setup_page p a b) (\<lambda>_. doalloc p) (h\<lparr>pagerefs_inuse := w, pager := q\<rparr>) = Inr (x, h') \<and>
    x \<noteq> 0 \<and> kh_inv inv blocks h' \<and> (x, sizes ! b) \<notin> live_of blocks h (set alls) fl \<and>
    kh_live blocks h' = insert (x, sizes ! b) (live_of blocks h (set alls) fl) \<and>
    keeps (live_of blocks h (set alls) fl) h h'"
proof -
  note r = kh_repD [OF rep]
  let ?L = "live_of blocks h (set alls) fl"
  let ?n = "PAGE_SIZE div sizes ! b"
  let ?fs = "map (\<lambda>i. a + i * sizes ! b) (rev [0..<?n])"
  have aq: "(a, 1) \<in> blocks q" using al(5) by simp
  note rg = block_range [OF al(3) aq]
  have new: "(a, n) \<notin> blocks (pager h)" for n
    using al(4,5) block_unique [OF al(3) aq, of n] by auto
  have away: "y < a \<or> a + PAGE_SIZE \<le> y" if "j \<in> set alls" "y \<in> page_blocks (pagerefs h ! j)" for j y
  proof -
    have "(pg h j, 1) \<in> blocks q" and "pg h j \<noteq> a" using r(12) [OF that(1)] al(5) new by auto
    with block_disjoint [OF al(3) aq] have "a + PAGE_SIZE \<le> pg h j \<or> pg h j + PAGE_SIZE \<le> a" by fastforce
    moreover have t: "bt h j < NSIZES" by (rule pr_okD(1) [OF r(11) [OF that(1)]])
    moreover have "0 < pr_size (pagerefs h ! j)" using sizes_ok(1) [OF t] by (simp add: pr_size_def)
    ultimately show ?thesis using page_blocks_range [OF t that(2)] by linarith
  qed
  have awayf: "\<forall>j \<in> set alls. \<forall>y \<in> set (fl j). y < a \<or> a + PAGE_SIZE \<le> y"
    using away pr_okD(6) [OF r(11)] by blast
  have pn: "p \<notin> set alls" using run(3) r(7) by simp
  have ra: "a mod PAGE_SIZE = 0" "a + PAGE_SIZE \<le> 2 ^ 32" using rg by simp_all
  let ?h0 = "h\<lparr>pagerefs_inuse := w, pager := q\<rparr>"
  have used0: "kh_used ?h0 = insert p (kh_used h)" using run(5) by (simp add: kh_used_def)
  obtain h1 where h1: "setup_page p a b ?h0 = Inr ((), h1)"
    "kh_rep inv blocks h1 (p # alls) (same(b := p # same b)) (fl(p := ?fs))"
    "live_of blocks h1 (set (p # alls)) (fl(p := ?fs)) = ?L" "pager h1 = q" "pr_size (pagerefs h1 ! p) = sizes ! b"
    "\<forall>x. x < a \<or> a + PAGE_SIZE \<le> x \<longrightarrow> kmem h1 x = kmem h x" "\<forall>j. j \<noteq> p \<longrightarrow> pagerefs h1 ! j = pagerefs h ! j"
    using setup_page_ok [OF rep run(2) pn b refl run(4) used0 al(3,5) new al(2) ra awayf] by blast
  have n2: "2 \<le> ?n" by (rule sizes_ok(3) [OF b])
  then obtain m where m: "?n = Suc m" by (cases ?n) auto
  let ?x = "a + m * sizes ! b"
  let ?xs = "map (\<lambda>i. a + i * sizes ! b) (rev [0..<m])"
  have fs: "(fl(p := ?fs)) p = ?x # ?xs" by (simp add: m)
  obtain h2 where h2: "doalloc p h1 = Inr (?x, h2)"
    "kh_rep inv blocks h2 (p # alls) (same(b := p # same b)) ((fl(p := ?fs))(p := ?xs))"
    "live_of blocks h2 (set (p # alls)) ((fl(p := ?fs))(p := ?xs)) =
       insert (?x, pr_size (pagerefs h1 ! p)) (live_of blocks h1 (set (p # alls)) (fl(p := ?fs)))"
    "kmem h2 = kmem h1" "\<forall>j. pageaddr_and_blocktype (pagerefs h2 ! j) = pageaddr_and_blocktype (pagerefs h1 ! j)"
    using doalloc_ok [OF h1(2) list.set_intros(1) fs] by blast
  have psz: "pr_size (pagerefs h2 ! j) = pr_size (pagerefs h1 ! j)" for j
    using h2(5) by (simp add: pr_size_def PR_BLOCKTYPE_def)
  have part2: "length (((fl(p := ?fs))(p := ?xs)) j) < PAGE_SIZE div pr_size (pagerefs h2 ! j)" if "j \<in> set (p # alls)" for j
  proof (cases "j = p")
    case True
    then show ?thesis using h1(5) m by (simp add: psz)
  next
    case False
    with that have "j \<in> set alls" by simp
    from part [OF this] show ?thesis using False h1(7) by (simp add: psz)
  qed
  then have "\<forall>j \<in> set (p # alls). length (((fl(p := ?fs))(p := ?xs)) j) < PAGE_SIZE div pr_size (pagerefs h2 ! j)" by blast
  note inv2 = kh_invI [OF h2(2) this]
  have kl: "kh_live blocks h2 = insert (?x, sizes ! b) ?L"
    using trans [OF inv2(2) h2(3)] unfolding h1(3,5) .
  have fresh: "?x + sizes ! b \<le> c \<or> c + k \<le> ?x" "c + k \<le> a \<or> a + PAGE_SIZE \<le> c" if "(c, k) \<in> ?L" for c k
  proof -
    show apart: "c + k \<le> a \<or> a + PAGE_SIZE \<le> c"
    proof (rule live_cases [OF rep that])
      fix j
      assume "j \<in> set alls" "c \<in> page_blocks (pagerefs h ! j)" "k = pr_size (pagerefs h ! j)" "pg h j \<le> c" "c + k \<le> pg h j + PAGE_SIZE"
      moreover from this(1) have "(pg h j, 1) \<in> blocks q" and "pg h j \<noteq> a" using r(12) al(5) new by auto
      with block_disjoint [OF al(3) aq] have "a + PAGE_SIZE \<le> pg h j \<or> pg h j + PAGE_SIZE \<le> a" by fastforce
      ultimately show ?thesis by linarith
    next
      fix l
      assume "(c, l) \<in> blocks (pager h)" "k = l * PAGE_SIZE"
      with block_disjoint [OF al(3) aq, of c l] al(5) new show ?thesis by auto
    qed
    have "m * sizes ! b + sizes ! b \<le> PAGE_SIZE" using block_in_page [OF b, of m] m by simp
    with apart show "?x + sizes ! b \<le> c \<or> c + k \<le> ?x" by linarith
  qed
  have sz: "0 < sizes ! b" using sizes_ok(1) [OF b] by simp
  have "(?x, sizes ! b) \<notin> ?L" using fresh(1) sz by fastforce
  moreover have "keeps ?L h h2"
    unfolding keeps_def using h2(4) h1(6) fresh(2) by (metis (no_types, lifting) leD le_trans not_less)
  ultimately show ?thesis using h1(1) h2(1) inv2(1) kl al(2) by auto
qed

lemma subpage_kmalloc_ok:
  assumes h: "kh_inv inv blocks h" and sz: "sz \<le> 2048"
  shows "\<exists>x h'. subpage_kmalloc alloc sz h = Inr (x, h') \<and> kh_inv inv blocks h' \<and> keeps (kh_live blocks h) h h' \<and>
    (if x = 0 then kh_live blocks h' = kh_live blocks h
     else \<exists>n \<ge> sz. (x, n) \<notin> kh_live blocks h \<and> kh_live blocks h' = insert (x, n) (kh_live blocks h))"
proof -
  let ?alls = "kh_all h" and ?same = "kh_same h" and ?fl = "kh_free h"
  have rep: "kh_rep inv blocks h ?alls ?same ?fl"
    and part: "\<And>j. j \<in> set ?alls \<Longrightarrow> length (?fl j) < PAGE_SIZE div pr_size (pagerefs h ! j)"
    using h by (simp_all add: kh_inv_def)
  note r = kh_repD [OF rep]
  have L: "kh_live blocks h = live_of blocks h (set ?alls) ?fl" by (simp add: kh_live_def)
  obtain b where b: "b < NSIZES" "blocktype sz = Inr b" "sz \<le> sizes ! b" using blocktype_ok [OF sz] by blast
  consider (some) p where "p \<in> set (?same b)" "nfree (pagerefs h ! p) > 0"
      "find_samesize (Suc NPAGEREFS) h b (sizebases h ! b) = Inr (Some p)"
    | (none) "find_samesize (Suc NPAGEREFS) h b (sizebases h ! b) = Inr None"
    using find_samesize_spec [OF r(8) [OF b(1)], of "Suc NPAGEREFS" b] kh_rep_bounds(3) [OF rep b(1)] r(10) [OF b(1)]
    by fastforce
  then show ?thesis
  proof cases
    case some
    then have p: "p \<in> set ?alls" "bt h p = b" using r(10) [OF b(1)] by auto
    note ok = r(11) [OF p(1)]
    obtain x xs where fl: "?fl p = x # xs" using pr_okD(7) [OF ok] some(2) by (cases "?fl p") auto
    obtain h' where h': "doalloc p h = Inr (x, h')" "kh_rep inv blocks h' ?alls ?same (?fl(p := xs))"
      "live_of blocks h' (set ?alls) (?fl(p := xs)) = insert (x, pr_size (pagerefs h ! p)) (kh_live blocks h)"
      "kmem h' = kmem h" "\<forall>j. pageaddr_and_blocktype (pagerefs h' ! j) = pageaddr_and_blocktype (pagerefs h ! j)"
      using doalloc_ok [OF rep p(1) fl] L by metis
    have psz: "pr_size (pagerefs h' ! j) = pr_size (pagerefs h ! j)" for j
      using h'(5) by (simp add: pr_size_def PR_BLOCKTYPE_def)
    have "\<forall>j \<in> set ?alls. length ((?fl(p := xs)) j) < PAGE_SIZE div pr_size (pagerefs h' ! j)"
    proof
      fix j
      assume "j \<in> set ?alls"
      from part [OF this] fl show "length ((?fl(p := xs)) j) < PAGE_SIZE div pr_size (pagerefs h' ! j)"
        by (cases "j = p") (simp_all add: psz)
    qed
    note i = kh_invI [OF h'(2) this]
    have xb: "x \<in> page_blocks (pagerefs h ! p)" using pr_okD(6) [OF ok] fl by simp
    have "x \<noteq> 0" using page_blocks_range(1) [OF pr_okD(1) [OF ok] xb] pr_okD(2) [OF ok] by simp
    moreover have "(x, pr_size (pagerefs h ! p)) \<notin> kh_live blocks h"
    proof
      assume "(x, pr_size (pagerefs h ! p)) \<in> kh_live blocks h"
      then have "(x, pr_size (pagerefs h ! p)) \<in> live_of blocks h (set ?alls) ?fl" unfolding L .
      then show False
      proof (rule live_cases [OF rep])
        fix j
        assume j: "j \<in> set ?alls" "x \<notin> set (?fl j)" "pg h j \<le> x" "x + pr_size (pagerefs h ! p) \<le> pg h j + PAGE_SIZE"
          "0 < pr_size (pagerefs h ! p)"
        then have "j \<noteq> p" using fl by auto
        from pages_apart [OF rep j(1) p(1) this] j page_blocks_range [OF pr_okD(1) [OF ok] xb] show False by linarith
      next
        fix l
        assume "pr_size (pagerefs h ! p) = l * PAGE_SIZE"
          and away: "\<And>j. j \<in> set ?alls \<Longrightarrow> pg h j + PAGE_SIZE \<le> x \<or> x + pr_size (pagerefs h ! p) \<le> pg h j"
        from away [OF p(1)] page_blocks_range [OF pr_okD(1) [OF ok] xb] sizes_ok(1) [OF pr_okD(1) [OF ok]]
        show False by (auto simp: pr_size_def)
      qed
    qed
    moreover have "sz \<le> pr_size (pagerefs h ! p)" using b(3) p(2) by (simp add: pr_size_def)
    moreover have "subpage_kmalloc alloc sz h = Inr (x, h')" using h'(1) b(2) some(3) by (simp add: subpage_kmalloc_def)
    ultimately show ?thesis using trans [OF i(2) h'(3)] i(1) keeps_same [OF h'(4)] by auto
  next
    case none
    let ?rest = "\<lambda>pr. case pr of None \<Rightarrow> kret 0 | Some p \<Rightarrow> kbind (in_pager (alloc 1)) (\<lambda>prpage.
      if prpage = 0 then kbind (freepageref p) (\<lambda>_. kret 0) else kbind (setup_page p prpage b) (\<lambda>_. doalloc p))"
    have run: "subpage_kmalloc alloc sz h = kbind allocpageref ?rest h" using none b(2) by (simp add: subpage_kmalloc_def del: One_nat_def)
    show ?thesis
    proof (rule allocpageref_cases [OF r(3)])
      assume "allocpageref h = Inr (None, h)"
      then show ?thesis unfolding run using h by (simp add: keeps_same)
    next
      fix p w
      assume p: "allocpageref h = Inr (Some p, h\<lparr>pagerefs_inuse := w\<rparr>)" "p < NPAGEREFS" "p \<notin> kh_used h"
        "length w = INUSE_WORDS" "kh_used (h\<lparr>pagerefs_inuse := w\<rparr>) = insert p (kh_used h)"
      show ?thesis
      proof (rule alloc_cases [OF r(1), of 1])
        fix q
        assume q: "alloc 1 (pager h) = Inr (0, q)" "inv q" "blocks q = blocks (pager h)"
        let ?h1 = "h\<lparr>pagerefs_inuse := w, pager := q\<rparr>"
        have ip: "in_pager (alloc 1) (h\<lparr>pagerefs_inuse := w\<rparr>) = Inr (0, ?h1)" using q(1) by (simp add: in_pager_def kzoom_def)
        have u1: "kh_used ?h1 = insert p (kh_used h)" using p(5) by (simp add: kh_used_def)
        obtain w' where w': "freepageref p ?h1 = Inr ((), ?h1\<lparr>pagerefs_inuse := w'\<rparr>)" "length w' = INUSE_WORDS"
          "kh_used (?h1\<lparr>pagerefs_inuse := w'\<rparr>) = kh_used h"
          using freepageref_ok [of ?h1 p] p(3,4) u1 by auto
        let ?h2 = "?h1\<lparr>pagerefs_inuse := w'\<rparr>"
        have ln: "nxt_all ?h2 = nxt_all h" "nxt_same ?h2 = nxt_same h" by (simp_all add: nxt_all_def nxt_same_def fun_eq_iff)
        have "kh_rep inv blocks ?h2 ?alls ?same ?fl"
          unfolding kh_rep_def ln using r q(2,3) w'(2,3) by simp
        note i = kh_invI [OF this]
        have "live_of blocks ?h2 (set ?alls) ?fl = kh_live blocks h" unfolding L live_of_def using q(3) by simp
        then show ?thesis unfolding run using p(1) ip w'(1) i part by (simp add: keeps_def)
      next
        fix a q
        assume q: "alloc 1 (pager h) = Inr (a, q)" "0 < a" "inv q" "(a, 1) \<notin> blocks (pager h)"
          "blocks q = insert (a, 1) (blocks (pager h))"
        have ip: "in_pager (alloc 1) (h\<lparr>pagerefs_inuse := w\<rparr>) = Inr (a, h\<lparr>pagerefs_inuse := w, pager := q\<rparr>)"
          using q(1) by (simp add: in_pager_def kzoom_def)
        have "kbind allocpageref ?rest h =
            kbind (setup_page p a b) (\<lambda>_. doalloc p) (h\<lparr>pagerefs_inuse := w, pager := q\<rparr>)"
          using p(1) ip q(2) by simp
        moreover obtain x h' where n: "kbind (setup_page p a b) (\<lambda>_. doalloc p) (h\<lparr>pagerefs_inuse := w, pager := q\<rparr>) = Inr (x, h')"
          "x \<noteq> 0" "kh_inv inv blocks h'" "(x, sizes ! b) \<notin> kh_live blocks h"
          "kh_live blocks h' = insert (x, sizes ! b) (kh_live blocks h)" "keeps (kh_live blocks h) h h'"
          using subpage_kmalloc_new_page [OF rep part b(1) p q] unfolding L by blast
        ultimately have "subpage_kmalloc alloc sz h = Inr (x, h')" using run by (simp only:)
        then show ?thesis using n(2-6) b(3) by (metis (no_types, lifting))
      qed simp_all
    qed
  qed
qed

lemma kh_rep_pager:
  assumes rep: "kh_rep inv blocks h alls same fl" and q: "inv q"
    and keep: "\<And>j. j \<in> set alls \<Longrightarrow> (pg h j, 1) \<in> blocks q"
  shows "kh_rep inv blocks (h\<lparr>pager := q\<rparr>) alls same fl"
proof -
  have ln: "nxt_all (h\<lparr>pager := q\<rparr>) = nxt_all h" "nxt_same (h\<lparr>pager := q\<rparr>) = nxt_same h" "kh_used (h\<lparr>pager := q\<rparr>) = kh_used h"
    by (simp_all add: nxt_all_def nxt_same_def fun_eq_iff kh_used_def)
  show ?thesis unfolding kh_rep_def ln using kh_repD [OF rep] q keep by simp
qed

lemma kmalloc_ok:
  assumes h: "kh_inv inv blocks h" and sz: "sz + PAGE_SIZE \<le> 2 ^ 32"
  shows "\<exists>x h'. kmalloc alloc sz h = Inr (x, h') \<and> kh_inv inv blocks h' \<and> keeps (kh_live blocks h) h h' \<and>
    (if x = 0 then kh_live blocks h' = kh_live blocks h
     else \<exists>n \<ge> sz. (x, n) \<notin> kh_live blocks h \<and> kh_live blocks h' = insert (x, n) (kh_live blocks h))"
proof (cases "sz \<ge> LARGEST_SUBPAGE_SIZE")
  case False
  then show ?thesis using subpage_kmalloc_ok [OF h, of sz] by (simp add: kmalloc_def)
next
  case True
  let ?alls = "kh_all h" and ?same = "kh_same h" and ?fl = "kh_free h"
  let ?n = "(sz + PAGE_SIZE - 1) div PAGE_SIZE"
  have rep: "kh_rep inv blocks h ?alls ?same ?fl"
    and part: "\<forall>j \<in> set ?alls. length (?fl j) < PAGE_SIZE div pr_size (pagerefs h ! j)"
    using h by (simp_all add: kh_inv_def)
  note r = kh_repD [OF rep]
  have n: "((sz + PAGE_SIZE - 1) mod 2 ^ 32) div PAGE_SIZE = ?n" using sz by simp
  have n0: "0 < ?n" using True by (simp add: div_greater_zero_iff)
  have nlt: "?n < 2 ^ 32" using sz by (intro le_less_trans [OF div_le_dividend]) simp
  have nsz: "sz \<le> ?n * PAGE_SIZE"
    using div_mult_mod_eq [of "sz + PAGE_SIZE - 1" PAGE_SIZE] mod_less_divisor [of PAGE_SIZE "sz + PAGE_SIZE - 1"] by linarith
  have run: "kmalloc alloc sz h = kbind (in_pager (alloc ?n)) (\<lambda>a. kret (if a = 0 then 0 else a)) h"
    using True by (simp only: kmalloc_def n Let_def if_True)
  show ?thesis
  proof (rule alloc_cases [OF r(1) n0 nlt])
    fix q
    assume q: "alloc ?n (pager h) = Inr (0, q)" "inv q" "blocks q = blocks (pager h)"
    have rep': "kh_rep inv blocks (h\<lparr>pager := q\<rparr>) ?alls ?same ?fl" by (rule kh_rep_pager [OF rep q(2)]) (use r(12) q(3) in simp)
    note i = kh_invI [OF rep']
    have "live_of blocks (h\<lparr>pager := q\<rparr>) (set ?alls) ?fl = kh_live blocks h"
      unfolding kh_live_def live_of_def using q(3) by simp
    then show ?thesis unfolding run using q(1) i part by (simp add: in_pager_def kzoom_def kbind_def keeps_same)
  next
    fix a q
    assume q: "alloc ?n (pager h) = Inr (a, q)" "0 < a" "inv q" "(a, ?n) \<notin> blocks (pager h)"
      "blocks q = insert (a, ?n) (blocks (pager h))"
    have rep': "kh_rep inv blocks (h\<lparr>pager := q\<rparr>) ?alls ?same ?fl"
      by (rule kh_rep_pager [OF rep q(3)]) (use r(12) q(5) in simp)
    note i = kh_invI [OF rep']
    have new: "(a, k) \<notin> blocks (pager h)" for k
      using q(4,5) block_unique [OF q(3), of a ?n k] by auto
    then have ap: "a \<notin> pg h ` set ?alls" using r(12) by auto
    have lv: "live_of blocks (h\<lparr>pager := q\<rparr>) (set ?alls) ?fl = insert (a, ?n * PAGE_SIZE) (kh_live blocks h)"
      unfolding kh_live_def live_of_def using q(5) ap by auto
    have "(a, ?n * PAGE_SIZE) \<notin> kh_live blocks h"
    proof
      assume "(a, ?n * PAGE_SIZE) \<in> kh_live blocks h"
      then have "(a, ?n * PAGE_SIZE) \<in> live_of blocks h (set ?alls) ?fl" by (simp add: kh_live_def)
      then show False by (rule live_cases [OF rep]) (use n0 new in auto)
    qed
    then show ?thesis unfolding run using q(1,2) i part lv nsz by (auto simp: in_pager_def kzoom_def kbind_def keeps_same)
  qed
qed

text \<open>Freeing a block of a page, and freeing a block of whole pages.\<close>

lemma subpage_kfree_sub:
  assumes h: "kh_inv inv blocks h" and p: "p \<in> set (kh_all h)" and x: "x \<in> page_blocks (pagerefs h ! p)" "x \<notin> set (kh_free h p)"
  shows "\<exists>h'. subpage_kfree free x h = Inr (0, h') \<and> kh_inv inv blocks h' \<and>
    kh_live blocks h' = kh_live blocks h - {(x, pr_size (pagerefs h ! p))} \<and>
    keeps (kh_live blocks h - {(x, pr_size (pagerefs h ! p))}) h h'"
proof -
  let ?alls = "kh_all h" and ?same = "kh_same h" and ?fl = "kh_free h" and ?pr = "pagerefs h ! p"
  let ?sz = "pr_size ?pr"
  have rep: "kh_rep inv blocks h ?alls ?same ?fl"
    and part: "\<And>j. j \<in> set ?alls \<Longrightarrow> length (?fl j) < PAGE_SIZE div pr_size (pagerefs h ! j)"
    using h by (simp_all add: kh_inv_def)
  note r = kh_repD [OF rep]
  note ok = r(11) [OF p]
  have t: "bt h p < NSIZES" by (rule pr_okD(1) [OF ok])
  note xr = page_blocks_range [OF t x(1)]
  have sz: "0 < ?sz" using sizes_ok(1) [OF t] by (simp add: pr_size_def)
  have inp: "in_page h x p" using xr sz by (simp add: in_page_def)
  have only: "j = p" if "j \<in> set ?alls" "in_page h x j" for j
    using pages_apart [OF rep that(1) p] that(2) inp by (auto simp: in_page_def)
  have len: "length ?alls < Suc NPAGEREFS" using kh_rep_bounds(2) [OF rep] by simp
  have bts0: "\<forall>j \<in> set ?alls. bt h j < NSIZES" using pr_okD(1) [OF r(11)] by blast
  have find: "find_page (Suc NPAGEREFS) h x (allbase h) = Inr (Some p)"
    using find_page_spec [OF r(5) len bts0, of x] only p inp by blast
  have live: "(x, ?sz) \<in> kh_live blocks h"
    unfolding kh_live_def live_of_def page_live_def using p x by blast
  have away: "y < x \<or> x + ?sz \<le> y" if "j \<in> set ?alls" "j \<noteq> p" "y \<in> set (?fl j)" for j y
  proof -
    have "bt h j < NSIZES" "y \<in> page_blocks (pagerefs h ! j)" using pr_okD(1,6) [OF r(11) [OF that(1)]] that(3) by blast+
    from page_blocks_range [OF this] sizes_ok(1) [OF this(1)] pages_apart [OF rep that(1) p that(2)] xr
    show ?thesis by (simp add: pr_size_def) linarith
  qed
  let ?h1 = "dofree p (x - pg h p) h"
  have "\<forall>j \<in> set ?alls. j \<noteq> p \<longrightarrow> (\<forall>y \<in> set (?fl j). y < x \<or> x + ?sz \<le> y)" using away by blast
  note d = dofree_ok [OF rep p x this]
  let ?fl1 = "?fl(p := x # ?fl p)"
  have psz: "pr_size (pagerefs ?h1 ! j) = pr_size (pagerefs h ! j)" and pgs: "pg ?h1 j = pg h j" and bts: "bt ?h1 j = bt h j" for j
    using d(6) [of j] by (simp_all add: pr_size_def PR_BLOCKTYPE_def PR_PAGEADDR_def)
  have lv1: "live_of blocks ?h1 (set ?alls) ?fl1 = kh_live blocks h - {(x, ?sz)}"
  proof -
    have "(x, ?sz) \<notin> live_rest blocks h (set ?alls) ?fl p"
    proof
      assume "(x, ?sz) \<in> live_rest blocks h (set ?alls) ?fl p"
      then consider j where "j \<in> set ?alls" "j \<noteq> p" "x \<in> page_blocks (pagerefs h ! j)"
        | l where "?sz = l * PAGE_SIZE" unfolding live_rest_def page_live_def by blast
      then show False
      proof cases
        case 1
        then show False using only [of j] page_blocks_range [OF pr_okD(1) [OF r(11) [OF 1(1)]] 1(3)]
            sizes_ok(1) [OF pr_okD(1) [OF r(11) [OF 1(1)]]] by (auto simp: in_page_def pr_size_def)
      next
        case 2
        have "2 * ?sz \<le> PAGE_SIZE" using sizes_ok(3) [OF t] sz
          by (simp add: pr_size_def less_eq_div_iff_mult_less_eq)
        with 2 sz show False by (cases l) auto
      qed
    qed
    then show ?thesis
      unfolding kh_live_def live_split [OF p, of blocks h ?fl] live_split [OF p, of blocks ?h1 ?fl1] d(2)
      using d(3) by auto
  qed
  have kp: "keeps (kh_live blocks h - {(x, ?sz)}) h h'" if "kmem h' = kmem ?h1" for h'
    unfolding keeps_def
  proof (intro allI impI)
    fix a m y
    assume a: "(a, m) \<in> kh_live blocks h - {(x, ?sz)}" and y: "a \<le> y" "y < a + m"
    then have "a + m \<le> x \<or> x + ?sz \<le> a" using kh_live_disjoint [OF h _ live, of a m] by blast
    then have "y < x \<or> x + ?sz \<le> y" using y by auto
    from d(7) [OF this] that show "kmem h' y = kmem h y" by simp
  qed
  let ?n = "PAGE_SIZE div ?sz"
  have nf: "nfree (pagerefs ?h1 ! p) = Suc (length (?fl p))" by (rule d(4))
  have le: "Suc (length (?fl p)) \<le> ?n" using part [OF p] by simp
  have off: "x - pg h p < PAGE_SIZE" "(x - pg h p) mod sizes ! bt h p = 0"
    using xr sz by (simp_all add: pr_size_def)
  have run: "subpage_kfree free x h =
      (if Suc (length (?fl p)) = ?n then release_page free p ?h1 else Inr (0, ?h1))"
    using find off nf le
    by (simp add: subpage_kfree_def Let_def release_page_def pgs bts pr_size_def [symmetric] kbind_def)
  show ?thesis
  proof (cases "Suc (length (?fl p)) = ?n")
    case False
    have "\<forall>j \<in> set ?alls. length (?fl1 j) < PAGE_SIZE div pr_size (pagerefs ?h1 ! j)"
      using part False le psz by auto
    note i = kh_invI [OF d(1) this]
    have "kh_live blocks ?h1 = kh_live blocks h - {(x, ?sz)}" by (rule trans [OF i(2) lv1])
    moreover have "subpage_kfree free x h = Inr (0, ?h1)" using run False by simp
    ultimately show ?thesis using i(1) kp [OF refl] by blast
  next
    case True
    have "set (x # ?fl p) = page_blocks ?pr"
    proof (rule card_subset_eq)
      show "finite (page_blocks ?pr)" and "set (x # ?fl p) \<subseteq> page_blocks ?pr"
        using card_page_blocks(2) [OF t] pr_okD(6) [OF ok] x(1) by simp_all
      have "distinct (x # ?fl p)" using pr_okD(5) [OF ok] x(2) by simp
      from distinct_card [OF this] True show "card (set (x # ?fl p)) = card (page_blocks ?pr)"
        using card_page_blocks(1) [OF t] by simp
    qed
    moreover have "page_blocks (pagerefs ?h1 ! p) = page_blocks ?pr" using page_blocks_cong [OF pgs bts] by blast
    ultimately have full: "page_blocks (pagerefs ?h1 ! p) \<subseteq> set (?fl1 p)" by simp
    note r1 = kh_repD [OF d(1)]
    obtain q where q: "free (pg ?h1 p) (pager ?h1) = Inr ((), q)" "inv q" "blocks q = blocks (pager ?h1) - {(pg ?h1 p, 1)}"
      using free_spec [OF r1(1) r1(12) [OF p]] by blast
    obtain h' where h': "release_page free p ?h1 = Inr (0, h')"
      "kh_rep inv blocks h' (remove1 p ?alls) (?same(bt ?h1 p := remove1 p (?same (bt ?h1 p)))) ?fl1"
      "live_of blocks h' (set (remove1 p ?alls)) ?fl1 = live_of blocks ?h1 (set ?alls) ?fl1" "kmem h' = kmem ?h1"
      "\<forall>j. pr_size (pagerefs h' ! j) = pr_size (pagerefs ?h1 ! j)"
      using release_page_ok [OF d(1) p full, of free q] q block_unique [OF r1(1) _ r1(12) [OF p]] by blast
    have "\<forall>j \<in> set (remove1 p ?alls). length (?fl1 j) < PAGE_SIZE div pr_size (pagerefs h' ! j)"
      using part h'(5) psz r(6) by auto
    note i = kh_invI [OF h'(2) this]
    have "kh_live blocks h' = kh_live blocks h - {(x, ?sz)}" by (rule trans [OF i(2) trans [OF h'(3) lv1]])
    moreover have "subpage_kfree free x h = Inr (0, h')" using run True h'(1) by simp
    ultimately show ?thesis using i(1) kp [OF h'(4)] by blast
  qed
qed

lemma kfree_ok:
  assumes h: "kh_inv inv blocks h" and x: "(x, n) \<in> kh_live blocks h"
  shows "\<exists>h'. kfree free x h = Inr ((), h') \<and> kh_inv inv blocks h' \<and>
    kh_live blocks h' = kh_live blocks h - {(x, n)} \<and> keeps (kh_live blocks h - {(x, n)}) h h'"
proof -
  let ?alls = "kh_all h" and ?same = "kh_same h" and ?fl = "kh_free h"
  have rep: "kh_rep inv blocks h ?alls ?same ?fl"
    and part: "\<forall>j \<in> set ?alls. length (?fl j) < PAGE_SIZE div pr_size (pagerefs h ! j)"
    using h by (simp_all add: kh_inv_def)
  note r = kh_repD [OF rep]
  have x0: "x \<noteq> 0" using kh_live_ok(1) [OF h x] by simp
  from x have "(x, n) \<in> live_of blocks h (set ?alls) ?fl" by (simp add: kh_live_def)
  then show ?thesis
  proof (rule live_cases [OF rep])
    fix j
    assume "j \<in> set ?alls" "x \<in> page_blocks (pagerefs h ! j)" "x \<notin> set (?fl j)" "n = pr_size (pagerefs h ! j)"
    with subpage_kfree_sub [OF h] show ?thesis using x0 by (fastforce simp: kfree_def)
  next
    fix m
    assume m: "(x, m) \<in> blocks (pager h)" "n = m * PAGE_SIZE" "0 < m"
      and away: "\<And>j. j \<in> set ?alls \<Longrightarrow> pg h j + PAGE_SIZE \<le> x \<or> x + n \<le> pg h j"
    have no: "\<not> in_page h x j" if "j \<in> set ?alls" for j using away [OF that] m(2,3) by (auto simp: in_page_def)
    have len: "length ?alls < Suc NPAGEREFS" using kh_rep_bounds(2) [OF rep] by simp
    have "\<forall>j \<in> set ?alls. bt h j < NSIZES" using pr_okD(1) [OF r(11)] by blast
    from find_page_spec [OF r(5) len this, of x] no
    have find: "find_page (Suc NPAGEREFS) h x (allbase h) = Inr None" by blast
    obtain q where q: "free x (pager h) = Inr ((), q)" "inv q" "blocks q = blocks (pager h) - {(x, m)}"
      using free_spec [OF r(1) m(1)] by blast
    have al: "x mod PAGE_SIZE = 0" using block_range [OF r(1) m(1)] by blast
    have run: "kfree free x h = Inr ((), h\<lparr>pager := q\<rparr>)"
      using x0 find q(1) al by (simp add: kfree_def subpage_kfree_def in_pager_def kzoom_def kbind_def)
    have pn: "pg h j \<noteq> x" if "j \<in> set ?alls" for j using no [OF that] by (auto simp: in_page_def)
    have rep': "kh_rep inv blocks (h\<lparr>pager := q\<rparr>) ?alls ?same ?fl"
      by (rule kh_rep_pager [OF rep q(2)]) (use r(12) q(3) pn in auto)
    note i = kh_invI [OF rep']
    have "(x, n) \<notin> page_live (pagerefs h ! j) (?fl j)" if j: "j \<in> set ?alls" for j
    proof
      assume "(x, n) \<in> page_live (pagerefs h ! j) (?fl j)"
      then have a: "x \<in> page_blocks (pagerefs h ! j)" by (auto simp: page_live_def)
      have t: "bt h j < NSIZES" by (rule pr_okD(1) [OF r(11) [OF j]])
      from page_blocks_range [OF t a] sizes_ok(1) [OF t] no [OF j] show False by (simp add: in_page_def pr_size_def)
    qed
    then have "live_of blocks (h\<lparr>pager := q\<rparr>) (set ?alls) ?fl = kh_live blocks h - {(x, n)}"
      unfolding kh_live_def live_of_def using q(3) m(2) by auto
    then show ?thesis using run i part by (auto simp: keeps_def)
  qed
qed

text \<open>A client that writes into a block it owns does not disturb the heap.\<close>

lemma kmem_write_ok:
  assumes h: "kh_inv inv blocks h" and x: "(a, n) \<in> kh_live blocks h" "a \<le> x" "x < a + n"
  shows "kh_inv inv blocks (h\<lparr>kmem := (kmem h)(x := v)\<rparr>)"
    and "kh_live blocks (h\<lparr>kmem := (kmem h)(x := v)\<rparr>) = kh_live blocks h"
proof -
  let ?alls = "kh_all h" and ?same = "kh_same h" and ?fl = "kh_free h"
  let ?m = "(kmem h)(x := v)"
  let ?h = "h\<lparr>kmem := ?m\<rparr>"
  have rep: "kh_rep inv blocks h ?alls ?same ?fl"
    and part: "\<forall>j \<in> set ?alls. length (?fl j) < PAGE_SIZE div pr_size (pagerefs h ! j)"
    using h by (simp_all add: kh_inv_def)
  note r = kh_repD [OF rep]
  have lv: "(a, n) \<in> live_of blocks h (set ?alls) ?fl" using x(1) by (simp add: kh_live_def)
  have ne: "y \<noteq> x" if j: "j \<in> set ?alls" and y: "y \<in> set (?fl j)" for j y
  proof -
    have yb: "y \<in> page_blocks (pagerefs h ! j)" and t: "bt h j < NSIZES"
      using pr_okD(1,6) [OF r(11) [OF j]] y by blast+
    note yr = page_blocks_range [OF t yb]
    have sz: "0 < pr_size (pagerefs h ! j)" using sizes_ok(1) [OF t] by (simp add: pr_size_def)
    from lv show ?thesis
    proof (rule live_cases [OF rep])
      fix k
      assume k: "k \<in> set ?alls" "a \<in> page_blocks (pagerefs h ! k)" "a \<notin> set (?fl k)" "n = pr_size (pagerefs h ! k)"
        "pg h k \<le> a" "a + n \<le> pg h k + PAGE_SIZE"
      show ?thesis
      proof (cases "j = k")
        case True
        with k y have "a \<noteq> y" by blast
        with page_blocks_disjoint [OF yb, of a] k True x(2,3) sz show ?thesis by auto
      next
        case False
        from pages_apart [OF rep j k(1) False] yr k x(2,3) sz show ?thesis by linarith
      qed
    next
      assume "\<And>j. j \<in> set ?alls \<Longrightarrow> pg h j + PAGE_SIZE \<le> a \<or> a + n \<le> pg h j"
      from this [OF j] yr x(2,3) sz show ?thesis by linarith
    qed
  qed
  have "pr_ok ?m (pagerefs h ! j) (?fl j)" if "j \<in> set ?alls" for j
    using pr_ok_cong [OF r(11) [OF that], of ?m "pagerefs h ! j"] ne [OF that] by simp
  moreover have ln: "nxt_all ?h = nxt_all h" "nxt_same ?h = nxt_same h" "kh_used ?h = kh_used h"
    by (simp_all add: nxt_all_def nxt_same_def fun_eq_iff kh_used_def)
  ultimately have "kh_rep inv blocks ?h ?alls ?same ?fl" unfolding kh_rep_def ln using r by simp
  note i = kh_invI [OF this]
  show "kh_inv inv blocks ?h" using i(1) part by simp
  have "live_of blocks ?h (set ?alls) ?fl = kh_live blocks h" by (simp add: kh_live_def live_of_def)
  then show "kh_live blocks ?h = kh_live blocks h" using i(2) part by simp
qed

end

section \<open>The heap over the core map\<close>

text \<open>
  The static data of \<^verbatim>\<open>kheap.c\<close> is zero when the kernel starts.
\<close>

definition kh_init :: "'p \<Rightarrow> 'p kheap" where
  "kh_init q = \<lparr>pagerefs = replicate NPAGEREFS \<lparr>next_samesize = None, next_all = None,
       pageaddr_and_blocktype = 0, freelist_offset = 0, nfree = 0\<rparr>,
     pagerefs_inuse = replicate INUSE_WORDS 0, sizebases = replicate NSIZES None, allbase = None,
     kmem = (\<lambda>_. 0), pager = q\<rparr>"

abbreviation heap_inv :: "physmem kheap \<Rightarrow> bool" where
  "heap_inv \<equiv> kh_inv coremap_inv kblocks"

abbreviation heap_live :: "physmem kheap \<Rightarrow> (nat \<times> nat) set" where
  "heap_live \<equiv> kh_live kblocks"

lemma kh_init_inv:
  assumes "coremap_inv q"
  shows "heap_inv (kh_init q)"
    and "heap_live (kh_init q) = {(a, n * PAGE_SIZE) | a n. (a, n) \<in> kblocks q}"
proof -
  have "kh_used (kh_init q) = {}" by (auto simp: kh_used_def kh_init_def)
  then have "kh_rep coremap_inv kblocks (kh_init q) [] (\<lambda>_. []) (\<lambda>_. [])"
    using assms by (simp add: kh_rep_def kh_init_def)
  note i = kh_invI [OF this]
  then show "heap_inv (kh_init q)" by simp
  show "heap_live (kh_init q) = {(a, n * PAGE_SIZE) | a n. (a, n) \<in> kblocks q}"
    using i(2) by (simp add: live_of_def kh_init_def)
qed

text \<open>Blocks that do not overlap and lie inside the 32-bit address space, away from NULL.\<close>

definition blocks_apart :: "(nat \<times> nat) set \<Rightarrow> bool" where
  "blocks_apart L \<longleftrightarrow>
     (\<forall>a n b m. (a, n) \<in> L \<longrightarrow> (b, m) \<in> L \<longrightarrow> (a, n) \<noteq> (b, m) \<longrightarrow> a + n \<le> b \<or> b + m \<le> a) \<and>
     (\<forall>a n. (a, n) \<in> L \<longrightarrow> 0 < a \<and> a + n \<le> 2 ^ 32)"

text \<open>
  Runs of the heap: clients allocate, free, and write words; every call may find another current
  thread, another time and another value in uninitialised locals.
\<close>

datatype heap_call = Kmalloc nat | Kfree nat | Store nat nat

fun heap_call_run :: "callenv \<Rightarrow> heap_call \<Rightarrow> (physmem kheap, nat) kern" where
  "heap_call_run env (Kmalloc sz) = kmalloc (alloc_kpages env) sz"
| "heap_call_run env (Kfree ptr) = kbind (kfree (free_kpages env) ptr) (\<lambda>_. kret 0)"
| "heap_call_run env (Store x v) = kbind (kmod (\<lambda>h. h\<lparr>kmem := (kmem h)(x := v)\<rparr>)) (\<lambda>_. kret 0)"

fun heap_call_legal :: "heap_call \<Rightarrow> physmem kheap \<Rightarrow> bool" where
  "heap_call_legal (Kmalloc sz) h = (sz + PAGE_SIZE \<le> 2 ^ 32)"
| "heap_call_legal (Kfree ptr) h = (ptr = 0 \<or> (\<exists>n. (ptr, n) \<in> heap_live h))"
| "heap_call_legal (Store x v) h = (\<exists>a n. (a, n) \<in> heap_live h \<and> a \<le> x \<and> x < a + n)"

fun heap_run :: "(callenv \<times> heap_call) list \<Rightarrow> (physmem kheap, nat list) kern" where
  "heap_run [] = kret []"
| "heap_run ((env, c) # cs) = kbind (heap_call_run env c) (\<lambda>r. kbind (heap_run cs) (\<lambda>rs. kret (r # rs)))"

fun heap_legal :: "(callenv \<times> heap_call) list \<Rightarrow> physmem kheap \<Rightarrow> bool" where
  "heap_legal [] h = True"
| "heap_legal ((env, c) # cs) h =
     (heap_call_legal c h \<and> (case heap_call_run env c h of Inl e \<Rightarrow> True | Inr (r, h') \<Rightarrow> heap_legal cs h'))"

lemma heap_call_ok:
  assumes "heap_inv h" and "heap_call_legal c h"
  shows "\<exists>r h'. heap_call_run env c h = Inr (r, h') \<and> heap_inv h'"
proof (cases c)
  case (Kmalloc sz)
  with kpages.kmalloc_ok [OF assms(1), of sz env] assms(2) show ?thesis by fastforce
next
  case (Kfree ptr)
  show ?thesis
  proof (cases "ptr = 0")
    case True
    then show ?thesis using Kfree assms(1) by (simp add: kfree_def)
  next
    case False
    then obtain n where "(ptr, n) \<in> heap_live h" using Kfree assms(2) by auto
    from kpages.kfree_ok [OF assms(1) this, of env] show ?thesis using Kfree by fastforce
  qed
next
  case (Store x v)
  then obtain a n where "(a, n) \<in> heap_live h" "a \<le> x" "x < a + n" using assms(2) by auto
  from kpages.kmem_write_ok(1) [OF assms(1) this] show ?thesis using Store by simp
qed

section \<open>Properties\<close>

text \<open>
  C1: A run of any length of \<^verbatim>\<open>kmalloc\<close>, \<^verbatim>\<open>kfree\<close> and stores into blocks, in which every freed
  pointer is NULL or live and every store goes into a live block, never panics, trips an
  assertion, follows a stray pointer or loops, whatever the page allocator answers; at its end
  the heap is well formed and the live blocks are pairwise disjoint and away from address 0.
\<close>

theorem heap_run_safe:
  assumes "heap_inv h" and "heap_legal cs h"
  shows "\<exists>rs h'. heap_run cs h = Inr (rs, h') \<and> heap_inv h' \<and> blocks_apart (heap_live h')"
  using assms
proof (induction cs arbitrary: h)
  case Nil
  have "heap_run [] h = Inr ([], h)" by simp
  moreover have "blocks_apart (heap_live h)"
    unfolding blocks_apart_def using kpages.kh_live_disjoint [OF Nil(1)] kpages.kh_live_ok [OF Nil(1)] by blast
  ultimately show ?case using Nil(1) by blast
next
  case (Cons ec cs)
  obtain env c where ec: "ec = (env, c)" by (cases ec)
  obtain r h' where r: "heap_call_run env c h = Inr (r, h')" "heap_inv h'"
    using heap_call_ok [OF Cons.prems(1), of c env] Cons.prems(2) ec by auto
  have "heap_legal cs h'" using Cons.prems(2) ec r(1) by simp
  from Cons.IH [OF r(2) this] obtain rs h2 where h2: "heap_run cs h' = Inr (rs, h2)"
    and rest: "heap_inv h2 \<and> blocks_apart (heap_live h2)" by blast
  have "heap_run (ec # cs) h = Inr (r # rs, h2)" using r(1) h2 ec by simp
  with rest show ?case by blast
qed

theorem heap_run_safe_witness:
  "heap_inv (kh_init cm_demo) \<and> heap_legal [(env_demo, Kmalloc 100), (env_demo, Kfree 0)] (kh_init cm_demo) \<and>
   (\<exists>rs h'. heap_run [(env_demo, Kmalloc 100), (env_demo, Kfree 0)] (kh_init cm_demo) = Inr (rs, h') \<and> heap_inv h')"
proof -
  have i: "heap_inv (kh_init cm_demo)" by (rule kh_init_inv(1) [OF cm_demo_inv])
  have l: "heap_legal [(env_demo, Kmalloc 100), (env_demo, Kfree 0)] (kh_init cm_demo)"
    by (simp split: sum.split prod.split)
  from i l heap_run_safe [OF i l] show ?thesis by blast
qed

text \<open>
  C2: \<^verbatim>\<open>kmalloc\<close> either returns NULL and leaves the live blocks as they are, or returns a block at
  least as large as requested that was not live before; every other live block keeps its place
  and its contents.
\<close>

theorem kmalloc_fresh_block:
  assumes "heap_inv h" and "sz + PAGE_SIZE \<le> 2 ^ 32"
  shows "\<exists>p h'. kmalloc (alloc_kpages env) sz h = Inr (p, h') \<and> heap_inv h' \<and>
    (if p = 0 then heap_live h' = heap_live h
     else \<exists>n \<ge> sz. (p, n) \<notin> heap_live h \<and> heap_live h' = insert (p, n) (heap_live h)) \<and>
    (\<forall>a n x. (a, n) \<in> heap_live h \<longrightarrow> a \<le> x \<longrightarrow> x < a + n \<longrightarrow> kmem h' x = kmem h x)"
  using kpages.kmalloc_ok [OF assms, of env] unfolding keeps_def by blast

theorem kmalloc_fresh_block_witness:
  "heap_inv (kh_init cm_demo) \<and> (\<exists>p h'. kmalloc (alloc_kpages env_demo) 5000 (kh_init cm_demo) = Inr (p, h') \<and> heap_inv h')"
proof -
  note i = kh_init_inv(1) [OF cm_demo_inv]
  have "5000 + PAGE_SIZE \<le> 2 ^ 32" by simp
  from kmalloc_fresh_block [OF i this, of env_demo] i show ?thesis by blast
qed

text \<open>
  C3: \<^verbatim>\<open>kfree\<close> of a live block, small or large, removes exactly that block from the live ones and
  changes the contents of no other.
\<close>

theorem kfree_releases_block:
  assumes "heap_inv h" and "(p, n) \<in> heap_live h"
  shows "\<exists>h'. kfree (free_kpages env) p h = Inr ((), h') \<and> heap_inv h' \<and> heap_live h' = heap_live h - {(p, n)} \<and>
    (\<forall>a m x. (a, m) \<in> heap_live h \<longrightarrow> (a, m) \<noteq> (p, n) \<longrightarrow> a \<le> x \<longrightarrow> x < a + m \<longrightarrow> kmem h' x = kmem h x)"
  using kpages.kfree_ok [OF assms, of env] unfolding keeps_Diff .

theorem kfree_releases_block_witness:
  "\<exists>a s h'. (a, 2 * PAGE_SIZE) \<in> heap_live (kh_init s) \<and>
     kfree (free_kpages env_demo) a (kh_init s) = Inr ((), h') \<and> heap_inv h' \<and>
     heap_live h' = heap_live (kh_init s) - {(a, 2 * PAGE_SIZE)}"
proof -
  obtain a s where s: "coremap_inv s" "(a, 2) \<in> kblocks s"
  proof (rule alloc_kpages_cases [OF cm_demo_inv, of 2 env_demo])
    show "0 < (2::nat)" and "(2::nat) < 2 ^ 32" by simp_all
    assume "\<And>j. \<not> free_run (coremap cm_demo) j 2"
    then show thesis using cm_demo_run by blast
  next
    fix i s'
    assume "coremap_inv s'"
      "kblocks s' = insert (PADDR_TO_KVADDR (cm_paddr (coremap cm_demo ! i)), 2) (kblocks cm_demo)"
    then show thesis using that [of s' "PADDR_TO_KVADDR (cm_paddr (coremap cm_demo ! i))"] by blast
  qed
  note i = kh_init_inv [OF s(1)]
  have l: "(a, 2 * PAGE_SIZE) \<in> heap_live (kh_init s)" unfolding i(2) using s(2) by blast
  obtain h' where "kfree (free_kpages env_demo) a (kh_init s) = Inr ((), h')" "heap_inv h'"
      "heap_live h' = heap_live (kh_init s) - {(a, 2 * PAGE_SIZE)}"
    using kfree_releases_block [OF i(1) l, of env_demo] by (elim exE conjE)
  with l show ?thesis by (intro exI conjI)
qed

text \<open>
  The rounding of a large request to whole pages wraps around: a request of more than
  \<open>2 ^ 32 - 4096\<close> bytes asks the page allocator for no page at all.
\<close>

theorem kmalloc_rounding_wraps:
  assumes "2 ^ 32 - PAGE_SIZE < sz" and "sz < 2 ^ 32"
  shows "kmalloc palloc sz h = kbind (in_pager (palloc 0)) (\<lambda>a. kret (if a = 0 then 0 else a)) h"
proof -
  have "(sz + PAGE_SIZE - 1) mod 2 ^ 32 = sz + PAGE_SIZE - 1 - 2 ^ 32"
    using assms by (simp add: mod_if)
  then have "((sz + PAGE_SIZE - 1) mod 2 ^ 32) div PAGE_SIZE = 0" using assms by simp
  then show ?thesis using assms by (simp add: kmalloc_def Let_def)
qed

theorem kmalloc_rounding_wraps_witness:
  "kmalloc (alloc_kpages env_demo) 4294967295 (kh_init cm_demo) =
   kbind (in_pager (alloc_kpages env_demo 0)) (\<lambda>a. kret (if a = 0 then 0 else a)) (kh_init cm_demo)"
  using kmalloc_rounding_wraps [of 4294967295 "alloc_kpages env_demo" "kh_init cm_demo"] by simp

end
