(* ===== verification/Threads.thy ===== *)
theory Threads
  imports Array_Lib Queue_Lib "HOL-Library.Multiset"
begin

text \<open>
  The thread system: \<^verbatim>\<open>kern/thread/thread.c\<close>, the round-robin scheduler of
  \<^verbatim>\<open>kern/thread/scheduler.c\<close>, the machine-dependent switch of \<^verbatim>\<open>kern/arch/mips/mips/pcb.c\<close> and
  the interrupt level of \<^verbatim>\<open>spl.c\<close>.

  A thread that gives up the processor inside the kernel keeps its C stack.  The model keeps
  the part of it that matters as a \<open>frame\<close>: what the thread does when it is switched to again.
  \<^verbatim>\<open>mi_switch\<close> stores the frame of the outgoing thread, and its value is the frame of the
  thread that runs afterwards; \<open>resume\<close> is the code behind that frame.  The parameter \<open>'c\<close> is
  what the callers of \<^verbatim>\<open>thread_sleep\<close> do after they wake up.

  The idle loop of the scheduler takes the interrupts that arrive from the list \<open>idle\<close>: for
  each call of \<^verbatim>\<open>cpu_idle\<close>, the sleep addresses that the interrupt handlers wake up.  A timer
  interrupt also calls \<^verbatim>\<open>thread_yield\<close> there, which returns at once because \<^verbatim>\<open>curthread\<close> is NULL
  in the idle loop.  An idle loop that nothing wakes is \<^term>\<open>OutOfFuel\<close>.
\<close>

section \<open>Model\<close>

subsection \<open>Data\<close>

abbreviation SPL_HIGH :: int where "SPL_HIGH \<equiv> 15"
abbreviation STACK_SIZE :: nat where "STACK_SIZE \<equiv> 4096"

datatype threadstate_t = S_RUN | S_READY | S_SLEEP | S_ZOMB

datatype 'c frame = StartF nat nat nat | YieldF int | SleepF 'c | ExitF

text \<open>The first bytes of the stack hold a magic number, \<open>t_magic\<close>.\<close>

record 'c thread =
  t_name :: string
  t_sleepaddr :: "nat option"
  t_stack :: "nat option"
  t_magic :: "nat list"
  t_vmspace :: "nat option"
  t_cwd :: "nat option"
  t_process :: "nat option"
  pcb_kstack :: nat
  pcb_ininterrupt :: int
  pcb_frame :: "'c frame option"

datatype as_call = As_activate nat | As_destroy nat

text \<open>
  \<open>vn_refs\<close> counts the references to current directories, \<open>as_calls\<close> the calls into the address
  space module.
\<close>

record 'c tsys =
  curthread :: "nat option"
  sleepers :: "nat array option"
  zombies :: "nat array option"
  numthreads :: int
  runqueue :: "nat queue option"
  curspl :: int
  in_interrupt :: int
  curkstack :: nat
  threads :: "nat \<Rightarrow> 'c thread option"
  vn_refs :: "nat \<Rightarrow> int"
  as_calls :: "as_call list"

subsection \<open>Access through pointers\<close>

definition on_sleepers :: "(nat array, 'a) kern \<Rightarrow> ('c tsys, 'a) kern" where
  "on_sleepers m s =
     (case sleepers s of
        None \<Rightarrow> Inl BadPtr
      | Some a \<Rightarrow> (case m a of Inl h \<Rightarrow> Inl h | Inr (x, a') \<Rightarrow> Inr (x, s\<lparr>sleepers := Some a'\<rparr>)))"

definition on_zombies :: "(nat array, 'a) kern \<Rightarrow> ('c tsys, 'a) kern" where
  "on_zombies m s =
     (case zombies s of
        None \<Rightarrow> Inl BadPtr
      | Some a \<Rightarrow> (case m a of Inl h \<Rightarrow> Inl h | Inr (x, a') \<Rightarrow> Inr (x, s\<lparr>zombies := Some a'\<rparr>)))"

definition on_runqueue :: "(nat queue, 'a) kern \<Rightarrow> ('c tsys, 'a) kern" where
  "on_runqueue m s =
     (case runqueue s of
        None \<Rightarrow> Inl BadPtr
      | Some q \<Rightarrow> (case m q of Inl h \<Rightarrow> Inl h | Inr (x, q') \<Rightarrow> Inr (x, s\<lparr>runqueue := Some q'\<rparr>)))"

definition array_at :: "int \<Rightarrow> ('a array, 'a option) kern" where
  "array_at i a = (case array_getguy a i of Inl h \<Rightarrow> Inl h | Inr x \<Rightarrow> Inr (x, a))"

definition get_thread :: "nat option \<Rightarrow> ('c tsys, 'c thread) kern" where
  "get_thread p s =
     (case p of
        None \<Rightarrow> Inl BadPtr
      | Some x \<Rightarrow> (case threads s x of None \<Rightarrow> Inl BadPtr | Some t \<Rightarrow> Inr (t, s)))"

definition set_thread :: "nat option \<Rightarrow> ('c thread \<Rightarrow> 'c thread) \<Rightarrow> ('c tsys, unit) kern" where
  "set_thread p f =
     kbind (get_thread p) (\<lambda>t. kmod (\<lambda>s. s\<lparr>threads := (threads s)(the p \<mapsto> f t)\<rparr>))"

definition get_cur :: "('c tsys, 'c thread) kern" where
  "get_cur = kbind (kget curthread) get_thread"

definition VOP_INCREF :: "nat \<Rightarrow> ('c tsys, unit) kern" where
  "VOP_INCREF v = kmod (\<lambda>s. s\<lparr>vn_refs := (vn_refs s)(v := vn_refs s v + 1)\<rparr>)"

definition VOP_DECREF :: "nat \<Rightarrow> ('c tsys, unit) kern" where
  "VOP_DECREF v = kmod (\<lambda>s. s\<lparr>vn_refs := (vn_refs s)(v := vn_refs s v - 1)\<rparr>)"

definition call_as :: "as_call \<Rightarrow> ('c tsys, unit) kern" where
  "call_as c = kmod (\<lambda>s. s\<lparr>as_calls := as_calls s @ [c]\<rparr>)"

subsection \<open>Interrupt level\<close>

definition splx :: "int \<Rightarrow> ('c tsys, int) kern" where
  "splx newspl s = Inr (curspl s, s\<lparr>curspl := newspl\<rparr>)"

definition splhigh :: "('c tsys, int) kern" where
  "splhigh = splx SPL_HIGH"

definition spl0 :: "('c tsys, int) kern" where
  "spl0 = splx 0"

definition spl_on :: "('c tsys, unit) kern" where
  "spl_on = kbind (kget curspl) (\<lambda>l. kassert (l > 0))"

subsection \<open>Creation and destruction of threads\<close>

definition thread_create :: "nat option \<Rightarrow> bool \<Rightarrow> string \<Rightarrow> ('c tsys, nat option) kern" where
  "thread_create guy dup name =
     (case guy of
        None \<Rightarrow> kret None
      | Some p \<Rightarrow>
          if \<not> dup then kret None
          else kbind (kmod (\<lambda>s. s\<lparr>threads := (threads s)(p \<mapsto>
              \<lparr>t_name = name, t_sleepaddr = None, t_stack = None, t_magic = [], t_vmspace = None,
               t_cwd = None, t_process = None, pcb_kstack = 0, pcb_ininterrupt = 0,
               pcb_frame = None\<rparr>)\<rparr>)) (\<lambda>_. kret (Some p)))"

definition free_thread :: "nat \<Rightarrow> ('c tsys, unit) kern" where
  "free_thread p = kmod (\<lambda>s. s\<lparr>threads := (threads s)(p := None)\<rparr>)"

definition thread_destroy :: "nat \<Rightarrow> ('c tsys, unit) kern" where
  "thread_destroy p =
     kbind (kget curthread) (\<lambda>c.
     kbind (kassert (c \<noteq> Some p)) (\<lambda>_.
     kbind (get_thread (Some p)) (\<lambda>t.
     kbind (kassert (t_vmspace t = None)) (\<lambda>_.
     kbind (kassert (t_cwd t = None)) (\<lambda>_. free_thread p)))))"

fun exorcise_from :: "nat \<Rightarrow> int \<Rightarrow> ('c tsys, unit) kern" where
  "exorcise_from 0 i = kret ()"
| "exorcise_from (Suc n) i =
     kbind (on_zombies (array_at i)) (\<lambda>z.
     case z of
       None \<Rightarrow> khalt BadPtr
     | Some p \<Rightarrow>
         kbind (kget curthread) (\<lambda>c.
         kbind (kassert (c \<noteq> Some p)) (\<lambda>_.
         kbind (thread_destroy p) (\<lambda>_. exorcise_from n (i + 1)))))"

definition exorcise :: "(nat \<Rightarrow> bool) \<Rightarrow> ('c tsys, unit) kern" where
  "exorcise mem =
     kbind spl_on (\<lambda>_.
     kbind (on_zombies (kget array_getnum)) (\<lambda>n.
     kbind (exorcise_from (nat n) 0) (\<lambda>_.
     kbind (on_zombies (array_setsize mem 0)) (\<lambda>r. kassert (r = Inr ())))))"

fun killall_from :: "nat \<Rightarrow> int \<Rightarrow> ('c tsys, unit) kern" where
  "killall_from 0 i = kret ()"
| "killall_from (Suc n) i =
     kbind (on_sleepers (array_at i)) (\<lambda>t.
     kbind (get_thread t) (\<lambda>_. killall_from n (i + 1)))"

definition thread_killall :: "(nat \<Rightarrow> bool) \<Rightarrow> ('c tsys, unit) kern" where
  "thread_killall mem =
     kbind spl_on (\<lambda>_.
     kbind (on_sleepers (kget array_getnum)) (\<lambda>n.
     kbind (killall_from (nat n) 0) (\<lambda>_.
     kbind (on_sleepers (array_setsize mem 0)) (\<lambda>r. kassert (r = Inr ())))))"

subsection \<open>Scheduler\<close>

definition scheduler_bootstrap :: "bool \<Rightarrow> (nat \<Rightarrow> bool) \<Rightarrow> ('c tsys, unit) kern" where
  "scheduler_bootstrap hdr mem s =
     (case q_create hdr mem 32 of
        None \<Rightarrow> Inl PanicCall
      | Some q \<Rightarrow> Inr ((), s\<lparr>runqueue := Some q\<rparr>))"

definition scheduler_preallocate :: "(nat \<Rightarrow> bool) \<Rightarrow> int \<Rightarrow> ('c tsys, errno + unit) kern" where
  "scheduler_preallocate mem nthreads =
     kbind spl_on (\<lambda>_. on_runqueue (q_preallocate mem nthreads))"

text \<open>The loop of \<^verbatim>\<open>scheduler_killall\<close>; the first argument bounds its iterations.\<close>

fun scheduler_drain :: "nat \<Rightarrow> ('c tsys, unit) kern" where
  "scheduler_drain 0 = khalt OutOfFuel"
| "scheduler_drain (Suc n) =
     kbind (on_runqueue (kget q_empty)) (\<lambda>e.
     if e then kret ()
     else kbind (on_runqueue q_remhead) (\<lambda>t. kbind (get_thread t) (\<lambda>_. scheduler_drain n)))"

definition scheduler_killall :: "('c tsys, unit) kern" where
  "scheduler_killall =
     kbind spl_on (\<lambda>_.
     kbind (on_runqueue (kget q_size)) (\<lambda>n. scheduler_drain (Suc (nat n))))"

definition scheduler_shutdown :: "('c tsys, unit) kern" where
  "scheduler_shutdown =
     kbind scheduler_killall (\<lambda>_.
     kbind spl_on (\<lambda>_.
     kbind (on_runqueue (\<lambda>q. case q_destroy q of Inl h \<Rightarrow> Inl h | Inr u \<Rightarrow> Inr (u, q))) (\<lambda>_.
     kmod (\<lambda>s. s\<lparr>runqueue := None\<rparr>))))"

definition make_runnable :: "(nat \<Rightarrow> bool) \<Rightarrow> nat \<Rightarrow> ('c tsys, errno + unit) kern" where
  "make_runnable mem t = kbind spl_on (\<lambda>_. on_runqueue (q_addtail mem t))"

text \<open>
  The loops of \<^verbatim>\<open>thread_wakeup\<close> and \<^verbatim>\<open>thread_wakeup_n\<close>, which differ in the condition \<open>brk\<close> under
  which they stop after a thread was woken.  The first argument bounds the iterations.
\<close>

fun wakeup_from :: "(nat \<Rightarrow> bool) \<Rightarrow> (int \<Rightarrow> bool) \<Rightarrow> nat \<Rightarrow> nat \<Rightarrow> int \<Rightarrow> ('c tsys, unit) kern" where
  "wakeup_from mem brk addr fuel i =
     kbind (on_sleepers (kget array_getnum)) (\<lambda>n.
     if i < n then
       (case fuel of
          0 \<Rightarrow> khalt OutOfFuel
        | Suc fuel' \<Rightarrow>
            kbind (on_sleepers (array_at i)) (\<lambda>p.
            kbind (get_thread p) (\<lambda>t.
            if t_sleepaddr t = Some addr then
              kbind (on_sleepers (array_remove i)) (\<lambda>_.
              kbind (make_runnable mem (the p)) (\<lambda>r.
              kbind (kassert (r = Inr ())) (\<lambda>_.
              if brk (i - 1) then kret () else wakeup_from mem brk addr fuel' i)))
            else wakeup_from mem brk addr fuel' (i + 1))))
     else kret ())"

definition thread_wakeup :: "(nat \<Rightarrow> bool) \<Rightarrow> nat \<Rightarrow> ('c tsys, unit) kern" where
  "thread_wakeup mem addr =
     kbind spl_on (\<lambda>_.
     kbind (on_sleepers (kget array_getnum)) (\<lambda>n. wakeup_from mem (\<lambda>_. False) addr (nat n) 0))"

definition thread_wakeup_n :: "(nat \<Rightarrow> bool) \<Rightarrow> nat \<Rightarrow> int \<Rightarrow> ('c tsys, unit) kern" where
  "thread_wakeup_n mem addr n =
     kbind spl_on (\<lambda>_.
     kbind (on_sleepers (kget array_getnum)) (\<lambda>k. wakeup_from mem (\<lambda>i. n - 1 = i) addr (nat k) 0))"

fun hassleepers_from :: "nat \<Rightarrow> nat \<Rightarrow> int \<Rightarrow> ('c tsys, int) kern" where
  "hassleepers_from addr 0 i = kret 0"
| "hassleepers_from addr (Suc n) i =
     kbind (on_sleepers (array_at i)) (\<lambda>p.
     kbind (get_thread p) (\<lambda>t.
     if t_sleepaddr t = Some addr then kret 1 else hassleepers_from addr n (i + 1)))"

definition thread_hassleepers :: "nat \<Rightarrow> ('c tsys, int) kern" where
  "thread_hassleepers addr =
     kbind spl_on (\<lambda>_.
     kbind (on_sleepers (kget array_getnum)) (\<lambda>n. hassleepers_from addr (nat n) 0))"

text \<open>An interrupt handler that wakes up the sleepers on the addresses \<open>addrs\<close>.\<close>

fun wake_all :: "(nat \<Rightarrow> bool) \<Rightarrow> nat list \<Rightarrow> ('c tsys, unit) kern" where
  "wake_all mem [] = kret ()"
| "wake_all mem (a # addrs) = kbind (thread_wakeup mem a) (\<lambda>_. wake_all mem addrs)"

definition mips_interrupt :: "('c tsys, unit) kern \<Rightarrow> ('c tsys, unit) kern" where
  "mips_interrupt handler =
     kbind (kget in_interrupt) (\<lambda>old_in.
     kbind (kmod (\<lambda>s. s\<lparr>in_interrupt := 1\<rparr>)) (\<lambda>_.
     kbind spl_on (\<lambda>_.
     kbind handler (\<lambda>_. kmod (\<lambda>s. s\<lparr>in_interrupt := old_in\<rparr>)))))"

definition cpu_idle :: "(nat \<Rightarrow> bool) \<Rightarrow> nat list \<Rightarrow> ('c tsys, unit) kern" where
  "cpu_idle mem addrs = kbind spl_on (\<lambda>_. mips_interrupt (wake_all mem addrs))"

fun idle_loop :: "(nat \<Rightarrow> bool) \<Rightarrow> nat list list \<Rightarrow> ('c tsys, unit) kern" where
  "idle_loop mem [] =
     kbind (on_runqueue (kget q_empty)) (\<lambda>e. if e then khalt OutOfFuel else kret ())"
| "idle_loop mem (addrs # idle) =
     kbind (on_runqueue (kget q_empty)) (\<lambda>e.
     if e then kbind (cpu_idle mem addrs) (\<lambda>_. idle_loop mem idle) else kret ())"

definition scheduler :: "(nat \<Rightarrow> bool) \<Rightarrow> nat list list \<Rightarrow> ('c tsys, nat option) kern" where
  "scheduler mem idle =
     kbind spl_on (\<lambda>_. kbind (idle_loop mem idle) (\<lambda>_. on_runqueue q_remhead))"

subsection \<open>Context switch\<close>

definition md_initpcb0 :: "nat \<Rightarrow> ('c tsys, unit) kern" where
  "md_initpcb0 p =
     kbind (kget curkstack) (\<lambda>k.
     set_thread (Some p) (\<lambda>t. t\<lparr>pcb_frame := None, pcb_kstack := k, pcb_ininterrupt := 0\<rparr>))"

definition md_initpcb :: "nat \<Rightarrow> nat \<Rightarrow> nat \<Rightarrow> nat \<Rightarrow> nat \<Rightarrow> ('c tsys, unit) kern" where
  "md_initpcb p stack data1 data2 func =
     set_thread (Some p) (\<lambda>t. t\<lparr>pcb_kstack := (stack + STACK_SIZE) mod 2 ^ 32, pcb_ininterrupt := 0,
       pcb_frame := Some (StartF data1 data2 func)\<rparr>)"

text \<open>The value of \<open>md_switch\<close> is the frame of the thread that runs afterwards.\<close>

definition md_switch :: "'c frame \<Rightarrow> nat \<Rightarrow> nat \<Rightarrow> ('c tsys, 'c frame) kern" where
  "md_switch fr old nu =
     (if old = nu then kret fr
      else
        kbind (kget (\<lambda>s. (curkstack s, in_interrupt s))) (\<lambda>(k, i).
        kbind (set_thread (Some old) (\<lambda>t. t\<lparr>pcb_kstack := k, pcb_ininterrupt := i, pcb_frame := Some fr\<rparr>)) (\<lambda>_.
        kbind (get_thread (Some nu)) (\<lambda>t.
        kbind (kmod (\<lambda>s. s\<lparr>curkstack := pcb_kstack t, in_interrupt := pcb_ininterrupt t\<rparr>)) (\<lambda>_.
        case pcb_frame t of None \<Rightarrow> khalt BadPtr | Some f \<Rightarrow> kret f)))))"

abbreviation stack_magic :: "nat list" where
  "stack_magic \<equiv> [174, 17, 218, 51]"

definition check_magic :: "'c thread \<Rightarrow> ('c tsys, unit) kern" where
  "check_magic t = (if t_stack t \<noteq> None then kassert (t_magic t = stack_magic) else kret ())"

definition activate_cur :: "('c tsys, unit) kern" where
  "activate_cur =
     kbind get_cur (\<lambda>t. case t_vmspace t of None \<Rightarrow> kret () | Some v \<Rightarrow> call_as (As_activate v))"

definition is_start :: "'c frame \<Rightarrow> bool" where
  "is_start f \<longleftrightarrow> (case f of StartF _ _ _ \<Rightarrow> True | _ \<Rightarrow> False)"

definition stash :: "(nat \<Rightarrow> bool) \<Rightarrow> threadstate_t \<Rightarrow> nat \<Rightarrow> ('c tsys, errno + unit) kern" where
  "stash mem nextstate cur =
     (if nextstate = S_READY then make_runnable mem cur
      else if nextstate = S_SLEEP then on_sleepers (array_add mem cur)
      else kbind (kassert (nextstate = S_ZOMB)) (\<lambda>_. on_zombies (array_add mem cur)))"

definition mi_switch ::
  "(nat \<Rightarrow> bool) \<Rightarrow> nat list list \<Rightarrow> 'c frame \<Rightarrow> threadstate_t \<Rightarrow> ('c tsys, 'c frame) kern" where
  "mi_switch mem idle fr nextstate =
     kbind spl_on (\<lambda>_.
     kbind (kget curthread) (\<lambda>c.
     case c of
       None \<Rightarrow> kret fr
     | Some cur \<Rightarrow>
         kbind (get_thread c) (\<lambda>t.
         kbind (check_magic t) (\<lambda>_.
         kbind (kmod (\<lambda>s. s\<lparr>curthread := None\<rparr>)) (\<lambda>_.
         kbind (stash mem nextstate cur) (\<lambda>r.
         kbind (kassert (r = Inr ())) (\<lambda>_.
         kbind (scheduler mem idle) (\<lambda>next.
         kbind (kmod (\<lambda>s. s\<lparr>curthread := next\<rparr>)) (\<lambda>_.
         case next of
           None \<Rightarrow> khalt BadPtr
         | Some nu \<Rightarrow>
             kbind (md_switch fr cur nu) (\<lambda>f.
             if is_start f then kret f
             else kbind (exorcise mem) (\<lambda>_. kbind activate_cur (\<lambda>_. kret f))))))))))))"

subsection \<open>Operations on threads\<close>

text \<open>What the thread that runs after a switch does next.\<close>

datatype 'c resumed = Started nat nat nat | Yielded | Woken 'c

definition mi_threadstart :: "nat \<Rightarrow> nat \<Rightarrow> nat \<Rightarrow> ('c tsys, 'c resumed) kern" where
  "mi_threadstart data1 data2 func =
     kbind activate_cur (\<lambda>_. kbind spl0 (\<lambda>_. kret (Started data1 data2 func)))"

fun resume :: "'c frame \<Rightarrow> ('c tsys, 'c resumed) kern" where
  "resume (StartF data1 data2 func) = mi_threadstart data1 data2 func"
| "resume (YieldF spl) = kbind (splx spl) (\<lambda>_. kret Yielded)"
| "resume (SleepF c) =
     kbind (kget curthread) (\<lambda>p.
     kbind (set_thread p (\<lambda>t. t\<lparr>t_sleepaddr := None\<rparr>)) (\<lambda>_. kret (Woken c)))"
| "resume ExitF = khalt PanicCall"

definition thread_yield :: "(nat \<Rightarrow> bool) \<Rightarrow> nat list list \<Rightarrow> ('c tsys, 'c resumed) kern" where
  "thread_yield mem idle =
     kbind splhigh (\<lambda>spl.
     kbind (kget sleepers) (\<lambda>sl.
     kbind (kassert (sl \<noteq> None)) (\<lambda>_.
     kbind (mi_switch mem idle (YieldF spl) S_READY) resume)))"

definition thread_sleep :: "(nat \<Rightarrow> bool) \<Rightarrow> nat list list \<Rightarrow> 'c \<Rightarrow> nat \<Rightarrow> ('c tsys, 'c resumed) kern" where
  "thread_sleep mem idle c addr =
     kbind (kget in_interrupt) (\<lambda>i.
     kbind (kassert (i = 0)) (\<lambda>_.
     kbind (kget curthread) (\<lambda>p.
     kbind (set_thread p (\<lambda>t. t\<lparr>t_sleepaddr := Some addr\<rparr>)) (\<lambda>_.
     kbind (mi_switch mem idle (SleepF c) S_SLEEP) resume))))"

definition thread_exit :: "(nat \<Rightarrow> bool) \<Rightarrow> nat list list \<Rightarrow> ('c tsys, 'c resumed) kern" where
  "thread_exit mem idle =
     kbind get_cur (\<lambda>t.
     kbind (check_magic t) (\<lambda>_.
     kbind splhigh (\<lambda>_.
     kbind (kget curthread) (\<lambda>p.
     kbind (case t_vmspace t of
              None \<Rightarrow> kret ()
            | Some v \<Rightarrow> kbind (set_thread p (\<lambda>t. t\<lparr>t_vmspace := None\<rparr>)) (\<lambda>_. call_as (As_destroy v))) (\<lambda>_.
     kbind (case t_cwd t of
              None \<Rightarrow> kret ()
            | Some v \<Rightarrow> kbind (VOP_DECREF v) (\<lambda>_. set_thread p (\<lambda>t. t\<lparr>t_cwd := None\<rparr>))) (\<lambda>_.
     kbind (kget numthreads) (\<lambda>n.
     kbind (kassert (n > 0)) (\<lambda>_.
     kbind (kmod (\<lambda>s. s\<lparr>numthreads := n - 1\<rparr>)) (\<lambda>_.
     kbind (mi_switch mem idle ExitF S_ZOMB) resume)))))))))"

text \<open>The answers of \<^verbatim>\<open>kmalloc\<close> to the requests of \<^verbatim>\<open>thread_fork\<close>.\<close>

record fork_mem =
  fm_thread :: "nat option"
  fm_name :: bool
  fm_stack :: "nat option"
  fm_mem :: "nat \<Rightarrow> bool"

definition fork_prepare :: "(nat \<Rightarrow> bool) \<Rightarrow> nat \<Rightarrow> ('c tsys, errno + unit) kern" where
  "fork_prepare mem newguy =
     kbind (kget numthreads) (\<lambda>n.
     kbindE (on_sleepers (array_preallocate mem (n + 1))) (\<lambda>_.
     kbindE (on_zombies (array_preallocate mem (n + 1))) (\<lambda>_.
     kbindE (scheduler_preallocate mem (n + 1)) (\<lambda>_.
     kbindE (make_runnable mem newguy) (\<lambda>_.
     kbind (kmod (\<lambda>s. s\<lparr>numthreads := n + 1\<rparr>)) (\<lambda>_. kret (Inr ())))))))"

definition thread_fork ::
  "fork_mem \<Rightarrow> string \<Rightarrow> nat \<Rightarrow> nat \<Rightarrow> nat \<Rightarrow> ('c tsys, errno + nat) kern" where
  "thread_fork fm name data1 data2 func =
     kbind (thread_create (fm_thread fm) (fm_name fm) name) (\<lambda>newguy.
     case newguy of
       None \<Rightarrow> kret (Inl ENOMEM)
     | Some p \<Rightarrow>
         (case fm_stack fm of
            None \<Rightarrow> kbind (free_thread p) (\<lambda>_. kret (Inl ENOMEM))
          | Some stack \<Rightarrow>
              kbind (set_thread newguy (\<lambda>t. t\<lparr>t_stack := Some stack, t_magic := stack_magic\<rparr>)) (\<lambda>_.
              kbind get_cur (\<lambda>c.
              kbind (case t_cwd c of
                       None \<Rightarrow> kret ()
                     | Some v \<Rightarrow> kbind (VOP_INCREF v) (\<lambda>_. set_thread newguy (\<lambda>t. t\<lparr>t_cwd := Some v\<rparr>))) (\<lambda>_.
              kbind (md_initpcb p stack data1 data2 func) (\<lambda>_.
              kbind splhigh (\<lambda>spl.
              kbind (fork_prepare (fm_mem fm) p) (\<lambda>r.
              kbind (splx spl) (\<lambda>_.
              case r of
                Inr _ \<Rightarrow> kret (Inr p)
              | Inl e \<Rightarrow>
                  kbind (get_thread newguy) (\<lambda>t.
                  kbind (case t_cwd t of None \<Rightarrow> kret () | Some v \<Rightarrow> VOP_DECREF v) (\<lambda>_.
                  kbind (free_thread p) (\<lambda>_. kret (Inl e)))))))))))))"

subsection \<open>Start and end of the thread system\<close>

definition thread_bootstrap ::
  "bool \<Rightarrow> bool \<Rightarrow> nat option \<Rightarrow> bool \<Rightarrow> ('c tsys, nat) kern" where
  "thread_bootstrap mem_s mem_z guy dup =
     (case array_create mem_s of
        None \<Rightarrow> khalt PanicCall
      | Some sl \<Rightarrow>
          kbind (kmod (\<lambda>s. s\<lparr>sleepers := Some sl\<rparr>)) (\<lambda>_.
          case array_create mem_z of
            None \<Rightarrow> khalt PanicCall
          | Some z \<Rightarrow>
              kbind (kmod (\<lambda>s. s\<lparr>zombies := Some z\<rparr>)) (\<lambda>_.
              kbind (thread_create guy dup ''<boot/menu>'') (\<lambda>me.
              case me of
                None \<Rightarrow> khalt PanicCall
              | Some p \<Rightarrow>
                  kbind (md_initpcb0 p) (\<lambda>_.
                  kbind (kmod (\<lambda>s. s\<lparr>curthread := Some p, numthreads := 1\<rparr>)) (\<lambda>_. kret p))))))"

definition thread_shutdown :: "('c tsys, unit) kern" where
  "thread_shutdown =
     kbind (on_sleepers (kret ())) (\<lambda>_.
     kbind (kmod (\<lambda>s. s\<lparr>sleepers := None\<rparr>)) (\<lambda>_.
     kbind (on_zombies (kret ())) (\<lambda>_. kmod (\<lambda>s. s\<lparr>zombies := None\<rparr>))))"

definition thread_panic :: "(nat \<Rightarrow> bool) \<Rightarrow> ('c tsys, unit) kern" where
  "thread_panic mem =
     kbind spl_on (\<lambda>_. kbind (thread_killall mem) (\<lambda>_. scheduler_killall))"

definition one_thread_only :: "('c tsys, bool) kern" where
  "one_thread_only =
     kbind splhigh (\<lambda>s. kbind (kget numthreads) (\<lambda>n. kbind (splx s) (\<lambda>_. kret (n = 1))))"

section \<open>The lists of the thread system\<close>

text \<open>The run queue, the sleepers and the zombies as lists of thread pointers.\<close>

definition rl :: "'c tsys \<Rightarrow> nat list" where "rl s = q_list (the (runqueue s))"
definition sl :: "'c tsys \<Rightarrow> nat list" where "sl s = array_list (the (sleepers s))"
definition zl :: "'c tsys \<Rightarrow> nat list" where "zl s = array_list (the (zombies s))"

abbreviation max_threads :: nat where "max_threads \<equiv> 2 ^ 26"

definition tlists :: "'c tsys \<Rightarrow> bool" where
  "tlists s \<longleftrightarrow>
     (\<exists>a. sleepers s = Some a \<and> array_inv a) \<and> (\<exists>z. zombies s = Some z \<and> array_inv z) \<and>
     (\<exists>q. runqueue s = Some q \<and> q_inv q \<and> q_size q \<le> 2 ^ 28) \<and>
     length (rl s) + length (sl s) + length (zl s) < max_threads"

text \<open>The address a thread sleeps on.\<close>

definition sleeps_on :: "'c tsys \<Rightarrow> nat \<Rightarrow> nat option" where
  "sleeps_on s p = (case threads s p of None \<Rightarrow> None | Some t \<Rightarrow> t_sleepaddr t)"

text \<open>Waking up, on the lists: the sleepers on \<open>addr\<close> go to the tail of the run queue, in order.\<close>

fun wakes :: "(nat \<Rightarrow> nat option) \<Rightarrow> nat \<Rightarrow> nat list \<times> nat list \<Rightarrow> nat list \<times> nat list" where
  "wakes sa addr (r, l) = (r @ filter (\<lambda>p. sa p = Some addr) l, filter (\<lambda>p. sa p \<noteq> Some addr) l)"

fun idle_until :: "(nat \<Rightarrow> nat option) \<Rightarrow> nat list list \<Rightarrow> nat list \<times> nat list \<Rightarrow> (nat list \<times> nat list) option" where
  "idle_until sa [] rs = (if fst rs = [] then None else Some rs)"
| "idle_until sa (addrs # idle) rs =
     (if fst rs = [] then idle_until sa idle (fold (wakes sa) addrs rs) else Some rs)"

lemma spl_on_ok [simp]: "curspl s > 0 \<Longrightarrow> spl_on s = Inr ((), s)"
  by (simp add: spl_on_def)

lemma on_sleepers_Some [simp]:
  "sleepers s = Some a \<Longrightarrow> m a = Inr (x, a') \<Longrightarrow> on_sleepers m s = Inr (x, s\<lparr>sleepers := Some a'\<rparr>)"
  by (simp add: on_sleepers_def)

lemma on_zombies_Some [simp]:
  "zombies s = Some a \<Longrightarrow> m a = Inr (x, a') \<Longrightarrow> on_zombies m s = Inr (x, s\<lparr>zombies := Some a'\<rparr>)"
  by (simp add: on_zombies_def)

lemma on_runqueue_Some [simp]:
  "runqueue s = Some q \<Longrightarrow> m q = Inr (x, q') \<Longrightarrow> on_runqueue m s = Inr (x, s\<lparr>runqueue := Some q'\<rparr>)"
  by (simp add: on_runqueue_def)

lemma same_lists [simp]:
  "sleepers s = x \<Longrightarrow> s\<lparr>sleepers := x\<rparr> = s" "zombies s = x \<Longrightarrow> s\<lparr>zombies := x\<rparr> = s"
  "runqueue s = y \<Longrightarrow> s\<lparr>runqueue := y\<rparr> = s"
  by (cases s, simp)+

lemma on_sleepers_get [simp]: "sleepers s = Some a \<Longrightarrow> on_sleepers (kget f) s = Inr (f a, s)"
  by (cases s) (simp add: on_sleepers_def)

lemma on_zombies_get [simp]: "zombies s = Some a \<Longrightarrow> on_zombies (kget f) s = Inr (f a, s)"
  by (cases s) (simp add: on_zombies_def)

lemma on_runqueue_get [simp]: "runqueue s = Some a \<Longrightarrow> on_runqueue (kget f) s = Inr (f a, s)"
  by (cases s) (simp add: on_runqueue_def)

lemma get_thread_ok [simp]: "threads s p = Some t \<Longrightarrow> get_thread (Some p) s = Inr (t, s)"
  by (simp add: get_thread_def)

lemma set_thread_ok [simp]:
  "threads s p = Some t \<Longrightarrow> set_thread (Some p) f s = Inr ((), s\<lparr>threads := (threads s)(p \<mapsto> f t)\<rparr>)"
  by (simp add: set_thread_def)

declare array_list_length [simp del]

lemma arr_num_length: "array_inv a \<Longrightarrow> arr_num a = int (length (array_list a))"
  using array_list_length [of a] by (simp add: array_inv_def array_shape_def)

lemma array_at_ok:
  assumes "array_inv a" and "i < length (array_list a)"
  shows "array_at (int i) a = Inr (Some (array_list a ! i), a)"
  using assms array_getguy_list [OF assms(1), of "int i"] by (simp add: array_at_def arr_num_length)

lemma on_sleepers_at [simp]:
  assumes "sleepers s = Some a" and "array_inv a" and "i < length (array_list a)"
  shows "on_sleepers (array_at (int i)) s = Inr (Some (array_list a ! i), s)"
  using assms by (cases s) (simp add: on_sleepers_def array_at_ok)

lemma on_zombies_at [simp]:
  assumes "zombies s = Some a" and "array_inv a" and "i < length (array_list a)"
  shows "on_zombies (array_at (int i)) s = Inr (Some (array_list a ! i), s)"
  using assms by (cases s) (simp add: on_zombies_def array_at_ok)

lemma make_runnable_ok:
  assumes "runqueue s = Some q" and "q_inv q" and "q_size q \<le> 2 ^ 28"
    and "length (q_list q) < max_threads" and "curspl s > 0" and "\<forall>b. mem b"
  shows "\<exists>q'. make_runnable mem t s = Inr (Inr (), s\<lparr>runqueue := Some q'\<rparr>) \<and> q_inv q' \<and> q_size q' \<le> 2 ^ 28 \<and>
     q_list q' = q_list q @ [t]"
proof -
  have "q_size q < 2 ^ 29 - 1" using assms(3) by simp
  then show ?thesis
  proof (rule q_addtail_cases [OF assms(2), of mem t])
    assume "\<exists>b. \<not> mem b"
    then show ?thesis using assms(6) by simp
  next
    fix q'
    assume q': "q_addtail mem t q = Inr (Inr (), q')" "q_inv q'" "q_list q' = q_list q @ [t]"
      "q_size q' \<le> max (q_size q) (2 * (int (length (q_list q)) + 2))"
    from q'(4) assms(3,4) have "q_size q' \<le> 2 ^ 28" by simp
    with q' assms(1,5) show ?thesis by (intro exI [of _ q']) (simp add: make_runnable_def)
  qed
qed

section \<open>Waking up\<close>

declare wakeup_from.simps [simp del]

lemma wakeup_from_ok:
  fixes s :: "'c tsys"
  assumes "sleepers s = Some a" and "array_inv a" and "runqueue s = Some q" and "q_inv q" and "q_size q \<le> 2 ^ 28"
    and "length (q_list q) + length (array_list a) \<le> max_threads"
    and "\<forall>p \<in> set (array_list a). \<exists>t. threads s p = Some t" and "curspl s > 0" and "\<forall>b. mem b"
    and "i \<le> length (array_list a)" and "length (array_list a) - i \<le> fuel"
  shows "\<exists>a' q'. wakeup_from mem (\<lambda>_. False) addr fuel (int i) s = Inr ((), s\<lparr>sleepers := Some a', runqueue := Some q'\<rparr>) \<and>
     array_inv a' \<and> q_inv q' \<and> q_size q' \<le> 2 ^ 28 \<and>
     array_list a' = take i (array_list a) @ filter (\<lambda>p. sleeps_on s p \<noteq> Some addr) (drop i (array_list a)) \<and>
     q_list q' = q_list q @ filter (\<lambda>p. sleeps_on s p = Some addr) (drop i (array_list a))"
  using assms
proof (induction fuel arbitrary: s a q i)
  case 0
  then have i: "i = length (array_list a)" by simp
  have "s\<lparr>sleepers := Some a, runqueue := Some q\<rparr> = s" using 0 by (cases s) simp
  then show ?case using 0 i by (intro exI [of _ a] exI [of _ q]) (simp add: wakeup_from.simps array_getnum_def arr_num_length)
next
  case (Suc fuel)
  show ?case
  proof (cases "i = length (array_list a)")
    case True
    have "s\<lparr>sleepers := Some a, runqueue := Some q\<rparr> = s" using Suc.prems by (cases s) simp
    then show ?thesis using Suc.prems True
      by (intro exI [of _ a] exI [of _ q]) (simp add: wakeup_from.simps array_getnum_def arr_num_length)
  next
    case False
    then have i: "i < length (array_list a)" using Suc.prems by simp
    let ?p = "array_list a ! i"
    obtain t where t: "threads s ?p = Some t" using Suc.prems i by (meson nth_mem)
    have d: "drop i (array_list a) = ?p # drop (Suc i) (array_list a)" by (rule Cons_nth_drop_Suc [OF i, symmetric])
    have num: "int i < arr_num a" using i Suc.prems(2) by (simp add: arr_num_length)
    show ?thesis
    proof (cases "t_sleepaddr t = Some addr")
      case True
      then have on: "sleeps_on s ?p = Some addr" using t by (simp add: sleeps_on_def)
      obtain a1 where a1: "array_remove (int i) a = Inr ((), a1)" "array_inv a1"
          "array_list a1 = take i (array_list a) @ drop (Suc i) (array_list a)"
        using array_remove_ok [OF Suc.prems(2), of "int i"] num by auto
      let ?s1 = "s\<lparr>sleepers := Some a1\<rparr>"
      have qlen: "length (q_list q) < max_threads" using Suc.prems(6) i by simp
      obtain q1 where q1: "make_runnable mem ?p ?s1 = Inr (Inr (), ?s1\<lparr>runqueue := Some q1\<rparr>)" "q_inv q1"
          "q_size q1 \<le> 2 ^ 28" "q_list q1 = q_list q @ [?p]"
        using make_runnable_ok [of ?s1 q mem ?p] Suc.prems qlen by auto
      let ?s2 = "?s1\<lparr>runqueue := Some q1\<rparr>"
      have step: "wakeup_from mem (\<lambda>_. False) addr (Suc fuel) (int i) s = wakeup_from mem (\<lambda>_. False) addr fuel (int i) ?s2"
        using Suc.prems i num t True a1(1) q1(1) by (subst wakeup_from.simps) (simp add: array_getnum_def)
      have same: "sleeps_on ?s2 = sleeps_on s" by (simp add: sleeps_on_def fun_eq_iff)
      have sub: "set (array_list a1) \<subseteq> set (array_list a)" using a1(3) set_take_subset set_drop_subset by (metis Un_least set_append)
      have c: "length (array_list a1) - i \<le> fuel" "i \<le> length (array_list a1)" "length (q_list q1) + length (array_list a1) \<le> max_threads"
        using Suc.prems i a1(3) q1(4) by simp_all
      have dom1: "\<forall>p \<in> set (array_list a1). \<exists>t. threads ?s2 p = Some t" using Suc.prems(7) sub by auto
      have s2: "sleepers ?s2 = Some a1" "runqueue ?s2 = Some q1" "curspl ?s2 > 0" using Suc.prems(8) by simp_all
      obtain a2 q2 where r: "wakeup_from mem (\<lambda>_. False) addr fuel (int i) ?s2 = Inr ((), ?s2\<lparr>sleepers := Some a2, runqueue := Some q2\<rparr>)"
        "array_inv a2" "q_inv q2" "q_size q2 \<le> 2 ^ 28"
        "array_list a2 = take i (array_list a1) @ filter (\<lambda>p. sleeps_on s p \<noteq> Some addr) (drop i (array_list a1))"
        "q_list q2 = q_list q1 @ filter (\<lambda>p. sleeps_on s p = Some addr) (drop i (array_list a1))"
        using Suc.IH [OF s2(1) a1(2) s2(2) q1(2,3) c(3) dom1 s2(3) Suc.prems(9) c(2,1)] unfolding same by (elim exE conjE)
      have "drop i (array_list a1) = drop (Suc i) (array_list a)" "take i (array_list a1) = take i (array_list a)"
        using a1(3) i by simp_all
      with r step d on q1(4) show ?thesis by (intro exI [of _ a2] exI [of _ q2]) simp
    next
      case False
      then have on: "sleeps_on s ?p \<noteq> Some addr" using t by (simp add: sleeps_on_def)
      have step: "wakeup_from mem (\<lambda>_. False) addr (Suc fuel) (int i) s = wakeup_from mem (\<lambda>_. False) addr fuel (int (Suc i)) s"
        using Suc.prems i num t False by (subst wakeup_from.simps) (simp add: array_getnum_def ac_simps)
      have "length (array_list a) - Suc i \<le> fuel" "Suc i \<le> length (array_list a)" using Suc.prems i by simp_all
      from Suc.IH [OF Suc.prems(1-9) this(2,1)] d on i step show ?thesis by (auto simp: take_Suc_conv_app_nth)
    qed
  qed
qed

lemma thread_wakeup_ok:
  assumes s: "tlists s" "\<forall>p \<in> set (sl s). \<exists>t. threads s p = Some t" "curspl s > 0" and mem: "\<forall>b. mem b"
  shows "\<exists>a' q'. thread_wakeup mem addr s = Inr ((), s\<lparr>sleepers := Some a', runqueue := Some q'\<rparr>) \<and>
     tlists (s\<lparr>sleepers := Some a', runqueue := Some q'\<rparr>) \<and>
     (q_list q', array_list a') = wakes (sleeps_on s) addr (rl s, sl s)"
proof -
  obtain a q where a: "sleepers s = Some a" "array_inv a" "runqueue s = Some q" "q_inv q" "q_size q \<le> 2 ^ 28"
    using s(1) by (auto simp: tlists_def)
  have len: "length (q_list q) + length (array_list a) \<le> max_threads"
    using s(1) a by (auto simp: tlists_def rl_def sl_def)
  have dom: "\<forall>p \<in> set (array_list a). \<exists>t. threads s p = Some t" using s(2) a by (simp add: sl_def)
  obtain a' q' where r: "wakeup_from mem (\<lambda>_. False) addr (length (array_list a)) (int 0) s = Inr ((), s\<lparr>sleepers := Some a', runqueue := Some q'\<rparr>)"
     "array_inv a'" "q_inv q'" "q_size q' \<le> 2 ^ 28"
     "array_list a' = take 0 (array_list a) @ filter (\<lambda>p. sleeps_on s p \<noteq> Some addr) (drop 0 (array_list a))"
     "q_list q' = q_list q @ filter (\<lambda>p. sleeps_on s p = Some addr) (drop 0 (array_list a))"
    using wakeup_from_ok [OF a len dom s(3) mem, of 0 "length (array_list a)" addr] by auto
  have len': "length (q_list q') + length (array_list a') = length (rl s) + length (sl s)"
    using r(5,6) a sum_length_filter_compl [of "\<lambda>p. sleeps_on s p = Some addr" "array_list a"] by (simp add: rl_def sl_def)
  have "thread_wakeup mem addr s = Inr ((), s\<lparr>sleepers := Some a', runqueue := Some q'\<rparr>)"
    using r(1) a s(3) by (simp add: thread_wakeup_def array_getnum_def arr_num_length)
  moreover have "tlists (s\<lparr>sleepers := Some a', runqueue := Some q'\<rparr>)"
    using s(1) r(2-4) len' by (simp add: tlists_def rl_def sl_def zl_def)
  ultimately show ?thesis using r(5,6) a by (auto simp: rl_def sl_def)
qed

text \<open>\<open>s'\<close> is \<open>s\<close> with the run queue and the sleepers \<open>rs\<close>.\<close>

definition relisted :: "'c tsys \<Rightarrow> nat list \<times> nat list \<Rightarrow> 'c tsys \<Rightarrow> bool" where
  "relisted s rs s' \<longleftrightarrow>
     s' = s\<lparr>sleepers := sleepers s', runqueue := runqueue s'\<rparr> \<and> tlists s' \<and> (rl s', sl s') = rs"

lemma relistedD:
  assumes "relisted s rs s'"
  shows "curthread s' = curthread s" "zombies s' = zombies s" "numthreads s' = numthreads s"
    "curspl s' = curspl s" "in_interrupt s' = in_interrupt s" "curkstack s' = curkstack s" "threads s' = threads s"
    "vn_refs s' = vn_refs s" "as_calls s' = as_calls s" "zl s' = zl s" "sleeps_on s' = sleeps_on s"
    "tlists s'" "rl s' = fst rs" "sl s' = snd rs"
proof -
  have e: "s' = s\<lparr>sleepers := sleepers s', runqueue := runqueue s'\<rparr>" using assms by (simp add: relisted_def)
  show "curthread s' = curthread s" "zombies s' = zombies s" "numthreads s' = numthreads s"
    "curspl s' = curspl s" "in_interrupt s' = in_interrupt s" "curkstack s' = curkstack s" "threads s' = threads s"
    "vn_refs s' = vn_refs s" "as_calls s' = as_calls s"
    by (subst e, simp)+
  then show "zl s' = zl s" "sleeps_on s' = sleeps_on s" by (simp_all add: zl_def sleeps_on_def fun_eq_iff)
  show "tlists s'" "rl s' = fst rs" "sl s' = snd rs" using assms by (auto simp: relisted_def)
qed

lemma relisted_trans:
  assumes "relisted s rs s'" and "relisted s' rs' s''"
  shows "relisted s rs' s''"
proof -
  have "s'' = s'\<lparr>sleepers := sleepers s'', runqueue := runqueue s''\<rparr>" using assms(2) by (simp add: relisted_def)
  also have "\<dots> = s\<lparr>sleepers := sleepers s'', runqueue := runqueue s''\<rparr>"
    using assms(1) by (cases s; cases s') (simp add: relisted_def)
  finally show ?thesis using assms(2) by (simp add: relisted_def)
qed

lemma relisted_refl: "tlists s \<Longrightarrow> relisted s (rl s, sl s) s"
  by (simp add: relisted_def)

text \<open>The threads on the lists exist.\<close>

definition known :: "'c tsys \<Rightarrow> nat list \<Rightarrow> bool" where
  "known s ps \<longleftrightarrow> (\<forall>p \<in> set ps. \<exists>t. threads s p = Some t)"

lemma thread_wakeup_relists:
  assumes "tlists s" "known s (sl s)" "curspl s > 0" and "\<forall>b. mem b"
  shows "\<exists>s'. thread_wakeup mem addr s = Inr ((), s') \<and> relisted s (wakes (sleeps_on s) addr (rl s, sl s)) s'"
proof -
  obtain a q where r: "thread_wakeup mem addr s = Inr ((), s\<lparr>sleepers := Some a, runqueue := Some q\<rparr>)"
    "tlists (s\<lparr>sleepers := Some a, runqueue := Some q\<rparr>)" "(q_list q, array_list a) = wakes (sleeps_on s) addr (rl s, sl s)"
    using thread_wakeup_ok [OF assms(1) _ assms(3,4), of addr] assms(2) unfolding known_def by blast
  then show ?thesis
    unfolding relisted_def by (intro exI [of _ "s\<lparr>sleepers := Some a, runqueue := Some q\<rparr>"]) (auto simp: rl_def sl_def)
qed

text \<open>
  Whatever the condition to stop, the loop wakes only sleepers on the address and loses no
  thread.
\<close>

lemma wakeup_from_some:
  fixes s :: "'c tsys"
  assumes "sleepers s = Some a" and "array_inv a" and "runqueue s = Some q" and "q_inv q" and "q_size q \<le> 2 ^ 28"
    and "length (q_list q) + length (array_list a) \<le> max_threads"
    and "\<forall>p \<in> set (array_list a). \<exists>t. threads s p = Some t" and "curspl s > 0" and "\<forall>b. mem b"
    and "i \<le> length (array_list a)" and "length (array_list a) - i \<le> fuel"
  shows "\<exists>a' q' ws. wakeup_from mem brk addr fuel (int i) s = Inr ((), s\<lparr>sleepers := Some a', runqueue := Some q'\<rparr>) \<and>
     array_inv a' \<and> q_inv q' \<and> q_size q' \<le> 2 ^ 28 \<and> q_list q' = q_list q @ ws \<and>
     mset ws + mset (array_list a') = mset (array_list a) \<and> (\<forall>p \<in> set ws. sleeps_on s p = Some addr)"
  using assms
proof (induction fuel arbitrary: s a q i)
  case 0
  then show ?case by (intro exI [of _ a] exI [of _ q] exI [of _ "[]"]) (simp add: wakeup_from.simps array_getnum_def arr_num_length)
next
  case (Suc fuel)
  show ?case
  proof (cases "i = length (array_list a)")
    case True
    then show ?thesis using Suc.prems
      by (intro exI [of _ a] exI [of _ q] exI [of _ "[]"]) (simp add: wakeup_from.simps array_getnum_def arr_num_length)
  next
    case False
    then have i: "i < length (array_list a)" using Suc.prems by simp
    let ?p = "array_list a ! i"
    obtain t where t: "threads s ?p = Some t" using Suc.prems i by (meson nth_mem)
    have num: "int i < arr_num a" using i Suc.prems(2) by (simp add: arr_num_length)
    show ?thesis
    proof (cases "t_sleepaddr t = Some addr")
      case False
      have step: "wakeup_from mem brk addr (Suc fuel) (int i) s = wakeup_from mem brk addr fuel (int (Suc i)) s"
        using Suc.prems i num t False by (subst wakeup_from.simps) (simp add: array_getnum_def ac_simps)
      have "length (array_list a) - Suc i \<le> fuel" "Suc i \<le> length (array_list a)" using Suc.prems i by simp_all
      from Suc.IH [OF Suc.prems(1-9) this(2,1)] step show ?thesis by simp
    next
      case True
      then have on: "sleeps_on s ?p = Some addr" using t by (simp add: sleeps_on_def)
      obtain a1 where a1: "array_remove (int i) a = Inr ((), a1)" "array_inv a1"
          "array_list a1 = take i (array_list a) @ drop (Suc i) (array_list a)"
        using array_remove_ok [OF Suc.prems(2), of "int i"] num by auto
      have "mset (array_list a) = mset (take i (array_list a) @ ?p # drop (Suc i) (array_list a))"
        using id_take_nth_drop [OF i] by simp
      then have ms: "{#?p#} + mset (array_list a1) = mset (array_list a)" using a1(3) by simp
      let ?s1 = "s\<lparr>sleepers := Some a1\<rparr>"
      have qlen: "length (q_list q) < max_threads" using Suc.prems(6) i by simp
      obtain q1 where q1: "make_runnable mem ?p ?s1 = Inr (Inr (), ?s1\<lparr>runqueue := Some q1\<rparr>)" "q_inv q1"
          "q_size q1 \<le> 2 ^ 28" "q_list q1 = q_list q @ [?p]"
        using make_runnable_ok [of ?s1 q mem ?p] Suc.prems qlen by auto
      let ?s2 = "?s1\<lparr>runqueue := Some q1\<rparr>"
      have step: "wakeup_from mem brk addr (Suc fuel) (int i) s =
          (if brk (int i - 1) then Inr ((), ?s2) else wakeup_from mem brk addr fuel (int i) ?s2)"
        using Suc.prems i num t True a1(1) q1(1) by (subst wakeup_from.simps) (simp add: array_getnum_def)
      have same: "sleeps_on ?s2 = sleeps_on s" by (simp add: sleeps_on_def fun_eq_iff)
      show ?thesis
      proof (cases "brk (int i - 1)")
        case True
        then show ?thesis using step a1(2) q1(2-4) ms on
          by (intro exI [of _ a1] exI [of _ q1] exI [of _ "[?p]"]) simp
      next
        case False
        have sub: "set (array_list a1) \<subseteq> set (array_list a)" using ms by (metis mset_subset_eqD mset_subset_eq_add_right set_mset_mset subsetI)
        have c: "length (array_list a1) - i \<le> fuel" "i \<le> length (array_list a1)" "length (q_list q1) + length (array_list a1) \<le> max_threads"
          using Suc.prems i a1(3) q1(4) by simp_all
        have dom1: "\<forall>p \<in> set (array_list a1). \<exists>t. threads ?s2 p = Some t" using Suc.prems(7) sub by auto
        have s2: "sleepers ?s2 = Some a1" "runqueue ?s2 = Some q1" "curspl ?s2 > 0" using Suc.prems(8) by simp_all
        obtain a2 q2 ws where r: "wakeup_from mem brk addr fuel (int i) ?s2 = Inr ((), ?s2\<lparr>sleepers := Some a2, runqueue := Some q2\<rparr>)"
          "array_inv a2" "q_inv q2" "q_size q2 \<le> 2 ^ 28" "q_list q2 = q_list q1 @ ws" "mset ws + mset (array_list a2) = mset (array_list a1)"
          "\<forall>p \<in> set ws. sleeps_on s p = Some addr"
          using Suc.IH [OF s2(1) a1(2) s2(2) q1(2,3) c(3) dom1 s2(3) Suc.prems(9) c(2,1)] unfolding same by (elim exE conjE)
        have "mset (?p # ws) + mset (array_list a2) = mset (array_list a)" using r(6) ms by simp
        then show ?thesis using r step False q1(4) on
          by (intro exI [of _ a2] exI [of _ q2] exI [of _ "?p # ws"]) simp
      qed
    qed
  qed
qed

lemma thread_wakeup_n_relists:
  assumes s: "tlists s" "known s (sl s)" "curspl s > 0" and mem: "\<forall>b. mem b"
  shows "\<exists>s' ws l. thread_wakeup_n mem addr n s = Inr ((), s') \<and> relisted s (rl s @ ws, l) s' \<and> mset ws + mset l = mset (sl s) \<and>
     (\<forall>p \<in> set ws. sleeps_on s p = Some addr)"
proof -
  obtain a q where a: "sleepers s = Some a" "array_inv a" "runqueue s = Some q" "q_inv q" "q_size q \<le> 2 ^ 28"
    using s(1) by (auto simp: tlists_def)
  have len: "length (q_list q) + length (array_list a) \<le> max_threads"
    using s(1) a by (auto simp: tlists_def rl_def sl_def)
  have dom: "\<forall>p \<in> set (array_list a). \<exists>t. threads s p = Some t" using s(2) a by (simp add: sl_def known_def)
  obtain a' q' ws where r: "wakeup_from mem (\<lambda>i. n - 1 = i) addr (length (array_list a)) (int 0) s = Inr ((), s\<lparr>sleepers := Some a', runqueue := Some q'\<rparr>)"
     "array_inv a'" "q_inv q'" "q_size q' \<le> 2 ^ 28" "q_list q' = q_list q @ ws" "mset ws + mset (array_list a') = mset (array_list a)"
     "\<forall>p \<in> set ws. sleeps_on s p = Some addr"
    using wakeup_from_some [OF a len dom s(3) mem, of 0 "length (array_list a)" "\<lambda>i. n - 1 = i" addr] by auto
  let ?s = "s\<lparr>sleepers := Some a', runqueue := Some q'\<rparr>"
  have "length ws + length (array_list a') = length (array_list a)" using r(6) by (metis size_mset size_union)
  then have "tlists ?s" using s(1) a r(2-5) by (simp add: tlists_def rl_def sl_def zl_def)
  then have "relisted s (rl s @ ws, array_list a') ?s" using a r(5) by (simp add: relisted_def rl_def sl_def)
  moreover have "thread_wakeup_n mem addr n s = Inr ((), ?s)"
    using r(1) a s(3) by (simp add: thread_wakeup_n_def array_getnum_def arr_num_length)
  ultimately show ?thesis using r(6,7) a(1) by (intro exI [of _ ?s] exI [of _ ws] exI [of _ "array_list a'"]) (simp add: sl_def)
qed

lemma wakes_snd: "set (snd (wakes sa addr rs)) \<subseteq> set (snd rs)"
  by (cases rs) auto

lemma wake_all_relists:
  assumes "tlists s" "known s (sl s)" "curspl s > 0" and "\<forall>b. mem b"
  shows "\<exists>s'. wake_all mem addrs s = Inr ((), s') \<and> relisted s (fold (wakes (sleeps_on s)) addrs (rl s, sl s)) s'"
  using assms(1-3)
proof (induction addrs arbitrary: s)
  case Nil
  then show ?case using relisted_refl by auto
next
  case (Cons a addrs)
  obtain s1 where s1: "thread_wakeup mem a s = Inr ((), s1)" "relisted s (wakes (sleeps_on s) a (rl s, sl s)) s1"
    using thread_wakeup_relists [OF Cons.prems assms(4)] by blast
  note d = relistedD [OF s1(2)]
  have "known s1 (sl s1)" using Cons.prems(2) d(7,14) wakes_snd by (fastforce simp: known_def)
  from Cons.IH [OF d(12) this] obtain s2 where s2: "wake_all mem addrs s1 = Inr ((), s2)"
      "relisted s1 (fold (wakes (sleeps_on s1)) addrs (rl s1, sl s1)) s2"
    using Cons.prems(3) d(4) by auto
  have "relisted s (fold (wakes (sleeps_on s)) (a # addrs) (rl s, sl s)) s2"
    using relisted_trans [OF s1(2) s2(2)] d(11,13,14) by simp
  with s1(1) s2(1) show ?case by (intro exI [of _ s2]) simp
qed

lemma cpu_idle_relists:
  assumes "tlists s" "known s (sl s)" "curspl s > 0" and "\<forall>b. mem b"
  shows "\<exists>s'. cpu_idle mem addrs s = Inr ((), s') \<and> relisted s (fold (wakes (sleeps_on s)) addrs (rl s, sl s)) s'"
proof -
  let ?s = "s\<lparr>in_interrupt := 1\<rparr>"
  have e: "tlists ?s" "known ?s (sl ?s)" "rl ?s = rl s" "sl ?s = sl s" "sleeps_on ?s = sleeps_on s"
    using assms(1,2) by (simp_all add: tlists_def known_def rl_def sl_def zl_def sleeps_on_def fun_eq_iff)
  obtain s1 where s1: "wake_all mem addrs ?s = Inr ((), s1)" "relisted ?s (fold (wakes (sleeps_on s)) addrs (rl s, sl s)) s1"
    using wake_all_relists [OF e(1,2) _ assms(4), of addrs] assms(3) e by auto
  let ?r = "s1\<lparr>in_interrupt := in_interrupt s\<rparr>"
  have "?r = s\<lparr>sleepers := sleepers ?r, runqueue := runqueue ?r\<rparr>"
    using s1(2) by (cases s; cases s1) (simp add: relisted_def)
  moreover have "tlists ?r" "(rl ?r, sl ?r) = (rl s1, sl s1)"
    using relistedD(12) [OF s1(2)] by (simp_all add: tlists_def rl_def sl_def zl_def)
  ultimately have "relisted s (fold (wakes (sleeps_on s)) addrs (rl s, sl s)) ?r"
    using s1(2) unfolding relisted_def by auto
  moreover have "cpu_idle mem addrs s = Inr ((), ?r)" using s1(1) assms(3) by (simp add: cpu_idle_def mips_interrupt_def)
  ultimately show ?thesis by blast
qed

lemma tlists_queue:
  assumes "tlists s"
  obtains q where "runqueue s = Some q" "q_inv q" "q_list q = rl s" "q_empty q \<longleftrightarrow> rl s = []"
proof -
  obtain q where q: "runqueue s = Some q" "q_inv q" "q_size q \<le> 2 ^ 28" using assms by (auto simp: tlists_def)
  moreover have "q_empty q \<longleftrightarrow> q_list q = []" using q(2,3) runq.empty_iff [of q] by (simp add: q_usable_def)
  ultimately show thesis using that by (simp add: rl_def)
qed

lemma fold_wakes_snd: "set (snd (fold (wakes sa) addrs rs)) \<subseteq> set (snd rs)"
  by (induction addrs arbitrary: rs) (use wakes_snd in fastforce)+

lemma idle_loop_relists:
  assumes "tlists s" "known s (sl s)" "curspl s > 0" and "\<forall>b. mem b"
  shows "case idle_until (sleeps_on s) idle (rl s, sl s) of
     None \<Rightarrow> idle_loop mem idle s = Inl OutOfFuel
   | Some rs \<Rightarrow> \<exists>s'. idle_loop mem idle s = Inr ((), s') \<and> relisted s rs s'"
  using assms(1-3)
proof (induction idle arbitrary: s)
  case Nil
  from Nil(1) obtain q where "runqueue s = Some q" "q_empty q \<longleftrightarrow> rl s = []" by (rule tlists_queue)
  then show ?case using relisted_refl [OF Nil(1)] by auto
next
  case (Cons addrs idle)
  from Cons.prems(1) obtain q where q: "runqueue s = Some q" "q_empty q \<longleftrightarrow> rl s = []" by (rule tlists_queue)
  show ?case
  proof (cases "rl s = []")
    case False
    with q relisted_refl [OF Cons.prems(1)] show ?thesis by auto
  next
    case True
    obtain s1 where s1: "cpu_idle mem addrs s = Inr ((), s1)" "relisted s (fold (wakes (sleeps_on s)) addrs (rl s, sl s)) s1"
      using cpu_idle_relists [OF Cons.prems assms(4)] by blast
    note d = relistedD [OF s1(2)]
    have k: "known s1 (sl s1)" using Cons.prems(2) d(7,14) fold_wakes_snd by (fastforce simp: known_def)
    have e: "idle_until (sleeps_on s) (addrs # idle) (rl s, sl s) = idle_until (sleeps_on s1) idle (rl s1, sl s1)"
      using True d(11,13,14) by simp
    have r: "idle_loop mem (addrs # idle) s = idle_loop mem idle s1" using q True s1(1) by simp
    have "curspl s1 > 0" using Cons.prems(3) d(4) by simp
    from Cons.IH [OF d(12) k this] show ?thesis
      unfolding e r using relisted_trans [OF s1(2)] by (auto split: option.splits)
  qed
qed

lemma scheduler_relists:
  assumes "tlists s" "known s (sl s)" "curspl s > 0" "\<forall>b. mem b"
    and idle: "idle_until (sleeps_on s) idle (rl s, sl s) = Some (n # r, l)"
  shows "\<exists>s'. scheduler mem idle s = Inr (Some n, s') \<and> relisted s (r, l) s'"
proof -
  obtain s1 where s1: "idle_loop mem idle s = Inr ((), s1)" "relisted s (n # r, l) s1"
    using idle_loop_relists [OF assms(1-4), of idle] idle by auto
  note d = relistedD [OF s1(2)]
  obtain q where q: "runqueue s1 = Some q" "q_inv q" "q_list q = n # r" "q_size q \<le> 2 ^ 28"
    using d(12,13) by (auto simp: tlists_def rl_def)
  obtain q' where q': "q_remhead q = Inr (Some n, q')" "q_inv q'" "q_list q' = r" "q_size q' = q_size q"
    using q_remhead_ok [OF q(2,3)] by blast
  let ?s = "s1\<lparr>runqueue := Some q'\<rparr>"
  have "tlists ?s" using d(12,13) q(4) q' by (auto simp: tlists_def rl_def sl_def zl_def)
  moreover have "?s = s\<lparr>sleepers := sleepers ?s, runqueue := runqueue ?s\<rparr>"
    using s1(2) by (cases s; cases s1) (simp add: relisted_def)
  ultimately have "relisted s (r, l) ?s" using d(14) q'(3) unfolding relisted_def by (simp add: rl_def sl_def)
  moreover have "scheduler mem idle s = Inr (Some n, ?s)"
    using assms(3) s1(1) q(1) q'(1) by (simp add: scheduler_def)
  ultimately show ?thesis by blast
qed

section \<open>Zombies\<close>

lemma array_setsize_0:
  assumes "array_inv a"
  shows "\<exists>a'. array_setsize mem 0 a = Inr (Inr (), a') \<and> array_inv a' \<and> array_list a' = []"
proof -
  have sh: "0 \<le> arr_num a" "arr_num a \<le> arr_max a" "arr_max a < 2 ^ 30" "arr_max a > 16 \<Longrightarrow> arr_v a \<noteq> None"
    "case arr_v a of None \<Rightarrow> arr_max a = 0 | Some v \<Rightarrow> int (length v) = arr_max a"
    using assms by (auto simp: array_inv_def array_shape_def split: option.splits)
  show ?thesis
  proof (cases "arr_max a > 16")
    case True
    with sh show ?thesis
      by (intro exI [of _ "a\<lparr>arr_v := None, arr_max := 0, arr_num := 0\<rparr>"])
         (simp add: array_setsize_def array_inv_def array_shape_def array_list_def array_cells_def)
  next
    case False
    with sh show ?thesis
      by (intro exI [of _ "a\<lparr>arr_num := 0\<rparr>"])
         (auto simp: array_setsize_def array_inv_def array_shape_def array_list_def array_cells_def split: option.splits)
  qed
qed

text \<open>A thread that has been through \<^verbatim>\<open>thread_exit\<close>.\<close>

definition clean :: "'c tsys \<Rightarrow> nat \<Rightarrow> bool" where
  "clean s p \<longleftrightarrow> (\<exists>t. threads s p = Some t \<and> t_vmspace t = None \<and> t_cwd t = None)"

lemma thread_destroy_ok:
  "clean s p \<Longrightarrow> curthread s \<noteq> Some p \<Longrightarrow> thread_destroy p s = Inr ((), s\<lparr>threads := (threads s)(p := None)\<rparr>)"
  by (auto simp: clean_def thread_destroy_def free_thread_def)

lemma exorcise_from_ok:
  assumes "zombies s = Some z" and "array_inv z" and "i + n = length (array_list z)"
    and "\<forall>p \<in> set (drop i (array_list z)). clean s p \<and> curthread s \<noteq> Some p" and "distinct (array_list z)"
  shows "exorcise_from n (int i) s = Inr ((), s\<lparr>threads := threads s |` (- set (drop i (array_list z)))\<rparr>)"
  using assms
proof (induction n arbitrary: s i)
  case 0
  then show ?case by (cases s) simp
next
  case (Suc n)
  then have i: "i < length (array_list z)" by simp
  let ?p = "array_list z ! i"
  have d: "drop i (array_list z) = ?p # drop (Suc i) (array_list z)" by (rule Cons_nth_drop_Suc [OF i, symmetric])
  let ?s = "s\<lparr>threads := (threads s)(?p := None)\<rparr>"
  have p: "clean s ?p" "curthread s \<noteq> Some ?p" using Suc.prems(4) d by auto
  have nin: "?p \<notin> set (drop (Suc i) (array_list z))" using Suc.prems(5) distinct_drop [of "array_list z" i] d by simp
  have "exorcise_from (Suc n) (int i) s = exorcise_from n (int (Suc i)) ?s"
    using Suc.prems(1,2) i thread_destroy_ok [OF p] p(2) by (simp add: ac_simps)
  also have "\<dots> = Inr ((), ?s\<lparr>threads := threads ?s |` (- set (drop (Suc i) (array_list z)))\<rparr>)"
  proof (rule Suc.IH)
    show "\<forall>p \<in> set (drop (Suc i) (array_list z)). clean ?s p \<and> curthread ?s \<noteq> Some p"
      using Suc.prems(4) d nin by (auto simp: clean_def)
  qed (use Suc.prems in simp_all)
  also have "threads ?s |` (- set (drop (Suc i) (array_list z))) = threads s |` (- set (drop i (array_list z)))"
    unfolding d by (auto simp: restrict_map_def fun_eq_iff)
  finally show ?case by simp
qed

lemma exorcise_ok:
  assumes "tlists s" and "\<forall>p \<in> set (zl s). clean s p \<and> curthread s \<noteq> Some p" and "distinct (zl s)" and "curspl s > 0"
  shows "\<exists>z. exorcise mem s = Inr ((), s\<lparr>threads := threads s |` (- set (zl s)), zombies := Some z\<rparr>) \<and>
     array_inv z \<and> array_list z = []"
proof -
  obtain z where z: "zombies s = Some z" "array_inv z" using assms(1) by (auto simp: tlists_def)
  then have zl: "array_list z = zl s" by (simp add: zl_def)
  let ?s = "s\<lparr>threads := threads s |` (- set (zl s))\<rparr>"
  have "exorcise_from (length (array_list z)) (int 0) s = Inr ((), ?s)"
    using exorcise_from_ok [OF z, of 0 "length (array_list z)"] assms(2,3) zl by simp
  moreover obtain z' where "array_setsize mem 0 z = Inr (Inr (), z')" "array_inv z'" "array_list z' = []"
    using array_setsize_0 [OF z(2)] by blast
  ultimately show ?thesis using z assms(4)
    by (intro exI [of _ z']) (simp add: exorcise_def array_getnum_def arr_num_length)
qed

section \<open>The switch\<close>

definition frame_of :: "'c tsys \<Rightarrow> nat \<Rightarrow> 'c frame option" where
  "frame_of s p = (case threads s p of None \<Rightarrow> None | Some t \<Rightarrow> pcb_frame t)"

definition pirq :: "'c tsys \<Rightarrow> nat \<Rightarrow> int" where
  "pirq s p = (case threads s p of None \<Rightarrow> 0 | Some t \<Rightarrow> pcb_ininterrupt t)"

definition parked :: "'c tsys \<Rightarrow> nat \<Rightarrow> bool" where
  "parked s p \<longleftrightarrow> frame_of s p \<noteq> None \<and> frame_of s p \<noteq> Some ExitF"

definition asleep :: "'c tsys \<Rightarrow> nat \<Rightarrow> bool" where
  "asleep s p \<longleftrightarrow> (\<exists>k. frame_of s p = Some (SleepF k)) \<and> sleeps_on s p \<noteq> None"

definition magic_ok :: "'c tsys \<Rightarrow> bool" where
  "magic_ok s \<longleftrightarrow> (\<forall>p t. threads s p = Some t \<longrightarrow> t_stack t \<noteq> None \<longrightarrow> t_magic t = stack_magic)"

text \<open>
  The invariant, with the running thread \<open>c\<close>.  Every thread is in exactly one place: it runs, or
  is on the run queue, among the sleepers or among the zombies.
\<close>

definition tcore :: "'c tsys \<Rightarrow> nat \<Rightarrow> bool" where
  "tcore s c \<longleftrightarrow> tlists s \<and> Suc (length (rl s) + length (sl s) + length (zl s)) < max_threads \<and>
     curthread s = Some c \<and> distinct (c # rl s @ sl s @ zl s) \<and> known s (c # rl s @ sl s) \<and>
     (\<forall>p \<in> set (rl s). parked s p) \<and> (\<forall>p \<in> set (sl s). asleep s p) \<and> (\<forall>p \<in> set (zl s). clean s p) \<and> magic_ok s"

definition tinv :: "'c tsys \<Rightarrow> bool" where
  "tinv s \<longleftrightarrow> (\<exists>c. tcore s c) \<and> numthreads s = 1 + int (length (rl s)) + int (length (sl s))"

fun stashed :: "threadstate_t \<Rightarrow> nat \<Rightarrow> nat list \<times> nat list \<Rightarrow> nat list \<times> nat list" where
  "stashed S_READY c (r, l) = (r @ [c], l)"
| "stashed S_SLEEP c (r, l) = (r, l @ [c])"
| "stashed _ c (r, l) = (r, l)"

lemma asleep_parked: "asleep s p \<Longrightarrow> parked s p"
  by (auto simp: asleep_def parked_def)

lemma array_add_ok:
  assumes "array_inv a" and "length (array_list a) < max_threads" and "\<forall>b. mem b"
  shows "\<exists>a'. array_add mem x a = Inr (Inr (), a') \<and> array_inv a' \<and> array_list a' = array_list a @ [x]"
proof -
  have "arr_num a < 2 ^ 29 - 1" using assms(1,2) by (simp add: arr_num_length)
  then show ?thesis by (rule array_add_cases [OF assms(1), of mem x]) (use assms(3) in auto)
qed

lemma tlists_arrays:
  assumes "tlists s"
  obtains a z q where "sleepers s = Some a" "array_inv a" "array_list a = sl s" "zombies s = Some z" "array_inv z"
    "array_list z = zl s" "runqueue s = Some q" "q_inv q" "q_size q \<le> 2 ^ 28" "q_list q = rl s"
  using assms by (auto simp: tlists_def rl_def sl_def zl_def)

text \<open>\<open>s'\<close> is \<open>s\<close> with other contents of the three lists.\<close>

definition relisted3 :: "'c tsys \<Rightarrow> nat list \<times> nat list \<Rightarrow> nat list \<Rightarrow> 'c tsys \<Rightarrow> bool" where
  "relisted3 s rs z s' \<longleftrightarrow>
     s' = s\<lparr>sleepers := sleepers s', zombies := zombies s', runqueue := runqueue s'\<rparr> \<and> tlists s' \<and>
     (rl s', sl s') = rs \<and> zl s' = z"

lemma relisted3D:
  assumes "relisted3 s rs z s'"
  shows "curthread s' = curthread s" "numthreads s' = numthreads s"
    "curspl s' = curspl s" "in_interrupt s' = in_interrupt s" "curkstack s' = curkstack s" "threads s' = threads s"
    "vn_refs s' = vn_refs s" "as_calls s' = as_calls s" "zl s' = z" "sleeps_on s' = sleeps_on s"
    "tlists s'" "rl s' = fst rs" "sl s' = snd rs"
proof -
  have e: "s' = s\<lparr>sleepers := sleepers s', zombies := zombies s', runqueue := runqueue s'\<rparr>" using assms by (simp add: relisted3_def)
  show "curthread s' = curthread s" "numthreads s' = numthreads s"
    "curspl s' = curspl s" "in_interrupt s' = in_interrupt s" "curkstack s' = curkstack s" "threads s' = threads s"
    "vn_refs s' = vn_refs s" "as_calls s' = as_calls s"
    by (subst e, simp)+
  then show "sleeps_on s' = sleeps_on s" by (simp add: sleeps_on_def fun_eq_iff)
  show "tlists s'" "rl s' = fst rs" "sl s' = snd rs" "zl s' = z" using assms by (auto simp: relisted3_def)
qed

lemma relisted_relisted3:
  assumes "relisted3 s rs z s'" and "relisted s' rs' s''"
  shows "relisted3 s rs' z s''"
proof -
  have "s'' = s'\<lparr>sleepers := sleepers s'', runqueue := runqueue s''\<rparr>" "zombies s'' = zombies s'"
    using assms(2) relistedD(2) [OF assms(2)] by (simp_all add: relisted_def)
  then have "s'' = s\<lparr>sleepers := sleepers s'', zombies := zombies s'', runqueue := runqueue s''\<rparr>"
    using assms(1) by (cases s; cases s'; cases s'') (simp add: relisted3_def)
  then show ?thesis using assms relistedD(10) [OF assms(2)] by (simp add: relisted3_def relisted_def)
qed

lemma stash_relists:
  assumes "tlists s" and "Suc (length (rl s) + length (sl s) + length (zl s)) < max_threads"
    and "curspl s > 0" and mem: "\<forall>b. mem b" and "st \<noteq> S_RUN"
  shows "\<exists>s'. stash mem st c s = Inr (Inr (), s') \<and>
     relisted3 s (stashed st c (rl s, sl s)) (if st = S_ZOMB then zl s @ [c] else zl s) s'"
proof -
  from assms(1) obtain a z q where l: "sleepers s = Some a" "array_inv a" "array_list a = sl s" "zombies s = Some z" "array_inv z"
    "array_list z = zl s" "runqueue s = Some q" "q_inv q" "q_size q \<le> 2 ^ 28" "q_list q = rl s" by (rule tlists_arrays)
  consider "st = S_READY" | "st = S_SLEEP" | "st = S_ZOMB" using assms(5) by (cases st) auto
  then show ?thesis
  proof cases
    case 1
    obtain q' where q': "make_runnable mem c s = Inr (Inr (), s\<lparr>runqueue := Some q'\<rparr>)" "q_inv q'" "q_size q' \<le> 2 ^ 28"
        "q_list q' = q_list q @ [c]"
      using make_runnable_ok [OF l(7-9) _ assms(3) mem, of c] assms(2) l(10) by auto
    have "relisted3 s (rl s @ [c], sl s) (zl s) (s\<lparr>runqueue := Some q'\<rparr>)"
      using l q' assms(2) by (cases s) (simp add: relisted3_def tlists_def rl_def sl_def zl_def)
    then show ?thesis using 1 q'(1) by (simp add: stash_def)
  next
    case 2
    obtain a' where a': "array_add mem c a = Inr (Inr (), a')" "array_inv a'" "array_list a' = array_list a @ [c]"
      using array_add_ok [OF l(2) _ mem, of c] assms(2) l(3) by auto
    have "relisted3 s (rl s, sl s @ [c]) (zl s) (s\<lparr>sleepers := Some a'\<rparr>)"
      using l a' assms(2) by (cases s) (simp add: relisted3_def tlists_def rl_def sl_def zl_def)
    then show ?thesis using 2 a'(1) l(1) by (simp add: stash_def)
  next
    case 3
    obtain a' where a': "array_add mem c z = Inr (Inr (), a')" "array_inv a'" "array_list a' = array_list z @ [c]"
      using array_add_ok [OF l(5) _ mem, of c] assms(2) l(6) by auto
    have "relisted3 s (rl s, sl s) (zl s @ [c]) (s\<lparr>zombies := Some a'\<rparr>)"
      using l a' assms(2) by (cases s) (simp add: relisted3_def tlists_def rl_def sl_def zl_def)
    then show ?thesis using 3 a'(1) l(4) by (simp add: stash_def)
  qed
qed

text \<open>Waking up moves threads and neither loses nor duplicates one.\<close>

lemma wakes_mset: "mset (fst (wakes sa a rs)) + mset (snd (wakes sa a rs)) = mset (fst rs) + mset (snd rs)"
proof (cases rs)
  case (Pair r l)
  have "mset (filter (\<lambda>p. sa p = Some a) l) + mset (filter (\<lambda>p. sa p \<noteq> Some a) l) = mset l"
    using multiset_partition [of "mset l" "\<lambda>p. sa p = Some a"] by (simp add: mset_filter)
  then show ?thesis using Pair by (simp add: add.assoc)
qed

lemma fold_wakes_mset:
  "mset (fst (fold (wakes sa) as rs)) + mset (snd (fold (wakes sa) as rs)) = mset (fst rs) + mset (snd rs)"
  by (induction as arbitrary: rs) (simp_all add: wakes_mset)

lemma idle_until_mset:
  "idle_until sa idle rs = Some (r, l) \<Longrightarrow> mset r + mset l = mset (fst rs) + mset (snd rs) \<and> set l \<subseteq> set (snd rs)"
proof (induction idle arbitrary: rs)
  case Nil
  then show ?case by (auto split: if_splits)
next
  case (Cons as idle)
  show ?case
  proof (cases "fst rs = []")
    case False
    then show ?thesis using Cons.prems by auto
  next
    case True
    then have "idle_until sa idle (fold (wakes sa) as rs) = Some (r, l)" using Cons.prems by simp
    from Cons.IH [OF this] show ?thesis using fold_wakes_mset [of sa as rs] fold_wakes_snd [of sa as rs] by auto
  qed
qed

lemma idle_until_facts:
  assumes "idle_until sa idle (r0, l0) = Some (r, l)"
  shows "set r \<union> set l = set r0 \<union> set l0" and "set l \<subseteq> set l0"
    and "distinct (r @ l @ z) = distinct (r0 @ l0 @ z)" and "length r + length l = length r0 + length l0"
proof -
  have m: "mset (r @ l) = mset (r0 @ l0)" and "set l \<subseteq> set l0" using idle_until_mset [OF assms] by auto
  then show "set r \<union> set l = set r0 \<union> set l0" "set l \<subseteq> set l0" using mset_eq_setD [OF m] by auto
  have "mset (r @ l @ z) = mset (r0 @ l0 @ z)" using m by simp
  then show "distinct (r @ l @ z) = distinct (r0 @ l0 @ z)" by (rule mset_eq_imp_distinct_iff)
  show "length r + length l = length r0 + length l0" using mset_eq_length [OF m] by simp
qed

text \<open>The thread table after the switch from \<open>c\<close> to \<open>n\<close>.\<close>

definition switched :: "'c frame \<Rightarrow> nat \<Rightarrow> nat \<Rightarrow> 'c tsys \<Rightarrow> nat \<Rightarrow> 'c thread option" where
  "switched fr c n s = (if c = n then threads s
     else (threads s)(c := map_option (\<lambda>t. t\<lparr>pcb_kstack := curkstack s, pcb_ininterrupt := in_interrupt s,
       pcb_frame := Some fr\<rparr>) (threads s c)))"

lemma md_switch_ok:
  assumes "threads s c = Some tc" and "threads s n = Some tn" and "c \<noteq> n \<Longrightarrow> pcb_frame tn = Some f" and "c = n \<Longrightarrow> f = fr"
  shows "\<exists>k. md_switch fr c n s = Inr (f, s\<lparr>threads := switched fr c n s, curkstack := k,
     in_interrupt := (if c = n then in_interrupt s else pirq s n)\<rparr>)"
proof (cases "c = n")
  case True
  have "s\<lparr>threads := threads s, curkstack := curkstack s, in_interrupt := in_interrupt s\<rparr> = s" by simp
  then show ?thesis using True assms(4)
    by (intro exI [of _ "curkstack s"]) (simp add: md_switch_def switched_def)
next
  case False
  then show ?thesis using assms
    by (intro exI [of _ "pcb_kstack tn"]) (simp add: md_switch_def switched_def pirq_def)
qed

lemma activate_cur_ok:
  assumes "curthread s = Some n" and "threads s n = Some t"
  shows "\<exists>as. activate_cur s = Inr ((), s\<lparr>as_calls := as\<rparr>)"
proof (cases "t_vmspace t")
  case None
  have "s = s\<lparr>as_calls := as_calls s\<rparr>" by simp
  then show ?thesis using assms None by (intro exI [of _ "as_calls s"]) (simp add: activate_cur_def get_cur_def)
next
  case (Some v)
  then show ?thesis using assms by (intro exI [of _ "as_calls s @ [As_activate v]"])
    (simp add: activate_cur_def get_cur_def call_as_def)
qed

text \<open>The part of \<^verbatim>\<open>mi_switch\<close> behind the machine-dependent switch.\<close>

definition switch_tail :: "(nat \<Rightarrow> bool) \<Rightarrow> 'c frame \<Rightarrow> ('c tsys, 'c frame) kern" where
  "switch_tail mem f =
     (if is_start f then kret f else kbind (exorcise mem) (\<lambda>_. kbind activate_cur (\<lambda>_. kret f)))"

lemma switch_tail_ok:
  assumes "tlists s" and "curthread s = Some n" and "threads s n = Some t" and "curspl s > 0" and "n \<notin> set (zl s)"
    and "\<forall>p \<in> set (zl s). clean s p" and "distinct (zl s)"
  shows "\<exists>s'. switch_tail mem f s = Inr (f, s') \<and> tlists s' \<and> rl s' = rl s \<and> sl s' = sl s \<and>
     zl s' = (if is_start f then zl s else []) \<and> (\<forall>p. p \<notin> set (zl s) \<longrightarrow> threads s' p = threads s p) \<and>
     (\<forall>p t. threads s' p = Some t \<longrightarrow> threads s p = Some t) \<and> (is_start f \<longrightarrow> threads s' = threads s) \<and>
     curthread s' = Some n \<and> numthreads s' = numthreads s \<and> curspl s' = curspl s \<and> vn_refs s' = vn_refs s \<and>
     in_interrupt s' = in_interrupt s"
proof (cases "is_start f")
  case True
  then show ?thesis using assms by (simp add: switch_tail_def)
next
  case False
  have ne: "\<forall>p \<in> set (zl s). clean s p \<and> curthread s \<noteq> Some p" using assms by auto
  obtain z where z: "exorcise mem s = Inr ((), s\<lparr>threads := threads s |` (- set (zl s)), zombies := Some z\<rparr>)"
     "array_inv z" "array_list z = []"
    using exorcise_ok [OF assms(1) ne assms(7,4)] by blast
  let ?s = "s\<lparr>threads := threads s |` (- set (zl s)), zombies := Some z\<rparr>"
  have "curthread ?s = Some n" "threads ?s n = Some t" using assms by simp_all
  then obtain as where "activate_cur ?s = Inr ((), ?s\<lparr>as_calls := as\<rparr>)" using activate_cur_ok by blast
  then show ?thesis using False z assms(1,2)
    by (intro exI [of _ "?s\<lparr>as_calls := as\<rparr>"])
       (simp add: switch_tail_def tlists_def rl_def sl_def zl_def restrict_map_def split: if_splits)
qed

lemma mi_switch_unfold:
  assumes "curspl s > 0" and "curthread s = Some c" and "threads s c = Some t" and "magic_ok s"
    and "stash mem st c (s\<lparr>curthread := None\<rparr>) = Inr (Inr (), s2)"
    and "scheduler mem idle s2 = Inr (Some n, s3)"
    and "md_switch fr c n (s3\<lparr>curthread := Some n\<rparr>) = Inr (f, s4)"
  shows "mi_switch mem idle fr st s = switch_tail mem f s4"
proof -
  have "check_magic t s = Inr ((), s)" using assms(3,4) by (auto simp: check_magic_def magic_ok_def)
  then show ?thesis using assms by (simp add: mi_switch_def switch_tail_def)
qed

lemma switched_keeps:
  "c \<noteq> p \<Longrightarrow> switched fr c n s p = threads s p"
  "switched fr c n s p = Some t' \<Longrightarrow> \<exists>t. threads s p = Some t \<and> t_sleepaddr t' = t_sleepaddr t \<and> t_stack t' = t_stack t \<and>
     t_magic t' = t_magic t \<and> t_vmspace t' = t_vmspace t \<and> t_cwd t' = t_cwd t \<and>
     pcb_frame t' = (if p = c \<and> c \<noteq> n then Some fr else pcb_frame t)"
  by (auto simp: switched_def split: if_splits)

lemma mi_switch_ok:
  fixes s :: "'c tsys"
  assumes core: "tcore s c" and spl: "curspl s > 0" and mem: "\<forall>b. mem b" and st: "st \<noteq> S_RUN"
    and ready: "st = S_READY \<Longrightarrow> fr \<noteq> ExitF" and sleep: "st = S_SLEEP \<Longrightarrow> (\<exists>k. fr = SleepF k) \<and> sleeps_on s c \<noteq> None"
    and zomb: "st = S_ZOMB \<Longrightarrow> clean s c"
    and idle: "idle_until (sleeps_on s) idle (stashed st c (rl s, sl s)) = Some (n # r, l)"
  shows "\<exists>f s'. mi_switch mem idle fr st s = Inr (f, s') \<and> tcore s' n \<and> rl s' = r \<and> sl s' = l \<and>
     zl s' = (if is_start f then if st = S_ZOMB then zl s @ [c] else zl s else []) \<and>
     (\<forall>p \<in> set (n # r @ l). threads s' p = switched fr c n s p) \<and>
     (\<forall>p t. threads s' p = Some t \<longrightarrow> switched fr c n s p = Some t) \<and>
     numthreads s' = numthreads s \<and> curspl s' = curspl s \<and> vn_refs s' = vn_refs s \<and>
     (c = n \<longrightarrow> f = fr) \<and> (c \<noteq> n \<longrightarrow> frame_of s n = Some f) \<and>
     in_interrupt s' = (if c = n then in_interrupt s else pirq s n)"
proof -
  let ?z = "if st = S_ZOMB then zl s @ [c] else zl s"
  have ls: "tlists s" and len: "Suc (length (rl s) + length (sl s) + length (zl s)) < max_threads"
    and cur: "curthread s = Some c" and dist: "distinct (c # rl s @ sl s @ zl s)" and kn: "known s (c # rl s @ sl s)"
    and pk: "\<forall>p \<in> set (rl s). parked s p" and sp: "\<forall>p \<in> set (sl s). asleep s p"
    and cl: "\<forall>p \<in> set (zl s). clean s p" and mg: "magic_ok s"
    using core unfolding tcore_def by blast+
  let ?s1 = "s\<lparr>curthread := None\<rparr>"
  have e1: "rl ?s1 = rl s" "sl ?s1 = sl s" "zl ?s1 = zl s" "sleeps_on ?s1 = sleeps_on s"
    by (simp_all add: rl_def sl_def zl_def sleeps_on_def fun_eq_iff)
  have "tlists ?s1" using ls unfolding tlists_def e1 by simp
  moreover have "Suc (length (rl ?s1) + length (sl ?s1) + length (zl ?s1)) < max_threads" using len unfolding e1 .
  moreover have "curspl ?s1 > 0" using spl by simp
  ultimately obtain s2 where s2: "stash mem st c ?s1 = Inr (Inr (), s2)" "relisted3 ?s1 (stashed st c (rl s, sl s)) ?z s2"
    using stash_relists [OF _ _ _ mem st, of ?s1 c] unfolding e1 by blast
  note d2 = relisted3D [OF s2(2)]
  obtain r0 l0 where rl0: "stashed st c (rl s, sl s) = (r0, l0)" by (cases "stashed st c (rl s, sl s)")
  have set0: "set r0 \<union> set l0 \<union> set ?z = {c} \<union> set (rl s) \<union> set (sl s) \<union> set (zl s)"
    "set r0 \<union> set l0 \<subseteq> {c} \<union> set (rl s) \<union> set (sl s)" "set r0 \<subseteq> {c} \<union> set (rl s)" "set l0 \<subseteq> {c} \<union> set (sl s)"
    "c \<in> set r0 \<Longrightarrow> st = S_READY" "c \<in> set l0 \<Longrightarrow> st = S_SLEEP" "c \<in> set r0 \<union> set l0 \<union> set ?z"
    and dist0: "distinct (r0 @ l0 @ ?z)" and len0: "length r0 + length l0 + length ?z = Suc (length (rl s) + length (sl s) + length (zl s))"
    using rl0 dist st by (cases st; auto)+
  have kn0: "known s (r0 @ l0)" using kn set0(2) unfolding known_def by auto
  have thr2: "threads s2 = threads s" and sa2: "sleeps_on s2 = sleeps_on s" and spl2: "curspl s2 > 0"
    using d2(3,6,10) e1(4) spl by simp_all
  have lists2: "rl s2 = r0" "sl s2 = l0" using d2(12,13) rl0 by simp_all
  have kn2: "known s2 (sl s2)" using kn0 thr2 lists2 by (simp add: known_def)
  obtain s3 where s3: "scheduler mem idle s2 = Inr (Some n, s3)" "relisted s2 (r, l) s3"
    using scheduler_relists [OF d2(11) kn2 spl2 mem, of idle n r l] idle sa2 lists2 rl0 by auto
  have R3: "relisted3 ?s1 (r, l) ?z s3" by (rule relisted_relisted3 [OF s2(2) s3(2)])
  note d3 = relisted3D [OF R3]
  have idle': "idle_until (sleeps_on s) idle (r0, l0) = Some (n # r, l)" using idle rl0 by simp
  note f = idle_until_facts [OF idle']
  have distn: "distinct (n # r @ l @ ?z)" using f(3) [of ?z] dist0 by simp
  have nin: "n \<in> set r0 \<union> set l0" using f(1) by auto
  obtain tn where tn: "threads s n = Some tn" using kn0 nin unfolding known_def by auto
  obtain tc where tc: "threads s c = Some tc" using kn by (auto simp: known_def)
  have fr_n: "c \<noteq> n \<Longrightarrow> \<exists>f. pcb_frame tn = Some f \<and> f \<noteq> ExitF"
    using nin set0(2) pk sp tn by (fastforce simp: parked_def asleep_def frame_of_def)
  define fn where "fn = (if c = n then fr else the (pcb_frame tn))"
  have fn': "c \<noteq> n \<Longrightarrow> pcb_frame tn = Some fn" "c = n \<Longrightarrow> fn = fr" using fr_n by (auto simp: fn_def)
  let ?s3 = "s3\<lparr>curthread := Some n\<rparr>"
  have t3: "threads ?s3 = threads s" "switched fr c n ?s3 = switched fr c n s"
    using d3(4,5,6) by (simp_all add: switched_def fun_eq_iff)
  define i where "i = (if c = n then in_interrupt s else pirq s n)"
  have i3: "(if c = n then in_interrupt ?s3 else pirq ?s3 n) = i" using d3(4,6) by (simp add: i_def pirq_def)
  obtain k where sw: "md_switch fr c n ?s3 = Inr (fn, ?s3\<lparr>threads := switched fr c n s, curkstack := k, in_interrupt := i\<rparr>)"
    using md_switch_ok [of ?s3 c tc n tn fn fr] tc tn fn' unfolding t3 i3 by blast
  let ?s4 = "?s3\<lparr>threads := switched fr c n s, curkstack := k, in_interrupt := i\<rparr>"
  have e4: "rl ?s4 = r" "sl ?s4 = l" "zl ?s4 = ?z" "tlists ?s4" "curthread ?s4 = Some n" "curspl ?s4 = curspl s"
    "numthreads ?s4 = numthreads s" "vn_refs ?s4 = vn_refs s" "threads ?s4 = switched fr c n s" "in_interrupt ?s4 = i"
    using d3 by (simp_all add: rl_def sl_def zl_def tlists_def)
  have clz: "\<forall>p \<in> set ?z. clean s p" using cl zomb by auto
  have clz4: "\<forall>p \<in> set (zl ?s4). clean ?s4 p"
    using clz unfolding e4(3) by (fastforce simp: clean_def switched_def)
  obtain tn' where tn': "threads ?s4 n = Some tn'" using tn by (auto simp: switched_def)
  have "curspl ?s4 > 0" "n \<notin> set (zl ?s4)" "distinct (zl ?s4)" using e4 spl distn by simp_all
  then obtain s' where s': "switch_tail mem fn ?s4 = Inr (fn, s')" "tlists s'" "rl s' = r" "sl s' = l"
     "zl s' = (if is_start fn then ?z else [])" "\<forall>p. p \<notin> set ?z \<longrightarrow> threads s' p = switched fr c n s p"
     "\<forall>p t. threads s' p = Some t \<longrightarrow> switched fr c n s p = Some t" "is_start fn \<longrightarrow> threads s' = switched fr c n s"
     "curthread s' = Some n" "numthreads s' = numthreads s" "curspl s' = curspl s" "vn_refs s' = vn_refs s" "in_interrupt s' = i"
    using switch_tail_ok [OF e4(4,5) tn' _ _ clz4, of mem fn] unfolding e4 by blast
  have run: "mi_switch mem idle fr st s = Inr (fn, s')"
    using mi_switch_unfold [OF spl cur tc mg s2(1) s3(1) sw] s'(1) by simp
  have thr': "\<forall>p \<in> set (n # r @ l). threads s' p = switched fr c n s p"
    using s'(6) distn by auto
  have kn': "known s' (n # r @ l)"
    unfolding known_def
  proof
    fix p
    assume p: "p \<in> set (n # r @ l)"
    then have "p \<in> set r0 \<union> set l0" using f(1) by auto
    then obtain t where "threads s p = Some t" using kn0 unfolding known_def by auto
    then show "\<exists>t. threads s' p = Some t" using thr' p by (auto simp: switched_def)
  qed
  have fo: "frame_of s' p = (if p = c \<and> c \<noteq> n then Some fr else frame_of s p)" "sleeps_on s' p = sleeps_on s p"
    if "p \<in> set (n # r @ l)" for p
    using thr' that tc by (auto simp: frame_of_def sleeps_on_def switched_def)
  have pk': "\<forall>p \<in> set r. parked s' p"
  proof
    fix p
    assume p: "p \<in> set r"
    then have p0: "p \<in> set r0 \<union> set l0" "p \<noteq> n" using f(1) distn by auto
    show "parked s' p"
    proof (cases "p = c")
      case True
      then have "st = S_READY \<or> st = S_SLEEP" using p0 set0(5,6) by auto
      then show ?thesis using fo(1) [of p] p p0(2) True ready sleep by (auto simp: parked_def)
    next
      case False
      then have "p \<in> set (rl s) \<or> p \<in> set (sl s)" using p0 set0(2) by blast
      then have "parked s p" using pk sp asleep_parked by blast
      then show ?thesis using fo(1) [of p] p False by (simp add: parked_def)
    qed
  qed
  have sp': "\<forall>p \<in> set l. asleep s' p"
  proof
    fix p
    assume p: "p \<in> set l"
    then have p0: "p \<in> set l0" "p \<noteq> n" using f(2) distn by auto
    show "asleep s' p"
    proof (cases "p = c")
      case True
      then have "st = S_SLEEP" using p0 set0(6) by auto
      then show ?thesis using fo [of p] p p0(2) True sleep by (auto simp: asleep_def)
    next
      case False
      then have "asleep s p" using p0 set0(4) sp by auto
      then show ?thesis using fo [of p] p False by (simp add: asleep_def)
    qed
  qed
  have cl': "\<forall>p \<in> set (zl s'). clean s' p" using clz4 s'(5,8) e4(3,9) by (auto simp: clean_def)
  have mg': "magic_ok s'"
    unfolding magic_ok_def
  proof (intro allI impI)
    fix p t
    assume t: "threads s' p = Some t" "t_stack t \<noteq> None"
    from s'(7) t(1) have "switched fr c n s p = Some t" by blast
    from switched_keeps(2) [OF this] t(2) show "t_magic t = stack_magic" using mg unfolding magic_ok_def by metis
  qed
  have "distinct (n # r @ l @ zl s')" "Suc (length r + length l + length (zl s')) < max_threads"
    using distn len0 len f(4) s'(5) by auto
  then have "tcore s' n"
    unfolding tcore_def s'(3,4) using s'(2,9) kn' pk' sp' cl' mg' by blast
  moreover have "c \<noteq> n \<longrightarrow> frame_of s n = Some fn" using fr_n tn by (auto simp: fn_def frame_of_def)
  moreover have "c = n \<longrightarrow> fn = fr" by (simp add: fn_def)
  ultimately show ?thesis using run s'(3-5,7,10-13) thr' unfolding i_def by (intro exI [of _ fn] exI [of _ s'] conjI)
qed

text \<open>With nobody to run and no interrupt that wakes anybody, the switch idles.\<close>

lemma mi_switch_idles:
  assumes core: "tcore s c" and spl: "curspl s > 0" and mem: "\<forall>b. mem b" and st: "st \<noteq> S_RUN"
    and idle: "idle_until (sleeps_on s) idle (stashed st c (rl s, sl s)) = None"
  shows "mi_switch mem idle fr st s = Inl OutOfFuel"
proof -
  have ls: "tlists s" and len: "Suc (length (rl s) + length (sl s) + length (zl s)) < max_threads"
    and cur: "curthread s = Some c" and kn: "known s (c # rl s @ sl s)" and mg: "magic_ok s"
    using core unfolding tcore_def by blast+
  let ?s1 = "s\<lparr>curthread := None\<rparr>"
  have e1: "rl ?s1 = rl s" "sl ?s1 = sl s" "zl ?s1 = zl s" "sleeps_on ?s1 = sleeps_on s"
    by (simp_all add: rl_def sl_def zl_def sleeps_on_def fun_eq_iff)
  have p: "tlists ?s1" "Suc (length (rl ?s1) + length (sl ?s1) + length (zl ?s1)) < max_threads" "curspl ?s1 > 0"
    using ls len spl unfolding tlists_def e1 by simp_all
  obtain s2 where s2: "stash mem st c ?s1 = Inr (Inr (), s2)" "relisted3 ?s1 (stashed st c (rl s, sl s)) (if st = S_ZOMB then zl s @ [c] else zl s) s2"
    using stash_relists [OF p mem st, of c] unfolding e1 by blast
  note d2 = relisted3D [OF s2(2)]
  have "set (snd (stashed st c (rl s, sl s))) \<subseteq> {c} \<union> set (sl s)" by (cases st) auto
  then have kn2: "known s2 (sl s2)" using kn d2(6,13) by (auto simp: known_def)
  have spl2: "curspl s2 > 0" using d2(3) spl by simp
  have "idle_until (sleeps_on s2) idle (rl s2, sl s2) = None" using idle d2(10,12,13) e1(4) by simp
  then have "idle_loop mem idle s2 = Inl OutOfFuel" using idle_loop_relists [OF d2(11) kn2 spl2 mem, of idle] by simp
  then have sch: "scheduler mem idle s2 = Inl OutOfFuel" using spl2 by (simp add: scheduler_def)
  obtain t where t: "threads s c = Some t" using kn by (auto simp: known_def)
  have "check_magic t s = Inr ((), s)" using mg t by (auto simp: check_magic_def magic_ok_def)
  then show ?thesis using spl cur t s2(1) sch by (simp add: mi_switch_def)
qed

section \<open>The operations keep the invariant\<close>

lemma lists_cong:
  "sleepers s' = sleepers s \<Longrightarrow> sl s' = sl s" "zombies s' = zombies s \<Longrightarrow> zl s' = zl s"
  "runqueue s' = runqueue s \<Longrightarrow> rl s' = rl s"
  by (simp_all add: sl_def zl_def rl_def)

lemma lists_upd [simp]:
  "sl (s\<lparr>curthread := c\<rparr>) = sl s" "sl (s\<lparr>curspl := i\<rparr>) = sl s" "sl (s\<lparr>threads := th\<rparr>) = sl s"
  "sl (s\<lparr>numthreads := i\<rparr>) = sl s" "sl (s\<lparr>vn_refs := v\<rparr>) = sl s" "sl (s\<lparr>as_calls := as\<rparr>) = sl s"
  "zl (s\<lparr>curthread := c\<rparr>) = zl s" "zl (s\<lparr>curspl := i\<rparr>) = zl s" "zl (s\<lparr>threads := th\<rparr>) = zl s"
  "zl (s\<lparr>numthreads := i\<rparr>) = zl s" "zl (s\<lparr>vn_refs := v\<rparr>) = zl s" "zl (s\<lparr>as_calls := as\<rparr>) = zl s"
  "rl (s\<lparr>curthread := c\<rparr>) = rl s" "rl (s\<lparr>curspl := i\<rparr>) = rl s" "rl (s\<lparr>threads := th\<rparr>) = rl s"
  "rl (s\<lparr>numthreads := i\<rparr>) = rl s" "rl (s\<lparr>vn_refs := v\<rparr>) = rl s" "rl (s\<lparr>as_calls := as\<rparr>) = rl s"
  by (simp_all add: sl_def zl_def rl_def)

lemma tcore_cong:
  assumes "sleepers s' = sleepers s" "zombies s' = zombies s" "runqueue s' = runqueue s" "curthread s' = curthread s"
    "threads s' = threads s"
  shows "tcore s' c = tcore s c"
  using assms lists_cong [of s' s]
  by (simp add: tcore_def tlists_def known_def parked_def asleep_def clean_def magic_ok_def frame_of_def sleeps_on_def)

lemma tcore_upd [simp]:
  "tcore (s\<lparr>curspl := i\<rparr>) c = tcore s c" "tcore (s\<lparr>numthreads := i\<rparr>) c = tcore s c"
  "tcore (s\<lparr>vn_refs := v\<rparr>) c = tcore s c" "tcore (s\<lparr>as_calls := as\<rparr>) c = tcore s c"
  by (rule tcore_cong; simp)+

lemma tcore_upd_cur:
  assumes "tcore s c" and "threads s c = Some t" and "t_stack t' = t_stack t" and "t_magic t' = t_magic t"
  shows "tcore (s\<lparr>threads := (threads s)(c \<mapsto> t')\<rparr>) c"
proof -
  let ?s = "s\<lparr>threads := (threads s)(c \<mapsto> t')\<rparr>"
  have dist: "distinct (c # rl s @ sl s @ zl s)" using assms(1) by (simp add: tcore_def)
  then have e: "frame_of ?s p = frame_of s p" "sleeps_on ?s p = sleeps_on s p" "threads ?s p = threads s p"
    if "p \<in> set (rl s) \<union> set (sl s) \<union> set (zl s)" for p
    using that by (auto simp: frame_of_def sleeps_on_def)
  have "tlists ?s" using assms(1) by (simp add: tcore_def tlists_def)
  moreover have "known ?s (c # rl s @ sl s)" using assms(1) by (auto simp: tcore_def known_def)
  moreover have "\<forall>p \<in> set (rl s). parked ?s p" "\<forall>p \<in> set (sl s). asleep ?s p" "\<forall>p \<in> set (zl s). clean ?s p"
    using assms(1) e by (simp_all add: tcore_def parked_def asleep_def clean_def)
  moreover have "magic_ok ?s" using assms by (auto simp: tcore_def magic_ok_def)
  ultimately show ?thesis using assms(1) by (simp add: tcore_def)
qed

lemma tcore_cur:
  assumes "tcore s c"
  obtains t where "threads s c = Some t" "curthread s = Some c"
  using assms by (auto simp: tcore_def known_def)

fun resumed_as :: "'c frame \<Rightarrow> 'c resumed" where
  "resumed_as (StartF a b f) = Started a b f"
| "resumed_as (SleepF k) = Woken k"
| "resumed_as _ = Yielded"

fun resumed_spl :: "'c frame \<Rightarrow> int \<Rightarrow> int" where
  "resumed_spl (StartF a b f) l = 0"
| "resumed_spl (YieldF spl) l = spl"
| "resumed_spl _ l = l"

text \<open>The thread table after \<open>n\<close> was resumed with the frame \<open>f\<close>.\<close>

definition awake :: "'c frame \<Rightarrow> nat \<Rightarrow> (nat \<Rightarrow> 'c thread option) \<Rightarrow> nat \<Rightarrow> 'c thread option" where
  "awake f n th = (case f of SleepF k \<Rightarrow> th(n := map_option (\<lambda>t. t\<lparr>t_sleepaddr := None\<rparr>) (th n)) | _ \<Rightarrow> th)"

lemma resume_ok:
  assumes core: "tcore s n" and f: "f \<noteq> ExitF"
  shows "\<exists>s'. resume f s = Inr (resumed_as f, s') \<and> tcore s' n \<and> rl s' = rl s \<and> sl s' = sl s \<and> zl s' = zl s \<and>
     numthreads s' = numthreads s \<and> curspl s' = resumed_spl f (curspl s) \<and> vn_refs s' = vn_refs s \<and>
     threads s' = awake f n (threads s) \<and> in_interrupt s' = in_interrupt s"
proof -
  obtain t where t: "threads s n = Some t" and cur: "curthread s = Some n" by (rule tcore_cur [OF core])
  show ?thesis
  proof (cases f)
    case (StartF a b g)
    obtain as where "activate_cur s = Inr ((), s\<lparr>as_calls := as\<rparr>)" using activate_cur_ok [OF cur t] by blast
    then show ?thesis using StartF core by (simp add: mi_threadstart_def spl0_def splx_def awake_def)
  next
    case (YieldF spl)
    then show ?thesis using core by (simp add: splx_def awake_def)
  next
    case (SleepF k)
    then show ?thesis using t cur tcore_upd_cur [OF core t, of "t\<lparr>t_sleepaddr := None\<rparr>"] by (simp add: awake_def)
  qed (use f in simp)
qed

lemma idle_until_ready: "fst rs \<noteq> [] \<Longrightarrow> idle_until sa idle rs = Some rs"
  by (cases idle) simp_all

text \<open>Every thread that a switch can resume has a frame other than that of \<^verbatim>\<open>thread_exit\<close>.\<close>

lemma frame_not_exit:
  assumes "tcore s c" and "p \<in> set (rl s) \<union> set (sl s)" and "frame_of s p = Some f"
  shows "f \<noteq> ExitF"
  using assms by (auto simp: tcore_def parked_def asleep_def)

text \<open>A switch, seen by its two threads: \<open>c\<close> gives up the processor and \<open>n\<close> goes on.\<close>

lemma switch_resume:
  fixes s :: "'c tsys"
  assumes core: "tcore s c" and spl: "curspl s > 0" and mem: "\<forall>b. mem b" and st: "st \<noteq> S_RUN"
    and fr: "st = S_READY \<Longrightarrow> fr \<noteq> ExitF" "st = S_SLEEP \<Longrightarrow> (\<exists>k. fr = SleepF k) \<and> sleeps_on s c \<noteq> None"
      "st = S_ZOMB \<Longrightarrow> clean s c"
    and idle: "idle_until (sleeps_on s) idle (stashed st c (rl s, sl s)) = Some (n # r, l)"
  shows "\<exists>f s'. kbind (mi_switch mem idle fr st) resume s = Inr (resumed_as f, s') \<and> tcore s' n \<and> rl s' = r \<and> sl s' = l \<and>
     zl s' = (if is_start f then if st = S_ZOMB then zl s @ [c] else zl s else []) \<and>
     numthreads s' = numthreads s \<and> vn_refs s' = vn_refs s \<and> curspl s' = resumed_spl f (curspl s) \<and>
     in_interrupt s' = (if c = n then in_interrupt s else pirq s n) \<and>
     (c = n \<longrightarrow> f = fr) \<and> (c \<noteq> n \<longrightarrow> frame_of s n = Some f) \<and>
     (\<forall>p \<in> set (r @ l). p \<noteq> c \<longrightarrow> threads s' p = threads s p) \<and>
     (c \<in> set (r @ l) \<longrightarrow> frame_of s' c = Some fr \<and> sleeps_on s' c = sleeps_on s c \<and> pirq s' c = in_interrupt s) \<and>
     sleeps_on s' n = (if \<exists>k. f = SleepF k then None else sleeps_on s n)"
proof -
  obtain f s1 where s1: "mi_switch mem idle fr st s = Inr (f, s1)" "tcore s1 n" "rl s1 = r" "sl s1 = l"
     "zl s1 = (if is_start f then if st = S_ZOMB then zl s @ [c] else zl s else [])"
     "\<forall>p \<in> set (n # r @ l). threads s1 p = switched fr c n s p"
     "numthreads s1 = numthreads s" "curspl s1 = curspl s" "vn_refs s1 = vn_refs s"
     "c = n \<longrightarrow> f = fr" "c \<noteq> n \<longrightarrow> frame_of s n = Some f" "in_interrupt s1 = (if c = n then in_interrupt s else pirq s n)"
    using mi_switch_ok [OF core spl mem st fr idle] by blast
  obtain r0 l0 where rl0: "stashed st c (rl s, sl s) = (r0, l0)" by (cases "stashed st c (rl s, sl s)")
  have set0: "set r0 \<union> set l0 \<subseteq> {c} \<union> set (rl s) \<union> set (sl s)" "c \<in> set r0 \<union> set l0 \<Longrightarrow> st = S_READY \<or> st = S_SLEEP"
    using rl0 core st by (cases st; auto simp: tcore_def)+
  have nin: "n \<in> set r0 \<union> set l0" using idle_until_facts(1) [of "sleeps_on s" idle r0 l0 "n # r" l] idle rl0 by auto
  have "f \<noteq> ExitF"
  proof (cases "c = n")
    case True
    then show ?thesis using nin set0(2) fr(1,2) s1(10) by auto
  next
    case False
    then have "n \<in> set (rl s) \<union> set (sl s)" using nin set0(1) by auto
    from frame_not_exit [OF core this] show ?thesis using s1(11) False by auto
  qed
  from resume_ok [OF s1(2) this] obtain s2 where s2: "resume f s1 = Inr (resumed_as f, s2)" "tcore s2 n" "rl s2 = rl s1"
      "sl s2 = sl s1" "zl s2 = zl s1" "numthreads s2 = numthreads s1" "curspl s2 = resumed_spl f (curspl s1)"
      "vn_refs s2 = vn_refs s1" "threads s2 = awake f n (threads s1)" "in_interrupt s2 = in_interrupt s1" by blast
  have dist: "n \<notin> set (r @ l)" using s1(2-4) by (auto simp: tcore_def)
  obtain tc where tc: "threads s c = Some tc" by (rule tcore_cur [OF core])
  have th: "threads s2 p = switched fr c n s p" if "p \<in> set (r @ l)" for p
    using s1(6) s2(9) that dist by (auto simp: awake_def split: frame.splits)
  have o: "\<forall>p \<in> set (r @ l). p \<noteq> c \<longrightarrow> threads s2 p = threads s p"
    using th by (simp add: switched_def)
  have cc: "c \<in> set (r @ l) \<longrightarrow> frame_of s2 c = Some fr \<and> sleeps_on s2 c = sleeps_on s c \<and> pirq s2 c = in_interrupt s"
    using th [of c] dist tc by (auto simp: switched_def frame_of_def sleeps_on_def pirq_def)
  have n1: "sleeps_on s1 n = sleeps_on s n" using s1(6) by (auto simp: sleeps_on_def switched_def)
  have n2: "sleeps_on s2 n = (if \<exists>k. f = SleepF k then None else sleeps_on s n)"
    unfolding n1 [symmetric] using s2(9) by (auto simp: awake_def sleeps_on_def split: frame.splits option.splits)
  have run: "kbind (mi_switch mem idle fr st) resume s = Inr (resumed_as f, s2)" using s1(1) s2(1) by simp
  show ?thesis
    using run s2(2-8,10) s1(3-5,7-12) o cc n2 by (intro exI [of _ f] exI [of _ s2]) simp
qed

lemma yield_view:
  assumes inv: "tinv s" and mem: "\<forall>b. mem b" and cur: "curthread s = Some c" and nr: "rl s @ [c] = n # r"
  shows "\<exists>f s'. thread_yield mem idle s = Inr (resumed_as f, s') \<and> tinv s' \<and> curthread s' = Some n \<and> rl s' = r \<and> sl s' = sl s \<and>
     curspl s' = resumed_spl f SPL_HIGH \<and> in_interrupt s' = (if c = n then in_interrupt s else pirq s n) \<and>
     (c = n \<longrightarrow> f = YieldF (curspl s)) \<and> (c \<noteq> n \<longrightarrow> frame_of s n = Some f) \<and>
     (\<forall>p \<in> set (r @ sl s). p \<noteq> c \<longrightarrow> threads s' p = threads s p) \<and>
     (c \<noteq> n \<longrightarrow> frame_of s' c = Some (YieldF (curspl s)) \<and> pirq s' c = in_interrupt s) \<and>
     sleeps_on s' n = (if \<exists>k. f = SleepF k then None else sleeps_on s n)"
proof -
  have core: "tcore s c" and num: "numthreads s = 1 + int (length (rl s)) + int (length (sl s))"
    using inv cur by (auto simp: tinv_def tcore_def)
  let ?s = "s\<lparr>curspl := SPL_HIGH\<rparr>"
  have e: "sleeps_on ?s = sleeps_on s" "frame_of ?s = frame_of s" "pirq ?s = pirq s" "threads ?s = threads s"
    "numthreads ?s = numthreads s" "in_interrupt ?s = in_interrupt s" "curspl ?s = SPL_HIGH"
    by (simp_all add: sleeps_on_def frame_of_def pirq_def fun_eq_iff)
  have idle: "idle_until (sleeps_on ?s) idle (stashed S_READY c (rl ?s, sl ?s)) = Some (n # r, sl s)"
    using nr by (simp add: idle_until_ready)
  have core': "tcore ?s c" using core by simp
  have p: "curspl ?s > 0" "S_READY \<noteq> S_RUN" "S_READY = S_READY \<Longrightarrow> YieldF (curspl s) \<noteq> ExitF"
    "S_READY = S_SLEEP \<Longrightarrow> (\<exists>k. YieldF (curspl s) = SleepF k) \<and> sleeps_on ?s c \<noteq> None" "S_READY = S_ZOMB \<Longrightarrow> clean ?s c"
    by simp_all
  from switch_resume [OF core' p(1) mem p(2-5) idle, unfolded e]
  obtain f s' where s': "kbind (mi_switch mem idle (YieldF (curspl s)) S_READY) resume ?s = Inr (resumed_as f, s')" "tcore s' n"
     "rl s' = r" "sl s' = sl s" "numthreads s' = numthreads s" "curspl s' = resumed_spl f SPL_HIGH"
     "in_interrupt s' = (if c = n then in_interrupt s else pirq s n)" "c = n \<longrightarrow> f = YieldF (curspl s)" "c \<noteq> n \<longrightarrow> frame_of s n = Some f"
     "\<forall>p \<in> set (r @ sl s). p \<noteq> c \<longrightarrow> threads s' p = threads s p"
     "c \<in> set (r @ sl s) \<longrightarrow> frame_of s' c = Some (YieldF (curspl s)) \<and> sleeps_on s' c = sleeps_on s c \<and> pirq s' c = in_interrupt s"
     "sleeps_on s' n = (if \<exists>k. f = SleepF k then None else sleeps_on s n)"
    by blast
  obtain a where "sleepers s = Some a" using core by (auto simp: tcore_def tlists_def)
  then have run: "thread_yield mem idle s = Inr (resumed_as f, s')"
    using s'(1) by (simp add: thread_yield_def splhigh_def splx_def)
  have "numthreads s' = 1 + int (length (rl s')) + int (length (sl s'))"
    using num s' nr by (metis length_append_singleton length_Cons nat.inject)
  then have inv': "tinv s'" "curthread s' = Some n" using s'(2) by (auto simp: tinv_def tcore_def)
  have "c \<noteq> n \<Longrightarrow> c \<in> set r" using nr by (cases "rl s") auto
  then show ?thesis using run inv' s'(3-12) by (intro exI [of _ f] exI [of _ s']) auto
qed

lemma yield_ok:
  assumes "tinv s" and "\<forall>b. mem b" and "curthread s = Some c" and "rl s @ [c] = n # r"
  shows "\<exists>x s'. thread_yield mem idle s = Inr (x, s') \<and> tinv s' \<and> curthread s' = Some n \<and> rl s' = r \<and> sl s' = sl s"
  using yield_view [OF assms, of idle] by blast

lemma sleep_ok:
  assumes inv: "tinv s" and mem: "\<forall>b. mem b" and cur: "curthread s = Some c" and spl: "curspl s > 0"
    and irq: "in_interrupt s = 0"
    and idle: "idle_until ((sleeps_on s)(c := Some addr)) idle (rl s, sl s @ [c]) = Some (n # r, l)"
  shows "\<exists>f s'. thread_sleep mem idle k addr s = Inr (resumed_as f, s') \<and> tinv s' \<and> curthread s' = Some n \<and> rl s' = r \<and> sl s' = l \<and>
     curspl s' = resumed_spl f (curspl s) \<and> in_interrupt s' = (if c = n then 0 else pirq s n) \<and>
     (c = n \<longrightarrow> f = SleepF k) \<and> (c \<noteq> n \<longrightarrow> frame_of s n = Some f) \<and>
     (\<forall>p \<in> set (r @ l). p \<noteq> c \<longrightarrow> threads s' p = threads s p) \<and>
     (c \<noteq> n \<longrightarrow> frame_of s' c = Some (SleepF k) \<and> sleeps_on s' c = Some addr \<and> pirq s' c = 0) \<and>
     ((\<exists>j. f = SleepF j) \<longrightarrow> sleeps_on s' n = None)"
proof -
  have core: "tcore s c" and num: "numthreads s = 1 + int (length (rl s)) + int (length (sl s))"
    using inv cur by (auto simp: tinv_def tcore_def)
  obtain t where t: "threads s c = Some t" by (rule tcore_cur [OF core])
  let ?s = "s\<lparr>threads := (threads s)(c \<mapsto> t\<lparr>t_sleepaddr := Some addr\<rparr>)\<rparr>"
  have core': "tcore ?s c" by (rule tcore_upd_cur [OF core t]) simp_all
  have sa: "sleeps_on ?s = (sleeps_on s)(c := Some addr)" by (auto simp: sleeps_on_def fun_eq_iff)
  have fo: "frame_of ?s = frame_of s" "pirq ?s = pirq s" using t by (auto simp: frame_of_def pirq_def fun_eq_iff)
  have idle': "idle_until (sleeps_on ?s) idle (stashed S_SLEEP c (rl ?s, sl ?s)) = Some (n # r, l)"
    using idle unfolding sa by simp
  have p: "curspl ?s > 0" "S_SLEEP \<noteq> S_RUN" "S_SLEEP = S_READY \<Longrightarrow> SleepF k \<noteq> ExitF"
    "S_SLEEP = S_SLEEP \<Longrightarrow> (\<exists>j. SleepF k = SleepF j) \<and> sleeps_on ?s c \<noteq> None" "S_SLEEP = S_ZOMB \<Longrightarrow> clean ?s c"
    using spl sa by simp_all
  have e: "numthreads ?s = numthreads s" "in_interrupt ?s = in_interrupt s" "curspl ?s = curspl s" by simp_all
  from switch_resume [OF core' p(1) mem p(2-5) idle', unfolded fo e]
  obtain f s' where s': "kbind (mi_switch mem idle (SleepF k) S_SLEEP) resume ?s = Inr (resumed_as f, s')" "tcore s' n"
     "rl s' = r" "sl s' = l" "numthreads s' = numthreads s" "curspl s' = resumed_spl f (curspl s)"
     "in_interrupt s' = (if c = n then in_interrupt s else pirq s n)" "c = n \<longrightarrow> f = SleepF k" "c \<noteq> n \<longrightarrow> frame_of s n = Some f"
     "\<forall>p \<in> set (r @ l). p \<noteq> c \<longrightarrow> threads s' p = threads ?s p"
     "c \<in> set (r @ l) \<longrightarrow> frame_of s' c = Some (SleepF k) \<and> sleeps_on s' c = sleeps_on ?s c \<and> pirq s' c = in_interrupt s"
     "sleeps_on s' n = (if \<exists>k. f = SleepF k then None else sleeps_on ?s n)"
    by blast
  have run: "thread_sleep mem idle k addr s = Inr (resumed_as f, s')"
    using irq cur t s'(1) by (simp add: thread_sleep_def)
  note fact = idle_until_facts [OF idle]
  have "numthreads s' = 1 + int (length (rl s')) + int (length (sl s'))" using num s' fact(4) by simp
  then have inv': "tinv s'" "curthread s' = Some n" using s'(2) by (auto simp: tinv_def tcore_def)
  have "c \<noteq> n \<Longrightarrow> c \<in> set (r @ l)" using fact(1) by auto
  then show ?thesis using run inv' s'(3-12) irq by (intro exI [of _ f] exI [of _ s']) (auto simp: sa)
qed

lemma thread_same:
  "t_vmspace t = None \<Longrightarrow> t\<lparr>t_vmspace := None\<rparr> = t" "t_cwd t = None \<Longrightarrow> t\<lparr>t_cwd := None\<rparr> = t"
  by (cases t; simp)+

lemma exit_ok:
  assumes inv: "tinv s" and mem: "\<forall>b. mem b" and cur: "curthread s = Some c" and t: "threads s c = Some t"
    and idle: "idle_until (sleeps_on s) idle (rl s, sl s) = Some (n # r, l)"
  shows "\<exists>x s'. thread_exit mem idle s = Inr (x, s') \<and> tinv s' \<and> curthread s' = Some n \<and> rl s' = r \<and> sl s' = l \<and>
     vn_refs s' = (case t_cwd t of None \<Rightarrow> vn_refs s | Some v \<Rightarrow> (vn_refs s)(v := vn_refs s v - 1)) \<and>
     (zl s' \<noteq> [] \<longrightarrow> c \<in> set (zl s'))"
proof -
  have core: "tcore s c" and num: "numthreads s = 1 + int (length (rl s)) + int (length (sl s))"
    using inv cur by (auto simp: tinv_def tcore_def)
  have mg: "check_magic t s = Inr ((), s)" using core t by (auto simp: check_magic_def tcore_def magic_ok_def)
  define t' where "t' = t\<lparr>t_vmspace := None, t_cwd := None\<rparr>"
  define as where "as = (case t_vmspace t of None \<Rightarrow> as_calls s | Some v \<Rightarrow> as_calls s @ [As_destroy v])"
  define vr where "vr = (case t_cwd t of None \<Rightarrow> vn_refs s | Some v \<Rightarrow> (vn_refs s)(v := vn_refs s v - 1))"
  define s1 where "s1 = s\<lparr>curspl := SPL_HIGH, threads := (threads s)(c \<mapsto> t'), as_calls := as, vn_refs := vr,
     numthreads := numthreads s - 1\<rparr>"
  have th_id: "(threads s)(c \<mapsto> t) = threads s" using t by auto
  have run1: "thread_exit mem idle s = kbind (mi_switch mem idle ExitF S_ZOMB) resume s1"
    using cur t mg num th_id
    by (cases s; cases "t_vmspace t"; cases "t_cwd t")
       (simp_all add: thread_exit_def get_cur_def splhigh_def splx_def call_as_def VOP_DECREF_def s1_def t'_def as_def vr_def thread_same)
  have "tcore (s\<lparr>threads := (threads s)(c \<mapsto> t')\<rparr>) c" by (rule tcore_upd_cur [OF core t]) (simp_all add: t'_def)
  moreover have "tcore s1 c = tcore (s\<lparr>threads := (threads s)(c \<mapsto> t')\<rparr>) c" by (rule tcore_cong) (simp_all add: s1_def)
  ultimately have core1: "tcore s1 c" by simp
  have cl: "clean s1 c" by (simp add: clean_def s1_def t'_def)
  have sa: "sleeps_on s1 = sleeps_on s" using t by (auto simp: sleeps_on_def s1_def t'_def fun_eq_iff)
  have l1: "rl s1 = rl s" "sl s1 = sl s" "zl s1 = zl s" "curspl s1 > 0" by (simp_all add: s1_def)
  have idle1: "idle_until (sleeps_on s1) idle (stashed S_ZOMB c (rl s1, sl s1)) = Some (n # r, l)"
    using idle sa l1 by simp
  have p: "S_ZOMB \<noteq> S_RUN" "S_ZOMB = S_READY \<Longrightarrow> ExitF \<noteq> ExitF"
    "S_ZOMB = S_SLEEP \<Longrightarrow> (\<exists>k. ExitF = SleepF k) \<and> sleeps_on s1 c \<noteq> None" "S_ZOMB = S_ZOMB \<Longrightarrow> clean s1 c"
    using cl by simp_all
  obtain f s2 where s2: "kbind (mi_switch mem idle ExitF S_ZOMB) resume s1 = Inr (resumed_as f, s2)" "tcore s2 n" "rl s2 = r"
      "sl s2 = l" "zl s2 = (if is_start f then if S_ZOMB = S_ZOMB then zl s1 @ [c] else zl s1 else [])"
      "numthreads s2 = numthreads s1" "vn_refs s2 = vn_refs s1"
    using switch_resume [OF core1 l1(4) mem p idle1] by blast
  have "numthreads s2 = 1 + int (length (rl s2)) + int (length (sl s2))"
    using num s2 idle_until_facts(4) [OF idle] by (simp add: s1_def)
  then have "tinv s2" using s2(2) by (auto simp: tinv_def)
  moreover have "curthread s2 = Some n" using s2(2) by (simp add: tcore_def)
  moreover have "vn_refs s2 = vr" using s2(7) by (simp add: s1_def)
  moreover have "zl s2 \<noteq> [] \<longrightarrow> c \<in> set (zl s2)" using s2(5) by simp
  ultimately show ?thesis using s2(3,4) run1 s2(1) unfolding vr_def by (intro exI [of _ "resumed_as f"] exI [of _ s2]) simp
qed

text \<open>Waking threads up keeps the invariant.\<close>

lemma relisted_tinv:
  assumes inv: "tinv s" and re: "relisted s (r, l) s'" and ms: "mset r + mset l = mset (rl s) + mset (sl s)"
    and sub: "set l \<subseteq> set (sl s)"
  shows "tinv s'"
proof -
  obtain c where core: "tcore s c" and num: "numthreads s = 1 + int (length (rl s)) + int (length (sl s))"
    using inv by (auto simp: tinv_def)
  note d = relistedD [OF re]
  have m: "mset (r @ l) = mset (rl s @ sl s)" using ms by simp
  have st: "set r \<union> set l = set (rl s) \<union> set (sl s)" using mset_eq_setD [OF m] by simp
  have len: "length r + length l = length (rl s) + length (sl s)" using mset_eq_length [OF m] by simp
  have "mset (c # r @ l @ zl s) = mset (c # rl s @ sl s @ zl s)" using ms by simp
  then have dist: "distinct (c # r @ l @ zl s)" using core mset_eq_imp_distinct_iff unfolding tcore_def by blast
  have e: "parked s' = parked s" "asleep s' = asleep s" "clean s' = clean s" "magic_ok s' = magic_ok s"
    using d(7) by (simp_all add: parked_def asleep_def clean_def magic_ok_def frame_of_def sleeps_on_def fun_eq_iff)
  have "\<forall>p \<in> set r. parked s p" using core st asleep_parked by (fastforce simp: tcore_def)
  moreover have "known s' (c # r @ l)" using core st d(7) unfolding tcore_def known_def by (metis (no_types, lifting) Un_iff set_append set_ConsD list.set_intros(1,2))
  ultimately have "tcore s' c"
    unfolding tcore_def e using core dist len sub d by (auto simp: tcore_def)
  then show ?thesis using num d len by (auto simp: tinv_def)
qed

subsection \<open>Fork\<close>

lemma relisted3_trans:
  assumes "relisted3 s rs z s'" and "relisted3 s' rs' z' s''"
  shows "relisted3 s rs' z' s''"
proof -
  have "s'' = s'\<lparr>sleepers := sleepers s'', zombies := zombies s'', runqueue := runqueue s''\<rparr>"
    using assms(2) by (simp add: relisted3_def)
  then have "s'' = s\<lparr>sleepers := sleepers s'', zombies := zombies s'', runqueue := runqueue s''\<rparr>"
    using assms(1) by (cases s; cases s'; cases s'') (simp add: relisted3_def)
  then show ?thesis using assms by (simp add: relisted3_def)
qed

lemma relisted3_refl: "tlists s \<Longrightarrow> relisted3 s (rl s, sl s) (zl s) s"
  by (simp add: relisted3_def)

lemma relist_same:
  assumes "tlists s"
  shows "array_inv a \<Longrightarrow> array_list a = sl s \<Longrightarrow> relisted3 s (rl s, sl s) (zl s) (s\<lparr>sleepers := Some a\<rparr>)"
    and "array_inv a \<Longrightarrow> array_list a = zl s \<Longrightarrow> relisted3 s (rl s, sl s) (zl s) (s\<lparr>zombies := Some a\<rparr>)"
    and "q_inv q \<Longrightarrow> q_size q \<le> 2 ^ 28 \<Longrightarrow> q_list q = rl s \<Longrightarrow> relisted3 s (rl s, sl s) (zl s) (s\<lparr>runqueue := Some q\<rparr>)"
  using assms by (cases s; auto simp: relisted3_def tlists_def rl_def sl_def zl_def)+

lemma array_preallocate_list:
  assumes "array_inv a" and "n < 2 ^ 29"
  obtains "array_preallocate mem n a = Inr (Inl ENOMEM, a)"
  | a' where "array_preallocate mem n a = Inr (Inr (), a')" "array_inv a'" "array_list a' = array_list a"
proof (rule array_preallocate_cases [OF array_inv_shape [OF assms(1)] assms(2), of mem])
  fix a'
  assume "array_preallocate mem n a = Inr (Inr (), a')" "array_shape a'" "array_cells a' = array_cells a"
  then show thesis using that(2) assms(1) by (simp add: array_inv_def array_list_def)
qed (rule that(1))

lemma fork_prepare_cases:
  assumes ls: "tlists s" and len: "Suc (Suc (length (rl s) + length (sl s) + length (zl s))) < max_threads" and spl: "curspl s > 0"
    and num: "numthreads s = 1 + int (length (rl s)) + int (length (sl s))"
  obtains (nomem) s' where "fork_prepare mem p s = Inr (Inl ENOMEM, s')" "relisted3 s (rl s, sl s) (zl s) s'"
  | (ok) s' where "fork_prepare mem p s = Inr (Inr (), s'\<lparr>numthreads := numthreads s + 1\<rparr>)"
      "relisted3 s (rl s @ [p], sl s) (zl s) s'"
proof -
  from ls obtain a z q where l: "sleepers s = Some a" "array_inv a" "array_list a = sl s" "zombies s = Some z" "array_inv z"
    "array_list z = zl s" "runqueue s = Some q" "q_inv q" "q_size q \<le> 2 ^ 28" "q_list q = rl s" by (rule tlists_arrays)
  let ?n = "numthreads s + 1"
  have n: "?n < 2 ^ 29" "?n \<le> 2 ^ 27" using num len by simp_all
  from l(2) n(1) show thesis
  proof (rule array_preallocate_list [of _ _ mem])
    assume "array_preallocate mem ?n a = Inr (Inl ENOMEM, a)"
    then show thesis using l(1) relisted3_refl [OF ls] by (intro nomem [of s]) (simp_all add: fork_prepare_def)
  next
    fix a1
    assume a1: "array_preallocate mem ?n a = Inr (Inr (), a1)" "array_inv a1" "array_list a1 = array_list a"
    let ?s1 = "s\<lparr>sleepers := Some a1\<rparr>"
    have r1: "relisted3 s (rl s, sl s) (zl s) ?s1" using relist_same(1) [OF ls] a1 l(3) by simp
    note d1 = relisted3D [OF r1]
    from l(5) n(1) show thesis
    proof (rule array_preallocate_list [of _ _ mem])
      assume "array_preallocate mem ?n z = Inr (Inl ENOMEM, z)"
      then show thesis using l(1,4) a1(1) r1 by (intro nomem [of ?s1]) (simp_all add: fork_prepare_def)
    next
      fix z1
      assume z1: "array_preallocate mem ?n z = Inr (Inr (), z1)" "array_inv z1" "array_list z1 = array_list z"
      let ?s2 = "?s1\<lparr>zombies := Some z1\<rparr>"
      have "relisted3 ?s1 (rl ?s1, sl ?s1) (zl ?s1) ?s2" using relist_same(2) [OF d1(11)] z1 l(6) d1(9) by simp
      from relisted3_trans [OF r1 this] have r2: "relisted3 s (rl s, sl s) (zl s) ?s2" using d1 by simp
      note d2 = relisted3D [OF r2]
      from l(8) n(1) show thesis
      proof (rule q_preallocate_cases [of _ _ mem])
        assume "q_preallocate mem ?n q = Inr (Inl ENOMEM, q)"
        then show thesis using l(1,4,7) a1(1) z1(1) r2 spl
          by (intro nomem [of ?s2]) (simp_all add: fork_prepare_def scheduler_preallocate_def)
      next
        fix q1
        assume q1: "q_preallocate mem ?n q = Inr (Inr (), q1)" "q_inv q1" "q_list q1 = q_list q"
          "q_size q1 \<le> max (q_size q) (2 * ?n)"
        let ?s3 = "?s2\<lparr>runqueue := Some q1\<rparr>"
        have sz1: "q_size q1 \<le> 2 ^ 28" using q1(4) l(9) n(2) by simp
        have "relisted3 ?s2 (rl ?s2, sl ?s2) (zl ?s2) ?s3"
          using relist_same(3) [OF d2(11) q1(2) sz1] q1(3) l(10) d2(12) by simp
        from relisted3_trans [OF r2 this] have r3: "relisted3 s (rl s, sl s) (zl s) ?s3" using d2 by simp
        note d3 = relisted3D [OF r3]
        have pre: "fork_prepare mem p s = kbindE (make_runnable mem p) (\<lambda>_.
            kbind (kmod (\<lambda>s. s\<lparr>numthreads := ?n\<rparr>)) (\<lambda>_. kret (Inr ()))) ?s3"
          using l(1,4,7) a1(1) z1(1) q1(1) spl by (simp add: fork_prepare_def scheduler_preallocate_def)
        have "q_size q1 < 2 ^ 29 - 1" using sz1 by simp
        with q1(2) show thesis
        proof (rule q_addtail_cases [of _ mem p])
          assume "q_addtail mem p q1 = Inr (Inl ENOMEM, q1)"
          then have "make_runnable mem p ?s3 = Inr (Inl ENOMEM, ?s3)" using spl by (simp add: make_runnable_def)
          then show thesis using pre r3 by (intro nomem [of ?s3]) simp_all
        next
          fix q2
          assume q2: "q_addtail mem p q1 = Inr (Inr (), q2)" "q_inv q2" "q_list q2 = q_list q1 @ [p]"
            "q_size q2 \<le> max (q_size q1) (2 * (int (length (q_list q1)) + 2))"
          let ?s4 = "?s3\<lparr>runqueue := Some q2\<rparr>"
          have sz2: "q_size q2 \<le> 2 ^ 28" using q2(4) sz1 q1(3) l(10) len by simp
          have "make_runnable mem p ?s3 = Inr (Inr (), ?s4)" using spl q2(1) by (simp add: make_runnable_def)
          moreover have "relisted3 s (rl s @ [p], sl s) (zl s) ?s4"
            using r3 q2(2,3) q1(3) l sz2 len a1 z1 by (cases s) (simp add: relisted3_def tlists_def rl_def sl_def zl_def)
          ultimately show thesis using pre by (intro ok [of ?s4]) simp_all
        qed
      qed
    qed
  qed
qed

text \<open>The thread structure that \<^verbatim>\<open>thread_fork\<close> builds.\<close>

definition new_thread :: "string \<Rightarrow> nat \<Rightarrow> nat option \<Rightarrow> nat \<Rightarrow> nat \<Rightarrow> nat \<Rightarrow> 'c thread" where
  "new_thread name stack cwd data1 data2 func =
     \<lparr>t_name = name, t_sleepaddr = None, t_stack = Some stack, t_magic = stack_magic, t_vmspace = None, t_cwd = cwd,
      t_process = None, pcb_kstack = (stack + STACK_SIZE) mod 2 ^ 32, pcb_ininterrupt = 0,
      pcb_frame = Some (StartF data1 data2 func)\<rparr>"

definition ref_cwd :: "nat option \<Rightarrow> (nat \<Rightarrow> int) \<Rightarrow> nat \<Rightarrow> int" where
  "ref_cwd cwd refs = (case cwd of None \<Rightarrow> refs | Some v \<Rightarrow> refs(v := refs v + 1))"

lemma thread_fork_unfold:
  assumes cur: "curthread s = Some c" and t: "threads s c = Some tc" and p: "fm_thread fm = Some p" "threads s p = None"
    and mem: "fm_name fm" "fm_stack fm = Some stack"
  shows "thread_fork fm name data1 data2 func s =
     (let s1 = s\<lparr>threads := (threads s)(p \<mapsto> new_thread name stack (t_cwd tc) data1 data2 func),
              vn_refs := ref_cwd (t_cwd tc) (vn_refs s), curspl := SPL_HIGH\<rparr> in
      kbind (fork_prepare (fm_mem fm) p) (\<lambda>r. kbind (splx (curspl s)) (\<lambda>_.
        case r of
          Inr _ \<Rightarrow> kret (Inr p)
        | Inl e \<Rightarrow>
            kbind (get_thread (Some p)) (\<lambda>t.
            kbind (case t_cwd t of None \<Rightarrow> kret () | Some v \<Rightarrow> VOP_DECREF v) (\<lambda>_.
            kbind (free_thread p) (\<lambda>_. kret (Inl e)))))) s1)"
proof -
  have "c \<noteq> p" using t p(2) by auto
  then show ?thesis using assms
    by (cases s; cases "t_cwd tc")
       (simp_all add: thread_fork_def thread_create_def get_cur_def VOP_INCREF_def md_initpcb_def splhigh_def splx_def
         new_thread_def ref_cwd_def Let_def)
qed

lemma tcore_new:
  assumes core: "tcore s c" and fresh: "threads s p = None" and len: "Suc (Suc (length (rl s) + length (sl s) + length (zl s))) < max_threads"
    and nt: "pcb_frame nt = Some (StartF a b g)" "t_magic nt = stack_magic"
    and s': "relisted3 (s\<lparr>threads := (threads s)(p \<mapsto> nt)\<rparr>) (rl s @ [p], sl s) (zl s) s'"
  shows "tcore s' c"
proof -
  note d = relisted3D [OF s']
  have thr: "threads s' = (threads s)(p \<mapsto> nt)" and cur: "curthread s' = Some c" using d(1,6) core by (simp_all add: tcore_def)
  have kn: "known s (c # rl s @ sl s)" and cl: "\<forall>p \<in> set (zl s). clean s p" using core by (simp_all add: tcore_def)
  have "\<exists>t. threads s q = Some t" if "q \<in> set (c # rl s @ sl s @ zl s)" for q
    using that kn cl unfolding known_def clean_def by (metis Un_iff set_append set_ConsD list.set_intros)
  then have ne: "p \<notin> set (c # rl s @ sl s @ zl s)" using fresh by fastforce
  then have e: "frame_of s' q = frame_of s q" "sleeps_on s' q = sleeps_on s q" "threads s' q = threads s q"
    if "q \<in> set (c # rl s @ sl s @ zl s)" for q
    using that thr by (auto simp: frame_of_def sleeps_on_def)
  have l: "rl s' = rl s @ [p]" "sl s' = sl s" "zl s' = zl s" using d by simp_all
  have "known s' (c # rl s' @ sl s')" using kn thr l by (auto simp: known_def)
  moreover have "parked s' p" using thr nt by (simp add: parked_def frame_of_def)
  moreover have "\<forall>q \<in> set (rl s). parked s' q" "\<forall>q \<in> set (sl s). asleep s' q" "\<forall>q \<in> set (zl s). clean s' q"
    using core e by (simp_all add: tcore_def parked_def asleep_def clean_def)
  moreover have "magic_ok s'" using core nt(2) thr by (auto simp: tcore_def magic_ok_def)
  moreover have "distinct (c # rl s' @ sl s' @ zl s')" using core ne l by (auto simp: tcore_def)
  ultimately show ?thesis unfolding tcore_def using d(11) cur len l by auto
qed

lemma fork_ok:
  assumes inv: "tinv s" and cur: "curthread s = Some c" and t: "threads s c = Some tc"
    and fresh: "\<And>p. fm_thread fm = Some p \<Longrightarrow> threads s p = None"
    and len: "Suc (Suc (length (rl s) + length (sl s) + length (zl s))) < max_threads"
  shows "\<exists>r s'. thread_fork fm name data1 data2 func s = Inr (r, s') \<and> tinv s' \<and> curthread s' = Some c \<and> curspl s' = curspl s \<and>
     sl s' = sl s \<and> zl s' = zl s \<and>
     (case r of
        Inr p \<Rightarrow> fm_thread fm = Some p \<and> rl s' = rl s @ [p] \<and> numthreads s' = numthreads s + 1 \<and>
          (\<exists>stack. fm_stack fm = Some stack \<and> threads s' = (threads s)(p \<mapsto> new_thread name stack (t_cwd tc) data1 data2 func)) \<and>
          vn_refs s' = ref_cwd (t_cwd tc) (vn_refs s)
      | Inl e \<Rightarrow> e = ENOMEM \<and> rl s' = rl s \<and> numthreads s' = numthreads s \<and> threads s' = threads s \<and> vn_refs s' = vn_refs s)"
proof -
  have core: "tcore s c" and num: "numthreads s = 1 + int (length (rl s)) + int (length (sl s))"
    using inv cur by (auto simp: tinv_def tcore_def)
  show ?thesis
  proof (cases "\<exists>p stack. fm_thread fm = Some p \<and> fm_name fm \<and> fm_stack fm = Some stack")
    case False
    have "\<exists>s'. thread_fork fm name data1 data2 func s = Inr (Inl ENOMEM, s') \<and> s' = s"
    proof (cases "fm_thread fm = None \<or> \<not> fm_name fm")
      case True
      then show ?thesis by (auto simp: thread_fork_def thread_create_def split: option.splits)
    next
      case c2: False
      then obtain p where p: "fm_thread fm = Some p" "fm_name fm" by auto
      then have "fm_stack fm = None" using False by auto
      then show ?thesis using p fresh [OF p(1)]
        by (cases s) (simp add: thread_fork_def thread_create_def free_thread_def fun_upd_idem)
    qed
    then show ?thesis using inv cur by auto
  next
    case True
    then obtain p stack where p: "fm_thread fm = Some p" "fm_name fm" "fm_stack fm = Some stack" by blast
    let ?nt = "new_thread name stack (t_cwd tc) data1 data2 func :: 'a thread"
    let ?s1 = "s\<lparr>threads := (threads s)(p \<mapsto> ?nt), vn_refs := ref_cwd (t_cwd tc) (vn_refs s), curspl := SPL_HIGH\<rparr>"
    note fork = thread_fork_unfold [OF cur t p(1) fresh [OF p(1)] p(2,3), of name data1 data2 func, unfolded Let_def]
    have l1: "tlists ?s1" "Suc (Suc (length (rl ?s1) + length (sl ?s1) + length (zl ?s1))) < max_threads" "curspl ?s1 > 0"
      "numthreads ?s1 = 1 + int (length (rl ?s1)) + int (length (sl ?s1))"
      using core len num by (simp_all add: tcore_def tlists_def)
    have cwd: "t_cwd ?nt = t_cwd tc" by (simp add: new_thread_def)
    from l1 show ?thesis
    proof (rule fork_prepare_cases [of _ "fm_mem fm" p])
      fix s2
      assume s2: "fork_prepare (fm_mem fm) p ?s1 = Inr (Inl ENOMEM, s2)" "relisted3 ?s1 (rl ?s1, sl ?s1) (zl ?s1) s2"
      note d = relisted3D [OF s2(2)]
      let ?s3 = "s2\<lparr>curspl := curspl s, vn_refs := vn_refs s, threads := threads s\<rparr>"
      have undo: "(threads s2)(p := None) = threads s" "threads s2 p = Some ?nt"
        "t_cwd tc = Some v \<Longrightarrow> (vn_refs s2)(v := vn_refs s2 v - 1) = vn_refs s" "t_cwd tc = None \<Longrightarrow> vn_refs s2 = vn_refs s" for v
        using d(6,7) fresh [OF p(1)] by (auto simp: fun_upd_idem ref_cwd_def)
      have run: "thread_fork fm name data1 data2 func s = Inr (Inl ENOMEM, ?s3)"
        unfolding fork using s2(1) undo cwd
        by (cases "t_cwd tc"; cases s2) (simp_all add: splx_def VOP_DECREF_def free_thread_def)
      have "relisted3 s (rl s, sl s) (zl s) ?s3"
        using s2(2) core by (cases s; cases s2) (simp add: relisted3_def tlists_def tcore_def rl_def sl_def zl_def)
      note e = relisted3D [OF this]
      have "tcore ?s3 c"
        unfolding tcore_def using core e by (simp add: tcore_def known_def parked_def asleep_def clean_def magic_ok_def frame_of_def sleeps_on_def)
      then have "tinv ?s3" using num e by (auto simp: tinv_def)
      then show ?thesis using run e cur by auto
    next
      fix s2
      assume s2: "fork_prepare (fm_mem fm) p ?s1 = Inr (Inr (), s2\<lparr>numthreads := numthreads ?s1 + 1\<rparr>)"
        "relisted3 ?s1 (rl ?s1 @ [p], sl ?s1) (zl ?s1) s2"
      note d = relisted3D [OF s2(2)]
      let ?s3 = "s2\<lparr>numthreads := numthreads s + 1, curspl := curspl s\<rparr>"
      have run: "thread_fork fm name data1 data2 func s = Inr (Inr p, ?s3)"
        unfolding fork using s2(1) by (simp add: splx_def)
      let ?s4 = "s2\<lparr>vn_refs := vn_refs s, curspl := curspl s\<rparr>"
      have "relisted3 (s\<lparr>threads := (threads s)(p \<mapsto> ?nt)\<rparr>) (rl s @ [p], sl s) (zl s) ?s4"
        using s2(2) by (cases s; cases s2) (simp add: relisted3_def tlists_def rl_def sl_def zl_def)
      from tcore_new [OF core fresh [OF p(1)] len _ _ this] have "tcore ?s4 c" by (simp add: new_thread_def)
      then have "tcore ?s3 c" using tcore_cong [of ?s3 ?s4 c] by simp
      then have "tinv ?s3" using num d by (auto simp: tinv_def)
      then show ?thesis using run d p cur by auto
    qed
  qed
qed

section \<open>Start and shutdown\<close>

text \<open>The state before the thread system exists: interrupts are off.\<close>

definition tsys_zero :: "nat \<Rightarrow> 'c tsys" where
  "tsys_zero kstack = \<lparr>curthread = None, sleepers = None, zombies = None, numthreads = 0, runqueue = None,
     curspl = SPL_HIGH, in_interrupt = 0, curkstack = kstack, threads = Map.empty, vn_refs = (\<lambda>_. 0), as_calls = []\<rparr>"

text \<open>The calls of \<^verbatim>\<open>boot\<close> in \<^verbatim>\<open>kern/main/main.c\<close> that concern threads.\<close>

definition boot_threads :: "bool \<Rightarrow> (nat \<Rightarrow> bool) \<Rightarrow> bool \<Rightarrow> bool \<Rightarrow> nat option \<Rightarrow> bool \<Rightarrow> ('c tsys, nat) kern" where
  "boot_threads hdr mem mem_s mem_z guy dup =
     kbind (scheduler_bootstrap hdr mem) (\<lambda>_. thread_bootstrap mem_s mem_z guy dup)"

lemma boot_ok:
  assumes "hdr" "mem 128" "mem_s" "mem_z" "guy = Some p" "dup"
  shows "\<exists>s. boot_threads hdr mem mem_s mem_z guy dup (tsys_zero k) = Inr (p, s) \<and> tinv s \<and> curthread s = Some p \<and>
     rl s = [] \<and> sl s = [] \<and> zl s = [] \<and> q_size (the (runqueue s)) = 32"
  using assms
  by (simp add: boot_threads_def scheduler_bootstrap_def q_create_def thread_bootstrap_def array_create_def thread_create_def
    md_initpcb0_def tsys_zero_def tinv_def tcore_def tlists_def rl_def sl_def zl_def array_list_def array_cells_def q_list_def
    q_cells_def q_len_def ring_def array_inv_def array_shape_def q_inv_def q_shape_def known_def magic_ok_def)

lemma killall_from_ok:
  assumes "sleepers s = Some a" and "array_inv a" and "known s (array_list a)" and "i + n = length (array_list a)"
  shows "killall_from n (int i) s = Inr ((), s)"
  using assms
proof (induction n arbitrary: i)
  case (Suc n)
  then have i: "i < length (array_list a)" by simp
  then obtain t where "threads s (array_list a ! i) = Some t" using Suc.prems(3) nth_mem unfolding known_def by blast
  moreover have "killall_from n (int (Suc i)) s = Inr ((), s)" using Suc.prems by (intro Suc.IH) simp_all
  ultimately show ?case using Suc.prems(1,2) i by (simp add: ac_simps)
qed simp

lemma scheduler_drain_ok:
  assumes "runqueue s = Some q" and "q_inv q" and "q_size q \<le> 2 ^ 28" and "known s (q_list q)" and "length (q_list q) < n"
  shows "\<exists>q'. scheduler_drain n s = Inr ((), s\<lparr>runqueue := Some q'\<rparr>) \<and> q_inv q' \<and> q_list q' = [] \<and> q_size q' = q_size q"
  using assms
proof (induction n arbitrary: s q)
  case (Suc n)
  have e: "q_empty q \<longleftrightarrow> q_list q = []" using Suc.prems(2,3) runq.empty_iff [of q] by (simp add: q_usable_def)
  show ?case
  proof (cases "q_list q")
    case Nil
    then show ?thesis using Suc.prems e by (intro exI [of _ q]) simp
  next
    case (Cons x xs)
    obtain q1 where q1: "q_remhead q = Inr (Some x, q1)" "q_inv q1" "q_list q1 = xs" "q_size q1 = q_size q"
      using q_remhead_ok [OF Suc.prems(2) Cons] by blast
    obtain t where t: "threads s x = Some t" using Suc.prems(4) Cons by (auto simp: known_def)
    let ?s = "s\<lparr>runqueue := Some q1\<rparr>"
    have "known ?s (q_list q1)" using Suc.prems(4) Cons q1(3) by (auto simp: known_def)
    then obtain q2 where "scheduler_drain n ?s = Inr ((), ?s\<lparr>runqueue := Some q2\<rparr>)" "q_inv q2" "q_list q2 = []" "q_size q2 = q_size q1"
      using Suc.IH [of ?s q1] Suc.prems q1 Cons by auto
    moreover have "scheduler_drain (Suc n) s = scheduler_drain n ?s"
      using Suc.prems(1) e Cons q1(1) t by (simp add: get_thread_def)
    ultimately show ?thesis using q1(4) by auto
  qed
qed simp

lemma panic_ok:
  assumes inv: "tinv s" and spl: "curspl s > 0"
  shows "\<exists>s'. thread_panic mem s = Inr ((), s') \<and> rl s' = [] \<and> sl s' = [] \<and> curthread s' = curthread s"
proof -
  obtain c where core: "tcore s c" using inv by (auto simp: tinv_def)
  then have ls: "tlists s" and kn: "known s (rl s)" "known s (sl s)" by (auto simp: tcore_def known_def)
  from ls obtain a z q where l: "sleepers s = Some a" "array_inv a" "array_list a = sl s" "zombies s = Some z" "array_inv z"
    "array_list z = zl s" "runqueue s = Some q" "q_inv q" "q_size q \<le> 2 ^ 28" "q_list q = rl s" by (rule tlists_arrays)
  have k: "killall_from (length (array_list a)) (int 0) s = Inr ((), s)" using kn(2) l(3) by (intro killall_from_ok [OF l(1,2)]) simp_all
  obtain a1 where a1: "array_setsize mem 0 a = Inr (Inr (), a1)" "array_list a1 = []" using array_setsize_0 [OF l(2)] by blast
  let ?s = "s\<lparr>sleepers := Some a1\<rparr>"
  have killed: "thread_killall mem s = Inr ((), ?s)"
    using spl l(1,2) k a1(1) by (simp add: thread_killall_def array_getnum_def arr_num_length)
  have "length (q_list q) < Suc (nat (q_size q))"
    using l(8) q_list_length [of q] q_len_le [of q] by (simp add: q_inv_def)
  moreover have "known ?s (q_list q)" using kn(1) l(10) by (simp add: known_def)
  moreover have "runqueue ?s = Some q" using l(7) by simp
  ultimately obtain q1 where q1: "scheduler_drain (Suc (nat (q_size q))) ?s = Inr ((), ?s\<lparr>runqueue := Some q1\<rparr>)" "q_list q1 = []"
    using scheduler_drain_ok [of ?s q "Suc (nat (q_size q))"] l(8,9) by blast
  have "thread_panic mem s = Inr ((), ?s\<lparr>runqueue := Some q1\<rparr>)"
    using killed q1(1) spl l(7) by (simp add: thread_panic_def scheduler_killall_def del: scheduler_drain.simps)
  then show ?thesis using a1(2) q1(2) by (auto simp: rl_def sl_def)
qed

section \<open>Round robin\<close>

primrec thread_yields :: "(nat \<Rightarrow> bool) \<Rightarrow> nat \<Rightarrow> ('c tsys, unit) kern" where
  "thread_yields mem 0 = kret ()"
| "thread_yields mem (Suc n) = kbind (thread_yield mem []) (\<lambda>_. thread_yields mem n)"

lemma yields_ok:
  assumes "tinv s" and "\<forall>b. mem b" and "curthread s = Some c"
  shows "\<exists>s' c'. thread_yields mem n s = Inr ((), s') \<and> tinv s' \<and> curthread s' = Some c' \<and> c' # rl s' = rotate n (c # rl s)"
  using assms
proof (induction n arbitrary: s c)
  case (Suc n)
  obtain x xs where x: "rl s @ [c] = x # xs" by (cases "rl s @ [c]") auto
  obtain y s1 where s1: "thread_yield mem [] s = Inr (y, s1)" "tinv s1" "curthread s1 = Some x" "rl s1 = xs"
    using yield_ok [OF Suc.prems x] by blast
  from Suc.IH [OF s1(2) Suc.prems(2) s1(3)] obtain s2 c2 where
    "thread_yields mem n s1 = Inr ((), s2)" "tinv s2" "curthread s2 = Some c2" "c2 # rl s2 = rotate n (x # xs)"
    using s1(4) by blast
  moreover have "rotate (Suc n) (c # rl s) = rotate n (x # xs)" using x by (simp add: rotate1_rotate_swap)
  ultimately show ?case using s1(1) by (intro exI [of _ s2] exI [of _ c2]) simp
qed simp

section \<open>Memory that runs out\<close>

lemma q_addtail_full:
  assumes "q_inv q" and "q_size q \<le> 2 ^ 28" and "int (length (q_list q)) = q_size q - 1" and "\<forall>b. \<not> mem b"
  shows "q_addtail mem x q = Inr (Inl ENOMEM, q)"
proof -
  have sh: "q_shape q" using assms(1) by (simp add: q_inv_def)
  have full: "(q_nextwrite q + 1) mod q_size q = q_nextread q" using q_full_iff [OF sh] assms(3) q_list_length [of q] by simp
  obtain n where "q_newsize (q_size q + 1) (q_size q) = Inr n"
    using q_newsize_bounds [of "q_size q" "q_size q + 1"] sh assms(2) by (auto simp: q_shape_def)
  then show ?thesis using sh full assms(4)
    by (simp add: q_addtail_def q_addtail_body_def q_grow_body_def q_shape_def Let_def)
qed

section \<open>Properties\<close>

text \<open>A running thread 1, thread 2 on the run queue, thread 3 asleep on address 7.\<close>

definition demo_thread :: "nat option \<Rightarrow> unit frame option \<Rightarrow> unit thread" where
  "demo_thread addr f = \<lparr>t_name = [], t_sleepaddr = addr, t_stack = None, t_magic = [], t_vmspace = None, t_cwd = None,
     t_process = None, pcb_kstack = 0, pcb_ininterrupt = 0, pcb_frame = f\<rparr>"

definition tdemo :: "unit tsys" where
  "tdemo = \<lparr>curthread = Some 1, sleepers = Some \<lparr>arr_num = 1, arr_max = 2, arr_v = Some [Some 3, None]\<rparr>,
     zombies = Some \<lparr>arr_num = 0, arr_max = 2, arr_v = Some [None, None]\<rparr>, numthreads = 3,
     runqueue = Some \<lparr>q_size = 4, q_nextwrite = 1, q_nextread = 0, q_data = [Some 2, None, None, None]\<rparr>,
     curspl = SPL_HIGH, in_interrupt = 0, curkstack = 0,
     threads = [1 \<mapsto> demo_thread None None, 2 \<mapsto> demo_thread None (Some (YieldF 0)),
       3 \<mapsto> demo_thread (Some 7) (Some (SleepF ()))],
     vn_refs = (\<lambda>_. 0), as_calls = []\<rparr>"

lemma tdemo_lists: "rl tdemo = [2]" "sl tdemo = [3]" "zl tdemo = []" "curthread tdemo = Some 1" "curspl tdemo = 15"
    "in_interrupt tdemo = 0" "threads tdemo 1 = Some (demo_thread None None)" "threads tdemo 4 = None"
  by (simp_all add: tdemo_def rl_def sl_def zl_def q_list_def q_cells_def q_len_def ring_def array_list_def array_cells_def)

lemma tdemo_inv: "tinv tdemo"
  by (simp add: tinv_def tcore_def tlists_def tdemo_lists)
     (simp add: tdemo_def demo_thread_def array_inv_def array_shape_def array_cells_def q_inv_def q_shape_def q_cells_def
       q_len_def ring_def known_def parked_def asleep_def frame_of_def sleeps_on_def magic_ok_def)

text \<open>
  The boot sequence, when memory is granted, establishes the invariant of the thread system
  with one running thread and room for 31 threads on the run queue.
\<close>

theorem boot_establishes_threads:
  assumes "mem 128"
  shows "\<exists>s. boot_threads True mem True True (Some p) True (tsys_zero k) = Inr (p, s) \<and> tinv s \<and> curthread s = Some p \<and>
     rl s = [] \<and> sl s = [] \<and> zl s = [] \<and> q_size (the (runqueue s)) = 32"
  using assms by (intro boot_ok) simp_all

theorem boot_establishes_threads_witness:
  "\<exists>s :: unit tsys. boot_threads True (\<lambda>_. True) True True (Some 5) True (tsys_zero 0) = Inr (5, s) \<and> tinv s"
  using boot_establishes_threads [of "\<lambda>_. True" 5 0] by auto

text \<open>
  C5: Threads that only yield run in turn.  From a well-formed state, as long as memory is
  granted, no yield fails an assertion or panics, and the thread at position \<open>i\<close> of the run
  queue runs after exactly \<open>i + 1\<close> yields.
\<close>

theorem yields_serve:
  assumes "tinv s" and "\<forall>b. mem b" and "i < length (rl s)"
  shows "\<exists>s'. thread_yields mem (Suc i) s = Inr ((), s') \<and> tinv s' \<and> curthread s' = Some (rl s ! i)"
proof -
  obtain c where c: "curthread s = Some c" using assms(1) by (auto simp: tinv_def tcore_def)
  obtain s' c' where s': "thread_yields mem (Suc i) s = Inr ((), s')" "tinv s'" "curthread s' = Some c'"
      "c' # rl s' = rotate (Suc i) (c # rl s)"
    using yields_ok [OF assms(1,2) c] by blast
  have "c' = hd (rotate (Suc i) (c # rl s))" using s'(4) by (metis list.sel(1))
  also have "\<dots> = rl s ! i" using assms(3) by (subst hd_rotate_conv_nth) simp_all
  finally show ?thesis using s' by blast
qed

theorem yields_serve_witness:
  "\<exists>s'. thread_yields (\<lambda>_. True) 1 tdemo = Inr ((), s') \<and> curthread s' = Some 2"
  using yields_serve [OF tdemo_inv, of "\<lambda>_. True" 0] tdemo_lists by auto

text \<open>
  C23: \<^verbatim>\<open>thread_wakeup\<close> moves exactly the threads that sleep on the address to the tail of the run
  queue, in the order in which they went to sleep, and leaves every other sleeper asleep.
\<close>

theorem thread_wakeup_exact:
  assumes "tinv s" and "curspl s > 0" and "\<forall>b. mem b"
  shows "\<exists>s'. thread_wakeup mem addr s = Inr ((), s') \<and> tinv s' \<and> threads s' = threads s \<and> curthread s' = curthread s \<and>
     rl s' = rl s @ filter (\<lambda>p. sleeps_on s p = Some addr) (sl s) \<and> sl s' = filter (\<lambda>p. sleeps_on s p \<noteq> Some addr) (sl s)"
proof -
  obtain c where "tcore s c" using assms(1) by (auto simp: tinv_def)
  then have "tlists s" "known s (sl s)" by (auto simp: tcore_def known_def)
  then obtain s' where s': "thread_wakeup mem addr s = Inr ((), s')" "relisted s (wakes (sleeps_on s) addr (rl s, sl s)) s'"
    using thread_wakeup_relists [OF _ _ assms(2,3)] by blast
  have "tinv s'"
    using relisted_tinv [OF assms(1), of "fst (wakes (sleeps_on s) addr (rl s, sl s))" "snd (wakes (sleeps_on s) addr (rl s, sl s))" s']
      s'(2) wakes_mset [of "sleeps_on s" addr "(rl s, sl s)"] wakes_snd [of "sleeps_on s" addr "(rl s, sl s)"]
    by simp
  then show ?thesis using s' relistedD [of s _ s'] by auto
qed

theorem thread_wakeup_exact_witness:
  "\<exists>s'. thread_wakeup (\<lambda>_. True) 7 tdemo = Inr ((), s') \<and> rl s' = [2, 3] \<and> sl s' = []"
proof -
  have "sleeps_on tdemo 3 = Some 7" by (simp add: sleeps_on_def tdemo_def demo_thread_def)
  then show ?thesis using thread_wakeup_exact [OF tdemo_inv, of "\<lambda>_. True" 7] tdemo_lists by auto
qed

text \<open>
  \<^verbatim>\<open>thread_sleep\<close> puts the running thread to sleep on the address and switches to the first
  thread of the run queue, or to the first thread an interrupt wakes; the invariant holds, the
  resumed thread no longer sleeps, and no assertion fails.
\<close>

theorem thread_sleep_switches:
  assumes "tinv s" and "\<forall>b. mem b" and "curthread s = Some c" and "curspl s > 0" and "in_interrupt s = 0"
    and "idle_until ((sleeps_on s)(c := Some addr)) idle (rl s, sl s @ [c]) = Some (n # r, l)"
  shows "\<exists>x s'. thread_sleep mem idle k addr s = Inr (x, s') \<and> tinv s' \<and> curthread s' = Some n \<and> rl s' = r \<and> sl s' = l \<and>
     (c \<noteq> n \<longrightarrow> sleeps_on s' c = Some addr) \<and> (c = n \<longrightarrow> x = Woken k \<and> sleeps_on s' n = None)"
  using sleep_ok [OF assms, of k] by auto

theorem thread_sleep_switches_witness:
  "\<exists>x s'. thread_sleep (\<lambda>_. True) [] () 9 tdemo = Inr (x, s') \<and> curthread s' = Some 2 \<and> sl s' = [3, 1] \<and> sleeps_on s' 1 = Some 9"
  using thread_sleep_switches [OF tdemo_inv, of "\<lambda>_. True" 1 9 "[]" 2 "[]" "[3, 1]" "()"] tdemo_lists by auto

text \<open>
  C24: \<^verbatim>\<open>thread_exit\<close> gives up the directory reference of the thread, switches away for good and
  keeps the invariant; the thread waits among the zombies unless they were already disposed of.
\<close>

theorem thread_exit_switches:
  assumes "tinv s" and "\<forall>b. mem b" and "curthread s = Some c" and "threads s c = Some t"
    and "idle_until (sleeps_on s) idle (rl s, sl s) = Some (n # r, l)"
  shows "\<exists>x s'. thread_exit mem idle s = Inr (x, s') \<and> tinv s' \<and> curthread s' = Some n \<and> rl s' = r \<and> sl s' = l \<and>
     vn_refs s' = (case t_cwd t of None \<Rightarrow> vn_refs s | Some v \<Rightarrow> (vn_refs s)(v := vn_refs s v - 1)) \<and>
     (zl s' \<noteq> [] \<longrightarrow> c \<in> set (zl s'))"
  by (rule exit_ok [OF assms])

theorem thread_exit_switches_witness:
  "\<exists>x s'. thread_exit (\<lambda>_. True) [] tdemo = Inr (x, s') \<and> curthread s' = Some 2 \<and> tinv s'"
  using thread_exit_switches [OF tdemo_inv, of "\<lambda>_. True" 1 "demo_thread None None" "[]" 2 "[]" "[3]"] tdemo_lists by auto

text \<open>
  C4: \<^verbatim>\<open>thread_fork\<close> is all or nothing, whichever of its memory requests fail: it adds one
  runnable thread that inherits the current directory, or it reports ENOMEM and leaves the
  thread table, the run queue, the thread count and the directory references unchanged.
\<close>

theorem thread_fork_atomic:
  assumes "tinv s" and "curthread s = Some c" and "threads s c = Some tc"
    and "\<And>p. fm_thread fm = Some p \<Longrightarrow> threads s p = None"
    and "Suc (Suc (length (rl s) + length (sl s) + length (zl s))) < max_threads"
  shows "\<exists>r s'. thread_fork fm name data1 data2 func s = Inr (r, s') \<and> tinv s' \<and> curthread s' = Some c \<and> curspl s' = curspl s \<and>
     sl s' = sl s \<and> zl s' = zl s \<and>
     (case r of
        Inr p \<Rightarrow> fm_thread fm = Some p \<and> rl s' = rl s @ [p] \<and> numthreads s' = numthreads s + 1 \<and>
          (\<exists>stack. fm_stack fm = Some stack \<and> threads s' = (threads s)(p \<mapsto> new_thread name stack (t_cwd tc) data1 data2 func)) \<and>
          vn_refs s' = ref_cwd (t_cwd tc) (vn_refs s)
      | Inl e \<Rightarrow> e = ENOMEM \<and> rl s' = rl s \<and> numthreads s' = numthreads s \<and> threads s' = threads s \<and> vn_refs s' = vn_refs s)"
  by (rule fork_ok [OF assms])

theorem thread_fork_atomic_witness:
  "\<exists>r s'. thread_fork \<lparr>fm_thread = Some 4, fm_name = True, fm_stack = Some 8192, fm_mem = (\<lambda>_. False)\<rparr> ''x'' 1 2 3 tdemo =
     Inr (r, s') \<and> tinv s'"
  using thread_fork_atomic [OF tdemo_inv, of 1 "demo_thread None None"
    "\<lparr>fm_thread = Some 4, fm_name = True, fm_stack = Some 8192, fm_mem = (\<lambda>_. False)\<rparr>" "''x''" 1 2 3] tdemo_lists by auto

text \<open>
  The space that \<^verbatim>\<open>thread_fork\<close> reserves in the run queue is one cell short.  With as many
  threads as the queue has cells, all of them runnable, a yield has to grow the queue; if
  memory is exhausted, the assertion in \<^verbatim>\<open>mi_switch\<close> fails.
\<close>

theorem yield_preallocation_short:
  assumes "tinv s" and "sl s = []" and "q_size (the (runqueue s)) = numthreads s" and "\<forall>b. \<not> mem b"
  shows "thread_yield mem idle s = Inl AssertFail"
proof -
  obtain c where core: "tcore s c" and num: "numthreads s = 1 + int (length (rl s))" using assms(1,2) by (auto simp: tinv_def)
  obtain t where t: "threads s c = Some t" and cur: "curthread s = Some c" by (rule tcore_cur [OF core])
  have ls: "tlists s" using core by (simp add: tcore_def)
  from ls obtain a z q where l: "sleepers s = Some a" "array_inv a" "array_list a = sl s" "zombies s = Some z" "array_inv z"
    "array_list z = zl s" "runqueue s = Some q" "q_inv q" "q_size q \<le> 2 ^ 28" "q_list q = rl s" by (rule tlists_arrays)
  have "q_addtail mem c q = Inr (Inl ENOMEM, q)" using q_addtail_full [OF l(8,9) _ assms(4)] assms(3) l(7,10) num by simp
  then have "make_runnable mem c (s\<lparr>curspl := SPL_HIGH, curthread := None\<rparr>) =
      Inr (Inl ENOMEM, s\<lparr>curspl := SPL_HIGH, curthread := None\<rparr>)" using l(7) by (simp add: make_runnable_def)
  moreover have "check_magic t s' = Inr ((), s')" for s' :: "'a tsys" using core t by (auto simp: check_magic_def tcore_def magic_ok_def)
  ultimately show ?thesis
    using l(1) cur t by (simp add: thread_yield_def splhigh_def splx_def mi_switch_def stash_def kassert_def)
qed

definition tdemo_full :: "unit tsys" where
  "tdemo_full = tdemo\<lparr>sleepers := Some \<lparr>arr_num = 0, arr_max = 2, arr_v = Some [None, None]\<rparr>, numthreads := 2,
     runqueue := Some \<lparr>q_size = 2, q_nextwrite = 1, q_nextread = 0, q_data = [Some 2, None]\<rparr>\<rparr>"

theorem yield_preallocation_short_witness:
  "tinv tdemo_full \<and> thread_yield (\<lambda>_. False) [] tdemo_full = Inl AssertFail"
proof -
  have l: "rl tdemo_full = [2]" "sl tdemo_full = []" "zl tdemo_full = []"
    by (simp_all add: tdemo_full_def tdemo_def rl_def sl_def zl_def q_list_def q_cells_def q_len_def ring_def array_list_def array_cells_def)
  have i: "tinv tdemo_full"
    by (simp add: tinv_def tcore_def tlists_def l)
       (simp add: tdemo_full_def tdemo_def demo_thread_def array_inv_def array_shape_def array_cells_def q_inv_def q_shape_def q_cells_def
         q_len_def ring_def known_def parked_def asleep_def frame_of_def sleeps_on_def magic_ok_def)
  have "q_size (the (runqueue tdemo_full)) = numthreads tdemo_full" by (simp add: tdemo_full_def tdemo_def)
  from i yield_preallocation_short [OF i l(2) this, of "\<lambda>_. False" "[]"] show ?thesis by simp
qed

definition tdemo_two :: "unit tsys" where
  "tdemo_two = tdemo\<lparr>sleepers := Some \<lparr>arr_num = 2, arr_max = 2, arr_v = Some [Some 3, Some 4]\<rparr>,
     threads := (threads tdemo)(4 \<mapsto> demo_thread (Some 7) (Some (SleepF ())))\<rparr>"

text \<open>
  \<^verbatim>\<open>thread_wakeup_n\<close> compares its count with an index into the sleepers.  With two threads
  asleep on the address, a request to wake one of them wakes both.
\<close>

theorem thread_wakeup_n_wakes_both:
  "\<exists>s'. thread_wakeup_n (\<lambda>_. True) 7 1 tdemo_two = Inr ((), s') \<and> rl s' = [2, 3, 4] \<and> sl s' = []"
  by (simp add: thread_wakeup_n_def tdemo_two_def tdemo_def wakeup_from.simps array_getnum_def array_at_def array_getguy_def
    on_sleepers_def get_thread_def demo_thread_def array_remove_def make_runnable_def on_runqueue_def q_addtail_def q_addtail_body_def
    spl_on_def rl_def sl_def array_list_def array_cells_def q_list_def q_cells_def q_len_def ring_def kbind_def numeral_2_eq_2 numeral_3_eq_3 Let_def)

text \<open>
  C34: A panic empties the run queue and the sleepers, so no other thread runs again; neither
  loop gets stuck.
\<close>

theorem thread_panic_stops_others:
  assumes "tinv s" and "curspl s > 0"
  shows "\<exists>s'. thread_panic mem s = Inr ((), s') \<and> rl s' = [] \<and> sl s' = [] \<and> curthread s' = curthread s"
  by (rule panic_ok [OF assms])

theorem thread_panic_stops_others_witness:
  "\<exists>s'. thread_panic (\<lambda>_. False) tdemo = Inr ((), s') \<and> rl s' = [] \<and> sl s' = []"
  using thread_panic_stops_others [OF tdemo_inv, of "\<lambda>_. False"] tdemo_lists by auto

end
