(* ===== verification/Synch.thy ===== *)
theory Synch
  imports Threads
begin

text \<open>
  The synchronisation primitives of \<^verbatim>\<open>kern/thread/synch.c\<close>, the clock of \<^verbatim>\<open>hardclock.c\<close> and timer
  interrupts, on top of the thread system.

  A primitive that sleeps is cut at its call of \<^verbatim>\<open>thread_sleep\<close>: before the switch it records on
  the stack \<open>pc\<close> of the running thread where it will go on, and \<open>run_pc\<close> goes on from there.
  \<^verbatim>\<open>cv_wait\<close> is cut as well between \<^verbatim>\<open>lock_release\<close> and \<^verbatim>\<open>splhigh\<close>, where interrupts may be on.  The
  step relation interleaves the threads: the running thread calls a primitive, or goes on from
  the top of its stack, or, when interrupts are on, the timer interrupts it.

  Objects are named by their addresses; 0 is NULL.
\<close>

section \<open>Model\<close>

abbreviation HZ :: int where "HZ \<equiv> 100"

datatype scont =
    InP nat int | InAcquire nat int | InWait nat nat | Waited nat nat int | Relock nat
  | InClock int int | InTrap int int

record ssys =
  ts :: "unit tsys"
  sems :: "nat \<Rightarrow> int option"
  locks :: "nat \<Rightarrow> nat option option"
  cvs :: "nat \<Rightarrow> unit option"
  lbolt_counter :: int
  pc :: "nat \<Rightarrow> scont list"

definition in_ts :: "(unit tsys, 'a) kern \<Rightarrow> (ssys, 'a) kern" where
  "in_ts m = kzoom ts (\<lambda>t s. s\<lparr>ts := t\<rparr>) m"

definition push_pc :: "scont \<Rightarrow> (ssys, unit) kern" where
  "push_pc k s =
     (case curthread (ts s) of
        None \<Rightarrow> Inl BadPtr
      | Some c \<Rightarrow> Inr ((), s\<lparr>pc := (pc s)(c := k # pc s c)\<rparr>))"

subsection \<open>Creation and destruction\<close>

definition sem_create :: "nat option \<Rightarrow> bool \<Rightarrow> int \<Rightarrow> (ssys, nat option) kern" where
  "sem_create mem dup initial_count =
     kbind (kassert (initial_count \<ge> 0)) (\<lambda>_.
     case mem of
       None \<Rightarrow> kret None
     | Some sem \<Rightarrow>
         if \<not> dup then kret None
         else kbind (kmod (\<lambda>s. s\<lparr>sems := (sems s)(sem \<mapsto> initial_count)\<rparr>)) (\<lambda>_. kret (Some sem)))"

definition sem_destroy :: "nat \<Rightarrow> (ssys, unit) kern" where
  "sem_destroy sem =
     kbind (kassert (sem \<noteq> 0)) (\<lambda>_.
     kbind (in_ts splhigh) (\<lambda>spl.
     kbind (in_ts (thread_hassleepers sem)) (\<lambda>h.
     kbind (kassert (h = 0)) (\<lambda>_.
     kbind (in_ts (splx spl)) (\<lambda>_. kmod (\<lambda>s. s\<lparr>sems := (sems s)(sem := None)\<rparr>))))))"

definition lock_create :: "nat option \<Rightarrow> bool \<Rightarrow> (ssys, nat option) kern" where
  "lock_create mem dup =
     (case mem of
        None \<Rightarrow> kret None
      | Some lock \<Rightarrow>
          if \<not> dup then kret None
          else kbind (kmod (\<lambda>s. s\<lparr>locks := (locks s)(lock \<mapsto> None)\<rparr>)) (\<lambda>_. kret (Some lock)))"

definition lock_destroy :: "nat \<Rightarrow> (ssys, unit) kern" where
  "lock_destroy lock =
     kbind (kassert (lock \<noteq> 0)) (\<lambda>_.
     kbind (kget (\<lambda>s. locks s lock)) (\<lambda>l.
     case l of
       None \<Rightarrow> khalt BadPtr
     | Some owner \<Rightarrow>
         kbind (kassert (owner = None)) (\<lambda>_. kmod (\<lambda>s. s\<lparr>locks := (locks s)(lock := None)\<rparr>))))"

definition cv_create :: "nat option \<Rightarrow> bool \<Rightarrow> (ssys, nat option) kern" where
  "cv_create mem dup =
     (case mem of
        None \<Rightarrow> kret None
      | Some cv \<Rightarrow>
          if \<not> dup then kret None
          else kbind (kmod (\<lambda>s. s\<lparr>cvs := (cvs s)(cv \<mapsto> ())\<rparr>)) (\<lambda>_. kret (Some cv)))"

definition cv_destroy :: "nat \<Rightarrow> (ssys, unit) kern" where
  "cv_destroy cv =
     kbind (kassert (cv \<noteq> 0)) (\<lambda>_. kmod (\<lambda>s. s\<lparr>cvs := (cvs s)(cv := None)\<rparr>))"

subsection \<open>Semaphores\<close>

definition P_loop :: "(nat \<Rightarrow> bool) \<Rightarrow> nat list list \<Rightarrow> nat \<Rightarrow> int \<Rightarrow> (ssys, unit) kern" where
  "P_loop mem idle sem spl =
     kbind (kget (\<lambda>s. sems s sem)) (\<lambda>c.
     case c of
       None \<Rightarrow> khalt BadPtr
     | Some cnt \<Rightarrow>
         if cnt = 0 then
           kbind (push_pc (InP sem spl)) (\<lambda>_.
           kbind (in_ts (thread_sleep mem idle () sem)) (\<lambda>_. kret ()))
         else
           kbind (kassert (cnt > 0)) (\<lambda>_.
           kbind (kmod (\<lambda>s. s\<lparr>sems := (sems s)(sem \<mapsto> cnt - 1)\<rparr>)) (\<lambda>_.
           kbind (in_ts (splx spl)) (\<lambda>_. kret ()))))"

definition sem_P :: "(nat \<Rightarrow> bool) \<Rightarrow> nat list list \<Rightarrow> nat \<Rightarrow> (ssys, unit) kern" where
  "sem_P mem idle sem =
     kbind (kassert (sem \<noteq> 0)) (\<lambda>_.
     kbind (kget (\<lambda>s. in_interrupt (ts s))) (\<lambda>i.
     kbind (kassert (i = 0)) (\<lambda>_.
     kbind (in_ts splhigh) (\<lambda>spl. P_loop mem idle sem spl))))"

definition sem_V :: "(nat \<Rightarrow> bool) \<Rightarrow> nat \<Rightarrow> (ssys, unit) kern" where
  "sem_V mem sem =
     kbind (kassert (sem \<noteq> 0)) (\<lambda>_.
     kbind (in_ts splhigh) (\<lambda>spl.
     kbind (kget (\<lambda>s. sems s sem)) (\<lambda>c.
     case c of
       None \<Rightarrow> khalt BadPtr
     | Some cnt \<Rightarrow>
         if cnt + 1 > INT_MAX then khalt IntOverflow
         else
           kbind (kmod (\<lambda>s. s\<lparr>sems := (sems s)(sem \<mapsto> cnt + 1)\<rparr>)) (\<lambda>_.
           kbind (kassert (cnt + 1 > 0)) (\<lambda>_.
           kbind (in_ts (thread_wakeup mem sem)) (\<lambda>_.
           kbind (in_ts (splx spl)) (\<lambda>_. kret ())))))))"

subsection \<open>Locks\<close>

definition acquire_loop :: "(nat \<Rightarrow> bool) \<Rightarrow> nat list list \<Rightarrow> nat \<Rightarrow> int \<Rightarrow> (ssys, unit) kern" where
  "acquire_loop mem idle lock level =
     kbind (kget (\<lambda>s. locks s lock)) (\<lambda>l.
     case l of
       None \<Rightarrow> khalt BadPtr
     | Some owner \<Rightarrow>
         if owner \<noteq> None then
           kbind (push_pc (InAcquire lock level)) (\<lambda>_.
           kbind (in_ts (thread_sleep mem idle () lock)) (\<lambda>_. kret ()))
         else
           kbind (kmod (\<lambda>s. s\<lparr>locks := (locks s)(lock \<mapsto> curthread (ts s))\<rparr>)) (\<lambda>_.
           kbind (in_ts (splx level)) (\<lambda>_. kret ())))"

definition lock_acquire_s :: "(nat \<Rightarrow> bool) \<Rightarrow> nat list list \<Rightarrow> nat \<Rightarrow> (ssys, unit) kern" where
  "lock_acquire_s mem idle lock =
     kbind (kassert (lock \<noteq> 0)) (\<lambda>_.
     kbind (in_ts splhigh) (\<lambda>level. acquire_loop mem idle lock level))"

definition lock_do_i_hold_s :: "nat \<Rightarrow> (ssys, bool) kern" where
  "lock_do_i_hold_s lock s =
     (case locks s lock of None \<Rightarrow> Inl BadPtr | Some owner \<Rightarrow> Inr (curthread (ts s) = owner, s))"

definition lock_release_s :: "(nat \<Rightarrow> bool) \<Rightarrow> nat \<Rightarrow> (ssys, unit) kern" where
  "lock_release_s mem lock =
     kbind (kassert (lock \<noteq> 0)) (\<lambda>_.
     kbind (in_ts splhigh) (\<lambda>level.
     kbind (lock_do_i_hold_s lock) (\<lambda>h.
     kbind (kassert h) (\<lambda>_.
     kbind (kmod (\<lambda>s. s\<lparr>locks := (locks s)(lock \<mapsto> None)\<rparr>)) (\<lambda>_.
     kbind (in_ts (thread_wakeup mem lock)) (\<lambda>_.
     kbind (in_ts (splx level)) (\<lambda>_. kret ())))))))"

subsection \<open>Condition variables\<close>

definition cv_checks :: "nat \<Rightarrow> nat \<Rightarrow> (ssys, unit) kern" where
  "cv_checks cv lock =
     kbind (kassert (cv \<noteq> 0)) (\<lambda>_.
     kbind (kassert (lock \<noteq> 0)) (\<lambda>_.
     kbind (lock_do_i_hold_s lock) (\<lambda>h. kassert h)))"

definition cv_wait :: "(nat \<Rightarrow> bool) \<Rightarrow> nat \<Rightarrow> nat \<Rightarrow> (ssys, unit) kern" where
  "cv_wait mem cv lock =
     kbind (cv_checks cv lock) (\<lambda>_.
     kbind (kget (\<lambda>s. in_interrupt (ts s))) (\<lambda>i.
     kbind (kassert (i = 0)) (\<lambda>_.
     kbind (lock_release_s mem lock) (\<lambda>_. push_pc (InWait cv lock)))))"

definition cv_wait_sleep :: "(nat \<Rightarrow> bool) \<Rightarrow> nat list list \<Rightarrow> nat \<Rightarrow> nat \<Rightarrow> (ssys, unit) kern" where
  "cv_wait_sleep mem idle cv lock =
     kbind (in_ts splhigh) (\<lambda>level.
     kbind (push_pc (Waited cv lock level)) (\<lambda>_.
     kbind (in_ts (thread_sleep mem idle () cv)) (\<lambda>_. kret ())))"

definition cv_waited :: "nat \<Rightarrow> int \<Rightarrow> (ssys, unit) kern" where
  "cv_waited lock level = kbind (in_ts (splx level)) (\<lambda>_. push_pc (Relock lock))"

definition cv_signal :: "(nat \<Rightarrow> bool) \<Rightarrow> nat \<Rightarrow> nat \<Rightarrow> (ssys, unit) kern" where
  "cv_signal mem cv lock =
     kbind (cv_checks cv lock) (\<lambda>_.
     kbind (in_ts splhigh) (\<lambda>level.
     kbind (in_ts (thread_wakeup_n mem cv 1)) (\<lambda>_.
     kbind (in_ts (splx level)) (\<lambda>_. kret ()))))"

definition cv_broadcast :: "(nat \<Rightarrow> bool) \<Rightarrow> nat \<Rightarrow> nat \<Rightarrow> (ssys, unit) kern" where
  "cv_broadcast mem cv lock =
     kbind (cv_checks cv lock) (\<lambda>_.
     kbind (in_ts splhigh) (\<lambda>level.
     kbind (in_ts (thread_wakeup mem cv)) (\<lambda>_.
     kbind (in_ts (splx level)) (\<lambda>_. kret ()))))"

subsection \<open>Clock\<close>

definition hardclock :: "(nat \<Rightarrow> bool) \<Rightarrow> nat list list \<Rightarrow> nat \<Rightarrow> (ssys, unit) kern" where
  "hardclock mem idle lbolt =
     kbind (kget (\<lambda>s. lbolt_counter s + 1)) (\<lambda>n.
     kbind (if n \<ge> HZ then
              kbind (kmod (\<lambda>s. s\<lparr>lbolt_counter := 0\<rparr>)) (\<lambda>_. in_ts (thread_wakeup mem lbolt))
            else kmod (\<lambda>s. s\<lparr>lbolt_counter := n\<rparr>)) (\<lambda>_.
     kbind (in_ts (thread_yield mem idle)) (\<lambda>_. kret ())))"

definition clock_loop :: "(nat \<Rightarrow> bool) \<Rightarrow> nat list list \<Rightarrow> nat \<Rightarrow> int \<Rightarrow> int \<Rightarrow> (ssys, unit) kern" where
  "clock_loop mem idle lbolt num_secs spl =
     (if num_secs > 0 then
        kbind (push_pc (InClock (num_secs - 1) spl)) (\<lambda>_.
        kbind (in_ts (thread_sleep mem idle () lbolt)) (\<lambda>_. kret ()))
      else kbind (in_ts (splx spl)) (\<lambda>_. kret ()))"

definition clocksleep :: "(nat \<Rightarrow> bool) \<Rightarrow> nat list list \<Rightarrow> nat \<Rightarrow> int \<Rightarrow> (ssys, unit) kern" where
  "clocksleep mem idle lbolt num_secs =
     kbind (in_ts splhigh) (\<lambda>s. clock_loop mem idle lbolt num_secs s)"

text \<open>
  A timer interrupt enters \<^verbatim>\<open>mips_trap\<close>, which raises the interrupt level and calls
  \<^verbatim>\<open>mips_interrupt\<close>; both restore what they saved when the interrupted thread comes back.
\<close>

definition timer_interrupt :: "(nat \<Rightarrow> bool) \<Rightarrow> nat list list \<Rightarrow> nat \<Rightarrow> (ssys, unit) kern" where
  "timer_interrupt mem idle lbolt =
     kbind (in_ts splhigh) (\<lambda>savespl.
     kbind (kget (\<lambda>s. in_interrupt (ts s))) (\<lambda>old_in.
     kbind (in_ts (kmod (\<lambda>t. t\<lparr>in_interrupt := 1\<rparr>))) (\<lambda>_.
     kbind (in_ts spl_on) (\<lambda>_.
     kbind (push_pc (InTrap savespl old_in)) (\<lambda>_. hardclock mem idle lbolt)))))"

definition trap_return :: "int \<Rightarrow> int \<Rightarrow> (ssys, unit) kern" where
  "trap_return savespl old_in =
     in_ts (kmod (\<lambda>t. t\<lparr>in_interrupt := old_in, curspl := savespl\<rparr>))"

subsection \<open>Interleaving\<close>

fun run_cont :: "(nat \<Rightarrow> bool) \<Rightarrow> nat list list \<Rightarrow> nat \<Rightarrow> scont \<Rightarrow> (ssys, unit) kern" where
  "run_cont mem idle lbolt (InP sem spl) = P_loop mem idle sem spl"
| "run_cont mem idle lbolt (InAcquire lock level) = acquire_loop mem idle lock level"
| "run_cont mem idle lbolt (InWait cv lock) = cv_wait_sleep mem idle cv lock"
| "run_cont mem idle lbolt (Waited cv lock level) = cv_waited lock level"
| "run_cont mem idle lbolt (Relock lock) = lock_acquire_s mem idle lock"
| "run_cont mem idle lbolt (InClock n spl) = clock_loop mem idle lbolt n spl"
| "run_cont mem idle lbolt (InTrap savespl old_in) = trap_return savespl old_in"

definition run_pc :: "(nat \<Rightarrow> bool) \<Rightarrow> nat list list \<Rightarrow> nat \<Rightarrow> (ssys, unit) kern" where
  "run_pc mem idle lbolt s =
     (case curthread (ts s) of
        None \<Rightarrow> Inl BadPtr
      | Some c \<Rightarrow>
          (case pc s c of
             [] \<Rightarrow> Inr ((), s)
           | k # ks \<Rightarrow> run_cont mem idle lbolt k (s\<lparr>pc := (pc s)(c := ks)\<rparr>)))"

datatype sync_call =
    Call_P nat | Call_V nat | Call_acquire nat | Call_release nat | Call_wait nat nat
  | Call_signal nat nat | Call_broadcast nat nat | Call_yield | Call_clocksleep int

fun sync_run :: "(nat \<Rightarrow> bool) \<Rightarrow> nat list list \<Rightarrow> nat \<Rightarrow> sync_call \<Rightarrow> (ssys, unit) kern" where
  "sync_run mem idle lbolt (Call_P sem) = sem_P mem idle sem"
| "sync_run mem idle lbolt (Call_V sem) = sem_V mem sem"
| "sync_run mem idle lbolt (Call_acquire lock) = lock_acquire_s mem idle lock"
| "sync_run mem idle lbolt (Call_release lock) = lock_release_s mem lock"
| "sync_run mem idle lbolt (Call_wait cv lock) = cv_wait mem cv lock"
| "sync_run mem idle lbolt (Call_signal cv lock) = cv_signal mem cv lock"
| "sync_run mem idle lbolt (Call_broadcast cv lock) = cv_broadcast mem cv lock"
| "sync_run mem idle lbolt Call_yield = kbind (in_ts (thread_yield mem idle)) (\<lambda>_. kret ())"
| "sync_run mem idle lbolt (Call_clocksleep n) = clocksleep mem idle lbolt n"

definition cur_pc :: "ssys \<Rightarrow> scont list" where
  "cur_pc s = (case curthread (ts s) of None \<Rightarrow> [] | Some c \<Rightarrow> pc s c)"

text \<open>The calls a correct client makes: on objects that exist, releasing only locks it holds.\<close>

fun call_legal :: "sync_call \<Rightarrow> ssys \<Rightarrow> bool" where
  "call_legal (Call_P sem) s = (sem \<noteq> 0 \<and> sems s sem \<noteq> None)"
| "call_legal (Call_V sem) s = (sem \<noteq> 0 \<and> (case sems s sem of None \<Rightarrow> False | Some n \<Rightarrow> n < INT_MAX))"
| "call_legal (Call_acquire lock) s = (lock \<noteq> 0 \<and> locks s lock \<noteq> None)"
| "call_legal (Call_release lock) s = (lock \<noteq> 0 \<and> locks s lock = Some (curthread (ts s)))"
| "call_legal (Call_wait cv lock) s = (cv \<noteq> 0 \<and> cvs s cv \<noteq> None \<and> lock \<noteq> 0 \<and> locks s lock = Some (curthread (ts s)))"
| "call_legal (Call_signal cv lock) s = (cv \<noteq> 0 \<and> cvs s cv \<noteq> None \<and> lock \<noteq> 0 \<and> locks s lock = Some (curthread (ts s)))"
| "call_legal (Call_broadcast cv lock) s = (cv \<noteq> 0 \<and> cvs s cv \<noteq> None \<and> lock \<noteq> 0 \<and> locks s lock = Some (curthread (ts s)))"
| "call_legal Call_yield s = True"
| "call_legal (Call_clocksleep n) s = True"

text \<open>The steps of the system, for a machine that grants memory.\<close>

inductive sstep :: "nat \<Rightarrow> ssys \<Rightarrow> ssys \<Rightarrow> bool" for lbolt :: nat where
  call: "cur_pc s = [] \<Longrightarrow> call_legal c s \<Longrightarrow> sync_run (\<lambda>_. True) idle lbolt c s = Inr ((), s') \<Longrightarrow> sstep lbolt s s'"
| cont: "cur_pc s \<noteq> [] \<Longrightarrow> run_pc (\<lambda>_. True) idle lbolt s = Inr ((), s') \<Longrightarrow> sstep lbolt s s'"
| tick: "curspl (ts s) = 0 \<Longrightarrow> timer_interrupt (\<lambda>_. True) idle lbolt s = Inr ((), s') \<Longrightarrow> sstep lbolt s s'"

section \<open>Threads and their continuations\<close>

fun high :: "scont \<Rightarrow> bool" where
  "high (InP sem spl) = True"
| "high (InAcquire lock level) = True"
| "high (Waited cv lock level) = True"
| "high (InClock n spl) = True"
| "high _ = False"

fun low_pc :: "scont list \<Rightarrow> bool" where
  "low_pc [] = True"
| "low_pc [InWait cv lock] = True"
| "low_pc [Relock lock] = True"
| "low_pc _ = False"

definition high_pc :: "scont list \<Rightarrow> bool" where
  "high_pc ks \<longleftrightarrow> (\<exists>k. ks = [k] \<and> high k)"

definition trap_pc :: "scont list \<Rightarrow> bool" where
  "trap_pc ks \<longleftrightarrow> (\<exists>rest. ks = InTrap 0 0 # rest \<and> low_pc rest)"

text \<open>The interrupt level and flag that go with the continuation of the running thread.\<close>

definition runs :: "unit tsys \<Rightarrow> scont list \<Rightarrow> bool" where
  "runs t ks \<longleftrightarrow>
     low_pc ks \<and> in_interrupt t = 0 \<and> 0 \<le> curspl t \<or> high_pc ks \<and> in_interrupt t = 0 \<and> 0 < curspl t \<or>
     trap_pc ks \<and> in_interrupt t = 1 \<and> 0 < curspl t"

definition waits :: "unit tsys \<Rightarrow> nat \<Rightarrow> scont list \<Rightarrow> bool" where
  "waits t p ks \<longleftrightarrow>
     (case frame_of t p of
        Some (SleepF u) \<Rightarrow> high_pc ks \<and> pirq t p = 0
      | Some (YieldF spl) \<Rightarrow> trap_pc ks \<and> pirq t p = 1 \<and> 0 < spl \<or> ks = [] \<and> pirq t p = 0 \<and> 0 \<le> spl
      | Some (StartF a b f) \<Rightarrow> ks = [] \<and> pirq t p = 0
      | _ \<Rightarrow> False)"

definition others_wait :: "unit tsys \<Rightarrow> (nat \<Rightarrow> scont list) \<Rightarrow> bool" where
  "others_wait t pcs \<longleftrightarrow> (\<forall>p \<in> set (rl t) \<union> set (sl t). waits t p (pcs p))"

definition thr_inv :: "unit tsys \<Rightarrow> (nat \<Rightarrow> scont list) \<Rightarrow> bool" where
  "thr_inv t pcs \<longleftrightarrow> tinv t \<and> (\<forall>c. curthread t = Some c \<longrightarrow> runs t (pcs c)) \<and> others_wait t pcs"

lemma waits_cong: "threads t' p = threads t p \<Longrightarrow> waits t' p ks = waits t p ks"
proof -
  assume "threads t' p = threads t p"
  then have "frame_of t' p = frame_of t p" "pirq t' p = pirq t p" by (simp_all add: frame_of_def pirq_def)
  then show ?thesis unfolding waits_def by (simp only:)
qed

lemma idle_until_nonempty: "idle_until sa idle rs = Some (r, l) \<Longrightarrow> r \<noteq> []"
  by (induction idle arbitrary: rs) (auto split: if_splits)

lemma tinv_cur:
  assumes "tinv t"
  obtains c th where "curthread t = Some c" "threads t c = Some th" "tcore t c"
  using assms by (auto simp: tinv_def tcore_def known_def)

text \<open>The thread that a switch resumes runs in the state its continuation expects.\<close>

lemma resumed_runs:
  assumes "waits t n (pcs n)" and "frame_of t n = Some f" and "in_interrupt t' = pirq t n" and "curspl t' = resumed_spl f l" and "0 < l"
  shows "runs t' (pcs n)"
  using assms by (cases f) (auto simp: waits_def runs_def)

lemma sleep_kok:
  assumes inv: "tinv t" and cur: "curthread t = Some c" and spl: "curspl t > 0" and irq: "in_interrupt t = 0"
    and hi: "high_pc (pcs c)" and ow: "others_wait t pcs" and mem: "\<forall>b. mem b"
  shows "kok (thread_sleep mem idle () addr) t (\<lambda>_ t'. thr_inv t' pcs \<and>
     (\<forall>p \<in> set (sl t'). if p = c then sleeps_on t' p = Some addr else p \<in> set (sl t) \<and> sleeps_on t' p = sleeps_on t p))"
proof (cases "idle_until ((sleeps_on t)(c := Some addr)) idle (rl t, sl t @ [c])")
  case None
  obtain th where th: "threads t c = Some th" and core: "tcore t c" using inv cur by (auto elim: tinv_cur)
  let ?t = "t\<lparr>threads := (threads t)(c \<mapsto> th\<lparr>t_sleepaddr := Some addr\<rparr>)\<rparr>"
  have core': "tcore ?t c" by (rule tcore_upd_cur [OF core th]) simp_all
  have sa: "sleeps_on ?t = (sleeps_on t)(c := Some addr)" by (auto simp: sleeps_on_def fun_eq_iff)
  have "mi_switch mem idle (SleepF ()) S_SLEEP ?t = Inl OutOfFuel"
    using mi_switch_idles [OF core' _ mem, of S_SLEEP idle "SleepF ()"] spl None unfolding sa by simp
  then have "thread_sleep mem idle () addr t = Inl OutOfFuel" using irq cur th by (simp add: thread_sleep_def)
  then show ?thesis by (rule kok_fuel)
next
  case (Some rs)
  obtain r' l where rs: "rs = (r', l)" by (cases rs)
  have "r' \<noteq> []" using Some rs idle_until_nonempty by blast
  then obtain n r where nr: "r' = n # r" by (cases r') auto
  have idle: "idle_until ((sleeps_on t)(c := Some addr)) idle (rl t, sl t @ [c]) = Some (n # r, l)" using Some rs nr by simp
  note fact = idle_until_facts [OF idle]
  obtain f t' where t': "thread_sleep mem idle () addr t = Inr (resumed_as f, t')" "tinv t'" "curthread t' = Some n" "rl t' = r" "sl t' = l"
     "curspl t' = resumed_spl f (curspl t)" "in_interrupt t' = (if c = n then 0 else pirq t n)"
     "c = n \<longrightarrow> f = SleepF ()" "c \<noteq> n \<longrightarrow> frame_of t n = Some f" "\<forall>p \<in> set (r @ l). p \<noteq> c \<longrightarrow> threads t' p = threads t p"
     "c \<noteq> n \<longrightarrow> frame_of t' c = Some (SleepF ()) \<and> sleeps_on t' c = Some addr \<and> pirq t' c = 0"
    using sleep_ok [OF inv mem cur spl irq idle] by blast
  have nin: "c \<noteq> n \<Longrightarrow> n \<in> set (rl t) \<union> set (sl t)" using fact(1) by auto
  have run: "runs t' (pcs n)"
  proof (cases "c = n")
    case True
    then show ?thesis using t'(6-8) spl hi by (auto simp: runs_def)
  next
    case False
    then show ?thesis using resumed_runs [of t n pcs f t' "curspl t"] nin ow t'(6,7,9) spl by (auto simp: others_wait_def)
  qed
  have cn: "c \<in> set (r @ l) \<Longrightarrow> c \<noteq> n" using t'(2-5) by (auto simp: tinv_def tcore_def)
  have "waits t' p (pcs p)" if p: "p \<in> set r \<union> set l" for p
  proof (cases "p = c")
    case True
    then show ?thesis using t'(11) cn p hi by (auto simp: waits_def)
  next
    case False
    then have "p \<in> set (rl t) \<union> set (sl t)" using p fact(1) by auto
    then show ?thesis using waits_cong [of t' p t "pcs p"] t'(10) False p ow by (auto simp: others_wait_def)
  qed
  then have "thr_inv t' pcs" using t'(2-5) run by (simp add: thr_inv_def others_wait_def)
  moreover have "if p = c then sleeps_on t' p = Some addr else p \<in> set (sl t) \<and> sleeps_on t' p = sleeps_on t p" if p: "p \<in> set l" for p
  proof (cases "p = c")
    case True
    then show ?thesis using t'(11) cn p by auto
  next
    case False
    then have "threads t' p = threads t p" using t'(10) p by auto
    then show ?thesis using False p fact(2) by (auto simp: sleeps_on_def)
  qed
  ultimately show ?thesis using t'(1,5) by (simp add: kok_def)
qed

lemma yield_kok:
  assumes inv: "tinv t" and cur: "curthread t = Some c" and ow: "others_wait t pcs" and mem: "\<forall>b. mem b"
    and pcs: "trap_pc (pcs c) \<and> in_interrupt t = 1 \<and> 0 < curspl t \<or> pcs c = [] \<and> in_interrupt t = 0 \<and> 0 \<le> curspl t"
  shows "kok (thread_yield mem idle) t (\<lambda>_ t'. thr_inv t' pcs \<and>
     (\<forall>p \<in> set (sl t'). p \<in> set (sl t) \<and> sleeps_on t' p = sleeps_on t p))"
proof -
  obtain n r where nr: "rl t @ [c] = n # r" by (cases "rl t @ [c]") auto
  obtain f t' where t': "thread_yield mem idle t = Inr (resumed_as f, t')" "tinv t'" "curthread t' = Some n" "rl t' = r" "sl t' = sl t"
     "curspl t' = resumed_spl f SPL_HIGH" "in_interrupt t' = (if c = n then in_interrupt t else pirq t n)"
     "c = n \<longrightarrow> f = YieldF (curspl t)" "c \<noteq> n \<longrightarrow> frame_of t n = Some f"
     "\<forall>p \<in> set (r @ sl t). p \<noteq> c \<longrightarrow> threads t' p = threads t p"
     "c \<noteq> n \<longrightarrow> frame_of t' c = Some (YieldF (curspl t)) \<and> pirq t' c = in_interrupt t"
    using yield_view [OF inv mem cur nr, of idle] by blast
  have sets: "set r \<subseteq> insert c (set (rl t))" "c \<noteq> n \<Longrightarrow> n \<in> set (rl t)"
    using nr by (cases "rl t"; auto)+
  have csl: "c \<notin> set (sl t)" and cn: "c \<in> set r \<Longrightarrow> c \<noteq> n" using inv cur t'(2-4) by (auto simp: tinv_def tcore_def)
  have run: "runs t' (pcs n)"
  proof (cases "c = n")
    case True
    then show ?thesis using t'(6-8) pcs by (auto simp: runs_def)
  next
    case False
    then show ?thesis using resumed_runs [of t n pcs f t' SPL_HIGH] sets(2) ow t'(6,7,9) by (auto simp: others_wait_def)
  qed
  have "waits t' p (pcs p)" if p: "p \<in> set r \<union> set (sl t)" for p
  proof (cases "p = c")
    case True
    then have "c \<noteq> n" using p cn csl by auto
    then show ?thesis using t'(11) True pcs by (auto simp: waits_def)
  next
    case False
    then have "p \<in> set (rl t) \<union> set (sl t)" using p sets(1) by auto
    then show ?thesis using waits_cong [of t' p t "pcs p"] t'(10) False p ow by (auto simp: others_wait_def)
  qed
  then have "thr_inv t' pcs" using t'(2-5) run by (simp add: thr_inv_def others_wait_def)
  moreover have "sleeps_on t' p = sleeps_on t p" if "p \<in> set (sl t)" for p
    using t'(10) that csl by (auto simp: sleeps_on_def)
  ultimately show ?thesis using t'(1,5) by (simp add: kok_def)
qed

text \<open>Waking up changes the lists only.\<close>

lemma relisted_thr:
  assumes inv: "tinv t" and ow: "others_wait t pcs" and re: "relisted t (r, l) t'"
    and ms: "mset r + mset l = mset (rl t) + mset (sl t)" and sub: "set l \<subseteq> set (sl t)"
  shows "tinv t'" and "others_wait t' pcs" and "curthread t' = curthread t" and "curspl t' = curspl t"
    and "in_interrupt t' = in_interrupt t" and "sleeps_on t' = sleeps_on t" and "sl t' = l"
proof -
  show "tinv t'" by (rule relisted_tinv [OF inv re ms sub])
  note d = relistedD [OF re]
  show "curthread t' = curthread t" "curspl t' = curspl t" "in_interrupt t' = in_interrupt t" "sleeps_on t' = sleeps_on t" "sl t' = l"
    using d by simp_all
  have "set r \<union> set l = set (rl t) \<union> set (sl t)" using mset_eq_setD [of "r @ l" "rl t @ sl t"] ms by simp
  then show "others_wait t' pcs" using ow d(7,13,14) waits_cong [of t' _ t] by (simp add: others_wait_def)
qed

definition woken :: "nat \<Rightarrow> unit tsys \<Rightarrow> unit tsys \<Rightarrow> (nat \<Rightarrow> scont list) \<Rightarrow> bool" where
  "woken addr t t' pcs \<longleftrightarrow> tinv t' \<and> others_wait t' pcs \<and> curthread t' = curthread t \<and> curspl t' = curspl t \<and>
     in_interrupt t' = in_interrupt t \<and> sleeps_on t' = sleeps_on t \<and> set (sl t') \<subseteq> set (sl t)"

lemma wakeup_kok:
  assumes inv: "tinv t" and ow: "others_wait t pcs" and spl: "curspl t > 0" and mem: "\<forall>b. mem b"
  shows "kok (thread_wakeup mem addr) t (\<lambda>_ t'. woken addr t t' pcs \<and> (\<forall>p \<in> set (sl t'). sleeps_on t p \<noteq> Some addr))"
proof -
  have "tlists t" "known t (sl t)" using inv by (auto simp: tinv_def tcore_def known_def)
  then obtain t' where t': "thread_wakeup mem addr t = Inr ((), t')" "relisted t (wakes (sleeps_on t) addr (rl t, sl t)) t'"
    using thread_wakeup_relists [OF _ _ spl mem] by blast
  have "relisted t (fst (wakes (sleeps_on t) addr (rl t, sl t)), snd (wakes (sleeps_on t) addr (rl t, sl t))) t'" using t'(2) by simp
  from relisted_thr [OF inv ow this] show ?thesis
    using t'(1) wakes_mset [of "sleeps_on t" addr "(rl t, sl t)"] by (auto simp: kok_def woken_def)
qed

lemma wakeup_n_kok:
  assumes inv: "tinv t" and ow: "others_wait t pcs" and spl: "curspl t > 0" and mem: "\<forall>b. mem b"
  shows "kok (thread_wakeup_n mem addr n) t (\<lambda>_ t'. woken addr t t' pcs)"
proof -
  have "tlists t" "known t (sl t)" using inv by (auto simp: tinv_def tcore_def known_def)
  then obtain t' ws l where t': "thread_wakeup_n mem addr n t = Inr ((), t')" "relisted t (rl t @ ws, l) t'" "mset ws + mset l = mset (sl t)"
    using thread_wakeup_n_relists [OF _ _ spl mem] by blast
  have "set l \<subseteq> set (sl t)" using t'(3) by (metis mset_subset_eqD mset_subset_eq_add_right set_mset_mset subsetI)
  with relisted_thr [OF inv ow t'(2)] t'(1,3) show ?thesis by (auto simp: kok_def woken_def)
qed

section \<open>The invariant of the synchronisation objects\<close>

definition nobody :: "unit tsys \<Rightarrow> nat \<Rightarrow> bool" where
  "nobody t a \<longleftrightarrow> (\<forall>p \<in> set (sl t). sleeps_on t p \<noteq> Some a)"

fun refs :: "ssys \<Rightarrow> scont \<Rightarrow> bool" where
  "refs s (InP sem spl) = (sems s sem \<noteq> None \<and> 0 \<le> spl)"
| "refs s (InAcquire lock level) = (locks s lock \<noteq> None \<and> 0 \<le> level)"
| "refs s (InWait cv lock) = (cvs s cv \<noteq> None \<and> lock \<noteq> 0 \<and> locks s lock \<noteq> None)"
| "refs s (Waited cv lock level) = (lock \<noteq> 0 \<and> locks s lock \<noteq> None \<and> 0 \<le> level)"
| "refs s (Relock lock) = (lock \<noteq> 0 \<and> locks s lock \<noteq> None)"
| "refs s (InClock n spl) = (0 \<le> spl)"
| "refs s (InTrap savespl old_in) = True"

text \<open>
  Addresses of different objects differ.  A semaphore is never negative.  Nobody sleeps on a
  semaphore that is positive or on a lock that is free.
\<close>

definition objs_but :: "nat set \<Rightarrow> nat \<Rightarrow> ssys \<Rightarrow> bool" where
  "objs_but X lbolt s \<longleftrightarrow>
     (\<forall>a n. sems s a = Some n \<longrightarrow> 0 \<le> n \<and> locks s a = None \<and> cvs s a = None \<and> a \<noteq> lbolt \<and> (0 < n \<and> a \<notin> X \<longrightarrow> nobody (ts s) a)) \<and>
     (\<forall>a. locks s a \<noteq> None \<longrightarrow> cvs s a = None \<and> a \<noteq> lbolt) \<and>
     (\<forall>a. locks s a = Some None \<and> a \<notin> X \<longrightarrow> nobody (ts s) a) \<and>
     (\<forall>p. \<forall>k \<in> set (pc s p). refs s k)"

abbreviation objs :: "nat \<Rightarrow> ssys \<Rightarrow> bool" where
  "objs \<equiv> objs_but {}"

definition sinv :: "nat \<Rightarrow> ssys \<Rightarrow> bool" where
  "sinv lbolt s \<longleftrightarrow> thr_inv (ts s) (pc s) \<and> objs lbolt s"

text \<open>Locks change hands only through their owner.\<close>

definition own_step :: "ssys \<Rightarrow> ssys \<Rightarrow> bool" where
  "own_step s s' \<longleftrightarrow>
     (\<forall>l p. locks s l = Some (Some p) \<longrightarrow>
        locks s' l = Some (Some p) \<or> curthread (ts s) = Some p \<and> locks s' l = Some None)"

lemma kok_in_ts [kok_simps]: "kok (in_ts m) s Q = kok m (ts s) (\<lambda>x t. Q x (s\<lparr>ts := t\<rparr>))"
  by (simp add: in_ts_def kok_simps)

lemma kok_splx [kok_simps]: "kok (splx n) t Q = Q (curspl t) (t\<lparr>curspl := n\<rparr>)"
  by (simp add: kok_def splx_def)

lemma kok_splhigh [kok_simps]: "kok splhigh t Q = Q (curspl t) (t\<lparr>curspl := SPL_HIGH\<rparr>)"
  by (simp add: splhigh_def kok_simps)

lemma kok_push_pc [kok_simps]:
  "kok (push_pc k) s Q = (case curthread (ts s) of None \<Rightarrow> False | Some c \<Rightarrow> Q () (s\<lparr>pc := (pc s)(c := k # pc s c)\<rparr>))"
  by (simp add: kok_def push_pc_def split: option.split)

lemma kok_hold [kok_simps]:
  "kok (lock_do_i_hold_s l) s Q = (case locks s l of None \<Rightarrow> False | Some w \<Rightarrow> Q (curthread (ts s) = w) s)"
  by (simp add: kok_def lock_do_i_hold_s_def split: option.split)

lemma tinv_upd [simp]:
  "tinv (t\<lparr>curspl := i\<rparr>) = tinv t" "tinv (t\<lparr>in_interrupt := i\<rparr>) = tinv t"
proof -
  have "tcore (t\<lparr>in_interrupt := i\<rparr>) c = tcore t c" for c by (rule tcore_cong) simp_all
  moreover have "rl (t\<lparr>in_interrupt := i\<rparr>) = rl t" "sl (t\<lparr>in_interrupt := i\<rparr>) = sl t" by (simp_all add: rl_def sl_def)
  ultimately show "tinv (t\<lparr>curspl := i\<rparr>) = tinv t" "tinv (t\<lparr>in_interrupt := i\<rparr>) = tinv t" by (simp_all add: tinv_def)
qed

lemma view_upd [simp]:
  "sleeps_on (t\<lparr>curspl := i\<rparr>) = sleeps_on t" "sleeps_on (t\<lparr>in_interrupt := i\<rparr>) = sleeps_on t"
  "rl (t\<lparr>in_interrupt := i\<rparr>) = rl t" "sl (t\<lparr>in_interrupt := i\<rparr>) = sl t"
  "nobody (t\<lparr>curspl := i\<rparr>) a = nobody t a" "nobody (t\<lparr>in_interrupt := i\<rparr>) a = nobody t a"
  by (simp_all add: sleeps_on_def fun_eq_iff rl_def sl_def nobody_def)

lemma others_wait_upd [simp]:
  "others_wait (t\<lparr>curspl := i\<rparr>) pcs = others_wait t pcs" "others_wait (t\<lparr>in_interrupt := i\<rparr>) pcs = others_wait t pcs"
  using waits_cong [of "t\<lparr>curspl := i\<rparr>" _ t] waits_cong [of "t\<lparr>in_interrupt := i\<rparr>" _ t] by (simp_all add: others_wait_def)

text \<open>The continuation of the running thread does not concern the others.\<close>

lemma others_wait_cur:
  assumes "tinv t" and "curthread t = Some c"
  shows "others_wait t (pcs(c := ks)) = others_wait t pcs"
proof -
  have "c \<notin> set (rl t) \<union> set (sl t)" using assms by (auto simp: tinv_def tcore_def)
  then show ?thesis by (auto simp: others_wait_def)
qed

section \<open>The primitives keep the invariant\<close>

lemma refs_ts [simp]: "refs (s\<lparr>ts := t\<rparr>) k = refs s k"
  by (cases k) simp_all

lemma refs_pc [simp]: "refs (s\<lparr>pc := p\<rparr>) k = refs s k"
  by (cases k) simp_all

lemma refs_counter [simp]: "refs (s\<lparr>lbolt_counter := n\<rparr>) k = refs s k"
  by (cases k) simp_all

lemma refs_sems [simp]: "\<forall>a. f a = None \<longleftrightarrow> sems s a = None \<Longrightarrow> refs (s\<lparr>sems := f\<rparr>) k = refs s k"
  by (cases k) auto

lemma refs_locks [simp]: "\<forall>a. f a = None \<longleftrightarrow> locks s a = None \<Longrightarrow> refs (s\<lparr>locks := f\<rparr>) k = refs s k"
  by (cases k) auto

lemma nobody_mono:
  "nobody t a \<Longrightarrow> (\<And>p. p \<in> set (sl t') \<Longrightarrow> p \<in> set (sl t) \<and> sleeps_on t' p = sleeps_on t p) \<Longrightarrow> nobody t' a"
  by (auto simp: nobody_def)

lemma objs_upd_spl [simp]: "objs_but X lb (s\<lparr>ts := (ts s)\<lparr>curspl := i\<rparr>\<rparr>) = objs_but X lb s"
  by (simp add: objs_but_def)

text \<open>The running thread \<open>c\<close> inside a primitive: interrupts are off and it has no continuation.\<close>

definition busy :: "nat \<Rightarrow> ssys \<Rightarrow> bool" where
  "busy c s \<longleftrightarrow> tinv (ts s) \<and> curthread (ts s) = Some c \<and> others_wait (ts s) (pc s) \<and> pc s c = [] \<and>
     in_interrupt (ts s) = 0 \<and> curspl (ts s) > 0"

lemma block_kok:
  assumes b: "busy c s" and o: "objs lb s" and k: "high k" "refs s k" and mem: "\<forall>b. mem b"
    and addr: "\<And>n. sems s addr = Some n \<Longrightarrow> n \<le> 0" "locks s addr \<noteq> Some None"
  shows "kok (kbind (push_pc k) (\<lambda>_. kbind (in_ts (thread_sleep mem idle () addr)) (\<lambda>_. kret ()))) s
     (\<lambda>_ s'. sinv lb s' \<and> locks s' = locks s)"
proof -
  let ?pcs = "(pc s)(c := [k])"
  have b': "tinv (ts s)" "curthread (ts s) = Some c" "others_wait (ts s) (pc s)" "pc s c = []" "in_interrupt (ts s) = 0" "curspl (ts s) > 0"
    using b by (auto simp: busy_def)
  have ow: "others_wait (ts s) ?pcs" using b'(3) others_wait_cur [OF b'(1,2)] by simp
  have hi: "high_pc (?pcs c)" using k(1) by (auto simp: high_pc_def)
  have post: "sinv lb (s\<lparr>pc := ?pcs, ts := t'\<rparr>)"
    if t': "thr_inv t' ?pcs" and sl': "\<forall>p \<in> set (sl t'). if p = c then sleeps_on t' p = Some addr else p \<in> set (sl (ts s)) \<and> sleeps_on t' p = sleeps_on (ts s) p" for t'
  proof -
    have nb: "nobody t' a" if "nobody (ts s) a" "a \<noteq> addr" for a
      unfolding nobody_def
    proof
      fix p
      assume "p \<in> set (sl t')"
      with sl' that show "sleeps_on t' p \<noteq> Some a" by (cases "p = c") (auto simp: nobody_def)
    qed
    have "objs lb (s\<lparr>pc := ?pcs, ts := t'\<rparr>)"
      unfolding objs_but_def
    proof (intro conjI allI impI ballI; simp)
      fix a n
      assume a: "sems s a = Some n"
      show "0 \<le> n" "locks s a = None" "cvs s a = None" "a \<noteq> lb" using o a by (auto simp: objs_but_def)
      assume n: "0 < n"
      have "a \<noteq> addr" using addr(1) a n by fastforce
      then show "nobody t' a" using nb o a n by (auto simp: objs_but_def)
    next
      fix a
      assume "\<exists>y. locks s a = Some y"
      then show "cvs s a = None" "a \<noteq> lb" using o by (auto simp: objs_but_def)
    next
      fix a
      assume a: "locks s a = Some None"
      then have "a \<noteq> addr" using addr(2) by auto
      then show "nobody t' a" using nb o a by (auto simp: objs_but_def)
    next
      fix p j
      assume "j \<in> set (if p = c then [k] else pc s p)"
      then show "refs s j" using o k(2) by (auto simp: objs_but_def split: if_splits)
    qed
    then show ?thesis using t' by (simp add: sinv_def)
  qed
  have "kok (thread_sleep mem idle () addr) (ts s) (\<lambda>_ t'. sinv lb (s\<lparr>pc := ?pcs, ts := t'\<rparr>))"
    by (rule kok_mono [OF sleep_kok [OF b'(1,2,6,5) hi ow mem]]) (use post in blast)
  then show ?thesis using b' by (simp add: kok_simps)
qed

lemma finish_kok:
  assumes "busy c s" and "objs lb s" and "0 \<le> l"
  shows "kok (kbind (in_ts (splx l)) (\<lambda>_. kret ())) s (\<lambda>_ s'. sinv lb s' \<and> locks s' = locks s)"
  using assms by (simp add: kok_simps sinv_def busy_def thr_inv_def runs_def)

text \<open>Waking the sleepers on \<open>a\<close>, for a state in which \<open>a\<close> may just have become available.\<close>

lemma wake_kok:
  assumes b: "busy c s" and o: "objs_but X lb s" and X: "X \<subseteq> {a}" and mem: "\<forall>b. mem b"
    and Q: "\<And>s'. busy c s' \<Longrightarrow> objs lb s' \<Longrightarrow> locks s' = locks s \<Longrightarrow> cvs s' = cvs s \<Longrightarrow> Q () s'"
  shows "kok (in_ts (thread_wakeup mem a)) s Q"
proof -
  have b': "tinv (ts s)" "others_wait (ts s) (pc s)" "curspl (ts s) > 0" using b by (auto simp: busy_def)
  have "Q () (s\<lparr>ts := t'\<rparr>)"
    if w: "woken a (ts s) t' (pc s)" and n: "\<forall>p \<in> set (sl t'). sleeps_on (ts s) p \<noteq> Some a" for t'
  proof (rule Q)
    show "busy c (s\<lparr>ts := t'\<rparr>)" using b w by (simp add: busy_def woken_def)
    have m: "nobody t' x" if "nobody (ts s) x" for x
      by (rule nobody_mono [OF that]) (use w in \<open>auto simp: woken_def\<close>)
    have "nobody t' a" using n w by (simp add: nobody_def woken_def)
    then show "objs lb (s\<lparr>ts := t'\<rparr>)" using o m X unfolding objs_but_def by auto
  qed simp_all
  then show ?thesis using kok_mono [OF wakeup_kok [OF b'(1,2,3) mem, of a]] by (simp add: kok_simps)
qed

lemma sinv_enter:
  assumes "sinv lb s" and "cur_pc s = []"
  obtains c where "curthread (ts s) = Some c" "busy c (s\<lparr>ts := (ts s)\<lparr>curspl := SPL_HIGH\<rparr>\<rparr>)" "objs lb s" "0 \<le> curspl (ts s)"
    "in_interrupt (ts s) = 0"
proof -
  obtain c where c: "curthread (ts s) = Some c" using assms(1) by (auto simp: sinv_def thr_inv_def elim: tinv_cur)
  have p: "pc s c = []" using assms(2) c by (simp add: cur_pc_def)
  then have "runs (ts s) []" using assms(1) c by (auto simp: sinv_def thr_inv_def)
  then have r: "0 \<le> curspl (ts s)" "in_interrupt (ts s) = 0" by (auto simp: runs_def high_pc_def trap_pc_def)
  show thesis
    by (rule that [OF c]) (use assms(1) c p r in \<open>auto simp: busy_def sinv_def thr_inv_def\<close>)
qed

lemma own_same: "locks s' = locks s \<Longrightarrow> own_step s s'"
  by (simp add: own_step_def)

lemma P_loop_kok:
  assumes b: "busy c s" and o: "objs lb s" and s: "sems s sem \<noteq> None" and l: "0 \<le> spl" and mem: "\<forall>b. mem b"
  shows "kok (P_loop mem idle sem spl) s (\<lambda>_ s'. sinv lb s' \<and> locks s' = locks s)"
proof -
  obtain n where n: "sems s sem = Some n" using s by auto
  have n0: "0 \<le> n" "locks s sem = None" using o n by (auto simp: objs_but_def)
  show ?thesis
  proof (cases "n = 0")
    case True
    have "kok (kbind (push_pc (InP sem spl)) (\<lambda>_. kbind (in_ts (thread_sleep mem idle () sem)) (\<lambda>_. kret ()))) s
      (\<lambda>_ s'. sinv lb s' \<and> locks s' = locks s)"
      by (rule block_kok [OF b o _ _ mem]) (use n n0 l True in auto)
    then show ?thesis using True n by (simp add: P_loop_def kok_get kok_bind [of "kget _"])
  next
    case False
    let ?s = "s\<lparr>sems := (sems s)(sem \<mapsto> n - 1)\<rparr>"
    have "n > 0" using n0 False by simp
    then have "objs lb ?s" using o n unfolding objs_but_def by auto
    moreover have "busy c ?s" using b by (simp add: busy_def)
    ultimately have "kok (kbind (in_ts (splx spl)) (\<lambda>_. kret ())) ?s (\<lambda>_ s'. sinv lb s' \<and> locks s' = locks ?s)"
      using finish_kok l by blast
    then show ?thesis using False n n0 by (simp add: P_loop_def kok_simps)
  qed
qed

lemma acquire_loop_kok:
  assumes b: "busy c s" and o: "objs lb s" and s: "locks s lock \<noteq> None" and l: "0 \<le> level" and mem: "\<forall>b. mem b"
  shows "kok (acquire_loop mem idle lock level) s (\<lambda>_ s'. sinv lb s' \<and> own_step s s')"
proof -
  obtain w where w: "locks s lock = Some w" using s by auto
  have w0: "sems s lock = None" using o w by (cases "sems s lock") (auto simp: objs_but_def)
  show ?thesis
  proof (cases w)
    case (Some p)
    have "kok (kbind (push_pc (InAcquire lock level)) (\<lambda>_. kbind (in_ts (thread_sleep mem idle () lock)) (\<lambda>_. kret ()))) s
      (\<lambda>_ s'. sinv lb s' \<and> locks s' = locks s)"
      by (rule block_kok [OF b o _ _ mem]) (use w w0 l Some in auto)
    then have "kok (acquire_loop mem idle lock level) s (\<lambda>_ s'. sinv lb s' \<and> locks s' = locks s)"
      using Some w by (simp add: acquire_loop_def kok_get kok_bind [of "kget _"])
    then show ?thesis by (rule kok_mono) (simp add: own_same)
  next
    case None
    have cur: "curthread (ts s) = Some c" using b by (simp add: busy_def)
    let ?s = "s\<lparr>locks := (locks s)(lock \<mapsto> Some c)\<rparr>"
    have "objs lb ?s" using o w w0 unfolding objs_but_def by auto
    moreover have "busy c ?s" using b by (simp add: busy_def)
    ultimately have "kok (kbind (in_ts (splx level)) (\<lambda>_. kret ())) ?s (\<lambda>_ s'. sinv lb s' \<and> locks s' = locks ?s)"
      using finish_kok l by blast
    then have "kok (acquire_loop mem idle lock level) s (\<lambda>_ s'. sinv lb s' \<and> locks s' = locks ?s)"
      using None w cur by (simp add: acquire_loop_def kok_simps)
    then show ?thesis by (rule kok_mono) (use None w in \<open>auto simp: own_step_def\<close>)
  qed
qed

text \<open>The common end of the primitives that wake threads up.\<close>

lemma wake_finish_kok:
  assumes b: "busy c s" and o: "objs_but X lb s" and X: "X \<subseteq> {a}" and l: "0 \<le> level" and mem: "\<forall>b. mem b"
  shows "kok (in_ts (thread_wakeup mem a)) s (\<lambda>_ s'. kok (in_ts (splx level)) s' (\<lambda>_ s''. sinv lb s'' \<and> locks s'' = locks s))"
proof (rule wake_kok [OF b o X mem])
  fix s'
  assume "busy c s'" "objs lb s'" "locks s' = locks s"
  with finish_kok [OF this(1,2) l] show "kok (in_ts (splx level)) s' (\<lambda>_ s''. sinv lb s'' \<and> locks s'' = locks s)"
    by (simp add: kok_simps)
qed

lemma sem_P_kok:
  assumes "sinv lb s" and "cur_pc s = []" and "sem \<noteq> 0" and "sems s sem \<noteq> None" and "\<forall>b. mem b"
  shows "kok (sem_P mem idle sem) s (\<lambda>_ s'. sinv lb s' \<and> own_step s s')"
proof -
  obtain c where c: "busy c (s\<lparr>ts := (ts s)\<lparr>curspl := SPL_HIGH\<rparr>\<rparr>)" "objs lb s" "0 \<le> curspl (ts s)" "in_interrupt (ts s) = 0"
    using sinv_enter [OF assms(1,2)] by blast
  have "kok (P_loop mem idle sem (curspl (ts s))) (s\<lparr>ts := (ts s)\<lparr>curspl := SPL_HIGH\<rparr>\<rparr>)
      (\<lambda>_ s'. sinv lb s' \<and> locks s' = locks (s\<lparr>ts := (ts s)\<lparr>curspl := SPL_HIGH\<rparr>\<rparr>))"
    by (rule P_loop_kok [OF c(1) _ _ c(3) assms(5)]) (use c(2) assms(4) in simp_all)
  then have "kok (P_loop mem idle sem (curspl (ts s))) (s\<lparr>ts := (ts s)\<lparr>curspl := SPL_HIGH\<rparr>\<rparr>) (\<lambda>_ s'. sinv lb s' \<and> own_step s s')"
    by (rule kok_mono) (simp add: own_same)
  then show ?thesis using assms(3) c(4) by (simp add: sem_P_def kok_simps)
qed

lemma sem_V_kok:
  assumes "sinv lb s" and "cur_pc s = []" and "sem \<noteq> 0" and n: "sems s sem = Some n" "n < INT_MAX" and mem: "\<forall>b. mem b"
  shows "kok (sem_V mem sem) s (\<lambda>_ s'. sinv lb s' \<and> own_step s s')"
proof -
  obtain c where c: "busy c (s\<lparr>ts := (ts s)\<lparr>curspl := SPL_HIGH\<rparr>\<rparr>)" "objs lb s" "0 \<le> curspl (ts s)" "in_interrupt (ts s) = 0"
    using sinv_enter [OF assms(1,2)] by blast
  let ?s = "s\<lparr>ts := (ts s)\<lparr>curspl := SPL_HIGH\<rparr>, sems := (sems s)(sem \<mapsto> n + 1)\<rparr>"
  have n0: "0 \<le> n" using c(2) n by (auto simp: objs_but_def)
  have "objs_but {sem} lb ?s" using c(2) n unfolding objs_but_def by auto
  moreover have "busy c ?s" using c(1) by (simp add: busy_def)
  ultimately have "kok (in_ts (thread_wakeup mem sem)) ?s
      (\<lambda>_ s'. kok (in_ts (splx (curspl (ts s)))) s' (\<lambda>_ s''. sinv lb s'' \<and> locks s'' = locks ?s))"
    using wake_finish_kok [OF _ _ _ c(3) mem] by blast
  then have "kok (in_ts (thread_wakeup mem sem)) ?s
      (\<lambda>_ s'. kok (in_ts (splx (curspl (ts s)))) s' (\<lambda>_ s''. sinv lb s'' \<and> own_step s s''))"
    by (rule kok_mono) (erule kok_mono, simp add: own_same)
  then show ?thesis using assms(3) n n0 by (simp add: sem_V_def kok_simps)
qed

lemma lock_acquire_kok:
  assumes "sinv lb s" and "cur_pc s = []" and "lock \<noteq> 0" and "locks s lock \<noteq> None" and "\<forall>b. mem b"
  shows "kok (lock_acquire_s mem idle lock) s (\<lambda>_ s'. sinv lb s' \<and> own_step s s')"
proof -
  obtain c where c: "busy c (s\<lparr>ts := (ts s)\<lparr>curspl := SPL_HIGH\<rparr>\<rparr>)" "objs lb s" "0 \<le> curspl (ts s)"
    using sinv_enter [OF assms(1,2)] by blast
  have "kok (acquire_loop mem idle lock (curspl (ts s))) (s\<lparr>ts := (ts s)\<lparr>curspl := SPL_HIGH\<rparr>\<rparr>)
      (\<lambda>_ s'. sinv lb s' \<and> own_step (s\<lparr>ts := (ts s)\<lparr>curspl := SPL_HIGH\<rparr>\<rparr>) s')"
    by (rule acquire_loop_kok [OF c(1) _ _ c(3) assms(5)]) (use c(2) assms(4) in simp_all)
  then show ?thesis using assms(3) by (simp add: lock_acquire_s_def kok_simps own_step_def)
qed

text \<open>\<^verbatim>\<open>lock_release\<close>, also as a part of \<^verbatim>\<open>cv_wait\<close>.\<close>

lemma lock_release_kok:
  assumes "sinv lb s" and "cur_pc s = []" and "lock \<noteq> 0" and own: "locks s lock = Some (curthread (ts s))" and mem: "\<forall>b. mem b"
    and Q: "\<And>s'. busy c s' \<Longrightarrow> curthread (ts s) = Some c \<Longrightarrow> objs lb s' \<Longrightarrow> locks s' = (locks s)(lock \<mapsto> None) \<Longrightarrow> 0 \<le> curspl (ts s) \<Longrightarrow>
      cvs s' = cvs s \<Longrightarrow> Q () (s'\<lparr>ts := (ts s')\<lparr>curspl := curspl (ts s)\<rparr>\<rparr>)"
    and c: "curthread (ts s) = Some c"
  shows "kok (lock_release_s mem lock) s Q"
proof -
  have c': "busy c (s\<lparr>ts := (ts s)\<lparr>curspl := SPL_HIGH\<rparr>\<rparr>)" "objs lb s" "0 \<le> curspl (ts s)"
    using sinv_enter [OF assms(1,2)] c by (metis option.inject)+
  let ?s = "s\<lparr>ts := (ts s)\<lparr>curspl := SPL_HIGH\<rparr>, locks := (locks s)(lock \<mapsto> None)\<rparr>"
  have nosem: "sems s lock = None" using c'(2) own by (cases "sems s lock") (auto simp: objs_but_def)
  have o: "objs_but {lock} lb ?s" using c'(2) own nosem unfolding objs_but_def by auto
  have b: "busy c ?s" using c'(1) by (simp add: busy_def)
  have "kok (in_ts (thread_wakeup mem lock)) ?s (\<lambda>_ s'. Q () (s'\<lparr>ts := (ts s')\<lparr>curspl := curspl (ts s)\<rparr>\<rparr>))"
    by (rule wake_kok [OF b o _ mem]) (use Q c c'(3) in simp_all)
  then show ?thesis using assms(3) own by (simp add: lock_release_s_def kok_simps)
qed

lemma release_own: "curthread (ts s) = Some c \<Longrightarrow> locks s lock = Some (Some c) \<Longrightarrow> locks s' = (locks s)(lock \<mapsto> None) \<Longrightarrow> own_step s s'"
  by (auto simp: own_step_def)

lemma busy_low:
  assumes "busy c s" and "objs lb s" and "0 \<le> l" and "low_pc ks" and "\<forall>k \<in> set ks. refs s k"
  shows "sinv lb (s\<lparr>ts := (ts s)\<lparr>curspl := l\<rparr>, pc := (pc s)(c := ks)\<rparr>)"
proof -
  have b: "tinv (ts s)" "curthread (ts s) = Some c" "others_wait (ts s) (pc s)" using assms(1) by (auto simp: busy_def)
  have "thr_inv ((ts s)\<lparr>curspl := l\<rparr>) ((pc s)(c := ks))"
    using assms others_wait_cur [OF b(1,2)] by (simp add: thr_inv_def runs_def busy_def)
  moreover have "objs lb (s\<lparr>ts := (ts s)\<lparr>curspl := l\<rparr>, pc := (pc s)(c := ks)\<rparr>)"
    using assms(2,5) unfolding objs_but_def by auto
  ultimately show ?thesis by (simp add: sinv_def)
qed

lemma release_kok:
  assumes "sinv lb s" and "cur_pc s = []" and "lock \<noteq> 0" and own: "locks s lock = Some (curthread (ts s))" and mem: "\<forall>b. mem b"
  shows "kok (lock_release_s mem lock) s (\<lambda>_ s'. sinv lb s' \<and> own_step s s')"
proof -
  obtain c where c: "curthread (ts s) = Some c" using sinv_enter [OF assms(1,2)] by blast
  show ?thesis
  proof (rule lock_release_kok [OF assms _ c], rule conjI)
    fix s'
    assume s': "busy c s'" "objs lb s'" "locks s' = (locks s)(lock \<mapsto> None)" "0 \<le> curspl (ts s)"
    have "pc s' c = []" using s'(1) by (simp add: busy_def)
    then have "(pc s')(c := []) = pc s'" by auto
    then show "sinv lb (s'\<lparr>ts := (ts s')\<lparr>curspl := curspl (ts s)\<rparr>\<rparr>)" using busy_low [OF s'(1,2,4), of "[]"] by simp
    show "own_step s (s'\<lparr>ts := (ts s')\<lparr>curspl := curspl (ts s)\<rparr>\<rparr>)" using release_own [OF c] own c s'(3) by simp
  qed
qed

lemma cv_wait_kok:
  assumes "sinv lb s" and "cur_pc s = []" and "lock \<noteq> 0" and own: "locks s lock = Some (curthread (ts s))" and mem: "\<forall>b. mem b"
    and cv: "cv \<noteq> 0" "cvs s cv \<noteq> None"
  shows "kok (cv_wait mem cv lock) s (\<lambda>_ s'. sinv lb s' \<and> own_step s s')"
proof -
  obtain c where c: "curthread (ts s) = Some c" "in_interrupt (ts s) = 0" using sinv_enter [OF assms(1,2)] by blast
  have "kok (lock_release_s mem lock) s (\<lambda>_ s'. kok (push_pc (InWait cv lock)) s' (\<lambda>_ s''. sinv lb s'' \<and> own_step s s''))"
  proof (rule lock_release_kok [OF assms(1-5) _ c(1)])
    fix s'
    assume s': "busy c s'" "objs lb s'" "locks s' = (locks s)(lock \<mapsto> None)" "0 \<le> curspl (ts s)" "cvs s' = cvs s"
    have p: "pc s' c = []" "curthread (ts s') = Some c" using s'(1) by (simp_all add: busy_def)
    have "sinv lb (s'\<lparr>ts := (ts s')\<lparr>curspl := curspl (ts s)\<rparr>, pc := (pc s')(c := [InWait cv lock])\<rparr>)"
      by (rule busy_low [OF s'(1,2,4)]) (use s'(3,5) cv(2) assms(3) in simp_all)
    moreover have "own_step s (s'\<lparr>ts := (ts s')\<lparr>curspl := curspl (ts s)\<rparr>, pc := (pc s')(c := [InWait cv lock])\<rparr>)"
      using release_own [OF c(1)] own c s'(3) by simp
    ultimately show "kok (push_pc (InWait cv lock)) (s'\<lparr>ts := (ts s')\<lparr>curspl := curspl (ts s)\<rparr>\<rparr>) (\<lambda>_ s''. sinv lb s'' \<and> own_step s s'')"
      using p by (simp add: kok_simps)
  qed
  then show ?thesis using own assms(3) cv(1) c(2) by (simp add: cv_wait_def cv_checks_def kok_simps)
qed

text \<open>Operations that only take threads off the list of sleepers, or leave it alone.\<close>

lemma objs_fewer:
  assumes "objs lb s" and "\<And>p. p \<in> set (sl t') \<Longrightarrow> p \<in> set (sl (ts s)) \<and> sleeps_on t' p = sleeps_on (ts s) p"
    and "\<And>p k. k \<in> set (pcs p) \<Longrightarrow> refs s k"
  shows "objs lb (s\<lparr>ts := t', pc := pcs\<rparr>)" and "objs lb (s\<lparr>pc := pcs, lbolt_counter := n, ts := t'\<rparr>)"
proof -
  have m: "nobody t' x" if "nobody (ts s) x" for x by (rule nobody_mono [OF that assms(2)])
  show "objs lb (s\<lparr>ts := t', pc := pcs\<rparr>)" "objs lb (s\<lparr>pc := pcs, lbolt_counter := n, ts := t'\<rparr>)"
    using assms(1,3) m unfolding objs_but_def by auto
qed

lemma cv_signal_kok:
  assumes "sinv lb s" and "cur_pc s = []" and "lock \<noteq> 0" and own: "locks s lock = Some (curthread (ts s))" and mem: "\<forall>b. mem b"
    and cv: "cv \<noteq> 0"
  shows "kok (cv_signal mem cv lock) s (\<lambda>_ s'. sinv lb s' \<and> own_step s s')"
proof -
  obtain c where c: "busy c (s\<lparr>ts := (ts s)\<lparr>curspl := SPL_HIGH\<rparr>\<rparr>)" "objs lb s" "0 \<le> curspl (ts s)"
    using sinv_enter [OF assms(1,2)] by blast
  let ?t = "(ts s)\<lparr>curspl := SPL_HIGH\<rparr>"
  have b': "tinv ?t" "others_wait ?t (pc s)" "curspl ?t > 0" using c(1) by (auto simp: busy_def)
  have "kok (thread_wakeup_n mem cv 1) ?t (\<lambda>_ t'. sinv lb (s\<lparr>ts := t'\<lparr>curspl := curspl (ts s)\<rparr>\<rparr>) \<and> own_step s (s\<lparr>ts := t'\<lparr>curspl := curspl (ts s)\<rparr>\<rparr>))"
  proof (rule kok_mono [OF wakeup_n_kok [OF b' mem]])
    fix t'
    assume w: "woken cv ?t t' (pc s)"
    let ?s = "s\<lparr>ts := t'\<rparr>"
    have b2: "busy c ?s" using c(1) w by (simp add: busy_def woken_def)
    have "objs lb (s\<lparr>ts := t', pc := pc s\<rparr>)" by (rule objs_fewer(1) [OF c(2)]) (use w c(2) in \<open>auto simp: woken_def objs_but_def\<close>)
    then have o2: "objs lb ?s" by simp
    have "pc ?s c = []" using b2 by (simp add: busy_def)
    then have "(pc ?s)(c := []) = pc ?s" by auto
    then show "sinv lb (s\<lparr>ts := t'\<lparr>curspl := curspl (ts s)\<rparr>\<rparr>) \<and> own_step s (s\<lparr>ts := t'\<lparr>curspl := curspl (ts s)\<rparr>\<rparr>)"
      using busy_low [OF b2 o2 c(3), of "[]"] by (simp add: own_same)
  qed
  then show ?thesis using own assms(3) cv by (simp add: cv_signal_def cv_checks_def kok_simps)
qed

lemma cv_broadcast_kok:
  assumes "sinv lb s" and "cur_pc s = []" and "lock \<noteq> 0" and own: "locks s lock = Some (curthread (ts s))" and mem: "\<forall>b. mem b"
    and cv: "cv \<noteq> 0"
  shows "kok (cv_broadcast mem cv lock) s (\<lambda>_ s'. sinv lb s' \<and> own_step s s')"
proof -
  obtain c where c: "busy c (s\<lparr>ts := (ts s)\<lparr>curspl := SPL_HIGH\<rparr>\<rparr>)" "objs lb s" "0 \<le> curspl (ts s)"
    using sinv_enter [OF assms(1,2)] by blast
  let ?s = "s\<lparr>ts := (ts s)\<lparr>curspl := SPL_HIGH\<rparr>\<rparr>"
  have "objs lb ?s" using c(2) by simp
  from wake_finish_kok [OF c(1) this _ c(3) mem, of cv]
  have "kok (in_ts (thread_wakeup mem cv)) ?s (\<lambda>_ s'. kok (in_ts (splx (curspl (ts s)))) s' (\<lambda>_ s''. sinv lb s'' \<and> locks s'' = locks ?s))"
    by simp
  then have "kok (in_ts (thread_wakeup mem cv)) ?s (\<lambda>_ s'. kok (in_ts (splx (curspl (ts s)))) s' (\<lambda>_ s''. sinv lb s'' \<and> own_step s s''))"
    by (rule kok_mono) (erule kok_mono, simp add: own_same)
  then show ?thesis using own assms(3) cv by (simp add: cv_broadcast_def cv_checks_def kok_simps)
qed

lemma clock_loop_kok:
  assumes b: "busy c s" and o: "objs lb s" and l: "0 \<le> spl" and mem: "\<forall>b. mem b"
  shows "kok (clock_loop mem idle lb n spl) s (\<lambda>_ s'. sinv lb s' \<and> locks s' = locks s)"
proof (cases "n > 0")
  case True
  have "sems s lb = None" "locks s lb = None" using o by (auto simp: objs_but_def intro: ccontr)
  then have "kok (kbind (push_pc (InClock (n - 1) spl)) (\<lambda>_. kbind (in_ts (thread_sleep mem idle () lb)) (\<lambda>_. kret ()))) s
      (\<lambda>_ s'. sinv lb s' \<and> locks s' = locks s)"
    by (intro block_kok [OF b o _ _ mem]) (use l in auto)
  then show ?thesis using True by (simp add: clock_loop_def)
next
  case False
  then show ?thesis using finish_kok [OF b o l] by (simp add: clock_loop_def)
qed

lemma clocksleep_kok:
  assumes "sinv lb s" and "cur_pc s = []" and mem: "\<forall>b. mem b"
  shows "kok (clocksleep mem idle lb n) s (\<lambda>_ s'. sinv lb s' \<and> own_step s s')"
proof -
  obtain c where c: "busy c (s\<lparr>ts := (ts s)\<lparr>curspl := SPL_HIGH\<rparr>\<rparr>)" "objs lb s" "0 \<le> curspl (ts s)"
    using sinv_enter [OF assms(1,2)] by blast
  let ?s = "s\<lparr>ts := (ts s)\<lparr>curspl := SPL_HIGH\<rparr>\<rparr>"
  have "objs lb ?s" using c(2) by simp
  from clock_loop_kok [OF c(1) this c(3) mem, of idle n]
  have "kok (clock_loop mem idle lb n (curspl (ts s))) ?s (\<lambda>_ s'. sinv lb s' \<and> own_step s s')"
    by (rule kok_mono) (simp add: own_same)
  then show ?thesis by (simp add: clocksleep_def kok_simps)
qed

lemma yield_step_kok:
  assumes s: "sinv lb s" and p: "cur_pc s = []" and mem: "\<forall>b. mem b"
  shows "kok (kbind (in_ts (thread_yield mem idle)) (\<lambda>_. kret ())) s (\<lambda>_ s'. sinv lb s' \<and> own_step s s')"
proof -
  obtain c where c: "curthread (ts s) = Some c" "objs lb s" "0 \<le> curspl (ts s)" "in_interrupt (ts s) = 0"
    using sinv_enter [OF s p] by blast
  have t: "tinv (ts s)" "others_wait (ts s) (pc s)" using s by (auto simp: sinv_def thr_inv_def)
  have pc: "trap_pc (pc s c) \<and> in_interrupt (ts s) = 1 \<and> 0 < curspl (ts s) \<or> pc s c = [] \<and> in_interrupt (ts s) = 0 \<and> 0 \<le> curspl (ts s)"
    using p c by (simp add: cur_pc_def)
  have "kok (thread_yield mem idle) (ts s) (\<lambda>_ t'. sinv lb (s\<lparr>ts := t'\<rparr>) \<and> own_step s (s\<lparr>ts := t'\<rparr>))"
  proof (rule kok_mono [OF yield_kok [OF t(1) c(1) t(2) mem pc]], elim conjE)
    fix t'
    assume t': "thr_inv t' (pc s)" "\<forall>p \<in> set (sl t'). p \<in> set (sl (ts s)) \<and> sleeps_on t' p = sleeps_on (ts s) p"
    have "objs lb (s\<lparr>ts := t', pc := pc s\<rparr>)" by (rule objs_fewer(1) [OF c(2)]) (use t'(2) c(2) in \<open>auto simp: objs_but_def\<close>)
    then show "sinv lb (s\<lparr>ts := t'\<rparr>) \<and> own_step s (s\<lparr>ts := t'\<rparr>)" using t'(1) by (simp add: sinv_def own_same)
  qed
  then show ?thesis by (simp add: kok_simps)
qed

lemma sync_run_kok:
  assumes "sinv lb s" and "cur_pc s = []" and "call_legal c s" and "\<forall>b. mem b"
  shows "kok (sync_run mem idle lb c) s (\<lambda>_ s'. sinv lb s' \<and> own_step s s')"
  using assms(3) sem_P_kok [OF assms(1,2) _ _ assms(4)] sem_V_kok [OF assms(1,2) _ _ _ assms(4)]
    lock_acquire_kok [OF assms(1,2) _ _ assms(4)] release_kok [OF assms(1,2) _ _ assms(4)] cv_wait_kok [OF assms(1,2) _ _ assms(4)]
    cv_signal_kok [OF assms(1,2) _ _ assms(4)] cv_broadcast_kok [OF assms(1,2) _ _ assms(4)] yield_step_kok [OF assms(1,2,4)]
    clocksleep_kok [OF assms(1,2,4)]
  by (cases c) (simp_all split: option.splits)

text \<open>Going on from a continuation.\<close>

lemma sinv_popped:
  assumes s: "sinv lb s" and c: "curthread (ts s) = Some c"
  shows "objs lb (s\<lparr>pc := (pc s)(c := [])\<rparr>)"
    and "low_pc (pc s c) \<Longrightarrow> sinv lb (s\<lparr>pc := (pc s)(c := [])\<rparr>)"
    and "high_pc (pc s c) \<Longrightarrow> busy c (s\<lparr>pc := (pc s)(c := [])\<rparr>)"
proof -
  let ?s = "s\<lparr>pc := (pc s)(c := [])\<rparr>"
  have t: "tinv (ts s)" "runs (ts s) (pc s c)" "others_wait (ts s) (pc s)" using s c by (auto simp: sinv_def thr_inv_def)
  have ow: "others_wait (ts s) ((pc s)(c := []))" using t(3) others_wait_cur [OF t(1) c] by simp
  show o: "objs lb ?s" using s unfolding sinv_def objs_but_def by auto
  show "sinv lb ?s" if "low_pc (pc s c)"
  proof -
    have "0 \<le> curspl (ts s) \<and> in_interrupt (ts s) = 0" using t(2) that by (auto simp: runs_def high_pc_def trap_pc_def)
    then show ?thesis using o t(1) ow c by (auto simp: sinv_def thr_inv_def runs_def)
  qed
  show "busy c ?s" if hp: "high_pc (pc s c)"
  proof -
    obtain k where k: "pc s c = [k]" "high k" using hp by (auto simp: high_pc_def)
    then have "\<not> low_pc (pc s c)" "\<not> trap_pc (pc s c)" by (cases k; auto simp: trap_pc_def)+
    then show ?thesis using t ow c by (auto simp: busy_def runs_def)
  qed
qed

lemma run_pc_kok:
  assumes s: "sinv lb s" and p: "cur_pc s \<noteq> []" and mem: "\<forall>b. mem b"
  shows "kok (run_pc mem idle lb) s (\<lambda>_ s'. sinv lb s' \<and> own_step s s')"
proof -
  obtain c where c: "curthread (ts s) = Some c" using s by (auto simp: sinv_def thr_inv_def elim: tinv_cur)
  obtain k ks where k: "pc s c = k # ks" using p c by (cases "pc s c") (auto simp: cur_pc_def)
  let ?s = "s\<lparr>pc := (pc s)(c := ks)\<rparr>" and ?e = "s\<lparr>pc := (pc s)(c := [])\<rparr>"
  have run: "kok (run_pc mem idle lb) s Q = kok (run_cont mem idle lb k) ?s Q" for Q
    using c k by (simp add: run_pc_def kok_def)
  have t: "tinv (ts s)" "runs (ts s) (k # ks)" "others_wait (ts s) (pc s)" using s c k by (auto simp: sinv_def thr_inv_def)
  have rf: "refs s k" using s k unfolding sinv_def objs_but_def by (metis list.set_intros(1))
  note pop = sinv_popped [OF s c, unfolded k]
  have own: "own_step ?e s' = own_step s s'" "locks ?e = locks s" for s' by (simp_all add: own_step_def)
  consider (low) "low_pc (k # ks)" | (high) "high_pc (k # ks)" | (trap) "trap_pc (k # ks)" using t(2) by (auto simp: runs_def)
  then have "kok (run_cont mem idle lb k) ?s (\<lambda>_ s'. sinv lb s' \<and> own_step s s')"
  proof cases
    case low
    then have ks: "ks = []" by (cases "k # ks" rule: low_pc.cases) auto
    have e: "sinv lb ?e" "cur_pc ?e = []" using pop(2) low c by (simp_all add: cur_pc_def)
    from low ks consider cv lock where "k = InWait cv lock" | lock where "k = Relock lock" by (cases k) auto
    then show ?thesis
    proof cases
      case 1
      obtain d where d: "busy d (?e\<lparr>ts := (ts ?e)\<lparr>curspl := SPL_HIGH\<rparr>\<rparr>)" "objs lb ?e" "0 \<le> curspl (ts ?e)"
        using sinv_enter [OF e] by blast
      have cv: "cvs s cv \<noteq> None" "lock \<noteq> 0" "locks s lock \<noteq> None" using rf 1 by simp_all
      have nl: "sems s cv = None" "locks s cv = None"
        using pop(1) cv(1) by (auto simp: objs_but_def intro: ccontr)
      let ?e1 = "?e\<lparr>ts := (ts ?e)\<lparr>curspl := SPL_HIGH\<rparr>\<rparr>"
      have o1: "objs lb ?e1" using d(2) unfolding objs_upd_spl .
      have "kok (kbind (push_pc (Waited cv lock (curspl (ts s)))) (\<lambda>_. kbind (in_ts (thread_sleep mem idle () cv)) (\<lambda>_. kret ()))) ?e1
          (\<lambda>_ s'. sinv lb s' \<and> locks s' = locks ?e1)"
        by (rule block_kok [OF d(1) o1 _ _ mem]) (use cv nl d(3) in simp_all)
      then have "kok (kbind (push_pc (Waited cv lock (curspl (ts s)))) (\<lambda>_. kbind (in_ts (thread_sleep mem idle () cv)) (\<lambda>_. kret ()))) ?e1
          (\<lambda>_ s'. sinv lb s' \<and> own_step s s')"
        by (rule kok_mono) (simp add: own_same)
      then show ?thesis using 1 ks by (simp add: cv_wait_sleep_def kok_bind [of "in_ts splhigh"] kok_in_ts kok_splhigh)
    next
      case 2
      have "lock \<noteq> 0" "locks ?e lock \<noteq> None" using rf 2 by simp_all
      from lock_acquire_kok [OF e this mem, of idle] show ?thesis using 2 ks own by simp
    qed
  next
    case high
    then have ks: "ks = []" by (auto simp: high_pc_def)
    have b: "busy c ?e" using pop(3) high by simp
    note o = pop(1)
    from high ks consider sem spl where "k = InP sem spl" | lock l where "k = InAcquire lock l" | cv lock l where "k = Waited cv lock l"
      | n spl where "k = InClock n spl" by (cases k) (auto simp: high_pc_def)
    then show ?thesis
    proof cases
      case 1
      have "kok (P_loop mem idle sem spl) ?e (\<lambda>_ s'. sinv lb s' \<and> locks s' = locks ?e)"
        by (rule P_loop_kok [OF b o _ _ mem]) (use rf 1 in simp_all)
      then have "kok (P_loop mem idle sem spl) ?e (\<lambda>_ s'. sinv lb s' \<and> own_step s s')" by (rule kok_mono) (simp add: own_same)
      then show ?thesis using 1 ks by simp
    next
      case 2
      have "kok (acquire_loop mem idle lock l) ?e (\<lambda>_ s'. sinv lb s' \<and> own_step ?e s')"
        by (rule acquire_loop_kok [OF b o _ _ mem]) (use rf 2 in simp_all)
      then show ?thesis using 2 ks own by simp
    next
      case 3
      have "sinv lb (?e\<lparr>ts := (ts ?e)\<lparr>curspl := l\<rparr>, pc := (pc ?e)(c := [Relock lock])\<rparr>)"
        by (rule busy_low [OF b o]) (use rf 3 in simp_all)
      then show ?thesis using 3 ks c by (simp add: cv_waited_def kok_simps own_same)
    next
      case 4
      have "kok (clock_loop mem idle lb n spl) ?e (\<lambda>_ s'. sinv lb s' \<and> locks s' = locks ?e)"
        by (rule clock_loop_kok [OF b o _ mem]) (use rf 4 in simp_all)
      then have "kok (clock_loop mem idle lb n spl) ?e (\<lambda>_ s'. sinv lb s' \<and> own_step s s')" by (rule kok_mono) (simp add: own_same)
      then show ?thesis using 4 ks by simp
    qed
  next
    case trap
    then have k': "k = InTrap 0 0" "low_pc ks" by (auto simp: trap_pc_def)
    have "others_wait (ts s) ((pc s)(c := ks))" using t(3) others_wait_cur [OF t(1) c] by simp
    then have "thr_inv ((ts s)\<lparr>in_interrupt := 0, curspl := 0\<rparr>) ((pc s)(c := ks))"
      using t(1) c k'(2) by (simp add: thr_inv_def runs_def)
    moreover have "\<forall>j \<in> set ks. refs s j" using s k unfolding sinv_def objs_but_def by (metis list.set_intros(2))
    then have "objs lb (?s\<lparr>ts := (ts s)\<lparr>in_interrupt := 0, curspl := 0\<rparr>\<rparr>)"
      using s unfolding sinv_def objs_but_def by auto
    ultimately have "sinv lb (?s\<lparr>ts := (ts s)\<lparr>in_interrupt := 0, curspl := 0\<rparr>\<rparr>)" by (simp add: sinv_def)
    then show ?thesis using k'(1) by (simp add: trap_return_def kok_simps own_same)
  qed
  then show ?thesis unfolding run .
qed

lemma tick_kok:
  assumes s: "sinv lb s" and spl: "curspl (ts s) = 0" and mem: "\<forall>b. mem b"
  shows "kok (timer_interrupt mem idle lb) s (\<lambda>_ s'. sinv lb s' \<and> own_step s s')"
proof -
  obtain c where c: "curthread (ts s) = Some c" using s by (auto simp: sinv_def thr_inv_def elim: tinv_cur)
  have t: "tinv (ts s)" "runs (ts s) (pc s c)" "others_wait (ts s) (pc s)" and o: "objs lb s" using s c by (auto simp: sinv_def thr_inv_def)
  have low: "low_pc (pc s c)" "in_interrupt (ts s) = 0" using t(2) spl by (auto simp: runs_def)
  let ?t = "(ts s)\<lparr>curspl := SPL_HIGH, in_interrupt := 1\<rparr>" and ?pcs = "(pc s)(c := InTrap 0 0 # pc s c)"
  have t1: "tinv ?t" "others_wait ?t ?pcs" "curspl ?t > 0" "curthread ?t = Some c"
    using t others_wait_cur [OF t(1) c] c by simp_all
  have trap: "trap_pc (?pcs c)" using low(1) by (auto simp: trap_pc_def)
  have rf: "k \<in> set (?pcs p) \<Longrightarrow> refs s k" for p k using o by (auto simp: objs_but_def split: if_splits)
  have yield: "kok (thread_yield mem idle) t1 (\<lambda>_ t'. sinv lb (s\<lparr>pc := ?pcs, lbolt_counter := n, ts := t'\<rparr>))"
    if t1: "tinv t1" "others_wait t1 ?pcs" "curspl t1 > 0" "in_interrupt t1 = 1" "curthread t1 = Some c"
      "set (sl t1) \<subseteq> set (sl (ts s))" "sleeps_on t1 = sleeps_on (ts s)" for t1 n
  proof (rule kok_mono [OF yield_kok [OF t1(1,5,2) mem]], use trap t1 in simp, elim conjE)
    fix t'
    assume t': "thr_inv t' ?pcs" "\<forall>p \<in> set (sl t'). p \<in> set (sl t1) \<and> sleeps_on t' p = sleeps_on t1 p"
    have "objs lb (s\<lparr>pc := ?pcs, lbolt_counter := n, ts := t'\<rparr>)"
      by (rule objs_fewer(2) [OF o _ rf]) (use t'(2) t1(6,7) in auto)
    then show "sinv lb (s\<lparr>pc := ?pcs, lbolt_counter := n, ts := t'\<rparr>)" using t'(1) by (simp add: sinv_def)
  qed
  have hc: "kok (hardclock mem idle lb) (s\<lparr>ts := ?t, pc := ?pcs\<rparr>) (\<lambda>_ s'. sinv lb s' \<and> own_step s s')"
  proof (cases "lbolt_counter s + 1 \<ge> HZ")
    case True
    have "kok (thread_wakeup mem lb) ?t (\<lambda>_ t1. kok (thread_yield mem idle) t1 (\<lambda>_ t'. sinv lb (s\<lparr>pc := ?pcs, lbolt_counter := 0, ts := t'\<rparr>)))"
      by (rule kok_mono [OF wakeup_kok [OF t1(1-3) mem]]) (rule yield, use c in \<open>auto simp: woken_def\<close>)
    then have "kok (thread_wakeup mem lb) ?t (\<lambda>_ t1. kok (thread_yield mem idle) t1
        (\<lambda>_ t'. sinv lb (s\<lparr>pc := ?pcs, lbolt_counter := 0, ts := t'\<rparr>) \<and> own_step s (s\<lparr>pc := ?pcs, lbolt_counter := 0, ts := t'\<rparr>)))"
      by (rule kok_mono) (erule kok_mono, simp add: own_same)
    then show ?thesis using True by (simp add: hardclock_def kok_simps)
  next
    case False
    have "kok (thread_yield mem idle) ?t (\<lambda>_ t'. sinv lb (s\<lparr>pc := ?pcs, lbolt_counter := lbolt_counter s + 1, ts := t'\<rparr>))"
      by (rule yield) (use t1 in simp_all)
    then have "kok (thread_yield mem idle) ?t (\<lambda>_ t'. sinv lb (s\<lparr>pc := ?pcs, lbolt_counter := lbolt_counter s + 1, ts := t'\<rparr>) \<and>
        own_step s (s\<lparr>pc := ?pcs, lbolt_counter := lbolt_counter s + 1, ts := t'\<rparr>))"
      by (rule kok_mono) (simp add: own_same)
    then show ?thesis using False by (simp add: hardclock_def kok_simps)
  qed
  then show ?thesis using c spl low(2) by (simp add: timer_interrupt_def kok_simps spl_on_def)
qed

lemma sstep_kok:
  assumes "sstep lb s s'" and "sinv lb s"
  shows "sinv lb s' \<and> own_step s s'"
  using assms
proof cases
  case (call c idle)
  then show ?thesis using sync_run_kok [OF assms(2), of c "\<lambda>_. True" idle] by (simp add: kok_Inr)
next
  case (cont idle)
  then show ?thesis using run_pc_kok [OF assms(2), of "\<lambda>_. True" idle] by (simp add: kok_Inr)
next
  case (tick idle)
  then show ?thesis using tick_kok [OF assms(2), of "\<lambda>_. True" idle] by (simp add: kok_Inr)
qed

lemma sstep_reach:
  assumes "(sstep lb)\<^sup>*\<^sup>* s s'" and "sinv lb s"
  shows "sinv lb s'"
  using assms by (induction rule: rtranclp_induct) (use sstep_kok in blast)+

section \<open>Properties\<close>

text \<open>
  Thread 1 runs and holds the lock 5; thread 2 is on the run queue; 6 is a condition variable,
  7 a semaphore, 8 the address of \<^verbatim>\<open>lbolt\<close>.
\<close>

definition sdemo :: ssys where
  "sdemo = \<lparr>ts = tdemo\<lparr>sleepers := Some \<lparr>arr_num = 0, arr_max = 4, arr_v = Some [None, None, None, None]\<rparr>, numthreads := 2,
      curspl := 0, threads := [1 \<mapsto> demo_thread None None, 2 \<mapsto> demo_thread None (Some (YieldF 0))]\<rparr>,
     sems = [7 \<mapsto> 0], locks = [5 \<mapsto> Some 1], cvs = [6 \<mapsto> ()], lbolt_counter = 0, pc = (\<lambda>_. [])\<rparr>"

lemma sdemo_inv: "sinv 8 sdemo"
proof -
  let ?t = "ts sdemo"
  have l: "rl ?t = [2]" "sl ?t = []" "zl ?t = []"
    by (simp_all add: sdemo_def tdemo_def rl_def sl_def zl_def q_list_def q_cells_def q_len_def ring_def array_list_def array_cells_def)
  have "tinv ?t"
    by (simp add: tinv_def tcore_def tlists_def l)
       (simp add: sdemo_def tdemo_def demo_thread_def array_inv_def array_shape_def array_cells_def q_inv_def q_shape_def q_cells_def
         q_len_def ring_def known_def parked_def frame_of_def magic_ok_def)
  moreover have "others_wait ?t (pc sdemo)"
    by (simp add: others_wait_def l) (simp add: sdemo_def waits_def frame_of_def pirq_def demo_thread_def)
  ultimately have "thr_inv ?t (pc sdemo)" by (simp add: thr_inv_def) (simp add: sdemo_def tdemo_def runs_def)
  moreover have "objs 8 sdemo" by (simp add: objs_but_def nobody_def l) (simp add: sdemo_def)
  ultimately show ?thesis by (simp add: sinv_def)
qed

text \<open>
  C6: In every state that any interleaving of threads, blocking calls and timer interrupts
  reaches, nobody sleeps on a lock that is free or on a semaphore that is positive (no wakeup is
  lost), no semaphore is negative, and the thread system is well formed.
\<close>

theorem sync_no_lost_wakeup:
  assumes "sinv lbolt s" and "(sstep lbolt)\<^sup>*\<^sup>* s s'"
  shows "tinv (ts s') \<and> (\<forall>a. locks s' a = Some None \<longrightarrow> nobody (ts s') a) \<and>
     (\<forall>a n. sems s' a = Some n \<longrightarrow> 0 \<le> n \<and> (0 < n \<longrightarrow> nobody (ts s') a))"
  using sstep_reach [OF assms(2,1)] by (auto simp: sinv_def thr_inv_def objs_but_def)

theorem sync_no_lost_wakeup_witness:
  "sinv 8 sdemo \<and> (\<exists>s'. (sstep 8)\<^sup>*\<^sup>* sdemo s' \<and> locks s' 5 = Some None \<and> nobody (ts s') 5)"
proof -
  have "case sync_run (\<lambda>_. True) [] 8 (Call_release 5) sdemo of
      Inl h \<Rightarrow> False | Inr (u, s') \<Rightarrow> locks s' 5 = Some None" by code_simp
  then obtain s' where s': "sync_run (\<lambda>_. True) [] 8 (Call_release 5) sdemo = Inr ((), s')" "locks s' 5 = Some None"
    by (auto split: sum.splits)
  moreover have "cur_pc sdemo = []" "call_legal (Call_release 5) sdemo" by (simp_all add: cur_pc_def sdemo_def tdemo_def)
  ultimately have run: "(sstep 8)\<^sup>*\<^sup>* sdemo s'" using sstep.call by blast
  show ?thesis using sdemo_inv sync_no_lost_wakeup [OF sdemo_inv run] run s'(2) by blast
qed

text \<open>
  C7: A legal call of a primitive, the continuation of a primitive after a wait, and a timer
  interrupt never fail an assertion, panic or follow a bad pointer; they return with the
  invariant intact, or the processor idles because no thread can run.
\<close>

theorem sync_calls_safe:
  assumes "sinv lbolt s" and "\<forall>b. mem b"
  shows "(cur_pc s = [] \<longrightarrow> call_legal c s \<longrightarrow> kok (sync_run mem idle lbolt c) s (\<lambda>_. sinv lbolt)) \<and>
     (cur_pc s \<noteq> [] \<longrightarrow> kok (run_pc mem idle lbolt) s (\<lambda>_. sinv lbolt)) \<and>
     (curspl (ts s) = 0 \<longrightarrow> kok (timer_interrupt mem idle lbolt) s (\<lambda>_. sinv lbolt))"
  using sync_run_kok [OF assms(1) _ _ assms(2), of c idle] run_pc_kok [OF assms(1) _ assms(2), of idle] tick_kok [OF assms(1) _ assms(2), of idle]
  by (auto elim!: kok_mono)

theorem sync_calls_safe_witness:
  "kok (sync_run (\<lambda>_. True) [] 8 (Call_P 7)) sdemo (\<lambda>_. sinv 8) \<and> kok (timer_interrupt (\<lambda>_. True) [] 8) sdemo (\<lambda>_. sinv 8)"
proof -
  have "cur_pc sdemo = []" "call_legal (Call_P 7) sdemo" "curspl (ts sdemo) = 0"
    by (simp_all add: cur_pc_def sdemo_def tdemo_def)
  then show ?thesis using sync_calls_safe [OF sdemo_inv, of "\<lambda>_. True" "Call_P 7" "[]"] by simp
qed

text \<open>
  C8: A lock is held exclusively: while a thread owns it, no step of any thread gives it to
  somebody else; it becomes free only through a release by its owner.
\<close>

theorem lock_exclusive:
  assumes "sinv lbolt s" and "sstep lbolt s s'" and "locks s l = Some (Some p)"
  shows "locks s' l = Some (Some p) \<or> curthread (ts s) = Some p \<and> locks s' l = Some None"
  using sstep_kok [OF assms(2,1)] assms(3) by (simp add: own_step_def)

theorem lock_exclusive_witness:
  "\<exists>s'. sstep 8 sdemo s' \<and> (locks s' 5 = Some (Some 1) \<or> locks s' 5 = Some None)"
proof -
  have "cur_pc sdemo = []" "call_legal Call_yield sdemo" by (simp_all add: cur_pc_def sdemo_def tdemo_def)
  moreover have "\<exists>s'. sync_run (\<lambda>_. True) [] 8 Call_yield sdemo = Inr ((), s')"
  proof -
    have t: "tinv (ts sdemo)" "curthread (ts sdemo) = Some 1" using sdemo_inv by (simp_all add: sinv_def thr_inv_def) (simp add: sdemo_def tdemo_def)
    obtain n r where "rl (ts sdemo) @ [1] = n # r" by (cases "rl (ts sdemo) @ [1]") auto
    from yield_ok [OF t(1) _ t(2) this, of "\<lambda>_. True" "[]"] show ?thesis by (auto simp: in_ts_def kzoom_def)
  qed
  ultimately obtain s' where "sstep 8 sdemo s'" using sstep.call by blast
  moreover have "locks sdemo 5 = Some (Some 1)" by (simp add: sdemo_def)
  ultimately show ?thesis using lock_exclusive [OF sdemo_inv] by blast
qed

definition signal_lost :: "(ssys, unit) kern" where
  "signal_lost =
     kbind (cv_wait (\<lambda>_. True) 6 5) (\<lambda>_.
     kbind (timer_interrupt (\<lambda>_. True) [] 8) (\<lambda>_.
     kbind (lock_acquire_s (\<lambda>_. True) [] 5) (\<lambda>_.
     kbind (cv_signal (\<lambda>_. True) 6 5) (\<lambda>_.
     kbind (lock_release_s (\<lambda>_. True) 5) (\<lambda>_.
     kbind (sync_run (\<lambda>_. True) [] 8 Call_yield) (\<lambda>_.
     kbind (run_pc (\<lambda>_. True) [] 8) (\<lambda>_.
     run_pc (\<lambda>_. True) [] 8)))))))"


end
