(* ===== verification/Uio.thy ===== *)
theory Uio
  imports OS161_Prelude
begin

text \<open>
  Moving bytes between the kernel and the memory a system call names: the checked copies of
  \<^verbatim>\<open>kern/lib/copyinout.c\<close> and the transfer descriptors of \<^verbatim>\<open>kern/userprog/uio.c\<close>.

  The state holds the memory that a pointer can name, byte by byte, with the addresses that can
  be read and written at present (an access to any other address faults and the VM system
  refuses it), and the \<^verbatim>\<open>pcb_badfaultfunc\<close> of the running thread: while it is set, a fault
  comes back through \<^verbatim>\<open>copyfail\<close> and \<^verbatim>\<open>longjmp\<close> as EFAULT; while it is not, the fault
  is fatal.  Copies go up in addresses and stop at the first byte that faults.

  A kernel buffer that is an object of its own (a static or local array or struct) is a list of
  bytes.  A descriptor for such an object carries it in \<open>iov_obj\<close>; a descriptor that points into
  memory has \<open>iov_obj = None\<close> and an address.
\<close>

section \<open>Model\<close>

type_synonym byte = "8 word"

abbreviation USERTOP :: nat where "USERTOP \<equiv> 2147483648"

text \<open>Conversion of an integer to \<^verbatim>\<open>off_t\<close> and to \<^verbatim>\<open>u_int32_t\<close>, and division as C has it.\<close>

definition to_off :: "int \<Rightarrow> int" where
  "to_off x = (x + 2147483648) mod 4294967296 - 2147483648"

definition to_u32 :: "int \<Rightarrow> nat" where
  "to_u32 x = nat (x mod 4294967296)"

definition c_quot :: "int \<Rightarrow> int \<Rightarrow> int" where
  "c_quot a b = sgn a * sgn b * (\<bar>a\<bar> div \<bar>b\<bar>)"

definition c_rem :: "int \<Rightarrow> int \<Rightarrow> int" where
  "c_rem a b = a - c_quot a b * b"

record usys =
  us_cur :: "nat option"
  us_vmspace :: "nat option"
  us_bytes :: "nat \<Rightarrow> byte"
  us_rd :: "nat \<Rightarrow> bool"
  us_wr :: "nat \<Rightarrow> bool"
  us_badfault :: bool

text \<open>How many of the \<open>n\<close> bytes from address \<open>a\<close> are touched before one faults.\<close>

definition reach :: "(nat \<Rightarrow> bool) \<Rightarrow> nat \<Rightarrow> nat \<Rightarrow> nat" where
  "reach acc a n = length (takeWhile acc [a..<a + n])"

definition mem_load :: "nat \<Rightarrow> nat \<Rightarrow> 'z usys_scheme \<Rightarrow> byte list" where
  "mem_load a n s = map (us_bytes s) [a..<a + reach (us_rd s) a n]"

definition mem_store :: "nat \<Rightarrow> byte list \<Rightarrow> 'z usys_scheme \<Rightarrow> 'z usys_scheme" where
  "mem_store a bs s =
     s\<lparr>us_bytes := \<lambda>x. if a \<le> x \<and> x < a + reach (us_wr s) a (length bs) then bs ! (x - a)
                       else us_bytes s x\<rparr>"

text \<open>\<open>patch p xs buf\<close>: the buffer after \<open>xs\<close> was copied into it at offset \<open>p\<close>.\<close>

definition patch :: "nat \<Rightarrow> 'a list \<Rightarrow> 'a list \<Rightarrow> 'a list" where
  "patch p xs buf = take p buf @ xs @ drop (p + length xs) buf"

subsection \<open>Checked copies\<close>

definition copycheck :: "nat \<Rightarrow> nat \<Rightarrow> errno + nat" where
  "copycheck userptr len =
     (let bot = userptr; top = (bot + len + (4294967296 - 1)) mod 4294967296 in
      if top < bot then Inl EFAULT
      else if bot \<ge> USERTOP then Inl EFAULT
      else if top \<ge> USERTOP then Inr (USERTOP - bot)
      else Inr len)"

definition copyin ::
  "nat \<Rightarrow> nat \<Rightarrow> nat \<Rightarrow> byte list \<Rightarrow> ('z usys_scheme, (errno + unit) \<times> byte list) kern" where
  "copyin usersrc p len dest s =
     (case copycheck usersrc len of
        Inl e \<Rightarrow> Inr ((Inl e, dest), s)
      | Inr stoplen \<Rightarrow>
          if stoplen \<noteq> len then Inr ((Inl EFAULT, dest), s)
          else if \<not> p + len \<le> length dest then Inl BadPtr
          else
            (let bs = mem_load usersrc len s; s' = s\<lparr>us_badfault := False\<rparr> in
             if length bs < len then Inr ((Inl EFAULT, patch p bs dest), s')
             else Inr ((Inr (), patch p bs dest), s')))"

definition copyout ::
  "byte list \<Rightarrow> nat \<Rightarrow> nat \<Rightarrow> nat \<Rightarrow> ('z usys_scheme, errno + unit) kern" where
  "copyout src p userdest len s =
     (case copycheck userdest len of
        Inl e \<Rightarrow> Inr (Inl e, s)
      | Inr stoplen \<Rightarrow>
          if stoplen \<noteq> len then Inr (Inl EFAULT, s)
          else if \<not> p + len \<le> length src then Inl BadPtr
          else
            (let s' = (mem_store userdest (take len (drop p src)) s)\<lparr>us_badfault := False\<rparr> in
             if reach (us_wr s) userdest len < len then Inr (Inl EFAULT, s')
             else Inr (Inr (), s')))"

text \<open>
  \<^verbatim>\<open>copystr\<close> from user space and to user space.  The value \<open>None\<close> is a fault, after which
  control is back at the \<^verbatim>\<open>setjmp\<close> of the caller; \<open>Some (Inr n)\<close> is success with \<open>n\<close> bytes
  copied, the terminator included.
\<close>

function copystr_in ::
  "nat \<Rightarrow> byte list \<Rightarrow> nat \<Rightarrow> nat \<Rightarrow> nat \<Rightarrow> 'z usys_scheme \<Rightarrow> ((errno + nat) option \<times> byte list) kres" where
  "copystr_in i dest src maxlen stoplen s =
     (if i < maxlen \<and> i < stoplen then
        (if \<not> us_rd s (src + i) then Inr (None, dest)
         else if \<not> i < length dest then Inl BadPtr
         else
           (let dest' = dest[i := us_bytes s (src + i)] in
            if us_bytes s (src + i) = 0 then Inr (Some (Inr (i + 1)), dest')
            else copystr_in (Suc i) dest' src maxlen stoplen s))
      else if stoplen < maxlen then Inr (Some (Inl EFAULT), dest)
      else Inr (Some (Inl ENAMETOOLONG), dest))"
  by pat_completeness auto
termination
  by (relation "measure (\<lambda>(i, dest, src, maxlen, stoplen, s). maxlen - i)") auto

function copystr_out ::
  "nat \<Rightarrow> nat \<Rightarrow> byte list \<Rightarrow> nat \<Rightarrow> nat \<Rightarrow> ('z usys_scheme, (errno + nat) option) kern" where
  "copystr_out i dest src maxlen stoplen s =
     (if i < maxlen \<and> i < stoplen then
        (if \<not> i < length src then Inl BadPtr
         else if \<not> us_wr s (dest + i) then Inr (None, s)
         else
           (let s' = s\<lparr>us_bytes := (us_bytes s)(dest + i := src ! i)\<rparr> in
            if src ! i = 0 then Inr (Some (Inr (i + 1)), s')
            else copystr_out (Suc i) dest src maxlen stoplen s'))
      else if stoplen < maxlen then Inr (Some (Inl EFAULT), s)
      else Inr (Some (Inl ENAMETOOLONG), s))"
  by pat_completeness auto
termination
  by (relation "measure (\<lambda>(i, dest, src, maxlen, stoplen, s). maxlen - i)") auto

definition copyinstr ::
  "nat \<Rightarrow> byte list \<Rightarrow> nat \<Rightarrow> ('z usys_scheme, (errno + nat) \<times> byte list) kern" where
  "copyinstr usersrc dest len s =
     (case copycheck usersrc len of
        Inl e \<Rightarrow> Inr ((Inl e, dest), s)
      | Inr stoplen \<Rightarrow>
          (case copystr_in 0 dest usersrc len stoplen s of
             Inl h \<Rightarrow> Inl h
           | Inr (None, dest') \<Rightarrow> Inr ((Inl EFAULT, dest'), s\<lparr>us_badfault := False\<rparr>)
           | Inr (Some r, dest') \<Rightarrow> Inr ((r, dest'), s\<lparr>us_badfault := False\<rparr>)))"

definition copyoutstr ::
  "byte list \<Rightarrow> nat \<Rightarrow> nat \<Rightarrow> ('z usys_scheme, errno + nat) kern" where
  "copyoutstr src userdest len s =
     (case copycheck userdest len of
        Inl e \<Rightarrow> Inr (Inl e, s)
      | Inr stoplen \<Rightarrow>
          (case copystr_out 0 userdest src len stoplen s of
             Inl h \<Rightarrow> Inl h
           | Inr (None, s') \<Rightarrow> Inr (Inl EFAULT, s'\<lparr>us_badfault := False\<rparr>)
           | Inr (Some r, s') \<Rightarrow> Inr (r, s'\<lparr>us_badfault := False\<rparr>)))"

subsection \<open>Transfer descriptors\<close>

datatype uio_rw = UIO_READ | UIO_WRITE
datatype uio_seg = UIO_USERSPACE | UIO_SYSSPACE | UIO_USERISPACE

record uio =
  iov_obj :: "byte list option"
  iov_base :: nat
  iov_len :: nat
  uio_offset :: int
  uio_resid :: nat
  uio_segflg :: uio_seg
  uio_rw :: uio_rw
  uio_space :: "nat option"

definition mk_kuio :: "byte list option \<Rightarrow> nat \<Rightarrow> nat \<Rightarrow> int \<Rightarrow> uio_rw \<Rightarrow> uio" where
  "mk_kuio obj kbuf len pos rw =
     \<lparr>iov_obj = obj, iov_base = kbuf, iov_len = len, uio_offset = pos, uio_resid = len,
      uio_segflg = UIO_SYSSPACE, uio_rw = rw, uio_space = None\<rparr>"

text \<open>
  The \<^verbatim>\<open>switch\<close> of \<^verbatim>\<open>uiomove\<close>: \<open>sz\<close> bytes between the kernel buffer \<open>buf\<close> at offset \<open>p\<close>
  and the place the descriptor names, which then moves on by \<open>sz\<close>.
\<close>

definition uio_copy ::
  "nat \<Rightarrow> nat \<Rightarrow> byte list \<Rightarrow> uio \<Rightarrow>
     ('z usys_scheme, (errno + unit) \<times> byte list \<times> uio) kern" where
  "uio_copy p sz buf u s =
     (if uio_segflg u = UIO_SYSSPACE then
        (case uio_rw u of
           UIO_READ \<Rightarrow>
             (case iov_obj u of
                Some obj \<Rightarrow>
                  if iov_base u + sz \<le> length obj
                  then Inr ((Inr (), buf, u\<lparr>iov_obj := Some (patch (iov_base u) (take sz (drop p buf)) obj),
                                           iov_base := iov_base u + sz\<rparr>), s)
                  else Inl BadPtr
              | None \<Rightarrow>
                  if reach (us_wr s) (iov_base u) sz < sz then Inl BadPtr
                  else Inr ((Inr (), buf, u\<lparr>iov_base := iov_base u + sz\<rparr>),
                            mem_store (iov_base u) (take sz (drop p buf)) s))
         | UIO_WRITE \<Rightarrow>
             (case iov_obj u of
                Some obj \<Rightarrow>
                  if iov_base u + sz \<le> length obj
                  then Inr ((Inr (), patch p (take sz (drop (iov_base u) obj)) buf,
                             u\<lparr>iov_base := iov_base u + sz\<rparr>), s)
                  else Inl BadPtr
              | None \<Rightarrow>
                  if reach (us_rd s) (iov_base u) sz < sz then Inl BadPtr
                  else Inr ((Inr (), patch p (mem_load (iov_base u) sz s) buf,
                             u\<lparr>iov_base := iov_base u + sz\<rparr>), s)))
      else
        (case uio_rw u of
           UIO_READ \<Rightarrow>
             (case copyout buf p (iov_base u) sz s of
                Inl h \<Rightarrow> Inl h
              | Inr (Inl e, s') \<Rightarrow> Inr ((Inl e, buf, u), s')
              | Inr (Inr _, s') \<Rightarrow> Inr ((Inr (), buf, u\<lparr>iov_base := iov_base u + sz\<rparr>), s'))
         | UIO_WRITE \<Rightarrow>
             (case copyin (iov_base u) p sz buf s of
                Inl h \<Rightarrow> Inl h
              | Inr ((Inl e, buf'), s') \<Rightarrow> Inr ((Inl e, buf', u), s')
              | Inr ((Inr _, buf'), s') \<Rightarrow>
                  Inr ((Inr (), buf', u\<lparr>iov_base := iov_base u + sz\<rparr>), s'))))"

definition uio_advance :: "nat \<Rightarrow> uio \<Rightarrow> uio" where
  "uio_advance sz u =
     u\<lparr>iov_len := iov_len u - sz,
       uio_resid := (uio_resid u + 4294967296 - sz) mod 4294967296,
       uio_offset := to_off (uio_offset u + int sz)\<rparr>"

function uiomove_loop ::
  "nat \<Rightarrow> nat \<Rightarrow> byte list \<Rightarrow> uio \<Rightarrow>
     ('z usys_scheme, (errno + unit) \<times> byte list \<times> uio) kern" where
  "uiomove_loop p n buf u s =
     (if n > 0 \<and> uio_resid u > 0 then
        (let sz = (if iov_len u > n then n else iov_len u) in
         if sz = 0 then Inl PanicCall
         else if \<not> p + sz \<le> length buf then Inl BadPtr
         else
           (case uio_copy p sz buf u s of
              Inl h \<Rightarrow> Inl h
            | Inr ((Inl e, buf', u'), s') \<Rightarrow> Inr ((Inl e, buf', u'), s')
            | Inr ((Inr _, buf', u'), s') \<Rightarrow>
                uiomove_loop (p + sz) (n - sz) buf' (uio_advance sz u') s'))
      else Inr ((Inr (), buf, u), s))"
  by pat_completeness auto
termination
  by (relation "measure (\<lambda>(p, n, buf, u, s). n)") (auto split: if_splits)

definition uiomove ::
  "nat \<Rightarrow> byte list \<Rightarrow> nat \<Rightarrow> uio \<Rightarrow> ('z usys_scheme, (errno + unit) \<times> byte list \<times> uio) kern" where
  "uiomove p buf n u s =
     (if uio_segflg u = UIO_SYSSPACE \<and> uio_space u \<noteq> None then Inl AssertFail
      else if uio_segflg u \<noteq> UIO_SYSSPACE \<and> uio_space u \<noteq> us_vmspace s then Inl AssertFail
      else uiomove_loop p n buf u s)"

text \<open>The zeros go out 16 at a time.\<close>

function uiomovezeros_loop :: "nat \<Rightarrow> uio \<Rightarrow> ('z usys_scheme, (errno + unit) \<times> uio) kern" where
  "uiomovezeros_loop n u s =
     (if n > 0 then
        (let amt = (if 16 > n then n else 16) in
         case uiomove 0 (replicate 16 0) amt u s of
           Inl h \<Rightarrow> Inl h
         | Inr ((Inl e, _, u'), s') \<Rightarrow> Inr ((Inl e, u'), s')
         | Inr ((Inr _, _, u'), s') \<Rightarrow> uiomovezeros_loop (n - amt) u' s')
      else Inr ((Inr (), u), s))"
  by pat_completeness auto
termination
  by (relation "measure (\<lambda>(n, u, s). n)") auto

definition uiomovezeros :: "nat \<Rightarrow> uio \<Rightarrow> ('z usys_scheme, (errno + unit) \<times> uio) kern" where
  "uiomovezeros n u s =
     (if uio_rw u \<noteq> UIO_READ then Inl AssertFail else uiomovezeros_loop n u s)"

section \<open>Lemmas\<close>

declare uiomove_loop.simps [simp del] uiomovezeros_loop.simps [simp del]
  copystr_in.simps [simp del] copystr_out.simps [simp del]

subsection \<open>Arithmetic and buffers\<close>

lemma to_off_id [simp]: "- 2147483648 \<le> x \<Longrightarrow> x < 2147483648 \<Longrightarrow> to_off x = x"
  by (simp add: to_off_def)

lemma to_u32_id [simp]: "0 \<le> x \<Longrightarrow> x < 4294967296 \<Longrightarrow> to_u32 x = nat x"
  by (simp add: to_u32_def)

lemma c_quot_nonneg: "0 \<le> a \<Longrightarrow> 0 < b \<Longrightarrow> c_quot a b = a div b"
  by (cases "a = 0") (simp_all add: c_quot_def)

lemma c_rem_nonneg: "0 \<le> a \<Longrightarrow> 0 < b \<Longrightarrow> c_rem a b = a mod b"
  by (simp add: c_rem_def c_quot_nonneg minus_div_mult_eq_mod)

lemma length_patch [simp]: "p + length xs \<le> length buf \<Longrightarrow> length (patch p xs buf) = length buf"
  by (simp add: patch_def)

lemma nth_patch:
  "p + length xs \<le> length buf \<Longrightarrow> i < length buf \<Longrightarrow>
     patch p xs buf ! i = (if p \<le> i \<and> i < p + length xs then xs ! (i - p) else buf ! i)"
  by (auto simp: patch_def nth_append min_def)

lemma reach_le: "reach acc a n \<le> n"
  unfolding reach_def by (metis add_diff_cancel_left' length_takeWhile_le length_upt)

lemma reach_all: "\<forall>x. a \<le> x \<and> x < a + n \<longrightarrow> acc x \<Longrightarrow> reach acc a n = n"
  by (simp add: reach_def takeWhile_eq_all_conv [THEN iffD2])

lemma reach_full: "reach acc a n = n \<longleftrightarrow> (\<forall>x. a \<le> x \<and> x < a + n \<longrightarrow> acc x)"
proof
  assume "reach acc a n = n"
  then have "length (takeWhile acc [a..<a + n]) = length [a..<a + n]" by (simp add: reach_def)
  then have "takeWhile acc [a..<a + n] = [a..<a + n]" by (metis takeWhile_eq_take take_all_iff order_refl)
  then show "\<forall>x. a \<le> x \<and> x < a + n \<longrightarrow> acc x" by (auto simp: takeWhile_eq_all_conv)
qed (rule reach_all)

subsection \<open>Descriptors in kernel space\<close>

text \<open>
  The byte at a position of the place a kernel descriptor names (an index of the object, or an
  address), whether the next \<open>n\<close> of its bytes can be transferred, and the descriptor after a
  transfer of \<open>n\<close> bytes.
\<close>

definition uat :: "'z usys_scheme \<Rightarrow> uio \<Rightarrow> nat \<Rightarrow> byte" where
  "uat s u a = (case iov_obj u of Some obj \<Rightarrow> obj ! a | None \<Rightarrow> us_bytes s a)"

definition uready :: "'z usys_scheme \<Rightarrow> uio \<Rightarrow> nat \<Rightarrow> bool" where
  "uready s u n \<longleftrightarrow>
     uio_segflg u = UIO_SYSSPACE \<and> uio_space u = None \<and> n \<le> iov_len u \<and>
     (case iov_obj u of
        Some obj \<Rightarrow> iov_base u + n \<le> length obj
      | None \<Rightarrow> \<forall>x. iov_base u \<le> x \<and> x < iov_base u + n \<longrightarrow>
                 (if uio_rw u = UIO_READ then us_wr s x else us_rd s x))"

definition moved :: "nat \<Rightarrow> uio \<Rightarrow> uio \<Rightarrow> bool" where
  "moved n u u' \<longleftrightarrow>
     iov_base u' = iov_base u + n \<and> iov_len u' = iov_len u - n \<and> uio_resid u' = uio_resid u - n \<and>
     uio_offset u' = uio_offset u + int n \<and> uio_segflg u' = uio_segflg u \<and> uio_rw u' = uio_rw u \<and>
     uio_space u' = uio_space u \<and> map_option length (iov_obj u') = map_option length (iov_obj u)"

lemma moved_0 [simp]: "moved 0 u u"
  by (simp add: moved_def)

lemma moved_trans: "moved n u u' \<Longrightarrow> moved m u' u'' \<Longrightarrow> moved (n + m) u u''"
  by (simp add: moved_def)

lemma uready_moved:
  assumes "uready s u (n + m)" and "moved n u u'" and "us_rd s' = us_rd s" and "us_wr s' = us_wr s"
  shows "uready s' u' m"
proof (cases "iov_obj u")
  case None
  with assms show ?thesis by (auto simp: uready_def moved_def)
next
  case (Some obj)
  with assms obtain obj' where "iov_obj u' = Some obj'" "length obj' = length obj"
    by (auto simp: moved_def)
  with assms Some show ?thesis by (auto simp: uready_def moved_def)
qed

lemma uready_cong: "us_rd s' = us_rd s \<Longrightarrow> us_wr s' = us_wr s \<Longrightarrow> uready s' u n = uready s u n"
  by (cases "iov_obj u") (simp_all add: uready_def)

lemma uready_le: "uready s u n \<Longrightarrow> m \<le> n \<Longrightarrow> uready s u m"
  by (auto simp: uready_def split: option.splits)

lemma uio_advance_moved:
  assumes "n \<le> uio_resid u" and "uio_resid u < 4294967296" and "0 \<le> uio_offset u"
    and "uio_offset u + int n < 2147483648"
  shows "moved n u ((uio_advance n u)\<lparr>iov_base := iov_base u + n\<rparr>)"
  using assms mod_sub_wrap [of n "uio_resid u" 4294967296] by (simp add: moved_def uio_advance_def)

text \<open>One transfer out of a kernel buffer and one into it.\<close>

lemma uiomove_loop_once:
  assumes "n \<le> iov_len u" and "n \<le> uio_resid u" and "0 < n" and "p + n \<le> length buf"
    and "uio_copy p n buf u s = Inr ((Inr (), buf', u'), s')"
  shows "uiomove_loop p n buf u s = Inr ((Inr (), buf', uio_advance n u'), s')"
proof -
  have "(if iov_len u > n then n else iov_len u) = n" using assms(1) by simp
  with assms show ?thesis
    by (simp add: uiomove_loop.simps [of p n] uiomove_loop.simps [of "p + n" 0] Let_def del: if_split)
qed

lemma mem_load_all:
  "\<forall>x. a \<le> x \<and> x < a + n \<longrightarrow> us_rd s x \<Longrightarrow> mem_load a n s = map (us_bytes s) [a..<a + n]"
  by (simp add: mem_load_def reach_all)

definition ubounds :: "nat \<Rightarrow> uio \<Rightarrow> bool" where
  "ubounds n u \<longleftrightarrow> n \<le> uio_resid u \<and> uio_resid u < 4294967296 \<and> 0 \<le> uio_offset u \<and>
     uio_offset u + int n < 2147483648"

text \<open>The descriptor and the state after a transfer to the place, and from it.\<close>

definition uput :: "byte list \<Rightarrow> uio \<Rightarrow> uio" where
  "uput bs u = u\<lparr>iov_obj := map_option (patch (iov_base u) bs) (iov_obj u)\<rparr>"

definition mput :: "byte list \<Rightarrow> uio \<Rightarrow> 'z usys_scheme \<Rightarrow> 'z usys_scheme" where
  "mput bs u s =
     (case iov_obj u of
        Some _ \<Rightarrow> s
      | None \<Rightarrow> s\<lparr>us_bytes := \<lambda>x. if iov_base u \<le> x \<and> x < iov_base u + length bs then bs ! (x - iov_base u)
                                else us_bytes s x\<rparr>)"

definition uskip :: "nat \<Rightarrow> uio \<Rightarrow> uio" where
  "uskip n u =
     u\<lparr>iov_base := iov_base u + n, iov_len := iov_len u - n, uio_resid := uio_resid u - n,
       uio_offset := uio_offset u + int n\<rparr>"

definition uget :: "nat \<Rightarrow> uio \<Rightarrow> 'z usys_scheme \<Rightarrow> byte list" where
  "uget n u s = map (uat s u) [iov_base u..<iov_base u + n]"

lemma uget_cong: "us_bytes s' = us_bytes s \<Longrightarrow> uget n u s' = uget n u s"
  by (cases "iov_obj u") (simp_all add: uget_def uat_def)

lemma length_uget [simp]: "length (uget n u s) = n"
  by (simp add: uget_def)

lemma mput_Nil [simp]: "mput [] u s = s"
proof -
  have "(\<lambda>x. if iov_base u \<le> x \<and> x < iov_base u + length [] then [] ! (x - iov_base u) else us_bytes s x) = us_bytes s"
    by (rule ext) auto
  then show ?thesis by (simp add: mput_def split: option.splits)
qed

lemma patch_Nil [simp]: "patch p [] buf = buf"
  by (simp add: patch_def)

lemma uput_Nil [simp]: "uput [] u = u"
  by (cases u, cases "iov_obj u") (simp_all add: uput_def)

lemma uput_None: "iov_obj u = None \<Longrightarrow> uput bs u = u"
  by (cases u) (simp add: uput_def)

lemma uskip_0 [simp]: "uskip 0 u = u"
  by (simp add: uskip_def)

lemma uiomove_read:
  assumes "uready s u n" and "ubounds n u" and "uio_rw u = UIO_READ" and "p + n \<le> length buf"
  shows "uiomove p buf n u s =
     Inr ((Inr (), buf, uskip n (uput (take n (drop p buf)) u)), mput (take n (drop p buf)) u s)"
proof (cases "n = 0")
  case True
  then show ?thesis using assms
    by (simp add: uiomove_def uready_def uiomove_loop.simps)
next
  case False
  let ?bs = "take n (drop p buf)"
  have len: "length ?bs = n" using assms(4) by simp
  have adv: "uio_resid u - n = (uio_resid u + 4294967296 - n) mod 4294967296"
    "to_off (uio_offset u + int n) = uio_offset u + int n"
    using assms(2) mod_sub_wrap [of n "uio_resid u" 4294967296] by (simp_all add: ubounds_def)
  have "uio_copy p n buf u s = Inr ((Inr (), buf, (uput ?bs u)\<lparr>iov_base := iov_base u + n\<rparr>), mput ?bs u s)"
  proof (cases "iov_obj u")
    case None
    with assms(1,3) have "reach (us_wr s) (iov_base u) n = n" by (intro reach_all) (simp add: uready_def)
    with None assms(1,3) len show ?thesis
      by (simp add: uio_copy_def uready_def mem_store_def uput_None mput_def)
  next
    case (Some obj)
    with assms(1,3) show ?thesis by (cases u) (simp add: uio_copy_def uready_def uput_def mput_def)
  qed
  with uiomove_loop_once [of n u p buf s] assms False adv show ?thesis
    by (simp add: uiomove_def uready_def ubounds_def uio_advance_def uskip_def uput_def)
qed

lemma uiomove_write:
  assumes "uready s u n" and "ubounds n u" and "uio_rw u = UIO_WRITE" and "p + n \<le> length buf"
  shows "uiomove p buf n u s = Inr ((Inr (), patch p (uget n u s) buf, uskip n u), s)"
proof (cases "n = 0")
  case True
  then show ?thesis using assms
    by (simp add: uiomove_def uready_def uiomove_loop.simps uget_def)
next
  case False
  have adv: "uio_resid u - n = (uio_resid u + 4294967296 - n) mod 4294967296"
    "to_off (uio_offset u + int n) = uio_offset u + int n"
    using assms(2) mod_sub_wrap [of n "uio_resid u" 4294967296] by (simp_all add: ubounds_def)
  have "uio_copy p n buf u s = Inr ((Inr (), patch p (uget n u s) buf, u\<lparr>iov_base := iov_base u + n\<rparr>), s)"
  proof (cases "iov_obj u")
    case None
    then have rd: "\<forall>x. iov_base u \<le> x \<and> x < iov_base u + n \<longrightarrow> us_rd s x"
      using assms(1,3) by (simp add: uready_def)
    moreover have "uat s u = us_bytes s" using None by (simp add: fun_eq_iff uat_def)
    ultimately show ?thesis
      using None assms(1,3) reach_all [OF rd] mem_load_all [OF rd]
      by (simp add: uio_copy_def uready_def uget_def)
  next
    case (Some obj)
    then have "iov_base u + n \<le> length obj" using assms(1) by (simp add: uready_def)
    then have "take n (drop (iov_base u) obj) = uget n u s"
      by (intro nth_equalityI) (simp_all add: uget_def uat_def Some)
    with Some assms(1,3) show ?thesis by (simp add: uio_copy_def uready_def)
  qed
  with uiomove_loop_once [of n u p buf s] assms False adv show ?thesis
    by (simp add: uiomove_def uready_def ubounds_def uio_advance_def uskip_def)
qed

text \<open>Transfers in a row to the same descriptor add up.\<close>

definition usend :: "byte list \<Rightarrow> uio \<Rightarrow> uio" where
  "usend bs u = uskip (length bs) (uput bs u)"

lemma patch_patch:
  assumes "p + length xs + length ys \<le> length buf"
  shows "patch (p + length xs) ys (patch p xs buf) = patch p (xs @ ys) buf"
  using assms by (simp add: patch_def ac_simps)

lemma usend_simps [simp]:
  "iov_base (usend bs u) = iov_base u + length bs" "iov_len (usend bs u) = iov_len u - length bs"
  "uio_resid (usend bs u) = uio_resid u - length bs" "uio_offset (usend bs u) = uio_offset u + int (length bs)"
  "uio_rw (usend bs u) = uio_rw u" "uio_segflg (usend bs u) = uio_segflg u" "uio_space (usend bs u) = uio_space u"
  "iov_obj (usend bs u) = map_option (patch (iov_base u) bs) (iov_obj u)"
  by (simp_all add: usend_def uskip_def uput_def)

lemma usend_usend:
  assumes "uready s u (length bs + length cs)"
  shows "usend cs (usend bs u) = usend (bs @ cs) u"
proof (cases "iov_obj u")
  case None
  then show ?thesis by (cases u) (simp add: usend_def uskip_def uput_def)
next
  case (Some obj)
  with assms have "iov_base u + length bs + length cs \<le> length obj" by (simp add: uready_def)
  with Some show ?thesis by (cases u) (simp add: usend_def uskip_def uput_def patch_patch)
qed

lemma mput_mput: "mput cs (usend bs u) (mput bs u s) = mput (bs @ cs) u s"
proof (cases "iov_obj u")
  case None
  let ?b = "iov_base u"
  have "(\<lambda>x. if ?b + length bs \<le> x \<and> x < ?b + length bs + length cs then cs ! (x - (?b + length bs))
         else if ?b \<le> x \<and> x < ?b + length bs then bs ! (x - ?b) else us_bytes s x) =
        (\<lambda>x. if ?b \<le> x \<and> x < ?b + length (bs @ cs) then (bs @ cs) ! (x - ?b) else us_bytes s x)"
    by (rule ext) (auto simp: nth_append diff_diff_left)
  with None show ?thesis by (simp add: mput_def cong: if_cong)
qed (simp add: mput_def)

lemma mput_access [simp]:
  "us_rd (mput bs u s) = us_rd s" "us_wr (mput bs u s) = us_wr s" "us_cur (mput bs u s) = us_cur s"
  "us_vmspace (mput bs u s) = us_vmspace s" "us_badfault (mput bs u s) = us_badfault s"
  by (simp_all add: mput_def split: option.splits)

lemma uready_usend:
  assumes "uready s u (length bs + m)"
  shows "uready (mput bs u s) (usend bs u) m"
proof (cases "iov_obj u")
  case None
  with assms show ?thesis by (auto simp: uready_def)
next
  case (Some obj)
  with assms show ?thesis by (auto simp: uready_def)
qed

lemma ubounds_usend: "ubounds (length bs + m) u \<Longrightarrow> ubounds m (usend bs u)"
  by (auto simp: ubounds_def)

lemma uready_uskip: "uready s u (n + m) \<Longrightarrow> uready s (uskip n u) m"
  by (auto simp: uready_def uskip_def split: option.splits)

lemma ubounds_uskip: "ubounds (n + m) u \<Longrightarrow> ubounds m (uskip n u)"
  by (auto simp: ubounds_def uskip_def)

lemma uskip_uskip [simp]: "uskip m (uskip n u) = uskip (n + m) u"
  by (simp add: uskip_def)

lemma uskip_simps [simp]:
  "iov_base (uskip n u) = iov_base u + n" "iov_len (uskip n u) = iov_len u - n"
  "uio_resid (uskip n u) = uio_resid u - n" "uio_offset (uskip n u) = uio_offset u + int n"
  "uio_rw (uskip n u) = uio_rw u" "uio_segflg (uskip n u) = uio_segflg u" "uio_space (uskip n u) = uio_space u"
  "iov_obj (uskip n u) = iov_obj u"
  by (simp_all add: uskip_def)

lemma uget_uskip: "uget m (uskip n u) s = drop n (uget (n + m) u s)"
proof -
  have "uat s (uskip n u) = uat s u" by (simp add: fun_eq_iff uat_def)
  then show ?thesis by (simp add: uget_def drop_map add.assoc)
qed

lemma uget_take: "m \<le> n \<Longrightarrow> take m (uget n u s) = uget m u s"
  by (simp add: uget_def take_map)

lemma uiomove_send:
  assumes "uready s u n" and "ubounds n u" and "uio_rw u = UIO_READ" and "p + n \<le> length buf"
  shows "uiomove p buf n u s = Inr ((Inr (), buf, usend (take n (drop p buf)) u), mput (take n (drop p buf)) u s)"
  using uiomove_read [OF assms] assms(4) by (simp add: usend_def)

lemma uiomovezeros_loop_send:
  assumes "uready s u n" and "ubounds n u" and "uio_rw u = UIO_READ"
  shows "uiomovezeros_loop n u s = Inr ((Inr (), usend (replicate n 0) u), mput (replicate n 0) u s)"
  using assms
proof (induction n arbitrary: u s rule: less_induct)
  case (less n)
  show ?case
  proof (cases "n = 0")
    case True
    then show ?thesis by (simp add: uiomovezeros_loop.simps usend_def)
  next
    case False
    define amt where "amt = (if 16 > n then n else 16)"
    have amt: "amt \<le> n" "amt \<le> 16" "0 < amt" "n = amt + (n - amt)" using False by (simp_all add: amt_def)
    let ?z = "replicate amt (0 :: byte)" and ?r = "replicate (n - amt) (0 :: byte)"
    have mv: "uiomove 0 (replicate 16 0) amt u s = Inr ((Inr (), replicate 16 0, usend ?z u), mput ?z u s)"
      using uiomove_send [OF uready_le [OF less.prems(1) amt(1)] _ less.prems(3), of 0 "replicate 16 0"] less.prems(2) amt
      by (simp add: ubounds_def min_def)
    have "uiomovezeros_loop (n - amt) (usend ?z u) (mput ?z u s) =
        Inr ((Inr (), usend ?r (usend ?z u)), mput ?r (usend ?z u) (mput ?z u s))"
    proof (rule less.IH)
      show "uready (mput ?z u s) (usend ?z u) (n - amt)"
        using uready_usend [of s u ?z "n - amt"] less.prems(1) amt(1) by simp
      show "ubounds (n - amt) (usend ?z u)" using ubounds_usend [of ?z "n - amt" u] less.prems(2) amt(1) by simp
    qed (use False less.prems(3) amt(3) in simp_all)
    moreover have "?z @ ?r = replicate n 0" using amt(4) by (simp add: replicate_add [symmetric])
    ultimately have "uiomovezeros_loop (n - amt) (usend ?z u) (mput ?z u s) =
        Inr ((Inr (), usend (replicate n 0) u), mput (replicate n 0) u s)"
      using usend_usend [of s u ?z ?r] less.prems(1) amt(1) by (simp add: mput_mput)
    with mv False show ?thesis by (simp add: uiomovezeros_loop.simps [of n u s] amt_def [symmetric])
  qed
qed

lemma uiomovezeros_send:
  assumes "uready s u n" and "ubounds n u" and "uio_rw u = UIO_READ"
  shows "uiomovezeros n u s = Inr ((Inr (), usend (replicate n 0) u), mput (replicate n 0) u s)"
  using uiomovezeros_loop_send [OF assms] assms(3) by (simp add: uiomovezeros_def)

subsection \<open>Checked copies\<close>

lemma copycheck_len:
  assumes "a < 4294967296" and "len < 4294967296"
  shows "copycheck a len = Inr len \<longleftrightarrow> 0 < len \<and> a + len \<le> USERTOP"
proof (cases "len = 0")
  case True
  then show ?thesis using assms by (cases "a = 0") (simp_all add: copycheck_def Let_def mod_if)
next
  case False
  have "(a + len + 4294967295) mod 4294967296 = (a + len - 1) mod 4294967296"
  proof -
    have "a + len + 4294967295 = (a + len - 1) + 4294967296" using False by simp
    then show ?thesis by (metis mod_add_self2)
  qed
  then show ?thesis using assms False by (auto simp: copycheck_def Let_def mod_if)
qed

lemma copycheck_stop:
  assumes "copycheck a len = Inr stoplen" and "a < 4294967296" and "len < 4294967296" and "0 < len"
  shows "a + stoplen \<le> USERTOP" and "stoplen \<le> len" and "0 < stoplen"
proof -
  have "(a + len + 4294967295) mod 4294967296 = (a + len - 1) mod 4294967296"
  proof -
    have "a + len + 4294967295 = (a + len - 1) + 4294967296" using assms(4) by simp
    then show ?thesis by (metis mod_add_self2)
  qed
  then have "a + stoplen \<le> USERTOP \<and> stoplen \<le> len \<and> 0 < stoplen"
    using assms by (auto simp: copycheck_def Let_def mod_if split: if_splits)
  then show "a + stoplen \<le> USERTOP" and "stoplen \<le> len" and "0 < stoplen" by simp_all
qed

lemma copycheck_error: "copycheck a len = Inl e \<Longrightarrow> e = EFAULT"
  by (auto simp: copycheck_def Let_def split: if_splits)

lemma copystr_in_done:
  assumes "k < maxlen" and "k < stoplen" and "k < length dest" and "i \<le> k"
    and "\<forall>j. i \<le> j \<and> j \<le> k \<longrightarrow> us_rd s (src + j)"
    and "\<forall>j. i \<le> j \<and> j < k \<longrightarrow> us_bytes s (src + j) \<noteq> 0" and "us_bytes s (src + k) = 0"
  shows "copystr_in i dest src maxlen stoplen s =
     Inr (Some (Inr (k + 1)), patch i (map (us_bytes s) [src + i..<src + k + 1]) dest)"
  using assms
proof (induction i dest src maxlen stoplen s rule: copystr_in.induct)
  case (1 i dest src maxlen stoplen s)
  let ?b = "us_bytes s (src + i)"
  have i: "i < maxlen" "i < stoplen" "i < length dest" "us_rd s (src + i)" using "1.prems" by auto
  show ?case
  proof (cases "i = k")
    case True
    then show ?thesis using i "1.prems"(7)
      by (simp add: copystr_in.simps [of k] patch_def upd_conv_take_nth_drop)
  next
    case False
    then have nz: "?b \<noteq> 0" and k: "Suc i \<le> k" using "1.prems" by auto
    have upt: "[src + i..<src + k + 1] = (src + i) # [src + Suc i..<src + k + 1]"
      using k by (simp add: upt_conv_Cons)
    have "copystr_in (Suc i) (dest[i := ?b]) src maxlen stoplen s =
        Inr (Some (Inr (k + 1)), patch (Suc i) (map (us_bytes s) [src + Suc i..<src + k + 1]) (dest[i := ?b]))"
      using "1.IH" [OF _ _ _ refl nz] i "1.prems" k by simp
    moreover have "patch (Suc i) xs (dest[i := ?b]) = patch i (?b # xs) dest" for xs
      using i(3) by (simp add: patch_def take_Suc_conv_app_nth)
    ultimately show ?thesis using i nz by (simp only: upt list.map) (simp add: copystr_in.simps [of i] Let_def)
  qed
qed

lemma copystr_out_done:
  assumes "k < maxlen" and "k < stoplen" and "k < length src" and "i \<le> k"
    and "\<forall>j. i \<le> j \<and> j \<le> k \<longrightarrow> us_wr s (dest + j)"
    and "\<forall>j. i \<le> j \<and> j < k \<longrightarrow> src ! j \<noteq> 0" and "src ! k = 0"
  shows "copystr_out i dest src maxlen stoplen s =
     Inr (Some (Inr (k + 1)),
       s\<lparr>us_bytes := \<lambda>x. if dest + i \<le> x \<and> x \<le> dest + k then src ! (x - dest) else us_bytes s x\<rparr>)"
  using assms
proof (induction i dest src maxlen stoplen s rule: copystr_out.induct)
  case (1 i dest src maxlen stoplen s)
  let ?s = "s\<lparr>us_bytes := (us_bytes s)(dest + i := src ! i)\<rparr>"
  have i: "i < maxlen" "i < stoplen" "i < length src" "us_wr s (dest + i)" using "1.prems" by auto
  show ?case
  proof (cases "i = k")
    case True
    have "(us_bytes s)(dest + k := src ! k) = (\<lambda>x. if dest + k \<le> x \<and> x \<le> dest + k then src ! (x - dest) else us_bytes s x)"
      by (rule ext) auto
    with True i "1.prems"(7) show ?thesis by (simp add: copystr_out.simps [of k])
  next
    case False
    then have nz: "src ! i \<noteq> 0" and k: "Suc i \<le> k" using "1.prems" by auto
    have "copystr_out (Suc i) dest src maxlen stoplen ?s = Inr (Some (Inr (k + 1)),
       ?s\<lparr>us_bytes := \<lambda>x. if dest + Suc i \<le> x \<and> x \<le> dest + k then src ! (x - dest) else us_bytes ?s x\<rparr>)"
      using "1.IH" [OF _ _ _ refl nz] i "1.prems" k by simp
    moreover have "(\<lambda>x. if dest + Suc i \<le> x \<and> x \<le> dest + k then src ! (x - dest) else us_bytes ?s x) =
        (\<lambda>x. if dest + i \<le> x \<and> x \<le> dest + k then src ! (x - dest) else us_bytes s x)"
      using k by (intro ext) auto
    ultimately show ?thesis using i nz by (simp add: copystr_out.simps [of i] Let_def)
  qed
qed

section \<open>Properties\<close>

text \<open>
  C25: \<^verbatim>\<open>copyout\<close> with a kernel buffer that is long enough always returns.  It succeeds exactly
  when the length is not zero, the target lies below \<^verbatim>\<open>USERTOP\<close> and every byte of it is
  writable, and then exactly the target holds the data.  Otherwise it returns EFAULT, and still
  no byte outside the target or in the kernel has changed.
\<close>

theorem copyout_confined:
  assumes "userdest < 4294967296" and "len < 4294967296" and "p + len \<le> length src"
  shows "\<exists>r s'. copyout src p userdest len s = Inr (r, s') \<and>
     (r = Inr () \<longleftrightarrow> 0 < len \<and> userdest + len \<le> USERTOP \<and> (\<forall>i<len. us_wr s (userdest + i))) \<and>
     (r \<noteq> Inr () \<longrightarrow> r = Inl EFAULT) \<and>
     (r = Inr () \<longrightarrow> (\<forall>i<len. us_bytes s' (userdest + i) = src ! (p + i))) \<and>
     (\<forall>x. us_bytes s' x \<noteq> us_bytes s x \<longrightarrow> userdest \<le> x \<and> x < userdest + len \<and> x < USERTOP)"
proof (cases "copycheck userdest len = Inr len")
  case True
  then have ok: "0 < len" "userdest + len \<le> USERTOP" using copycheck_len assms by blast+
  let ?bs = "take len (drop p src)"
  have len: "length ?bs = len" using assms(3) by simp
  have full: "reach (us_wr s) userdest len = len \<longleftrightarrow> (\<forall>i<len. us_wr s (userdest + i))"
    unfolding reach_full by (metis add_less_cancel_left le_add1 le_add_diff_inverse)
  have le: "reach (us_wr s) userdest len \<le> len" by (rule reach_le)
  have conf: "us_bytes ((mem_store userdest ?bs s)\<lparr>us_badfault := False\<rparr>) x \<noteq> us_bytes s x \<Longrightarrow>
      userdest \<le> x \<and> x < userdest + len \<and> x < USERTOP" for x
    using le ok(2) len by (auto simp: mem_store_def split: if_splits)
  show ?thesis
  proof (cases "reach (us_wr s) userdest len < len")
    case True
    with \<open>copycheck userdest len = Inr len\<close> full assms(3) conf show ?thesis by (auto simp: copyout_def Let_def)
  next
    case False
    with le have r: "reach (us_wr s) userdest len = len" by simp
    have "us_bytes ((mem_store userdest ?bs s)\<lparr>us_badfault := False\<rparr>) (userdest + i) = src ! (p + i)" if "i < len" for i
      using that assms(3) r len by (simp add: mem_store_def)
    with \<open>copycheck userdest len = Inr len\<close> full r assms(3) conf ok show ?thesis
      by (simp add: copyout_def Let_def)
  qed
next
  case False
  then have n: "\<not> (0 < len \<and> userdest + len \<le> USERTOP)" using copycheck_len assms by blast
  have "copyout src p userdest len s = Inr (Inl EFAULT, s)"
    using False copycheck_error by (auto simp: copyout_def split: sum.splits)
  with n show ?thesis by auto
qed

definition udemo :: usys where
  "udemo = \<lparr>us_cur = Some 1, us_vmspace = Some 1, us_bytes = (\<lambda>_. 0), us_rd = (\<lambda>a. a < 8192), us_wr = (\<lambda>a. a < 8192),
     us_badfault = False\<rparr>"

theorem copyout_confined_witness:
  "(\<exists>s'. copyout [1, 2, 3, 4] 1 4096 2 udemo = Inr (Inr (), s') \<and> us_bytes s' 4097 = 3) \<and>
   (\<exists>s'. copyout [1, 2, 3, 4] 0 8190 4 udemo = Inr (Inl EFAULT, s'))"
proof -
  have w: "us_wr udemo = (\<lambda>a. a < 8192)" by (simp add: udemo_def)
  obtain r s' where r: "copyout [1, 2, 3, 4] 1 4096 2 udemo = Inr (r, s')"
    "r = Inr () \<longleftrightarrow> (\<forall>i<2. us_wr udemo (4096 + i))" "r = Inr () \<longrightarrow> (\<forall>i<2. us_bytes s' (4096 + i) = [1, 2, 3, 4] ! (1 + i))"
    using copyout_confined [of 4096 2 1 "[1, 2, 3, 4]" udemo] by auto
  then have "r = Inr ()" by (simp add: w)
  with r(3) have "\<forall>i<2. us_bytes s' (4096 + i) = [1, 2, 3, 4] ! (1 + i)" by simp
  from this [THEN spec, of 1] have "us_bytes s' 4097 = 3" by simp
  moreover obtain r2 s2 where "copyout [1, 2, 3, 4] 0 8190 4 udemo = Inr (r2, s2)"
    "r2 = Inr () \<longleftrightarrow> (\<forall>i<4. us_wr udemo (8190 + i))" "r2 \<noteq> Inr () \<longrightarrow> r2 = Inl EFAULT"
    using copyout_confined [of 8190 4 0 "[1, 2, 3, 4]" udemo] by auto
  moreover have "\<not> (\<forall>i<4. us_wr udemo (8190 + i))" by (auto simp: w intro: exI [of _ 2])
  ultimately show ?thesis using r(1) \<open>r = Inr ()\<close> by auto
qed

text \<open>
  C27: A C string that \<^verbatim>\<open>copyoutstr\<close> stored in user space comes back from \<^verbatim>\<open>copyinstr\<close>
  unchanged, both with its length including the terminator, whenever the string fits the given
  length, lies below \<^verbatim>\<open>USERTOP\<close> and its bytes can be read and written.
\<close>

theorem copyoutstr_copyinstr:
  assumes "0 \<notin> set str" and "length str < len" and "len < 4294967296" and "a < 4294967296" and "a + len \<le> USERTOP"
    and "length dest = len" and "\<forall>i \<le> length str. us_rd s (a + i) \<and> us_wr s (a + i)"
  shows "\<exists>s' dest'. copyoutstr (str @ [0]) a len s = Inr (Inr (length str + 1), s') \<and>
     copyinstr a dest len s' = Inr ((Inr (length str + 1), dest'), s') \<and> take (length str + 1) dest' = str @ [0]"
proof -
  let ?k = "length str" and ?src = "str @ [0 :: byte]"
  let ?f = "\<lambda>x. if a + 0 \<le> x \<and> x \<le> a + ?k then ?src ! (x - a) else us_bytes s x"
  let ?s = "s\<lparr>us_bytes := ?f, us_badfault := False\<rparr>"
  have chk: "copycheck a len = Inr len" using copycheck_len [of a len] assms by simp
  have nz: "\<forall>j. 0 \<le> j \<and> j < ?k \<longrightarrow> ?src ! j \<noteq> 0" using assms(1) by (auto simp: nth_append in_set_conv_nth)
  have out: "copystr_out 0 a ?src len len s = Inr (Some (Inr (?k + 1)), s\<lparr>us_bytes := ?f\<rparr>)"
    by (rule copystr_out_done) (use assms nz in auto)
  have bytes: "map (us_bytes ?s) [a + 0..<a + ?k + 1] = ?src"
    by (rule nth_equalityI) (simp_all del: upt_Suc)
  have "copystr_in 0 dest a len len ?s =
      Inr (Some (Inr (?k + 1)), patch 0 (map (us_bytes ?s) [a + 0..<a + ?k + 1]) dest)"
    by (rule copystr_in_done) (use assms nz in auto)
  then have inn: "copystr_in 0 dest a len len ?s = Inr (Some (Inr (?k + 1)), patch 0 ?src dest)"
    by (simp only: bytes)
  have "copyoutstr ?src a len s = Inr (Inr (?k + 1), ?s)" by (simp add: copyoutstr_def chk out)
  moreover have "copyinstr a dest len ?s = Inr ((Inr (?k + 1), patch 0 ?src dest), ?s)"
    using inn by (simp add: copyinstr_def chk)
  moreover have "take (?k + 1) (patch 0 ?src dest) = ?src" using assms(2,6) by (simp add: patch_def)
  ultimately show ?thesis by blast
qed

theorem copyoutstr_copyinstr_witness:
  "\<exists>s' dest'. copyoutstr ([104, 105] @ [0]) 4096 16 udemo = Inr (Inr 3, s') \<and>
     copyinstr 4096 (replicate 16 0) 16 s' = Inr ((Inr 3, dest'), s') \<and> take 3 dest' = [104, 105, 0]"
  using copyoutstr_copyinstr [of "[104, 105]" 16 4096 "replicate 16 0" udemo]
  by (simp add: udemo_def numeral_3_eq_3)



text \<open>
  \<^verbatim>\<open>copyin\<close> and \<^verbatim>\<open>copyout\<close> of no bytes fail with EFAULT at every address, because the
  address of the last byte is computed as one below the first.
\<close>

theorem copy_nothing_faults:
  assumes "a < 4294967296"
  shows "copyin a p 0 dest s = Inr ((Inl EFAULT, dest), s) \<and> copyout src p a 0 s = Inr (Inl EFAULT, s)"
proof -
  have "copycheck a 0 = Inl EFAULT \<or> copycheck a 0 = Inr USERTOP"
    using assms by (cases "a = 0") (auto simp: copycheck_def Let_def mod_if)
  then show ?thesis
    by (auto simp: copyin_def copyout_def)
qed

theorem copy_nothing_faults_witness: "copyout [] 0 4096 0 udemo = Inr (Inl EFAULT, udemo)"
  using copy_nothing_faults [of 4096 0 "[]" udemo "[]"] by simp

end
