(* ===== verification/Disk.thy ===== *)
theory Disk
  imports Uio
begin

text \<open>
  The LAMEbus disk driver of \<^verbatim>\<open>kern/dev/lamebus/lhd.c\<close> and the block routines of
  \<^verbatim>\<open>kern/fs/sfs/sfs_io.c\<close> above it.  The hardware is the part of the state the driver sees through
  the registers and the transfer buffer: the sectors of the medium, and the status codes with
  which the disk will answer the next operations (an empty list stands for success from then
  on).  An operation that the disk answers with anything but OK transfers nothing.
\<close>

section \<open>Model\<close>

abbreviation LHD_SECTSIZE :: nat where "LHD_SECTSIZE \<equiv> 512"
abbreviation SFS_BLOCKSIZE :: nat where "SFS_BLOCKSIZE \<equiv> 512"
abbreviation LHD_IDLE :: nat where "LHD_IDLE \<equiv> 0"
abbreviation LHD_WORKING :: nat where "LHD_WORKING \<equiv> 1"
abbreviation LHD_ISWRITE :: nat where "LHD_ISWRITE \<equiv> 2"
abbreviation LHD_OK :: nat where "LHD_OK \<equiv> 4"
abbreviation LHD_INVSECT :: nat where "LHD_INVSECT \<equiv> 12"
abbreviation LHD_MEDIA :: nat where "LHD_MEDIA \<equiv> 20"
abbreviation LHD_STATEMASK :: nat where "LHD_STATEMASK \<equiv> 29"

record dsys = usys +
  d_blocks :: nat
  d_blocksize :: nat
  lh_clear :: nat
  lh_done :: nat
  lh_result :: "errno option"
  lh_buf :: "byte list"
  lhd_sect :: nat
  lhd_stat :: nat
  d_media :: "nat \<Rightarrow> byte list"
  d_replies :: "nat list"

text \<open>The semaphores of the driver, as the code inside one operation sees them.\<close>

definition P_clear :: "('z dsys_scheme, unit) kern" where
  "P_clear s = (if lh_clear s = 0 then Inl Blocked else Inr ((), s\<lparr>lh_clear := lh_clear s - 1\<rparr>))"

definition V_clear :: "('z dsys_scheme, unit) kern" where
  "V_clear = kmod (\<lambda>s. s\<lparr>lh_clear := lh_clear s + 1\<rparr>)"

definition P_done :: "('z dsys_scheme, unit) kern" where
  "P_done s = (if lh_done s = 0 then Inl Blocked else Inr ((), s\<lparr>lh_done := lh_done s - 1\<rparr>))"

definition lhd_code_to_errno :: "nat \<Rightarrow> errno option" where
  "lhd_code_to_errno code =
     (let st = code AND LHD_STATEMASK in
      if st = LHD_OK then None
      else if st = LHD_INVSECT then Some EINVAL
      else if st = LHD_MEDIA then Some EIO
      else Some EAGAIN)"

definition lhd_iodone :: "errno option \<Rightarrow> ('z dsys_scheme, unit) kern" where
  "lhd_iodone err = kmod (\<lambda>s. s\<lparr>lh_result := err, lh_done := lh_done s + 1\<rparr>)"

definition lhd_irq :: "('z dsys_scheme, unit) kern" where
  "lhd_irq s =
     (let val = lhd_stat s; st = val AND LHD_STATEMASK in
      if st = LHD_OK \<or> st = LHD_INVSECT \<or> st = LHD_MEDIA
      then lhd_iodone (lhd_code_to_errno val) (s\<lparr>lhd_stat := 0\<rparr>)
      else Inr ((), s))"

text \<open>
  The disk: a working order in the status register is carried out on the selected sector, the
  answer goes to the status register, and the interrupt handler runs.
\<close>

definition lhd_hardware :: "('z dsys_scheme, unit) kern" where
  "lhd_hardware s =
     (let code = (case d_replies s of [] \<Rightarrow> LHD_OK | c # _ \<Rightarrow> c);
          write = (lhd_stat s AND LHD_ISWRITE \<noteq> 0);
          s1 = s\<lparr>d_replies := tl (d_replies s), lhd_stat := code OR (if write then LHD_ISWRITE else 0)\<rparr>;
          s2 = (if code AND LHD_STATEMASK \<noteq> LHD_OK then s1
                else if write then s1\<lparr>d_media := (d_media s)(lhd_sect s := lh_buf s)\<rparr>
                else s1\<lparr>lh_buf := d_media s (lhd_sect s)\<rparr>)
      in lhd_irq s2)"

text \<open>The loop of \<^verbatim>\<open>lhd_io\<close> over \<open>n\<close> sectors from \<open>sector\<close>.\<close>

fun lhd_io_loop ::
  "nat \<Rightarrow> nat \<Rightarrow> nat \<Rightarrow> uio \<Rightarrow> ('z dsys_scheme, (errno + unit) \<times> uio) kern" where
  "lhd_io_loop statval sector 0 u s = Inr ((Inr (), u), s)"
| "lhd_io_loop statval sector (Suc n) u s =
     kbind P_clear (\<lambda>_.
     kbind (if uio_rw u = UIO_WRITE
            then kbind (\<lambda>s. uiomove 0 (lh_buf s) LHD_SECTSIZE u s) (\<lambda>(r, buf, u').
                 kbind (kmod (\<lambda>s. s\<lparr>lh_buf := buf\<rparr>)) (\<lambda>_. kret (r, u')))
            else kret (Inr (), u)) (\<lambda>(r, u1).
     case r of
       Inl e \<Rightarrow> kbind V_clear (\<lambda>_. kret (Inl e, u1))
     | Inr _ \<Rightarrow>
         kbind (kmod (\<lambda>s. s\<lparr>lhd_sect := sector, lhd_stat := statval\<rparr>)) (\<lambda>_.
         kbind lhd_hardware (\<lambda>_.
         kbind P_done (\<lambda>_.
         kbind (kget lh_result) (\<lambda>result.
         kbind (if result = None \<and> uio_rw u1 = UIO_READ
                then kbind (\<lambda>s. uiomove 0 (lh_buf s) LHD_SECTSIZE u1 s) (\<lambda>(r, _, u'). kret (r, u'))
                else kret (case result of None \<Rightarrow> Inr () | Some e \<Rightarrow> Inl e, u1)) (\<lambda>(r2, u2).
         kbind V_clear (\<lambda>_.
         case r2 of Inl e \<Rightarrow> kret (Inl e, u2) | Inr _ \<Rightarrow> lhd_io_loop statval (sector + 1) n u2)))))))) s"

definition lhd_io :: "uio \<Rightarrow> ('z dsys_scheme, (errno + unit) \<times> uio) kern" where
  "lhd_io u s =
     (let sector = to_u32 (c_quot (uio_offset u) (int LHD_SECTSIZE));
          sectoff = to_u32 (c_rem (uio_offset u) (int LHD_SECTSIZE));
          len = uio_resid u div LHD_SECTSIZE;
          lenoff = uio_resid u mod LHD_SECTSIZE
      in
      if sectoff \<noteq> 0 \<or> lenoff \<noteq> 0 then Inr ((Inl EINVAL, u), s)
      else if (sector + len) mod 4294967296 > d_blocks s then Inr ((Inl EINVAL, u), s)
      else lhd_io_loop (if uio_rw u = UIO_WRITE then LHD_WORKING OR LHD_ISWRITE else LHD_WORKING)
             sector len u s)"

text \<open>The retry loop of \<^verbatim>\<open>sfs_rwblock\<close>, and the reads and writes of one block.\<close>

function sfs_rwblock_try :: "nat \<Rightarrow> uio \<Rightarrow> ('z dsys_scheme, (errno + unit) \<times> uio) kern" where
  "sfs_rwblock_try tries u s =
     (case lhd_io u s of
        Inl h \<Rightarrow> Inl h
      | Inr ((Inl EINVAL, u'), s') \<Rightarrow> Inl PanicCall
      | Inr ((Inl EIO, u'), s') \<Rightarrow>
          if tries < 10 then sfs_rwblock_try (tries + 1) u' s' else Inr ((Inl EIO, u'), s')
      | Inr ((r, u'), s') \<Rightarrow> Inr ((r, u'), s'))"
  by pat_completeness auto
termination
  by (relation "measure (\<lambda>(tries, u, s). 10 - tries)") auto

definition sfs_rwblock :: "uio \<Rightarrow> ('z dsys_scheme, (errno + unit) \<times> uio) kern" where
  "sfs_rwblock u = sfs_rwblock_try 0 u"

definition SFSUIO :: "byte list \<Rightarrow> nat \<Rightarrow> uio_rw \<Rightarrow> uio option" where
  "SFSUIO obj block rw =
     (if int block * int SFS_BLOCKSIZE > INT_MAX then None
      else Some (mk_kuio (Some obj) 0 SFS_BLOCKSIZE (int block * int SFS_BLOCKSIZE) rw))"

definition sfs_rblock :: "nat \<Rightarrow> ('z dsys_scheme, errno + byte list) kern" where
  "sfs_rblock block =
     (case SFSUIO (replicate SFS_BLOCKSIZE 0) block UIO_READ of
        None \<Rightarrow> khalt IntOverflow
      | Some ku \<Rightarrow>
          kbind (sfs_rwblock ku) (\<lambda>(r, ku').
          case r of
            Inl e \<Rightarrow> kret (Inl e)
          | Inr _ \<Rightarrow> (case iov_obj ku' of None \<Rightarrow> khalt BadPtr | Some obj \<Rightarrow> kret (Inr obj))))"

definition sfs_wblock :: "byte list \<Rightarrow> nat \<Rightarrow> ('z dsys_scheme, errno + unit) kern" where
  "sfs_wblock data block =
     (case SFSUIO data block UIO_WRITE of
        None \<Rightarrow> khalt IntOverflow
      | Some ku \<Rightarrow> kbind (sfs_rwblock ku) (\<lambda>(r, ku'). kret r))"

section \<open>Lemmas\<close>

declare sfs_rwblock_try.simps [simp del] lhd_io_loop.simps [simp del]

text \<open>The driver at rest, with sectors of the right size on a disk whose offsets fit an \<^verbatim>\<open>off_t\<close>.\<close>

definition drv_ok :: "'z dsys_scheme \<Rightarrow> bool" where
  "drv_ok s \<longleftrightarrow> lh_clear s = 1 \<and> lh_done s = 0 \<and> length (lh_buf s) = 512 \<and> d_blocks s < 4194304 \<and>
     (\<forall>b. length (d_media s b) = 512)"

definition disk_ok :: "'z dsys_scheme \<Rightarrow> bool" where
  "disk_ok s \<longleftrightarrow> drv_ok s \<and> d_replies s = []"

text \<open>The state after a block was read and after one was written.\<close>

definition rd :: "nat \<Rightarrow> 'z dsys_scheme \<Rightarrow> 'z dsys_scheme" where
  "rd b s = s\<lparr>lh_result := None, lh_buf := d_media s b, lhd_sect := b, lhd_stat := 0\<rparr>"

definition wr :: "nat \<Rightarrow> byte list \<Rightarrow> 'z dsys_scheme \<Rightarrow> 'z dsys_scheme" where
  "wr b bs s = s\<lparr>lh_result := None, lh_buf := bs, lhd_sect := b, lhd_stat := 0, d_media := (d_media s)(b := bs)\<rparr>"

lemma rd_simps [simp]:
  "us_cur (rd b s) = us_cur s" "us_vmspace (rd b s) = us_vmspace s" "us_bytes (rd b s) = us_bytes s"
  "us_rd (rd b s) = us_rd s" "us_wr (rd b s) = us_wr s" "us_badfault (rd b s) = us_badfault s"
  "d_blocks (rd b s) = d_blocks s" "d_blocksize (rd b s) = d_blocksize s" "d_media (rd b s) = d_media s"
  "d_replies (rd b s) = d_replies s" "lh_clear (rd b s) = lh_clear s" "lh_done (rd b s) = lh_done s"
  by (simp_all add: rd_def)

lemma wr_simps [simp]:
  "us_cur (wr b bs s) = us_cur s" "us_vmspace (wr b bs s) = us_vmspace s" "us_bytes (wr b bs s) = us_bytes s"
  "us_rd (wr b bs s) = us_rd s" "us_wr (wr b bs s) = us_wr s" "us_badfault (wr b bs s) = us_badfault s"
  "d_blocks (wr b bs s) = d_blocks s" "d_blocksize (wr b bs s) = d_blocksize s"
  "d_media (wr b bs s) = (d_media s)(b := bs)"
  "d_replies (wr b bs s) = d_replies s" "lh_clear (wr b bs s) = lh_clear s" "lh_done (wr b bs s) = lh_done s"
  by (simp_all add: wr_def)

lemma mput_disk [simp]:
  "d_blocks (mput bs u s) = d_blocks s" "d_blocksize (mput bs u s) = d_blocksize s" "d_media (mput bs u s) = d_media s"
  "d_replies (mput bs u s) = d_replies s" "lh_clear (mput bs u s) = lh_clear s" "lh_done (mput bs u s) = lh_done s"
  "lh_buf (mput bs u s) = lh_buf s"
  by (simp_all add: mput_def split: option.splits)

lemma disk_ok_mput [simp]: "disk_ok (mput bs u s) = disk_ok s"
  by (simp add: disk_ok_def drv_ok_def)

lemma disk_ok_rd [simp]: "disk_ok s \<Longrightarrow> disk_ok (rd b s)"
  by (simp add: disk_ok_def drv_ok_def) (simp add: rd_def)

lemma disk_ok_wr [simp]: "disk_ok s \<Longrightarrow> length bs = 512 \<Longrightarrow> disk_ok (wr b bs s)"
  by (simp add: disk_ok_def drv_ok_def) (simp add: wr_def)

lemma status_bits [simp]:
  "(4 :: nat) AND 29 = 4" "(12 :: nat) AND 29 = 12" "(20 :: nat) AND 29 = 20" "(6 :: nat) AND 29 = 4"
  "(22 :: nat) AND 29 = 20" "(1 :: nat) AND 2 = 0" "(3 :: nat) AND 2 = 2" "(1 :: nat) OR 2 = 3" "(4 :: nat) OR 2 = 6"
  "(20 :: nat) OR 2 = 22"
  by simp_all

lemma lhd_hardware_ok:
  assumes "d_replies s = []" and "lhd_stat s = (if w then 3 else 1)"
  shows "lhd_hardware s = Inr ((), (if w then s\<lparr>d_media := (d_media s)(lhd_sect s := lh_buf s)\<rparr> else s\<lparr>lh_buf := d_media s (lhd_sect s)\<rparr>)
     \<lparr>lh_result := None, lh_done := lh_done s + 1, lhd_stat := 0, d_replies := []\<rparr>)"
  using assms by (simp add: lhd_hardware_def lhd_irq_def lhd_iodone_def lhd_code_to_errno_def Let_def)

lemma lhd_hardware_media:
  assumes "d_replies s = LHD_MEDIA # rs" and "lhd_stat s = (if w then 3 else 1)"
  shows "lhd_hardware s = Inr ((), s\<lparr>lh_result := Some EIO, lh_done := lh_done s + 1, lhd_stat := 0, d_replies := rs\<rparr>)"
  using assms by (simp add: lhd_hardware_def lhd_irq_def lhd_iodone_def lhd_code_to_errno_def Let_def)

text \<open>One sector through the driver: a read, a write, and a media error on each.\<close>

definition at_block :: "nat \<Rightarrow> uio \<Rightarrow> bool" where
  "at_block b u \<longleftrightarrow> uio_offset u = int b * 512 \<and> uio_resid u = 512"

lemma at_blockD:
  assumes "at_block b u" and "b < 4194303"
  shows "to_u32 (c_quot (uio_offset u) 512) = b" and "to_u32 (c_rem (uio_offset u) 512) = 0" and "ubounds 512 u"
  using assms by (simp_all add: at_block_def c_quot_nonneg c_rem_nonneg ubounds_def)

lemma lhd_io_one:
  assumes "at_block b u" and "b < d_blocks s" and "d_blocks s < 4194304"
  shows "lhd_io u s = lhd_io_loop (if uio_rw u = UIO_WRITE then 3 else 1) b 1 u s"
  using assms at_blockD [OF assms(1)] by (simp add: lhd_io_def at_block_def)

lemma lhd_read_ok:
  assumes "disk_ok s" and "at_block b u" and "b < d_blocks s" and "uready s u 512" and "uio_rw u = UIO_READ"
  shows "lhd_io u s = Inr ((Inr (), usend (d_media s b) u), mput (d_media s b) u (rd b s))"
proof -
  from assms(1) have d: "lh_clear s = 1" "lh_done s = 0" "d_blocks s < 4194304" "length (d_media s b) = 512" "d_replies s = []"
    by (simp_all add: disk_ok_def drv_ok_def)
  let ?s = "s\<lparr>lh_clear := 0, lhd_sect := b, lhd_stat := 0, lh_buf := d_media s b, lh_result := None, d_replies := [], lh_done := 0\<rparr>"
  have hw: "lhd_hardware (s\<lparr>lh_clear := 0, lhd_sect := b, lhd_stat := 1\<rparr>) = Inr ((), ?s\<lparr>lh_done := 1\<rparr>)"
    using lhd_hardware_ok [of "s\<lparr>lh_clear := 0, lhd_sect := b, lhd_stat := 1\<rparr>" False] d by (cases s) simp
  have "uready ?s u 512" using assms(4) uready_cong [of ?s s] by simp
  then have mv: "uiomove 0 (d_media s b) 512 u ?s = Inr ((Inr (), d_media s b, usend (d_media s b) u), mput (d_media s b) u ?s)"
    using uiomove_send [of ?s u 512 0 "d_media s b"] assms(5) d(4) at_blockD [OF assms(2)] assms(3) d(3) by simp
  have fin: "mput (d_media s b) u ?s\<lparr>lh_clear := 1\<rparr> = mput (d_media s b) u (rd b s)"
    using d by (cases s) (simp add: mput_def rd_def split: option.splits cong: if_cong)
  have "lhd_io u s = lhd_io_loop 1 b (Suc 0) u s" using lhd_io_one [OF assms(2,3) d(3)] assms(5) by simp
  also have "\<dots> = Inr ((Inr (), usend (d_media s b) u), mput (d_media s b) u ?s\<lparr>lh_clear := 1\<rparr>)"
    using d mv hw assms(5)
    by (simp add: lhd_io_loop.simps P_clear_def V_clear_def P_done_def kbind_def)
  finally show ?thesis by (simp only: fin)
qed

lemma lhd_write_ok:
  assumes "disk_ok s" and "at_block b u" and "b < d_blocks s" and "uready s u 512" and "uio_rw u = UIO_WRITE"
  shows "lhd_io u s = Inr ((Inr (), uskip 512 u), wr b (uget 512 u s) s)"
proof -
  from assms(1) have d: "lh_clear s = 1" "lh_done s = 0" "d_blocks s < 4194304" "length (lh_buf s) = 512" "d_replies s = []"
    by (simp_all add: disk_ok_def drv_ok_def)
  let ?d = "uget 512 u s" and ?s0 = "s\<lparr>lh_clear := 0\<rparr>"
  have pg: "patch 0 ?d (lh_buf s) = ?d" using d(4) by (simp add: patch_def)
  have ug: "uget 512 u ?s0 = ?d" by (rule uget_cong) simp
  have "uready ?s0 u 512" using assms(4) uready_cong [of ?s0 s] by simp
  then have mv: "uiomove 0 (lh_buf s) 512 u ?s0 = Inr ((Inr (), ?d, uskip 512 u), ?s0)"
    using uiomove_write [of ?s0 u 512 0 "lh_buf s"] assms(5) d(4) at_blockD [OF assms(2)] assms(3) d(3) pg ug by simp
  have hw: "lhd_hardware (s\<lparr>lh_clear := 0, lh_buf := ?d, lhd_sect := b, lhd_stat := 3\<rparr>) =
      Inr ((), (wr b ?d s)\<lparr>lh_clear := 0, lh_done := 1\<rparr>)"
    using lhd_hardware_ok [of "s\<lparr>lh_clear := 0, lh_buf := ?d, lhd_sect := b, lhd_stat := 3\<rparr>" True] d
    by (cases s) (simp add: wr_def)
  have "lhd_io u s = lhd_io_loop 3 b (Suc 0) u s" using lhd_io_one [OF assms(2,3) d(3)] assms(5) by simp
  also have "\<dots> = Inr ((Inr (), uskip 512 u), wr b ?d s)"
    using d mv hw assms(5)
    by (cases s) (simp add: lhd_io_loop.simps P_clear_def V_clear_def P_done_def kbind_def wr_def)
  finally show ?thesis .
qed

lemma sfs_rwblock_read:
  assumes "disk_ok s" and "at_block b u" and "b < d_blocks s" and "uready s u 512" and "uio_rw u = UIO_READ"
  shows "sfs_rwblock u s = Inr ((Inr (), usend (d_media s b) u), mput (d_media s b) u (rd b s))"
  using lhd_read_ok [OF assms] by (simp add: sfs_rwblock_def sfs_rwblock_try.simps)

lemma sfs_rwblock_write:
  assumes "disk_ok s" and "at_block b u" and "b < d_blocks s" and "uready s u 512" and "uio_rw u = UIO_WRITE"
  shows "sfs_rwblock u s = Inr ((Inr (), uskip 512 u), wr b (uget 512 u s) s)"
  using lhd_write_ok [OF assms] by (simp add: sfs_rwblock_def sfs_rwblock_try.simps)

abbreviation kblock :: "byte list \<Rightarrow> nat \<Rightarrow> uio_rw \<Rightarrow> uio" where
  "kblock obj b rw \<equiv> mk_kuio (Some obj) 0 512 (int b * 512) rw"

lemma kblock_ok: "length obj = 512 \<Longrightarrow> uready s (kblock obj b rw) 512" "at_block b (kblock obj b rw)"
  by (simp_all add: mk_kuio_def uready_def at_block_def)

lemma SFSUIO_ok: "b < 4194303 \<Longrightarrow> SFSUIO obj b rw = Some (kblock obj b rw)"
  by (simp add: SFSUIO_def)

lemma sfs_rblock_ok:
  assumes "disk_ok s" and "b < d_blocks s"
  shows "sfs_rblock b s = Inr (Inr (d_media s b), rd b s)"
proof -
  have d: "b < 4194303" "length (d_media s b) = 512" using assms by (simp_all add: disk_ok_def drv_ok_def)
  have "sfs_rwblock (kblock (replicate 512 0) b UIO_READ) s =
      Inr ((Inr (), usend (d_media s b) (kblock (replicate 512 0) b UIO_READ)), rd b s)"
    using sfs_rwblock_read [OF assms(1) kblock_ok(2) assms(2) kblock_ok(1), of "replicate 512 0" UIO_READ]
    by (simp add: mk_kuio_def mput_def)
  then show ?thesis using d by (simp add: sfs_rblock_def SFSUIO_ok) (simp add: mk_kuio_def patch_def)
qed

lemma sfs_wblock_ok:
  assumes "disk_ok s" and "b < d_blocks s" and "length bs = 512"
  shows "sfs_wblock bs b s = Inr (Inr (), wr b bs s)"
proof -
  have d: "b < 4194303" using assms by (simp add: disk_ok_def drv_ok_def)
  have "uget 512 (kblock bs b UIO_WRITE) s = bs"
    using assms(3) by (intro nth_equalityI) (simp_all add: uget_def uat_def mk_kuio_def)
  then have "sfs_rwblock (kblock bs b UIO_WRITE) s = Inr ((Inr (), uskip 512 (kblock bs b UIO_WRITE)), wr b bs s)"
    using sfs_rwblock_write [OF assms(1) kblock_ok(2) assms(2) kblock_ok(1), of bs UIO_WRITE] assms(3)
    by (simp add: mk_kuio_def)
  then show ?thesis using d by (simp add: sfs_wblock_def SFSUIO_ok)
qed

text \<open>A media error: a read leaves the descriptor alone, a write has already used up its data.\<close>

lemma lhd_read_media:
  assumes "drv_ok s" and "d_replies s = LHD_MEDIA # rs" and "at_block b u" and "b < d_blocks s" and "uio_rw u = UIO_READ"
  shows "lhd_io u s = Inr ((Inl EIO, u), s\<lparr>lh_result := Some EIO, lhd_sect := b, lhd_stat := 0, d_replies := rs\<rparr>)"
proof -
  from assms(1) have d: "lh_clear s = 1" "lh_done s = 0" "d_blocks s < 4194304" by (simp_all add: drv_ok_def)
  have hw: "lhd_hardware (s\<lparr>lh_clear := 0, lhd_sect := b, lhd_stat := 1\<rparr>) =
      Inr ((), s\<lparr>lh_clear := 0, lhd_sect := b, lhd_stat := 0, lh_result := Some EIO, d_replies := rs, lh_done := 1\<rparr>)"
    using lhd_hardware_media [of "s\<lparr>lh_clear := 0, lhd_sect := b, lhd_stat := 1\<rparr>" rs False] d assms(2) by (cases s) simp
  have "lhd_io u s = lhd_io_loop 1 b (Suc 0) u s" using lhd_io_one [OF assms(3,4) d(3)] assms(5) by simp
  also have "\<dots> = Inr ((Inl EIO, u), s\<lparr>lh_result := Some EIO, lhd_sect := b, lhd_stat := 0, d_replies := rs\<rparr>)"
    using d hw assms(5)
    by (cases s) (simp add: lhd_io_loop.simps P_clear_def V_clear_def P_done_def kbind_def)
  finally show ?thesis .
qed

lemma lhd_write_media:
  assumes "drv_ok s" and "d_replies s = LHD_MEDIA # rs" and "at_block b u" and "b < d_blocks s" and "uready s u 512"
    and "uio_rw u = UIO_WRITE"
  shows "lhd_io u s = Inr ((Inl EIO, uskip 512 u),
     s\<lparr>lh_result := Some EIO, lh_buf := uget 512 u s, lhd_sect := b, lhd_stat := 0, d_replies := rs\<rparr>)"
proof -
  from assms(1) have d: "lh_clear s = 1" "lh_done s = 0" "d_blocks s < 4194304" "length (lh_buf s) = 512"
    by (simp_all add: drv_ok_def)
  let ?d = "uget 512 u s" and ?s0 = "s\<lparr>lh_clear := 0\<rparr>"
  have pg: "patch 0 ?d (lh_buf s) = ?d" using d(4) by (simp add: patch_def)
  have ug: "uget 512 u ?s0 = ?d" by (rule uget_cong) simp
  have "uready ?s0 u 512" using assms(5) uready_cong [of ?s0 s] by simp
  then have mv: "uiomove 0 (lh_buf s) 512 u ?s0 = Inr ((Inr (), ?d, uskip 512 u), ?s0)"
    using uiomove_write [of ?s0 u 512 0 "lh_buf s"] assms(6) d(4) at_blockD [OF assms(3)] assms(4) d(3) pg ug by simp
  have hw: "lhd_hardware (s\<lparr>lh_clear := 0, lh_buf := ?d, lhd_sect := b, lhd_stat := 3\<rparr>) =
      Inr ((), s\<lparr>lh_clear := 0, lh_buf := ?d, lhd_sect := b, lhd_stat := 0, lh_result := Some EIO, d_replies := rs, lh_done := 1\<rparr>)"
    using lhd_hardware_media [of "s\<lparr>lh_clear := 0, lh_buf := ?d, lhd_sect := b, lhd_stat := 3\<rparr>" rs True] d assms(2)
    by (cases s) simp
  have "lhd_io u s = lhd_io_loop 3 b (Suc 0) u s" using lhd_io_one [OF assms(3,4) d(3)] assms(6) by simp
  also have "\<dots> = Inr ((Inl EIO, uskip 512 u),
     s\<lparr>lh_result := Some EIO, lh_buf := ?d, lhd_sect := b, lhd_stat := 0, d_replies := rs\<rparr>)"
    using d mv hw assms(6)
    by (cases s) (simp add: lhd_io_loop.simps P_clear_def V_clear_def P_done_def kbind_def)
  finally show ?thesis .
qed

lemma sfs_read_retries:
  assumes "drv_ok s" and "d_replies s = replicate n LHD_MEDIA" and "at_block b u" and "b < d_blocks s" and "uready s u 512"
    and "uio_rw u = UIO_READ" and "tries \<le> 10"
  shows "\<exists>s'. sfs_rwblock_try tries u s =
     (if n \<le> 10 - tries then Inr ((Inr (), usend (d_media s b) u), mput (d_media s b) u s') else Inr ((Inl EIO, u), s')) \<and>
     d_media s' = d_media s"
  using assms
proof (induction n arbitrary: tries s)
  case 0
  then have "disk_ok s" by (simp add: disk_ok_def)
  from lhd_read_ok [OF this "0.prems"(3-6)] show ?case
    by (simp add: sfs_rwblock_try.simps) (metis rd_simps(9))
next
  case (Suc n)
  let ?s = "s\<lparr>lh_result := Some EIO, lhd_sect := b, lhd_stat := 0, d_replies := replicate n LHD_MEDIA\<rparr>"
  have io: "lhd_io u s = Inr ((Inl EIO, u), ?s)"
    by (rule lhd_read_media) (use Suc.prems in simp_all)
  show ?case
  proof (cases "tries < 10")
    case True
    have r: "uready ?s u 512" using Suc.prems(5) uready_cong [of ?s s] by simp
    have ok: "drv_ok ?s" using Suc.prems(1) by (simp add: drv_ok_def)
    have m: "d_media ?s = d_media s" "d_replies ?s = replicate n LHD_MEDIA" "d_blocks ?s = d_blocks s" by simp_all
    have "tries + 1 \<le> 10" using True by simp
    from Suc.IH [OF ok m(2) Suc.prems(3) _ r Suc.prems(6) this, unfolded m(1,3), OF Suc.prems(4)] obtain s' where
      s': "sfs_rwblock_try (tries + 1) u ?s =
       (if n \<le> 10 - (tries + 1) then Inr ((Inr (), usend (d_media s b) u), mput (d_media s b) u s') else Inr ((Inl EIO, u), s'))"
      "d_media s' = d_media s" by blast
    have "n \<le> 10 - (tries + 1) \<longleftrightarrow> Suc n \<le> 10 - tries" using True by auto
    with s' io True show ?thesis by (auto simp: sfs_rwblock_try.simps [of tries u s])
  next
    case False
    with Suc.prems(7) have "tries = 10" by simp
    with io show ?thesis by (simp add: sfs_rwblock_try.simps [of 10 u s])
  qed
qed

section \<open>Properties\<close>

text \<open>
  C29: \<^verbatim>\<open>sfs_rblock\<close> survives up to ten media errors in a row and then returns the contents of
  the block; after eleven it gives up with EIO.  It never changes the disk.
\<close>

theorem sfs_rblock_retries:
  assumes "drv_ok s" and "d_replies s = replicate n LHD_MEDIA" and "b < d_blocks s"
  shows "\<exists>s'. sfs_rblock b s = Inr (if n \<le> 10 then Inr (d_media s b) else Inl EIO, s') \<and> d_media s' = d_media s"
proof -
  have d: "b < 4194303" "length (d_media s b) = 512" using assms by (simp_all add: drv_ok_def)
  have r: "uready s (kblock (replicate 512 0) b UIO_READ) 512" by (rule kblock_ok) simp
  have "uio_rw (kblock (replicate 512 0) b UIO_READ) = UIO_READ" by (simp add: mk_kuio_def)
  from sfs_read_retries [OF assms(1,2) kblock_ok(2) assms(3) r this, of 0] obtain s' where
    s': "sfs_rwblock (kblock (replicate 512 0) b UIO_READ) s = (if n \<le> 10
       then Inr ((Inr (), usend (d_media s b) (kblock (replicate 512 0) b UIO_READ)), mput (d_media s b) (kblock (replicate 512 0) b UIO_READ) s')
       else Inr ((Inl EIO, kblock (replicate 512 0) b UIO_READ), s'))" "d_media s' = d_media s"
    by (auto simp: sfs_rwblock_def)
  show ?thesis
    by (rule exI [of _ s']) (use s' d in \<open>auto simp: sfs_rblock_def SFSUIO_ok mk_kuio_def mput_def patch_def kbind_def\<close>)
qed

definition ddemo :: "nat list \<Rightarrow> dsys" where
  "ddemo replies =
     \<lparr>us_cur = Some 1, us_vmspace = None, us_bytes = (\<lambda>_. 0), us_rd = (\<lambda>_. True), us_wr = (\<lambda>_. True), us_badfault = False,
      d_blocks = 16, d_blocksize = 512, lh_clear = 1, lh_done = 0, lh_result = None, lh_buf = replicate 512 0,
      lhd_sect = 0, lhd_stat = 0, d_media = (\<lambda>b. replicate 512 (word_of_nat b)), d_replies = replies\<rparr>"

theorem sfs_rblock_retries_witness:
  "(\<exists>s'. sfs_rblock 3 (ddemo (replicate 10 LHD_MEDIA)) = Inr (Inr (replicate 512 3), s')) \<and>
   (\<exists>s'. sfs_rblock 3 (ddemo (replicate 11 LHD_MEDIA)) = Inr (Inl EIO, s'))"
  using sfs_rblock_retries [of "ddemo (replicate 10 LHD_MEDIA)" 10 3] sfs_rblock_retries [of "ddemo (replicate 11 LHD_MEDIA)" 11 3]
  by (auto simp: ddemo_def drv_ok_def)

text \<open>
  C36: A write is not retried after a media error: the driver has consumed the data, so the
  second attempt transfers nothing.  \<^verbatim>\<open>sfs_wblock\<close> returns success and the block on the disk
  keeps its old contents.
\<close>

theorem sfs_wblock_retry_loses_data:
  assumes "drv_ok s" and "d_replies s = LHD_MEDIA # rs" and "b < d_blocks s" and "length bs = 512"
  shows "\<exists>s'. sfs_wblock bs b s = Inr (Inr (), s') \<and> d_media s' = d_media s"
proof -
  have d: "b < 4194303" "d_blocks s < 4194304" using assms by (simp_all add: drv_ok_def)
  let ?u = "kblock bs b UIO_WRITE"
  let ?s = "s\<lparr>lh_result := Some EIO, lh_buf := uget 512 ?u s, lhd_sect := b, lhd_stat := 0, d_replies := rs\<rparr>"
  have io: "lhd_io ?u s = Inr ((Inl EIO, uskip 512 ?u), ?s)"
    by (rule lhd_write_media [OF assms(1,2) kblock_ok(2) assms(3) kblock_ok(1) [OF assms(4)]]) (simp add: mk_kuio_def)
  have "uio_offset (uskip 512 ?u) = int (b + 1) * 512" "uio_resid (uskip 512 ?u) = 0" by (simp_all add: mk_kuio_def)
  then have "lhd_io (uskip 512 ?u) ?s = Inr ((Inr (), uskip 512 ?u), ?s)"
    using d assms(3) by (simp add: lhd_io_def c_quot_nonneg c_rem_nonneg lhd_io_loop.simps del: of_nat_add of_nat_Suc)
  with io show ?thesis
    using d by (simp add: sfs_wblock_def SFSUIO_ok sfs_rwblock_def sfs_rwblock_try.simps [of 0] sfs_rwblock_try.simps [of "Suc 0"])
qed

theorem sfs_wblock_retry_loses_data_witness:
  "\<exists>s'. sfs_wblock (replicate 512 9) 3 (ddemo [LHD_MEDIA]) = Inr (Inr (), s') \<and> d_media s' 3 = replicate 512 3"
  using sfs_wblock_retry_loses_data [of "ddemo [LHD_MEDIA]" "[]" 3 "replicate 512 9"] by (auto simp: ddemo_def drv_ok_def)

end
