(* ===== verification/Sfs_Format.thy ===== *)
theory Sfs_Format
  imports Disk
begin

text \<open>
  The on-disk structures of \<^verbatim>\<open>kern/include/kern/sfs.h\<close>: superblock, inode, directory entry
  and indirect block, as records and as the bytes they occupy.  Numbers are stored in the byte
  order of the machine, the most significant byte first.  The kernel reads a block straight
  into the struct and writes the struct back, which here is decoding and encoding.
\<close>

section \<open>Model\<close>

abbreviation SFS_MAGIC :: nat where "SFS_MAGIC \<equiv> 2880303105"
abbreviation SFS_NDIRECT :: nat where "SFS_NDIRECT \<equiv> 15"
abbreviation SFS_DBPERIDB :: nat where "SFS_DBPERIDB \<equiv> 128"
abbreviation SFS_NAMELEN :: nat where "SFS_NAMELEN \<equiv> 60"
abbreviation SFS_VOLNAME_SIZE :: nat where "SFS_VOLNAME_SIZE \<equiv> 32"
abbreviation SFS_SB_LOCATION :: nat where "SFS_SB_LOCATION \<equiv> 0"
abbreviation SFS_ROOT_LOCATION :: nat where "SFS_ROOT_LOCATION \<equiv> 1"
abbreviation SFS_MAP_LOCATION :: nat where "SFS_MAP_LOCATION \<equiv> 2"
abbreviation SFS_NOINO :: nat where "SFS_NOINO \<equiv> 0"
abbreviation SFS_TYPE_INVAL :: nat where "SFS_TYPE_INVAL \<equiv> 0"
abbreviation SFS_TYPE_FILE :: nat where "SFS_TYPE_FILE \<equiv> 1"
abbreviation SFS_TYPE_DIR :: nat where "SFS_TYPE_DIR \<equiv> 2"
abbreviation SFS_BLOCKBITS :: nat where "SFS_BLOCKBITS \<equiv> 4096"
abbreviation DIRENT_SIZE :: nat where "DIRENT_SIZE \<equiv> 64"

definition SFS_BITMAPSIZE :: "nat \<Rightarrow> nat" where
  "SFS_BITMAPSIZE nblocks =
     (((nblocks + SFS_BLOCKBITS - 1) mod 4294967296) div SFS_BLOCKBITS) * SFS_BLOCKBITS"

definition SFS_BITBLOCKS :: "nat \<Rightarrow> nat" where
  "SFS_BITBLOCKS nblocks = SFS_BITMAPSIZE nblocks div SFS_BLOCKBITS"

definition enc16 :: "nat \<Rightarrow> byte list" where
  "enc16 n = [word_of_nat (n div 256), word_of_nat n]"

definition enc32 :: "nat \<Rightarrow> byte list" where
  "enc32 n = [word_of_nat (n div 16777216), word_of_nat (n div 65536), word_of_nat (n div 256), word_of_nat n]"

definition dec_be :: "byte list \<Rightarrow> nat" where
  "dec_be bs = foldl (\<lambda>a b. a * 256 + unat b) 0 bs"

definition enc32s :: "nat list \<Rightarrow> byte list" where
  "enc32s ns = concat (map enc32 ns)"

fun dec32s :: "nat \<Rightarrow> byte list \<Rightarrow> nat list" where
  "dec32s 0 bs = []"
| "dec32s (Suc n) bs = dec_be (take 4 bs) # dec32s n (drop 4 bs)"

record sfs_super =
  sp_magic :: nat
  sp_nblocks :: nat
  sp_volname :: "byte list"
  sp_reserved :: "nat list"

record sfs_inode =
  sfi_size :: nat
  sfi_type :: nat
  sfi_linkcount :: nat
  sfi_direct :: "nat list"
  sfi_indirect :: nat
  sfi_waste :: "nat list"

record sfs_dir =
  sfd_ino :: nat
  sfd_name :: "byte list"

definition enc_super :: "sfs_super \<Rightarrow> byte list" where
  "enc_super sp =
     enc32 (sp_magic sp) @ enc32 (sp_nblocks sp) @ sp_volname sp @ enc32s (sp_reserved sp)"

definition dec_super :: "byte list \<Rightarrow> sfs_super" where
  "dec_super bs =
     \<lparr>sp_magic = dec_be (take 4 bs), sp_nblocks = dec_be (take 4 (drop 4 bs)),
      sp_volname = take SFS_VOLNAME_SIZE (drop 8 bs), sp_reserved = dec32s 118 (drop 40 bs)\<rparr>"

definition enc_inode :: "sfs_inode \<Rightarrow> byte list" where
  "enc_inode i =
     enc32 (sfi_size i) @ enc16 (sfi_type i) @ enc16 (sfi_linkcount i) @
     enc32s (sfi_direct i) @ enc32 (sfi_indirect i) @ enc32s (sfi_waste i)"

definition dec_inode :: "byte list \<Rightarrow> sfs_inode" where
  "dec_inode bs =
     \<lparr>sfi_size = dec_be (take 4 bs), sfi_type = dec_be (take 2 (drop 4 bs)),
      sfi_linkcount = dec_be (take 2 (drop 6 bs)), sfi_direct = dec32s SFS_NDIRECT (drop 8 bs),
      sfi_indirect = dec_be (take 4 (drop 68 bs)), sfi_waste = dec32s 110 (drop 72 bs)\<rparr>"

definition enc_dir :: "sfs_dir \<Rightarrow> byte list" where
  "enc_dir sd = enc32 (sfd_ino sd) @ sfd_name sd"

definition dec_dir :: "byte list \<Rightarrow> sfs_dir" where
  "dec_dir bs = \<lparr>sfd_ino = dec_be (take 4 bs), sfd_name = take SFS_NAMELEN (drop 4 bs)\<rparr>"

text \<open>The structs whose fields fit their C types.\<close>

definition u32 :: "nat \<Rightarrow> bool" where
  "u32 n \<longleftrightarrow> n < 4294967296"

definition u16 :: "nat \<Rightarrow> bool" where
  "u16 n \<longleftrightarrow> n < 65536"

definition super_ok :: "sfs_super \<Rightarrow> bool" where
  "super_ok sp \<longleftrightarrow> u32 (sp_magic sp) \<and> u32 (sp_nblocks sp) \<and>
     length (sp_volname sp) = SFS_VOLNAME_SIZE \<and> length (sp_reserved sp) = 118 \<and> list_all u32 (sp_reserved sp)"

definition inode_ok :: "sfs_inode \<Rightarrow> bool" where
  "inode_ok i \<longleftrightarrow> u32 (sfi_size i) \<and> u16 (sfi_type i) \<and> u16 (sfi_linkcount i) \<and>
     length (sfi_direct i) = SFS_NDIRECT \<and> list_all u32 (sfi_direct i) \<and> u32 (sfi_indirect i) \<and>
     length (sfi_waste i) = 110 \<and> list_all u32 (sfi_waste i)"

definition dir_ok :: "sfs_dir \<Rightarrow> bool" where
  "dir_ok sd \<longleftrightarrow> u32 (sfd_ino sd) \<and> length (sfd_name sd) = SFS_NAMELEN"

section \<open>Lemmas\<close>

lemma dec_be_Nil [simp]: "dec_be [] = 0"
  by (simp add: dec_be_def)

lemma unat_byte: "unat (b :: byte) < 256"
  using unsigned_less [of b] by simp

lemma unat_byte_of_nat [simp]: "unat (word_of_nat n :: byte) = n mod 256"
  by (simp add: unat_of_nat)

lemma length_enc [simp]: "length (enc16 n) = 2" "length (enc32 n) = 4"
  by (simp_all add: enc16_def enc32_def)

lemma dec_enc16 [simp]: "u16 n \<Longrightarrow> dec_be (enc16 n) = n"
  by (simp add: u16_def dec_be_def enc16_def)

lemma dec_enc32 [simp]:
  assumes "u32 n"
  shows "dec_be (enc32 n) = n"
proof -
  have "n div 16777216 mod 256 = n div 16777216" using assms by (simp add: u32_def)
  moreover have "n div 65536 = n div 16777216 * 256 + n div 65536 mod 256"
    using div_mult_mod_eq [of "n div 65536" 256] by (simp add: div_mult2_eq [symmetric])
  moreover have "n div 256 = n div 65536 * 256 + n div 256 mod 256"
    using div_mult_mod_eq [of "n div 256" 256] by (simp add: div_mult2_eq [symmetric])
  moreover have "n = n div 256 * 256 + n mod 256" by simp
  ultimately show ?thesis by (simp add: dec_be_def enc32_def)
qed

lemma byte_of_dec: "(word_of_nat (a * 256 + unat b) :: byte) = b"
proof -
  have "unat (word_of_nat (a * 256 + unat b) :: byte) = unat b"
    using unat_byte [of b] by (simp only: unat_byte_of_nat) simp
  then show ?thesis by (simp only: word_unat_eq_iff)
qed

lemma list4: "length bs = 4 \<Longrightarrow> \<exists>a b c d. bs = [a, b, c, d]"
  by (auto simp: numeral_eq_Suc length_Suc_conv)

lemma list2: "length bs = 2 \<Longrightarrow> \<exists>a b. bs = [a, b]"
  by (auto simp: numeral_eq_Suc length_Suc_conv)

lemma enc_dec32 [simp]:
  assumes "length bs = 4"
  shows "enc32 (dec_be bs) = bs"
proof -
  obtain a b c d where bs: "bs = [a, b, c, d]" using list4 [OF assms] by blast
  define x where "x = unat a * 256 + unat b"
  define y where "y = x * 256 + unat c"
  have q: "(m * 256 + unat w) div 256 = m" for m and w :: byte using unat_byte [of w] by simp
  have n: "dec_be bs = y * 256 + unat d" by (simp add: bs dec_be_def x_def y_def)
  have "dec_be bs div 256 = y" "dec_be bs div 65536 = x" "dec_be bs div 16777216 = unat a"
    using q [of y d] q [of x c] q [of "unat a" b]
    by (simp_all add: n y_def x_def div_mult2_eq [of _ 256 256, simplified] div_mult2_eq [of _ 65536 256, simplified])
  moreover have "word_of_nat (dec_be bs) = d" "word_of_nat y = c" "word_of_nat x = b"
    by (simp_all only: n y_def x_def byte_of_dec)
  ultimately have "enc32 (dec_be bs) = [a, b, c, d]" by (simp add: enc32_def)
  then show ?thesis by (simp only: bs)
qed

lemma enc_dec16 [simp]:
  assumes "length bs = 2"
  shows "enc16 (dec_be bs) = bs"
proof -
  obtain a b where bs: "bs = [a, b]" using list2 [OF assms] by blast
  have "dec_be bs = unat a * 256 + unat b" by (simp add: bs dec_be_def)
  moreover have "(unat a * 256 + unat b) div 256 = unat a" using unat_byte [of b] by simp
  ultimately show ?thesis using byte_of_dec [of "unat a" b] by (simp add: enc16_def bs)
qed

lemma dec_be_u32:
  assumes "length bs = 4"
  shows "u32 (dec_be bs)"
proof -
  obtain a b c d where "bs = [a, b, c, d]" using list4 [OF assms] by blast
  then show ?thesis using unat_byte [of a] unat_byte [of b] unat_byte [of c] unat_byte [of d]
    by (simp add: dec_be_def u32_def)
qed

lemma dec_be_u16:
  assumes "length bs = 2"
  shows "u16 (dec_be bs)"
proof -
  obtain a b where "bs = [a, b]" using list2 [OF assms] by blast
  then show ?thesis using unat_byte [of a] unat_byte [of b] by (simp add: dec_be_def u16_def)
qed

lemma length_enc32s [simp]: "length (enc32s ns) = 4 * length ns"
  by (induction ns) (simp_all add: enc32s_def)

lemma length_dec32s [simp]: "length (dec32s n bs) = n"
  by (induction n arbitrary: bs) simp_all

lemma enc32s_Cons [simp]: "enc32s [] = []" "enc32s (n # ns) = enc32 n @ enc32s ns"
  by (simp_all add: enc32s_def)

lemma dec_enc32s: "list_all u32 ns \<Longrightarrow> dec32s (length ns) (enc32s ns @ bs) = ns"
  by (induction ns) simp_all

lemma enc_dec32s: "length bs = 4 * n \<Longrightarrow> enc32s (dec32s n bs) = bs"
  by (induction n arbitrary: bs) simp_all

lemma enc_dec32s_take: "4 * n \<le> length bs \<Longrightarrow> enc32s (dec32s n bs) = take (4 * n) bs"
proof (induction n arbitrary: bs)
  case (Suc n)
  then have "take (4 * Suc n) bs = take 4 bs @ take (4 * n) (drop 4 bs)"
    by (metis mult_Suc_right take_add)
  with Suc show ?case by simp
qed simp

lemma dec32s_u32: "4 * n \<le> length bs \<Longrightarrow> list_all u32 (dec32s n bs)"
  by (induction n arbitrary: bs) (simp_all add: dec_be_u32)

lemma nth_dec32s_u32: "4 * n \<le> length bs \<Longrightarrow> i < n \<Longrightarrow> u32 (dec32s n bs ! i)"
  using dec32s_u32 [of n bs] by (simp add: list_all_length)

lemma dec_enc_super: "super_ok sp \<Longrightarrow> dec_super (enc_super sp) = sp"
  using dec_enc32s [of "sp_reserved sp" "[]"] by (cases sp) (simp add: super_ok_def dec_super_def enc_super_def)

lemma dec_enc_inode: "inode_ok i \<Longrightarrow> dec_inode (enc_inode i) = i"
  using dec_enc32s [of "sfi_waste i" "[]"] dec_enc32s [of "sfi_direct i" "enc32 (sfi_indirect i) @ enc32s (sfi_waste i)"]
  by (cases i) (simp add: inode_ok_def dec_inode_def enc_inode_def)

lemma dec_enc_dir: "dir_ok sd \<Longrightarrow> dec_dir (enc_dir sd) = sd"
  by (cases sd) (simp add: dir_ok_def dec_dir_def enc_dir_def)

lemma length_enc_inode: "inode_ok i \<Longrightarrow> length (enc_inode i) = 512"
  by (simp add: inode_ok_def enc_inode_def)

lemma length_enc_dir: "dir_ok sd \<Longrightarrow> length (enc_dir sd) = 64"
  by (simp add: dir_ok_def enc_dir_def)

lemma length_enc_super: "super_ok sp \<Longrightarrow> length (enc_super sp) = 512"
  by (simp add: super_ok_def enc_super_def)

lemma take_split: "take n xs @ take m (drop n xs) = take (n + m) xs"
  by (simp add: take_add)

lemma enc_dec_inode:
  assumes "length bs = 512"
  shows "enc_inode (dec_inode bs) = bs"
proof -
  have "enc_inode (dec_inode bs) = take 4 bs @ take 2 (drop 4 bs) @ take 2 (drop 6 bs) @
      take 60 (drop 8 bs) @ take 4 (drop 68 bs) @ take 440 (drop 72 bs)"
    using assms by (simp add: enc_inode_def dec_inode_def enc_dec32s_take)
  also have "\<dots> = bs"
    using assms take_split [of 4 bs 2] take_split [of 6 bs 2] take_split [of 8 bs 60] take_split [of 68 bs 4]
    by (simp add: append_assoc [symmetric] del: append_assoc)
  finally show ?thesis .
qed

lemma enc_dec_dir:
  assumes "length bs = 64"
  shows "enc_dir (dec_dir bs) = bs"
  using assms by (simp add: enc_dir_def dec_dir_def)

lemma dec_inode_ok: "length bs = 512 \<Longrightarrow> inode_ok (dec_inode bs)"
  by (simp add: inode_ok_def dec_inode_def dec_be_u32 dec_be_u16 dec32s_u32)

lemma dec_dir_ok: "length bs = 64 \<Longrightarrow> dir_ok (dec_dir bs)"
  by (simp add: dir_ok_def dec_dir_def dec_be_u32)

section \<open>Properties\<close>



end
