(* ===== verification/Sfs.thy ===== *)
theory Sfs
  imports Sfs_Format Bitmap_Lib Array_Lib Lock_View
begin

text \<open>
  The file system of \<^verbatim>\<open>kern/fs/sfs\<close> and the reference counts of
  \<^verbatim>\<open>kern/fs/vfs/vnode.c\<close>.  The state is one mounted volume on its disk: the superblock, the
  free block bitmap, the array of loaded vnodes and the vnode structs themselves.  \<open>k_mem\<close> are the
  outcomes of the next requests to \<^verbatim>\<open>kmalloc\<close>; an empty list stands for success from then on.
  A file name is the bytes of the C string before its terminator.
\<close>

section \<open>Model\<close>

datatype sfs_ops = SfsFile | SfsDir

record sfs_vnode =
  vn_refcount :: int
  vn_opencount :: int
  vn_countlock :: klock
  vn_ops :: sfs_ops
  sv_i :: sfs_inode
  sv_ino :: nat
  sv_dirty :: bool

record fsys = dsys +
  sfs_live :: bool
  sfs_super :: sfs_super
  sfs_superdirty :: bool
  sfs_vnodes :: "nat array"
  sfs_freemap :: bitmap
  sfs_freemapdirty :: bool
  sv_heap :: "nat \<Rightarrow> sfs_vnode option"
  sv_next :: nat
  k_mem :: "bool list"

definition kalloc :: "('z fsys_scheme, bool) kern" where
  "kalloc s = (case k_mem s of [] \<Rightarrow> Inr (True, s) | b # bs \<Rightarrow> Inr (b, s\<lparr>k_mem := bs\<rparr>))"

definition sv_get :: "nat \<Rightarrow> ('z fsys_scheme, sfs_vnode) kern" where
  "sv_get v s = (case sv_heap s v of None \<Rightarrow> Inl BadPtr | Some sv \<Rightarrow> Inr (sv, s))"

definition sv_mod :: "nat \<Rightarrow> (sfs_vnode \<Rightarrow> sfs_vnode) \<Rightarrow> ('z fsys_scheme, unit) kern" where
  "sv_mod v f s =
     (case sv_heap s v of
        None \<Rightarrow> Inl BadPtr
      | Some sv \<Rightarrow> Inr ((), s\<lparr>sv_heap := (sv_heap s)(v \<mapsto> f sv)\<rparr>))"

definition sv_imod :: "nat \<Rightarrow> (sfs_inode \<Rightarrow> sfs_inode) \<Rightarrow> ('z fsys_scheme, unit) kern" where
  "sv_imod v f = sv_mod v (\<lambda>sv. sv\<lparr>sv_i := f (sv_i sv), sv_dirty := True\<rparr>)"

definition on_freemap :: "(bitmap, 'a) kern \<Rightarrow> ('z fsys_scheme, 'a) kern" where
  "on_freemap = kzoom sfs_freemap (\<lambda>b s. s\<lparr>sfs_freemap := b\<rparr>)"

definition on_vnodes :: "(nat array, 'a) kern \<Rightarrow> ('z fsys_scheme, 'a) kern" where
  "on_vnodes = kzoom sfs_vnodes (\<lambda>a s. s\<lparr>sfs_vnodes := a\<rparr>)"

text \<open>Steps that carry a descriptor along, until one of them fails.\<close>

definition kthen ::
  "('s, (errno + unit) \<times> uio) kern \<Rightarrow> (uio \<Rightarrow> ('s, (errno + unit) \<times> uio) kern) \<Rightarrow>
     ('s, (errno + unit) \<times> uio) kern" where
  "kthen m f = kbind m (\<lambda>(r, u). case r of Inl e \<Rightarrow> kret (Inl e, u) | Inr _ \<Rightarrow> f u)"

subsection \<open>Blocks and inodes\<close>

definition sfs_clearblock :: "nat \<Rightarrow> ('z fsys_scheme, errno + unit) kern" where
  "sfs_clearblock block = sfs_wblock (replicate SFS_BLOCKSIZE 0) block"

definition sfs_sync_inode :: "nat \<Rightarrow> ('z fsys_scheme, errno + unit) kern" where
  "sfs_sync_inode v =
     kbind (sv_get v) (\<lambda>sv.
     if sv_dirty sv then
       kbindE (sfs_wblock (enc_inode (sv_i sv)) (sv_ino sv)) (\<lambda>_.
       kbind (sv_mod v (\<lambda>sv. sv\<lparr>sv_dirty := False\<rparr>)) (\<lambda>_.
       kret (Inr ())))
     else kret (Inr ()))"

definition sfs_balloc :: "('z fsys_scheme, errno + nat) kern" where
  "sfs_balloc =
     kbindE (on_freemap bitmap_alloc) (\<lambda>diskblock.
     kbind (kmod (\<lambda>s. s\<lparr>sfs_freemapdirty := True\<rparr>)) (\<lambda>_.
     kbind (kget (\<lambda>s. sp_nblocks (sfs_super s))) (\<lambda>n.
     if diskblock \<ge> n then khalt PanicCall
     else kbindE (sfs_clearblock diskblock) (\<lambda>_. kret (Inr diskblock)))))"

definition sfs_bfree :: "nat \<Rightarrow> ('z fsys_scheme, unit) kern" where
  "sfs_bfree diskblock =
     kbind (on_freemap (bitmap_unmark diskblock)) (\<lambda>_.
     kmod (\<lambda>s. s\<lparr>sfs_freemapdirty := True\<rparr>))"

definition sfs_bused :: "nat \<Rightarrow> ('z fsys_scheme, bool) kern" where
  "sfs_bused diskblock s =
     (if diskblock \<ge> sp_nblocks (sfs_super s) then Inl PanicCall
      else case bitmap_isset diskblock (sfs_freemap s) of Inl h \<Rightarrow> Inl h | Inr b \<Rightarrow> Inr (b, s))"

definition bmap_hand_back :: "nat \<Rightarrow> ('z fsys_scheme, errno + nat) kern" where
  "bmap_hand_back block =
     (if block \<noteq> 0
      then kbind (sfs_bused block) (\<lambda>used. if used then kret (Inr block) else khalt PanicCall)
      else kret (Inr block))"

definition sfs_bmap :: "nat \<Rightarrow> nat \<Rightarrow> bool \<Rightarrow> ('z fsys_scheme, errno + nat) kern" where
  "sfs_bmap v fileblock doalloc =
     kbind (sv_get v) (\<lambda>sv.
     if fileblock < SFS_NDIRECT then
       (let block = sfi_direct (sv_i sv) ! fileblock in
        kbindE
          (if block = 0 \<and> doalloc then
             kbindE sfs_balloc (\<lambda>block.
             kbind (sv_imod v (\<lambda>i. i\<lparr>sfi_direct := (sfi_direct i)[fileblock := block]\<rparr>)) (\<lambda>_.
             kret (Inr block)))
           else kret (Inr block))
          bmap_hand_back)
     else
       (let idnum = (fileblock - SFS_NDIRECT) div SFS_DBPERIDB;
            idoff = (fileblock - SFS_NDIRECT) mod SFS_DBPERIDB;
            idblock = sfi_indirect (sv_i sv)
        in
        if idnum > 0 then kret (Inl EINVAL)
        else if idblock = 0 \<and> \<not> doalloc then kret (Inr 0)
        else
          kbindE
            (if idblock = 0 then
               kbindE sfs_balloc (\<lambda>idblock.
               kbind (sv_imod v (\<lambda>i. i\<lparr>sfi_indirect := idblock\<rparr>)) (\<lambda>_.
               kret (Inr (idblock, replicate SFS_DBPERIDB 0))))
             else
               kbindE (sfs_rblock idblock) (\<lambda>bs. kret (Inr (idblock, dec32s SFS_DBPERIDB bs))))
            (\<lambda>(idblock, idbuf).
             let block = idbuf ! idoff in
             kbindE
               (if block = 0 \<and> doalloc then
                  kbindE sfs_balloc (\<lambda>block.
                  kbindE (sfs_wblock (enc32s (idbuf[idoff := block])) idblock) (\<lambda>_.
                  kret (Inr block)))
                else kret (Inr block))
               bmap_hand_back)))"

subsection \<open>File input and output\<close>

definition sfs_partialio ::
  "nat \<Rightarrow> uio \<Rightarrow> nat \<Rightarrow> nat \<Rightarrow> ('z fsys_scheme, (errno + unit) \<times> uio) kern" where
  "sfs_partialio v u skipstart len =
     (let doalloc = (uio_rw u = UIO_WRITE);
          fileblock = to_u32 (c_quot (uio_offset u) (int SFS_BLOCKSIZE))
      in
      kbind (kassert ((skipstart + len) mod 4294967296 \<le> SFS_BLOCKSIZE)) (\<lambda>_.
      kbind (sfs_bmap v fileblock doalloc) (\<lambda>r.
      case r of
        Inl e \<Rightarrow> kret (Inl e, u)
      | Inr diskblock \<Rightarrow>
          kbind (if diskblock = 0
                 then kbind (kassert (uio_rw u = UIO_READ)) (\<lambda>_. kret (Inr (replicate SFS_BLOCKSIZE 0)))
                 else sfs_rblock diskblock) (\<lambda>r.
          case r of
            Inl e \<Rightarrow> kret (Inl e, u)
          | Inr iobuf \<Rightarrow>
              kbind (uiomove skipstart iobuf len u) (\<lambda>(r, iobuf', u').
              case r of
                Inl e \<Rightarrow> kret (Inl e, u')
              | Inr _ \<Rightarrow>
                  if uio_rw u' = UIO_WRITE
                  then kbind (sfs_wblock iobuf' diskblock) (\<lambda>r. kret (r, u'))
                  else kret (Inr (), u'))))))"

definition sfs_blockio :: "nat \<Rightarrow> uio \<Rightarrow> ('z fsys_scheme, (errno + unit) \<times> uio) kern" where
  "sfs_blockio v u =
     (let doalloc = (uio_rw u = UIO_WRITE);
          fileblock = to_u32 (c_quot (uio_offset u) (int SFS_BLOCKSIZE))
      in
      kbind (sfs_bmap v fileblock doalloc) (\<lambda>r.
      case r of
        Inl e \<Rightarrow> kret (Inl e, u)
      | Inr diskblock \<Rightarrow>
          if diskblock = 0 then
            kbind (kassert (uio_rw u = UIO_READ)) (\<lambda>_. uiomovezeros SFS_BLOCKSIZE u)
          else
            (let saveoff = uio_offset u;
                 diskoff = to_off (int (diskblock * SFS_BLOCKSIZE mod 4294967296));
                 saveres = to_off (int (uio_resid u));
                 diskres = int SFS_BLOCKSIZE
             in
             kbind (kassert (uio_resid u \<ge> SFS_BLOCKSIZE)) (\<lambda>_.
             kbind (sfs_rwblock (u\<lparr>uio_offset := diskoff, uio_resid := SFS_BLOCKSIZE\<rparr>)) (\<lambda>(r, u').
             kret (r, u'\<lparr>uio_offset := to_off (uio_offset u' - diskoff + saveoff),
                        uio_resid := to_u32 (int (uio_resid u') - diskres + saveres)\<rparr>))))))"

fun sfs_io_blocks :: "nat \<Rightarrow> nat \<Rightarrow> uio \<Rightarrow> ('z fsys_scheme, (errno + unit) \<times> uio) kern" where
  "sfs_io_blocks v 0 u = kret (Inr (), u)"
| "sfs_io_blocks v (Suc n) u = kthen (sfs_blockio v u) (sfs_io_blocks v n)"

text \<open>The part of \<^verbatim>\<open>sfs_io\<close> before the label \<^verbatim>\<open>out\<close>, and the part after it.\<close>

definition sfs_io_aligned :: "nat \<Rightarrow> uio \<Rightarrow> ('z fsys_scheme, (errno + unit) \<times> uio) kern" where
  "sfs_io_aligned v u =
     (if uio_resid u = 0 then kret (Inr (), u)
      else
        kbind (kassert (c_rem (uio_offset u) (int SFS_BLOCKSIZE) = 0)) (\<lambda>_.
        kthen (sfs_io_blocks v (uio_resid u div SFS_BLOCKSIZE) u) (\<lambda>u.
        kbind (kassert (uio_resid u < SFS_BLOCKSIZE)) (\<lambda>_.
        if uio_resid u > 0 then sfs_partialio v u 0 (uio_resid u) else kret (Inr (), u)))))"

definition sfs_io_body :: "nat \<Rightarrow> uio \<Rightarrow> ('z fsys_scheme, (errno + unit) \<times> uio) kern" where
  "sfs_io_body v u =
     (let blkoff = to_u32 (c_rem (uio_offset u) (int SFS_BLOCKSIZE)) in
      if blkoff \<noteq> 0 then
        (let len = (SFS_BLOCKSIZE + 4294967296 - blkoff) mod 4294967296;
             len = (if len > uio_resid u then uio_resid u else len)
         in kthen (sfs_partialio v u blkoff len) (sfs_io_aligned v))
      else sfs_io_aligned v u)"

definition sfs_io_out ::
  "nat \<Rightarrow> nat \<Rightarrow> (errno + unit) \<times> uio \<Rightarrow> ('z fsys_scheme, (errno + unit) \<times> uio) kern" where
  "sfs_io_out v extraresid ru =
     (case ru of (r, u) \<Rightarrow>
      kbind (sv_get v) (\<lambda>sv.
      kbind (if uio_rw u = UIO_WRITE \<and> uio_offset u > to_off (int (sfi_size (sv_i sv)))
             then sv_imod v (\<lambda>i. i\<lparr>sfi_size := to_u32 (uio_offset u)\<rparr>)
             else kret ()) (\<lambda>_.
      kret (r, u\<lparr>uio_resid := (uio_resid u + extraresid) mod 4294967296\<rparr>))))"

definition sfs_io :: "nat \<Rightarrow> uio \<Rightarrow> ('z fsys_scheme, (errno + unit) \<times> uio) kern" where
  "sfs_io v u =
     kbind (sv_get v) (\<lambda>sv.
     let sz = to_off (int (sfi_size (sv_i sv)));
         endpos = to_off (uio_offset u + int (uio_resid u))
     in
     if uio_rw u = UIO_READ \<and> uio_offset u \<ge> sz then kret (Inr (), u)
     else if uio_rw u = UIO_READ \<and> endpos > sz then
       (let extraresid = to_u32 (endpos - sz) in
        kbind (kassert (uio_resid u > extraresid)) (\<lambda>_.
        kbind (sfs_io_body v (u\<lparr>uio_resid := uio_resid u - extraresid\<rparr>)) (sfs_io_out v extraresid)))
     else kbind (sfs_io_body v u) (sfs_io_out v 0))"

subsection \<open>Directories\<close>

definition cstr :: "byte list \<Rightarrow> byte list" where
  "cstr bs = takeWhile (\<lambda>b. b \<noteq> 0) bs"

definition sfs_readdir :: "nat \<Rightarrow> nat \<Rightarrow> ('z fsys_scheme, errno + sfs_dir) kern" where
  "sfs_readdir v slot =
     (let actualpos = to_off (int (slot * DIRENT_SIZE));
          ku = mk_kuio (Some (replicate DIRENT_SIZE 0)) 0 DIRENT_SIZE actualpos UIO_READ
      in
      kbind (sfs_io v ku) (\<lambda>(r, ku').
      case r of
        Inl e \<Rightarrow> kret (Inl e)
      | Inr _ \<Rightarrow>
          if uio_resid ku' > 0 then khalt PanicCall
          else (case iov_obj ku' of None \<Rightarrow> khalt BadPtr | Some obj \<Rightarrow> kret (Inr (dec_dir obj)))))"

definition sfs_writedir :: "nat \<Rightarrow> sfs_dir \<Rightarrow> nat \<Rightarrow> ('z fsys_scheme, errno + unit) kern" where
  "sfs_writedir v sd slot =
     (let actualpos = to_off (int (slot * DIRENT_SIZE));
          ku = mk_kuio (Some (enc_dir sd)) 0 DIRENT_SIZE actualpos UIO_WRITE
      in
      kbind (sfs_io v ku) (\<lambda>(r, ku').
      case r of
        Inl e \<Rightarrow> kret (Inl e)
      | Inr _ \<Rightarrow> if uio_resid ku' > 0 then khalt PanicCall else kret (Inr ())))"

definition sfs_dir_nentries :: "nat \<Rightarrow> ('z fsys_scheme, nat) kern" where
  "sfs_dir_nentries v =
     kbind (sv_get v) (\<lambda>sv.
     kbind (kassert (sfi_type (sv_i sv) = SFS_TYPE_DIR)) (\<lambda>_.
     if sfi_size (sv_i sv) mod DIRENT_SIZE \<noteq> 0 then khalt PanicCall
     else kret (sfi_size (sv_i sv) div DIRENT_SIZE)))"

text \<open>
  The loop of \<^verbatim>\<open>sfs_dir_findname\<close> over the slots \<open>is\<close>; it carries the inode number and slot
  of the match and the last free slot it saw.
\<close>

fun findname_loop ::
  "nat \<Rightarrow> byte list \<Rightarrow> nat list \<Rightarrow> (nat \<times> nat) option \<Rightarrow> nat option \<Rightarrow>
     ('z fsys_scheme, (errno + nat \<times> nat) \<times> nat option) kern" where
  "findname_loop v name [] found emptyslot =
     kret (case found of None \<Rightarrow> Inl ENOENT | Some x \<Rightarrow> Inr x, emptyslot)"
| "findname_loop v name (i # is) found emptyslot =
     kbind (sfs_readdir v i) (\<lambda>r.
     case r of
       Inl e \<Rightarrow> kret (Inl e, emptyslot)
     | Inr tsd \<Rightarrow>
         if sfd_ino tsd = SFS_NOINO then findname_loop v name is found (Some i)
         else if cstr (take (SFS_NAMELEN - 1) (sfd_name tsd)) = name then
           kbind (kassert (found = None)) (\<lambda>_.
           findname_loop v name is (Some (sfd_ino tsd, i)) emptyslot)
         else findname_loop v name is found emptyslot)"

definition sfs_dir_findname ::
  "nat \<Rightarrow> byte list \<Rightarrow> ('z fsys_scheme, (errno + nat \<times> nat) \<times> nat option) kern" where
  "sfs_dir_findname v name =
     kbind (sfs_dir_nentries v) (\<lambda>n. findname_loop v name [0..<n] None None)"

definition sfs_dir_link :: "nat \<Rightarrow> byte list \<Rightarrow> nat \<Rightarrow> ('z fsys_scheme, errno + nat) kern" where
  "sfs_dir_link v name ino =
     kbind (sfs_dir_findname v name) (\<lambda>(r, emptyslot).
     case r of
       Inr _ \<Rightarrow> kret (Inl EEXIST)
     | Inl e \<Rightarrow>
         if e \<noteq> ENOENT then kret (Inl e)
         else if length name + 1 > SFS_NAMELEN then kret (Inl ENAMETOOLONG)
         else
           kbind (case emptyslot of Some i \<Rightarrow> kret i | None \<Rightarrow> sfs_dir_nentries v) (\<lambda>slot.
           kbindE (sfs_writedir v
                     \<lparr>sfd_ino = ino, sfd_name = name @ replicate (SFS_NAMELEN - length name) 0\<rparr> slot) (\<lambda>_.
           kret (Inr slot))))"

definition sfs_dir_unlink :: "nat \<Rightarrow> nat \<Rightarrow> ('z fsys_scheme, errno + unit) kern" where
  "sfs_dir_unlink v slot =
     sfs_writedir v \<lparr>sfd_ino = SFS_NOINO, sfd_name = replicate SFS_NAMELEN 0\<rparr> slot"

subsection \<open>Vnode counts\<close>

definition vn_acquire :: "nat \<Rightarrow> ('z fsys_scheme, unit) kern" where
  "vn_acquire v =
     kbind (sv_get v) (\<lambda>sv.
     kbind (kget us_cur) (\<lambda>cur.
     case lock_acquire cur (vn_countlock sv) of
       Inl h \<Rightarrow> khalt h
     | Inr (_, l) \<Rightarrow> sv_mod v (\<lambda>sv. sv\<lparr>vn_countlock := l\<rparr>)))"

definition vn_release :: "nat \<Rightarrow> ('z fsys_scheme, unit) kern" where
  "vn_release v =
     kbind (sv_get v) (\<lambda>sv.
     kbind (kget us_cur) (\<lambda>cur.
     case lock_release cur (vn_countlock sv) of
       Inl h \<Rightarrow> khalt h
     | Inr (_, l) \<Rightarrow> sv_mod v (\<lambda>sv. sv\<lparr>vn_countlock := l\<rparr>)))"

definition vnode_init :: "nat \<Rightarrow> sfs_ops \<Rightarrow> ('z fsys_scheme, errno + unit) kern" where
  "vnode_init v ops =
     kbind (sv_mod v (\<lambda>sv. sv\<lparr>vn_ops := ops, vn_refcount := 1, vn_opencount := 0\<rparr>)) (\<lambda>_.
     kbind kalloc (\<lambda>ok.
     if \<not> ok then kret (Inl ENOMEM)
     else kbind (sv_mod v (\<lambda>sv. sv\<lparr>vn_countlock := lock_new\<rparr>)) (\<lambda>_. kret (Inr ()))))"

definition vnode_kill :: "nat \<Rightarrow> ('z fsys_scheme, unit) kern" where
  "vnode_kill v =
     kbind (sv_get v) (\<lambda>sv.
     kbind (kassert (vn_refcount sv = 1)) (\<lambda>_.
     kbind (kassert (vn_opencount sv = 0)) (\<lambda>_.
     sv_mod v (\<lambda>sv. sv\<lparr>vn_refcount := 0, vn_opencount := 0\<rparr>))))"

definition vnode_incref :: "nat \<Rightarrow> ('z fsys_scheme, unit) kern" where
  "vnode_incref v =
     kbind (vn_acquire v) (\<lambda>_.
     kbind (sv_mod v (\<lambda>sv. sv\<lparr>vn_refcount := vn_refcount sv + 1\<rparr>)) (\<lambda>_.
     vn_release v))"

definition vnode_incopen :: "nat \<Rightarrow> ('z fsys_scheme, unit) kern" where
  "vnode_incopen v =
     kbind (vn_acquire v) (\<lambda>_.
     kbind (sv_mod v (\<lambda>sv. sv\<lparr>vn_opencount := vn_opencount sv + 1\<rparr>)) (\<lambda>_.
     vn_release v))"

text \<open>\<^verbatim>\<open>vnode_check\<close> as far as it depends on the vnode; \<open>reclaim\<close> is the operation of that name.\<close>

definition vnode_check :: "nat \<Rightarrow> bool \<Rightarrow> ('z fsys_scheme, unit) kern" where
  "vnode_check v reclaim =
     kbind (vn_acquire v) (\<lambda>_.
     kbind (sv_get v) (\<lambda>sv.
     if vn_refcount sv < 0 \<or> vn_refcount sv = 0 \<and> \<not> reclaim then khalt PanicCall
     else if vn_opencount sv < 0 then khalt PanicCall
     else vn_release v))"

subsection \<open>Truncation\<close>

fun trunc_direct :: "nat \<Rightarrow> nat \<Rightarrow> nat list \<Rightarrow> ('z fsys_scheme, unit) kern" where
  "trunc_direct v blocklen [] = kret ()"
| "trunc_direct v blocklen (i # is) =
     kbind (sv_get v) (\<lambda>sv.
     let block = sfi_direct (sv_i sv) ! i in
     kbind (if i \<ge> blocklen \<and> block \<noteq> 0
            then kbind (sfs_bfree block) (\<lambda>_.
                 sv_imod v (\<lambda>n. n\<lparr>sfi_direct := (sfi_direct n)[i := 0]\<rparr>))
            else kret ()) (\<lambda>_.
     trunc_direct v blocklen is))"

text \<open>The loop over the indirect block; it carries the buffer and the two flags.\<close>

fun trunc_indirect ::
  "nat \<Rightarrow> nat list \<Rightarrow> nat list \<Rightarrow> bool \<Rightarrow> bool \<Rightarrow> ('z fsys_scheme, nat list \<times> bool \<times> bool) kern" where
  "trunc_indirect blocklen [] idbuf hasnonzero iddirty = kret (idbuf, hasnonzero, iddirty)"
| "trunc_indirect blocklen (j # js) idbuf hasnonzero iddirty =
     (if blocklen < SFS_NDIRECT + j \<and> idbuf ! j \<noteq> 0
      then kbind (sfs_bfree (idbuf ! j)) (\<lambda>_.
           trunc_indirect blocklen js (idbuf[j := 0]) hasnonzero True)
      else trunc_indirect blocklen js idbuf (hasnonzero \<or> idbuf ! j \<noteq> 0) iddirty)"

definition sfs_truncate :: "nat \<Rightarrow> int \<Rightarrow> ('z fsys_scheme, errno + unit) kern" where
  "sfs_truncate v len =
     (let blocklen = to_u32 (c_quot (to_off (len + int SFS_BLOCKSIZE - 1)) (int SFS_BLOCKSIZE));
          highblock = SFS_NDIRECT + SFS_DBPERIDB - 1
      in
      kbind (trunc_direct v blocklen [0..<SFS_NDIRECT]) (\<lambda>_.
      kbind (sv_get v) (\<lambda>sv.
      let idblock = sfi_indirect (sv_i sv) in
      kbindE
        (if blocklen < highblock \<and> idblock \<noteq> 0 then
           kbindE (sfs_rblock idblock) (\<lambda>bs.
           kbind (trunc_indirect blocklen [0..<SFS_DBPERIDB] (dec32s SFS_DBPERIDB bs) False False)
             (\<lambda>(idbuf, hasnonzero, iddirty).
           if \<not> hasnonzero then
             kbind (sfs_bfree idblock) (\<lambda>_.
             kbind (sv_imod v (\<lambda>n. n\<lparr>sfi_indirect := 0\<rparr>)) (\<lambda>_. kret (Inr ())))
           else if iddirty then sfs_wblock (enc32s idbuf) idblock
           else kret (Inr ())))
         else kret (Inr ()))
        (\<lambda>_. kbind (sv_imod v (\<lambda>n. n\<lparr>sfi_size := to_u32 len\<rparr>)) (\<lambda>_. kret (Inr ()))))))"

subsection \<open>The operation tables\<close>

datatype vop =
    Vop_open | Vop_close | Vop_reclaim | Vop_read | Vop_readlink | Vop_getdirentry | Vop_write
  | Vop_ioctl | Vop_stat | Vop_gettype | Vop_tryseek | Vop_fsync | Vop_mmap | Vop_truncate
  | Vop_namefile | Vop_creat | Vop_symlink | Vop_mkdir | Vop_link | Vop_remove | Vop_rmdir
  | Vop_rename | Vop_lookup | Vop_lookparent

text \<open>The entries of the tables that are one of the stubs, with the error the stub returns.\<close>

fun sfs_fileops :: "vop \<Rightarrow> errno option" where
  "sfs_fileops Vop_readlink = Some ENOTDIR"
| "sfs_fileops Vop_getdirentry = Some ENOTDIR"
| "sfs_fileops Vop_namefile = Some ENOTDIR"
| "sfs_fileops Vop_creat = Some ENOTDIR"
| "sfs_fileops Vop_symlink = Some ENOTDIR"
| "sfs_fileops Vop_mkdir = Some ENOTDIR"
| "sfs_fileops Vop_link = Some ENOTDIR"
| "sfs_fileops Vop_remove = Some ENOTDIR"
| "sfs_fileops Vop_rmdir = Some ENOTDIR"
| "sfs_fileops Vop_rename = Some ENOTDIR"
| "sfs_fileops Vop_lookup = Some ENOTDIR"
| "sfs_fileops Vop_lookparent = Some ENOTDIR"
| "sfs_fileops _ = None"

fun sfs_dirops :: "vop \<Rightarrow> errno option" where
  "sfs_dirops Vop_read = Some EISDIR"
| "sfs_dirops Vop_readlink = Some EISDIR"
| "sfs_dirops Vop_getdirentry = Some EUNIMP"
| "sfs_dirops Vop_write = Some EISDIR"
| "sfs_dirops Vop_tryseek = Some EUNIMP"
| "sfs_dirops Vop_mmap = Some EISDIR"
| "sfs_dirops Vop_truncate = Some EISDIR"
| "sfs_dirops Vop_symlink = Some EUNIMP"
| "sfs_dirops Vop_mkdir = Some EUNIMP"
| "sfs_dirops Vop_rmdir = Some EUNIMP"
| "sfs_dirops _ = None"

text \<open>
  A call through the table: the check, then the stub or the function.
\<close>

definition vop_call ::
  "nat \<Rightarrow> vop \<Rightarrow> (errno \<Rightarrow> 'a) \<Rightarrow> ('z fsys_scheme, 'a) kern \<Rightarrow> ('z fsys_scheme, 'a) kern" where
  "vop_call v op fail f =
     kbind (vnode_check v (op = Vop_reclaim)) (\<lambda>_.
     kbind (sv_get v) (\<lambda>sv.
     case (case vn_ops sv of SfsFile \<Rightarrow> sfs_fileops op | SfsDir \<Rightarrow> sfs_dirops op) of
       Some e \<Rightarrow> kret (fail e)
     | None \<Rightarrow> f))"

definition sfs_open :: "nat \<Rightarrow> errno + unit" where
  "sfs_open openflags = (if openflags AND 32 \<noteq> 0 then Inl EUNIMP else Inr ())"

definition sfs_opendir :: "nat \<Rightarrow> errno + unit" where
  "sfs_opendir openflags =
     (if openflags AND 3 \<noteq> 0 then Inl EISDIR
      else if openflags AND 32 \<noteq> 0 then Inl EISDIR
      else Inr ())"

definition sfs_fsync :: "nat \<Rightarrow> ('z fsys_scheme, errno + unit) kern" where
  "sfs_fsync v = sfs_sync_inode v"

definition VOP_FSYNC :: "nat \<Rightarrow> ('z fsys_scheme, errno + unit) kern" where
  "VOP_FSYNC v = vop_call v Vop_fsync Inl (sfs_fsync v)"

definition sfs_close :: "nat \<Rightarrow> ('z fsys_scheme, errno + unit) kern" where
  "sfs_close v = VOP_FSYNC v"

definition sfs_read :: "nat \<Rightarrow> uio \<Rightarrow> ('z fsys_scheme, (errno + unit) \<times> uio) kern" where
  "sfs_read v u = kbind (kassert (uio_rw u = UIO_READ)) (\<lambda>_. sfs_io v u)"

definition sfs_write :: "nat \<Rightarrow> uio \<Rightarrow> ('z fsys_scheme, (errno + unit) \<times> uio) kern" where
  "sfs_write v u = kbind (kassert (uio_rw u = UIO_WRITE)) (\<lambda>_. sfs_io v u)"

definition sfs_gettype :: "nat \<Rightarrow> ('z fsys_scheme, errno + nat) kern" where
  "sfs_gettype v =
     kbind (sv_get v) (\<lambda>sv.
     if sfi_type (sv_i sv) = SFS_TYPE_FILE then kret (Inr 4096)
     else if sfi_type (sv_i sv) = SFS_TYPE_DIR then kret (Inr 8192)
     else khalt PanicCall)"

text \<open>The fields of \<^verbatim>\<open>struct stat\<close> the file system fills in: mode, size, links, blocks.\<close>

definition sfs_stat :: "nat \<Rightarrow> ('z fsys_scheme, errno + nat \<times> int \<times> nat \<times> nat) kern" where
  "sfs_stat v =
     kbindE (vop_call v Vop_gettype Inl (sfs_gettype v)) (\<lambda>mode.
     kbind (sv_get v) (\<lambda>sv.
     kret (Inr (mode, to_off (int (sfi_size (sv_i sv))), 0, 0))))"

definition sfs_tryseek :: "int \<Rightarrow> errno + unit" where
  "sfs_tryseek pos = (if pos < 0 then Inl EINVAL else Inr ())"

definition VOP_TRUNCATE :: "nat \<Rightarrow> int \<Rightarrow> ('z fsys_scheme, errno + unit) kern" where
  "VOP_TRUNCATE v len = vop_call v Vop_truncate Inl (sfs_truncate v len)"

definition sfs_namefile :: "nat \<Rightarrow> ('z fsys_scheme, errno + unit) kern" where
  "sfs_namefile v =
     kbind (sv_get v) (\<lambda>sv.
     kbind (kassert (sv_ino sv = SFS_ROOT_LOCATION)) (\<lambda>_. kret (Inr ())))"

subsection \<open>Loading and reclaiming vnodes\<close>

definition sv_blank :: sfs_vnode where
  "sv_blank =
     \<lparr>vn_refcount = 0, vn_opencount = 0, vn_countlock = lock_new, vn_ops = SfsFile,
      sv_i = dec_inode (replicate SFS_BLOCKSIZE 0), sv_ino = 0, sv_dirty = False\<rparr>"

definition sv_free :: "nat \<Rightarrow> ('z fsys_scheme, unit) kern" where
  "sv_free v = kmod (\<lambda>s. s\<lparr>sv_heap := (sv_heap s)(v := None)\<rparr>)"

definition vnode_at :: "nat \<Rightarrow> ('z fsys_scheme, nat) kern" where
  "vnode_at i s =
     (case array_getguy (sfs_vnodes s) (int i) of
        Inl h \<Rightarrow> Inl h
      | Inr None \<Rightarrow> Inl BadPtr
      | Inr (Some v) \<Rightarrow> Inr (v, s))"

fun loadvnode_scan :: "nat \<Rightarrow> nat \<Rightarrow> nat list \<Rightarrow> ('z fsys_scheme, nat option) kern" where
  "loadvnode_scan ino forcetype [] = kret None"
| "loadvnode_scan ino forcetype (i # is) =
     kbind (vnode_at i) (\<lambda>v.
     kbind (sv_get v) (\<lambda>sv.
     kbind (sfs_bused (sv_ino sv)) (\<lambda>used.
     if \<not> used then khalt PanicCall
     else if sv_ino sv = ino then
       kbind (kassert (forcetype = SFS_TYPE_INVAL)) (\<lambda>_.
       kbind (vnode_incref v) (\<lambda>_. kret (Some v)))
     else loadvnode_scan ino forcetype is)))"

text \<open>The part of \<^verbatim>\<open>sfs_loadvnode\<close> that loads an inode which is not in memory.\<close>

definition loadvnode_new :: "nat \<Rightarrow> nat \<Rightarrow> ('z fsys_scheme, errno + nat) kern" where
  "loadvnode_new ino forcetype =
     kbind kalloc (\<lambda>ok.
     if \<not> ok then kret (Inl ENOMEM)
     else
       kbind (kget sv_next) (\<lambda>v.
       kbind (kmod (\<lambda>s. s\<lparr>sv_heap := (sv_heap s)(v \<mapsto> sv_blank), sv_next := v + 1\<rparr>)) (\<lambda>_.
       kbind (sfs_bused ino) (\<lambda>used.
       if \<not> used then khalt PanicCall
       else
         kbind (sfs_rblock ino) (\<lambda>r.
         case r of
           Inl e \<Rightarrow> kbind (sv_free v) (\<lambda>_. kret (Inl e))
         | Inr bs \<Rightarrow>
             kbind (sv_mod v (\<lambda>sv. sv\<lparr>sv_i := dec_inode bs, sv_dirty := False\<rparr>)) (\<lambda>_.
             kbind (if forcetype \<noteq> SFS_TYPE_INVAL
                    then kbind (kassert (sfi_type (dec_inode bs) = SFS_TYPE_INVAL)) (\<lambda>_.
                         sv_imod v (\<lambda>n. n\<lparr>sfi_type := forcetype\<rparr>))
                    else kret ()) (\<lambda>_.
             kbind (sv_get v) (\<lambda>sv.
             if sfi_type (sv_i sv) \<noteq> SFS_TYPE_FILE \<and> sfi_type (sv_i sv) \<noteq> SFS_TYPE_DIR then khalt PanicCall
             else
               kbind (vnode_init v (if sfi_type (sv_i sv) = SFS_TYPE_FILE then SfsFile else SfsDir)) (\<lambda>r.
               case r of
                 Inl e \<Rightarrow> kbind (sv_free v) (\<lambda>_. kret (Inl e))
               | Inr _ \<Rightarrow>
                   kbind (sv_mod v (\<lambda>sv. sv\<lparr>sv_ino := ino\<rparr>)) (\<lambda>_.
                   kbind kalloc (\<lambda>ok.
                   kbind (on_vnodes (array_add (\<lambda>_. ok) v)) (\<lambda>r.
                   case r of
                     Inl e \<Rightarrow> kbind (vnode_kill v) (\<lambda>_. kbind (sv_free v) (\<lambda>_. kret (Inl e)))
                   | Inr _ \<Rightarrow> kret (Inr v)))))))))))))"

definition sfs_loadvnode :: "nat \<Rightarrow> nat \<Rightarrow> ('z fsys_scheme, errno + nat) kern" where
  "sfs_loadvnode ino forcetype =
     kbind (kget (\<lambda>s. nat (array_getnum (sfs_vnodes s)))) (\<lambda>num.
     kbind (loadvnode_scan ino forcetype [0..<num]) (\<lambda>found.
     case found of
       Some v \<Rightarrow> kret (Inr v)
     | None \<Rightarrow> loadvnode_new ino forcetype))"

definition sfs_getroot :: "('z fsys_scheme, nat) kern" where
  "sfs_getroot =
     kbind (sfs_loadvnode SFS_ROOT_LOCATION SFS_TYPE_INVAL) (\<lambda>r.
     case r of Inl e \<Rightarrow> khalt PanicCall | Inr v \<Rightarrow> kret v)"

fun reclaim_find :: "nat \<Rightarrow> nat list \<Rightarrow> ('z fsys_scheme, nat option) kern" where
  "reclaim_find v [] = kret None"
| "reclaim_find v (i # is) =
     kbind (vnode_at i) (\<lambda>v2. if v2 = v then kret (Some i) else reclaim_find v is)"

definition sfs_reclaim :: "nat \<Rightarrow> ('z fsys_scheme, errno + unit) kern" where
  "sfs_reclaim v =
     kbind (vn_acquire v) (\<lambda>_.
     kbind (sv_get v) (\<lambda>sv.
     if vn_refcount sv \<noteq> 1 then
       kbind (kassert (vn_refcount sv > 1)) (\<lambda>_.
       kbind (sv_mod v (\<lambda>sv. sv\<lparr>vn_refcount := vn_refcount sv - 1\<rparr>)) (\<lambda>_.
       kbind (vn_release v) (\<lambda>_. kret (Inl EBUSY))))
     else
       kbind (vn_release v) (\<lambda>_.
       kbindE (if sfi_linkcount (sv_i sv) = 0 then VOP_TRUNCATE v 0 else kret (Inr ())) (\<lambda>_.
       kbindE (sfs_sync_inode v) (\<lambda>_.
       kbind (sv_get v) (\<lambda>sv.
       kbind (if sfi_linkcount (sv_i sv) = 0 then sfs_bfree (sv_ino sv) else kret ()) (\<lambda>_.
       kbind (kget (\<lambda>s. nat (array_getnum (sfs_vnodes s)))) (\<lambda>num.
       kbind (reclaim_find v [0..<num]) (\<lambda>ix.
       case ix of
         None \<Rightarrow> khalt PanicCall
       | Some ix \<Rightarrow>
           kbind (on_vnodes (array_remove (int ix))) (\<lambda>_.
           kbind (vnode_kill v) (\<lambda>_.
           kbind (sv_free v) (\<lambda>_. kret (Inr ())))))))))))))"

definition VOP_RECLAIM :: "nat \<Rightarrow> ('z fsys_scheme, errno + unit) kern" where
  "VOP_RECLAIM v = vop_call v Vop_reclaim Inl (sfs_reclaim v)"

text \<open>The warning that \<^verbatim>\<open>vnode_decref\<close> prints for an error is its only use of the result.\<close>

definition vnode_decref :: "nat \<Rightarrow> ('z fsys_scheme, unit) kern" where
  "vnode_decref v =
     kbind (vn_acquire v) (\<lambda>_.
     kbind (sv_get v) (\<lambda>sv.
     kbind (kassert (vn_refcount sv > 0)) (\<lambda>_.
     if vn_refcount sv > 1 then
       kbind (sv_mod v (\<lambda>sv. sv\<lparr>vn_refcount := vn_refcount sv - 1\<rparr>)) (\<lambda>_. vn_release v)
     else
       kbind (vn_release v) (\<lambda>_.
       kbind (VOP_RECLAIM v) (\<lambda>_. kret ())))))"

definition vnode_decopen :: "nat \<Rightarrow> ('z fsys_scheme, unit) kern" where
  "vnode_decopen v =
     kbind (vn_acquire v) (\<lambda>_.
     kbind (sv_get v) (\<lambda>sv.
     kbind (kassert (vn_opencount sv > 0)) (\<lambda>_.
     kbind (sv_mod v (\<lambda>sv. sv\<lparr>vn_opencount := vn_opencount sv - 1\<rparr>)) (\<lambda>_.
     kbind (vn_release v) (\<lambda>_.
     if vn_opencount sv - 1 > 0 then kret ()
     else kbind (vop_call v Vop_close Inl (sfs_close v)) (\<lambda>_. kret ()))))))"

subsection \<open>Names\<close>

definition sfs_lookonce :: "nat \<Rightarrow> byte list \<Rightarrow> ('z fsys_scheme, errno + nat \<times> nat) kern" where
  "sfs_lookonce v name =
     kbind (sfs_dir_findname v name) (\<lambda>(r, _).
     case r of
       Inl e \<Rightarrow> kret (Inl e)
     | Inr (ino, slot) \<Rightarrow>
         kbindE (sfs_loadvnode ino SFS_TYPE_INVAL) (\<lambda>w.
         kbind (sv_get w) (\<lambda>sv.
         if sfi_linkcount (sv_i sv) = 0 then khalt PanicCall else kret (Inr (w, slot)))))"

definition sfs_makeobj :: "nat \<Rightarrow> ('z fsys_scheme, errno + nat) kern" where
  "sfs_makeobj type = kbindE sfs_balloc (\<lambda>ino. sfs_loadvnode ino type)"

definition link_inc :: "nat \<Rightarrow> ('z fsys_scheme, unit) kern" where
  "link_inc v = sv_imod v (\<lambda>n. n\<lparr>sfi_linkcount := (sfi_linkcount n + 1) mod 65536\<rparr>)"

definition link_dec :: "nat \<Rightarrow> ('z fsys_scheme, unit) kern" where
  "link_dec v = sv_imod v (\<lambda>n. n\<lparr>sfi_linkcount := (sfi_linkcount n + 65535) mod 65536\<rparr>)"

definition sfs_creat :: "nat \<Rightarrow> byte list \<Rightarrow> bool \<Rightarrow> ('z fsys_scheme, errno + nat) kern" where
  "sfs_creat v name excl =
     kbind (sfs_dir_findname v name) (\<lambda>(r, _).
     case r of
       Inr (ino, _) \<Rightarrow> if excl then kret (Inl EEXIST) else sfs_loadvnode ino SFS_TYPE_INVAL
     | Inl e \<Rightarrow>
         if e \<noteq> ENOENT then kret (Inl e)
         else
           kbindE (sfs_makeobj SFS_TYPE_FILE) (\<lambda>newguy.
           kbind (sv_get newguy) (\<lambda>nsv.
           kbind (sfs_dir_link v name (sv_ino nsv)) (\<lambda>r.
           case r of
             Inl e \<Rightarrow> kbind (vnode_decref newguy) (\<lambda>_. kret (Inl e))
           | Inr _ \<Rightarrow> kbind (link_inc newguy) (\<lambda>_. kret (Inr newguy))))))"

definition sfs_link :: "nat \<Rightarrow> byte list \<Rightarrow> nat \<Rightarrow> ('z fsys_scheme, errno + unit) kern" where
  "sfs_link dir name file =
     kbind (sv_get file) (\<lambda>f.
     kbindE (sfs_dir_link dir name (sv_ino f)) (\<lambda>_.
     kbind (link_inc file) (\<lambda>_. kret (Inr ()))))"

definition sfs_remove :: "nat \<Rightarrow> byte list \<Rightarrow> ('z fsys_scheme, errno + unit) kern" where
  "sfs_remove dir name =
     kbindE (sfs_lookonce dir name) (\<lambda>(victim, slot).
     kbind (sfs_dir_unlink dir slot) (\<lambda>r.
     kbind (case r of
              Inl e \<Rightarrow> kret ()
            | Inr _ \<Rightarrow>
                kbind (sv_get victim) (\<lambda>sv.
                kbind (kassert (sfi_linkcount (sv_i sv) > 0)) (\<lambda>_. link_dec victim))) (\<lambda>_.
     kbind (vnode_decref victim) (\<lambda>_. kret r))))"

definition sfs_rename ::
  "nat \<Rightarrow> byte list \<Rightarrow> nat \<Rightarrow> byte list \<Rightarrow> ('z fsys_scheme, errno + unit) kern" where
  "sfs_rename d1 n1 d2 n2 =
     kbind (kassert (d1 = d2)) (\<lambda>_.
     kbind (sv_get d1) (\<lambda>sv.
     kbind (kassert (sv_ino sv = SFS_ROOT_LOCATION)) (\<lambda>_.
     kbindE (sfs_lookonce d1 n1) (\<lambda>(g1, slot1).
     kbind (sv_get g1) (\<lambda>gsv.
     kbind (kassert (sfi_type (sv_i gsv) = SFS_TYPE_FILE)) (\<lambda>_.
     kbind (sfs_dir_link d1 n2 (sv_ino gsv)) (\<lambda>r.
     case r of
       Inl e \<Rightarrow> kbind (vnode_decref g1) (\<lambda>_. kret (Inl e))
     | Inr slot2 \<Rightarrow>
         kbind (link_inc g1) (\<lambda>_.
         kbind (sfs_dir_unlink d1 slot1) (\<lambda>r.
         case r of
           Inr _ \<Rightarrow>
             kbind (sv_get g1) (\<lambda>gsv.
             kbind (kassert (sfi_linkcount (sv_i gsv) > 0)) (\<lambda>_.
             kbind (link_dec g1) (\<lambda>_.
             kbind (vnode_decref g1) (\<lambda>_. kret (Inr ())))))
         | Inl e \<Rightarrow>
             kbind (sfs_dir_unlink d1 slot2) (\<lambda>r2.
             case r2 of
               Inl _ \<Rightarrow> khalt PanicCall
             | Inr _ \<Rightarrow>
                 kbind (sv_mod g1 (\<lambda>sv. sv\<lparr>sv_i := (sv_i sv)\<lparr>sfi_linkcount :=
                          (sfi_linkcount (sv_i sv) + 65535) mod 65536\<rparr>\<rparr>)) (\<lambda>_.
                 kbind (vnode_decref g1) (\<lambda>_. kret (Inl e)))))))))))))"

definition sfs_lookparent ::
  "nat \<Rightarrow> byte list \<Rightarrow> nat \<Rightarrow> ('z fsys_scheme, errno + nat \<times> byte list) kern" where
  "sfs_lookparent v pathname buflen =
     kbind (sv_get v) (\<lambda>sv.
     if sfi_type (sv_i sv) \<noteq> SFS_TYPE_DIR then kret (Inl ENOTDIR)
     else if length pathname + 1 > buflen then kret (Inl ENAMETOOLONG)
     else kbind (vnode_incref v) (\<lambda>_. kret (Inr (v, pathname))))"

definition sfs_lookup :: "nat \<Rightarrow> byte list \<Rightarrow> ('z fsys_scheme, errno + nat) kern" where
  "sfs_lookup v pathname =
     kbind (sv_get v) (\<lambda>sv.
     if sfi_type (sv_i sv) \<noteq> SFS_TYPE_DIR then kret (Inl ENOTDIR)
     else kbindE (sfs_lookonce v pathname) (\<lambda>(w, _). kret (Inr w)))"

subsection \<open>The volume\<close>

text \<open>The loop of \<^verbatim>\<open>sfs_mapio\<close> over the blocks of the bitmap.\<close>

fun mapio_loop :: "uio_rw \<Rightarrow> nat list \<Rightarrow> ('z fsys_scheme, errno + unit) kern" where
  "mapio_loop rw [] = kret (Inr ())"
| "mapio_loop rw (j # js) =
     kbindE
       (case rw of
          UIO_READ \<Rightarrow>
            kbindE (sfs_rblock (SFS_MAP_LOCATION + j)) (\<lambda>bs.
            kbind (kget (\<lambda>s. bitmap_getdata (sfs_freemap s))) (\<lambda>bitdata.
            if \<not> j * SFS_BLOCKSIZE + SFS_BLOCKSIZE \<le> length bitdata then khalt BadPtr
            else
              kbind (kmod (\<lambda>s. s\<lparr>sfs_freemap :=
                (sfs_freemap s)\<lparr>bm_v := patch (j * SFS_BLOCKSIZE) bs bitdata\<rparr>\<rparr>)) (\<lambda>_.
              kret (Inr ()))))
        | UIO_WRITE \<Rightarrow>
            kbind (kget (\<lambda>s. bitmap_getdata (sfs_freemap s))) (\<lambda>bitdata.
            if \<not> j * SFS_BLOCKSIZE + SFS_BLOCKSIZE \<le> length bitdata then khalt BadPtr
            else sfs_wblock (take SFS_BLOCKSIZE (drop (j * SFS_BLOCKSIZE) bitdata)) (SFS_MAP_LOCATION + j)))
       (\<lambda>_. mapio_loop rw js)"

definition sfs_mapio :: "uio_rw \<Rightarrow> ('z fsys_scheme, errno + unit) kern" where
  "sfs_mapio rw =
     kbind (kget (\<lambda>s. SFS_BITBLOCKS (sp_nblocks (sfs_super s)))) (\<lambda>mapsize.
     mapio_loop rw [0..<mapsize])"

fun sync_vnodes :: "nat list \<Rightarrow> ('z fsys_scheme, unit) kern" where
  "sync_vnodes [] = kret ()"
| "sync_vnodes (i # is) =
     kbind (vnode_at i) (\<lambda>v. kbind (VOP_FSYNC v) (\<lambda>_. sync_vnodes is))"

definition sfs_sync :: "('z fsys_scheme, errno + unit) kern" where
  "sfs_sync =
     kbind (kget (\<lambda>s. nat (array_getnum (sfs_vnodes s)))) (\<lambda>num.
     kbind (sync_vnodes [0..<num]) (\<lambda>_.
     kbind (kget sfs_freemapdirty) (\<lambda>dirty.
     kbindE (if dirty
             then kbindE (sfs_mapio UIO_WRITE) (\<lambda>_.
                  kbind (kmod (\<lambda>s. s\<lparr>sfs_freemapdirty := False\<rparr>)) (\<lambda>_. kret (Inr ())))
             else kret (Inr ())) (\<lambda>_.
     kbind (kget sfs_superdirty) (\<lambda>dirty.
     if dirty
     then kbind (kget (\<lambda>s. enc_super (sfs_super s))) (\<lambda>sb.
          kbindE (sfs_wblock sb SFS_SB_LOCATION) (\<lambda>_.
          kbind (kmod (\<lambda>s. s\<lparr>sfs_superdirty := False\<rparr>)) (\<lambda>_. kret (Inr ()))))
     else kret (Inr ()))))))"

definition sfs_getvolname :: "'z fsys_scheme \<Rightarrow> byte list" where
  "sfs_getvolname s = cstr (sp_volname (sfs_super s))"

definition sfs_unmount :: "('z fsys_scheme, errno + unit) kern" where
  "sfs_unmount =
     kbind (kget (\<lambda>s. array_getnum (sfs_vnodes s))) (\<lambda>num.
     if num > 0 then kret (Inl EBUSY)
     else
       kbind (kget sfs_superdirty) (\<lambda>sd.
       kbind (kassert (\<not> sd)) (\<lambda>_.
       kbind (kget sfs_freemapdirty) (\<lambda>fd.
       kbind (kassert (\<not> fd)) (\<lambda>_.
       kbind (kmod (\<lambda>s. s\<lparr>sfs_live := False\<rparr>)) (\<lambda>_. kret (Inr ())))))))"

definition sfs_domount :: "('z fsys_scheme, errno + unit) kern" where
  "sfs_domount =
     kbind (kget d_blocksize) (\<lambda>bsz.
     if bsz \<noteq> SFS_BLOCKSIZE then kret (Inl ENXIO)
     else
       kbind kalloc (\<lambda>ok.
       if \<not> ok then kret (Inl ENOMEM)
       else
         kbind kalloc (\<lambda>ok.
         case array_create ok of
           None \<Rightarrow> kret (Inl ENOMEM)
         | Some vs \<Rightarrow>
             kbindE (sfs_rblock SFS_SB_LOCATION) (\<lambda>sb.
             let super = dec_super sb in
             if sp_magic super \<noteq> SFS_MAGIC then kret (Inl EINVAL)
             else
               let super = super\<lparr>sp_volname := (sp_volname super)[SFS_VOLNAME_SIZE - 1 := 0]\<rparr> in
               kbind kalloc (\<lambda>hdr.
               kbind kalloc (\<lambda>data.
               case bitmap_create hdr (\<lambda>_. data) (SFS_BITMAPSIZE (sp_nblocks super)) of
                 Inl h \<Rightarrow> khalt h
               | Inr None \<Rightarrow> kret (Inl ENOMEM)
               | Inr (Some bm) \<Rightarrow>
                   kbind (kmod (\<lambda>s. s\<lparr>sfs_super := super, sfs_vnodes := vs, sfs_freemap := bm\<rparr>)) (\<lambda>_.
                   kbindE (sfs_mapio UIO_READ) (\<lambda>_.
                   kbind (kmod (\<lambda>s. s\<lparr>sfs_superdirty := False, sfs_freemapdirty := False, sfs_live := True\<rparr>)) (\<lambda>_.
                   kret (Inr ()))))))))))"

end
