(* ===== verification/Addrspace.thy ===== *)
theory Addrspace
  imports Sfs Coremap
begin

text \<open>
  Address spaces of user programs: \<^verbatim>\<open>kern/vm/addrspace.c\<close>, the page records of
  \<^verbatim>\<open>kern/include/pt.h\<close>, the replacement order of \<^verbatim>\<open>kern/vm/vm-tlb.c\<close>, the statistics of
  \<^verbatim>\<open>kern/vm/uw-vmstats.c\<close> and the loader of \<^verbatim>\<open>kern/userprog/loadelf.c\<close>.

  The state extends that of the file system with the address spaces and pages on the heap, the
  physical memory, the TLB and the globals of the fault handler.  Reading an executable goes
  through the operation table of its vnode, so the loader takes the read operation as an argument,
  as the code takes it from the table.  Fields that the code leaves uninitialised hold whatever
  the memory held before, which the creating functions take as an argument.
\<close>

section \<open>Model\<close>

record page =
  pg_vaddr :: nat
  pg_paddr :: nat
  pg_valid :: int
  pg_permission :: nat

record addrspace =
  as_vbase1 :: nat
  as_npages1 :: nat
  as_filesz1 :: nat
  as_off1 :: int
  as_flag1 :: nat
  useg1 :: "nat array option"
  as_vbase2 :: nat
  as_npages2 :: nat
  as_filesz2 :: nat
  as_off2 :: int
  as_flag2 :: nat
  useg2 :: "nat array option"
  usegs :: "nat array option"
  as_v :: nat

text \<open>
  \<open>v_tlb\<close> are the pairs of words in the slots of the TLB; \<open>v_spl\<close> is the interrupt level; the
  fields from \<open>first_read\<close> on are the globals of \<^verbatim>\<open>vm.c\<close>.
\<close>

record vsys = fsys +
  as_heap :: "nat \<Rightarrow> addrspace option"
  as_next :: nat
  pg_heap :: "nat \<Rightarrow> page option"
  pg_next :: nat
  v_core :: physmem
  v_tlb :: "(32 word \<times> 32 word) list"
  tlb_next_victim :: int
  tlb_lock :: klock
  stats_counts :: "nat list"
  stats_lock :: "klock option"
  v_spl :: int
  first_read :: int
  second_write :: int
  first_v :: nat
  first_code_read :: int
  code_write_nread :: int

abbreviation SPL_HIGH :: int where "SPL_HIGH \<equiv> 15"
abbreviation NUM_TLB :: nat where "NUM_TLB \<equiv> 64"
abbreviation USERSTACK :: nat where "USERSTACK \<equiv> 2147483648"
abbreviation DUMBVM_STACKPAGES :: nat where "DUMBVM_STACKPAGES \<equiv> 12"

abbreviation TLBHI_VPAGE :: "32 word" where "TLBHI_VPAGE \<equiv> 0xfffff000"
abbreviation TLBLO_PPAGE :: "32 word" where "TLBLO_PPAGE \<equiv> 0xfffff000"
abbreviation TLBLO_DIRTY :: "32 word" where "TLBLO_DIRTY \<equiv> 0x400"
abbreviation TLBLO_VALID :: "32 word" where "TLBLO_VALID \<equiv> 0x200"

definition TLBHI_INVALID :: "nat \<Rightarrow> 32 word" where
  "TLBHI_INVALID entryno = push_bit 12 (word_of_nat (0x80000 + entryno))"

definition vsplx :: "int \<Rightarrow> ('z vsys_scheme, int) kern" where
  "vsplx newspl s = Inr (v_spl s, s\<lparr>v_spl := newspl\<rparr>)"

definition as_get :: "nat \<Rightarrow> ('z vsys_scheme, addrspace) kern" where
  "as_get a s = (case as_heap s a of None \<Rightarrow> Inl BadPtr | Some as \<Rightarrow> Inr (as, s))"

definition as_mod :: "nat \<Rightarrow> (addrspace \<Rightarrow> addrspace) \<Rightarrow> ('z vsys_scheme, unit) kern" where
  "as_mod a f s =
     (case as_heap s a of None \<Rightarrow> Inl BadPtr | Some as \<Rightarrow> Inr ((), s\<lparr>as_heap := (as_heap s)(a \<mapsto> f as)\<rparr>))"

definition pg_get :: "nat \<Rightarrow> ('z vsys_scheme, page) kern" where
  "pg_get p s = (case pg_heap s p of None \<Rightarrow> Inl BadPtr | Some pg \<Rightarrow> Inr (pg, s))"

definition pg_mod :: "nat \<Rightarrow> (page \<Rightarrow> page) \<Rightarrow> ('z vsys_scheme, unit) kern" where
  "pg_mod p f s =
     (case pg_heap s p of None \<Rightarrow> Inl BadPtr | Some pg \<Rightarrow> Inr ((), s\<lparr>pg_heap := (pg_heap s)(p \<mapsto> f pg)\<rparr>))"

subsection \<open>The TLB\<close>

text \<open>The instructions that read, write and probe the TLB; the index is taken modulo its size.\<close>

definition TLB_Read :: "nat \<Rightarrow> ('z vsys_scheme, 32 word \<times> 32 word) kern" where
  "TLB_Read i = kget (\<lambda>s. v_tlb s ! (i mod NUM_TLB))"

definition TLB_Write :: "32 word \<Rightarrow> 32 word \<Rightarrow> nat \<Rightarrow> ('z vsys_scheme, unit) kern" where
  "TLB_Write ehi elo i = kmod (\<lambda>s. s\<lparr>v_tlb := (v_tlb s)[i mod NUM_TLB := (ehi, elo)]\<rparr>)"

definition tlb_match :: "32 word \<Rightarrow> 32 word \<times> 32 word \<Rightarrow> bool" where
  "tlb_match ehi e \<longleftrightarrow> fst e AND TLBHI_VPAGE = ehi AND TLBHI_VPAGE"

definition TLB_Probe :: "32 word \<Rightarrow> ('z vsys_scheme, int) kern" where
  "TLB_Probe ehi =
     kget (\<lambda>s. case List.find (\<lambda>i. tlb_match ehi (v_tlb s ! i)) [0..<NUM_TLB] of
                 None \<Rightarrow> -1 | Some i \<Rightarrow> int i)"

definition tlb_get_rr_victim :: "('z vsys_scheme, int) kern" where
  "tlb_get_rr_victim =
     kbind (kget tlb_next_victim) (\<lambda>victim.
     kbind (kmod (\<lambda>s. s\<lparr>tlb_next_victim := c_rem (victim + 1) (int NUM_TLB)\<rparr>)) (\<lambda>_. kret victim))"

definition on_tlb_lock :: "(klock, 'a) kern \<Rightarrow> ('z vsys_scheme, 'a) kern" where
  "on_tlb_lock = kzoom tlb_lock (\<lambda>l s. s\<lparr>tlb_lock := l\<rparr>)"

subsection \<open>Statistics\<close>

abbreviation VMSTAT_TLB_FAULT :: nat where "VMSTAT_TLB_FAULT \<equiv> 0"
abbreviation VMSTAT_TLB_FAULT_FREE :: nat where "VMSTAT_TLB_FAULT_FREE \<equiv> 1"
abbreviation VMSTAT_TLB_FAULT_REPLACE :: nat where "VMSTAT_TLB_FAULT_REPLACE \<equiv> 2"
abbreviation VMSTAT_TLB_INVALIDATE :: nat where "VMSTAT_TLB_INVALIDATE \<equiv> 3"
abbreviation VMSTAT_TLB_RELOAD :: nat where "VMSTAT_TLB_RELOAD \<equiv> 4"
abbreviation VMSTAT_PAGE_FAULT_ZERO :: nat where "VMSTAT_PAGE_FAULT_ZERO \<equiv> 5"
abbreviation VMSTAT_PAGE_FAULT_DISK :: nat where "VMSTAT_PAGE_FAULT_DISK \<equiv> 6"
abbreviation VMSTAT_ELF_FILE_READ :: nat where "VMSTAT_ELF_FILE_READ \<equiv> 7"
abbreviation VMSTAT_COUNT :: nat where "VMSTAT_COUNT \<equiv> 10"

definition vmstats_inc_raw :: "nat \<Rightarrow> ('z vsys_scheme, unit) kern" where
  "vmstats_inc_raw index =
     kbind (kassert (index < VMSTAT_COUNT)) (\<lambda>_.
     kmod (\<lambda>s. s\<lparr>stats_counts := (stats_counts s)[index := (stats_counts s ! index + 1) mod 4294967296]\<rparr>))"

definition on_stats_lock :: "(klock, unit) kern \<Rightarrow> ('z vsys_scheme, unit) kern" where
  "on_stats_lock m s =
     (case stats_lock s of
        None \<Rightarrow> Inl AssertFail
      | Some l \<Rightarrow> (case m l of Inl h \<Rightarrow> Inl h | Inr (_, l') \<Rightarrow> Inr ((), s\<lparr>stats_lock := Some l'\<rparr>)))"

definition vmstats_inc :: "nat \<Rightarrow> ('z vsys_scheme, unit) kern" where
  "vmstats_inc index =
     kbind (kget v_spl) (\<lambda>spl.
     if spl = SPL_HIGH then vmstats_inc_raw index
     else
       kbind (kget stats_lock) (\<lambda>l.
       kbind (kassert (l \<noteq> None)) (\<lambda>_.
       kbind (kget us_cur) (\<lambda>cur.
       kbind (on_stats_lock (lock_acquire cur)) (\<lambda>_.
       kbind (vmstats_inc_raw index) (\<lambda>_. on_stats_lock (lock_release cur)))))))"

definition vmstats_init :: "('z vsys_scheme, unit) kern" where
  "vmstats_init =
     kbind (kget stats_lock) (\<lambda>l.
     kbind (kassert (l = None)) (\<lambda>_.
     kbind kalloc (\<lambda>ok.
     kbind (kassert ok) (\<lambda>_.
     kbind (kmod (\<lambda>s. s\<lparr>stats_lock := Some lock_new\<rparr>)) (\<lambda>_.
     kbind (kget us_cur) (\<lambda>cur.
     kbind (on_stats_lock (lock_acquire cur)) (\<lambda>_.
     kbind (kmod (\<lambda>s. s\<lparr>stats_counts := replicate VMSTAT_COUNT 0\<rparr>)) (\<lambda>_. on_stats_lock (lock_release cur)))))))))"

subsection \<open>Address spaces\<close>

definition as_create :: "addrspace \<Rightarrow> ('z vsys_scheme, nat option) kern" where
  "as_create raw =
     kbind kalloc (\<lambda>ok.
     if \<not> ok then kret None
     else
       kbind kalloc (\<lambda>m1. kbind kalloc (\<lambda>m2. kbind kalloc (\<lambda>m3.
       kbind (kget as_next) (\<lambda>a.
       kbind (kmod (\<lambda>s. s\<lparr>as_heap := (as_heap s)(a \<mapsto>
           raw\<lparr>as_vbase1 := 0, as_npages1 := 0, as_vbase2 := 0, as_npages2 := 0,
               useg1 := array_create m1, useg2 := array_create m2, usegs := array_create m3\<rparr>),
         as_next := Suc a\<rparr>)) (\<lambda>_.
       kret (Some a)))))))"

text \<open>The three page lists of an address space.\<close>

datatype useg = Useg1 | Useg2 | Usegs

fun useg_of :: "useg \<Rightarrow> addrspace \<Rightarrow> nat array option" where
  "useg_of Useg1 as = useg1 as"
| "useg_of Useg2 as = useg2 as"
| "useg_of Usegs as = usegs as"

fun useg_put :: "useg \<Rightarrow> nat array \<Rightarrow> addrspace \<Rightarrow> addrspace" where
  "useg_put Useg1 a as = as\<lparr>useg1 := Some a\<rparr>"
| "useg_put Useg2 a as = as\<lparr>useg2 := Some a\<rparr>"
| "useg_put Usegs a as = as\<lparr>usegs := Some a\<rparr>"

definition on_useg :: "nat \<Rightarrow> useg \<Rightarrow> (nat array, 'a) kern \<Rightarrow> ('z vsys_scheme, 'a) kern" where
  "on_useg a g m =
     kbind (as_get a) (\<lambda>as.
     case useg_of g as of
       None \<Rightarrow> khalt BadPtr
     | Some arr \<Rightarrow>
         (case m arr of
            Inl h \<Rightarrow> khalt h
          | Inr (x, arr') \<Rightarrow> kbind (as_mod a (useg_put g arr')) (\<lambda>_. kret x)))"

text \<open>
  One round of the loops that fill a page list: a page record is allocated without a check of the
  result, initialised by \<open>f\<close>, and appended; that appending may fail is ignored.
\<close>

definition add_page :: "(nat \<Rightarrow> page) \<Rightarrow> nat \<Rightarrow> useg \<Rightarrow> (page \<Rightarrow> page) \<Rightarrow> ('z vsys_scheme, unit) kern" where
  "add_page raw a g f =
     kbind kalloc (\<lambda>ok.
     if \<not> ok then khalt BadPtr
     else
       kbind (kget pg_next) (\<lambda>p.
       kbind (kmod (\<lambda>s. s\<lparr>pg_heap := (pg_heap s)(p \<mapsto> f (raw p)), pg_next := Suc p\<rparr>)) (\<lambda>_.
       kbind kalloc (\<lambda>mem.
       kbind (on_useg a g (array_add (\<lambda>_. mem) p)) (\<lambda>_. kret ())))))"

fun add_pages :: "(nat \<Rightarrow> page) \<Rightarrow> nat \<Rightarrow> useg \<Rightarrow> (page \<Rightarrow> page) list \<Rightarrow> ('z vsys_scheme, unit) kern" where
  "add_pages raw a g [] = kret ()"
| "add_pages raw a g (f # fs) = kbind (add_page raw a g f) (\<lambda>_. add_pages raw a g fs)"

definition as_copy :: "addrspace \<Rightarrow> (nat \<Rightarrow> page) \<Rightarrow> nat \<Rightarrow> ('z vsys_scheme, errno + nat) kern" where
  "as_copy raw rawp old =
     kbind (as_create raw) (\<lambda>r.
     case r of
       None \<Rightarrow> kret (Inl ENOMEM)
     | Some new \<Rightarrow>
         kbind (as_get old) (\<lambda>oas.
         kbind (as_mod new (\<lambda>n. n\<lparr>as_vbase1 := as_vbase1 oas, as_npages1 := as_npages1 oas,
                                 as_vbase2 := as_vbase2 oas, as_npages2 := as_npages2 oas\<rparr>)) (\<lambda>_.
         kbind (add_pages rawp new Useg1
           (map (\<lambda>i e. e\<lparr>pg_vaddr := (as_vbase1 oas + i * PAGE_SIZE) mod 4294967296, pg_valid := 1, pg_permission := 5\<rparr>)
              [0..<as_npages1 oas])) (\<lambda>_.
         kbind (add_pages rawp new Useg2
           (map (\<lambda>i e. e\<lparr>pg_vaddr := (as_vbase2 oas + i * PAGE_SIZE) mod 4294967296, pg_valid := 1, pg_permission := 6\<rparr>)
              [0..<as_npages2 oas])) (\<lambda>_.
         kbind (add_pages rawp new Usegs
           (map (\<lambda>i e. e\<lparr>pg_vaddr := USERSTACK - i * PAGE_SIZE, pg_valid := 1, pg_permission := 7\<rparr>)
              [0..<DUMBVM_STACKPAGES])) (\<lambda>_.
         kret (Inr new)))))))"

text \<open>The arrays are freed with the address space; the page records and frames are not.\<close>

definition as_destroy :: "nat \<Rightarrow> ('z vsys_scheme, unit) kern" where
  "as_destroy a =
     kbind (as_get a) (\<lambda>as.
     if useg1 as = None \<or> useg2 as = None \<or> usegs as = None then khalt BadPtr
     else kmod (\<lambda>s. s\<lparr>as_heap := (as_heap s)(a := None)\<rparr>))"

fun tlb_invalidate :: "nat list \<Rightarrow> ('z vsys_scheme, unit) kern" where
  "tlb_invalidate [] = kret ()"
| "tlb_invalidate (i # is) = kbind (TLB_Write (TLBHI_INVALID i) 0 i) (\<lambda>_. tlb_invalidate is)"

definition as_activate :: "nat option \<Rightarrow> ('z vsys_scheme, unit) kern" where
  "as_activate as =
     kbind (vsplx SPL_HIGH) (\<lambda>spl.
     kbind (kget us_vmspace) (\<lambda>cur.
     kbind (if as \<noteq> cur then
              kbind (vmstats_inc VMSTAT_TLB_INVALIDATE) (\<lambda>_. tlb_invalidate [0..<NUM_TLB])
            else kret ()) (\<lambda>_.
     kbind (vsplx spl) (\<lambda>_. kret ()))))"

text \<open>The page list of a region, after the length was rounded to whole pages.\<close>

definition define_seg ::
  "(nat \<Rightarrow> page) \<Rightarrow> nat \<Rightarrow> useg \<Rightarrow> nat \<Rightarrow> nat \<Rightarrow> nat \<Rightarrow> nat \<Rightarrow> ('z vsys_scheme, errno + unit) kern" where
  "define_seg rawp a g vaddr sz npages perm =
     kbind kalloc (\<lambda>mem.
     kbind (on_useg a g (array_preallocate (\<lambda>_. mem) (to_off (int sz)))) (\<lambda>_.
     kbind (add_pages rawp a g
       (map (\<lambda>i p. p\<lparr>pg_vaddr := (vaddr + i * PAGE_SIZE) mod 4294967296, pg_permission := perm, pg_valid := 0\<rparr>)
          [0..<npages])) (\<lambda>_.
     kret (Inr ()))))"

definition as_define_region ::
  "(nat \<Rightarrow> page) \<Rightarrow> nat \<Rightarrow> nat \<Rightarrow> nat \<Rightarrow> nat \<Rightarrow> nat \<Rightarrow> nat \<Rightarrow> nat \<Rightarrow> ('z vsys_scheme, errno + unit) kern" where
  "as_define_region rawp a vaddr sz f_sz readable writeable executable =
     (let sz = (sz + vaddr mod PAGE_SIZE) mod 4294967296;
          vaddr = page_frame vaddr;
          sz = page_frame ((sz + PAGE_SIZE - 1) mod 4294967296);
          npages = sz div PAGE_SIZE;
          perm = (readable OR writeable) OR executable
      in
      kbind (as_get a) (\<lambda>as.
      if as_vbase1 as = 0 then
        kbind (as_mod a (\<lambda>as. as\<lparr>as_vbase1 := vaddr, as_npages1 := npages, as_filesz1 := f_sz, as_flag1 := perm\<rparr>)) (\<lambda>_.
        define_seg rawp a Useg1 vaddr sz npages perm)
      else if as_vbase2 as = 0 then
        kbind (as_mod a (\<lambda>as. as\<lparr>as_vbase2 := vaddr, as_npages2 := npages, as_filesz2 := f_sz, as_flag2 := perm\<rparr>)) (\<lambda>_.
        define_seg rawp a Useg2 vaddr sz npages perm)
      else kret (Inl EUNIMP)))"

definition as_prepare_load :: "nat \<Rightarrow> nat \<Rightarrow> ('z vsys_scheme, errno + unit) kern" where
  "as_prepare_load a n_segs = kret (Inr ())"

definition as_complete_load :: "nat \<Rightarrow> ('z vsys_scheme, errno + unit) kern" where
  "as_complete_load a = kret (Inr ())"

definition as_define_stack :: "(nat \<Rightarrow> page) \<Rightarrow> nat \<Rightarrow> ('z vsys_scheme, errno + nat) kern" where
  "as_define_stack rawp a =
     kbind kalloc (\<lambda>mem.
     kbind (on_useg a Usegs (array_preallocate (\<lambda>_. mem) (int DUMBVM_STACKPAGES))) (\<lambda>_.
     kbind (add_pages rawp a Usegs
       (map (\<lambda>i p. p\<lparr>pg_vaddr := USERSTACK - i * PAGE_SIZE, pg_valid := 0, pg_permission := 7\<rparr>)
          [0..<DUMBVM_STACKPAGES])) (\<lambda>_.
     kret (Inr USERSTACK))))"

subsection \<open>Loading an executable\<close>

type_synonym 's vop_io = "nat \<Rightarrow> uio \<Rightarrow> ('s, (errno + unit) \<times> uio) kern"

record elf_ehdr =
  e_ident :: "byte list"
  e_type :: nat
  e_machine :: nat
  e_version :: nat
  e_entry :: nat
  e_phoff :: nat
  e_phentsize :: nat
  e_phnum :: nat

record elf_phdr =
  p_type :: nat
  p_offset :: nat
  p_vaddr :: nat
  p_filesz :: nat
  p_memsz :: nat
  p_flags :: nat

abbreviation sizeof_ehdr :: nat where "sizeof_ehdr \<equiv> 52"
abbreviation sizeof_phdr :: nat where "sizeof_phdr \<equiv> 32"

definition be_at :: "nat \<Rightarrow> nat \<Rightarrow> byte list \<Rightarrow> nat" where
  "be_at off n bs = dec_be (take n (drop off bs))"

definition dec_ehdr :: "byte list \<Rightarrow> elf_ehdr" where
  "dec_ehdr bs =
     \<lparr>e_ident = take 16 bs, e_type = be_at 16 2 bs, e_machine = be_at 18 2 bs, e_version = be_at 20 4 bs,
      e_entry = be_at 24 4 bs, e_phoff = be_at 28 4 bs, e_phentsize = be_at 42 2 bs, e_phnum = be_at 44 2 bs\<rparr>"

definition dec_phdr :: "byte list \<Rightarrow> elf_phdr" where
  "dec_phdr bs =
     \<lparr>p_type = be_at 0 4 bs, p_offset = be_at 4 4 bs, p_vaddr = be_at 8 4 bs, p_filesz = be_at 16 4 bs,
      p_memsz = be_at 20 4 bs, p_flags = be_at 24 4 bs\<rparr>"

abbreviation PT_NULL :: nat where "PT_NULL \<equiv> 0"
abbreviation PT_LOAD :: nat where "PT_LOAD \<equiv> 1"
abbreviation PT_PHDR :: nat where "PT_PHDR \<equiv> 6"
abbreviation PT_MIPS_REGINFO :: nat where "PT_MIPS_REGINFO \<equiv> 1879048192"

text \<open>A read of \<open>n\<close> bytes at an offset of the file into a kernel object; a short read is an error.\<close>

definition elf_read :: "'z vsys_scheme vop_io \<Rightarrow> nat \<Rightarrow> nat \<Rightarrow> int \<Rightarrow> ('z vsys_scheme, errno + byte list) kern" where
  "elf_read vop_read v n offset =
     kbind (vop_read v (mk_kuio (Some (replicate n 0)) 0 n offset UIO_READ)) (\<lambda>(r, ku).
     case r of
       Inl e \<Rightarrow> kret (Inl e)
     | Inr _ \<Rightarrow>
         if uio_resid ku \<noteq> 0 then kret (Inl ENOEXEC)
         else (case iov_obj ku of None \<Rightarrow> khalt BadPtr | Some bs \<Rightarrow> kret (Inr bs)))"

definition elf_magic_ok :: "elf_ehdr \<Rightarrow> bool" where
  "elf_magic_ok eh \<longleftrightarrow>
     \<not> (e_ident eh ! 0 \<noteq> 127 \<or> e_ident eh ! 1 \<noteq> 69 \<or> e_ident eh ! 2 \<noteq> 76 \<or> e_ident eh ! 3 \<noteq> 70 \<or>
        e_ident eh ! 4 \<noteq> 1 \<or> e_ident eh ! 5 \<noteq> 2 \<or> e_ident eh ! 6 \<noteq> 1 \<or>
        e_version eh \<noteq> 1 \<or> e_type eh \<noteq> 2 \<or> e_machine eh \<noteq> 8)"

text \<open>
  The two loops over the segment headers: both read header \<open>i\<close>, skip or reject it by its type, and
  go on with \<open>f i ph\<close>.
\<close>

fun load_loop ::
  "'z vsys_scheme vop_io \<Rightarrow> nat \<Rightarrow> elf_ehdr \<Rightarrow> (nat \<Rightarrow> elf_phdr \<Rightarrow> ('z vsys_scheme, errno + unit) kern) \<Rightarrow>
     nat list \<Rightarrow> ('z vsys_scheme, errno + unit) kern" where
  "load_loop vop_read v eh f [] = kret (Inr ())"
| "load_loop vop_read v eh f (i # is) =
     kbindE (elf_read vop_read v sizeof_phdr (to_off (int (e_phoff eh) + int (i * e_phentsize eh)))) (\<lambda>bs.
     let ph = dec_phdr bs in
     if p_type ph = PT_NULL \<or> p_type ph = PT_PHDR \<or> p_type ph = PT_MIPS_REGINFO
     then load_loop vop_read v eh f is
     else if p_type ph = PT_LOAD then kbindE (f i ph) (\<lambda>_. load_loop vop_read v eh f is)
     else kret (Inl ENOEXEC))"

definition load_elf ::
  "'z vsys_scheme vop_io \<Rightarrow> (nat \<Rightarrow> page) \<Rightarrow> nat \<Rightarrow> ('z vsys_scheme, errno + nat) kern" where
  "load_elf vop_read rawp v =
     kbindE (elf_read vop_read v sizeof_ehdr 0) (\<lambda>bs.
     let eh = dec_ehdr bs in
     if \<not> elf_magic_ok eh then kret (Inl ENOEXEC)
     else
       kbind (kget us_vmspace) (\<lambda>cur.
       kbindE (load_loop vop_read v eh (\<lambda>i ph.
         case cur of
           None \<Rightarrow> khalt BadPtr
         | Some a \<Rightarrow>
             as_define_region rawp a (p_vaddr ph) (p_memsz ph) (p_filesz ph)
               (p_flags ph AND 4) (p_flags ph AND 2) (p_flags ph AND 1)) [0..<e_phnum eh]) (\<lambda>_.
       case cur of
         None \<Rightarrow> khalt BadPtr
       | Some a \<Rightarrow>
           kbindE (as_prepare_load a (e_phnum eh)) (\<lambda>_.
           kbind (as_mod a (\<lambda>as. as\<lparr>as_v := v\<rparr>)) (\<lambda>_.
           kbindE (load_loop vop_read v eh (\<lambda>i ph.
             kbind (if i = 1 then as_mod a (\<lambda>as. as\<lparr>as_off1 := to_off (int (p_offset ph)), as_filesz1 := p_filesz ph\<rparr>)
                    else if i = 2 then as_mod a (\<lambda>as. as\<lparr>as_off2 := to_off (int (p_offset ph)), as_filesz2 := p_filesz ph\<rparr>)
                    else kret ()) (\<lambda>_. kret (Inr ()))) [0..<e_phnum eh]) (\<lambda>_.
           kbindE (as_complete_load a) (\<lambda>_. kret (Inr (e_entry eh)))))))))"

end
