(* ===== verification/Sfs_File.thy ===== *)
theory Sfs_File
  imports Sfs
begin

text \<open>
  Files of SFS.  The contents of a file are the bytes its inode and indirect block lead to; the
  invariant of the volume says that every block belongs to at most one place of one inode and
  that every block in use is marked in the bitmap.  The lemmas show that mapping, allocating,
  reading and writing blocks keep the invariant, act on the contents of one file as an update of
  a byte array, and leave all other files alone.
\<close>

section \<open>Ownership of blocks\<close>

text \<open>
  \<open>owned G K f\<close>: the blocks that \<open>f\<close> assigns to the places \<open>K\<close> lie in \<open>G\<close>, and no two places
  share one.  Block 0 stands for no block.
\<close>

definition owned :: "nat set \<Rightarrow> 'k set \<Rightarrow> ('k \<Rightarrow> nat) \<Rightarrow> bool" where
  "owned G K f \<longleftrightarrow> (\<forall>x\<in>K. f x \<noteq> 0 \<longrightarrow> f x \<in> G) \<and> (\<forall>x\<in>K. \<forall>y\<in>K. f x \<noteq> 0 \<longrightarrow> f x = f y \<longrightarrow> x = y)"

lemma owned_in: "owned G K f \<Longrightarrow> x \<in> K \<Longrightarrow> f x \<noteq> 0 \<Longrightarrow> f x \<in> G"
  by (simp add: owned_def)

lemma owned_inj: "owned G K f \<Longrightarrow> x \<in> K \<Longrightarrow> y \<in> K \<Longrightarrow> f x \<noteq> 0 \<Longrightarrow> f x = f y \<Longrightarrow> x = y"
  by (simp add: owned_def)

lemma owned_cong: "(\<And>x. x \<in> K \<Longrightarrow> f x = g x) \<Longrightarrow> owned G K f = owned G K g"
  by (auto simp: owned_def)

lemma owned_mono: "owned G K f \<Longrightarrow> G \<subseteq> H \<Longrightarrow> owned H K f"
  by (auto simp: owned_def)

lemma owned_alloc: "owned G K f \<Longrightarrow> b \<notin> G \<Longrightarrow> owned (insert b G) K (f(x := b))"
  unfolding owned_def by (metis fun_upd_apply insert_iff)

lemma owned_free: "owned G K f \<Longrightarrow> x \<in> K \<Longrightarrow> f x \<noteq> 0 \<Longrightarrow> owned (G - {f x}) K (f(x := 0))"
  unfolding owned_def by (metis Diff_iff empty_iff fun_upd_apply insert_iff)

section \<open>The places of an inode and the contents of a file\<close>

abbreviation NSLOTS :: nat where "NSLOTS \<equiv> 145"

abbreviation MAXBLOCKS :: nat where "MAXBLOCKS \<equiv> 143"

text \<open>
  Place 0 of an inode is its own block, places 1 to 15 its direct blocks, place 16 its indirect
  block, and the rest the blocks that the indirect block lists.  Block \<open>k\<close> of the file is at
  place \<open>fplace k\<close>.
\<close>

definition inode_slots :: "(nat \<Rightarrow> byte list) \<Rightarrow> sfs_inode \<Rightarrow> nat list" where
  "inode_slots m i =
     sfi_direct i @ sfi_indirect i #
     (if sfi_indirect i = 0 then replicate SFS_DBPERIDB 0 else dec32s SFS_DBPERIDB (m (sfi_indirect i)))"

definition fplace :: "nat \<Rightarrow> nat" where
  "fplace k = (if k < SFS_NDIRECT then k + 1 else k + 2)"

definition vlist :: "'z fsys_scheme \<Rightarrow> nat list" where
  "vlist s = array_list (sfs_vnodes s)"

definition sv_at :: "'z fsys_scheme \<Rightarrow> nat \<Rightarrow> sfs_vnode" where
  "sv_at s v = the (sv_heap s v)"

text \<open>The inode of a file: its copy in memory if it is loaded, otherwise its block.\<close>

definition inode_of :: "'z fsys_scheme \<Rightarrow> nat \<Rightarrow> sfs_inode" where
  "inode_of s ino =
     (case find (\<lambda>v. sv_ino (sv_at s v) = ino) (vlist s) of
        Some v \<Rightarrow> sv_i (sv_at s v)
      | None \<Rightarrow> dec_inode (d_media s ino))"

definition oslot :: "'z fsys_scheme \<Rightarrow> nat \<times> nat \<Rightarrow> nat" where
  "oslot s x = (fst x # inode_slots (d_media s) (inode_of s (fst x))) ! snd x"

definition fbyte :: "'z fsys_scheme \<Rightarrow> nat \<Rightarrow> nat \<Rightarrow> byte" where
  "fbyte s ino p =
     (let b = oslot s (ino, fplace (p div 512)) in
      if p div 512 < MAXBLOCKS \<and> b \<noteq> 0 then d_media s b ! (p mod 512) else 0)"

section \<open>The invariant\<close>

definition meta_blocks :: "'z fsys_scheme \<Rightarrow> nat set" where
  "meta_blocks s = insert 0 {SFS_MAP_LOCATION..<SFS_MAP_LOCATION + SFS_BITBLOCKS (sp_nblocks (sfs_super s))}"

definition data_blocks :: "'z fsys_scheme \<Rightarrow> nat set" where
  "data_blocks s = bm_used (sfs_freemap s) \<inter> {..<sp_nblocks (sfs_super s)} - meta_blocks s"

definition map_ok :: "'z fsys_scheme \<Rightarrow> bool" where
  "map_ok s \<longleftrightarrow> sp_nblocks (sfs_super s) \<le> d_blocks s \<and> bm_inv (sfs_freemap s) \<and>
     sp_nblocks (sfs_super s) \<le> bm_nbits (sfs_freemap s) \<and>
     (\<forall>b. sp_nblocks (sfs_super s) \<le> b \<and> b < bm_nbits (sfs_freemap s) \<longrightarrow> b \<in> bm_used (sfs_freemap s)) \<and>
     meta_blocks s \<subseteq> bm_used (sfs_freemap s)"

definition vtab_ok :: "'z fsys_scheme \<Rightarrow> bool" where
  "vtab_ok s \<longleftrightarrow> array_inv (sfs_vnodes s) \<and> distinct (vlist s) \<and>
     (\<forall>v. sv_heap s v \<noteq> None \<longleftrightarrow> v \<in> set (vlist s)) \<and> (\<forall>v\<in>set (vlist s). v < sv_next s) \<and>
     inj_on (\<lambda>v. sv_ino (sv_at s v)) (set (vlist s))"

definition fs_ok :: "nat set \<Rightarrow> 'z fsys_scheme \<Rightarrow> bool" where
  "fs_ok I s \<longleftrightarrow> disk_ok s \<and> map_ok s \<and> vtab_ok s \<and> finite I \<and> 0 \<notin> I \<and>
     (\<forall>v\<in>set (vlist s). sv_ino (sv_at s v) \<in> I) \<and> (\<forall>ino\<in>I. inode_ok (inode_of s ino)) \<and>
     owned (data_blocks s) (I \<times> {..<NSLOTS}) (oslot s)"

section \<open>Lemmas\<close>

declare fun_upd_apply [simp del] oslot_def [simp del]

lemma fplace_less: "k < MAXBLOCKS \<Longrightarrow> fplace k < NSLOTS"
  by (auto simp: fplace_def)

lemma fplace_inj: "fplace k = fplace j \<Longrightarrow> k = j"
  by (auto simp: fplace_def split: if_splits)

lemma fplace_not [simp]: "fplace k \<noteq> 0" "fplace k \<noteq> 16"
  by (auto simp: fplace_def)

lemma dec32s_zeros: "dec32s n (replicate (4 * n) 0) = replicate n 0"
  by (induction n) (simp_all add: dec_be_def numeral_eq_Suc)

lemma length_inode_slots: "inode_ok i \<Longrightarrow> length (inode_slots m i) = 144"
  by (simp add: inode_slots_def inode_ok_def)

lemma inode_slots_cong:
  "(sfi_indirect i \<noteq> 0 \<Longrightarrow> m' (sfi_indirect i) = m (sfi_indirect i)) \<Longrightarrow> inode_slots m' i = inode_slots m i"
  by (simp add: inode_slots_def)

lemma find_unique:
  assumes "distinct xs" and "inj_on f (set xs)" and "x \<in> set xs"
  shows "find (\<lambda>y. f y = f x) xs = Some x"
proof -
  have "find (\<lambda>y. f y = f x) xs \<noteq> None" using assms(3) by (auto simp: find_None_iff)
  then obtain y where y: "find (\<lambda>y. f y = f x) xs = Some y" by blast
  then have "y \<in> set xs \<and> f y = f x" by (auto simp: find_Some_iff)
  with assms(2,3) y show ?thesis by (metis inj_onD)
qed

lemma inode_of_loaded:
  assumes "vtab_ok s" and "v \<in> set (vlist s)"
  shows "inode_of s (sv_ino (sv_at s v)) = sv_i (sv_at s v)"
  using find_unique [of "vlist s" "\<lambda>v. sv_ino (sv_at s v)" v] assms
  by (simp add: inode_of_def vtab_ok_def)

lemma inode_of_not_loaded:
  "ino \<notin> (\<lambda>v. sv_ino (sv_at s v)) ` set (vlist s) \<Longrightarrow> inode_of s ino = dec_inode (d_media s ino)"
proof -
  assume "ino \<notin> (\<lambda>v. sv_ino (sv_at s v)) ` set (vlist s)"
  then have "find (\<lambda>v. sv_ino (sv_at s v) = ino) (vlist s) = None" by (auto simp: find_None_iff)
  then show ?thesis by (simp add: inode_of_def)
qed

lemma inode_of_cong:
  assumes "vlist s' = vlist s" and "sv_heap s' = sv_heap s"
    and "ino \<notin> (\<lambda>v. sv_ino (sv_at s v)) ` set (vlist s) \<Longrightarrow> d_media s' ino = d_media s ino"
  shows "inode_of s' ino = inode_of s ino"
proof (cases "find (\<lambda>v. sv_ino (sv_at s v) = ino) (vlist s)")
  case None
  then have "ino \<notin> (\<lambda>v. sv_ino (sv_at s v)) ` set (vlist s)" by (auto simp: find_None_iff)
  with None assms show ?thesis by (simp add: inode_of_def sv_at_def)
next
  case (Some v)
  with assms show ?thesis by (simp add: inode_of_def sv_at_def)
qed

lemma oslot_0 [simp]: "oslot s (ino, 0) = ino"
  by (simp add: oslot_def)

lemma oslot_direct: "inode_ok (inode_of s ino) \<Longrightarrow> k < 15 \<Longrightarrow> oslot s (ino, Suc k) = sfi_direct (inode_of s ino) ! k"
  by (simp add: oslot_def inode_slots_def inode_ok_def nth_append)

lemma oslot_16: "inode_ok (inode_of s ino) \<Longrightarrow> oslot s (ino, 16) = sfi_indirect (inode_of s ino)"
  by (simp add: oslot_def inode_slots_def inode_ok_def nth_append)

lemma oslot_entry:
  "inode_ok (inode_of s ino) \<Longrightarrow> j < 128 \<Longrightarrow> sfi_indirect (inode_of s ino) \<noteq> 0 \<Longrightarrow>
     oslot s (ino, j + 17) = dec32s 128 (d_media s (sfi_indirect (inode_of s ino))) ! j"
  by (simp add: oslot_def inode_slots_def inode_ok_def nth_append)

lemma oslot_no_entry:
  "inode_ok (inode_of s ino) \<Longrightarrow> j < 128 \<Longrightarrow> sfi_indirect (inode_of s ino) = 0 \<Longrightarrow> oslot s (ino, j + 17) = 0"
  by (simp add: oslot_def inode_slots_def inode_ok_def nth_append)

lemma fs_okD:
  assumes "fs_ok I s"
  shows "disk_ok s" and "map_ok s" and "vtab_ok s" and "\<And>ino. ino \<in> I \<Longrightarrow> inode_ok (inode_of s ino)"
    and "owned (data_blocks s) (I \<times> {..<NSLOTS}) (oslot s)" and "0 \<notin> I"
    and "\<And>v. v \<in> set (vlist s) \<Longrightarrow> sv_ino (sv_at s v) \<in> I" and "finite I"
  using assms by (simp_all add: fs_ok_def)

lemma data_block_less: "b \<in> data_blocks s \<Longrightarrow> map_ok s \<Longrightarrow> b < d_blocks s"
  by (auto simp: data_blocks_def map_ok_def)

lemma data_blocks_0 [simp]: "0 \<notin> data_blocks s"
  by (simp add: data_blocks_def meta_blocks_def)

lemma fs_ok_slot:
  "fs_ok I s \<Longrightarrow> ino \<in> I \<Longrightarrow> k < NSLOTS \<Longrightarrow> oslot s (ino, k) \<noteq> 0 \<Longrightarrow> oslot s (ino, k) \<in> data_blocks s"
  using owned_in [OF fs_okD(5), of I s "(ino, k)"] by simp

lemma fs_ok_inj:
  "fs_ok I s \<Longrightarrow> ino \<in> I \<Longrightarrow> k < NSLOTS \<Longrightarrow> jno \<in> I \<Longrightarrow> j < NSLOTS \<Longrightarrow> oslot s (ino, k) \<noteq> 0 \<Longrightarrow>
     oslot s (ino, k) = oslot s (jno, j) \<Longrightarrow> ino = jno \<and> k = j"
  using owned_inj [OF fs_okD(5), of I s "(ino, k)" "(jno, j)"] by simp

lemma fs_ok_ino: "fs_ok I s \<Longrightarrow> ino \<in> I \<Longrightarrow> ino \<in> data_blocks s"
  using fs_ok_slot [of I s ino 0] fs_okD(6) by (metis oslot_0 zero_less_numeral)

text \<open>Where the inodes and places of a volume look on the disk.\<close>

definition index_blocks :: "nat set \<Rightarrow> 'z fsys_scheme \<Rightarrow> nat set" where
  "index_blocks I s = I \<union> (\<lambda>ino. oslot s (ino, 16)) ` I"

lemma oslot_cong:
  assumes "fs_ok I s" and "ino \<in> I" and "vlist s' = vlist s" and "sv_heap s' = sv_heap s"
    and "\<And>b. b \<in> index_blocks I s \<Longrightarrow> b \<noteq> 0 \<Longrightarrow> d_media s' b = d_media s b"
  shows "inode_of s' ino = inode_of s ino" and "oslot s' (ino, k) = oslot s (ino, k)"
proof -
  have "ino \<noteq> 0" using assms fs_okD(6) by metis
  then show i: "inode_of s' ino = inode_of s ino"
    using assms by (intro inode_of_cong) (auto simp: index_blocks_def)
  have "sfi_indirect (inode_of s ino) = oslot s (ino, 16)"
    using oslot_16 [OF fs_okD(4) [OF assms(1,2)]] by simp
  then have "inode_slots (d_media s') (inode_of s ino) = inode_slots (d_media s) (inode_of s ino)"
    using assms(2,5) by (intro inode_slots_cong) (auto simp: index_blocks_def)
  then show "oslot s' (ino, k) = oslot s (ino, k)" by (simp add: oslot_def i)
qed

lemma fbyte_cong:
  assumes "\<And>k. oslot s' (ino, k) = oslot s (ino, k)"
    and "\<And>k. k < MAXBLOCKS \<Longrightarrow> oslot s (ino, fplace k) \<noteq> 0 \<Longrightarrow> d_media s' (oslot s (ino, fplace k)) = d_media s (oslot s (ino, fplace k))"
  shows "fbyte s' ino p = fbyte s ino p"
  using assms by (simp add: fbyte_def Let_def)

subsection \<open>Writing a data block\<close>

lemma vlist_simps [simp]:
  "vlist (rd b s) = vlist s" "vlist (wr b bs s) = vlist s" "vlist (mput bs u s) = vlist s"
  "vlist (s\<lparr>sv_heap := h\<rparr>) = vlist s" "vlist (s\<lparr>sfs_freemap := fm\<rparr>) = vlist s" "vlist (s\<lparr>sfs_freemapdirty := d\<rparr>) = vlist s"
  by (simp_all add: vlist_def rd_def wr_def mput_def split: option.splits)

lemma rd_fs [simp]:
  "sfs_live (rd b s) = sfs_live s" "sfs_super (rd b s) = sfs_super s" "sfs_superdirty (rd b s) = sfs_superdirty s"
  "sfs_vnodes (rd b s) = sfs_vnodes s" "sfs_freemap (rd b s) = sfs_freemap s" "sfs_freemapdirty (rd b s) = sfs_freemapdirty s"
  "sv_heap (rd b s) = sv_heap s" "sv_next (rd b s) = sv_next s" "k_mem (rd b s) = k_mem s"
  by (simp_all add: rd_def)

lemma sv_at_simps [simp]: "sv_at (rd b s) = sv_at s" "sv_at (wr b bs s) = sv_at s" "sv_at (mput bs u s) = sv_at s"
  by (simp_all add: sv_at_def fun_eq_iff rd_def wr_def mput_def split: option.splits)

lemma wr_fs [simp]:
  "sfs_live (wr b bs s) = sfs_live s" "sfs_super (wr b bs s) = sfs_super s" "sfs_superdirty (wr b bs s) = sfs_superdirty s"
  "sfs_vnodes (wr b bs s) = sfs_vnodes s" "sfs_freemap (wr b bs s) = sfs_freemap s" "sfs_freemapdirty (wr b bs s) = sfs_freemapdirty s"
  "sv_heap (wr b bs s) = sv_heap s" "sv_next (wr b bs s) = sv_next s" "k_mem (wr b bs s) = k_mem s"
  by (simp_all add: wr_def)

lemma mput_fs [simp]:
  "sfs_live (mput bs u s) = sfs_live s" "sfs_super (mput bs u s) = sfs_super s" "sfs_superdirty (mput bs u s) = sfs_superdirty s"
  "sfs_vnodes (mput bs u s) = sfs_vnodes s" "sfs_freemap (mput bs u s) = sfs_freemap s" "sfs_freemapdirty (mput bs u s) = sfs_freemapdirty s"
  "sv_heap (mput bs u s) = sv_heap s" "sv_next (mput bs u s) = sv_next s" "k_mem (mput bs u s) = k_mem s"
  by (simp_all add: mput_def split: option.splits)

text \<open>What the invariant looks at.\<close>

lemma fs_ok_same:
  assumes "fs_ok I s" and "disk_ok s'" and "d_media s' = d_media s" and "d_blocks s' = d_blocks s"
    and "sfs_super s' = sfs_super s" and "sfs_freemap s' = sfs_freemap s" and "sfs_vnodes s' = sfs_vnodes s"
    and "sv_heap s' = sv_heap s" and "sv_next s' = sv_next s"
  shows "fs_ok I s'" and "oslot s' = oslot s" and "inode_of s' = inode_of s" and "fbyte s' = fbyte s"
proof -
  have v: "vlist s' = vlist s" "sv_at s' = sv_at s" using assms by (simp_all add: vlist_def sv_at_def fun_eq_iff)
  show i: "inode_of s' = inode_of s" by (rule ext) (simp only: inode_of_def v assms(3))
  show o: "oslot s' = oslot s" by (rule ext) (simp only: oslot_def i assms(3))
  show "fbyte s' = fbyte s" by (intro ext) (simp only: fbyte_def o assms(3))
  have "data_blocks s' = data_blocks s" "meta_blocks s' = meta_blocks s"
    using assms(5,6) by (simp_all add: data_blocks_def meta_blocks_def)
  with assms v i o show "fs_ok I s'"
    by (simp add: fs_ok_def map_ok_def vtab_ok_def)
qed

lemma fs_ok_rd:
  assumes "fs_ok I s"
  shows "fs_ok I (rd b s)" and "oslot (rd b s) = oslot s" and "inode_of (rd b s) = inode_of s" and "fbyte (rd b s) = fbyte s"
  by (rule fs_ok_same [OF assms], use fs_okD(1) [OF assms] in simp_all)+

lemma fs_ok_mput:
  assumes "fs_ok I s"
  shows "fs_ok I (mput bs u s)" and "oslot (mput bs u s) = oslot s" and "inode_of (mput bs u s) = inode_of s"
    and "fbyte (mput bs u s) = fbyte s"
  by (rule fs_ok_same [OF assms], use fs_okD(1) [OF assms] in simp_all)+

lemma place_not_index:
  assumes "fs_ok I s" and "ino \<in> I" and "k < NSLOTS" and "k \<noteq> 0" and "k \<noteq> 16" and "oslot s (ino, k) \<noteq> 0"
  shows "oslot s (ino, k) \<notin> index_blocks I s"
proof
  assume "oslot s (ino, k) \<in> index_blocks I s"
  then obtain jno j where j: "jno \<in> I" "j = 0 \<or> j = 16" "oslot s (ino, k) = oslot s (jno, j)"
    unfolding index_blocks_def by (metis (no_types, lifting) Un_iff imageE oslot_0)
  then have "j < NSLOTS" by auto
  with fs_ok_inj [OF assms(1,2,3) j(1) _ assms(6) j(3)] j(2) assms(4,5) show False by auto
qed

text \<open>Overwriting block \<open>k\<close> of a file changes the bytes of that block of that file only.\<close>

lemma wr_data:
  assumes "fs_ok I s" and "ino \<in> I" and "k < MAXBLOCKS" and "oslot s (ino, fplace k) = b" and "b \<noteq> 0" and "length bs = 512"
  shows "fs_ok I (wr b bs s)"
    and "\<And>jno j. jno \<in> I \<Longrightarrow> oslot (wr b bs s) (jno, j) = oslot s (jno, j)"
    and "\<And>jno. jno \<in> I \<Longrightarrow> inode_of (wr b bs s) jno = inode_of s jno"
    and "\<And>p. fbyte (wr b bs s) ino p = (if p div 512 = k then bs ! (p mod 512) else fbyte s ino p)"
    and "\<And>jno p. jno \<in> I \<Longrightarrow> jno \<noteq> ino \<Longrightarrow> fbyte (wr b bs s) jno p = fbyte s jno p"
proof -
  have b: "b \<notin> index_blocks I s"
    using place_not_index [OF assms(1,2) fplace_less [OF assms(3)]] assms(4,5) by auto
  note c = oslot_cong [OF assms(1), where s' = "wr b bs s"]
  show o: "oslot (wr b bs s) (jno, j) = oslot s (jno, j)" if "jno \<in> I" for jno j
    by (rule c(2) [OF that]) (use b in \<open>auto simp: fun_upd_apply\<close>)
  show i: "inode_of (wr b bs s) jno = inode_of s jno" if "jno \<in> I" for jno
    by (rule c(1) [OF that]) (use b in \<open>auto simp: fun_upd_apply\<close>)
  have "owned (data_blocks (wr b bs s)) (I \<times> {..<NSLOTS}) (oslot (wr b bs s))"
    using fs_okD(5) [OF assms(1)] o owned_cong [of "I \<times> {..<NSLOTS}" "oslot (wr b bs s)" "oslot s"]
    by (auto simp: data_blocks_def meta_blocks_def)
  with assms(1,6) i show "fs_ok I (wr b bs s)"
    by (simp add: fs_ok_def map_ok_def vtab_ok_def meta_blocks_def sv_at_def)
  have other: "oslot s (jno, fplace j) \<noteq> b" if "jno \<in> I" "j < MAXBLOCKS" "jno \<noteq> ino \<or> j \<noteq> k" for jno j
  proof
    assume e: "oslot s (jno, fplace j) = b"
    then have "jno = ino \<and> fplace j = fplace k"
      using fs_ok_inj [OF assms(1) that(1) fplace_less [OF that(2)] assms(2) fplace_less [OF assms(3)]] assms(4,5) by simp
    with fplace_inj that(3) show False by blast
  qed
  show "fbyte (wr b bs s) ino p = (if p div 512 = k then bs ! (p mod 512) else fbyte s ino p)" for p
    using other [OF assms(2), of "p div 512"] assms(3-5) by (simp add: fbyte_def Let_def o [OF assms(2)] fun_upd_apply)
  show "fbyte (wr b bs s) jno p = fbyte s jno p" if "jno \<in> I" "jno \<noteq> ino" for jno p
    using other [OF that(1), of "p div 512"] that by (simp add: fbyte_def Let_def o fun_upd_apply)
qed

subsection \<open>Allocating a block\<close>

definition allocated :: "nat \<Rightarrow> bitmap \<Rightarrow> 'z fsys_scheme \<Rightarrow> 'z fsys_scheme" where
  "allocated b fm s = wr b (replicate SFS_BLOCKSIZE 0) (s\<lparr>sfs_freemap := fm, sfs_freemapdirty := True\<rparr>)"

definition marks :: "nat \<Rightarrow> bitmap \<Rightarrow> 'z fsys_scheme \<Rightarrow> bool" where
  "marks b fm s \<longleftrightarrow> b \<notin> bm_used (sfs_freemap s) \<and> b < sp_nblocks (sfs_super s) \<and> bm_inv fm \<and>
     bm_nbits fm = bm_nbits (sfs_freemap s) \<and> bm_used fm = insert b (bm_used (sfs_freemap s))"

lemma sfs_balloc_cases:
  assumes "fs_ok I s"
  obtains (full) "sfs_balloc s = Inr (Inl ENOSPC, s)"
  | (ok) b fm where "sfs_balloc s = Inr (Inr b, allocated b fm s)" and "marks b fm s"
proof (rule bitmap_alloc_cases [of "sfs_freemap s"])
  show "bm_inv (sfs_freemap s)" using fs_okD(2) [OF assms] by (simp add: map_ok_def)
next
  assume "bitmap_alloc (sfs_freemap s) = Inr (Inl ENOSPC, sfs_freemap s)"
  then have "sfs_balloc s = Inr (Inl ENOSPC, s)" by (simp add: sfs_balloc_def on_freemap_def kzoom_def)
  then show thesis by (rule full)
next
  fix b fm
  assume a: "bitmap_alloc (sfs_freemap s) = Inr (Inr b, fm)" "bm_inv fm" "bm_nbits fm = bm_nbits (sfs_freemap s)"
    "b < bm_nbits (sfs_freemap s)" "b \<notin> bm_used (sfs_freemap s)" "bm_used fm = insert b (bm_used (sfs_freemap s))"
  then have nb: "b < sp_nblocks (sfs_super s)" using fs_okD(2) [OF assms] unfolding map_ok_def by (meson not_le_imp_less)
  let ?s = "s\<lparr>sfs_freemap := fm, sfs_freemapdirty := True\<rparr>"
  have "disk_ok ?s" "b < d_blocks ?s"
    using fs_okD(1,2) [OF assms] nb by (simp_all add: disk_ok_def drv_ok_def map_ok_def)
  then have "sfs_wblock (replicate 512 0) b ?s = Inr (Inr (), wr b (replicate 512 0) ?s)"
    by (intro sfs_wblock_ok) simp_all
  with a(1) nb have "sfs_balloc s = Inr (Inr b, allocated b fm s)"
    by (simp add: sfs_balloc_def on_freemap_def kzoom_def sfs_clearblock_def allocated_def)
  moreover have "marks b fm s" using a nb by (simp add: marks_def)
  ultimately show thesis by (rule ok)
qed

lemma allocated_ok:
  assumes "fs_ok I s" and "marks b fm s"
  shows "fs_ok I (allocated b fm s)"
    and "\<And>jno j. jno \<in> I \<Longrightarrow> oslot (allocated b fm s) (jno, j) = oslot s (jno, j)"
    and "\<And>jno. jno \<in> I \<Longrightarrow> inode_of (allocated b fm s) jno = inode_of s jno"
    and "\<And>jno p. jno \<in> I \<Longrightarrow> fbyte (allocated b fm s) jno p = fbyte s jno p"
    and "data_blocks (allocated b fm s) = insert b (data_blocks s)" and "b \<notin> data_blocks s" and "b \<noteq> 0"
proof -
  let ?t = "allocated b fm s"
  have fresh: "b \<notin> data_blocks s" using assms(2) by (simp add: marks_def data_blocks_def)
  have "meta_blocks s \<subseteq> bm_used (sfs_freemap s)" using fs_okD(2) [OF assms(1)] by (simp add: map_ok_def)
  then have m: "b \<notin> meta_blocks s" using assms(2) by (auto simp: marks_def)
  then show "b \<noteq> 0" by (auto simp: meta_blocks_def)
  show "b \<notin> data_blocks s" by (rule fresh)
  show db: "data_blocks ?t = insert b (data_blocks s)"
    using assms(2) m by (auto simp: data_blocks_def allocated_def marks_def meta_blocks_def)
  have ix: "b \<notin> index_blocks I s"
    using fresh fs_ok_ino [OF assms(1)] fs_ok_slot [OF assms(1), of _ 16] \<open>b \<noteq> 0\<close> by (auto simp: index_blocks_def)
  have h: "vlist ?t = vlist s" "sv_heap ?t = sv_heap s" by (simp_all add: allocated_def)
  have md: "c \<noteq> b \<Longrightarrow> d_media ?t c = d_media s c" for c by (simp add: allocated_def fun_upd_apply)
  show o: "oslot ?t (jno, j) = oslot s (jno, j)" if "jno \<in> I" for jno j
    by (rule oslot_cong(2) [OF assms(1) that h]) (use ix md in metis)
  show i: "inode_of ?t jno = inode_of s jno" if "jno \<in> I" for jno
    by (rule oslot_cong(1) [OF assms(1) that h]) (use ix md in metis)
  show "fbyte ?t jno p = fbyte s jno p" if "jno \<in> I" for jno p
    by (rule fbyte_cong) (use o [OF that] fs_ok_slot [OF assms(1) that fplace_less] fresh md in metis)+
  have own: "owned (data_blocks ?t) (I \<times> {..<NSLOTS}) (oslot ?t)"
    using owned_mono [OF fs_okD(5) [OF assms(1)] subset_insertI] o owned_cong [of "I \<times> {..<NSLOTS}" "oslot ?t" "oslot s"]
    unfolding db by auto
  have "disk_ok ?t" using fs_okD(1) [OF assms(1)]
    unfolding allocated_def by (intro disk_ok_wr) (simp_all add: disk_ok_def drv_ok_def)
  moreover have "map_ok ?t" using fs_okD(2) [OF assms(1)] assms(2)
    by (auto simp: map_ok_def marks_def allocated_def meta_blocks_def)
  moreover have "vtab_ok ?t" using fs_okD(3) [OF assms(1)] by (simp add: vtab_ok_def allocated_def sv_at_def)
  ultimately show "fs_ok I ?t"
    using assms(1) own i h by (simp add: fs_ok_def sv_at_def)
qed

subsection \<open>Changing a loaded inode\<close>

definition set_inode :: "nat \<Rightarrow> sfs_inode \<Rightarrow> 'z fsys_scheme \<Rightarrow> 'z fsys_scheme" where
  "set_inode v i s = s\<lparr>sv_heap := (sv_heap s)(v \<mapsto> (sv_at s v)\<lparr>sv_i := i, sv_dirty := True\<rparr>)\<rparr>"

abbreviation ino_of :: "'z fsys_scheme \<Rightarrow> nat \<Rightarrow> nat" where
  "ino_of s v \<equiv> sv_ino (sv_at s v)"

lemma loaded_heap: "vtab_ok s \<Longrightarrow> v \<in> set (vlist s) \<Longrightarrow> sv_heap s v = Some (sv_at s v)"
  by (auto simp: vtab_ok_def sv_at_def)

lemma sv_get_loaded: "vtab_ok s \<Longrightarrow> v \<in> set (vlist s) \<Longrightarrow> sv_get v s = Inr (sv_at s v, s)"
  by (simp add: sv_get_def loaded_heap)

lemma sv_imod_loaded: "vtab_ok s \<Longrightarrow> v \<in> set (vlist s) \<Longrightarrow> sv_imod v f s = Inr ((), set_inode v (f (sv_i (sv_at s v))) s)"
  by (simp add: sv_imod_def sv_mod_def loaded_heap set_inode_def)

lemma set_inode_simps [simp]:
  "vlist (set_inode v i s) = vlist s" "d_media (set_inode v i s) = d_media s" "d_blocks (set_inode v i s) = d_blocks s"
  "d_blocksize (set_inode v i s) = d_blocksize s" "sfs_super (set_inode v i s) = sfs_super s"
  "sfs_freemap (set_inode v i s) = sfs_freemap s" "sfs_vnodes (set_inode v i s) = sfs_vnodes s"
  "sv_next (set_inode v i s) = sv_next s" "k_mem (set_inode v i s) = k_mem s" "sfs_live (set_inode v i s) = sfs_live s"
  "sfs_superdirty (set_inode v i s) = sfs_superdirty s" "us_cur (set_inode v i s) = us_cur s"
  "us_vmspace (set_inode v i s) = us_vmspace s" "us_bytes (set_inode v i s) = us_bytes s" "us_rd (set_inode v i s) = us_rd s"
  "us_wr (set_inode v i s) = us_wr s" "us_badfault (set_inode v i s) = us_badfault s"
  "disk_ok (set_inode v i s) = disk_ok s" "map_ok (set_inode v i s) = map_ok s" "data_blocks (set_inode v i s) = data_blocks s"
  "ino_of (set_inode v i s) w = ino_of s w" "sv_i (sv_at (set_inode v i s) v) = i"
  by (simp_all add: set_inode_def disk_ok_def drv_ok_def map_ok_def data_blocks_def meta_blocks_def sv_at_def fun_upd_apply)

lemma set_inode_heap: "sv_heap (set_inode v i s) w =
    (if w = v then Some ((sv_at s v)\<lparr>sv_i := i, sv_dirty := True\<rparr>) else sv_heap s w)"
  by (simp add: set_inode_def fun_upd_apply)

lemma vtab_ok_set_inode: "vtab_ok s \<Longrightarrow> v \<in> set (vlist s) \<Longrightarrow> vtab_ok (set_inode v i s)"
  by (simp add: vtab_ok_def set_inode_heap)

lemma inode_of_set_inode:
  assumes "vtab_ok s" and "v \<in> set (vlist s)"
  shows "inode_of (set_inode v i s) ino = (if ino = ino_of s v then i else inode_of s ino)"
proof (cases "ino \<in> ino_of s ` set (vlist s)")
  case True
  then obtain w where w: "w \<in> set (vlist s)" "ino = ino_of s w" by blast
  have "inode_of (set_inode v i s) (ino_of (set_inode v i s) w) = sv_i (sv_at (set_inode v i s) w)"
    using vtab_ok_set_inode [OF assms] w(1) by (intro inode_of_loaded) simp_all
  moreover have "ino = ino_of s v \<longleftrightarrow> w = v"
    using w assms unfolding vtab_ok_def by (metis inj_onD)
  ultimately show ?thesis using inode_of_loaded [OF assms(1) w(1)] w(2)
    by (auto simp: sv_at_def set_inode_heap)
next
  case False
  moreover from this assms(2) have "ino \<noteq> ino_of s v" by blast
  ultimately show ?thesis using inode_of_not_loaded [of ino s] inode_of_not_loaded [of ino "set_inode v i s"] by simp
qed

lemma fs_ok_set_inode:
  assumes "fs_ok I s" and "v \<in> set (vlist s)" and "inode_ok i"
    and "owned (data_blocks s) (I \<times> {..<NSLOTS})
      (\<lambda>x. if fst x = ino_of s v then (fst x # inode_slots (d_media s) i) ! snd x else oslot s x)"
  shows "fs_ok I (set_inode v i s)"
    and "\<And>x. oslot (set_inode v i s) x = (if fst x = ino_of s v then (fst x # inode_slots (d_media s) i) ! snd x else oslot s x)"
proof -
  note i = inode_of_set_inode [OF fs_okD(3) [OF assms(1)] assms(2), of i]
  show o: "oslot (set_inode v i s) x = (if fst x = ino_of s v then (fst x # inode_slots (d_media s) i) ! snd x else oslot s x)" for x
    by (simp add: oslot_def i)
  then have "oslot (set_inode v i s) = (\<lambda>x. if fst x = ino_of s v then (fst x # inode_slots (d_media s) i) ! snd x else oslot s x)"
    by (rule ext)
  with assms show "fs_ok I (set_inode v i s)"
    by (simp add: fs_ok_def i vtab_ok_set_inode)
qed

subsection \<open>Adding a block to a file\<close>

text \<open>A place that had no block gets one that is zero.\<close>

lemma fbyte_grow:
  assumes "\<And>j. j < NSLOTS \<Longrightarrow> oslot s' (jno, j) = ((oslot s)(x := b)) (jno, j)" and "oslot s x = 0"
    and "d_media s' b = replicate 512 0"
    and "\<And>j. j < MAXBLOCKS \<Longrightarrow> oslot s (jno, fplace j) \<noteq> 0 \<Longrightarrow> d_media s' (oslot s (jno, fplace j)) = d_media s (oslot s (jno, fplace j))"
  shows "fbyte s' jno p = fbyte s jno p"
proof (cases "p div 512 < MAXBLOCKS")
  case True
  then have o: "oslot s' (jno, fplace (p div 512)) = (if (jno, fplace (p div 512)) = x then b else oslot s (jno, fplace (p div 512)))"
    using assms(1) fplace_less by (simp add: fun_upd_apply)
  show ?thesis
  proof (cases "(jno, fplace (p div 512)) = x")
    case True
    then have "oslot s (jno, fplace (p div 512)) = 0" using assms(2) by simp
    with True o assms(3) show ?thesis by (simp add: fbyte_def Let_def)
  next
    case False
    with o assms(4) [OF True] show ?thesis by (simp add: fbyte_def Let_def)
  qed
qed (simp add: fbyte_def Let_def)

definition same_env :: "'z fsys_scheme \<Rightarrow> 'z fsys_scheme \<Rightarrow> bool" where
  "same_env s s' \<longleftrightarrow> us_cur s' = us_cur s \<and> us_vmspace s' = us_vmspace s \<and> us_bytes s' = us_bytes s \<and> us_rd s' = us_rd s \<and>
     us_wr s' = us_wr s \<and> us_badfault s' = us_badfault s \<and> d_blocks s' = d_blocks s \<and> d_blocksize s' = d_blocksize s \<and>
     sfs_live s' = sfs_live s \<and> sfs_super s' = sfs_super s \<and> sfs_superdirty s' = sfs_superdirty s \<and>
     sfs_vnodes s' = sfs_vnodes s \<and> sv_next s' = sv_next s \<and> k_mem s' = k_mem s \<and>
     fsys.more s' = fsys.more s"

lemma same_env_refl [simp]: "same_env s s"
  by (simp add: same_env_def)

lemma same_env_trans: "same_env s s' \<Longrightarrow> same_env s' s'' \<Longrightarrow> same_env s s''"
  by (simp add: same_env_def)

lemma same_env_steps [simp]:
  "same_env s (rd b s)" "same_env s (wr b bs s)" "same_env s (allocated b fm s)" "same_env s (set_inode v i s)"
  by (simp_all add: same_env_def allocated_def) (simp_all add: rd_def wr_def set_inode_def)

lemma same_env_vlist: "same_env s s' \<Longrightarrow> vlist s' = vlist s"
  by (simp add: same_env_def vlist_def)

text \<open>Two inodes that differ in their blocks at most.\<close>

definition same_attr :: "sfs_inode \<Rightarrow> sfs_inode \<Rightarrow> bool" where
  "same_attr i j \<longleftrightarrow> sfi_size i = sfi_size j \<and> sfi_type i = sfi_type j \<and> sfi_linkcount i = sfi_linkcount j \<and>
     sfi_waste i = sfi_waste j"

text \<open>
  A step on the file of the vnode \<open>v\<close>: the invariant holds afterwards; other vnodes, inodes and
  contents are as before; the vnode differs in the blocks of its inode and its dirty bit at most.
\<close>

definition vstep :: "nat \<Rightarrow> 'z fsys_scheme \<Rightarrow> 'z fsys_scheme \<Rightarrow> bool" where
  "vstep v s s' \<longleftrightarrow> (\<forall>w. w \<noteq> v \<longrightarrow> sv_heap s' w = sv_heap s w) \<and>
     (\<exists>i d. sv_heap s' v = Some ((sv_at s v)\<lparr>sv_i := i, sv_dirty := d\<rparr>) \<and> same_attr i (sv_i (sv_at s v)))"

definition fstep :: "nat set \<Rightarrow> nat \<Rightarrow> 'z fsys_scheme \<Rightarrow> 'z fsys_scheme \<Rightarrow> bool" where
  "fstep I v s s' \<longleftrightarrow> fs_ok I s' \<and> same_env s s' \<and> vstep v s s' \<and>
     (\<forall>jno\<in>I. jno \<noteq> ino_of s v \<longrightarrow> inode_of s' jno = inode_of s jno \<and> (\<forall>p. fbyte s' jno p = fbyte s jno p))"

lemma vstep_refl: "vtab_ok s \<Longrightarrow> v \<in> set (vlist s) \<Longrightarrow> vstep v s s"
  using loaded_heap [of s v] unfolding vstep_def same_attr_def
  by (metis sfs_vnode.surjective sfs_vnode.update_convs(5) sfs_vnode.update_convs(7))

lemma vstep_heap: "vtab_ok s \<Longrightarrow> v \<in> set (vlist s) \<Longrightarrow> sv_heap s' = sv_heap s \<Longrightarrow> vstep v s s'"
  using vstep_refl [of s v] by (simp add: vstep_def)

lemma vstep_trans: "vstep v s s' \<Longrightarrow> vstep v s' s'' \<Longrightarrow> vstep v s s''"
  by (auto simp: vstep_def same_attr_def sv_at_def) blast

lemma vstep_set_inode: "same_attr i (sv_i (sv_at s v)) \<Longrightarrow> vstep v s (set_inode v i s)"
  by (auto simp: vstep_def set_inode_heap)

lemma vstep_at:
  assumes "vstep v s s'"
  shows "ino_of s' w = ino_of s w" and "w \<noteq> v \<Longrightarrow> sv_at s' w = sv_at s w" and "same_attr (sv_i (sv_at s' v)) (sv_i (sv_at s v))"
  using assms by (cases "w = v"; auto simp: vstep_def sv_at_def)+

lemma fstepD:
  assumes "fstep I v s s'"
  shows "fs_ok I s'" and "same_env s s'" and "vstep v s s'" and "vlist s' = vlist s" and "ino_of s' v = ino_of s v"
  using assms same_env_vlist [of s s'] vstep_at(1) [of v s s'] by (auto simp: fstep_def)

lemma fstep_refl: "fs_ok I s \<Longrightarrow> v \<in> set (vlist s) \<Longrightarrow> fstep I v s s"
  by (simp add: fstep_def vstep_refl fs_okD(3))

lemma fstep_trans: "fstep I v s s' \<Longrightarrow> fstep I v s' s'' \<Longrightarrow> fstep I v s s''"
  using vstep_trans [of v s s' s''] same_env_trans [of s s' s''] vstep_at(1) [of v s s' v] by (auto simp: fstep_def)

lemma fstep_rd: "fs_ok I s \<Longrightarrow> v \<in> set (vlist s) \<Longrightarrow> fstep I v s (rd b s)"
  by (simp add: fstep_def fs_ok_rd vstep_heap fs_okD(3))

text \<open>The inode with a new direct block, and with a new indirect block.\<close>

lemma grow_slots:
  assumes "inode_ok i"
  shows "k < 15 \<Longrightarrow> j < NSLOTS \<Longrightarrow>
      (ino # inode_slots m (i\<lparr>sfi_direct := (sfi_direct i)[k := b]\<rparr>)) ! j =
      (if j = Suc k then b else (ino # inode_slots m i) ! j)"
    and "j < NSLOTS \<Longrightarrow> sfi_indirect i = 0 \<Longrightarrow> b \<noteq> 0 \<Longrightarrow> m b = replicate 512 0 \<Longrightarrow>
      (ino # inode_slots m (i\<lparr>sfi_indirect := b\<rparr>)) ! j = (if j = 16 then b else (ino # inode_slots m i) ! j)"
proof -
  show "(ino # inode_slots m (i\<lparr>sfi_direct := (sfi_direct i)[k := b]\<rparr>)) ! j =
      (if j = Suc k then b else (ino # inode_slots m i) ! j)" if "k < 15" "j < NSLOTS"
    using that assms by (cases j) (auto simp: inode_slots_def inode_ok_def nth_append nth_list_update)
  show "(ino # inode_slots m (i\<lparr>sfi_indirect := b\<rparr>)) ! j = (if j = 16 then b else (ino # inode_slots m i) ! j)"
    if "j < NSLOTS" "sfi_indirect i = 0" "b \<noteq> 0" "m b = replicate 512 0"
    using that assms dec32s_zeros [of 128] by (cases j) (auto simp: inode_slots_def inode_ok_def nth_append nth_Cons')
qed

text \<open>
  A block was allocated and then hung into the inode of \<open>v\<close> at the place \<open>j\<close>, which was empty.
\<close>

lemma grow_step:
  assumes "fs_ok I s" and "v \<in> set (vlist s)" and "marks b fm s" and "inode_ok i" and "same_attr i (sv_i (sv_at s v))"
    and "oslot s (ino_of s v, j) = 0"
    and "\<And>k. k < NSLOTS \<Longrightarrow> (ino_of s v # inode_slots (d_media (allocated b fm s)) i) ! k =
      (if k = j then b else oslot s (ino_of s v, k))"
  shows "fstep I v s (set_inode v i (allocated b fm s))"
    and "\<And>x. x \<in> I \<times> {..<NSLOTS} \<Longrightarrow> oslot (set_inode v i (allocated b fm s)) x = ((oslot s)((ino_of s v, j) := b)) x"
    and "\<And>jno p. jno \<in> I \<Longrightarrow> fbyte (set_inode v i (allocated b fm s)) jno p = fbyte s jno p"
proof -
  let ?a = "allocated b fm s" and ?ino = "ino_of s v"
  let ?t = "set_inode v i ?a"
  note a = allocated_ok [OF assms(1,3)]
  have va: "v \<in> set (vlist ?a)" "sv_at ?a = sv_at s" using assms(2) by (simp_all add: allocated_def sv_at_def fun_eq_iff)
  let ?f = "\<lambda>x. if fst x = ino_of ?a v then (fst x # inode_slots (d_media ?a) i) ! snd x else oslot ?a x"
  have f: "?f x = ((oslot s)((?ino, j) := b)) x" if "x \<in> I \<times> {..<NSLOTS}" for x
    using that assms(7) a(2) va(2) by (cases x) (auto simp: fun_upd_apply)
  have own: "owned (data_blocks ?a) (I \<times> {..<NSLOTS}) ?f"
    using owned_alloc [OF fs_okD(5) [OF assms(1)] a(6), of "(?ino, j)"] f owned_cong [of "I \<times> {..<NSLOTS}" ?f] unfolding a(5) by blast
  note t = fs_ok_set_inode [OF a(1) va(1) assms(4) own]
  show o: "oslot ?t x = ((oslot s)((?ino, j) := b)) x" if "x \<in> I \<times> {..<NSLOTS}" for x
    using t(2) [of x] f [OF that] by simp
  have fr: "oslot s (jno, fplace q) \<noteq> b" if "jno \<in> I" "q < MAXBLOCKS" for jno q
    using fs_ok_slot [OF assms(1) that(1) fplace_less [OF that(2)]] a(6,7) by metis
  show fb: "fbyte ?t jno p = fbyte s jno p" if "jno \<in> I" for jno p
  proof (rule fbyte_grow [where x = "(?ino, j)" and b = b])
    show "oslot ?t (jno, k) = ((oslot s)((?ino, j) := b)) (jno, k)" if "k < NSLOTS" for k
      using o \<open>jno \<in> I\<close> that by simp
    show "d_media ?t b = replicate 512 0" by (simp add: allocated_def fun_upd_apply)
    show "d_media ?t (oslot s (jno, fplace q)) = d_media s (oslot s (jno, fplace q))" if "q < MAXBLOCKS" for q
      using fr [OF \<open>jno \<in> I\<close> that] by (simp add: allocated_def fun_upd_apply)
  qed (rule assms(6))
  have "vstep v s ?t"
    using vstep_set_inode [of i ?a v] assms(5) va(2) by (simp add: vstep_def allocated_def)
  moreover have "same_env s ?t" using same_env_trans [of s ?a ?t] by simp
  moreover have "inode_of ?t jno = inode_of s jno" if "jno \<in> I" "jno \<noteq> ?ino" for jno
    using inode_of_set_inode [OF fs_okD(3) [OF a(1)] va(1)] va(2) a(3) [OF that(1)] that(2) by simp
  ultimately show "fstep I v s ?t" using t(1) fb by (simp add: fstep_def)
qed

lemma u32_block: "map_ok s \<Longrightarrow> disk_ok s \<Longrightarrow> b < sp_nblocks (sfs_super s) \<Longrightarrow> u32 b"
  by (auto simp: map_ok_def disk_ok_def drv_ok_def u32_def)

lemma bmap_hand_back_ok:
  assumes "fs_ok I s" and "b \<in> data_blocks s"
  shows "bmap_hand_back b s = Inr (Inr b, s)"
proof -
  have "b \<noteq> 0" "b < sp_nblocks (sfs_super s)" "b \<in> bm_used (sfs_freemap s)"
    using assms(2) by (metis data_blocks_0, simp_all add: data_blocks_def)
  moreover have "bitmap_isset b (sfs_freemap s) = Inr (b \<in> bm_used (sfs_freemap s))"
    using fs_okD(2) [OF assms(1)] calculation by (intro bitmap_isset_iff) (auto simp: map_ok_def)
  ultimately show ?thesis by (simp add: bmap_hand_back_def sfs_bused_def kbind_def)
qed

lemma bmap_hand_back_0 [simp]: "bmap_hand_back 0 s = Inr (Inr 0, s)"
  by (simp add: bmap_hand_back_def)

lemma bmap_hand_back_slot:
  assumes "fs_ok I s" and "ino \<in> I" and "k < NSLOTS"
  shows "bmap_hand_back (oslot s (ino, k)) s = Inr (Inr (oslot s (ino, k)), s)"
  using bmap_hand_back_ok [OF assms(1) fs_ok_slot [OF assms]] by (cases "oslot s (ino, k) = 0") simp_all

text \<open>Facts about a loaded vnode that the mapping of blocks uses.\<close>

lemma loadedD:
  assumes "fs_ok I s" and "v \<in> set (vlist s)"
  shows "ino_of s v \<in> I" and "inode_of s (ino_of s v) = sv_i (sv_at s v)" and "inode_ok (sv_i (sv_at s v))"
    and "sv_get v s = Inr (sv_at s v, s)"
    and "k < 15 \<Longrightarrow> sfi_direct (sv_i (sv_at s v)) ! k = oslot s (ino_of s v, Suc k)"
    and "sfi_indirect (sv_i (sv_at s v)) = oslot s (ino_of s v, 16)"
proof -
  show ino: "ino_of s v \<in> I" using assms fs_okD(7) by blast
  show i: "inode_of s (ino_of s v) = sv_i (sv_at s v)" using inode_of_loaded [OF fs_okD(3) [OF assms(1)] assms(2)] .
  show "inode_ok (sv_i (sv_at s v))" using fs_okD(4) [OF assms(1) ino] i by simp
  show "sv_get v s = Inr (sv_at s v, s)" by (rule sv_get_loaded [OF fs_okD(3) [OF assms(1)] assms(2)])
  show "k < 15 \<Longrightarrow> sfi_direct (sv_i (sv_at s v)) ! k = oslot s (ino_of s v, Suc k)"
    using oslot_direct [OF fs_okD(4) [OF assms(1) ino]] i by simp
  show "sfi_indirect (sv_i (sv_at s v)) = oslot s (ino_of s v, 16)"
    using oslot_16 [OF fs_okD(4) [OF assms(1) ino]] i by simp
qed

text \<open>Looking a block up without allocating.\<close>

lemma sfs_bmap_lookup:
  assumes "fs_ok I s" and "v \<in> set (vlist s)" and "k < MAXBLOCKS"
  shows "\<exists>s'. sfs_bmap v k False s = Inr (Inr (oslot s (ino_of s v, fplace k)), s') \<and> (s' = s \<or> (\<exists>b. s' = rd b s))"
proof (cases "k < 15")
  case True
  then show ?thesis
    using loadedD [OF assms(1,2)] bmap_hand_back_slot [OF assms(1) loadedD(1) [OF assms(1,2)], of "Suc k"]
    by (simp add: sfs_bmap_def fplace_def)
next
  case False
  note l = loadedD [OF assms(1,2)]
  let ?ind = "oslot s (ino_of s v, 16)"
  from False assms(3) obtain j where k: "k = j + 15" "j < 128" using that [of "k - 15"] by simp
  have pl: "fplace k = j + 17" using k by (simp add: fplace_def)
  show ?thesis
  proof (cases "?ind = 0")
    case True
    then have "sfs_bmap v k False s = Inr (Inr 0, s)" using k l(4,6) by (simp add: sfs_bmap_def)
    moreover have "oslot s (ino_of s v, fplace k) = 0"
      using oslot_no_entry [of s "ino_of s v" j] True k(2) l(2,3,6) pl by simp
    ultimately show ?thesis by simp
  next
    case False
    then have d: "?ind \<in> data_blocks s" using fs_ok_slot [OF assms(1) l(1), of 16] by simp
    have r: "sfs_rblock ?ind s = Inr (Inr (d_media s ?ind), rd ?ind s)"
      using sfs_rblock_ok [OF fs_okD(1) [OF assms(1)]] data_block_less [OF d] fs_okD(2) [OF assms(1)] by simp
    have e: "dec32s 128 (d_media s ?ind) ! j = oslot s (ino_of s v, fplace k)"
      using oslot_entry [of s "ino_of s v" j] k l(2,3,6) False pl by simp
    have "bmap_hand_back (oslot s (ino_of s v, fplace k)) (rd ?ind s) = Inr (Inr (oslot s (ino_of s v, fplace k)), rd ?ind s)"
      using bmap_hand_back_slot [OF fs_ok_rd(1) [OF assms(1)] l(1) fplace_less [OF assms(3)], of ?ind] fs_ok_rd(2) [OF assms(1)] by simp
    then have "sfs_bmap v k False s = Inr (Inr (oslot s (ino_of s v, fplace k)), rd ?ind s)"
      using False k l(4,6) r e by (simp add: sfs_bmap_def Let_def)
    then show ?thesis by blast
  qed
qed

lemma sfs_bmap_too_big:
  assumes "fs_ok I s" and "v \<in> set (vlist s)" and "MAXBLOCKS \<le> k"
  shows "sfs_bmap v k doalloc s = Inr (Inl EINVAL, s)"
proof -
  have "0 < (k - 15) div 128" using assms(3) by (simp add: div_greater_zero_iff)
  then show ?thesis using assms(3) loadedD(4) [OF assms(1,2)] by (simp add: sfs_bmap_def Let_def)
qed

lemma grow_entry:
  assumes "fs_ok I s" and "v \<in> set (vlist s)" and "marks b fm s" and "oslot s (ino_of s v, 16) = ind" and "ind \<noteq> 0"
    and "j < 128" and "oslot s (ino_of s v, j + 17) = 0"
    and "t = wr ind (enc32s ((dec32s 128 (d_media s ind))[j := b])) (allocated b fm s)"
  shows "fstep I v s t" and "\<And>x. x \<in> I \<times> {..<NSLOTS} \<Longrightarrow> oslot t x = ((oslot s)((ino_of s v, j + 17) := b)) x"
    and "\<And>jno p. jno \<in> I \<Longrightarrow> fbyte t jno p = fbyte s jno p"
proof -
  let ?a = "allocated b fm s" and ?ino = "ino_of s v" and ?buf = "(dec32s 128 (d_media s ind))[j := b]"
  note a = allocated_ok [OF assms(1,3)] and l = loadedD [OF assms(1,2)]
  have disk: "length (d_media s ind) = 512" using fs_okD(1) [OF assms(1)] by (simp add: disk_ok_def drv_ok_def)
  have "u32 b" using u32_block fs_okD(1,2) [OF assms(1)] assms(3) by (auto simp: marks_def)
  then have u: "list_all u32 ?buf" using dec32s_u32 [of 128 "d_media s ind"] disk assms(6)
    by (auto simp: list_all_length nth_list_update)
  have dec: "dec32s 128 (enc32s ?buf) = ?buf" using dec_enc32s [OF u, of "[]"] by simp
  have bi: "b \<noteq> ind" using a(6) fs_ok_slot [OF assms(1) l(1), of 16] assms(4,5) by auto
  have h: "vlist t = vlist s" "sv_heap t = sv_heap s" "sv_at t = sv_at s" by (simp_all add: assms(8) allocated_def sv_at_def fun_eq_iff)
  have md: "d_media t c = (if c = ind then enc32s ?buf else if c = b then replicate 512 0 else d_media s c)" for c
    by (simp add: assms(8) allocated_def fun_upd_apply)
  have noI: "jno \<noteq> ind" "jno \<noteq> b" if "jno \<in> I" for jno
    using fs_ok_inj [OF assms(1) l(1), of 16 jno 0] that assms(4,5) a(6) fs_ok_ino [OF assms(1) that] by auto
  have i: "inode_of t jno = inode_of s jno" if "jno \<in> I" for jno
    using noI [OF that] md h by (intro inode_of_cong) simp_all
  have slots: "inode_slots (d_media t) (inode_of s jno) = inode_slots (d_media s) (inode_of s jno)" if "jno \<in> I" "jno \<noteq> ?ino" for jno
  proof (rule inode_slots_cong)
    assume nz: "sfi_indirect (inode_of s jno) \<noteq> 0"
    have e: "sfi_indirect (inode_of s jno) = oslot s (jno, 16)" using oslot_16 [OF fs_okD(4) [OF assms(1) that(1)]] by simp
    then have "oslot s (jno, 16) \<noteq> ind" using fs_ok_inj [OF assms(1) l(1), of 16 jno 16] that assms(4,5) by auto
    moreover have "oslot s (jno, 16) \<noteq> b" using fs_ok_slot [OF assms(1) that(1), of 16] nz e a(6) by auto
    ultimately show "d_media t (sfi_indirect (inode_of s jno)) = d_media s (sfi_indirect (inode_of s jno))" using md e by simp
  qed
  have own_slots: "(?ino # inode_slots (d_media t) (inode_of s ?ino)) ! k =
      (if k = j + 17 then b else (?ino # inode_slots (d_media s) (inode_of s ?ino)) ! k)" if "k < NSLOTS" for k
    using that md l(2,3,6) assms(4,5,6) dec by (cases k) (auto simp: inode_slots_def inode_ok_def nth_append nth_Cons' nth_list_update)
  show o: "oslot t x = ((oslot s)((?ino, j + 17) := b)) x" if "x \<in> I \<times> {..<NSLOTS}" for x
  proof -
    obtain jno k where x: "x = (jno, k)" "jno \<in> I" "k < NSLOTS" using \<open>x \<in> I \<times> {..<NSLOTS}\<close> by auto
    show ?thesis
    proof (cases "jno = ?ino")
      case True
      have "oslot t x = (?ino # inode_slots (d_media t) (inode_of s ?ino)) ! k"
        using True x(1) i [OF x(2)] by (simp only: oslot_def fst_conv snd_conv)
      also have "\<dots> = (if k = j + 17 then b else oslot s x)"
        using own_slots [OF x(3)] True x(1) by (simp only: oslot_def fst_conv snd_conv)
      finally show ?thesis using True x(1) by (simp add: fun_upd_apply)
    next
      case False
      then show ?thesis using slots [OF x(2)] i [OF x(2)] x(1) by (simp add: oslot_def fun_upd_apply)
    qed
  qed
  have fr: "oslot s (jno, fplace q) \<noteq> b \<and> oslot s (jno, fplace q) \<noteq> ind" if "jno \<in> I" "q < MAXBLOCKS" for jno q
  proof
    show "oslot s (jno, fplace q) \<noteq> b" using fs_ok_slot [OF assms(1) that(1) fplace_less [OF that(2)]] a(6,7) by metis
    show "oslot s (jno, fplace q) \<noteq> ind"
      using fs_ok_inj [OF assms(1) that(1) fplace_less [OF that(2)] l(1), of 16] assms(4,5) fplace_not(2) by auto
  qed
  show fb: "fbyte t jno p = fbyte s jno p" if "jno \<in> I" for jno p
  proof (rule fbyte_grow [where x = "(?ino, j + 17)" and b = b])
    show "oslot t (jno, k) = ((oslot s)((?ino, j + 17) := b)) (jno, k)" if "k < NSLOTS" for k
      using o \<open>jno \<in> I\<close> that by simp
    show "d_media t b = replicate 512 0" using md bi by simp
    show "d_media t (oslot s (jno, fplace q)) = d_media s (oslot s (jno, fplace q))" if "q < MAXBLOCKS" for q
      using fr [OF \<open>jno \<in> I\<close> that] md by simp
  qed (rule assms(7))
  have db: "data_blocks t = insert b (data_blocks s)" using a(5) by (simp add: assms(8) data_blocks_def meta_blocks_def)
  have "owned (data_blocks t) (I \<times> {..<NSLOTS}) (oslot t)"
    using owned_alloc [OF fs_okD(5) [OF assms(1)] a(6), of "(?ino, j + 17)"] o owned_cong [of "I \<times> {..<NSLOTS}" "oslot t"] unfolding db by blast
  moreover have "disk_ok t" "map_ok t" "vtab_ok t"
    using fs_okD(1-3) [OF a(1)] by (simp_all add: assms(8) map_ok_def meta_blocks_def vtab_ok_def sv_at_def)
  ultimately have "fs_ok I t" using assms(1) h i by (simp add: fs_ok_def)
  moreover have "same_env s t" unfolding assms(8) using same_env_trans [of s ?a] by simp
  moreover have "vstep v s t" by (rule vstep_heap [OF fs_okD(3) [OF assms(1)] assms(2) h(2)])
  ultimately show "fstep I v s t" using i fb by (simp add: fstep_def)
qed

subsection \<open>Mapping a block for writing\<close>

definition mapped :: "nat set \<Rightarrow> nat \<Rightarrow> nat \<Rightarrow> 'z fsys_scheme \<Rightarrow> errno + nat \<Rightarrow> 'z fsys_scheme \<Rightarrow> bool" where
  "mapped I v k s r s' \<longleftrightarrow> fstep I v s s' \<and> (\<forall>jno\<in>I. \<forall>p. fbyte s' jno p = fbyte s jno p) \<and>
     (r = Inl ENOSPC \<or> (\<exists>b. r = Inr b \<and> b \<noteq> 0 \<and> oslot s' (ino_of s v, fplace k) = b))"

lemma mapped_trans:
  "fstep I v s s' \<Longrightarrow> \<forall>jno\<in>I. \<forall>p. fbyte s' jno p = fbyte s jno p \<Longrightarrow> mapped I v k s' r s'' \<Longrightarrow> mapped I v k s r s''"
  using fstep_trans [of I v s s' s''] fstepD(5) [of I v s s'] by (auto simp: mapped_def)

lemma mapped_full: "fs_ok I s \<Longrightarrow> v \<in> set (vlist s) \<Longrightarrow> mapped I v k s (Inl ENOSPC) s"
  by (simp add: mapped_def fstep_refl)

lemma mapped_there:
  assumes "fs_ok I s" and "v \<in> set (vlist s)" and "k < MAXBLOCKS" and "oslot s (ino_of s v, fplace k) \<noteq> 0"
  shows "kruns (bmap_hand_back (oslot s (ino_of s v, fplace k))) s (mapped I v k s)"
  using bmap_hand_back_slot [OF assms(1) loadedD(1) [OF assms(1,2)] fplace_less [OF assms(3)]] assms
  by (simp add: kruns_Inr mapped_def fstep_refl)

lemma mapped_new:
  assumes "fs_ok I s" and "v \<in> set (vlist s)" and "k < MAXBLOCKS" and "fstep I v s t" and "b \<noteq> 0"
    and "\<And>x. x \<in> I \<times> {..<NSLOTS} \<Longrightarrow> oslot t x = ((oslot s)((ino_of s v, fplace k) := b)) x"
    and "\<And>jno p. jno \<in> I \<Longrightarrow> fbyte t jno p = fbyte s jno p"
  shows "kruns (bmap_hand_back b) t (mapped I v k s)"
proof -
  have ino: "ino_of s v \<in> I" using loadedD(1) [OF assms(1,2)] .
  then have o: "oslot t (ino_of s v, fplace k) = b" using assms(6) [of "(ino_of s v, fplace k)"] fplace_less [OF assms(3)]
    by (simp add: fun_upd_apply)
  have "b \<in> data_blocks t" using fs_ok_slot [OF fstepD(1) [OF assms(4)] ino fplace_less [OF assms(3)]] o assms(5) by simp
  with bmap_hand_back_ok [OF fstepD(1) [OF assms(4)]] o assms(4,5,7) show ?thesis by (simp add: kruns_Inr mapped_def)
qed

lemma bmap_entry:
  assumes "fs_ok I s" and "v \<in> set (vlist s)" and "oslot s (ino_of s v, 16) = ind" and "ind \<noteq> 0" and "j < 128"
    and "buf = dec32s 128 (d_media s ind)"
  shows "kruns (kbindE
       (if buf ! j = 0 then
          kbindE sfs_balloc (\<lambda>block. kbindE (sfs_wblock (enc32s (buf[j := block])) ind) (\<lambda>_. kret (Inr block)))
        else kret (Inr (buf ! j))) bmap_hand_back) s (mapped I v (j + 15) s)"
proof -
  note l = loadedD [OF assms(1,2)]
  have k: "j + 15 < MAXBLOCKS" "fplace (j + 15) = j + 17" using assms(5) by (simp_all add: fplace_def)
  have e: "buf ! j = oslot s (ino_of s v, fplace (j + 15))"
    using oslot_entry [of s "ino_of s v" j] assms(3-6) l(2,3,6) k(2) by simp
  show ?thesis
  proof (cases "buf ! j = 0")
    case False
    then show ?thesis using mapped_there [OF assms(1,2) k(1)] e by (simp add: kruns_simps)
  next
    case True
    show ?thesis
    proof (rule sfs_balloc_cases [OF assms(1)])
      assume "sfs_balloc s = Inr (Inl ENOSPC, s)"
      then show ?thesis using True mapped_full [OF assms(1,2)] by (simp add: kruns_simps kruns_Inr)
    next
      fix b fm
      assume b: "sfs_balloc s = Inr (Inr b, allocated b fm s)" and mk: "marks b fm s"
      let ?a = "allocated b fm s"
      let ?t = "wr ind (enc32s (buf[j := b])) ?a"
      have ind: "ind \<in> data_blocks s" using fs_ok_slot [OF assms(1) l(1), of 16] assms(3,4) by simp
      have "ind < d_blocks ?a" using data_block_less [OF ind fs_okD(2) [OF assms(1)]] by (simp add: allocated_def)
      then have w: "sfs_wblock (enc32s (buf[j := b])) ind ?a = Inr (Inr (), ?t)"
        using fs_okD(1) [OF allocated_ok(1) [OF assms(1) mk]] assms(6) by (intro sfs_wblock_ok) simp_all
      have z: "oslot s (ino_of s v, j + 17) = 0" using True e k(2) by simp
      have "?t = wr ind (enc32s ((dec32s 128 (d_media s ind))[j := b])) ?a" by (simp only: assms(6))
      note g = grow_entry [OF assms(1,2) mk assms(3,4,5) z this]
      have "kruns (bmap_hand_back b) ?t (mapped I v (j + 15) s)"
        by (rule mapped_new [OF assms(1,2) k(1) g(1) allocated_ok(7) [OF assms(1) mk]]) (use g(2,3) k(2) in simp_all)
      then show ?thesis using True b w by (simp add: kruns_simps kruns_Inr)
    qed
  qed
qed

lemma sfs_bmap_alloc:
  assumes "fs_ok I s" and "v \<in> set (vlist s)" and "k < MAXBLOCKS"
  shows "kruns (sfs_bmap v k True) s (mapped I v k s)"
proof (cases "k < 15")
  case True
  note l = loadedD [OF assms(1,2)]
  have p: "fplace k = Suc k" using True by (simp add: fplace_def)
  show ?thesis
  proof (cases "oslot s (ino_of s v, Suc k) = 0")
    case False
    then show ?thesis using mapped_there [OF assms] l(4,5) True p by (simp add: sfs_bmap_def kruns_simps kruns_Inr)
  next
    case z: True
    show ?thesis
    proof (rule sfs_balloc_cases [OF assms(1)])
      assume "sfs_balloc s = Inr (Inl ENOSPC, s)"
      then show ?thesis using z True l(4,5) mapped_full [OF assms(1,2)] by (simp add: sfs_bmap_def kruns_simps kruns_Inr)
    next
      fix b fm
      assume b: "sfs_balloc s = Inr (Inr b, allocated b fm s)" and mk: "marks b fm s"
      let ?a = "allocated b fm s" and ?i = "(sv_i (sv_at s v))\<lparr>sfi_direct := (sfi_direct (sv_i (sv_at s v)))[k := b]\<rparr>"
      have at: "sv_at ?a = sv_at s" "vlist ?a = vlist s" by (simp_all add: allocated_def sv_at_def fun_eq_iff)
      have "u32 b" using u32_block fs_okD(1,2) [OF assms(1)] mk by (auto simp: marks_def)
      then have i: "inode_ok ?i" using l(3) True by (auto simp: inode_ok_def list_all_length nth_list_update)
      have sl: "(ino_of s v # inode_slots (d_media ?a) ?i) ! q = (if q = Suc k then b else oslot s (ino_of s v, q))" if "q < NSLOTS" for q
      proof -
        have "oslot ?a (ino_of s v, q) = (ino_of s v # inode_slots (d_media ?a) (sv_i (sv_at s v))) ! q"
          using allocated_ok(3) [OF assms(1) mk l(1)] l(2) by (simp only: oslot_def fst_conv snd_conv)
        then show ?thesis using grow_slots(1) [OF l(3) True that, of "ino_of s v" "d_media ?a" b] allocated_ok(2) [OF assms(1) mk l(1)] by simp
      qed
      have at2: "same_attr ?i (sv_i (sv_at s v))" by (simp add: same_attr_def)
      note g = grow_step [OF assms(1,2) mk i at2 z sl]
      have "sv_imod v (\<lambda>i. i\<lparr>sfi_direct := (sfi_direct i)[k := b]\<rparr>) ?a = Inr ((), set_inode v ?i ?a)"
        using sv_imod_loaded [of ?a v] fs_okD(3) [OF allocated_ok(1) [OF assms(1) mk]] at assms(2) by simp
      moreover have "kruns (bmap_hand_back b) (set_inode v ?i ?a) (mapped I v k s)"
        by (rule mapped_new [OF assms g(1) allocated_ok(7) [OF assms(1) mk]]) (use g(2,3) p in simp_all)
      ultimately show ?thesis using z True l(4,5) b by (simp add: sfs_bmap_def kruns_simps kruns_Inr)
    qed
  qed
next
  case False
  note l = loadedD [OF assms(1,2)]
  from False assms(3) obtain j where k: "k = j + 15" "j < 128" using that [of "k - 15"] by simp
  let ?ind = "oslot s (ino_of s v, 16)"
  show ?thesis
  proof (cases "?ind = 0")
    case nz: False
    define ind where "ind = ?ind"
    have ind: "ind \<in> data_blocks s" "ind \<noteq> 0" using fs_ok_slot [OF assms(1) l(1), of 16] nz by (simp_all add: ind_def)
    have r: "sfs_rblock ind s = Inr (Inr (d_media s ind), rd ind s)"
      using sfs_rblock_ok [OF fs_okD(1) [OF assms(1)]] data_block_less [OF ind(1)] fs_okD(2) [OF assms(1)] by simp
    have i: "sfi_indirect (sv_i (sv_at s v)) = ind" by (simp add: ind_def l(6))
    have v: "v \<in> set (vlist (rd ind s))" "oslot (rd ind s) (ino_of (rd ind s) v, 16) = ind"
      using assms(2) by (simp_all add: fs_ok_rd(2) [OF assms(1)]) (simp add: ind_def)
    have "dec32s 128 (d_media s ind) = dec32s 128 (d_media (rd ind s) ind)" by simp
    from bmap_entry [OF fs_ok_rd(1) [OF assms(1)] v ind(2) k(2) this]
    have "kruns (sfs_bmap v k True) s (mapped I v k (rd ind s))"
      using ind(2) l(4) r i by (simp add: sfs_bmap_def kruns_simps kruns_Inr Let_def k)
    then show ?thesis
      by (rule kruns_mono) (rule mapped_trans [OF fstep_rd [OF assms(1,2)]], auto simp: fs_ok_rd(4) [OF assms(1)])
  next
    case z: True
    show ?thesis
    proof (rule sfs_balloc_cases [OF assms(1)])
      assume "sfs_balloc s = Inr (Inl ENOSPC, s)"
      then show ?thesis using z k l(4,6) mapped_full [OF assms(1,2)] by (simp add: sfs_bmap_def kruns_simps kruns_Inr)
    next
      fix b fm
      assume b: "sfs_balloc s = Inr (Inr b, allocated b fm s)" and mk: "marks b fm s"
      let ?a = "allocated b fm s" and ?i = "(sv_i (sv_at s v))\<lparr>sfi_indirect := b\<rparr>"
      let ?s = "set_inode v ?i ?a"
      have at: "sv_at ?a = sv_at s" "vlist ?a = vlist s" by (simp_all add: allocated_def sv_at_def fun_eq_iff)
      have "u32 b" using u32_block fs_okD(1,2) [OF assms(1)] mk by (auto simp: marks_def)
      then have i: "inode_ok ?i" using l(3) by (simp add: inode_ok_def)
      have bz: "d_media ?a b = replicate 512 0" by (simp add: allocated_def fun_upd_apply)
      have b0: "b \<noteq> 0" by (rule allocated_ok(7) [OF assms(1) mk])
      have sl: "(ino_of s v # inode_slots (d_media ?a) ?i) ! q = (if q = 16 then b else oslot s (ino_of s v, q))" if "q < NSLOTS" for q
      proof -
        have "oslot ?a (ino_of s v, q) = (ino_of s v # inode_slots (d_media ?a) (sv_i (sv_at s v))) ! q"
          using allocated_ok(3) [OF assms(1) mk l(1)] l(2) by (simp only: oslot_def fst_conv snd_conv)
        then show ?thesis using grow_slots(2) [OF l(3) that, of b "d_media ?a" "ino_of s v"] b0 bz allocated_ok(2) [OF assms(1) mk l(1)] l(6) z by simp
      qed
      have at2: "same_attr ?i (sv_i (sv_at s v))" by (simp add: same_attr_def)
      note g = grow_step [OF assms(1,2) mk i at2 z sl]
      have im: "sv_imod v (\<lambda>i. i\<lparr>sfi_indirect := b\<rparr>) ?a = Inr ((), ?s)"
        using sv_imod_loaded [of ?a v] fs_okD(3) [OF allocated_ok(1) [OF assms(1) mk]] at assms(2) by simp
      have v: "v \<in> set (vlist ?s)" "ino_of ?s v = ino_of s v" "oslot ?s (ino_of s v, 16) = b"
        using assms(2) at g(2) [of "(ino_of s v, 16)"] l(1) by (simp_all add: fun_upd_apply)
      have "replicate 128 0 = dec32s 128 (d_media ?s b)" using bz dec32s_zeros [of 128] by simp
      from bmap_entry [OF fstepD(1) [OF g(1)] v(1) v(3) [folded v(2)] b0 k(2) this]
      have e: "kruns (kbindE
          (if replicate 128 (0 :: nat) ! j = 0 then
             kbindE sfs_balloc (\<lambda>block. kbindE (sfs_wblock (enc32s ((replicate 128 0)[j := block])) b) (\<lambda>_. kret (Inr block)))
           else kret (Inr (replicate 128 0 ! j))) bmap_hand_back) ?s (mapped I v k ?s)" by (simp only: k)
      have "sfi_indirect (sv_i (sv_at s v)) = 0" using z l(6) by simp
      with e have "kruns (sfs_bmap v k True) s (mapped I v k ?s)"
        using l(4) b im by (simp add: sfs_bmap_def kruns_simps kruns_Inr Let_def k)
      then show ?thesis
        by (rule kruns_mono) (rule mapped_trans [OF g(1)], use g(3) in auto)
    qed
  qed
qed

section \<open>Reading\<close>

text \<open>Reads of metadata leave traces in the driver only.\<close>

definition quiet :: "'z fsys_scheme \<Rightarrow> 'z fsys_scheme \<Rightarrow> bool" where
  "quiet s s' \<longleftrightarrow> s' = s \<or> (\<exists>b. s' = rd b s)"

lemma quiet_refl [simp]: "quiet s s"
  by (simp add: quiet_def)

lemma rd_rd [simp]: "rd b (rd c s) = rd b s"
  by (simp add: rd_def)

lemma quiet_trans: "quiet s s' \<Longrightarrow> quiet s' s'' \<Longrightarrow> quiet s s''"
  by (auto simp: quiet_def)

lemma quiet_rd: "quiet s s' \<Longrightarrow> quiet s (rd b s')"
  by (auto simp: quiet_def)

lemma quiet_simps:
  assumes "quiet s s'"
  shows "vlist s' = vlist s" "sv_heap s' = sv_heap s" "sv_at s' = sv_at s" "d_media s' = d_media s" "us_bytes s' = us_bytes s"
    "us_rd s' = us_rd s" "us_wr s' = us_wr s" "d_blocks s' = d_blocks s" "sfs_super s' = sfs_super s" "sfs_freemap s' = sfs_freemap s"
    "same_env s s'"
  using assms by (auto simp: quiet_def)

lemma quiet_ok:
  assumes "fs_ok I s" and "quiet s s'"
  shows "fs_ok I s'" "oslot s' = oslot s" "inode_of s' = inode_of s" "fbyte s' = fbyte s"
  using assms(2) fs_ok_rd [OF assms(1)] assms(1) by (auto simp: quiet_def)

lemma rd_mput: "rd b (mput bs u s) = mput bs u (rd b s)"
  by (cases s) (simp add: rd_def mput_def split: option.splits cong: if_cong)

lemma quiet_mput: "quiet (mput bs u s) s' \<Longrightarrow> \<exists>q. quiet s q \<and> s' = mput bs u q"
  by (auto simp: quiet_def rd_mput)

definition fbytes :: "'z fsys_scheme \<Rightarrow> nat \<Rightarrow> nat \<Rightarrow> nat \<Rightarrow> byte list" where
  "fbytes s ino off n = map (fbyte s ino) [off..<off + n]"

lemma length_fbytes [simp]: "length (fbytes s ino off n) = n"
  by (simp add: fbytes_def)

lemma fbytes_append: "fbytes s ino off n @ fbytes s ino (off + n) m = fbytes s ino off (n + m)"
  using upt_add_eq_append [of off "off + n" m] by (simp add: fbytes_def add.assoc)

text \<open>A transfer of \<open>n\<close> bytes of the file out to the descriptor.\<close>

definition sent :: "nat \<Rightarrow> nat \<Rightarrow> uio \<Rightarrow> 'z fsys_scheme \<Rightarrow> (errno + unit) \<times> uio \<Rightarrow> 'z fsys_scheme \<Rightarrow> bool" where
  "sent v n u s ru s' \<longleftrightarrow>
     (let bs = fbytes s (ino_of s v) (nat (uio_offset u)) n in
      ru = (Inr (), usend bs u) \<and> (\<exists>q. quiet s q \<and> s' = mput bs u q))"

lemma sentD:
  assumes "sent v n u s (r, u') s'" and "fs_ok I s" and "0 \<le> uio_offset u"
  shows "r = Inr ()" and "fs_ok I s'" and "vlist s' = vlist s" and "sv_at s' = sv_at s" and "fbyte s' = fbyte s"
    and "uio_resid u' = uio_resid u - n" and "uio_offset u' = uio_offset u + int n" and "uio_rw u' = uio_rw u"
    and "uready s u (n + m) \<Longrightarrow> uready s' u' m" and "ubounds (n + m) u \<Longrightarrow> ubounds m u'"
proof -
  let ?bs = "fbytes s (ino_of s v) (nat (uio_offset u)) n"
  from assms(1) obtain q where q: "quiet s q" "s' = mput ?bs u q" and u': "u' = usend ?bs u" and "r = Inr ()"
    by (auto simp: sent_def Let_def)
  then show "r = Inr ()" by simp
  show "fs_ok I s'" "vlist s' = vlist s" "sv_at s' = sv_at s" "fbyte s' = fbyte s"
    using quiet_simps [OF q(1)] quiet_ok [OF assms(2) q(1)] fs_ok_mput [OF quiet_ok(1) [OF assms(2) q(1)]]
    by (simp_all add: q(2))
  show "uio_resid u' = uio_resid u - n" "uio_offset u' = uio_offset u + int n" "uio_rw u' = uio_rw u" using u' by simp_all
  show "uready s u (n + m) \<Longrightarrow> uready s' u' m"
    using uready_usend [of s u ?bs m] uready_cong [of s' "mput ?bs u s" u' m] quiet_simps [OF q(1)] q(2) u' by simp
  show "ubounds (n + m) u \<Longrightarrow> ubounds m u'" using ubounds_usend [of ?bs m u] u' by simp
qed

lemma sent_trans:
  assumes "fs_ok I s" and "0 \<le> uio_offset u" and "uready s u (n + m)" and "sent v n u s (Inr (), u') s'" and "sent v m u' s' ru s''"
  shows "sent v (n + m) u s ru s''"
proof -
  let ?bs = "fbytes s (ino_of s v) (nat (uio_offset u)) n"
  note d = sentD [OF assms(4,1,2)]
  from assms(4) obtain q where q: "quiet s q" "s' = mput ?bs u q" and u': "u' = usend ?bs u" by (auto simp: sent_def Let_def)
  have off: "nat (uio_offset u') = nat (uio_offset u) + n" using d(7) assms(2) by simp
  let ?cs = "fbytes s (ino_of s v) (nat (uio_offset u) + n) m"
  have cs: "fbytes s' (ino_of s' v) (nat (uio_offset u')) m = ?cs" using d(4,5) off by (simp add: fbytes_def)
  from assms(5) obtain q' where q': "quiet s' q'" "s'' = mput ?cs u' q'" and ru: "ru = (Inr (), usend ?cs u')"
    unfolding sent_def cs Let_def by blast
  from q'(1) obtain p where p: "quiet q p" "q' = mput ?bs u p" using quiet_mput q(2) by blast
  have "usend ?cs u' = usend (?bs @ ?cs) u" unfolding u' by (rule usend_usend [of s]) (simp add: assms(3))
  moreover have "s'' = mput (?bs @ ?cs) u p" using q'(2) p(2) mput_mput u' by simp
  ultimately show ?thesis
    using ru quiet_trans [OF q(1) p(1)] fbytes_append [of s "ino_of s v" "nat (uio_offset u)" n m] by (auto simp: sent_def Let_def)
qed

text \<open>The bytes of a block of the file.\<close>

lemma block_pos: "r < 512 \<Longrightarrow> (k * 512 + r) div 512 = k \<and> (k * 512 + r) mod 512 = (r :: nat)"
  by simp

lemma fbytes_block:
  assumes "fs_ok I s" and "ino \<in> I" and "k < MAXBLOCKS" and "skip + n \<le> 512"
  shows "fbytes s ino (k * 512 + skip) n =
     take n (drop skip (let b = oslot s (ino, fplace k) in if b = 0 then replicate 512 0 else d_media s b))"
proof (rule nth_equalityI)
  have len: "length (d_media s b) = 512" for b using fs_okD(1) [OF assms(1)] by (simp add: disk_ok_def drv_ok_def)
  show "length (fbytes s ino (k * 512 + skip) n) =
      length (take n (drop skip (let b = oslot s (ino, fplace k) in if b = 0 then replicate 512 0 else d_media s b)))"
    using assms(4) by (simp add: Let_def len)
  fix j
  assume "j < length (fbytes s ino (k * 512 + skip) n)"
  then have j: "j < n" "skip + j < 512" using assms(4) by simp_all
  then have "(k * 512 + skip + j) div 512 = k" "(k * 512 + skip + j) mod 512 = skip + j"
    using block_pos [of "skip + j" k] by (simp_all add: add.assoc)
  then show "fbytes s ino (k * 512 + skip) n ! j =
      take n (drop skip (let b = oslot s (ino, fplace k) in if b = 0 then replicate 512 0 else d_media s b)) ! j"
    using j assms(3) len by (simp add: fbytes_def fbyte_def Let_def)
qed

text \<open>A descriptor that stands at byte \<open>skip\<close> of block \<open>k\<close> of the file.\<close>

definition at_byte :: "nat \<Rightarrow> nat \<Rightarrow> uio \<Rightarrow> bool" where
  "at_byte k skip u \<longleftrightarrow> uio_offset u = int (k * 512 + skip) \<and> skip < 512 \<and> uio_offset u < 2147483648"

lemma at_byteD:
  assumes "at_byte k skip u"
  shows "to_u32 (c_quot (uio_offset u) 512) = k" and "c_rem (uio_offset u) 512 = int skip" and "nat (uio_offset u) = k * 512 + skip"
proof -
  have o: "uio_offset u = int (k * 512 + skip)" "skip < 512" "k * 512 + skip < 2147483648" using assms by (simp_all add: at_byte_def)
  show "nat (uio_offset u) = k * 512 + skip" using o(1) by simp
  have "int (k * 512 + skip) div 512 = int k" "int (k * 512 + skip) mod 512 = int skip"
    using block_pos [OF o(2), of k] by (metis of_nat_numeral zdiv_int, metis of_nat_numeral zmod_int)
  then show "to_u32 (c_quot (uio_offset u) 512) = k" "c_rem (uio_offset u) 512 = int skip"
    using o by (simp_all add: c_quot_nonneg c_rem_nonneg del: of_nat_add of_nat_mult)
qed

lemma at_byte_of:
  assumes "0 \<le> uio_offset u" and "uio_offset u < 2147483648"
  shows "at_byte (nat (uio_offset u) div 512) (nat (uio_offset u) mod 512) u"
  using assms div_mult_mod_eq [of "nat (uio_offset u)" 512] by (simp add: at_byte_def del: div_mult_mod_eq)

lemma sfs_partialio_read:
  assumes "fs_ok I s" and "v \<in> set (vlist s)" and "at_byte k skip u" and "k < MAXBLOCKS" and "skip + n \<le> 512"
    and "uready s u n" and "ubounds n u" and "uio_rw u = UIO_READ"
  shows "kruns (sfs_partialio v u skip n) s (sent v n u s)"
proof -
  note l = loadedD [OF assms(1,2)] and p = at_byteD [OF assms(3)]
  let ?b = "oslot s (ino_of s v, fplace k)"
  let ?buf = "if ?b = 0 then replicate 512 0 else d_media s ?b"
  from sfs_bmap_lookup [OF assms(1,2,4)] obtain s1 where
    s1: "sfs_bmap v k False s = Inr (Inr ?b, s1)" "quiet s s1" by (auto simp: quiet_def)
  have q: "kruns (if ?b = 0 then kbind (kassert (uio_rw u = UIO_READ)) (\<lambda>_. kret (Inr (replicate 512 0))) else sfs_rblock ?b) s1
      (\<lambda>r s'. r = Inr ?buf \<and> quiet s s')"
  proof (cases "?b = 0")
    case True
    then show ?thesis using s1(2) assms(8) by (simp add: kruns_simps)
  next
    case False
    then have "?b < d_blocks s1"
      using data_block_less [OF fs_ok_slot [OF assms(1) l(1) fplace_less [OF assms(4)]]] fs_okD(2) [OF assms(1)] quiet_simps [OF s1(2)] by simp
    from sfs_rblock_ok [OF fs_okD(1) [OF quiet_ok(1) [OF assms(1) s1(2)]] this] False show ?thesis
      using quiet_simps(4) [OF s1(2)] quiet_rd [OF s1(2)] by (simp add: kruns_Inr)
  qed
  have len: "length ?buf = 512" using fs_okD(1) [OF assms(1)] by (simp add: disk_ok_def drv_ok_def)
  have bs: "take n (drop skip ?buf) = fbytes s (ino_of s v) (nat (uio_offset u)) n"
    using fbytes_block [OF assms(1) l(1) assms(4,5)] p(3) by (simp add: Let_def)
  have fin: "kruns (uiomove skip ?buf n u) s' (\<lambda>(r, iobuf', u') s'. r = Inr () \<and> uio_rw u' = UIO_READ \<and> sent v n u s (Inr (), u') s')"
    if "quiet s s'" for s'
  proof -
    have "uready s' u n" using assms(6) uready_cong [of s' s] quiet_simps [OF that] by simp
    from uiomove_send [OF this assms(7,8), of skip ?buf] len assms(5) bs that assms(8) show ?thesis
      by (auto simp: kruns_Inr sent_def Let_def)
  qed
  have "kruns (sfs_partialio v u skip n) s (sent v n u s) \<longleftrightarrow>
      kruns (if ?b = 0 then kbind (kassert (uio_rw u = UIO_READ)) (\<lambda>_. kret (Inr (replicate 512 0))) else sfs_rblock ?b) s1
      (\<lambda>r s'. kruns (case r of Inl e \<Rightarrow> kret (Inl e, u) | Inr iobuf \<Rightarrow>
              kbind (uiomove skip iobuf n u) (\<lambda>(r, iobuf', u').
              case r of Inl e \<Rightarrow> kret (Inl e, u') | Inr _ \<Rightarrow>
                  if uio_rw u' = UIO_WRITE then kbind (sfs_wblock iobuf' ?b) (\<lambda>r. kret (r, u'))
                  else kret (Inr (), u'))) s' (sent v n u s))"
    using s1(1) p(1) assms(5,8) by (simp add: sfs_partialio_def kruns_simps kruns_Inr)
  also have "\<dots>"
  proof (rule kruns_mono [OF q], elim conjE)
    fix r :: "errno + byte list" and s'
    assume r: "r = Inr ?buf" and s': "quiet s s'"
    show "kruns (case r of Inl e \<Rightarrow> kret (Inl e, u) | Inr iobuf \<Rightarrow>
              kbind (uiomove skip iobuf n u) (\<lambda>(r, iobuf', u').
              case r of Inl e \<Rightarrow> kret (Inl e, u') | Inr _ \<Rightarrow>
                  if uio_rw u' = UIO_WRITE then kbind (sfs_wblock iobuf' ?b) (\<lambda>r. kret (r, u'))
                  else kret (Inr (), u'))) s' (sent v n u s)"
      unfolding r sum.case kruns_bind by (rule kruns_mono [OF fin [OF s']]) (auto simp: kruns_simps)
  qed
  finally show ?thesis .
qed

lemma usend_restore:
  "(usend bs (u\<lparr>uio_offset := x, uio_resid := y\<rparr>))\<lparr>uio_offset := uio_offset u + int (length bs), uio_resid := uio_resid u - length bs\<rparr> = usend bs u"
  "(uskip n (u\<lparr>uio_offset := x, uio_resid := y\<rparr>))\<lparr>uio_offset := uio_offset u + int n, uio_resid := uio_resid u - n\<rparr> = uskip n u"
  by (cases u; simp add: usend_def uskip_def uput_def)+

lemma mput_cong: "iov_obj u' = iov_obj u \<Longrightarrow> iov_base u' = iov_base u \<Longrightarrow> mput bs u' s = mput bs u s"
  by (simp only: mput_def)

text \<open>The descriptor of \<^verbatim>\<open>sfs_blockio\<close> during the transfer and after it.\<close>

lemma disk_uio:
  assumes "b < 4194303" and "uready s u 512"
  shows "at_block b (u\<lparr>uio_offset := to_off (int (b * 512 mod 4294967296)), uio_resid := 512\<rparr>)"
    and "uready s (u\<lparr>uio_offset := to_off (int (b * 512 mod 4294967296)), uio_resid := 512\<rparr>) 512"
    and "to_off (int (b * 512 mod 4294967296)) = int b * 512"
  using assms by (cases "iov_obj u"; simp add: at_block_def uready_def)+

lemma restore_uio:
  assumes "512 \<le> uio_resid u" and "uio_resid u < 2147483648" and "0 \<le> uio_offset u" and "uio_offset u + 512 < 2147483648"
  shows "to_off (x + 512 - x + uio_offset u) = uio_offset u + 512"
    and "to_u32 (int 0 - 512 + to_off (int (uio_resid u))) = uio_resid u - 512"
proof -
  show "to_off (x + 512 - x + uio_offset u) = uio_offset u + 512" using assms(3,4) by simp
  obtain d where d: "uio_resid u = d + 512" using assms(1) by (metis le_add_diff_inverse2)
  have "to_off (int (uio_resid u)) = int (uio_resid u)" using assms(2) by (intro to_off_id) simp_all
  then have "int 0 - 512 + to_off (int (uio_resid u)) = int d" by (simp add: d)
  moreover have "to_u32 (int d) = d" using assms(2) d by simp
  ultimately show "to_u32 (int 0 - 512 + to_off (int (uio_resid u))) = uio_resid u - 512" by (simp only: d)
qed

lemma sfs_blockio_read:
  assumes "fs_ok I s" and "v \<in> set (vlist s)" and "at_byte k 0 u" and "k < MAXBLOCKS"
    and "uready s u 512" and "ubounds 512 u" and "uio_resid u < 2147483648" and "uio_rw u = UIO_READ"
  shows "kruns (sfs_blockio v u) s (sent v 512 u s)"
proof -
  note l = loadedD [OF assms(1,2)] and p = at_byteD [OF assms(3)]
  let ?b = "oslot s (ino_of s v, fplace k)"
  from sfs_bmap_lookup [OF assms(1,2,4)] obtain s1 where
    s1: "sfs_bmap v k False s = Inr (Inr ?b, s1)" "quiet s s1" by (auto simp: quiet_def)
  have rdy: "uready s1 u 512" using assms(5) uready_cong [of s1 s] quiet_simps [OF s1(2)] by simp
  have len: "length (d_media s b) = 512" for b using fs_okD(1) [OF assms(1)] by (simp add: disk_ok_def drv_ok_def)
  have bs: "(if ?b = 0 then replicate 512 0 else d_media s ?b) = fbytes s (ino_of s v) (nat (uio_offset u)) 512"
    using fbytes_block [OF assms(1) l(1) assms(4), of 0 512] p(3) len by (simp add: Let_def)
  show ?thesis
  proof (cases "?b = 0")
    case True
    with bs have z: "replicate 512 0 = fbytes s (ino_of s v) (nat (uio_offset u)) 512" by simp
    have "sent v 512 u s (Inr (), usend (replicate 512 0) u) (mput (replicate 512 0) u s1)"
      unfolding sent_def z Let_def using s1(2) by blast
    then show ?thesis using True s1(1) p(1) assms(8) uiomovezeros_send [OF rdy assms(6,8)]
      by (simp add: sfs_blockio_def kruns_simps kruns_Inr)
  next
    case False
    let ?u = "u\<lparr>uio_offset := to_off (int (?b * 512 mod 4294967296)), uio_resid := 512\<rparr>"
    have bd: "?b < d_blocks s1"
      using False data_block_less [OF fs_ok_slot [OF assms(1) l(1) fplace_less [OF assms(4)]]] fs_okD(2) [OF assms(1)]
        quiet_simps [OF s1(2)] by simp
    have ok: "disk_ok s1" using fs_okD(1) [OF quiet_ok(1) [OF assms(1) s1(2)]] .
    then have b: "?b < 4194303" using bd by (auto simp: disk_ok_def drv_ok_def)
    note d = disk_uio [OF b rdy]
    have rw: "uio_rw ?u = UIO_READ" using assms(8) by simp
    have io: "sfs_rwblock ?u s1 = Inr ((Inr (), usend (d_media s ?b) ?u), mput (d_media s ?b) ?u (rd ?b s1))"
      using sfs_rwblock_read [OF ok d(1) bd d(2) rw] quiet_simps(4) [OF s1(2)] by simp
    have r: "512 \<le> uio_resid u" "0 \<le> uio_offset u" "uio_offset u + 512 < 2147483648" using assms(6) by (simp_all add: ubounds_def)
    note rs = restore_uio [OF r(1) assms(7) r(2,3)]
    have m: "mput (d_media s ?b) ?u (rd ?b s1) = mput (d_media s ?b) u (rd ?b s1)"
      by (rule mput_cong) simp_all
    have "sent v 512 u s (Inr (), usend (d_media s ?b) u) (mput (d_media s ?b) u (rd ?b s1))"
      using bs False quiet_rd [OF s1(2)] by (auto simp: sent_def Let_def)
    moreover have "uio_offset (usend (d_media s ?b) ?u) - to_off (int (?b * 512 mod 4294967296)) + uio_offset u = 512 + uio_offset u"
      "int (uio_resid (usend (d_media s ?b) ?u)) - 512 + to_off (int (uio_resid u)) = int 0 - 512 + to_off (int (uio_resid u))"
      using len by simp_all
    moreover have "to_off (512 + uio_offset u) = uio_offset u + int (length (d_media s ?b))" using rs(1) [of 0] len by simp
    moreover have "to_u32 (int 0 - 512 + to_off (int (uio_resid u))) = uio_resid u - length (d_media s ?b)" using rs(2) len by simp
    ultimately show ?thesis
      using False s1(1) p(1) assms(8) io r(1) m
      by (simp only: sfs_blockio_def kruns_simps Let_def kruns_Inr sum.case prod.case usend_restore if_False simp_thms of_nat_numeral uio_rw.distinct HOL.refl)
  qed
qed

lemma kruns_kthen [kruns_simps]:
  "kruns (kthen m f) s Q = kruns m s (\<lambda>ru s'. case ru of (r, u) \<Rightarrow> (case r of Inl e \<Rightarrow> Q (Inl e, u) s' | Inr _ \<Rightarrow> kruns (f u) s' Q))"
  unfolding kthen_def kruns_bind
  by (rule arg_cong [where f = "kruns m s"]) (auto simp: fun_eq_iff kruns_ret split: sum.splits)

lemma sent_kthen:
  assumes "fs_ok I s" and "0 \<le> uio_offset u" and "uready s u (n + m)" and "kruns m1 s (sent v n u s)"
    and "\<And>u' s'. sent v n u s (Inr (), u') s' \<Longrightarrow> kruns (f u') s' (sent v m u' s')"
  shows "kruns (kthen m1 f) s (sent v (n + m) u s)"
  unfolding kruns_kthen
proof (rule kruns_mono [OF assms(4)])
  fix ru s'
  assume st: "sent v n u s ru s'"
  then obtain u' where ru: "ru = (Inr (), u')" by (auto simp: sent_def Let_def)
  with st have "kruns (f u') s' (sent v (n + m) u s)"
    using assms(5) [of u' s'] sent_trans [OF assms(1-3), of v u' s'] by (auto elim: kruns_mono)
  with ru show "case ru of (r, u') \<Rightarrow> (case r of Inl e \<Rightarrow> sent v (n + m) u s (Inl e, u') s' | Inr _ \<Rightarrow> kruns (f u') s' (sent v (n + m) u s))"
    by simp
qed

lemma sent_none: "v \<in> set (vlist s) \<Longrightarrow> sent v 0 u s (Inr (), u) s"
  by (auto simp: sent_def Let_def fbytes_def usend_def)

lemma at_byte_advance:
  assumes "at_byte k skip u" and "uio_offset u' = uio_offset u + int n" and "skip + n = 512 * j" and "ubounds n u"
  shows "at_byte (k + j) 0 u'"
proof -
  have "k * 512 + skip + n = (k + j) * 512" using assms(3) by (simp add: distrib_right)
  then have "int (k * 512 + skip) + int n = int ((k + j) * 512)" by (metis of_nat_add)
  then show ?thesis using assms(1,2,4) by (simp add: at_byte_def ubounds_def del: of_nat_add of_nat_mult)
qed

lemma sfs_io_blocks_read:
  assumes "fs_ok I s" and "v \<in> set (vlist s)" and "at_byte k 0 u" and "k + n \<le> MAXBLOCKS"
    and "uready s u (512 * n)" and "ubounds (512 * n) u" and "uio_resid u < 2147483648" and "uio_rw u = UIO_READ"
  shows "kruns (sfs_io_blocks v n u) s (sent v (512 * n) u s)"
  using assms
proof (induction n arbitrary: u s k)
  case 0
  then show ?case using sent_none [of v s u] by (simp add: kruns_def)
next
  case (Suc n)
  have sp: "512 * Suc n = 512 + 512 * n" by simp
  have off: "0 \<le> uio_offset u" using Suc.prems(6) by (simp add: ubounds_def)
  have b: "ubounds 512 u" using Suc.prems(6) by (auto simp: ubounds_def)
  have "kruns (kthen (sfs_blockio v u) (sfs_io_blocks v n)) s (sent v (512 + 512 * n) u s)"
  proof (rule sent_kthen [OF Suc.prems(1) off])
    show "uready s u (512 + 512 * n)" using Suc.prems(5) sp by simp
    show "kruns (sfs_blockio v u) s (sent v 512 u s)"
      using Suc.prems uready_le [OF Suc.prems(5), of 512] b by (intro sfs_blockio_read [where k = k]) auto
  next
    fix u' s'
    assume st: "sent v 512 u s (Inr (), u') s'"
    note d = sentD [OF st Suc.prems(1) off]
    show "kruns (sfs_io_blocks v n u') s' (sent v (512 * n) u' s')"
    proof (rule Suc.IH [OF d(2)])
      show "at_byte (k + 1) 0 u'" using at_byte_advance [OF Suc.prems(3) d(7), of 1] b by simp
    qed (use Suc.prems d sp in auto)
  qed
  then show ?case using sp by simp
qed

lemma sfs_io_aligned_read:
  assumes "fs_ok I s" and "v \<in> set (vlist s)" and "at_byte k 0 u" and "k * 512 + n \<le> MAXBLOCKS * 512"
    and "uready s u n" and "ubounds n u" and "uio_resid u = n" and "uio_rw u = UIO_READ"
  shows "kruns (sfs_io_aligned v u) s (sent v n u s)"
proof (cases "n = 0")
  case True
  then show ?thesis using sent_none [OF assms(2)] assms(7) by (simp add: sfs_io_aligned_def kruns_simps)
next
  case False
  define q r where "q = n div 512" and "r = n mod 512"
  have n: "n = 512 * q + r" "r < 512" by (simp_all add: q_def r_def)
  have off: "0 \<le> uio_offset u" and lt: "uio_resid u < 2147483648" using assms(6,7) by (auto simp: ubounds_def)
  have "kruns (kthen (sfs_io_blocks v q u) (\<lambda>u. kbind (kassert (uio_resid u < 512)) (\<lambda>_.
        if uio_resid u > 0 then sfs_partialio v u 0 (uio_resid u) else kret (Inr (), u)))) s (sent v (512 * q + r) u s)"
  proof (rule sent_kthen [OF assms(1) off])
    show "uready s u (512 * q + r)" using assms(5) n(1) by simp
    have "k + q \<le> MAXBLOCKS" using assms(4) n by simp
    then show "kruns (sfs_io_blocks v q u) s (sent v (512 * q) u s)"
      using assms n uready_le [OF assms(5), of "512 * q"] lt by (intro sfs_io_blocks_read) (auto simp: ubounds_def)
  next
    fix u' s'
    assume st: "sent v (512 * q) u s (Inr (), u') s'"
    note d = sentD [OF st assms(1) off]
    have r': "uio_resid u' = r" using d(6) assms(7) n(1) by simp
    have v: "v \<in> set (vlist s')" using d(3) assms(2) by simp
    have at: "at_byte (k + q) 0 u'"
      using at_byte_advance [OF assms(3) d(7), of q] assms(6) n(1) by (auto simp: ubounds_def)
    show "kruns (kbind (kassert (uio_resid u' < 512)) (\<lambda>_.
        if uio_resid u' > 0 then sfs_partialio v u' 0 (uio_resid u') else kret (Inr (), u'))) s' (sent v r u' s')"
    proof (cases "r = 0")
      case True
      then show ?thesis using r' sent_none [OF v] by (simp add: kruns_simps)
    next
      case False
      have "kruns (sfs_partialio v u' 0 r) s' (sent v r u' s')"
      proof (rule sfs_partialio_read [OF d(2) v at])
        show "k + q < MAXBLOCKS" using assms(4) n False by simp
        show "uready s' u' r" "ubounds r u'" using d(9,10) assms(5,6) n(1) by simp_all
      qed (use n(2) d(8) assms(8) in simp_all)
      with False r' n(2) show ?thesis by (simp add: kruns_simps)
    qed
  qed
  then show ?thesis using False assms(7) at_byteD(2) [OF assms(3)]
    by (simp add: sfs_io_aligned_def kruns_bind kruns_assert q_def [symmetric] n(1) [symmetric])
qed

lemma sfs_io_body_read:
  assumes "fs_ok I s" and "v \<in> set (vlist s)" and "nat (uio_offset u) + n \<le> MAXBLOCKS * 512"
    and "uready s u n" and "ubounds n u" and "uio_resid u = n" and "uio_rw u = UIO_READ"
    and "nat (uio_offset u) < MAXBLOCKS * 512"
  shows "kruns (sfs_io_body v u) s (sent v n u s)"
proof -
  define k skip where "k = nat (uio_offset u) div 512" and "skip = nat (uio_offset u) mod 512"
  have off: "0 \<le> uio_offset u" and lt: "uio_offset u < 2147483648" using assms(5) by (auto simp: ubounds_def)
  have at: "at_byte k skip u" using at_byte_of [OF off lt] by (simp add: k_def skip_def)
  note p = at_byteD [OF at]
  have sk: "skip < 512" by (simp add: skip_def)
  have le: "k * 512 + skip + n \<le> MAXBLOCKS * 512" using assms(3) p(3) by simp
  show ?thesis
  proof (cases "skip = 0")
    case True
    then have "kruns (sfs_io_aligned v u) s (sent v n u s)"
      using at le assms by (intro sfs_io_aligned_read [where k = k]) simp_all
    then show ?thesis using True p(2) by (simp add: sfs_io_body_def)
  next
    case False
    define m where "m = (if 512 - skip > n then n else 512 - skip)"
    have m: "m \<le> n" "skip + m \<le> 512" "n = m + (n - m)" using sk by (auto simp: m_def)
    have "kruns (kthen (sfs_partialio v u skip m) (sfs_io_aligned v)) s (sent v (m + (n - m)) u s)"
    proof (rule sent_kthen [OF assms(1) off])
      show "uready s u (m + (n - m))" using assms(4) m(3) by simp
      show "kruns (sfs_partialio v u skip m) s (sent v m u s)"
      proof (rule sfs_partialio_read [OF assms(1,2) at])
        show "k < MAXBLOCKS" using assms(8) p(3) by simp
        show "uready s u m" using uready_le [OF assms(4) m(1)] .
        show "ubounds m u" using assms(5) m(1) by (auto simp: ubounds_def)
      qed (use m assms(7) in simp_all)
    next
      fix u' s'
      assume st: "sent v m u s (Inr (), u') s'"
      note d = sentD [OF st assms(1) off]
      have v: "v \<in> set (vlist s')" using d(3) assms(2) by simp
      show "kruns (sfs_io_aligned v u') s' (sent v (n - m) u' s')"
      proof (cases "n = m")
        case True
        then show ?thesis using d(6) assms(6) sent_none [OF v] by (simp add: sfs_io_aligned_def kruns_simps)
      next
        case False
        then have mm: "m = 512 - skip" using m by (auto simp: m_def split: if_splits)
        have bm: "ubounds m u" using assms(5) m(1) by (auto simp: ubounds_def)
        have "at_byte (k + 1) 0 u'" using at_byte_advance [OF at d(7), of 1] mm sk bm by simp
        then show ?thesis
          by (rule sfs_io_aligned_read [OF d(2) v]) (use le mm sk m(3) d(6-10) assms in auto)
      qed
    qed
    moreover have "(512 + 4294967296 - skip) mod 4294967296 = 512 - skip" using sk False
      by (simp add: mod_if)
    ultimately show ?thesis using False p(2) sk assms(6)
      by (cases "n < 512 - skip") (simp_all add: sfs_io_body_def Let_def m_def)
  qed
qed

end
