(* ===== verification/Sfs_Write.thy ===== *)
theory Sfs_Write
  imports Sfs_File
begin

text \<open>
  Writing to files of SFS: a write puts its bytes into the byte array of one file and leaves all
  other files alone; it stops early only when the volume is full or the file has reached its
  greatest size.
\<close>

declare fun_upd_apply [simp del] oslot_def [simp del]

section \<open>Writing\<close>

text \<open>The byte array \<open>f\<close> with the bytes \<open>D\<close> put in from \<open>off\<close> on.\<close>

definition overlay :: "nat \<Rightarrow> byte list \<Rightarrow> (nat \<Rightarrow> byte) \<Rightarrow> nat \<Rightarrow> byte" where
  "overlay off D f p = (if off \<le> p \<and> p < off + length D then D ! (p - off) else f p)"

lemma overlay_Nil [simp]: "overlay off [] f = f"
  by (auto simp: overlay_def fun_eq_iff)

lemma overlay_overlay: "overlay (off + length xs) ys (overlay off xs f) = overlay off (xs @ ys) f"
  by (auto simp: overlay_def fun_eq_iff nth_append diff_diff_left)

lemma overlay_block:
  assumes "skip + length D \<le> 512" and "length m = 512" and "p div 512 = k \<Longrightarrow> f p = m ! (p mod 512)"
  shows "(if p div 512 = k then patch skip D m ! (p mod 512) else f p) = overlay (k * 512 + skip) D f p"
proof (cases "p div 512 = k")
  case True
  then have p: "p = k * 512 + p mod 512" using div_mult_mod_eq [of p 512] by simp
  define r where "r = p mod 512"
  have r: "r < 512" "p = k * 512 + r" using p by (simp_all add: r_def)
  have "patch skip D m ! r = (if skip \<le> r \<and> r < skip + length D then D ! (r - skip) else m ! r)"
    using assms(1,2) r(1) by (simp add: nth_patch)
  moreover have "f p = m ! r" using assms(3) True by (simp add: r_def)
  ultimately show ?thesis using True r by (simp add: overlay_def r_def [symmetric])
next
  case False
  have "\<not> (k * 512 + skip \<le> p \<and> p < k * 512 + skip + length D)"
  proof
    assume "k * 512 + skip \<le> p \<and> p < k * 512 + skip + length D"
    then have "p = k * 512 + (p - k * 512)" "p - k * 512 < 512" using assms(1) by auto
    then show False using False block_pos [of "p - k * 512" k] by metis
  qed
  with False show ?thesis by (auto simp: overlay_def)
qed

lemma put_step:
  assumes "fs_ok I s" and "v \<in> set (vlist s)" and "k < MAXBLOCKS" and "mapped I v k s (Inr b) s1" and "quiet s1 s2"
    and "skip + length D \<le> 512"
  shows "fstep I v s (wr b (patch skip D (d_media s2 b)) s2)"
    and "fbyte (wr b (patch skip D (d_media s2 b)) s2) (ino_of s v) = overlay (k * 512 + skip) D (fbyte s (ino_of s v))"
proof -
  let ?ino = "ino_of s v" and ?m = "d_media s2 b"
  let ?t = "wr b (patch skip D ?m) s2"
  from assms(4) have m: "fstep I v s s1" "\<And>jno p. jno \<in> I \<Longrightarrow> fbyte s1 jno p = fbyte s jno p" "b \<noteq> 0" "oslot s1 (?ino, fplace k) = b"
    by (auto simp: mapped_def)
  note q = quiet_simps [OF assms(5)] and qo = quiet_ok [OF fstepD(1) [OF m(1)] assms(5)]
  have ino: "?ino \<in> I" using loadedD(1) [OF assms(1,2)] .
  have len: "length ?m = 512" using fs_okD(1) [OF qo(1)] by (simp add: disk_ok_def drv_ok_def)
  have b: "oslot s2 (?ino, fplace k) = b" using m(4) qo(2) by simp
  have pl: "length (patch skip D ?m) = 512" using assms(6) len by simp
  note w = wr_data [OF qo(1) ino assms(3) b m(3) pl]
  have v2: "v \<in> set (vlist s2)" "ino_of s2 v = ?ino" using assms(2) q(1,3) fstepD(4,5) [OF m(1)] by simp_all
  have "fstep I v s1 s2"
    using qo q(2,11) fstepD [OF m(1)] assms(2) by (simp add: fstep_def vstep_heap fs_okD(3))
  moreover have "fstep I v s2 ?t"
    unfolding fstep_def using w(1,3,5) v2 vstep_heap [OF fs_okD(3) [OF qo(1)] v2(1), of ?t] by simp
  ultimately show "fstep I v s ?t" using m(1) fstep_trans by blast
  have fb: "fbyte s2 ?ino p = fbyte s ?ino p" for p using qo(4) m(2) [OF ino] by simp
  have "fbyte ?t ?ino p = overlay (k * 512 + skip) D (fbyte s ?ino) p" for p
    unfolding w(4) fb
  proof (rule overlay_block [OF assms(6) len])
    assume "p div 512 = k"
    then have "fbyte s2 ?ino p = ?m ! (p mod 512)" using b m(3) assms(3) by (simp add: fbyte_def Let_def)
    then show "fbyte s ?ino p = ?m ! (p mod 512)" using fb by simp
  qed
  then show "fbyte ?t ?ino = overlay (k * 512 + skip) D (fbyte s ?ino)" by (rule ext)
qed

text \<open>
  A transfer of \<open>n\<close> bytes from the descriptor into the file: \<open>m\<close> bytes arrived, all of them unless
  the volume is full or the file would get too big.
\<close>

definition wrote :: "nat set \<Rightarrow> nat \<Rightarrow> nat \<Rightarrow> uio \<Rightarrow> 'z fsys_scheme \<Rightarrow> (errno + unit) \<times> uio \<Rightarrow> 'z fsys_scheme \<Rightarrow> bool" where
  "wrote I v n u s ru s' \<longleftrightarrow>
     (\<exists>m r. ru = (r, uskip m u) \<and> m \<le> n \<and> fstep I v s s' \<and>
        (r = Inr () \<and> m = n \<or> r = Inl ENOSPC \<or> r = Inl EINVAL \<and> MAXBLOCKS * 512 < nat (uio_offset u) + n) \<and>
        fbyte s' (ino_of s v) = overlay (nat (uio_offset u)) (uget m u s) (fbyte s (ino_of s v)))"

lemma wrote_none: "fs_ok I s \<Longrightarrow> v \<in> set (vlist s) \<Longrightarrow> wrote I v 0 u s (Inr (), u) s"
  using fstep_refl by (fastforce simp: wrote_def uget_def)

lemma wrote_failed:
  assumes "fs_ok I s" and "v \<in> set (vlist s)" and "fstep I v s s'" and "\<forall>jno\<in>I. \<forall>p. fbyte s' jno p = fbyte s jno p"
    and "e = ENOSPC \<or> e = EINVAL \<and> MAXBLOCKS * 512 < nat (uio_offset u) + n"
  shows "wrote I v n u s (Inl e, u) s'"
proof -
  have "fbyte s' (ino_of s v) = fbyte s (ino_of s v)" using assms(4) loadedD(1) [OF assms(1,2)] by (simp add: fun_eq_iff)
  then show ?thesis unfolding wrote_def using assms(3,5) by (intro exI [of _ 0] exI [of _ "Inl e"]) (auto simp: uget_def)
qed

lemma wroteD:
  assumes "wrote I v n u s (Inr (), u') s'" and "0 \<le> uio_offset u"
  shows "fs_ok I s'" and "vlist s' = vlist s" and "ino_of s' v = ino_of s v" and "u' = uskip n u"
    and "uready s u (n + m) \<Longrightarrow> uready s' u' m" and "ubounds (n + m) u \<Longrightarrow> ubounds m u'"
proof -
  from assms(1) have f: "fstep I v s s'" and u': "u' = uskip n u" by (auto simp: wrote_def)
  show "fs_ok I s'" "vlist s' = vlist s" "ino_of s' v = ino_of s v" using fstepD [OF f] by simp_all
  show "u' = uskip n u" by (rule u')
  show "uready s u (n + m) \<Longrightarrow> uready s' u' m"
    using uready_uskip [of s u n m] uready_cong [of s' s u' m] fstepD(2) [OF f] u' by (simp add: same_env_def)
  show "ubounds (n + m) u \<Longrightarrow> ubounds m u'" using ubounds_uskip [of n m u] u' by simp
qed

lemma wrote_trans:
  assumes "0 \<le> uio_offset u" and "wrote I v n u s (Inr (), u') s'" and "wrote I v m u' s' ru s''"
  shows "wrote I v (n + m) u s ru s''"
proof -
  let ?ino = "ino_of s v" and ?off = "nat (uio_offset u)"
  from assms(2) have f: "fstep I v s s'" and u': "u' = uskip n u"
    and c: "fbyte s' ?ino = overlay ?off (uget n u s) (fbyte s ?ino)" by (auto simp: wrote_def)
  have off: "nat (uio_offset u') = ?off + n" using u' assms(1) by simp
  from assms(3) obtain l r where r: "ru = (r, uskip l u')" "l \<le> m" "fstep I v s' s''"
    "r = Inr () \<and> l = m \<or> r = Inl ENOSPC \<or> r = Inl EINVAL \<and> MAXBLOCKS * 512 < ?off + n + m"
    "fbyte s'' ?ino = overlay (?off + n) (uget l u' s') (fbyte s' ?ino)"
    unfolding wrote_def off fstepD(5) [OF f] by blast
  have "uget l u' s' = uget l u' s" using fstepD(2) [OF f] by (intro uget_cong) (simp add: same_env_def)
  then have g: "uget n u s @ uget l u' s' = uget (n + l) u s"
    using uget_uskip [of l n u s] uget_take [of n "n + l" u s] append_take_drop_id [of n "uget (n + l) u s"] by (simp add: u')
  have "fbyte s'' ?ino = overlay ?off (uget (n + l) u s) (fbyte s ?ino)"
    using r(5) overlay_overlay [of ?off "uget n u s"] by (simp add: c g)
  with r fstep_trans [OF f r(3)] show ?thesis unfolding wrote_def u'
    by (intro exI [of _ "n + l"] exI [of _ r]) (auto simp: add.assoc)
qed

lemma wrote_kthen:
  assumes "0 \<le> uio_offset u" and "kruns m1 s (wrote I v n u s)"
    and "\<And>s'. wrote I v n u s (Inr (), uskip n u) s' \<Longrightarrow> kruns (f (uskip n u)) s' (wrote I v m (uskip n u) s')"
  shows "kruns (kthen m1 f) s (wrote I v (n + m) u s)"
  unfolding kruns_kthen
proof (rule kruns_mono [OF assms(2)])
  fix ru s'
  assume w: "wrote I v n u s ru s'"
  then obtain r u' where ru: "ru = (r, u')" by (cases ru)
  show "case ru of (r, u') \<Rightarrow> (case r of Inl e \<Rightarrow> wrote I v (n + m) u s (Inl e, u') s' | Inr _ \<Rightarrow> kruns (f u') s' (wrote I v (n + m) u s))"
  proof (cases r)
    case (Inl e)
    with w ru have "wrote I v (n + m) u s (Inl e, u') s'" by (fastforce simp: wrote_def)
    with ru Inl show ?thesis by simp
  next
    case (Inr x)
    with w ru have w': "wrote I v n u s (Inr (), u') s'" by simp
    then have u': "u' = uskip n u" by (auto simp: wrote_def)
    have "kruns (f u') s' (wrote I v (n + m) u s)"
      by (rule kruns_mono [OF assms(3) [OF w' [unfolded u'], folded u']]) (rule wrote_trans [OF assms(1) w'])
    with ru Inr show ?thesis by simp
  qed
qed

text \<open>A block that was mapped lies on the disk.\<close>

lemma mapped_block:
  assumes "fs_ok I s" and "v \<in> set (vlist s)" and "k < MAXBLOCKS" and "mapped I v k s (Inr b) s1"
  shows "b \<noteq> 0" and "b < d_blocks s1" and "disk_ok s1" and "us_bytes s1 = us_bytes s" and "uready s1 u n = uready s u n"
proof -
  from assms(4) have m: "fstep I v s s1" "b \<noteq> 0" "oslot s1 (ino_of s v, fplace k) = b" by (auto simp: mapped_def)
  show "b \<noteq> 0" by (rule m(2))
  note f = fstepD [OF m(1)]
  have "b \<in> data_blocks s1"
    using fs_ok_slot [OF f(1) loadedD(1) [OF assms(1,2)] fplace_less [OF assms(3)]] m(2,3) by simp
  then show "b < d_blocks s1" using data_block_less fs_okD(2) [OF f(1)] by blast
  show "disk_ok s1" using fs_okD(1) [OF f(1)] .
  show "us_bytes s1 = us_bytes s" "uready s1 u n = uready s u n"
    using f(2) uready_cong [of s1 s u n] by (simp_all add: same_env_def)
qed

lemma wrote_block:
  assumes "fs_ok I s" and "v \<in> set (vlist s)" and "k < MAXBLOCKS" and "mapped I v k s (Inr b) s1" and "quiet s1 s2"
    and "at_byte k skip u" and "skip + n \<le> 512"
  shows "wrote I v n u s (Inr (), uskip n u) (wr b (patch skip (uget n u s) (d_media s2 b)) s2)"
  using put_step [OF assms(1-5), of skip "uget n u s"] assms(7) at_byteD(3) [OF assms(6)]
  unfolding wrote_def by (intro exI [of _ n] exI [of _ "Inr ()"]) simp

lemma sfs_partialio_write:
  assumes "fs_ok I s" and "v \<in> set (vlist s)" and "at_byte k skip u" and "skip + n \<le> 512" and "0 < n"
    and "uready s u n" and "ubounds n u" and "uio_rw u = UIO_WRITE"
  shows "kruns (sfs_partialio v u skip n) s (wrote I v n u s)"
proof (cases "k < MAXBLOCKS")
  case False
  note p = at_byteD [OF assms(3)]
  have "MAXBLOCKS * 512 < nat (uio_offset u) + n" using False assms(5) p(3) by simp
  then have "wrote I v n u s (Inl EINVAL, u) s"
    using wrote_failed [OF assms(1,2) fstep_refl [OF assms(1,2)]] by simp
  then show ?thesis using sfs_bmap_too_big [OF assms(1,2), of k] False p(1) assms(4,8)
    by (simp add: sfs_partialio_def kruns_simps kruns_Inr)
next
  case True
  note p = at_byteD [OF assms(3)]
  let ?K = "\<lambda>r. case r of Inl e \<Rightarrow> kret (Inl e, u) | Inr diskblock \<Rightarrow>
          kbind (if diskblock = 0
                 then kbind (kassert (uio_rw u = UIO_READ)) (\<lambda>_. kret (Inr (replicate SFS_BLOCKSIZE 0)))
                 else sfs_rblock diskblock) (\<lambda>r.
          case r of Inl e \<Rightarrow> kret (Inl e, u) | Inr iobuf \<Rightarrow>
              kbind (uiomove skip iobuf n u) (\<lambda>(r, iobuf', u').
              case r of Inl e \<Rightarrow> kret (Inl e, u') | Inr _ \<Rightarrow>
                  if uio_rw u' = UIO_WRITE then kbind (sfs_wblock iobuf' diskblock) (\<lambda>r. kret (r, u'))
                  else kret (Inr (), u')))"
  have "kruns (sfs_bmap v k True) s (\<lambda>r s1. kruns (?K r) s1 (wrote I v n u s))"
  proof (rule kruns_mono [OF sfs_bmap_alloc [OF assms(1,2) True]])
    fix r s1
    assume mp: "mapped I v k s r s1"
    show "kruns (?K r) s1 (wrote I v n u s)"
    proof (cases r)
      case (Inl e)
      with mp have "wrote I v n u s (Inl e, u) s1" by (intro wrote_failed [OF assms(1,2)]) (auto simp: mapped_def)
      with Inl show ?thesis by (simp add: kruns_simps)
    next
      case (Inr b)
      note mb = mapped_block [OF assms(1,2) True mp [unfolded Inr]]
      let ?m = "d_media s1 b"
      let ?buf = "patch skip (uget n u s) ?m"
      have len: "length ?m = 512" using mb(3) by (simp add: disk_ok_def drv_ok_def)
      have rb: "sfs_rblock b s1 = Inr (Inr ?m, rd b s1)" by (rule sfs_rblock_ok [OF mb(3,2)])
      have "uready (rd b s1) u n" using mb(5) assms(6) uready_cong [of "rd b s1" s1] by simp
      moreover have "uget n u (rd b s1) = uget n u s" using mb(4) by (intro uget_cong) simp
      ultimately have mv: "uiomove skip ?m n u (rd b s1) = Inr ((Inr (), ?buf, uskip n u), rd b s1)"
        using uiomove_write [of "rd b s1" u n skip ?m] assms(4,7,8) len by simp
      have "sfs_wblock ?buf b (rd b s1) = Inr (Inr (), wr b ?buf (rd b s1))"
        using mb(2,3) assms(4) len by (intro sfs_wblock_ok) simp_all
      moreover have "wrote I v n u s (Inr (), uskip n u) (wr b ?buf (rd b s1))"
        using wrote_block [OF assms(1,2) True mp [unfolded Inr] quiet_rd [OF quiet_refl] assms(3,4), of b] by simp
      ultimately show ?thesis using Inr mb(1) rb mv assms(8) by (simp add: kruns_simps kruns_Inr)
    qed
  qed
  then show ?thesis using p(1) assms(4,8) by (simp add: sfs_partialio_def kruns_bind kruns_assert)
qed

lemma sfs_blockio_write:
  assumes "fs_ok I s" and "v \<in> set (vlist s)" and "at_byte k 0 u"
    and "uready s u 512" and "ubounds 512 u" and "uio_resid u < 2147483648" and "uio_rw u = UIO_WRITE"
  shows "kruns (sfs_blockio v u) s (wrote I v 512 u s)"
proof (cases "k < MAXBLOCKS")
  case False
  note p = at_byteD [OF assms(3)]
  have "MAXBLOCKS * 512 < nat (uio_offset u) + 512" using False p(3) by simp
  then have "wrote I v 512 u s (Inl EINVAL, u) s"
    using wrote_failed [OF assms(1,2) fstep_refl [OF assms(1,2)]] by simp
  then show ?thesis using sfs_bmap_too_big [OF assms(1,2), of k] False p(1) assms(7)
    by (simp add: sfs_blockio_def kruns_simps kruns_Inr)
next
  case True
  note p = at_byteD [OF assms(3)]
  have off: "0 \<le> uio_offset u" "uio_offset u + 512 < 2147483648" "512 \<le> uio_resid u" using assms(5) by (auto simp: ubounds_def)
  note rs = restore_uio [OF off(3) assms(6) off(1,2)]
  show ?thesis unfolding sfs_blockio_def Let_def p(1) assms(7) kruns_bind of_nat_numeral simp_thms
  proof (rule kruns_mono [OF sfs_bmap_alloc [OF assms(1,2) True]])
    fix r s1
    assume mp: "mapped I v k s r s1"
    let ?K = "\<lambda>r. case r of Inl e \<Rightarrow> kret (Inl e, u) | Inr b \<Rightarrow>
          if b = 0 then kbind (kassert (UIO_WRITE = UIO_READ)) (\<lambda>_. uiomovezeros 512 u)
          else kbind (kassert (512 \<le> uio_resid u)) (\<lambda>_.
             kbind (sfs_rwblock (u\<lparr>uio_offset := to_off (int (b * 512 mod 4294967296)), uio_resid := 512\<rparr>)) (\<lambda>(r, u').
             kret (r, u'\<lparr>uio_offset := to_off (uio_offset u' - to_off (int (b * 512 mod 4294967296)) + uio_offset u),
                        uio_resid := to_u32 (int (uio_resid u') - 512 + to_off (int (uio_resid u)))\<rparr>)))"
    show "kruns (?K r) s1 (wrote I v 512 u s)"
    proof (cases r)
      case (Inl e)
      with mp have "wrote I v 512 u s (Inl e, u) s1" by (intro wrote_failed [OF assms(1,2)]) (auto simp: mapped_def)
      with Inl show ?thesis by (simp add: kruns_simps)
    next
      case (Inr b)
      note mb = mapped_block [OF assms(1,2) True mp [unfolded Inr]]
      let ?u = "u\<lparr>uio_offset := to_off (int (b * 512 mod 4294967296)), uio_resid := 512\<rparr>"
      have b: "b < 4194303" using mb(2,3) by (auto simp: disk_ok_def drv_ok_def)
      have "uready s1 u 512" using mb(5) assms(4) by simp
      note d = disk_uio [OF b this]
      have g: "uget 512 ?u s1 = uget 512 u s" using uget_cong [OF mb(4)] by (simp add: uget_def uat_def)
      have len: "length (d_media s1 b) = 512" using mb(3) by (simp add: disk_ok_def drv_ok_def)
      then have pt: "patch 0 (uget 512 u s) (d_media s1 b) = uget 512 u s" by (simp add: patch_def)
      have io: "sfs_rwblock ?u s1 = Inr ((Inr (), uskip 512 ?u), wr b (uget 512 u s) s1)"
        using sfs_rwblock_write [OF mb(3) d(1) mb(2) d(2)] assms(7) g by simp
      have "wrote I v 512 u s (Inr (), uskip 512 u) (wr b (uget 512 u s) s1)"
        using wrote_block [OF assms(1,2) True mp [unfolded Inr] quiet_refl assms(3), of 512] pt by simp
      moreover have "uio_offset (uskip 512 ?u) - to_off (int (b * 512 mod 4294967296)) + uio_offset u = 512 + uio_offset u"
        "int (uio_resid (uskip 512 ?u)) - 512 + to_off (int (uio_resid u)) = int 0 - 512 + to_off (int (uio_resid u))" by simp_all
      moreover have "to_off (512 + uio_offset u) = uio_offset u + int 512" using rs(1) [of 0] by simp
      ultimately show ?thesis
        using Inr mb(1) io off(3) rs(2)
        by (simp only: kruns_simps kruns_Inr sum.case prod.case usend_restore if_False simp_thms)
    qed
  qed
qed

lemma sfs_io_blocks_write:
  assumes "fs_ok I s" and "v \<in> set (vlist s)" and "at_byte k 0 u"
    and "uready s u (512 * n)" and "ubounds (512 * n) u" and "uio_resid u < 2147483648" and "uio_rw u = UIO_WRITE"
  shows "kruns (sfs_io_blocks v n u) s (wrote I v (512 * n) u s)"
  using assms
proof (induction n arbitrary: u s k)
  case 0
  then show ?case using wrote_none [of I s v u] by (simp add: kruns_def)
next
  case (Suc n)
  have sp: "512 * Suc n = 512 + 512 * n" by simp
  have off: "0 \<le> uio_offset u" using Suc.prems(5) by (simp add: ubounds_def)
  have b: "ubounds 512 u" using Suc.prems(5) by (auto simp: ubounds_def)
  have "kruns (kthen (sfs_blockio v u) (sfs_io_blocks v n)) s (wrote I v (512 + 512 * n) u s)"
  proof (rule wrote_kthen [OF off])
    show "kruns (sfs_blockio v u) s (wrote I v 512 u s)"
      using Suc.prems uready_le [OF Suc.prems(4), of 512] b by (intro sfs_blockio_write [where k = k]) auto
  next
    fix s'
    assume w: "wrote I v 512 u s (Inr (), uskip 512 u) s'"
    note d = wroteD [OF w off]
    show "kruns (sfs_io_blocks v n (uskip 512 u)) s' (wrote I v (512 * n) (uskip 512 u) s')"
    proof (rule Suc.IH [OF d(1)])
      show "at_byte (k + 1) 0 (uskip 512 u)" using at_byte_advance [OF Suc.prems(3), of "uskip 512 u" 512 1] b by simp
    qed (use Suc.prems d sp in auto)
  qed
  then show ?case using sp by simp
qed

lemma sfs_io_aligned_write:
  assumes "fs_ok I s" and "v \<in> set (vlist s)" and "at_byte k 0 u"
    and "uready s u n" and "ubounds n u" and "uio_resid u = n" and "uio_rw u = UIO_WRITE" and "n < 2147483648"
  shows "kruns (sfs_io_aligned v u) s (wrote I v n u s)"
proof (cases "n = 0")
  case True
  then show ?thesis using wrote_none [OF assms(1,2)] assms(6) by (simp add: sfs_io_aligned_def kruns_simps)
next
  case False
  define q r where "q = n div 512" and "r = n mod 512"
  have n: "n = 512 * q + r" "r < 512" by (simp_all add: q_def r_def)
  have off: "0 \<le> uio_offset u" using assms(5) by (auto simp: ubounds_def)
  have "kruns (kthen (sfs_io_blocks v q u) (\<lambda>u. kbind (kassert (uio_resid u < 512)) (\<lambda>_.
        if uio_resid u > 0 then sfs_partialio v u 0 (uio_resid u) else kret (Inr (), u)))) s (wrote I v (512 * q + r) u s)"
  proof (rule wrote_kthen [OF off])
    show "kruns (sfs_io_blocks v q u) s (wrote I v (512 * q) u s)"
      using assms n uready_le [OF assms(4), of "512 * q"] by (intro sfs_io_blocks_write) (auto simp: ubounds_def)
  next
    fix s'
    let ?u = "uskip (512 * q) u"
    assume w: "wrote I v (512 * q) u s (Inr (), ?u) s'"
    note d = wroteD [OF w off]
    have r': "uio_resid ?u = r" using assms(6) n(1) by simp
    have v: "v \<in> set (vlist s')" using d(2) assms(2) by simp
    have at: "at_byte (k + q) 0 ?u"
      using at_byte_advance [OF assms(3), of ?u "512 * q" q] assms(5) n(1) by (auto simp: ubounds_def)
    show "kruns (kbind (kassert (uio_resid ?u < 512)) (\<lambda>_.
        if uio_resid ?u > 0 then sfs_partialio v ?u 0 (uio_resid ?u) else kret (Inr (), ?u))) s' (wrote I v r ?u s')"
    proof (cases "r = 0")
      case True
      then show ?thesis using r' wrote_none [OF d(1) v] by (simp add: kruns_simps)
    next
      case False
      have "kruns (sfs_partialio v ?u 0 r) s' (wrote I v r ?u s')"
      proof (rule sfs_partialio_write [OF d(1) v at])
        show "uready s' ?u r" "ubounds r ?u" using d(5,6) assms(4,5) n(1) by simp_all
      qed (use n(2) False assms(7) in simp_all)
      with False r' n(2) show ?thesis by (simp add: kruns_simps)
    qed
  qed
  then show ?thesis using False assms(6) at_byteD(2) [OF assms(3)]
    by (simp add: sfs_io_aligned_def kruns_bind kruns_assert q_def [symmetric] n(1) [symmetric])
qed

lemma sfs_io_body_write:
  assumes "fs_ok I s" and "v \<in> set (vlist s)" and "uready s u n" and "ubounds n u" and "uio_resid u = n"
    and "uio_rw u = UIO_WRITE" and "0 < n"
  shows "kruns (sfs_io_body v u) s (wrote I v n u s)"
proof -
  define k skip where "k = nat (uio_offset u) div 512" and "skip = nat (uio_offset u) mod 512"
  have off: "0 \<le> uio_offset u" and lt: "uio_offset u < 2147483648" and n: "n < 2147483648" using assms(4) by (auto simp: ubounds_def)
  have at: "at_byte k skip u" using at_byte_of [OF off lt] by (simp add: k_def skip_def)
  note p = at_byteD [OF at]
  have sk: "skip < 512" by (simp add: skip_def)
  show ?thesis
  proof (cases "skip = 0")
    case True
    then have "kruns (sfs_io_aligned v u) s (wrote I v n u s)"
      using at assms n by (intro sfs_io_aligned_write [where k = k]) simp_all
    then show ?thesis using True p(2) by (simp add: sfs_io_body_def)
  next
    case False
    define m where "m = (if 512 - skip > n then n else 512 - skip)"
    have m: "m \<le> n" "skip + m \<le> 512" "n = m + (n - m)" "0 < m" using assms(7) sk by (auto simp: m_def)
    have bm: "ubounds m u" using assms(4) m(1) by (auto simp: ubounds_def)
    have "kruns (kthen (sfs_partialio v u skip m) (sfs_io_aligned v)) s (wrote I v (m + (n - m)) u s)"
    proof (rule wrote_kthen [OF off])
      show "kruns (sfs_partialio v u skip m) s (wrote I v m u s)"
        using sfs_partialio_write [OF assms(1,2) at m(2,4) uready_le [OF assms(3) m(1)] bm assms(6)] .
    next
      fix s'
      let ?u = "uskip m u"
      assume w: "wrote I v m u s (Inr (), ?u) s'"
      note d = wroteD [OF w off]
      have v: "v \<in> set (vlist s')" using d(2) assms(2) by simp
      show "kruns (sfs_io_aligned v ?u) s' (wrote I v (n - m) ?u s')"
      proof (cases "n = m")
        case True
        then show ?thesis using assms(5) wrote_none [OF d(1) v] by (simp add: sfs_io_aligned_def kruns_simps)
      next
        case False
        then have mm: "m = 512 - skip" using m by (auto simp: m_def split: if_splits)
        have "at_byte (k + 1) 0 ?u" using at_byte_advance [OF at, of ?u m 1] mm sk bm by simp
        then show ?thesis
          by (rule sfs_io_aligned_write [OF d(1) v]) (use m(3) n d(5,6) assms in auto)
      qed
    qed
    moreover have "(512 + 4294967296 - skip) mod 4294967296 = 512 - skip" using sk False
      by (simp add: mod_if)
    ultimately show ?thesis using False p(2) sk assms(5)
      by (cases "n < 512 - skip") (simp_all add: sfs_io_body_def Let_def m_def)
  qed
qed

section \<open>Reads and writes of a file\<close>

abbreviation fsize :: "'z fsys_scheme \<Rightarrow> nat \<Rightarrow> nat" where
  "fsize s v \<equiv> sfi_size (sv_i (sv_at s v))"

lemma sent_resid:
  assumes "sent v n (u\<lparr>uio_resid := n\<rparr>) s ru s'" and "uio_resid u = n + x" and "uio_resid u < 4294967296"
  obtains u' where "ru = (Inr (), u')" and "uio_rw u' = uio_rw u"
    and "sent v n u s (Inr (), u'\<lparr>uio_resid := (uio_resid u' + x) mod 4294967296\<rparr>) s'"
proof -
  let ?bs = "fbytes s (ino_of s v) (nat (uio_offset u)) n"
  from assms(1) obtain q where q: "ru = (Inr (), usend ?bs (u\<lparr>uio_resid := n\<rparr>))" "quiet s q" "s' = mput ?bs (u\<lparr>uio_resid := n\<rparr>) q"
    by (auto simp: sent_def Let_def)
  let ?u = "usend ?bs (u\<lparr>uio_resid := n\<rparr>)"
  have "?u\<lparr>uio_resid := (uio_resid ?u + x) mod 4294967296\<rparr> = usend ?bs u"
    using assms(2,3) by (cases u) (simp add: usend_def uskip_def uput_def)
  moreover have "mput ?bs (u\<lparr>uio_resid := n\<rparr>) q = mput ?bs u q" by (rule mput_cong) simp_all
  ultimately have "sent v n u s (Inr (), ?u\<lparr>uio_resid := (uio_resid ?u + x) mod 4294967296\<rparr>) s'"
    using q by (auto simp: sent_def Let_def)
  with q(1) show thesis by (intro that [of ?u]) simp_all
qed

lemma sfs_io_read:
  assumes "fs_ok I s" and "v \<in> set (vlist s)" and "uio_rw u = UIO_READ" and "uready s u (uio_resid u)" and "0 \<le> uio_offset u"
    and "uio_offset u + int (uio_resid u) < 2147483648" and "fsize s v \<le> MAXBLOCKS * 512"
  shows "kruns (sfs_io v u) s (sent v (min (uio_resid u) (fsize s v - nat (uio_offset u))) u s)"
proof -
  define n where "n = min (uio_resid u) (fsize s v - nat (uio_offset u))"
  define x where "x = uio_resid u - n"
  have nx: "uio_resid u = n + x" "n \<le> fsize s v - nat (uio_offset u)" "uio_resid u < 4294967296"
    using assms(5,6) by (simp_all add: n_def x_def)
  have g: "sv_get v s = Inr (sv_at s v, s)" by (rule loadedD(4) [OF assms(1,2)])
  have sz: "to_off (int (fsize s v)) = int (fsize s v)" using assms(7) by (intro to_off_id) simp_all
  have ep: "to_off (uio_offset u + int (uio_resid u)) = uio_offset u + int (uio_resid u)" using assms(5,6) by (intro to_off_id) simp_all
  have body: "kruns (kbind (sfs_io_body v (u\<lparr>uio_resid := n\<rparr>)) (sfs_io_out v x)) s (sent v n u s)"
    if "nat (uio_offset u) < MAXBLOCKS * 512"
    unfolding kruns_bind
  proof (rule kruns_mono [OF sfs_io_body_read [OF assms(1,2)]])
    show "nat (uio_offset (u\<lparr>uio_resid := n\<rparr>)) + n \<le> MAXBLOCKS * 512"
      using nx(2) that assms(7) by (auto simp: le_diff_conv2 intro: order_trans)
    show "uready s (u\<lparr>uio_resid := n\<rparr>) n"
      using uready_le [OF assms(4), of n] nx(1) by (cases "iov_obj u") (simp_all add: uready_def)
    show "ubounds n (u\<lparr>uio_resid := n\<rparr>)" using assms(5,6) nx by (simp add: ubounds_def)
  next
    fix ru s'
    assume st: "sent v n (u\<lparr>uio_resid := n\<rparr>) s ru s'"
    then obtain u' where u': "ru = (Inr (), u')" "uio_rw u' = uio_rw u"
      "sent v n u s (Inr (), u'\<lparr>uio_resid := (uio_resid u' + x) mod 4294967296\<rparr>) s'"
      using sent_resid [OF _ nx(1,3)] by blast
    note d = sentD [OF u'(3) assms(1,5)]
    have "sv_get v s' = Inr (sv_at s' v, s')" using loadedD(4) [OF d(2)] assms(2) d(3) by simp
    with u' assms(3) show "kruns (sfs_io_out v x ru) s' (sent v n u s)"
      by (simp add: sfs_io_out_def kruns_simps kruns_Inr)
  qed (use that assms(3) in simp_all)
  consider (past) "int (fsize s v) \<le> uio_offset u"
    | (cut) "uio_offset u < int (fsize s v)" "int (fsize s v) < uio_offset u + int (uio_resid u)"
    | (full) "uio_offset u < int (fsize s v)" "uio_offset u + int (uio_resid u) \<le> int (fsize s v)" by linarith
  then show ?thesis
  proof cases
    case past
    then have "n = 0" by (simp add: n_def)
    then have "sent v (min (uio_resid u) (fsize s v - nat (uio_offset u))) u s (Inr (), u) s"
      using sent_none [OF assms(2)] by (simp add: n_def)
    then show ?thesis using past g sz assms(3) by (simp add: sfs_io_def kruns_simps kruns_Inr Let_def)
  next
    case cut
    have n: "int n = int (fsize s v) - uio_offset u" using cut assms(5) by (simp add: n_def)
    have x: "int x = uio_offset u + int (uio_resid u) - int (fsize s v)" using n nx(1) by simp
    have "to_u32 (uio_offset u + int (uio_resid u) - int (fsize s v)) = x"
      using x [symmetric] nx(1,3) by simp
    moreover have "nat (uio_offset u) < MAXBLOCKS * 512" "uio_resid u - x = n" "x < uio_resid u" using n cut nx(1) assms(5,7) by auto
    ultimately show ?thesis using cut g sz ep assms(3) body
      unfolding n_def [symmetric] sfs_io_def by (simp add: kruns_simps kruns_Inr Let_def)
  next
    case full
    then have n: "uio_resid u \<le> fsize s v - nat (uio_offset u)" "nat (uio_offset u) < MAXBLOCKS * 512"
      using assms(5,7) by linarith+
    then have "n = uio_resid u" "x = 0" by (simp_all add: n_def x_def)
    then show ?thesis using full g sz ep assms(3) body [OF n(2)]
      unfolding n_def [symmetric] sfs_io_def by (simp add: kruns_simps kruns_Inr Let_def)
  qed
qed

lemma set_attr:
  assumes "fs_ok I s" and "v \<in> set (vlist s)" and "inode_ok i"
    and "sfi_direct i = sfi_direct (sv_i (sv_at s v))" and "sfi_indirect i = sfi_indirect (sv_i (sv_at s v))"
  shows "fs_ok I (set_inode v i s)" and "oslot (set_inode v i s) = oslot s" and "fbyte (set_inode v i s) = fbyte s"
    and "\<And>jno. jno \<noteq> ino_of s v \<Longrightarrow> inode_of (set_inode v i s) jno = inode_of s jno"
proof -
  note l = loadedD [OF assms(1,2)]
  have sl: "(\<lambda>x. if fst x = ino_of s v then (fst x # inode_slots (d_media s) i) ! snd x else oslot s x) = oslot s"
    using assms(4,5) l(2) by (auto simp: fun_eq_iff oslot_def inode_slots_def)
  note f = fs_ok_set_inode [OF assms(1-3), unfolded sl, OF fs_okD(5) [OF assms(1)]]
  show "fs_ok I (set_inode v i s)" by (rule f(1))
  show o: "oslot (set_inode v i s) = oslot s"
    by (rule ext) (simp only: f(2) fun_cong [OF sl, simplified])
  show "fbyte (set_inode v i s) = fbyte s" by (simp add: fun_eq_iff fbyte_def o Let_def)
  show "inode_of (set_inode v i s) jno = inode_of s jno" if "jno \<noteq> ino_of s v" for jno
    using inode_of_set_inode [OF fs_okD(3) [OF assms(1)] assms(2)] that by simp
qed

text \<open>
  What a write of \<open>n\<close> bytes does to the volume: \<open>m\<close> bytes went into the file, whose size covers
  them; nothing else changed.
\<close>

definition stored :: "nat set \<Rightarrow> nat \<Rightarrow> nat \<Rightarrow> uio \<Rightarrow> 'z fsys_scheme \<Rightarrow> (errno + unit) \<times> uio \<Rightarrow> 'z fsys_scheme \<Rightarrow> bool" where
  "stored I v n u s ru s' \<longleftrightarrow>
     (\<exists>m r. ru = (r, uskip m u) \<and> m \<le> n \<and>
        (r = Inr () \<and> m = n \<or> r = Inl ENOSPC \<or> r = Inl EINVAL \<and> MAXBLOCKS * 512 < nat (uio_offset u) + n) \<and>
        fs_ok I s' \<and> same_env s s' \<and> ino_of s' v = ino_of s v \<and>
        fbyte s' (ino_of s v) = overlay (nat (uio_offset u)) (uget m u s) (fbyte s (ino_of s v)) \<and>
        fsize s' v = max (fsize s v) (nat (uio_offset u) + m) \<and>
        (\<forall>jno\<in>I. jno \<noteq> ino_of s v \<longrightarrow> inode_of s' jno = inode_of s jno \<and> (\<forall>p. fbyte s' jno p = fbyte s jno p)))"

lemma sfs_io_out_write:
  assumes "fs_ok I s" and "v \<in> set (vlist s)" and "0 \<le> uio_offset u" and "uio_resid u < 4294967296"
    and "uio_offset u + int n < 2147483648" and "fsize s v < 2147483648" and "uio_rw u = UIO_WRITE" and "wrote I v n u s ru s'"
  shows "kruns (sfs_io_out v 0 ru) s' (stored I v n u s)"
proof -
  from assms(8) obtain m r where w: "ru = (r, uskip m u)" "m \<le> n" "fstep I v s s'"
    "r = Inr () \<and> m = n \<or> r = Inl ENOSPC \<or> r = Inl EINVAL \<and> MAXBLOCKS * 512 < nat (uio_offset u) + n"
    "fbyte s' (ino_of s v) = overlay (nat (uio_offset u)) (uget m u s) (fbyte s (ino_of s v))" unfolding wrote_def by blast
  note f = fstepD [OF w(3)]
  have v: "v \<in> set (vlist s')" using f(4) assms(2) by simp
  note l = loadedD [OF f(1) v]
  have sz: "fsize s' v = fsize s v" using vstep_at(3) [OF f(3)] by (simp add: same_attr_def)
  have so: "to_off (int (fsize s v)) = int (fsize s v)" using assms(6) by (intro to_off_id) simp_all
  have off: "uio_offset u + int m < 2147483648" using w(2) assms(5) by simp
  have res: "(uskip m u)\<lparr>uio_resid := (uio_resid (uskip m u) + 0) mod 4294967296\<rparr> = uskip m u"
    using assms(4) by (cases u) (simp add: uskip_def)
  have oth: "\<forall>jno\<in>I. jno \<noteq> ino_of s v \<longrightarrow> inode_of s' jno = inode_of s jno \<and> (\<forall>p. fbyte s' jno p = fbyte s jno p)"
    using w(3) by (simp add: fstep_def)
  show ?thesis
  proof (cases "uio_offset u + int m > int (fsize s v)")
    case False
    then have "max (fsize s v) (nat (uio_offset u) + m) = fsize s v" using assms(3) by simp
    then have "stored I v n u s (r, uskip m u) s'"
      unfolding stored_def using w f oth sz by (intro exI [of _ m] exI [of _ r]) simp
    then show ?thesis using False w(1) l(4) sz so res by (simp add: sfs_io_out_def kruns_simps kruns_Inr)
  next
    case True
    have t: "to_u32 (uio_offset u + int m) = nat (uio_offset u) + m"
      using assms(3) off by (simp add: to_u32_def nat_add_distrib mod_pos_pos_trivial)
    let ?i = "(sv_i (sv_at s' v))\<lparr>sfi_size := nat (uio_offset u) + m\<rparr>"
    have i: "inode_ok ?i" using l(3) assms(3) off by (simp add: inode_ok_def u32_def)
    note a = set_attr [OF f(1) v i]
    let ?t = "set_inode v ?i s'"
    have im: "sv_imod v (\<lambda>i. i\<lparr>sfi_size := to_u32 (uio_offset u + int m)\<rparr>) s' = Inr ((), ?t)"
      unfolding t using sv_imod_loaded [OF fs_okD(3) [OF f(1)] v] by simp
    have "max (fsize s v) (nat (uio_offset u) + m) = nat (uio_offset u) + m" using True assms(3) by simp
    then have "stored I v n u s (r, uskip m u) ?t"
      unfolding stored_def using w f oth a same_env_trans [OF f(2) same_env_steps(4)]
      by (intro exI [of _ m] exI [of _ r]) simp
    then show ?thesis using True w(1) l(4) sz so res im assms(7) by (simp add: sfs_io_out_def kruns_simps kruns_Inr)
  qed
qed

lemma sfs_io_write:
  assumes "fs_ok I s" and "v \<in> set (vlist s)" and "uio_rw u = UIO_WRITE" and "uready s u (uio_resid u)" and "0 \<le> uio_offset u"
    and "uio_offset u + int (uio_resid u) < 2147483648" and "fsize s v < 2147483648" and "0 < uio_resid u"
  shows "kruns (sfs_io v u) s (stored I v (uio_resid u) u s)"
proof -
  have b: "ubounds (uio_resid u) u" and lt: "uio_resid u < 4294967296" using assms(5,6) by (simp_all add: ubounds_def)
  have "kruns (kbind (sfs_io_body v u) (sfs_io_out v 0)) s (stored I v (uio_resid u) u s)"
    unfolding kruns_bind
    by (rule kruns_mono [OF sfs_io_body_write [OF assms(1,2,4) b HOL.refl assms(3,8)]])
      (rule sfs_io_out_write [OF assms(1,2,5) lt assms(6,7,3)])
  then show ?thesis using loadedD(4) [OF assms(1,2)] assms(3) by (simp add: sfs_io_def kruns_simps kruns_Inr Let_def)
qed

text \<open>A write that begins past the greatest size of a file.\<close>

lemma sfs_io_body_too_big:
  assumes "fs_ok I s" and "v \<in> set (vlist s)" and "uio_rw u = UIO_WRITE" and "0 \<le> uio_offset u"
    and "uio_offset u < 2147483648" and "MAXBLOCKS * 512 \<le> nat (uio_offset u)" and "0 < uio_resid u" and "uio_resid u < 2147483648"
  shows "sfs_io_body v u s = Inr ((Inl EINVAL, u), s)"
proof -
  define k skip where "k = nat (uio_offset u) div 512" and "skip = nat (uio_offset u) mod 512"
  have at: "at_byte k skip u" using at_byte_of [OF assms(4,5)] by (simp add: k_def skip_def)
  note p = at_byteD [OF at]
  have sk: "skip < 512" by (simp add: skip_def)
  have k: "MAXBLOCKS \<le> k" using assms(6) p(3) sk by linarith
  have b: "sfs_bmap v k True s = Inr (Inl EINVAL, s)" using sfs_bmap_too_big [OF assms(1,2) k] .
  have pa: "sfs_partialio v u skip n s = Inr ((Inl EINVAL, u), s)" if "skip + n \<le> 512" for n
    using b p(1) assms(3) that by (simp add: sfs_partialio_def kbind_def)
  have bl: "sfs_blockio v u s = Inr ((Inl EINVAL, u), s)"
    using b p(1) assms(3) by (simp add: sfs_blockio_def kbind_def)
  have th: "kthen m f s = Inr ((Inl EINVAL, u), s)" if "m s = Inr ((Inl EINVAL, u), s)" for m :: "('a fsys_scheme, (errno + unit) \<times> uio) kern" and f
    using that by (simp add: kthen_def kbind_def)
  show ?thesis
  proof (cases "skip = 0")
    case False
    let ?n = "if 512 - skip > uio_resid u then uio_resid u else 512 - skip"
    have "(512 + 4294967296 - skip) mod 4294967296 = 512 - skip" using sk False by (simp add: mod_if)
    moreover have "skip + ?n \<le> 512" using sk by auto
    ultimately show ?thesis using False p(2) sk pa by (simp add: sfs_io_body_def Let_def th)
  next
    case True
    have "sfs_io_aligned v u s = Inr ((Inl EINVAL, u), s)"
    proof (cases "uio_resid u < 512")
      case lt: True
      then have "sfs_io_blocks v (uio_resid u div 512) u = kret (Inr (), u)" by simp
      then show ?thesis using lt True assms(7) p(2) pa [of "uio_resid u"] by (simp add: sfs_io_aligned_def kthen_def kbind_def)
    next
      case False
      then obtain j where "uio_resid u div 512 = Suc j" by (metis div_greater_zero_iff gr0_implies_Suc not_less zero_less_numeral)
      then have "sfs_io_blocks v (uio_resid u div 512) u s = Inr ((Inl EINVAL, u), s)" using th [of "sfs_blockio v u"] bl by simp
      then show ?thesis using True assms(7) p(2) by (simp add: sfs_io_aligned_def kbind_def th)
    qed
    then show ?thesis using True p(2) by (simp add: sfs_io_body_def)
  qed
qed

section \<open>Properties\<close>

text \<open>
  C11: \<^verbatim>\<open>sfs_read\<close> into a kernel buffer returns the bytes of the file from the offset on, up to the end
  of the file, moves the descriptor on by their number, and changes nothing but the buffer and
  registers of the disk driver.
\<close>

theorem sfs_read_contents:
  assumes "fs_ok I s" and "v \<in> set (vlist s)" and "uio_rw u = UIO_READ" and "uready s u (uio_resid u)" and "0 \<le> uio_offset u"
    and "uio_offset u + int (uio_resid u) < 2147483648" and "fsize s v \<le> MAXBLOCKS * 512"
  shows "kruns (sfs_read v u) s (sent v (min (uio_resid u) (fsize s v - nat (uio_offset u))) u s)"
  using sfs_io_read [OF assms] assms(3) by (simp add: sfs_read_def kruns_simps)

text \<open>A volume of 16 blocks with one file, which says hello.\<close>

definition fdemo :: fsys where
  "fdemo = \<lparr>us_cur = Some 1, us_vmspace = None, us_bytes = (\<lambda>_. 0), us_rd = (\<lambda>_. True), us_wr = (\<lambda>_. True), us_badfault = False,
     d_blocks = 16, d_blocksize = 512, lh_clear = 1, lh_done = 0, lh_result = None, lh_buf = replicate 512 0,
     lhd_sect = 0, lhd_stat = 0, d_media = (\<lambda>b. if b = 4 then [104, 101, 108, 108, 111] @ replicate 507 0 else replicate 512 0),
     d_replies = [], sfs_live = True,
     sfs_super = \<lparr>sp_magic = SFS_MAGIC, sp_nblocks = 16, sp_volname = replicate 32 0, sp_reserved = replicate 118 0\<rparr>,
     sfs_superdirty = False, sfs_vnodes = \<lparr>arr_num = 1, arr_max = 1, arr_v = Some [Some 0]\<rparr>,
     sfs_freemap = \<lparr>bm_nbits = 16, bm_v = [31, 0]\<rparr>, sfs_freemapdirty = False,
     sv_heap = (\<lambda>v. if v = 0 then
       Some \<lparr>vn_refcount = 1, vn_opencount = 1, vn_countlock = lock_new, vn_ops = SfsFile,
         sv_i = \<lparr>sfi_size = 5, sfi_type = 1, sfi_linkcount = 1, sfi_direct = 4 # replicate 14 0, sfi_indirect = 0, sfi_waste = replicate 110 0\<rparr>,
         sv_ino = 3, sv_dirty = False\<rparr> else None),
     sv_next = 1, k_mem = []\<rparr>"

lemma fdemo_simps [simp]:
  "vlist fdemo = [0]" "ino_of fdemo 0 = 3" "fsize fdemo 0 = 5" "d_blocks fdemo = 16"
  "d_media fdemo b = (if b = 4 then [104, 101, 108, 108, 111] @ replicate 507 0 else replicate 512 0)"
  by (simp_all add: fdemo_def vlist_def array_list_def array_cells_def sv_at_def)

lemma fdemo_slot: "k < NSLOTS \<Longrightarrow> oslot fdemo (3, k) = (if k = 0 then 3 else if k = 1 then 4 else 0)"
proof -
  assume k: "k < NSLOTS"
  have "inode_of fdemo 3 = sv_i (sv_at fdemo 0)" by (simp add: inode_of_def)
  moreover have "sfi_direct (sv_i (sv_at fdemo 0)) = 4 # replicate 14 0" "sfi_indirect (sv_i (sv_at fdemo 0)) = 0"
    by (simp_all add: fdemo_def sv_at_def)
  ultimately have "oslot fdemo (3, k) = (3 # 4 # replicate 14 0 @ 0 # replicate 128 0) ! k"
    by (simp add: oslot_def inode_slots_def)
  with k show ?thesis by (auto simp: nth_Cons' nth_append)
qed

lemma fdemo_blocks: "bm_used (sfs_freemap fdemo) = {0, 1, 2, 3, 4}" "meta_blocks fdemo = {0, 2}" "data_blocks fdemo = {1, 3, 4}"
proof -
  have "bm_bit \<lparr>bm_nbits = 16, bm_v = [31, 0]\<rparr> i \<longleftrightarrow> i \<in> {0, 1, 2, 3, 4}" if "i < 16" for i
  proof -
    from that have "i \<in> set [0..<16]" by simp
    then show ?thesis by (simp add: upt_rec bm_bit_def) (elim disjE; simp)
  qed
  then show u: "bm_used (sfs_freemap fdemo) = {0, 1, 2, 3, 4}" by (auto simp: bm_used_def fdemo_def)
  show m: "meta_blocks fdemo = {0, 2}" by (auto simp: meta_blocks_def fdemo_def SFS_BITBLOCKS_def SFS_BITMAPSIZE_def)
  show "data_blocks fdemo = {1, 3, 4}" unfolding data_blocks_def u m by (auto simp: fdemo_def)
qed

lemma fdemo_ok: "fs_ok {3} fdemo"
proof -
  have "owned {1, 3, 4} ({3} \<times> {..<NSLOTS}) (oslot fdemo)"
    by (auto simp: owned_def fdemo_slot split: if_splits)
  moreover have "disk_ok fdemo" by (simp add: disk_ok_def drv_ok_def) (simp add: fdemo_def)
  moreover have "vtab_ok fdemo"
    by (simp add: vtab_ok_def) (simp add: fdemo_def array_inv_def array_shape_def array_cells_def)
  moreover have "map_ok fdemo"
    unfolding map_ok_def fdemo_blocks by (auto simp: fdemo_def bm_inv_def)
  moreover have "inode_ok (inode_of fdemo 3)"
    by (simp add: inode_of_def) (simp add: fdemo_def sv_at_def inode_ok_def u32_def u16_def list_all_iff)
  ultimately show ?thesis by (simp add: fs_ok_def fdemo_blocks)
qed

lemma fdemo_bytes: "fbytes fdemo 3 2 3 = [108, 108, 111]"
proof -
  have "fbyte fdemo 3 p = [104, 101, 108, 108, 111] ! p" if "p < 5" for p
    using that fdemo_slot [of "fplace 0"] by (simp add: fbyte_def fplace_def Let_def nth_Cons')
  moreover have "[2..<5] = [2, 3, 4 :: nat]" by (simp add: upt_rec)
  ultimately show ?thesis by (simp add: fbytes_def)
qed

theorem sfs_read_contents_witness:
  "\<exists>u' s'. sfs_read 0 (mk_kuio (Some (replicate 8 0)) 0 8 2 UIO_READ) fdemo = Inr ((Inr (), u'), s') \<and>
     iov_obj u' = Some [108, 108, 111, 0, 0, 0, 0, 0] \<and> uio_resid u' = 5 \<and> uio_offset u' = 5"
proof -
  let ?u = "mk_kuio (Some (replicate 8 0)) 0 8 2 UIO_READ"
  have "kruns (sfs_read 0 ?u) fdemo (sent 0 (min (uio_resid ?u) (fsize fdemo 0 - nat (uio_offset ?u))) ?u fdemo)"
    by (rule sfs_read_contents [OF fdemo_ok]) (simp_all add: mk_kuio_def uready_def)
  then have "kruns (sfs_read 0 ?u) fdemo (sent 0 3 ?u fdemo)" by (simp add: mk_kuio_def)
  then obtain u' s' where r: "sfs_read 0 ?u fdemo = Inr ((Inr (), u'), s')" and u': "u' = usend [108, 108, 111] ?u"
    by (auto simp: kruns_def sent_def Let_def fdemo_bytes mk_kuio_def split: sum.splits)
  have "iov_obj u' = Some [108, 108, 111, 0, 0, 0, 0, 0]" by (simp add: u' mk_kuio_def patch_def numeral_eq_Suc)
  with r u' show ?thesis by (simp add: mk_kuio_def)
qed

text \<open>
  C9: \<^verbatim>\<open>sfs_write\<close> from a kernel buffer puts a prefix of the data into the file at the offset, and all of
  it if it reports success.  The size of the file grows to cover what was written, the descriptor
  moves on by as much, all other files keep their contents and inodes, and the volume stays
  consistent.  It fails only when no block is free or the file would pass its greatest size.
\<close>

theorem sfs_write_contents:
  assumes "fs_ok I s" and "v \<in> set (vlist s)" and "uio_rw u = UIO_WRITE" and "uready s u (uio_resid u)" and "0 \<le> uio_offset u"
    and "uio_offset u + int (uio_resid u) < 2147483648" and "fsize s v < 2147483648" and "0 < uio_resid u"
  shows "kruns (sfs_write v u) s (stored I v (uio_resid u) u s)"
  using sfs_io_write [OF assms] assms(3) by (simp add: sfs_write_def kruns_simps)

theorem sfs_write_contents_witness:
  "\<exists>ru s'. sfs_write 0 (mk_kuio (Some [1, 2, 3]) 0 3 600 UIO_WRITE) fdemo = Inr (ru, s') \<and>
     stored {3} 0 3 (mk_kuio (Some [1, 2, 3]) 0 3 600 UIO_WRITE) fdemo ru s'"
proof -
  let ?u = "mk_kuio (Some [1, 2, 3]) 0 3 600 UIO_WRITE"
  have "kruns (sfs_write 0 ?u) fdemo (stored {3} 0 (uio_resid ?u) ?u fdemo)"
    by (rule sfs_write_contents [OF fdemo_ok]) (simp_all add: mk_kuio_def uready_def)
  then show ?thesis by (auto simp: kruns_def mk_kuio_def split: sum.splits)
qed

text \<open>
  C10: What \<^verbatim>\<open>sfs_write\<close> stored, \<^verbatim>\<open>sfs_read\<close> returns: within the greatest size of a file a write either
  runs out of blocks, or a read of the same range right after it hands back the data written.
\<close>

theorem sfs_read_back:
  assumes "fs_ok I s" and "v \<in> set (vlist s)" and "uio_rw u = UIO_WRITE" and "uready s u (uio_resid u)" and "0 \<le> uio_offset u"
    and "nat (uio_offset u) + uio_resid u \<le> MAXBLOCKS * 512" and "fsize s v \<le> MAXBLOCKS * 512" and "0 < uio_resid u"
  shows "kruns (sfs_write v u) s (\<lambda>ru s'. fst ru = Inl ENOSPC \<or> fst ru = Inr () \<and>
     kruns (sfs_read v (mk_kuio (Some (replicate (uio_resid u) 0)) 0 (uio_resid u) (uio_offset u) UIO_READ)) s'
       (\<lambda>rw s''. fst rw = Inr () \<and> uio_resid (snd rw) = 0 \<and> iov_obj (snd rw) = Some (uget (uio_resid u) u s)))"
proof -
  define n where "n = uio_resid u"
  let ?w = "mk_kuio (Some (replicate n 0)) 0 n (uio_offset u) UIO_READ" and ?off = "nat (uio_offset u)"
  have lt: "uio_offset u + int (uio_resid u) < 2147483648" "fsize s v < 2147483648" using assms(5-7) by auto
  have st: "kruns (sfs_write v u) s (stored I v n u s)"
    using sfs_io_write [OF assms(1-5) lt assms(8)] assms(3) by (simp add: sfs_write_def kruns_simps n_def)
  show ?thesis unfolding n_def [symmetric]
  proof (rule kruns_mono [OF st])
    fix ru s'
    assume "stored I v n u s ru s'"
    then obtain m r where w: "ru = (r, uskip m u)" "r = Inr () \<and> m = n \<or> r = Inl ENOSPC"
      "fs_ok I s'" "same_env s s'" "ino_of s' v = ino_of s v"
      "fbyte s' (ino_of s v) = overlay ?off (uget m u s) (fbyte s (ino_of s v))" "fsize s' v = max (fsize s v) (?off + m)"
      using assms(6) by (auto simp: stored_def n_def)
    show "fst ru = Inl ENOSPC \<or> fst ru = Inr () \<and>
        kruns (sfs_read v ?w) s' (\<lambda>rw s''. fst rw = Inr () \<and> uio_resid (snd rw) = 0 \<and> iov_obj (snd rw) = Some (uget n u s))"
    proof (cases "r = Inl ENOSPC")
      case False
      with w have m: "m = n" "r = Inr ()" by auto
      have fb: "fbytes s' (ino_of s' v) ?off n = uget n u s"
        by (rule nth_equalityI) (simp_all add: fbytes_def w(5,6) overlay_def m(1))
      have sz: "fsize s' v \<le> MAXBLOCKS * 512" "?off + n \<le> fsize s' v" using w(7) m(1) assms(6,7) by (simp_all add: n_def)
      have "kruns (sfs_io v ?w) s' (sent v (min (uio_resid ?w) (fsize s' v - nat (uio_offset ?w))) ?w s')"
        using sz(1) lt(1) assms(2,5) same_env_vlist [OF w(4)]
        by (intro sfs_io_read [OF w(3)]) (simp_all add: mk_kuio_def uready_def n_def)
      moreover have "min (uio_resid ?w) (fsize s' v - nat (uio_offset ?w)) = n" using sz(2) by (simp add: mk_kuio_def)
      ultimately have "kruns (sfs_read v ?w) s' (sent v n ?w s')" by (simp add: sfs_read_def mk_kuio_def kruns_simps)
      then have "kruns (sfs_read v ?w) s' (\<lambda>rw s''. fst rw = Inr () \<and> uio_resid (snd rw) = 0 \<and> iov_obj (snd rw) = Some (uget n u s))"
        by (rule kruns_mono) (auto simp: sent_def Let_def fb mk_kuio_def patch_def)
      with w(1) m(2) show ?thesis by simp
    qed (use w(1) in simp)
  qed
qed

theorem sfs_read_back_witness:
  "kruns (sfs_write 0 (mk_kuio (Some [1, 2, 3]) 0 3 511 UIO_WRITE)) fdemo (\<lambda>ru s'. fst ru = Inl ENOSPC \<or> fst ru = Inr () \<and>
     kruns (sfs_read 0 (mk_kuio (Some (replicate 3 0)) 0 3 511 UIO_READ)) s'
       (\<lambda>rw s''. fst rw = Inr () \<and> uio_resid (snd rw) = 0 \<and> iov_obj (snd rw) = Some [1, 2, 3]))"
proof -
  let ?u = "mk_kuio (Some [1, 2, 3]) 0 3 511 UIO_WRITE"
  have u: "uio_resid ?u = 3" "uio_offset ?u = 511" "uget 3 ?u fdemo = [1, 2, 3]"
    by (simp_all add: mk_kuio_def uget_def uat_def upt_rec)
  have "kruns (sfs_write 0 ?u) fdemo (\<lambda>ru s'. fst ru = Inl ENOSPC \<or> fst ru = Inr () \<and>
     kruns (sfs_read 0 (mk_kuio (Some (replicate (uio_resid ?u) 0)) 0 (uio_resid ?u) (uio_offset ?u) UIO_READ)) s'
       (\<lambda>rw s''. fst rw = Inr () \<and> uio_resid (snd rw) = 0 \<and> iov_obj (snd rw) = Some (uget (uio_resid ?u) ?u fdemo)))"
    by (rule sfs_read_back [OF fdemo_ok]) (simp_all add: mk_kuio_def uready_def)
  then show ?thesis by (simp only: u)
qed

text \<open>
  A write that begins past the greatest size of a file fails with EINVAL and stores nothing, but
  the size of the file is set to the offset of the write all the same: the code adjusts the
  length after the label \<^verbatim>\<open>out\<close>, which errors reach too.
\<close>

theorem sfs_write_too_big_grows:
  assumes "fs_ok I s" and "v \<in> set (vlist s)" and "uio_rw u = UIO_WRITE" and "0 \<le> uio_offset u"
    and "MAXBLOCKS * 512 \<le> nat (uio_offset u)" and "uio_offset u + int (uio_resid u) < 2147483648" and "0 < uio_resid u"
    and "fsize s v < nat (uio_offset u)"
  shows "\<exists>s'. sfs_write v u s = Inr ((Inl EINVAL, u), s') \<and> fs_ok I s' \<and> fbyte s' = fbyte s \<and> fsize s' v = nat (uio_offset u)"
proof -
  let ?i = "(sv_i (sv_at s v))\<lparr>sfi_size := nat (uio_offset u)\<rparr>"
  note l = loadedD [OF assms(1,2)]
  have i: "inode_ok ?i" using l(3) assms(4,6) by (simp add: inode_ok_def u32_def)
  note a = set_attr [OF assms(1,2) i]
  have b: "sfs_io_body v u s = Inr ((Inl EINVAL, u), s)"
    by (rule sfs_io_body_too_big [OF assms(1-4) _ assms(5,7)]) (use assms(4,6) in simp_all)
  have sz: "to_off (int (fsize s v)) = int (fsize s v)" using assms(6,8) by (intro to_off_id) simp_all
  have im: "sv_imod v (\<lambda>i. i\<lparr>sfi_size := nat (uio_offset u)\<rparr>) s = Inr ((), set_inode v ?i s)"
    using sv_imod_loaded [OF fs_okD(3) [OF assms(1)] assms(2)] by simp
  have t: "to_u32 (uio_offset u) = nat (uio_offset u)" using assms(4,6) by (simp add: to_u32_def)
  have "u\<lparr>uio_resid := uio_resid u mod 4294967296\<rparr> = u" using assms(4,6) by (cases u) simp
  then have "sfs_write v u s = Inr ((Inl EINVAL, u), set_inode v ?i s)"
    using assms(3,8) b sz im t l(4) by (simp add: sfs_write_def sfs_io_def sfs_io_out_def Let_def kbind_def)
  with a show ?thesis by simp
qed

theorem sfs_write_too_big_grows_witness:
  "\<exists>s'. sfs_write 0 (mk_kuio (Some [1, 2, 3]) 0 3 80000 UIO_WRITE) fdemo =
      Inr ((Inl EINVAL, mk_kuio (Some [1, 2, 3]) 0 3 80000 UIO_WRITE), s') \<and> fsize s' 0 = 80000"
  using sfs_write_too_big_grows [OF fdemo_ok, of 0 "mk_kuio (Some [1, 2, 3]) 0 3 80000 UIO_WRITE"]
  by (auto simp: mk_kuio_def)

end
