(* ===== verification/Vm_Fault.thy ===== *)
theory Vm_Fault
  imports Addrspace Sfs_Write
begin

text \<open>
  The fault handler of \<^verbatim>\<open>kern/vm/vm.c\<close>: \<^verbatim>\<open>vm_fault\<close>, which brings in the page a program touched and
  enters it into the TLB, and \<^verbatim>\<open>load_each_segment\<close>, which reads a page of the executable through
  the read operation of its vnode.

  The lemmas show what a fault does to the TLB: a page that is in memory gets exactly one entry,
  with its frame; at most one other page loses its entry; and no page is ever mapped twice.
\<close>

section \<open>Model\<close>

abbreviation VM_FAULT_READ :: int where "VM_FAULT_READ \<equiv> 0"
abbreviation VM_FAULT_WRITE :: int where "VM_FAULT_WRITE \<equiv> 1"
abbreviation VM_FAULT_READONLY :: int where "VM_FAULT_READONLY \<equiv> 2"

text \<open>A fault either returns a code or ends the process.\<close>

datatype vmres = VRet "errno + unit" | VExit

definition on_core :: "(physmem, 'a) kern \<Rightarrow> ('z vsys_scheme, 'a) kern" where
  "on_core = kzoom v_core (\<lambda>c s. s\<lparr>v_core := c\<rparr>)"

definition load_each_segment ::
  "'z vsys_scheme vop_io \<Rightarrow> nat \<Rightarrow> int \<Rightarrow> nat \<Rightarrow> nat \<Rightarrow> nat \<Rightarrow> nat \<Rightarrow> int \<Rightarrow> ('z vsys_scheme, errno + unit) kern" where
  "load_each_segment vop_read v offset vaddr memsize filesize is_executable fread =
     (let filesize = (if filesize > memsize then memsize else filesize) in
      if fread \<noteq> 0 then kret (Inr ())
      else
        kbind (kget us_vmspace) (\<lambda>space.
        kbind (vop_read v
          \<lparr>iov_obj = None, iov_base = vaddr, iov_len = memsize, uio_offset = offset, uio_resid = filesize,
           uio_segflg = (if is_executable \<noteq> 0 then UIO_USERISPACE else UIO_USERSPACE), uio_rw = UIO_READ,
           uio_space = space\<rparr>) (\<lambda>(r, u).
        case r of
          Inl e \<Rightarrow> kret (Inl e)
        | Inr _ \<Rightarrow>
            if uio_resid u \<noteq> 0 then kret (Inl ENOEXEC)
            else
              (let fillamt = memsize - filesize in
               if fillamt > 0 then
                 kbind (uiomovezeros fillamt (u\<lparr>uio_resid := (uio_resid u + fillamt) mod 4294967296\<rparr>)) (\<lambda>(r, u).
                 kret r)
               else kret (Inr ())))))"

text \<open>What the handler looks up before it acts: the page, its segment and where its contents are.\<close>

record vmseg =
  vs_pg :: nat
  vs_segment :: int
  vs_fsize :: nat
  vs_offset :: int
  vs_flags :: nat
  vs_pi :: nat
  vs_v :: nat

definition seg_page :: "nat array option \<Rightarrow> nat \<Rightarrow> ('z vsys_scheme, nat) kern" where
  "seg_page arr i =
     (case arr of
        None \<Rightarrow> khalt BadPtr
      | Some a \<Rightarrow>
          (case array_getguy a (int i) of
             Inl h \<Rightarrow> khalt h
           | Inr None \<Rightarrow> khalt BadPtr
           | Inr (Some p) \<Rightarrow> kret p))"

definition vtop1 :: "addrspace \<Rightarrow> nat" where
  "vtop1 as = (as_vbase1 as + as_npages1 as * PAGE_SIZE) mod 4294967296"

definition vtop2 :: "addrspace \<Rightarrow> nat" where
  "vtop2 as = (as_vbase2 as + as_npages2 as * PAGE_SIZE) mod 4294967296"

definition in_code :: "addrspace \<Rightarrow> nat \<Rightarrow> bool" where
  "in_code as fa \<longleftrightarrow> fa \<ge> as_vbase1 as \<and> fa < vtop1 as"

definition in_data :: "addrspace \<Rightarrow> nat \<Rightarrow> bool" where
  "in_data as fa \<longleftrightarrow> fa \<ge> as_vbase2 as \<and> fa < vtop2 as"

definition in_stack :: "nat \<Rightarrow> bool" where
  "in_stack fa \<longleftrightarrow> fa \<ge> USERSTACK - DUMBVM_STACKPAGES * PAGE_SIZE \<and> fa < USERSTACK"

definition vm_segment :: "addrspace \<Rightarrow> nat \<Rightarrow> ('z vsys_scheme, vmseg option) kern" where
  "vm_segment as fa =
     (if in_code as fa then
        kbind (seg_page (useg1 as) ((fa - as_vbase1 as) div PAGE_SIZE)) (\<lambda>pg.
        kret (Some \<lparr>vs_pg = pg, vs_segment = 0, vs_fsize = as_filesz1 as, vs_offset = as_off1 as,
                    vs_flags = as_flag1 as, vs_pi = (fa - as_vbase1 as) div PAGE_SIZE, vs_v = as_v as\<rparr>))
      else if in_data as fa then
        kbind (seg_page (useg2 as) ((fa - as_vbase2 as) div PAGE_SIZE)) (\<lambda>pg.
        kret (Some \<lparr>vs_pg = pg, vs_segment = 1, vs_fsize = as_filesz2 as, vs_offset = as_off2 as,
                    vs_flags = as_flag2 as, vs_pi = (fa - as_vbase2 as) div PAGE_SIZE, vs_v = as_v as\<rparr>))
      else if in_stack fa then
        kbind (seg_page (usegs as) ((fa - (USERSTACK - DUMBVM_STACKPAGES * PAGE_SIZE)) div PAGE_SIZE)) (\<lambda>pg.
        kret (Some \<lparr>vs_pg = pg, vs_segment = 2, vs_fsize = 0, vs_offset = 0, vs_flags = 7,
                    vs_pi = ((fa + 4294967296 - as_vbase2 as) mod 4294967296) div PAGE_SIZE, vs_v = as_v as\<rparr>))
      else kret None)"

definition note_code_read :: "vmseg \<Rightarrow> ('z vsys_scheme, unit) kern" where
  "note_code_read g =
     kmod (\<lambda>s. if vs_segment g = 0 \<and> first_code_read s = 0 then s\<lparr>first_code_read := 1\<rparr> else s)"

text \<open>The part of both fault types that reads the page from the executable, at the caller's level.\<close>

definition load_page ::
  "'z vsys_scheme vop_io \<Rightarrow> vmseg \<Rightarrow> nat \<Rightarrow> int \<Rightarrow> int \<Rightarrow> ('z vsys_scheme, (errno + unit) \<times> int) kern" where
  "load_page vop_read g fa fread spl =
     kbind (vsplx spl) (\<lambda>_.
     kbind (load_each_segment vop_read (vs_v g) (to_off (vs_offset g + int (vs_pi g * PAGE_SIZE))) fa PAGE_SIZE
              (if vs_fsize g < PAGE_SIZE then vs_fsize g else PAGE_SIZE) (vs_flags g AND 1) fread) (\<lambda>result.
     kbind (vsplx SPL_HIGH) (\<lambda>spl. kret (result, spl))))"

definition vm_fault_read ::
  "'z vsys_scheme vop_io \<Rightarrow> callenv \<Rightarrow> vmseg \<Rightarrow> nat \<Rightarrow> int \<Rightarrow> ('z vsys_scheme, errno + nat \<times> int \<times> int) kern" where
  "vm_fault_read vop_read env g fa spl =
     kbind (pg_get (vs_pg g)) (\<lambda>pg.
     if pg_valid pg = 0 then
       kbind (pg_mod (vs_pg g) (\<lambda>p. p\<lparr>pg_valid := 1, pg_vaddr := fa\<rparr>)) (\<lambda>_.
       kbind (on_core (getppages env 1)) (\<lambda>paddr.
       if paddr = 0 then kret (Inl ENOMEM)
       else
         kbindE
           (if vs_fsize g \<noteq> 0 then
              kbind (kmod (\<lambda>s. s\<lparr>code_write_nread := 1\<rparr>)) (\<lambda>_.
              kbind (pg_mod (vs_pg g) (\<lambda>p. p\<lparr>pg_paddr := paddr\<rparr>)) (\<lambda>_.
              kbindE
                (if vs_segment g \<noteq> 2 then
                   kbind (load_page vop_read g fa 0 spl) (\<lambda>(result, spl).
                   case result of
                     Inl e \<Rightarrow> kret (Inl e)
                   | Inr _ \<Rightarrow>
                       kbind (vmstats_inc_raw VMSTAT_PAGE_FAULT_DISK) (\<lambda>_.
                       kbind (vmstats_inc_raw VMSTAT_ELF_FILE_READ) (\<lambda>_. kret (Inr spl))))
                 else kbind (vmstats_inc_raw VMSTAT_PAGE_FAULT_ZERO) (\<lambda>_. kret (Inr spl))) (\<lambda>spl.
              kbind (note_code_read g) (\<lambda>_. kret (Inr spl)))))
            else
              kbind (note_code_read g) (\<lambda>_.
              kbind (vmstats_inc_raw VMSTAT_PAGE_FAULT_ZERO) (\<lambda>_. kret (Inr spl)))) (\<lambda>spl.
         kbind (pg_mod (vs_pg g) (\<lambda>p. p\<lparr>pg_paddr := paddr\<rparr>)) (\<lambda>_. kret (Inr (paddr, 0, spl))))))
     else
       kbind (note_code_read g) (\<lambda>_.
       kbind (vmstats_inc_raw VMSTAT_TLB_RELOAD) (\<lambda>_. kret (Inr (pg_paddr pg, 1, spl)))))"

definition vm_fault_write ::
  "'z vsys_scheme vop_io \<Rightarrow> callenv \<Rightarrow> vmseg \<Rightarrow> nat \<Rightarrow> int \<Rightarrow> ('z vsys_scheme, errno + nat \<times> int \<times> int) kern" where
  "vm_fault_write vop_read env g fa spl =
     kbind (pg_get (vs_pg g)) (\<lambda>pg.
     if pg_valid pg = 0 then
       kbind (pg_mod (vs_pg g) (\<lambda>p. p\<lparr>pg_valid := 1, pg_vaddr := fa\<rparr>)) (\<lambda>_.
       if vs_fsize g \<noteq> 0 then
         kbind (kget second_write) (\<lambda>sw.
         let first = (sw = 0 \<and> vs_segment g = 1) in
         kbind (kmod (\<lambda>s. s\<lparr>first_read := (if first then 0 else 1)\<rparr>)) (\<lambda>_.
         kbind (on_core (getppages env 1)) (\<lambda>paddr.
         kbind (kmod (\<lambda>s. if first then s\<lparr>second_write := 1\<rparr> else s)) (\<lambda>_.
         if paddr = 0 then kret (Inl ENOMEM)
         else
           kbind (pg_mod (vs_pg g) (\<lambda>p. p\<lparr>pg_paddr := paddr\<rparr>)) (\<lambda>_.
           kbindE
             (if vs_segment g \<noteq> 2 then
                kbind (kget first_read) (\<lambda>fread.
                kbind (load_page vop_read g fa fread spl) (\<lambda>(result, spl).
                case result of
                  Inl e \<Rightarrow>
                    kbind (kget us_cur) (\<lambda>cur.
                    kbind (on_tlb_lock (lock_release cur)) (\<lambda>_. kret (Inl e)))
                | Inr _ \<Rightarrow>
                    kbind (vmstats_inc_raw VMSTAT_PAGE_FAULT_DISK) (\<lambda>_.
                    kbind (vmstats_inc_raw VMSTAT_ELF_FILE_READ) (\<lambda>_. kret (Inr spl)))))
              else kbind (vmstats_inc_raw VMSTAT_PAGE_FAULT_ZERO) (\<lambda>_. kret (Inr spl))) (\<lambda>spl.
           kbind (pg_mod (vs_pg g) (\<lambda>p. p\<lparr>pg_paddr := paddr\<rparr>)) (\<lambda>_.
           kret (Inr (paddr, (if first then 0 else 1), spl)))))))))
       else
         kbind (on_core (getppages env 1)) (\<lambda>paddr.
         if paddr = 0 then kret (Inl ENOMEM)
         else
           kbind (vmstats_inc_raw VMSTAT_PAGE_FAULT_ZERO) (\<lambda>_.
           kbind (pg_mod (vs_pg g) (\<lambda>p. p\<lparr>pg_paddr := paddr\<rparr>)) (\<lambda>_. kret (Inr (paddr, 1, spl))))))
     else
       kbind (vmstats_inc_raw VMSTAT_TLB_RELOAD) (\<lambda>_. kret (Inr (pg_paddr pg, 1, spl))))"

text \<open>The loop that takes the write permission from the valid entries of the code segment.\<close>

fun tlb_clean_code :: "nat \<Rightarrow> nat \<Rightarrow> nat list \<Rightarrow> ('z vsys_scheme, unit) kern" where
  "tlb_clean_code vb vt [] = kret ()"
| "tlb_clean_code vb vt (i # is) =
     kbind (TLB_Read i) (\<lambda>(ehi, elo).
     if elo AND TLBLO_VALID = 0 then tlb_clean_code vb vt is
     else
       (let elo = (if unat ehi \<ge> vb \<and> unat ehi < vt then elo AND NOT TLBLO_DIRTY else elo) in
        kbind (TLB_Write ehi elo i) (\<lambda>_. tlb_clean_code vb vt is)))"

text \<open>The low word of the new entry: without write permission for most code pages.\<close>

definition vm_fault_elo :: "bool \<Rightarrow> nat \<Rightarrow> ('z vsys_scheme, 32 word) kern" where
  "vm_fault_elo code paddr =
     kbind (kget first_code_read) (\<lambda>fcr.
     kbind (kget code_write_nread) (\<lambda>cwn.
     if (fcr \<noteq> 0 \<and> code) \<or> (cwn = 0 \<and> code) then
       kbind (kmod (\<lambda>s. s\<lparr>first_code_read := 0, code_write_nread := 0\<rparr>)) (\<lambda>_.
       kret (word_of_nat paddr OR TLBLO_VALID))
     else kret ((word_of_nat paddr OR TLBLO_DIRTY) OR TLBLO_VALID)))"

text \<open>The search for a slot that is not valid: the slot used, if any.\<close>

fun tlb_fill :: "bool \<Rightarrow> nat \<Rightarrow> nat \<Rightarrow> nat list \<Rightarrow> ('z vsys_scheme, bool) kern" where
  "tlb_fill code fa paddr [] = kret False"
| "tlb_fill code fa paddr (i # is) =
     kbind (TLB_Read i) (\<lambda>(ehi, elo).
     if elo AND TLBLO_VALID \<noteq> 0 then tlb_fill code fa paddr is
     else
       kbind (vm_fault_elo code paddr) (\<lambda>elo.
       kbind (TLB_Write (word_of_nat fa) elo i) (\<lambda>_. kret True)))"

definition vm_fault_tlb :: "bool \<Rightarrow> nat \<Rightarrow> nat \<Rightarrow> nat \<Rightarrow> nat \<Rightarrow> ('z vsys_scheme, errno + unit) kern" where
  "vm_fault_tlb code vb vt fa paddr =
     kbind (kget us_cur) (\<lambda>cur.
     kbind (on_tlb_lock (lock_acquire cur)) (\<lambda>_.
     kbind (kget first_code_read) (\<lambda>fcr.
     kbind (if fcr \<noteq> 0 \<and> code then
              kbind (tlb_clean_code vb vt [0..<NUM_TLB]) (\<lambda>_. TLB_Probe (word_of_nat fa))
            else kret (-1)) (\<lambda>probe.
     if probe \<ge> 0 then
       kbind (kmod (\<lambda>s. s\<lparr>first_code_read := 0, code_write_nread := 0\<rparr>)) (\<lambda>_.
       kbind (on_tlb_lock (lock_release cur)) (\<lambda>_.
       kbind (vmstats_inc VMSTAT_TLB_FAULT_FREE) (\<lambda>_. kret (Inr ()))))
     else
       kbind (tlb_fill code fa paddr [0..<NUM_TLB]) (\<lambda>found.
       if found then
         kbind (on_tlb_lock (lock_release cur)) (\<lambda>_.
         kbind (vmstats_inc VMSTAT_TLB_FAULT_FREE) (\<lambda>_. kret (Inr ())))
       else
         kbind tlb_get_rr_victim (\<lambda>victim.
         if victim < 0 \<or> victim \<ge> int NUM_TLB then
           kbind (on_tlb_lock (lock_release cur)) (\<lambda>_. kret (Inl EFAULT))
         else
           kbind (vm_fault_elo code paddr) (\<lambda>elo.
           kbind (TLB_Write (word_of_nat fa) elo (nat victim)) (\<lambda>_.
           kbind (on_tlb_lock (lock_release cur)) (\<lambda>_.
           kbind (vmstats_inc VMSTAT_TLB_FAULT_REPLACE) (\<lambda>_. kret (Inr ())))))))))))"

text \<open>What follows the switch over the fault types.\<close>

definition vm_fault_finish :: "addrspace \<Rightarrow> vmseg \<Rightarrow> nat \<Rightarrow> nat \<times> int \<times> int \<Rightarrow> ('z vsys_scheme, vmres) kern" where
  "vm_fault_finish as g fa r =
     (case r of (paddr, wr_to, spl) \<Rightarrow>
        kbind (vsplx spl) (\<lambda>_.
        kbind (vmstats_inc_raw VMSTAT_TLB_FAULT) (\<lambda>_.
        kbind (kget first_code_read) (\<lambda>fcr.
        if wr_to = 1 \<or> vs_segment g = 2 \<or> fcr = 1 then
          kbind (vm_fault_tlb (in_code as fa) (as_vbase1 as) (vtop1 as) fa paddr) (\<lambda>r. kret (VRet r))
        else kbind (vmstats_inc VMSTAT_TLB_FAULT_REPLACE) (\<lambda>_. kret (VRet (Inr ())))))))"

definition vm_fault ::
  "'z vsys_scheme vop_io \<Rightarrow> callenv \<Rightarrow> int \<Rightarrow> nat \<Rightarrow> ('z vsys_scheme, vmres) kern" where
  "vm_fault vop_read env faulttype faultaddress =
     kbind (kget us_vmspace) (\<lambda>cur_as.
     kbind (kmod (\<lambda>s. if first_v s \<noteq> faultaddress then s\<lparr>first_v := faultaddress, first_read := 0\<rparr>
                     else s\<lparr>first_read := 1\<rparr>)) (\<lambda>_.
     kbind (vsplx SPL_HIGH) (\<lambda>spl.
     let fa = page_frame faultaddress in
     case cur_as of
       None \<Rightarrow> kret (VRet (Inl EFAULT))
     | Some a \<Rightarrow>
         kbind (as_get a) (\<lambda>as.
         kbind (vm_segment as fa) (\<lambda>seg.
         case seg of
           None \<Rightarrow> kret (VRet (Inl EFAULT))
         | Some g \<Rightarrow>
             if faulttype = VM_FAULT_READONLY then kret VExit
             else if faulttype \<noteq> VM_FAULT_READ \<and> faulttype \<noteq> VM_FAULT_WRITE then kret (VRet (Inl EINVAL))
             else
               kbind (if faulttype = VM_FAULT_READ then vm_fault_read vop_read env g fa spl
                      else vm_fault_write vop_read env g fa spl) (\<lambda>r.
               case r of
                 Inl e \<Rightarrow> kret (VRet (Inl e))
               | Inr x \<Rightarrow> vm_fault_finish as g fa x))))))"

section \<open>Lemmas\<close>

subsection \<open>Words of the TLB\<close>

lemma elo_bits:
  fixes w :: "32 word"
  assumes "w AND 0xfffff000 = w"
  shows "(w OR 0x200) AND 0x200 = 0x200" and "((w OR 0x400) OR 0x200) AND 0x200 = 0x200"
    and "(w OR 0x200) AND 0xfffff000 = w" and "((w OR 0x400) OR 0x200) AND 0xfffff000 = w"
proof -
  have "w AND 0x200 = (w AND 0xfffff000) AND 0x200" using assms by simp
  also have "\<dots> = 0" by (simp add: and.assoc)
  finally have z: "w AND 0x200 = 0" .
  show "(w OR 0x200) AND 0x200 = 0x200" "((w OR 0x400) OR 0x200) AND 0x200 = 0x200"
    using z by (simp_all add: bit.conj_disj_distrib2)
  show "(w OR 0x200) AND 0xfffff000 = w" "((w OR 0x400) OR 0x200) AND 0xfffff000 = w"
    using assms by (simp_all add: bit.conj_disj_distrib2)
qed

lemma page_frame_word:
  assumes "page_frame p = p" and "p < 4294967296"
  shows "(word_of_nat p :: 32 word) AND 0xfffff000 = word_of_nat p"
proof -
  obtain k where k: "p = 4096 * k" using assms(1) by (metis Groups.add_ac(2) add_diff_inverse_nat diff_add_inverse2 div_mult_mod_eq linorder_not_less mod_less_eq_dividend mult.commute page_frame_def)
  have m: "(0xfffff000 :: 32 word) = NOT (mask 12)" by (simp add: mask_eq_exp_minus_1)
  have "(word_of_nat p :: 32 word) = push_bit 12 (word_of_nat k)" by (simp add: k push_bit_eq_mult mult.commute)
  then show ?thesis unfolding m by (auto simp: bit_eq_iff bit_simps)
qed

subsection \<open>The TLB as a table of pages\<close>

text \<open>
  Two entries for the same page with the same frame and the same validity; they may differ in the
  write permission.
\<close>

definition tlb_same :: "32 word \<times> 32 word \<Rightarrow> 32 word \<times> 32 word \<Rightarrow> bool" where
  "tlb_same e e' \<longleftrightarrow> fst e' = fst e \<and> snd e' AND TLBLO_VALID = snd e AND TLBLO_VALID \<and>
     snd e' AND TLBLO_PPAGE = snd e AND TLBLO_PPAGE"

definition tlb_ok :: "(32 word \<times> 32 word) list \<Rightarrow> bool" where
  "tlb_ok t \<longleftrightarrow> length t = NUM_TLB \<and> distinct (map (\<lambda>e. fst e AND TLBHI_VPAGE) t)"

text \<open>
  \<open>tlb_entered hi w t t'\<close>: one slot now maps the page of \<open>hi\<close> to the frame \<open>w\<close>, and every other
  slot maps what it mapped before.
\<close>

definition tlb_entered :: "32 word \<Rightarrow> 32 word \<Rightarrow> (32 word \<times> 32 word) list \<Rightarrow> (32 word \<times> 32 word) list \<Rightarrow> bool" where
  "tlb_entered hi w t t' \<longleftrightarrow> length t' = length t \<and>
     (\<exists>i<NUM_TLB. fst (t' ! i) = hi \<and> snd (t' ! i) AND TLBLO_VALID \<noteq> 0 \<and> snd (t' ! i) AND TLBLO_PPAGE = w \<and>
        (\<forall>j<NUM_TLB. j \<noteq> i \<longrightarrow> tlb_same (t ! j) (t' ! j)))"

lemma tlb_same_refl [simp]: "tlb_same e e"
  by (simp add: tlb_same_def)

lemma tlb_same_trans: "tlb_same e e' \<Longrightarrow> tlb_same e' e'' \<Longrightarrow> tlb_same e e''"
  by (simp add: tlb_same_def)

lemma tlb_same_list: "list_all2 tlb_same t t' \<Longrightarrow> map (\<lambda>e. fst e AND TLBHI_VPAGE) t' = map (\<lambda>e. fst e AND TLBHI_VPAGE) t"
  by (induction rule: list_all2_induct) (simp_all add: tlb_same_def)

lemma tlb_entered_update:
  assumes "list_all2 tlb_same t t'" and "length t = NUM_TLB" and "i < NUM_TLB" and "lo AND TLBLO_VALID \<noteq> 0" and "lo AND TLBLO_PPAGE = w"
  shows "tlb_entered hi w t (t'[i := (hi, lo)])"
proof -
  have len: "length t' = NUM_TLB" using assms(1,2) by (metis list_all2_lengthD)
  have "tlb_same (t ! j) (t'[i := (hi, lo)] ! j)" if "j < NUM_TLB" "j \<noteq> i" for j
    using list_all2_nthD [OF assms(1)] that assms(2) by simp
  then show ?thesis unfolding tlb_entered_def using assms len by (auto intro!: exI [of _ i])
qed

lemma tlb_entered_ok:
  assumes "tlb_ok t" and "tlb_entered hi w t t'" and "\<forall>e\<in>set t. \<not> tlb_match hi e"
  shows "tlb_ok t'"
proof -
  from assms(2) obtain i where i: "i < NUM_TLB" "fst (t' ! i) = hi" "\<And>j. j < NUM_TLB \<Longrightarrow> j \<noteq> i \<Longrightarrow> tlb_same (t ! j) (t' ! j)"
    and len': "length t' = length t" by (auto simp: tlb_entered_def)
  have len: "length t = NUM_TLB" using assms(1) by (simp add: tlb_ok_def)
  let ?f = "\<lambda>e. fst e AND TLBHI_VPAGE"
  have d: "?f (t ! j) \<noteq> ?f (t ! k)" if "j < NUM_TLB" "k < NUM_TLB" "j \<noteq> k" for j k
    using assms(1) that len by (auto simp: tlb_ok_def distinct_conv_nth)
  have h: "?f (t ! j) \<noteq> hi AND TLBHI_VPAGE" if "j < NUM_TLB" for j
    using assms(3) that len by (auto simp: tlb_match_def)
  have s: "?f (t' ! j) = (if j = i then hi AND TLBHI_VPAGE else ?f (t ! j))" if "j < NUM_TLB" for j
    using i that by (auto simp: tlb_same_def)
  have "?f (t' ! j) \<noteq> ?f (t' ! k)" if "j < NUM_TLB" "k < NUM_TLB" "j \<noteq> k" for j k
  proof (cases "j = i")
    case True
    then show ?thesis using s [OF that(1)] s [OF that(2)] h [OF that(2)] that(3) by simp
  next
    case False
    then show ?thesis using s [OF that(1)] s [OF that(2)] h [OF that(1)] d [OF that] by simp
  qed
  then show ?thesis using len len' by (simp add: tlb_ok_def distinct_conv_nth)
qed

lemma tlb_clean_code_same:
  assumes "list_all (\<lambda>i. i < NUM_TLB) is" and "length (v_tlb s) = NUM_TLB"
  shows "\<exists>t. tlb_clean_code vb vt is s = Inr ((), s\<lparr>v_tlb := t\<rparr>) \<and> list_all2 tlb_same (v_tlb s) t"
  using assms
proof (induction "is" arbitrary: s)
  case Nil
  show ?case by (intro exI [of _ "v_tlb s"]) (simp add: list_all2_refl)
next
  case (Cons i "is")
  obtain ehi elo where e: "v_tlb s ! i = (ehi, elo)" by fastforce
  have i: "i < NUM_TLB" "i mod NUM_TLB = i" using Cons.prems(1) by simp_all
  have rd: "TLB_Read i s = Inr ((ehi, elo), s)" using e i by (simp add: TLB_Read_def)
  show ?case
  proof (cases "elo AND TLBLO_VALID = 0")
    case True
    with Cons rd show ?thesis by (simp add: kbind_def)
  next
    case False
    define elo' where "elo' = (if unat ehi \<ge> vb \<and> unat ehi < vt then elo AND NOT TLBLO_DIRTY else elo)"
    have "elo' AND TLBLO_VALID = elo AND TLBLO_VALID" "elo' AND TLBLO_PPAGE = elo AND TLBLO_PPAGE"
      by (simp_all add: elo'_def and.assoc)
    then have same: "tlb_same (ehi, elo) (ehi, elo')" by (simp add: tlb_same_def)
    let ?t = "(v_tlb s)[i := (ehi, elo')]"
    have l: "list_all2 tlb_same (v_tlb s) ?t"
      using Cons.prems(2) i e same by (auto simp: list_all2_conv_all_nth nth_list_update)
    from Cons.IH [of "s\<lparr>v_tlb := ?t\<rparr>"] Cons.prems obtain t where
      t: "tlb_clean_code vb vt is (s\<lparr>v_tlb := ?t\<rparr>) = Inr ((), s\<lparr>v_tlb := t\<rparr>)" "list_all2 tlb_same ?t t" by auto
    have "list_all2 tlb_same (v_tlb s) t" using list_all2_trans [OF _ l t(2)] tlb_same_trans by blast
    moreover have "tlb_clean_code vb vt (i # is) s = Inr ((), s\<lparr>v_tlb := t\<rparr>)"
      using False rd t(1) i(2) by (simp add: kbind_def TLB_Write_def Let_def elo'_def [symmetric])
    ultimately show ?thesis by blast
  qed
qed

lemma vm_fault_elo_cases:
  obtains fcr cwn elo where "vm_fault_elo code p s = Inr (elo, s\<lparr>first_code_read := fcr, code_write_nread := cwn\<rparr>)"
    and "elo = word_of_nat p OR TLBLO_VALID \<or> elo = (word_of_nat p OR TLBLO_DIRTY) OR TLBLO_VALID"
proof (cases "(first_code_read s \<noteq> 0 \<and> code) \<or> (code_write_nread s = 0 \<and> code)")
  case True
  then have "vm_fault_elo code p s = Inr (word_of_nat p OR TLBLO_VALID, s\<lparr>first_code_read := 0, code_write_nread := 0\<rparr>)"
    by (simp add: vm_fault_elo_def)
  then show thesis by (rule that) simp
next
  case False
  have "s\<lparr>first_code_read := first_code_read s, code_write_nread := code_write_nread s\<rparr> = s" by simp
  with False have "vm_fault_elo code p s = Inr ((word_of_nat p OR TLBLO_DIRTY) OR TLBLO_VALID,
      s\<lparr>first_code_read := first_code_read s, code_write_nread := code_write_nread s\<rparr>)"
    by (auto simp: vm_fault_elo_def)
  then show thesis by (rule that) simp
qed

text \<open>What a fault leaves alone while it works on the TLB.\<close>

definition tlb_step :: "'z vsys_scheme \<Rightarrow> 'z vsys_scheme \<Rightarrow> bool" where
  "tlb_step s s' \<longleftrightarrow> pg_heap s' = pg_heap s \<and> as_heap s' = as_heap s \<and> v_core s' = v_core s \<and> v_spl s' = v_spl s \<and>
     stats_lock s' = stats_lock s \<and> us_cur s' = us_cur s \<and> us_vmspace s' = us_vmspace s \<and> us_bytes s' = us_bytes s \<and>
     d_media s' = d_media s \<and> sv_heap s' = sv_heap s"

lemma tlb_step_refl [simp]: "tlb_step s s"
  by (simp add: tlb_step_def)

lemma tlb_step_trans: "tlb_step s s' \<Longrightarrow> tlb_step s' s'' \<Longrightarrow> tlb_step s s''"
  by (simp add: tlb_step_def)

definition filled :: "nat \<Rightarrow> nat \<Rightarrow> 'z vsys_scheme \<Rightarrow> 'z vsys_scheme \<Rightarrow> bool" where
  "filled fa p s s' \<longleftrightarrow> (\<exists>i elo fcr cwn. i < NUM_TLB \<and>
     s' = s\<lparr>v_tlb := (v_tlb s)[i := (word_of_nat fa, elo)], first_code_read := fcr, code_write_nread := cwn\<rparr> \<and>
     (elo = word_of_nat p OR TLBLO_VALID \<or> elo = (word_of_nat p OR TLBLO_DIRTY) OR TLBLO_VALID))"

lemma filledI:
  assumes "vm_fault_elo code p s = Inr (elo, s1)" and "i < NUM_TLB"
  shows "filled fa p s (s1\<lparr>v_tlb := (v_tlb s)[i := (word_of_nat fa, elo)]\<rparr>)" and "v_tlb s1 = v_tlb s"
proof -
  obtain fcr cwn elo' where f: "vm_fault_elo code p s = Inr (elo', s\<lparr>first_code_read := fcr, code_write_nread := cwn\<rparr>)"
    "elo' = word_of_nat p OR TLBLO_VALID \<or> elo' = (word_of_nat p OR TLBLO_DIRTY) OR TLBLO_VALID" by (rule vm_fault_elo_cases)
  with assms(1) have e: "elo = elo'" "s1 = s\<lparr>first_code_read := fcr, code_write_nread := cwn\<rparr>" by simp_all
  then show "v_tlb s1 = v_tlb s" by simp
  show "filled fa p s (s1\<lparr>v_tlb := (v_tlb s)[i := (word_of_nat fa, elo)]\<rparr>)"
    unfolding filled_def by (intro exI [of _ i] exI [of _ elo] exI [of _ fcr] exI [of _ cwn] conjI) (use assms(2) f(2) e in simp_all)
qed

lemma tlb_fill_step:
  assumes "list_all (\<lambda>i. i < NUM_TLB) is"
  shows "kruns (tlb_fill code fa p is) s (\<lambda>found s'. if found then filled fa p s s' else s' = s)"
  using assms
proof (induction "is")
  case Nil
  then show ?case by (simp add: kruns_def)
next
  case (Cons i "is")
  obtain ehi lo where e: "v_tlb s ! i = (ehi, lo)" by fastforce
  have i: "i < NUM_TLB" "i mod NUM_TLB = i" using Cons.prems by simp_all
  have rd: "TLB_Read i s = Inr ((ehi, lo), s)" using e i by (simp add: TLB_Read_def)
  obtain elo s1 where f: "vm_fault_elo code p s = Inr (elo, s1)" by (rule vm_fault_elo_cases)
  have "kruns (TLB_Write (word_of_nat fa) elo i) s1 (\<lambda>_ s'. filled fa p s s')"
    using filledI [OF f i(1)] i(2) by (simp add: TLB_Write_def kruns_simps)
  with Cons rd f show ?case by (simp add: kruns_simps kruns_Inr)
qed

text \<open>The locks and counters the handler uses, between calls.\<close>

definition vm_quiet :: "'z vsys_scheme \<Rightarrow> bool" where
  "vm_quiet s \<longleftrightarrow> lk_owner (tlb_lock s) = None \<and> (\<exists>l. stats_lock s = Some l \<and> lk_owner l = None) \<and>
     0 \<le> tlb_next_victim s \<and> tlb_next_victim s < int NUM_TLB"

lemma klock_back [simp]: "lk_owner l = None \<Longrightarrow> l\<lparr>lk_owner := None\<rparr> = l"
  by (cases l) simp

lemma vmstats_inc_quiet:
  assumes "stats_lock s = Some l" and "lk_owner l = None" and "i < VMSTAT_COUNT"
  shows "vmstats_inc i s = Inr ((), s\<lparr>stats_counts := (stats_counts s)[i := (stats_counts s ! i + 1) mod 4294967296]\<rparr>)"
proof -
  have "s\<lparr>stats_counts := x, stats_lock := Some l\<rparr> = s\<lparr>stats_counts := x\<rparr>" for x using assms(1) by (cases s) simp
  with assms show ?thesis
    by (simp add: vmstats_inc_def vmstats_inc_raw_def on_stats_lock_def kbind_def)
qed

lemma tlb_lock_round:
  assumes "lk_owner (tlb_lock s) = None"
  shows "on_tlb_lock (lock_acquire c) s = Inr ((), s\<lparr>tlb_lock := (tlb_lock s)\<lparr>lk_owner := c\<rparr>\<rparr>)"
    and "tlb_lock s' = (tlb_lock s)\<lparr>lk_owner := c\<rparr> \<Longrightarrow> on_tlb_lock (lock_release c) s' = Inr ((), s'\<lparr>tlb_lock := tlb_lock s\<rparr>)"
  using assms by (simp_all add: on_tlb_lock_def kzoom_def)

lemma filled_enters:
  assumes "filled fa p s s'" and "list_all2 tlb_same t (v_tlb s)" and "length t = NUM_TLB"
    and "(word_of_nat p :: 32 word) AND 0xfffff000 = word_of_nat p"
  shows "tlb_entered (word_of_nat fa) (word_of_nat p) t (v_tlb s')" and "tlb_step s s'" and "tlb_lock s' = tlb_lock s"
    and "tlb_next_victim s' = tlb_next_victim s"
proof -
  from assms(1) obtain i elo fcr cwn where f: "i < NUM_TLB"
    "s' = s\<lparr>v_tlb := (v_tlb s)[i := (word_of_nat fa, elo)], first_code_read := fcr, code_write_nread := cwn\<rparr>"
    "elo = word_of_nat p OR TLBLO_VALID \<or> elo = (word_of_nat p OR TLBLO_DIRTY) OR TLBLO_VALID"
    unfolding filled_def by (elim exE conjE)
  have "elo AND TLBLO_VALID \<noteq> 0" "elo AND TLBLO_PPAGE = word_of_nat p" using f(3) elo_bits [OF assms(4)] by auto
  with tlb_entered_update [OF assms(2,3) f(1)] f(2)
  show "tlb_entered (word_of_nat fa) (word_of_nat p) t (v_tlb s')" by simp
  show "tlb_step s s'" "tlb_lock s' = tlb_lock s" "tlb_next_victim s' = tlb_next_victim s" by (simp_all add: f(2) tlb_step_def)
qed

definition mapped_in :: "nat \<Rightarrow> nat \<Rightarrow> (32 word \<times> 32 word) list \<Rightarrow> 'z vsys_scheme \<Rightarrow> errno + unit \<Rightarrow> 'z vsys_scheme \<Rightarrow> bool" where
  "mapped_in fa p t s r s' \<longleftrightarrow> r = Inr () \<and> tlb_entered (word_of_nat fa) (word_of_nat p) t (v_tlb s') \<and> tlb_step s s' \<and>
     vm_quiet s'"

text \<open>The end of the handler: the lock is given back and a counter goes up.\<close>

lemma vm_fault_tlb_done:
  assumes "vm_quiet s" and "tlb_lock s' = (tlb_lock s)\<lparr>lk_owner := c\<rparr>" and "tlb_step s s'" and "0 \<le> tlb_next_victim s'"
    and "tlb_next_victim s' < int NUM_TLB" and "tlb_entered (word_of_nat fa) (word_of_nat p) t (v_tlb s')" and "i < VMSTAT_COUNT"
  shows "kruns (kbind (on_tlb_lock (lock_release c)) (\<lambda>_. kbind (vmstats_inc i) (\<lambda>_. kret (Inr ())))) s' (mapped_in fa p t s)"
proof -
  obtain l where l: "stats_lock s = Some l" "lk_owner l = None" and o: "lk_owner (tlb_lock s) = None"
    using assms(1) by (auto simp: vm_quiet_def)
  let ?s = "s'\<lparr>tlb_lock := tlb_lock s\<rparr>"
  have "stats_lock ?s = Some l" using assms(3) l(1) by (simp add: tlb_step_def)
  from vmstats_inc_quiet [OF this l(2) assms(7)] tlb_lock_round(2) [OF o assms(2)]
  have "kruns (kbind (on_tlb_lock (lock_release c)) (\<lambda>_. kbind (vmstats_inc i) (\<lambda>_. kret (Inr ())))) s' (mapped_in fa p t s) =
      mapped_in fa p t s (Inr ()) (?s\<lparr>stats_counts := (stats_counts ?s)[i := (stats_counts ?s ! i + 1) mod 4294967296]\<rparr>)"
    by (simp add: kruns_simps kruns_Inr)
  moreover have "tlb_step s (?s\<lparr>stats_counts := x\<rparr>)" for x using assms(3) by (simp add: tlb_step_def)
  ultimately show ?thesis using assms l o by (simp add: mapped_in_def vm_quiet_def tlb_step_def)
qed

definition cleaned :: "'z vsys_scheme \<Rightarrow> 'z vsys_scheme \<Rightarrow> bool" where
  "cleaned s s' \<longleftrightarrow> (\<exists>t. s' = s\<lparr>v_tlb := t\<rparr> \<and> list_all2 tlb_same (v_tlb s) t)"

lemma cleaned_refl: "cleaned s s"
  unfolding cleaned_def by (intro exI [of _ "v_tlb s"]) (simp add: list_all2_refl)

lemma cleanedI: "list_all2 tlb_same (v_tlb s) t \<Longrightarrow> cleaned s (s\<lparr>v_tlb := t\<rparr>)"
  unfolding cleaned_def by (intro exI [of _ t]) simp

lemma vm_fault_tlb_enters:
  assumes "vm_quiet s" and "length (v_tlb s) = NUM_TLB" and "\<forall>e\<in>set (v_tlb s). \<not> tlb_match (word_of_nat fa) e"
    and "page_frame p = p" and "p < 4294967296"
  shows "kruns (vm_fault_tlb code vb vt fa p) s (mapped_in fa p (v_tlb s) s)"
proof -
  let ?c = "us_cur s" and ?t = "v_tlb s"
  have o: "lk_owner (tlb_lock s) = None" and nv: "0 \<le> tlb_next_victim s" "tlb_next_victim s < int NUM_TLB"
    using assms(1) by (auto simp: vm_quiet_def)
  let ?s0 = "s\<lparr>tlb_lock := (tlb_lock s)\<lparr>lk_owner := ?c\<rparr>\<rparr>"
  note w = page_frame_word [OF assms(4,5)]
  have pr: "kruns (if first_code_read ?s0 \<noteq> 0 \<and> code
       then kbind (tlb_clean_code vb vt [0..<NUM_TLB]) (\<lambda>_. TLB_Probe (word_of_nat fa)) else kret (-1)) ?s0
      (\<lambda>probe s1. probe = -1 \<and> cleaned ?s0 s1)"
  proof (cases "first_code_read ?s0 \<noteq> 0 \<and> code")
    case False
    then show ?thesis by (auto simp: kruns_simps cleaned_refl)
  next
    case True
    obtain t where t: "tlb_clean_code vb vt [0..<NUM_TLB] ?s0 = Inr ((), ?s0\<lparr>v_tlb := t\<rparr>)" "list_all2 tlb_same ?t t"
      using tlb_clean_code_same [of "[0..<NUM_TLB]" ?s0] assms(2) by (auto simp: list_all_iff)
    have "\<not> tlb_match (word_of_nat fa) (t ! i)" if "i < NUM_TLB" for i
      using assms(2,3) that list_all2_nthD [OF t(2), of i] by (auto simp: tlb_match_def tlb_same_def)
    then have "List.find (\<lambda>i. tlb_match (word_of_nat fa) (t ! i)) [0..<NUM_TLB] = None" by (auto simp: find_None_iff)
    with True t(1) cleanedI [of ?s0 t] t(2) show ?thesis by (simp add: kruns_simps kruns_Inr TLB_Probe_def)
  qed
  have acq: "kruns (on_tlb_lock (lock_acquire ?c)) s Q = Q () ?s0" for Q
    by (rule kruns_Inr) (rule tlb_lock_round(1) [OF o])
  show ?thesis
    unfolding vm_fault_tlb_def kruns_bind kruns_get acq
  proof (rule kruns_mono [OF pr [unfolded kruns_bind]], elim conjE)
    fix probe :: int and s1
    assume p1: "probe = -1" and c1: "cleaned ?s0 s1"
    then obtain t where s1: "s1 = ?s0\<lparr>v_tlb := t\<rparr>" and t: "list_all2 tlb_same ?t t" by (auto simp: cleaned_def)
    have st: "tlb_step s s1" by (simp add: s1 tlb_step_def)
    have t1: "list_all2 tlb_same ?t (v_tlb s1)" using t s1 by simp
    let ?rest = "\<lambda>found. if found then
         kbind (on_tlb_lock (lock_release ?c)) (\<lambda>_.
         kbind (vmstats_inc VMSTAT_TLB_FAULT_FREE) (\<lambda>_. kret (Inr ())))
       else
         kbind tlb_get_rr_victim (\<lambda>victim.
         if victim < 0 \<or> victim \<ge> int NUM_TLB then
           kbind (on_tlb_lock (lock_release ?c)) (\<lambda>_. kret (Inl EFAULT))
         else
           kbind (vm_fault_elo code p) (\<lambda>elo.
           kbind (TLB_Write (word_of_nat fa) elo (nat victim)) (\<lambda>_.
           kbind (on_tlb_lock (lock_release ?c)) (\<lambda>_.
           kbind (vmstats_inc VMSTAT_TLB_FAULT_REPLACE) (\<lambda>_. kret (Inr ()))))))"
    have "kruns (kbind (tlb_fill code fa p [0..<NUM_TLB]) ?rest) s1 (mapped_in fa p ?t s)"
      unfolding kruns_bind
    proof (rule kruns_mono [OF tlb_fill_step])
      fix found s2
      assume f: "if found then filled fa p s1 s2 else s2 = s1"
      show "kruns (?rest found) s2 (mapped_in fa p ?t s)"
      proof (cases found)
        case True
        with f have "filled fa p s1 s2" by simp
        note e = filled_enters [OF this t1 assms(2) w]
        have "kruns (kbind (on_tlb_lock (lock_release ?c)) (\<lambda>_.
            kbind (vmstats_inc VMSTAT_TLB_FAULT_FREE) (\<lambda>_. kret (Inr ())))) s2 (mapped_in fa p ?t s)"
          by (rule vm_fault_tlb_done [OF assms(1)])
            (use e nv s1 tlb_step_trans [OF st e(2)] in simp_all)
        with True show ?thesis by simp
      next
        case False
        let ?n = "tlb_next_victim s"
        have n: "nat ?n < NUM_TLB" "nat ?n mod NUM_TLB = nat ?n" using nv by simp_all
        let ?s3 = "s1\<lparr>tlb_next_victim := c_rem (?n + 1) (int NUM_TLB)\<rparr>"
        have v: "tlb_get_rr_victim s2 = Inr (?n, ?s3)" using False f s1 by (simp add: tlb_get_rr_victim_def)
        obtain elo s4 where el: "vm_fault_elo code p ?s3 = Inr (elo, s4)" by (rule vm_fault_elo_cases)
        note fi = filledI(1) [OF el n(1), where fa = fa] filledI(2) [OF el n(1)]
        have t3: "list_all2 tlb_same ?t (v_tlb ?s3)" using t1 by simp
        note e = filled_enters [OF fi(1) t3 assms(2) w]
        let ?s5 = "s4\<lparr>v_tlb := (v_tlb ?s3)[nat ?n := (word_of_nat fa, elo)]\<rparr>"
        have wr: "TLB_Write (word_of_nat fa) elo (nat ?n) s4 = Inr ((), ?s5)" using fi(2) n(2) by (simp add: TLB_Write_def)
        have "tlb_step s1 ?s3" by (simp add: tlb_step_def)
        then have st5: "tlb_step s ?s5" using tlb_step_trans st e(2) by blast
        have "kruns (kbind (on_tlb_lock (lock_release ?c)) (\<lambda>_.
            kbind (vmstats_inc VMSTAT_TLB_FAULT_REPLACE) (\<lambda>_. kret (Inr ())))) ?s5 (mapped_in fa p ?t s)"
        proof (rule vm_fault_tlb_done [OF assms(1)])
          show "tlb_lock ?s5 = (tlb_lock s)\<lparr>lk_owner := ?c\<rparr>" using e(3) s1 by simp
          have "tlb_next_victim ?s5 = (?n + 1) mod int NUM_TLB" using e(4) nv by (simp add: c_rem_nonneg)
          then show "0 \<le> tlb_next_victim ?s5" "tlb_next_victim ?s5 < int NUM_TLB" by simp_all
        qed (use st5 e(1) in simp_all)
        with False v el wr nv show ?thesis by (simp add: kruns_simps kruns_Inr)
      qed
    qed (simp add: list_all_iff)
    with p1 show "kruns (if probe \<ge> 0 then
       kbind (kmod (\<lambda>s. s\<lparr>first_code_read := 0, code_write_nread := 0\<rparr>)) (\<lambda>_.
       kbind (on_tlb_lock (lock_release ?c)) (\<lambda>_.
       kbind (vmstats_inc VMSTAT_TLB_FAULT_FREE) (\<lambda>_. kret (Inr ()))))
     else kbind (tlb_fill code fa p [0..<NUM_TLB]) ?rest) s1 (mapped_in fa p ?t s)" by simp
  qed
qed

subsection \<open>Pages of an address space\<close>

text \<open>
  An address space whose page lists cover its segments, with page records that exist.
\<close>

definition seg_ok :: "'z vsys_scheme \<Rightarrow> nat array option \<Rightarrow> nat \<Rightarrow> bool" where
  "seg_ok s arr n \<longleftrightarrow> (\<exists>a. arr = Some a \<and> array_inv a \<and> n \<le> length (array_list a) \<and>
     (\<forall>p\<in>set (array_list a). pg_heap s p \<noteq> None))"

definition as_ok :: "'z vsys_scheme \<Rightarrow> addrspace \<Rightarrow> bool" where
  "as_ok s as \<longleftrightarrow> seg_ok s (useg1 as) (as_npages1 as) \<and> seg_ok s (useg2 as) (as_npages2 as) \<and>
     seg_ok s (usegs as) DUMBVM_STACKPAGES"

definition seg_nth :: "nat array option \<Rightarrow> nat \<Rightarrow> nat" where
  "seg_nth arr i = array_list (the arr) ! i"

text \<open>The page record that belongs to the page at \<open>fa\<close>, and whether the executable backs it.\<close>

definition vm_page :: "addrspace \<Rightarrow> nat \<Rightarrow> nat option" where
  "vm_page as fa =
     (if in_code as fa then Some (seg_nth (useg1 as) ((fa - as_vbase1 as) div PAGE_SIZE))
      else if in_data as fa then Some (seg_nth (useg2 as) ((fa - as_vbase2 as) div PAGE_SIZE))
      else if in_stack fa then Some (seg_nth (usegs as) ((fa - (USERSTACK - DUMBVM_STACKPAGES * PAGE_SIZE)) div PAGE_SIZE))
      else None)"

lemma seg_page_ok:
  assumes "seg_ok s arr n" and "i < n"
  shows "seg_page arr i s = Inr (seg_nth arr i, s)" and "pg_heap s (seg_nth arr i) \<noteq> None"
proof -
  from assms(1) obtain a where a: "arr = Some a" "array_inv a" "n \<le> length (array_list a)"
    "\<forall>p\<in>set (array_list a). pg_heap s p \<noteq> None" by (auto simp: seg_ok_def)
  have i: "i < length (array_list a)" using a(3) assms(2) by simp
  have "array_getguy a (int i) = Inr (Some (array_list a ! i))" using array_getguy_list [OF a(2), of "int i"] i array_list_length [of a] a(2)
    by (simp add: array_inv_def)
  with a(1) show "seg_page arr i s = Inr (seg_nth arr i, s)" by (simp add: seg_page_def seg_nth_def)
  show "pg_heap s (seg_nth arr i) \<noteq> None" using a(1,4) i by (simp add: seg_nth_def)
qed

lemma page_index:
  assumes "b \<le> fa" and "fa < (b + n * PAGE_SIZE) mod 4294967296"
  shows "(fa - b) div PAGE_SIZE < n"
proof -
  have "fa < b + n * PAGE_SIZE" using assms(2) by (meson less_le_trans mod_less_eq_dividend)
  then have "fa - b < n * PAGE_SIZE" using assms(1) by simp
  then show ?thesis by (simp add: less_mult_imp_div_less)
qed

definition vm_seg :: "addrspace \<Rightarrow> nat \<Rightarrow> nat \<Rightarrow> vmseg" where
  "vm_seg as fa p =
     (if in_code as fa then
        \<lparr>vs_pg = p, vs_segment = 0, vs_fsize = as_filesz1 as, vs_offset = as_off1 as,
         vs_flags = as_flag1 as, vs_pi = (fa - as_vbase1 as) div PAGE_SIZE, vs_v = as_v as\<rparr>
      else if in_data as fa then
        \<lparr>vs_pg = p, vs_segment = 1, vs_fsize = as_filesz2 as, vs_offset = as_off2 as,
         vs_flags = as_flag2 as, vs_pi = (fa - as_vbase2 as) div PAGE_SIZE, vs_v = as_v as\<rparr>
      else
        \<lparr>vs_pg = p, vs_segment = 2, vs_fsize = 0, vs_offset = 0, vs_flags = 7,
         vs_pi = ((fa + 4294967296 - as_vbase2 as) mod 4294967296) div PAGE_SIZE, vs_v = as_v as\<rparr>)"

lemma vm_seg_pg [simp]: "vs_pg (vm_seg as fa p) = p"
  by (simp add: vm_seg_def)

lemma vm_segment_ok:
  assumes "as_ok s as" and "vm_page as fa = Some p"
  shows "vm_segment as fa s = Inr (Some (vm_seg as fa p), s)" and "pg_heap s p \<noteq> None"
proof -
  consider (code) "in_code as fa" | (data) "\<not> in_code as fa" "in_data as fa"
    | (stack) "\<not> in_code as fa" "\<not> in_data as fa" "in_stack fa"
    using assms(2) by (auto simp: vm_page_def split: if_splits)
  then have "vm_segment as fa s = Inr (Some (vm_seg as fa p), s) \<and> pg_heap s p \<noteq> None"
  proof cases
    case code
    then have i: "(fa - as_vbase1 as) div PAGE_SIZE < as_npages1 as" by (simp add: in_code_def vtop1_def page_index)
    have "seg_ok s (useg1 as) (as_npages1 as)" using assms(1) by (simp add: as_ok_def)
    from seg_page_ok [OF this i] assms(2) code show ?thesis
      by (auto simp: vm_segment_def vm_seg_def vm_page_def)
  next
    case data
    then have i: "(fa - as_vbase2 as) div PAGE_SIZE < as_npages2 as" by (simp add: in_data_def vtop2_def page_index)
    have "seg_ok s (useg2 as) (as_npages2 as)" using assms(1) by (simp add: as_ok_def)
    from seg_page_ok [OF this i] assms(2) data show ?thesis
      by (auto simp: vm_segment_def vm_seg_def vm_page_def)
  next
    case stack
    then have i: "(fa - (USERSTACK - DUMBVM_STACKPAGES * PAGE_SIZE)) div PAGE_SIZE < DUMBVM_STACKPAGES"
      by (auto simp: in_stack_def less_mult_imp_div_less)
    have "seg_ok s (usegs as) DUMBVM_STACKPAGES" using assms(1) by (simp add: as_ok_def)
    from seg_page_ok [OF this i] assms(2) stack show ?thesis
      by (auto simp: vm_segment_def vm_seg_def vm_page_def)
  qed
  then show "vm_segment as fa s = Inr (Some (vm_seg as fa p), s)" "pg_heap s p \<noteq> None" by simp_all
qed

lemma vm_segment_none:
  "vm_page as fa = None \<Longrightarrow> vm_segment as fa s = Inr (None, s)"
  by (simp add: vm_segment_def vm_page_def split: if_splits)

subsection \<open>The handler\<close>

definition fault_entry :: "nat \<Rightarrow> 'z vsys_scheme \<Rightarrow> 'z vsys_scheme" where
  "fault_entry addr s =
     (if first_v s \<noteq> addr then s\<lparr>first_v := addr, first_read := 0\<rparr> else s\<lparr>first_read := 1\<rparr>)\<lparr>v_spl := SPL_HIGH\<rparr>"

lemma fault_entry_simps [simp]:
  "us_vmspace (fault_entry addr s) = us_vmspace s" "us_cur (fault_entry addr s) = us_cur s" "us_bytes (fault_entry addr s) = us_bytes s"
  "as_heap (fault_entry addr s) = as_heap s" "pg_heap (fault_entry addr s) = pg_heap s" "v_core (fault_entry addr s) = v_core s"
  "v_tlb (fault_entry addr s) = v_tlb s" "tlb_next_victim (fault_entry addr s) = tlb_next_victim s"
  "tlb_lock (fault_entry addr s) = tlb_lock s" "stats_lock (fault_entry addr s) = stats_lock s" "v_spl (fault_entry addr s) = SPL_HIGH"
  "d_media (fault_entry addr s) = d_media s" "sv_heap (fault_entry addr s) = sv_heap s" "second_write (fault_entry addr s) = second_write s"
  by (simp_all add: fault_entry_def)

lemma as_ok_cong: "pg_heap s' = pg_heap s \<Longrightarrow> as_ok s' as = as_ok s as"
  by (simp add: as_ok_def seg_ok_def)

lemma kbind_get: "kbind (kget f) k s = k (f s) s"
  by (simp add: kbind_def)

lemma kbind_mod: "kbind (kmod f) k s = k () (f s)"
  by (simp add: kbind_def)

lemma kbind_splx: "kbind (vsplx x) k s = k (v_spl s) (s\<lparr>v_spl := x\<rparr>)"
  by (simp add: kbind_def vsplx_def)

lemma vm_fault_entry:
  "vm_fault vr env ft addr s =
     (case us_vmspace s of
        None \<Rightarrow> Inr (VRet (Inl EFAULT), fault_entry addr s)
      | Some a \<Rightarrow>
         kbind (as_get a) (\<lambda>as.
         kbind (vm_segment as (page_frame addr)) (\<lambda>seg.
         case seg of
           None \<Rightarrow> kret (VRet (Inl EFAULT))
         | Some g \<Rightarrow>
             if ft = VM_FAULT_READONLY then kret VExit
             else if ft \<noteq> VM_FAULT_READ \<and> ft \<noteq> VM_FAULT_WRITE then kret (VRet (Inl EINVAL))
             else
               kbind (if ft = VM_FAULT_READ then vm_fault_read vr env g (page_frame addr) (v_spl s)
                      else vm_fault_write vr env g (page_frame addr) (v_spl s)) (\<lambda>r.
               case r of Inl e \<Rightarrow> kret (VRet (Inl e)) | Inr x \<Rightarrow> vm_fault_finish as g (page_frame addr) x))) (fault_entry addr s))"
proof -
  have e: "v_spl (if first_v s \<noteq> addr then s\<lparr>first_v := addr, first_read := 0\<rparr> else s\<lparr>first_read := 1\<rparr>) = v_spl s"
    by simp
  show ?thesis
    unfolding vm_fault_def kbind_get kbind_mod kbind_splx Let_def e fault_entry_def [symmetric]
    by (cases "us_vmspace s") simp_all
qed

lemma vm_fault_run:
  assumes "us_vmspace s = Some a" and "as_heap s a = Some as" and "as_ok s as" and "vm_page as (page_frame addr) = Some p"
    and "ft = VM_FAULT_READ \<or> ft = VM_FAULT_WRITE"
  shows "kruns (vm_fault vr env ft addr) s Q =
     kruns (if ft = VM_FAULT_READ then vm_fault_read vr env (vm_seg as (page_frame addr) p) (page_frame addr) (v_spl s)
            else vm_fault_write vr env (vm_seg as (page_frame addr) p) (page_frame addr) (v_spl s)) (fault_entry addr s)
       (\<lambda>r s'. kruns (case r of Inl e \<Rightarrow> kret (VRet (Inl e))
                       | Inr x \<Rightarrow> vm_fault_finish as (vm_seg as (page_frame addr) p) (page_frame addr) x) s' Q)"
proof -
  have g: "as_get a (fault_entry addr s) = Inr (as, fault_entry addr s)" using assms(2) by (simp add: as_get_def)
  have "as_ok (fault_entry addr s) as" using assms(3) as_ok_cong by (metis fault_entry_simps(5))
  note sg = vm_segment_ok(1) [OF this assms(4)]
  let ?fa = "page_frame addr"
  have "vm_fault vr env ft addr s =
      kbind (if ft = VM_FAULT_READ then vm_fault_read vr env (vm_seg as ?fa p) ?fa (v_spl s)
             else vm_fault_write vr env (vm_seg as ?fa p) ?fa (v_spl s)) (\<lambda>r.
      case r of Inl e \<Rightarrow> kret (VRet (Inl e)) | Inr x \<Rightarrow> vm_fault_finish as (vm_seg as ?fa p) ?fa x) (fault_entry addr s)"
    unfolding vm_fault_entry using assms(1,5) by (auto simp: g sg)
  then show ?thesis by (simp only: kruns_bind [symmetric]) (simp only: kruns_def)
qed

text \<open>The switch over the fault types, for a page that is in memory and for one that is not.\<close>

definition fault_step :: "'z vsys_scheme \<Rightarrow> 'z vsys_scheme \<Rightarrow> bool" where
  "fault_step s s' \<longleftrightarrow> as_heap s' = as_heap s \<and> v_tlb s' = v_tlb s \<and> tlb_lock s' = tlb_lock s \<and> stats_lock s' = stats_lock s \<and>
     tlb_next_victim s' = tlb_next_victim s \<and> us_cur s' = us_cur s \<and> us_vmspace s' = us_vmspace s \<and> us_bytes s' = us_bytes s \<and>
     d_media s' = d_media s \<and> sv_heap s' = sv_heap s"

lemma fault_resident:
  assumes "pg_heap s (vs_pg g) = Some pg" and "pg_valid pg \<noteq> 0"
  shows "kruns (if ft = VM_FAULT_READ then vm_fault_read vr env g fa spl else vm_fault_write vr env g fa spl) s
     (\<lambda>r s'. r = Inr (pg_paddr pg, 1, spl) \<and> fault_step s s' \<and> pg_heap s' = pg_heap s \<and> v_core s' = v_core s)"
proof -
  have pg: "kruns (pg_get (vs_pg g)) s Q = Q pg s" for Q
    by (rule kruns_Inr) (simp add: pg_get_def assms(1))
  have rw: "kruns (vm_fault_read vr env g fa spl) s Q =
      kruns (kbind (note_code_read g) (\<lambda>_. kbind (vmstats_inc_raw VMSTAT_TLB_RELOAD) (\<lambda>_. kret (Inr (pg_paddr pg, 1, spl))))) s Q"
    "kruns (vm_fault_write vr env g fa spl) s Q =
      kruns (kbind (vmstats_inc_raw VMSTAT_TLB_RELOAD) (\<lambda>_. kret (Inr (pg_paddr pg, 1, spl)))) s Q" for Q
    by (simp_all only: vm_fault_read_def vm_fault_write_def kruns_bind pg assms(2) if_False)
  show ?thesis
    by (cases "ft = VM_FAULT_READ")
      (simp_all add: rw kruns_simps note_code_read_def vmstats_inc_raw_def fault_step_def)
qed

lemma vm_quiet_cong:
  "tlb_lock s' = tlb_lock s \<Longrightarrow> stats_lock s' = stats_lock s \<Longrightarrow> tlb_next_victim s' = tlb_next_victim s \<Longrightarrow> vm_quiet s' = vm_quiet s"
  by (simp add: vm_quiet_def)

text \<open>The end of the handler when it enters the page into the TLB.\<close>

lemma vm_fault_finish_enters:
  assumes "vm_quiet s" and "length (v_tlb s) = NUM_TLB" and "\<forall>e\<in>set (v_tlb s). \<not> tlb_match (word_of_nat fa) e"
    and "page_frame p = p" and "p < 4294967296" and "wr_to = 1 \<or> vs_segment g = 2"
  shows "kruns (vm_fault_finish as g fa (p, wr_to, spl)) s
     (\<lambda>r s'. r = VRet (Inr ()) \<and> tlb_entered (word_of_nat fa) (word_of_nat p) (v_tlb s) (v_tlb s') \<and> vm_quiet s' \<and>
        v_spl s' = spl \<and> pg_heap s' = pg_heap s \<and> as_heap s' = as_heap s \<and> v_core s' = v_core s \<and> us_vmspace s' = us_vmspace s \<and>
        us_bytes s' = us_bytes s)"
proof -
  let ?s1 = "s\<lparr>v_spl := spl, stats_counts := (stats_counts s)[0 := (stats_counts s ! 0 + 1) mod 4294967296]\<rparr>"
  have q: "vm_quiet ?s1" using assms(1) by (simp add: vm_quiet_def)
  have "kruns (vm_fault_tlb (in_code as fa) (as_vbase1 as) (vtop1 as) fa p) ?s1 (mapped_in fa p (v_tlb ?s1) ?s1)"
    using assms(2-5) by (intro vm_fault_tlb_enters [OF q]) simp_all
  then have "kruns (vm_fault_tlb (in_code as fa) (as_vbase1 as) (vtop1 as) fa p) ?s1 (\<lambda>r s'. r = Inr () \<and>
        tlb_entered (word_of_nat fa) (word_of_nat p) (v_tlb s) (v_tlb s') \<and> vm_quiet s' \<and>
        v_spl s' = spl \<and> pg_heap s' = pg_heap s \<and> as_heap s' = as_heap s \<and> v_core s' = v_core s \<and> us_vmspace s' = us_vmspace s \<and>
        us_bytes s' = us_bytes s)"
    by (rule kruns_mono) (simp add: mapped_in_def tlb_step_def)
  with assms(6) show ?thesis
    by (auto simp: vm_fault_finish_def kruns_simps kruns_Inr vmstats_inc_raw_def vsplx_def)
qed

section \<open>Properties\<close>

text \<open>
  C17: A fault on a page that is in memory enters it into the TLB.  If no entry matched the page and
  no two entries matched a common page before, then afterwards exactly one slot maps the page, to
  its frame; the other slots keep their pages and frames, so at most one other page lost its
  entry; still no page has two entries.  The interrupt level is the caller's.
\<close>

theorem vm_fault_resident:
  assumes "us_vmspace s = Some a" and "as_heap s a = Some as" and "as_ok s as" and "vm_page as (page_frame addr) = Some p"
    and "pg_heap s p = Some pg" and "pg_valid pg \<noteq> 0" and "page_frame (pg_paddr pg) = pg_paddr pg" and "pg_paddr pg < 4294967296"
    and "ft = VM_FAULT_READ \<or> ft = VM_FAULT_WRITE" and "vm_quiet s" and "tlb_ok (v_tlb s)"
    and "\<forall>e\<in>set (v_tlb s). \<not> tlb_match (word_of_nat (page_frame addr)) e"
  shows "kruns (vm_fault vop_read env ft addr) s (\<lambda>r s'. r = VRet (Inr ()) \<and> tlb_ok (v_tlb s') \<and>
     tlb_entered (word_of_nat (page_frame addr)) (word_of_nat (pg_paddr pg)) (v_tlb s) (v_tlb s') \<and>
     pg_heap s' = pg_heap s \<and> v_core s' = v_core s \<and> v_spl s' = v_spl s)"
proof -
  let ?fa = "page_frame addr" and ?g = "vm_seg as (page_frame addr) p" and ?e = "fault_entry addr s"
  have len: "length (v_tlb s) = NUM_TLB" using assms(11) by (simp add: tlb_ok_def)
  have "kruns (if ft = VM_FAULT_READ then vm_fault_read vop_read env ?g ?fa (v_spl s)
      else vm_fault_write vop_read env ?g ?fa (v_spl s)) ?e
     (\<lambda>r s'. r = Inr (pg_paddr pg, 1, v_spl s) \<and> fault_step ?e s' \<and> pg_heap s' = pg_heap ?e \<and> v_core s' = v_core ?e)"
    using assms(5,6) by (intro fault_resident) simp_all
  then show ?thesis unfolding vm_fault_run [OF assms(1-4,9)]
  proof (rule kruns_mono, elim conjE)
    fix r :: "errno + nat \<times> int \<times> int" and s1
    assume r: "r = Inr (pg_paddr pg, 1, v_spl s)" and f: "fault_step ?e s1" "pg_heap s1 = pg_heap ?e" "v_core s1 = v_core ?e"
    have t: "v_tlb s1 = v_tlb s" using f(1) by (simp add: fault_step_def)
    have "vm_quiet s1" using assms(10) vm_quiet_cong [of s1 s] f(1) by (simp add: fault_step_def)
    from vm_fault_finish_enters [OF this, of ?fa "pg_paddr pg" 1 ?g as "v_spl s"] assms(7,8,12) t len
    have "kruns (vm_fault_finish as ?g ?fa (pg_paddr pg, 1, v_spl s)) s1
      (\<lambda>r s'. r = VRet (Inr ()) \<and> tlb_ok (v_tlb s') \<and> tlb_entered (word_of_nat ?fa) (word_of_nat (pg_paddr pg)) (v_tlb s) (v_tlb s') \<and>
         pg_heap s' = pg_heap s \<and> v_core s' = v_core s \<and> v_spl s' = v_spl s)"
      using f(2,3) tlb_entered_ok [OF assms(11) _ assms(12)] by (auto elim!: kruns_mono)
    then show "kruns (case r of Inl e \<Rightarrow> kret (VRet (Inl e)) | Inr x \<Rightarrow> vm_fault_finish as ?g ?fa x) s1
      (\<lambda>r s'. r = VRet (Inr ()) \<and> tlb_ok (v_tlb s') \<and> tlb_entered (word_of_nat ?fa) (word_of_nat (pg_paddr pg)) (v_tlb s) (v_tlb s') \<and>
         pg_heap s' = pg_heap s \<and> v_core s' = v_core s \<and> v_spl s' = v_spl s)" using r by simp
  qed
qed

text \<open>
  A small program: one code page, one data page, the stack; the code page is in memory at frame
  16384, the data page is not.  The TLB has been invalidated.
\<close>

definition vdemo :: vsys where
  "vdemo = fsys.extend fdemo (vsys.fields
     [7 \<mapsto> \<lparr>as_vbase1 = 4194304, as_npages1 = 1, as_filesz1 = 4096, as_off1 = 0, as_flag1 = 5,
        useg1 = Some \<lparr>arr_num = 1, arr_max = 1, arr_v = Some [Some 0]\<rparr>,
        as_vbase2 = 268435456, as_npages2 = 1, as_filesz2 = 100, as_off2 = 4096, as_flag2 = 6,
        useg2 = Some \<lparr>arr_num = 1, arr_max = 1, arr_v = Some [Some 1]\<rparr>,
        usegs = Some \<lparr>arr_num = 12, arr_max = 12, arr_v = Some (map Some [2..<14])\<rparr>, as_v = 0\<rparr>] 8
     (\<lambda>p. if p < 14 then Some \<lparr>pg_vaddr = 0, pg_paddr = 16384, pg_valid = (if p = 0 then 1 else 0), pg_permission = 7\<rparr> else None) 14
     \<lparr>firstpaddr = 0, lastpaddr = 0, pt_initialize = 1,
      coremap = [\<lparr>cm_vaddr = 0, cm_paddr = 16384, cm_used = 1, cm_flag = 0, cm_len = 1, cm_pid = 1, cm_secs = 0, cm_nano = 0\<rparr>,
                 \<lparr>cm_vaddr = 0, cm_paddr = 20480, cm_used = 0, cm_flag = 0, cm_len = -1, cm_pid = -1, cm_secs = 0, cm_nano = 0\<rparr>],
      core_lock = lock_new\<rparr>
     (map (\<lambda>i. (TLBHI_INVALID i, 0)) [0..<64]) 0 lock_new (replicate 10 0) (Some lock_new) 0 0 0 0 0 0)
     \<lparr>us_vmspace := Some 7\<rparr>"

lemma word_of_nat_inj32:
  "p < 4294967296 \<Longrightarrow> q < 4294967296 \<Longrightarrow> (word_of_nat p :: 32 word) = word_of_nat q \<longleftrightarrow> p = q"
  by (simp add: word_of_nat_eq_iff take_bit_nat_eq_self)

lemma TLBHI_INVALID_page:
  assumes "i < NUM_TLB"
  shows "TLBHI_INVALID i AND TLBHI_VPAGE = word_of_nat ((524288 + i) * 4096)"
proof -
  have "TLBHI_INVALID i = word_of_nat ((524288 + i) * 4096)" by (simp add: TLBHI_INVALID_def push_bit_eq_mult)
  moreover have "page_frame ((524288 + i) * 4096) = (524288 + i) * 4096" by (simp add: page_frame_def)
  ultimately show ?thesis using page_frame_word [of "(524288 + i) * 4096"] assms by simp
qed

text \<open>An invalidated TLB matches no user page.\<close>

lemma tlb_reset_ok:
  "tlb_ok (map (\<lambda>i. (TLBHI_INVALID i, 0)) [0..<NUM_TLB])"
  "fa < USERSTACK \<Longrightarrow> page_frame fa = fa \<Longrightarrow> \<forall>e\<in>set (map (\<lambda>i. (TLBHI_INVALID i, 0)) [0..<NUM_TLB]). \<not> tlb_match (word_of_nat fa) e"
proof -
  have "inj_on (\<lambda>i. TLBHI_INVALID i AND TLBHI_VPAGE) {0..<NUM_TLB}"
    by (rule inj_onI) (simp add: TLBHI_INVALID_page word_of_nat_inj32 del: of_nat_add of_nat_mult)
  then show "tlb_ok (map (\<lambda>i. (TLBHI_INVALID i, 0)) [0..<NUM_TLB])" by (simp add: tlb_ok_def distinct_map comp_def)
  assume fa: "fa < USERSTACK" "page_frame fa = fa"
  then have w: "(word_of_nat fa :: 32 word) AND TLBHI_VPAGE = word_of_nat fa" by (intro page_frame_word) simp_all
  have "\<not> tlb_match (word_of_nat fa) (TLBHI_INVALID i, 0)" if "i < NUM_TLB" for i
    using fa(1) that word_of_nat_inj32 [of "(524288 + i) * 4096" fa] by (simp add: tlb_match_def w TLBHI_INVALID_page del: of_nat_add of_nat_mult)
  then show "\<forall>e\<in>set (map (\<lambda>i. (TLBHI_INVALID i, 0)) [0..<NUM_TLB]). \<not> tlb_match (word_of_nat fa) e" by auto
qed

lemma vdemo_simps [simp]:
  "us_vmspace vdemo = Some 7" "v_tlb vdemo = map (\<lambda>i. (TLBHI_INVALID i, 0)) [0..<NUM_TLB]" "v_spl vdemo = 0" "second_write vdemo = 0"
  "pg_heap vdemo p = (if p < 14 then Some \<lparr>pg_vaddr = 0, pg_paddr = 16384, pg_valid = (if p = 0 then 1 else 0), pg_permission = 7\<rparr> else None)"
  "vm_quiet vdemo" "us_cur vdemo = Some 1"
  by (simp_all add: vdemo_def fdemo_def fsys.defs vsys.defs vm_quiet_def lock_new_def)

definition ademo :: addrspace where
  "ademo = the (as_heap vdemo 7)"

lemma ademo_simps [simp]:
  "as_heap vdemo 7 = Some ademo" "as_vbase1 ademo = 4194304" "as_npages1 ademo = 1" "as_filesz1 ademo = 4096"
  "as_vbase2 ademo = 268435456" "as_npages2 ademo = 1" "as_filesz2 ademo = 100" "as_v ademo = 0"
  "useg1 ademo = Some \<lparr>arr_num = 1, arr_max = 1, arr_v = Some [Some 0]\<rparr>"
  "useg2 ademo = Some \<lparr>arr_num = 1, arr_max = 1, arr_v = Some [Some 1]\<rparr>"
  "usegs ademo = Some \<lparr>arr_num = 12, arr_max = 12, arr_v = Some (map Some [2..<14])\<rparr>"
  by (simp_all add: ademo_def vdemo_def fsys.defs vsys.defs)

lemma ademo_ok: "as_ok vdemo ademo"
  by (simp add: as_ok_def seg_ok_def array_inv_def array_shape_def array_list_def array_cells_def)

lemma ademo_pages:
  "vm_page ademo 4194304 = Some 0" "vm_page ademo 268435456 = Some 1" "vm_page ademo 2147479552 = Some 13" "vm_page ademo 0 = None"
  by (simp_all add: vm_page_def in_code_def in_data_def in_stack_def vtop1_def vtop2_def seg_nth_def array_list_def array_cells_def)

definition edemo :: callenv where
  "edemo = \<lparr>e_cur = Some 1, e_pid = Some 1, e_secs = 0, e_nano = 0, e_count = 0\<rparr>"

theorem vm_fault_resident_witness:
  "\<exists>s'. vm_fault (\<lambda>v u s. Inl BadPtr) edemo VM_FAULT_READ 4194400 vdemo = Inr (VRet (Inr ()), s') \<and>
     tlb_ok (v_tlb s') \<and> tlb_entered 4194304 16384 (v_tlb vdemo) (v_tlb s')"
proof -
  have pf: "page_frame 4194400 = 4194304" by (simp add: page_frame_def)
  have "kruns (vm_fault (\<lambda>v u s. Inl BadPtr) edemo VM_FAULT_READ 4194400) vdemo (\<lambda>r s'. r = VRet (Inr ()) \<and> tlb_ok (v_tlb s') \<and>
     tlb_entered (word_of_nat (page_frame 4194400)) (word_of_nat (pg_paddr (the (pg_heap vdemo 0)))) (v_tlb vdemo) (v_tlb s') \<and>
     pg_heap s' = pg_heap vdemo \<and> v_core s' = v_core vdemo \<and> v_spl s' = v_spl vdemo)"
    by (rule vm_fault_resident [where a = 7 and as = ademo and p = 0])
      (use ademo_ok ademo_pages tlb_reset_ok(1) tlb_reset_ok(2) [of 4194304] in \<open>simp_all add: pf page_frame_def\<close>)
  then show ?thesis by (auto simp: kruns_iff pf)
qed

text \<open>
  C39: Once a first data page has been written (\<^verbatim>\<open>second_write\<close> is then set for good),
  no write fault on a page of an address space, resident or not, reads the executable: the
  resulting value and state do not depend on the read operation of its vnode at all.
\<close>

theorem vm_fault_write_skips_load:
  assumes "us_vmspace s = Some a" and "as_heap s a = Some as" and "as_ok s as" and "vm_page as (page_frame addr) = Some p"
    and "second_write s \<noteq> 0"
  shows "vm_fault vop_read env VM_FAULT_WRITE addr s = vm_fault vop_read' env VM_FAULT_WRITE addr s"
proof -
  let ?fa = "page_frame addr" and ?g = "vm_seg as (page_frame addr) p" and ?e = "fault_entry addr s"
  have "as_ok ?e as" using assms(3) as_ok_cong by (metis fault_entry_simps(5))
  note sg = vm_segment_ok [OF this assms(4)]
  have g: "as_get a ?e = Inr (as, ?e)" using assms(2) by (simp add: as_get_def)
  have lp: "load_page vop_read ?g ?fa 1 x = load_page vop_read' ?g ?fa 1 x" for x
    by (simp add: load_page_def load_each_segment_def)
  have "vm_fault_write vop_read env ?g ?fa (v_spl s) ?e = vm_fault_write vop_read' env ?g ?fa (v_spl s) ?e"
  proof -
    obtain pg where pg: "pg_heap ?e p = Some pg" using sg(2) by blast
    let ?e1 = "?e\<lparr>pg_heap := (pg_heap ?e)(p \<mapsto> pg\<lparr>pg_valid := 1, pg_vaddr := ?fa\<rparr>)\<rparr>"
    let ?e2 = "?e1\<lparr>first_read := 1\<rparr>"
    have r: "pg_get p ?e = Inr (pg, ?e)" "pg_mod p (\<lambda>p. p\<lparr>pg_valid := 1, pg_vaddr := ?fa\<rparr>) ?e = Inr ((), ?e1)"
      using pg by (simp_all add: pg_get_def pg_mod_def)
    show ?thesis
    proof (cases "getppages env 1 (v_core s)")
      case (Inl h)
      then have "on_core (getppages env 1) ?e2 = Inl h" "on_core (getppages env 1) ?e1 = Inl h"
        by (simp_all add: on_core_def kzoom_def)
      then show ?thesis using r assms(5)
        by (simp add: vm_fault_write_def kbind_get kbind_mod Let_def)
    next
      case (Inr x)
      obtain paddr c where c: "getppages env 1 (v_core s) = Inr (paddr, c)" using Inr by (cases x) simp
      let ?e3 = "?e2\<lparr>v_core := c\<rparr>"
      let ?e4 = "?e3\<lparr>pg_heap := (pg_heap ?e3)(p \<mapsto> (the (pg_heap ?e3 p))\<lparr>pg_paddr := paddr\<rparr>)\<rparr>"
      have o: "on_core (getppages env 1) ?e2 = Inr (paddr, ?e3)" using c by (simp add: on_core_def kzoom_def)
      have m: "pg_mod p (\<lambda>p. p\<lparr>pg_paddr := paddr\<rparr>) ?e3 = Inr ((), ?e4)" by (simp add: pg_mod_def)
      have kk: "kbind (kbind (kget f) k) K x = kbind (k (f x)) K x" for f k K and x :: "'a vsys_scheme"
        by (simp add: kbind_def)
      show ?thesis using r o m assms(5) lp
        by (simp add: vm_fault_write_def kbind_get kbind_mod kbindE_def Let_def kk)
    qed
  qed
  then show ?thesis unfolding vm_fault_entry using assms(1) by (simp add: g sg(1) kbind_def)
qed

theorem vm_fault_write_skips_load_witness:
  "vm_fault (\<lambda>v u s. Inl BadPtr) edemo VM_FAULT_WRITE 268435456 (vdemo\<lparr>second_write := 1\<rparr>) =
   vm_fault (\<lambda>v u s. Inr ((Inr (), u), s)) edemo VM_FAULT_WRITE 268435456 (vdemo\<lparr>second_write := 1\<rparr>) \<and>
   pg_valid (the (pg_heap (vdemo\<lparr>second_write := 1\<rparr>) 1)) = 0"
proof -
  have "as_ok (vdemo\<lparr>second_write := 1\<rparr>) ademo" using ademo_ok as_ok_cong [of "vdemo\<lparr>second_write := 1\<rparr>" vdemo] by simp
  then show ?thesis
    using vm_fault_write_skips_load [of "vdemo\<lparr>second_write := 1\<rparr>" 7 ademo 268435456 1] ademo_pages(2)
    by (simp add: page_frame_def)
qed

text \<open>
  A fault at an address outside the code, data and stack segments, or with no address space at
  all, returns \<^verbatim>\<open>EFAULT\<close>; it takes no frame, changes no page and enters nothing in the
  TLB.  The early return does not restore the interrupt level, so interrupts stay off whatever the
  level of the caller was.
\<close>

theorem vm_fault_outside:
  assumes "case us_vmspace s of None \<Rightarrow> True | Some a \<Rightarrow> (case as_heap s a of None \<Rightarrow> False | Some as \<Rightarrow> vm_page as (page_frame addr) = None)"
  shows "\<exists>s'. vm_fault vop_read env faulttype addr s = Inr (VRet (Inl EFAULT), s') \<and> v_core s' = v_core s \<and>
     pg_heap s' = pg_heap s \<and> as_heap s' = as_heap s \<and> v_tlb s' = v_tlb s \<and> v_spl s' = SPL_HIGH"
  using assms unfolding vm_fault_entry
  by (auto simp: kbind_def as_get_def vm_segment_none split: option.splits)

theorem vm_fault_outside_witness:
  "\<exists>s'. vm_fault (\<lambda>v u s. Inl BadPtr) edemo VM_FAULT_READ 0 vdemo = Inr (VRet (Inl EFAULT), s') \<and> v_spl vdemo = 0 \<and> v_spl s' = SPL_HIGH"
  using vm_fault_outside [where s = vdemo and addr = 0 and vop_read = "\<lambda>v u s. Inl BadPtr" and env = edemo and faulttype = VM_FAULT_READ]
    ademo_pages(4)
  by (auto simp: page_frame_def)

text \<open>
  Called with the address space of the current thread, as every caller does after it switched
  to that thread, \<^verbatim>\<open>as_activate\<close> changes nothing at all: no TLB entry is invalidated, so the new
  process runs with the translations of the one before.
\<close>

theorem as_activate_keeps_tlb: "as_activate (us_vmspace s) s = Inr ((), s)"
  by (simp add: as_activate_def kbind_def vsplx_def)

end
