(* ===== verification/Process.thy ===== *)
theory Process
  imports Vm_Fault
begin

text \<open>
  Processes and their open files: the process table of \<^verbatim>\<open>kern/syscalls/process.c\<close> and the
  file descriptor tables of \<^verbatim>\<open>kern/syscalls/fileDescriptor.c\<close>.

  The state extends that of the virtual memory system with the heaps of process, table and file
  structures, with the \<^verbatim>\<open>t_process\<close> of every thread and with the \<^verbatim>\<open>t_vmspace\<close> of the
  threads that do not run at present.  The condition variables of a process are
  reached through the process only, so each is a field that says whether it is NULL, live or
  destroyed; the same holds of its lock.  Opening and closing by name is an argument of the
  operations that do so.  \<^verbatim>\<open>kmalloc\<close> may fail; where the code does not check, the access through
  the NULL pointer halts.
\<close>

section \<open>Model\<close>

datatype cvst = CvNull | CvLive | CvFreed

record process =
  pr_PID :: nat
  pr_exit_code :: int
  pr_exit :: int
  pr_exit_cv :: cvst
  pr_exit_lock :: "klock option"
  pr_table :: "nat option"
  pr_proc_cv :: cvst
  pr_fd_lock :: "klock option"
  pr_parent :: "nat option"

record kfile =
  fl_permission :: int
  fl_offset :: int
  fl_ref_count :: int
  fl_flag :: int
  fl_vn :: nat

record psys = vsys +
  proctable :: "nat option list"
  proc_lock :: "klock option"
  pr_heap :: "nat \<Rightarrow> process option"
  pr_next :: nat
  ft_heap :: "nat \<Rightarrow> nat option list option"
  ft_next :: nat
  fl_heap :: "nat \<Rightarrow> kfile option"
  fl_next :: nat
  t_process :: "nat \<Rightarrow> nat option"
  t_vmspace :: "nat \<Rightarrow> nat option"

abbreviation MIN_PROCESS :: nat where "MIN_PROCESS \<equiv> 1"
abbreviation MAX_PROCESS :: nat where "MAX_PROCESS \<equiv> 100"
abbreviation MAX_FILE_OPEN :: nat where "MAX_FILE_OPEN \<equiv> 20"
abbreviation O_RDONLY :: int where "O_RDONLY \<equiv> 0"
abbreviation O_WRONLY :: int where "O_WRONLY \<equiv> 1"

definition pr_get :: "nat \<Rightarrow> ('z psys_scheme, process) kern" where
  "pr_get p s = (case pr_heap s p of None \<Rightarrow> Inl BadPtr | Some pr \<Rightarrow> Inr (pr, s))"

definition pr_mod :: "nat \<Rightarrow> (process \<Rightarrow> process) \<Rightarrow> ('z psys_scheme, unit) kern" where
  "pr_mod p f s =
     (case pr_heap s p of None \<Rightarrow> Inl BadPtr | Some pr \<Rightarrow> Inr ((), s\<lparr>pr_heap := (pr_heap s)(p \<mapsto> f pr)\<rparr>))"

definition fl_get :: "nat \<Rightarrow> ('z psys_scheme, kfile) kern" where
  "fl_get f s = (case fl_heap s f of None \<Rightarrow> Inl BadPtr | Some fl \<Rightarrow> Inr (fl, s))"

definition fl_mod :: "nat \<Rightarrow> (kfile \<Rightarrow> kfile) \<Rightarrow> ('z psys_scheme, unit) kern" where
  "fl_mod f g s =
     (case fl_heap s f of None \<Rightarrow> Inl BadPtr | Some fl \<Rightarrow> Inr ((), s\<lparr>fl_heap := (fl_heap s)(f \<mapsto> g fl)\<rparr>))"

text \<open>Reading and writing \<^verbatim>\<open>t->fds[fd]\<close> and \<^verbatim>\<open>proctable[i]\<close>; an index out of range is a stray access.\<close>

definition fds_get :: "nat option \<Rightarrow> nat \<Rightarrow> ('z psys_scheme, nat option) kern" where
  "fds_get t i s =
     (case t of
        None \<Rightarrow> Inl BadPtr
      | Some a \<Rightarrow>
          (case ft_heap s a of
             None \<Rightarrow> Inl BadPtr
           | Some fds \<Rightarrow> if i < length fds then Inr (fds ! i, s) else Inl BadPtr))"

definition fds_put :: "nat option \<Rightarrow> nat \<Rightarrow> nat option \<Rightarrow> ('z psys_scheme, unit) kern" where
  "fds_put t i x s =
     (case t of
        None \<Rightarrow> Inl BadPtr
      | Some a \<Rightarrow>
          (case ft_heap s a of
             None \<Rightarrow> Inl BadPtr
           | Some fds \<Rightarrow>
               if i < length fds then Inr ((), s\<lparr>ft_heap := (ft_heap s)(a \<mapsto> fds[i := x])\<rparr>) else Inl BadPtr))"

definition ptab_get :: "nat \<Rightarrow> ('z psys_scheme, nat option) kern" where
  "ptab_get i s = (if i < length (proctable s) then Inr (proctable s ! i, s) else Inl BadPtr)"

text \<open>\<^verbatim>\<open>curthread->t_process\<close>, which may be NULL, and the same where it is dereferenced.\<close>

definition cur_process :: "('z psys_scheme, nat option) kern" where
  "cur_process =
     kbind (kget us_cur) (\<lambda>cur.
     case cur of None \<Rightarrow> khalt BadPtr | Some t \<Rightarrow> kget (\<lambda>s. t_process s t))"

text \<open>What a switch to thread \<open>t\<close> changes here.\<close>

definition pswitch :: "nat \<Rightarrow> ('z psys_scheme, unit) kern" where
  "pswitch t =
     kmod (\<lambda>s. s\<lparr>t_vmspace := (case us_cur s of None \<Rightarrow> t_vmspace s | Some c \<Rightarrow> (t_vmspace s)(c := us_vmspace s)),
                us_cur := Some t, us_vmspace := t_vmspace s t\<rparr>)"

definition my_process :: "('z psys_scheme, nat) kern" where
  "my_process = kbind cur_process (\<lambda>p. case p of None \<Rightarrow> khalt BadPtr | Some p \<Rightarrow> kret p)"

subsection \<open>Locks and condition variables of a process\<close>

definition lock_create_p :: "('z psys_scheme, klock option) kern" where
  "lock_create_p =
     kbind kalloc (\<lambda>ok.
     if \<not> ok then kret None
     else kbind kalloc (\<lambda>ok. kret (if ok then Some lock_new else None)))"

definition lock_destroy_p :: "klock option \<Rightarrow> ('z psys_scheme, unit) kern" where
  "lock_destroy_p l =
     (case l of
        None \<Rightarrow> khalt AssertFail
      | Some l \<Rightarrow> kassert (lk_owner l = None))"

definition cv_create_p :: "('z psys_scheme, cvst) kern" where
  "cv_create_p =
     kbind kalloc (\<lambda>ok.
     if \<not> ok then kret CvNull
     else kbind kalloc (\<lambda>ok. kret (if ok then CvLive else CvNull)))"

definition cv_destroy_p :: "cvst \<Rightarrow> ('z psys_scheme, cvst) kern" where
  "cv_destroy_p c =
     (case c of CvNull \<Rightarrow> khalt AssertFail | CvFreed \<Rightarrow> khalt BadPtr | CvLive \<Rightarrow> kret CvFreed)"

definition on_proc_lock :: "(klock, unit) kern \<Rightarrow> ('z psys_scheme, unit) kern" where
  "on_proc_lock m s =
     (case proc_lock s of
        None \<Rightarrow> Inl AssertFail
      | Some l \<Rightarrow> (case m l of Inl h \<Rightarrow> Inl h | Inr (_, l') \<Rightarrow> Inr ((), s\<lparr>proc_lock := Some l'\<rparr>)))"

definition proc_lock_acquire :: "('z psys_scheme, unit) kern" where
  "proc_lock_acquire = kbind (kget us_cur) (\<lambda>cur. on_proc_lock (lock_acquire cur))"

definition proc_lock_release :: "('z psys_scheme, unit) kern" where
  "proc_lock_release = kbind (kget us_cur) (\<lambda>cur. on_proc_lock (lock_release cur))"

text \<open>
  The checks of \<^verbatim>\<open>cv_wait\<close> and \<^verbatim>\<open>cv_signal\<close>.  Both use the condition variable only as an
  address; sleeping and waking is up to the thread system.
\<close>

definition proc_lock_mine :: "('z psys_scheme, bool) kern" where
  "proc_lock_mine =
     kbind (kget us_cur) (\<lambda>cur.
     kbind (kget proc_lock) (\<lambda>l.
     case l of None \<Rightarrow> khalt AssertFail | Some l \<Rightarrow> kret (lock_do_i_hold cur l)))"

definition cv_check :: "cvst \<Rightarrow> ('z psys_scheme, unit) kern" where
  "cv_check c = kbind (kassert (c \<noteq> CvNull)) (\<lambda>_. kbind proc_lock_mine kassert)"

subsection \<open>The process table\<close>

text \<open>\<open>raw0\<close> is what the allocated memory holds in slot 0, which is never initialised.\<close>

definition proctable_init :: "nat option \<Rightarrow> ('z psys_scheme, unit) kern" where
  "proctable_init raw0 =
     kbind kalloc (\<lambda>ok.
     kbind lock_create_p (\<lambda>l.
     kbind (kmod (\<lambda>s. s\<lparr>proc_lock := l\<rparr>)) (\<lambda>_.
     if \<not> ok then khalt BadPtr
     else kmod (\<lambda>s. s\<lparr>proctable := raw0 # replicate (MAX_PROCESS - MIN_PROCESS) None\<rparr>))))"

definition remove_process :: "nat \<Rightarrow> ('z psys_scheme, unit) kern" where
  "remove_process pid =
     kbind (ptab_get pid) (\<lambda>kill.
     case kill of
       None \<Rightarrow> khalt BadPtr
     | Some p \<Rightarrow>
         kbind (pr_get p) (\<lambda>pr.
         kbind (lock_destroy_p (pr_fd_lock pr)) (\<lambda>_.
         kmod (\<lambda>s. s\<lparr>pr_heap := (pr_heap s)(p := None), proctable := (proctable s)[pid := None]\<rparr>))))"

text \<open>The condition under which a taken slot is cleared and used again.\<close>

definition reclaimable :: "process \<Rightarrow> ('z psys_scheme, bool) kern" where
  "reclaimable pr =
     (if pr_exit pr \<noteq> 1 then kret False
      else case pr_parent pr of
          None \<Rightarrow> kret True
        | Some q \<Rightarrow> kbind (pr_get q) (\<lambda>qr. kret (pr_exit qr = 1)))"

fun find_slot :: "nat list \<Rightarrow> ('z psys_scheme, nat) kern" where
  "find_slot [] = kret 0"
| "find_slot (i # is) =
     kbind (ptab_get i) (\<lambda>e.
     case e of
       None \<Rightarrow> kret i
     | Some p \<Rightarrow>
         kbind (pr_get p) (\<lambda>pr.
         kbind (reclaimable pr) (\<lambda>b.
         if b then kbind (remove_process (pr_PID pr)) (\<lambda>_. kret i)
         else find_slot is)))"

text \<open>The structure is allocated without a check; \<open>raw\<close> is what its memory held before.\<close>

definition put_process :: "nat \<Rightarrow> process \<Rightarrow> ('z psys_scheme, nat option) kern" where
  "put_process my_pid pr =
     kbind (kget pr_next) (\<lambda>p.
     kbind (kmod (\<lambda>s. s\<lparr>pr_heap := (pr_heap s)(p \<mapsto> pr), pr_next := Suc p,
                       proctable := (proctable s)[my_pid := Some p]\<rparr>)) (\<lambda>_.
     kret (Some p)))"

definition add_process_new :: "process \<Rightarrow> ('z psys_scheme, nat option) kern" where
  "add_process_new raw =
     kbind (find_slot [MIN_PROCESS..<MAX_PROCESS]) (\<lambda>my_pid.
     if my_pid = 0 then kret None
     else
       kbind kalloc (\<lambda>ok.
       if \<not> ok then khalt BadPtr
       else
         kbind lock_create_p (\<lambda>exit_lock.
         kbind cv_create_p (\<lambda>exit_cv.
         kbind cv_create_p (\<lambda>proc_cv.
         kbind lock_create_p (\<lambda>fd_lock.
         put_process my_pid
           (raw\<lparr>pr_PID := my_pid, pr_exit := 0, pr_exit_lock := exit_lock, pr_exit_cv := exit_cv,
                pr_table := None, pr_proc_cv := proc_cv, pr_fd_lock := fd_lock, pr_parent := None\<rparr>)))))))"

definition add_process_child :: "process \<Rightarrow> nat option \<Rightarrow> ('z psys_scheme, nat option) kern" where
  "add_process_child raw parent =
     kbind (find_slot [MIN_PROCESS..<MAX_PROCESS]) (\<lambda>my_pid.
     if my_pid = 0 then kret None
     else
       kbind kalloc (\<lambda>ok.
       if \<not> ok then khalt BadPtr
       else
         kbind cv_create_p (\<lambda>exit_cv.
         kbind cv_create_p (\<lambda>proc_cv.
         kbind lock_create_p (\<lambda>fd_lock.
         put_process my_pid
           (raw\<lparr>pr_PID := my_pid, pr_exit := 0, pr_exit_cv := exit_cv,
                pr_table := None, pr_proc_cv := proc_cv, pr_fd_lock := fd_lock, pr_parent := parent\<rparr>))))))"

text \<open>The children of the process with the number \<open>pid\<close> lose their parent.\<close>

fun orphan_children :: "nat \<Rightarrow> nat list \<Rightarrow> ('z psys_scheme, unit) kern" where
  "orphan_children pid [] = kret ()"
| "orphan_children pid (i # is) =
     kbind (ptab_get i) (\<lambda>e.
     kbind (case e of
              None \<Rightarrow> kret ()
            | Some p \<Rightarrow>
                kbind (pr_get p) (\<lambda>pr.
                case pr_parent pr of
                  None \<Rightarrow> kret ()
                | Some q \<Rightarrow>
                    if i = pid then kret ()
                    else
                      kbind (pr_get q) (\<lambda>qr.
                      if pr_PID qr = pid then pr_mod p (\<lambda>pr. pr\<lparr>pr_parent := None\<rparr>) else kret ()))) (\<lambda>_.
     orphan_children pid is))"

definition exit_process :: "nat \<Rightarrow> int \<Rightarrow> ('z psys_scheme, int) kern" where
  "exit_process pid exitcode =
     kbind (ptab_get pid) (\<lambda>e.
     case e of
       None \<Rightarrow> khalt BadPtr
     | Some p \<Rightarrow>
         kbind (pr_mod p (\<lambda>pr. pr\<lparr>pr_exit_code := exitcode, pr_exit := 1\<rparr>)) (\<lambda>_.
         kbind (pr_get p) (\<lambda>pr.
         kbind (if pr_parent pr \<noteq> None then orphan_children (pr_PID pr) [MIN_PROCESS..<MAX_PROCESS] else kret ()) (\<lambda>_.
         kret 0))))"

text \<open>The upper bound lets the number one past the table through.\<close>

definition process_get :: "int \<Rightarrow> ('z psys_scheme, nat option) kern" where
  "process_get pid =
     (if pid \<ge> int MIN_PROCESS \<and> pid \<le> int MAX_PROCESS then ptab_get (nat pid) else kret None)"

subsection \<open>File descriptor tables\<close>

text \<open>A path is a string in the kernel or the address of one.\<close>

datatype kpath = KStr "byte list" | KAddr nat

type_synonym 's vfs_open = "kpath \<Rightarrow> int \<Rightarrow> ('s, errno + nat) kern"
type_synonym 's vfs_close = "nat \<Rightarrow> ('s, unit) kern"

fun fd_free :: "nat option \<Rightarrow> nat list \<Rightarrow> ('z psys_scheme, nat) kern" where
  "fd_free t [] = kret MAX_FILE_OPEN"
| "fd_free t (fd # fds) =
     kbind (fds_get t fd) (\<lambda>f. if f = None then kret fd else fd_free t fds)"

definition my_table :: "('z psys_scheme, nat option) kern" where
  "my_table = kbind my_process (\<lambda>p. kbind (pr_get p) (\<lambda>pr. kret (pr_table pr)))"

definition fd_table_open ::
  "'z psys_scheme vfs_open \<Rightarrow> kfile \<Rightarrow> kpath \<Rightarrow> int \<Rightarrow> ('z psys_scheme, errno + nat) kern" where
  "fd_table_open vfs_open raw name flag =
     kbind my_table (\<lambda>t.
     kbind (fd_free t [0..<MAX_FILE_OPEN]) (\<lambda>fd.
     if fd \<ge> MAX_FILE_OPEN then kret (Inl EMFILE)
     else
       kbind kalloc (\<lambda>ok.
       if \<not> ok then kret (Inl ENOMEM)
       else
         kbind (kget fl_next) (\<lambda>f.
         kbind (kmod (\<lambda>s. s\<lparr>fl_heap := (fl_heap s)(f \<mapsto> raw\<lparr>fl_flag := flag, fl_offset := 0, fl_ref_count := 1\<rparr>),
                           fl_next := Suc f\<rparr>)) (\<lambda>_.
         kbind (vfs_open name flag) (\<lambda>r.
         case r of
           Inl e \<Rightarrow> kbind (kmod (\<lambda>s. s\<lparr>fl_heap := (fl_heap s)(f := None)\<rparr>)) (\<lambda>_. kret (Inl e))
         | Inr vn \<Rightarrow>
             kbind (fl_mod f (\<lambda>fl. fl\<lparr>fl_vn := vn\<rparr>)) (\<lambda>_.
             kbind my_table (\<lambda>t.
             kbind (fds_put t fd (Some f)) (\<lambda>_. kret (Inr fd))))))))))"

definition con_path :: "byte list" where
  "con_path = [99, 111, 110, 58, 0]"

definition fd_table_create ::
  "'z psys_scheme vfs_open \<Rightarrow> (nat \<Rightarrow> kfile) \<Rightarrow> ('z psys_scheme, errno + unit) kern" where
  "fd_table_create vfs_open raw =
     kbind kalloc (\<lambda>ok.
     if \<not> ok then kret (Inl ENOMEM)
     else
       kbind (kget ft_next) (\<lambda>t.
       kbind (kmod (\<lambda>s. s\<lparr>ft_heap := (ft_heap s)(t \<mapsto> replicate MAX_FILE_OPEN None), ft_next := Suc t\<rparr>)) (\<lambda>_.
       kbind my_process (\<lambda>p.
       kbind (pr_mod p (\<lambda>pr. pr\<lparr>pr_table := Some t\<rparr>)) (\<lambda>_.
       kbindE (fd_table_open vfs_open (raw 0) (KStr con_path) O_RDONLY) (\<lambda>_.
       kbindE (fd_table_open vfs_open (raw 1) (KStr con_path) O_WRONLY) (\<lambda>_.
       kbindE (fd_table_open vfs_open (raw 2) (KStr con_path) O_WRONLY) (\<lambda>_.
       kret (Inr ())))))))))"

definition fd_table_get :: "int \<Rightarrow> ('z psys_scheme, errno + nat) kern" where
  "fd_table_get fd =
     kbind my_table (\<lambda>t.
     if fd < 0 \<or> fd \<ge> int MAX_FILE_OPEN then kret (Inl EBADF)
     else
       kbind (fds_get t (nat fd)) (\<lambda>f.
       case f of None \<Rightarrow> kret (Inl EBADF) | Some f \<Rightarrow> kret (Inr f)))"

text \<open>The statement after the second check has no effect: NULL is handed out as a success.\<close>

definition fd_table_get_me :: "int \<Rightarrow> nat option \<Rightarrow> ('z psys_scheme, errno + nat option) kern" where
  "fd_table_get_me fd t =
     (if fd < 0 \<or> fd \<ge> int MAX_FILE_OPEN then kret (Inl EBADF)
      else kbind (fds_get t (nat fd)) (\<lambda>f. kret (Inr f)))"

definition fd_drop :: "'z psys_scheme vfs_close \<Rightarrow> nat option \<Rightarrow> nat \<Rightarrow> nat \<Rightarrow> ('z psys_scheme, unit) kern" where
  "fd_drop vfs_close t fd f =
     kbind (fl_mod f (\<lambda>fl. fl\<lparr>fl_ref_count := fl_ref_count fl - 1\<rparr>)) (\<lambda>_.
     kbind (fl_get f) (\<lambda>fl.
     if fl_ref_count fl = 0 then
       kbind (vfs_close (fl_vn fl)) (\<lambda>_.
       kbind (kmod (\<lambda>s. s\<lparr>fl_heap := (fl_heap s)(f := None)\<rparr>)) (\<lambda>_. fds_put t fd None))
     else kret ()))"

definition fd_table_close :: "'z psys_scheme vfs_close \<Rightarrow> int \<Rightarrow> ('z psys_scheme, errno + unit) kern" where
  "fd_table_close vfs_close fd =
     kbindE (fd_table_get fd) (\<lambda>f.
     kbind my_table (\<lambda>t.
     kbind (fd_drop vfs_close t (nat fd) f) (\<lambda>_. kret (Inr ()))))"

definition fd_table_close_me ::
  "'z psys_scheme vfs_close \<Rightarrow> int \<Rightarrow> nat option \<Rightarrow> ('z psys_scheme, errno + unit) kern" where
  "fd_table_close_me vfs_close fd t =
     kbindE (fd_table_get_me fd t) (\<lambda>f.
     case f of
       None \<Rightarrow> khalt BadPtr
     | Some f \<Rightarrow> kbind (fd_drop vfs_close t (nat fd) f) (\<lambda>_. kret (Inr ())))"

text \<open>The loop of the two destructors, over the close operation that each of them calls.\<close>

fun close_all :: "(int \<Rightarrow> ('z psys_scheme, errno + unit) kern) \<Rightarrow> nat option \<Rightarrow> nat list \<Rightarrow> ('z psys_scheme, unit) kern" where
  "close_all cl t [] = kret ()"
| "close_all cl t (i # is) =
     kbind (fds_get t i) (\<lambda>f.
     kbind (if f \<noteq> None then kbind (cl (int i)) (\<lambda>_. kret ()) else kret ()) (\<lambda>_. close_all cl t is))"

definition ft_free :: "nat \<Rightarrow> ('z psys_scheme, unit) kern" where
  "ft_free t s = (case ft_heap s t of None \<Rightarrow> Inl BadPtr | Some _ \<Rightarrow> Inr ((), s\<lparr>ft_heap := (ft_heap s)(t := None)\<rparr>))"

definition fd_table_destroy :: "'z psys_scheme vfs_close \<Rightarrow> ('z psys_scheme, unit) kern" where
  "fd_table_destroy vfs_close =
     kbind my_table (\<lambda>t.
     case t of
       None \<Rightarrow> kret ()
     | Some a \<Rightarrow> kbind (close_all (fd_table_close vfs_close) t [0..<MAX_FILE_OPEN]) (\<lambda>_. ft_free a))"

definition fd_table_destroy_me :: "'z psys_scheme vfs_close \<Rightarrow> nat option \<Rightarrow> ('z psys_scheme, unit) kern" where
  "fd_table_destroy_me vfs_close t =
     (case t of
        None \<Rightarrow> kret ()
      | Some a \<Rightarrow> kbind (close_all (\<lambda>i. fd_table_close_me vfs_close i t) t [0..<MAX_FILE_OPEN]) (\<lambda>_. ft_free a))"

end
