(* ===== verification/Syscalls.thy ===== *)
theory Syscalls
  imports Process
begin

text \<open>
  The system calls of user programs: \<^verbatim>\<open>kern/syscalls/file_syscall.c\<close> and
  \<^verbatim>\<open>kern/syscalls/process_syscall.c\<close>, the dispatcher \<^verbatim>\<open>mips_syscall\<close> of
  \<^verbatim>\<open>kern/arch/mips/mips/syscall.c\<close>, and \<^verbatim>\<open>runprogram\<close>, which starts the first program.

  Read and write of a vnode, opening and closing by name and forking a thread are arguments.
  Pointers of the user program that the code follows without \<^verbatim>\<open>copyin\<close> or \<^verbatim>\<open>copyout\<close> are
  followed here too: an address that is not accessible then halts the kernel.
\<close>

section \<open>Model\<close>

subsection \<open>Files\<close>

definition set_offset :: "nat \<Rightarrow> int \<Rightarrow> ('z psys_scheme, unit) kern" where
  "set_offset fd off =
     kbind my_table (\<lambda>t.
     kbind (fds_get t fd) (\<lambda>f.
     case f of None \<Rightarrow> khalt BadPtr | Some f \<Rightarrow> fl_mod f (\<lambda>fl. fl\<lparr>fl_offset := off\<rparr>)))"

definition sys_write ::
  "'z psys_scheme vop_io \<Rightarrow> int \<Rightarrow> nat \<Rightarrow> nat \<Rightarrow> ('z psys_scheme, errno + int) kern" where
  "sys_write vop_write fd buf nbytes =
     (if fd < 0 \<or> fd \<ge> int MAX_FILE_OPEN then kret (Inl EBADF)
      else
        kbind my_table (\<lambda>t.
        kbind (fds_get t (nat fd)) (\<lambda>f.
        case f of
          None \<Rightarrow> kret (Inl EBADF)
        | Some f \<Rightarrow>
            if buf = 0 \<or> buf = 1073741824 \<or> buf = 2147483648 then kret (Inl EFAULT)
            else
              kbind (fl_get f) (\<lambda>fl.
              if fl_flag fl = O_RDONLY then kret (Inl EBADF)
              else
                kbind (vop_write (fl_vn fl) (mk_kuio None buf nbytes (fl_offset fl) UIO_WRITE)) (\<lambda>(r, u).
                case r of
                  Inl e \<Rightarrow> kret (Inl e)
                | Inr _ \<Rightarrow>
                    kbind (set_offset (nat fd) (uio_offset u)) (\<lambda>_.
                    kret (Inr (to_off (int nbytes - int (uio_resid u))))))))))"

definition sys_read ::
  "'z psys_scheme vop_io \<Rightarrow> int \<Rightarrow> nat \<Rightarrow> nat \<Rightarrow> ('z psys_scheme, errno + int) kern" where
  "sys_read vop_read fd buf nbytes =
     (if fd < 0 \<or> fd \<ge> int MAX_FILE_OPEN then kret (Inl EBADF)
      else if buf = 0 then kret (Inl EFAULT)
      else
        kbind my_table (\<lambda>t.
        kbind (fds_get t (nat fd)) (\<lambda>f.
        case f of
          None \<Rightarrow> kret (Inl EBADF)
        | Some f \<Rightarrow>
            kbind (fl_get f) (\<lambda>fl.
            if fl_flag fl = O_WRONLY then kret (Inl EBADF)
            else
              kbind (vop_read (fl_vn fl) (mk_kuio None buf nbytes (fl_offset fl) UIO_READ)) (\<lambda>(r, u).
              case r of
                Inl e \<Rightarrow> kret (Inl e)
              | Inr _ \<Rightarrow>
                  kbind (set_offset (nat fd) (uio_offset u)) (\<lambda>_.
                  kret (Inr (to_off (int nbytes - int (uio_resid u))))))))))"

abbreviation PATH_MAX :: nat where "PATH_MAX \<equiv> 1024"

text \<open>The name is copied into the kernel, but the pointer of the caller is handed on.\<close>

definition sys_open ::
  "'z psys_scheme vfs_open \<Rightarrow> byte list \<Rightarrow> kfile \<Rightarrow> nat \<Rightarrow> int \<Rightarrow> int \<Rightarrow> ('z psys_scheme, errno + nat) kern" where
  "sys_open vfs_open raw rawf filename flags mode =
     kbind (copyinstr filename raw PATH_MAX) (\<lambda>(r, copy_filename).
     case r of
       Inl e \<Rightarrow> kret (Inl e)
     | Inr _ \<Rightarrow> fd_table_open vfs_open rawf (KAddr filename) flags)"

definition sys_close :: "'z psys_scheme vfs_close \<Rightarrow> int \<Rightarrow> ('z psys_scheme, int) kern" where
  "sys_close vfs_close fd =
     (if fd < 0 \<or> fd \<ge> int MAX_FILE_OPEN then kret (errno_code EBADF)
      else
        kbind my_table (\<lambda>t.
        kbind (fds_get t (nat fd)) (\<lambda>f.
        if f = None then kret (errno_code EBADF)
        else
          kbind (fd_table_close vfs_close fd) (\<lambda>r.
          case r of Inl _ \<Rightarrow> kret (-1) | Inr _ \<Rightarrow> kret 0))))"

subsection \<open>Ending and waiting for a process\<close>

text \<open>What the end of a thread does to the process level; the rest is in the thread system.\<close>

definition thread_ends :: "('z psys_scheme, unit) kern" where
  "thread_ends =
     kbind (kget us_vmspace) (\<lambda>as.
     kbind (case as of
              None \<Rightarrow> kret ()
            | Some a \<Rightarrow> kbind (kmod (\<lambda>s. s\<lparr>us_vmspace := None\<rparr>)) (\<lambda>_. as_destroy a)) (\<lambda>_.
     kmod (\<lambda>s. case us_cur s of None \<Rightarrow> s | Some t \<Rightarrow> s\<lparr>t_process := (t_process s)(t := None)\<rparr>)))"

definition close_executable :: "'z psys_scheme vfs_close \<Rightarrow> ('z psys_scheme, unit) kern" where
  "close_executable vfs_close =
     kbind (kget us_vmspace) (\<lambda>as.
     case as of None \<Rightarrow> khalt BadPtr | Some a \<Rightarrow> kbind (as_get a) (\<lambda>as. vfs_close (as_v as)))"

definition destroy_cvs :: "nat \<Rightarrow> ('z psys_scheme, unit) kern" where
  "destroy_cvs p =
     kbind (pr_get p) (\<lambda>pr.
     kbind (cv_destroy_p (pr_exit_cv pr)) (\<lambda>c.
     kbind (pr_mod p (\<lambda>pr. pr\<lparr>pr_exit_cv := c\<rparr>)) (\<lambda>_.
     kbind (pr_get p) (\<lambda>pr.
     kbind (cv_destroy_p (pr_proc_cv pr)) (\<lambda>c.
     pr_mod p (\<lambda>pr. pr\<lparr>pr_proc_cv := c\<rparr>))))))"

text \<open>The part under the lock: only a process that has a parent is marked as ended.\<close>

definition exit_mark :: "nat \<Rightarrow> int \<Rightarrow> ('z psys_scheme, int) kern" where
  "exit_mark p exitcode =
     kbind (pr_get p) (\<lambda>pr.
     if pr_parent pr = None then kret 0
     else
       kbind (exit_process (pr_PID pr) exitcode) (\<lambda>r.
       if r \<noteq> 0 then kret r
       else
         kbind (cv_check (pr_exit_cv pr)) (\<lambda>_.
         kbind (destroy_cvs p) (\<lambda>_. kret 0))))"

definition exit_register :: "int \<Rightarrow> ('z psys_scheme, unit) kern" where
  "exit_register exitcode =
     kbind proc_lock_acquire (\<lambda>_.
     kbind my_process (\<lambda>p.
     kbind (exit_mark p exitcode) (\<lambda>_. proc_lock_release)))"

definition sys__exit :: "'z psys_scheme vfs_close \<Rightarrow> int \<Rightarrow> ('z psys_scheme, unit) kern" where
  "sys__exit vfs_close exitcode =
     kbind (exit_register exitcode) (\<lambda>_.
     kbind (close_executable vfs_close) (\<lambda>_. thread_ends))"

definition getpid :: "('z psys_scheme, int) kern" where
  "getpid =
     kbind my_process (\<lambda>p.
     kbind (pr_get p) (\<lambda>pr.
     kbind (ptab_get (pr_PID pr)) (\<lambda>e. kret (if e \<noteq> None then int (pr_PID pr) else -1))))"

text \<open>
  A wait either returns, with a value, an error number (0 for none) and what is stored through
  \<^verbatim>\<open>status\<close> if anything is, or sleeps until the child signals its end.
\<close>

datatype wres = WRet int int "int option" | WSleep nat

definition wait_done :: "int \<Rightarrow> nat \<Rightarrow> ('z psys_scheme, wres) kern" where
  "wait_done pid kid =
     kbind (pr_get kid) (\<lambda>pr.
     kbind (remove_process (pr_PID pr)) (\<lambda>_.
     kbind proc_lock_release (\<lambda>_. kret (WRet pid 0 (Some (pr_exit_code pr))))))"

text \<open>The head of the loop: \<^verbatim>\<open>cv_wait\<close> gives the lock up and sleeps.\<close>

definition wait_loop :: "int \<Rightarrow> nat \<Rightarrow> ('z psys_scheme, wres) kern" where
  "wait_loop pid kid =
     kbind (pr_get kid) (\<lambda>pr.
     if pr_exit pr = 0 then
       kbind (cv_check (pr_exit_cv pr)) (\<lambda>_.
       kbind proc_lock_release (\<lambda>_. kret (WSleep kid)))
     else wait_done pid kid)"

definition wait_resume :: "int \<Rightarrow> nat \<Rightarrow> ('z psys_scheme, wres) kern" where
  "wait_resume pid kid = kbind proc_lock_acquire (\<lambda>_. wait_loop pid kid)"

definition waitpid :: "int \<Rightarrow> int \<Rightarrow> ('z psys_scheme, wres) kern" where
  "waitpid pid options =
     (if options \<noteq> 0 then kret (WRet (-1) (errno_code EINVAL) None)
      else
        kbind (process_get pid) (\<lambda>k.
        kbind proc_lock_acquire (\<lambda>_.
        case k of
          None \<Rightarrow> kbind proc_lock_release (\<lambda>_. kret (WRet (-1) (errno_code EAGAIN) (Some (-1))))
        | Some kid \<Rightarrow>
            kbind (pr_get kid) (\<lambda>pr.
            kbind cur_process (\<lambda>me.
            if pr_parent pr \<noteq> me then
              kbind proc_lock_release (\<lambda>_. kret (WRet (-1) (errno_code ENOMEM) None))
            else if pr_exit pr = 1 then wait_done pid kid
            else wait_loop pid kid)))))"

subsection \<open>Forking\<close>

record trapframe =
  tf_v0 :: "32 word"
  tf_a0 :: "32 word"
  tf_a1 :: "32 word"
  tf_a2 :: "32 word"
  tf_a3 :: "32 word"
  tf_epc :: "32 word"

text \<open>The loop that shares the files of the parent.\<close>

fun share_files :: "nat option \<Rightarrow> nat option \<Rightarrow> nat list \<Rightarrow> ('z psys_scheme, unit) kern" where
  "share_files ct pt [] = kret ()"
| "share_files ct pt (i # is) =
     kbind (fds_get pt i) (\<lambda>f.
     kbind (fds_put ct i f) (\<lambda>_.
     kbind (case f of
              None \<Rightarrow> kret ()
            | Some f \<Rightarrow> fl_mod f (\<lambda>fl. fl\<lparr>fl_ref_count := fl_ref_count fl + 1\<rparr>)) (\<lambda>_.
     share_files ct pt is)))"

definition fd_lock_of :: "nat \<Rightarrow> (nat option \<Rightarrow> (klock, unit) kern) \<Rightarrow> ('z psys_scheme, unit) kern" where
  "fd_lock_of p m =
     kbind (kget us_cur) (\<lambda>cur.
     kbind (pr_get p) (\<lambda>pr.
     case pr_fd_lock pr of
       None \<Rightarrow> khalt AssertFail
     | Some l \<Rightarrow>
         (case m cur l of
            Inl h \<Rightarrow> khalt h
          | Inr (_, l') \<Rightarrow> pr_mod p (\<lambda>pr. pr\<lparr>pr_fd_lock := Some l'\<rparr>))))"

text \<open>The entry of the child into the process table.\<close>

definition set_process :: "nat \<Rightarrow> ('z psys_scheme, unit) kern" where
  "set_process p =
     kbind (kget us_cur) (\<lambda>cur.
     case cur of
       None \<Rightarrow> khalt BadPtr
     | Some t \<Rightarrow> kmod (\<lambda>s. s\<lparr>t_process := (t_process s)(t \<mapsto> p)\<rparr>))"

definition fork_register :: "process \<Rightarrow> nat option \<Rightarrow> ('z psys_scheme, nat option) kern" where
  "fork_register raw pproc =
     kbind cur_process (\<lambda>me.
     kbind (add_process_child raw me) (\<lambda>c.
     case c of
       None \<Rightarrow> kret None
     | Some child \<Rightarrow>
         kbind (pr_mod child (\<lambda>pr. pr\<lparr>pr_parent := pproc\<rparr>)) (\<lambda>_.
         kbind (set_process child) (\<lambda>_. kret (Some child)))))"

text \<open>
  The child's side, run by the new thread.  \<open>pproc\<close> and \<open>pas\<close> are the process and the address
  space of the parent thread.  The result is the number that the parent finds in
  \<^verbatim>\<open>judge->child_pid\<close> and the trap frame with which the child enters user mode, if it does not
  end at once.
\<close>

record raws =
  raw_as :: addrspace
  raw_page :: "nat \<Rightarrow> page"
  raw_process :: process
  raw_file :: "nat \<Rightarrow> kfile"

definition md_forkentry ::
  "'z psys_scheme vfs_open \<Rightarrow> raws \<Rightarrow> nat option \<Rightarrow> nat option \<Rightarrow> trapframe \<Rightarrow>
     ('z psys_scheme, int \<times> trapframe option) kern" where
  "md_forkentry vfs_open raw pproc pas tf =
     kbind (case pas of None \<Rightarrow> khalt BadPtr | Some a \<Rightarrow> as_copy (raw_as raw) (raw_page raw) a) (\<lambda>r.
     case r of
       Inl _ \<Rightarrow> kbind thread_ends (\<lambda>_. kret (errno_code ENOMEM, None))
     | Inr new \<Rightarrow>
         kbind (kmod (\<lambda>s. s\<lparr>us_vmspace := Some new\<rparr>)) (\<lambda>_.
         kbind (as_activate (Some new)) (\<lambda>_.
         kbind (fork_register (raw_process raw) pproc) (\<lambda>c.
         case c of
           None \<Rightarrow> kbind thread_ends (\<lambda>_. kret (errno_code EAGAIN, None))
         | Some child \<Rightarrow>
             kbind (pr_get child) (\<lambda>cpr.
             kbind (fd_table_create vfs_open (raw_file raw)) (\<lambda>r.
             case r of
               Inl e \<Rightarrow>
                 kbind (remove_process (pr_PID cpr)) (\<lambda>_.
                 kbind thread_ends (\<lambda>_. kret (errno_code e, None)))
             | Inr _ \<Rightarrow>
                 (case pproc of
                    None \<Rightarrow> khalt BadPtr
                  | Some pp \<Rightarrow>
                      kbind (fd_lock_of pp lock_acquire) (\<lambda>_.
                      kbind (pr_get child) (\<lambda>cpr.
                      kbind (pr_get pp) (\<lambda>ppr.
                      kbind (share_files (pr_table cpr) (pr_table ppr) [0..<MAX_FILE_OPEN]) (\<lambda>_.
                      kbind (fd_lock_of pp lock_release) (\<lambda>_.
                      kret (int (pr_PID cpr),
                            Some (tf\<lparr>tf_v0 := 0, tf_a3 := 0, tf_epc := tf_epc tf + 4\<rparr>))))))))))))))"

text \<open>
  The parent's side.  \<open>thread_fork\<close> makes the child's thread \<open>t\<close>; when it succeeded, the wait on the
  semaphore lasts until \<open>child\<close>, the child's side, has set its number.
\<close>

definition sys_fork ::
  "('z psys_scheme, errno + nat) kern \<Rightarrow> (nat \<Rightarrow> ('z psys_scheme, int) kern) \<Rightarrow> ('z psys_scheme, int \<times> int) kern" where
  "sys_fork thread_fork child =
     kbind kalloc (\<lambda>ok1.
     kbind (if ok1 then kalloc else kret False) (\<lambda>ok2.
     if \<not> (ok1 \<and> ok2) then kret (errno_code ENOMEM, -1)
     else
       kbind thread_fork (\<lambda>r.
       case r of
         Inl _ \<Rightarrow> kret (errno_code ENOMEM, -1)
       | Inr t \<Rightarrow>
           kbind (child t) (\<lambda>child_pid.
           if child_pid \<le> 0 then kret (errno_code ENOMEM, -1) else kret (0, child_pid)))))"

text \<open>The child's side as the parent sees it: the child runs until it raises the semaphore.\<close>

definition fork_child ::
  "'z psys_scheme vfs_open \<Rightarrow> raws \<Rightarrow> nat \<Rightarrow> trapframe \<Rightarrow> ('z psys_scheme, int) kern" where
  "fork_child vfs_open raw t tf =
     kbind (kget us_cur) (\<lambda>cur.
     kbind cur_process (\<lambda>pproc.
     kbind (kget us_vmspace) (\<lambda>pas.
     kbind (pswitch t) (\<lambda>_.
     kbind (md_forkentry vfs_open raw pproc pas tf) (\<lambda>(pid, _).
     kbind (case cur of None \<Rightarrow> khalt BadPtr | Some c \<Rightarrow> pswitch c) (\<lambda>_. kret pid))))))"

subsection \<open>Starting a program\<close>

definition c_strlen :: "byte list \<Rightarrow> nat" where
  "c_strlen str = length (takeWhile (\<lambda>b. b \<noteq> 0) str)"

text \<open>A length that is a multiple of 4 already gets four bytes more.\<close>

definition calc_align_length :: "byte list \<Rightarrow> nat" where
  "calc_align_length argv =
     (let argvlen = (c_strlen argv + 1) mod 4294967296; paddinglen = 4 - argvlen mod 4 in
      (argvlen + paddinglen) mod 4294967296)"

text \<open>
  The two loops of the argument passing, both from the last argument to the first: the strings,
  then the pointers.  The result is the stack pointer; errors are only printed.
\<close>

fun copy_strings :: "byte list list \<Rightarrow> nat \<Rightarrow> nat list \<Rightarrow> ('z psys_scheme, nat \<times> nat list) kern" where
  "copy_strings [] sp ptrs = kret (sp, ptrs)"
| "copy_strings (a # as) sp ptrs =
     (let sp = (sp + 4294967296 - calc_align_length a) mod 4294967296 in
      kbind (copyoutstr a sp (c_strlen a + 1)) (\<lambda>_. copy_strings as sp (sp # ptrs)))"

fun copy_pointers :: "nat list \<Rightarrow> nat \<Rightarrow> ('z psys_scheme, nat) kern" where
  "copy_pointers [] sp = kret sp"
| "copy_pointers (p # ps) sp =
     (let sp = (sp + 4294967296 - 4) mod 4294967296 in
      kbind (copyout (enc32 p) 0 sp 4) (\<lambda>_. copy_pointers ps sp))"

definition copy_args :: "byte list list \<Rightarrow> nat \<Rightarrow> ('z psys_scheme, nat) kern" where
  "copy_args argv stackptr =
     kbind (copy_strings (rev argv) stackptr []) (\<lambda>(sp, ptrs). copy_pointers (rev (ptrs @ [0])) sp)"

text \<open>A program enters user mode with its number of arguments, stack pointer and entry point.\<close>

record umode =
  um_argc :: nat
  um_stack :: nat
  um_entry :: nat

text \<open>The entry of a new program into the process table; the lock stays with the caller.\<close>

definition run_register :: "process \<Rightarrow> ('z psys_scheme, nat option) kern" where
  "run_register raw =
     kbind proc_lock_acquire (\<lambda>_.
     kbind (add_process_new raw) (\<lambda>p.
     case p of
       None \<Rightarrow> kret None
     | Some p \<Rightarrow> kbind (set_process p) (\<lambda>_. kret (Some p))))"

definition runprogram ::
  "'z psys_scheme vfs_open \<Rightarrow> 'z psys_scheme vfs_close \<Rightarrow> 'z psys_scheme vop_io \<Rightarrow> raws \<Rightarrow>
     kpath \<Rightarrow> byte list list \<Rightarrow> ('z psys_scheme, errno + umode) kern" where
  "runprogram vfs_open vfs_close vop_read raw progname argv =
     kbindE (vfs_open progname O_RDONLY) (\<lambda>v.
     kbind (kget us_vmspace) (\<lambda>old.
     kbind (kassert (old = None)) (\<lambda>_.
     kbind (as_create (raw_as raw)) (\<lambda>as.
     kbind (kmod (\<lambda>s. s\<lparr>us_vmspace := as\<rparr>)) (\<lambda>_.
     case as of
       None \<Rightarrow> kbind (vfs_close v) (\<lambda>_. kret (Inl ENOMEM))
     | Some a \<Rightarrow>
         kbind (as_activate as) (\<lambda>_.
         kbind (load_elf vop_read (raw_page raw) v) (\<lambda>r.
         case r of
           Inl e \<Rightarrow> kbind (vfs_close v) (\<lambda>_. kret (Inl e))
         | Inr entrypoint \<Rightarrow>
             kbindE (as_define_stack (raw_page raw) a) (\<lambda>stackptr.
             kbind (run_register (raw_process raw)) (\<lambda>p.
             case p of
               None \<Rightarrow> kret (Inl EAGAIN)
             | Some p \<Rightarrow>
                 kbindE (fd_table_create vfs_open (raw_file raw)) (\<lambda>_.
                 kbind proc_lock_release (\<lambda>_.
                 kbind (copy_args argv stackptr) (\<lambda>sp.
                 kret (Inr \<lparr>um_argc = length argv, um_stack = sp, um_entry = entrypoint\<rparr>)))))))))))))"

text \<open>Memory that the kernel reads through a pointer of the program, without a check.\<close>

definition raw_word :: "nat \<Rightarrow> ('z psys_scheme, nat) kern" where
  "raw_word a s =
     (if reach (us_rd s) a 4 = 4 then Inr (dec_be (mem_load a 4 s), s) else Inl BadPtr)"

text \<open>Addresses have 32 bits, so both searches below end; one that leaves the address space faults.\<close>

function raw_string :: "nat \<Rightarrow> ('z psys_scheme, byte list) kern" where
  "raw_string a s =
     (if a \<ge> 4294967296 \<or> \<not> us_rd s a then Inl BadPtr
      else if us_bytes s a = 0 then Inr ([0], s)
      else (case raw_string (Suc a) s of Inl h \<Rightarrow> Inl h | Inr (bs, s) \<Rightarrow> Inr (us_bytes s a # bs, s)))"
  by pat_completeness auto
termination
  by (relation "measure (\<lambda>(a, s). 4294967296 - a)") auto

function raw_argv :: "nat \<Rightarrow> ('z psys_scheme, nat list) kern" where
  "raw_argv a s =
     (if a \<ge> 4294967296 then Inl BadPtr
      else case raw_word a s of
          Inl h \<Rightarrow> Inl h
        | Inr (p, _) \<Rightarrow>
            if p = 0 then Inr ([], s)
            else (case raw_argv (a + 4) s of Inl h \<Rightarrow> Inl h | Inr (ps, s) \<Rightarrow> Inr (p # ps, s)))"
  by pat_completeness auto
termination
  by (relation "measure (\<lambda>(a, s). 4294967296 - a)") auto

fun copy_argv :: "nat list \<Rightarrow> ('z psys_scheme, byte list list) kern" where
  "copy_argv [] = kret []"
| "copy_argv (p # ps) =
     kbind (raw_string p) (\<lambda>str.
     kbind kalloc (\<lambda>ok.
     if \<not> ok then khalt BadPtr else kbind (copy_argv ps) (\<lambda>rest. kret (str # rest))))"

definition execv ::
  "'z psys_scheme vfs_open \<Rightarrow> 'z psys_scheme vfs_close \<Rightarrow> 'z psys_scheme vop_io \<Rightarrow> raws \<Rightarrow>
     nat \<Rightarrow> nat \<Rightarrow> ('z psys_scheme, errno + umode) kern" where
  "execv vfs_open vfs_close vop_read raw progname argv_o =
     (if progname = 0 \<or> progname \<ge> 1073741824 then kret (Inl EFAULT)
      else
        kbind (raw_string progname) (\<lambda>name.
        if c_strlen name = 0 then kret (Inl EINVAL)
        else if argv_o = 0 \<or> argv_o \<ge> 1073741824 then kret (Inl EFAULT)
        else
          kbind (raw_argv argv_o) (\<lambda>ps.
          kbind kalloc (\<lambda>ok.
          if \<not> ok then khalt BadPtr
          else
            kbind (copy_argv ps) (\<lambda>argv.
            kbindE (vfs_open (KAddr progname) O_RDONLY) (\<lambda>v.
            kbind (kget us_vmspace) (\<lambda>old.
            kbind (case old of None \<Rightarrow> khalt BadPtr | Some a \<Rightarrow> as_destroy a) (\<lambda>_.
            kbind (as_create (raw_as raw)) (\<lambda>as.
            kbind (kmod (\<lambda>s. s\<lparr>us_vmspace := as\<rparr>)) (\<lambda>_.
            case as of
              None \<Rightarrow> kbind (vfs_close v) (\<lambda>_. kret (Inl ENOMEM))
            | Some a \<Rightarrow>
                kbind (as_activate as) (\<lambda>_.
                kbind (load_elf vop_read (raw_page raw) v) (\<lambda>r.
                kbind (vfs_close v) (\<lambda>_.
                case r of
                  Inl e \<Rightarrow> kret (Inl e)
                | Inr entrypoint \<Rightarrow>
                    kbindE (as_define_stack (raw_page raw) a) (\<lambda>stackptr.
                    kbind cur_process (\<lambda>me.
                    if me = None then
                      kbind proc_lock_acquire (\<lambda>_.
                      kbind (add_process_new (raw_process raw)) (\<lambda>p.
                      if p = None then kret (Inl EAGAIN) else khalt BadPtr))
                    else
                      kbind (copy_args argv stackptr) (\<lambda>sp.
                      kret (Inr \<lparr>um_argc = length argv, um_stack = sp, um_entry = entrypoint\<rparr>)))))))))))))))))"

subsection \<open>The dispatcher\<close>

text \<open>
  What the caller of a system call sees: a return with a new trap frame, an end of the process, a
  sleep in \<^verbatim>\<open>waitpid\<close>, or a new program.
\<close>

datatype sysres = SReturn trapframe | SExit | SSleep int nat nat | SExec umode

text \<open>The operations a system call reaches through the other parts of the kernel.\<close>

record 's kops =
  k_vfs_open :: "'s vfs_open"
  k_vfs_close :: "'s vfs_close"
  k_vop_read :: "'s vop_io"
  k_vop_write :: "'s vop_io"
  k_thread_fork :: "('s, errno + nat) kern"
  k_reboot :: "int \<Rightarrow> ('s, int) kern"
  k_path :: "byte list"
  k_raw :: raws

definition sys_return :: "trapframe \<Rightarrow> int \<Rightarrow> int \<Rightarrow> sysres" where
  "sys_return tf err retval =
     SReturn (if err \<noteq> 0 then tf\<lparr>tf_v0 := word_of_int err, tf_a3 := 1, tf_epc := tf_epc tf + 4\<rparr>
              else tf\<lparr>tf_v0 := word_of_int retval, tf_a3 := 0, tf_epc := tf_epc tf + 4\<rparr>)"

definition sys_done :: "trapframe \<Rightarrow> int \<Rightarrow> int \<Rightarrow> ('z psys_scheme, sysres) kern" where
  "sys_done tf err retval =
     kbind (kget v_spl) (\<lambda>spl. kbind (kassert (spl = 0)) (\<lambda>_. kret (sys_return tf err retval)))"

definition sys_res :: "trapframe \<Rightarrow> errno + int \<Rightarrow> ('z psys_scheme, sysres) kern" where
  "sys_res tf r = (case r of Inl e \<Rightarrow> sys_done tf (errno_code e) 0 | Inr x \<Rightarrow> sys_done tf 0 x)"

text \<open>The store through \<^verbatim>\<open>status\<close>, a pointer of the program that is followed as it is.\<close>

definition store_status :: "nat \<Rightarrow> int option \<Rightarrow> ('z psys_scheme, unit) kern" where
  "store_status a v s =
     (case v of
        None \<Rightarrow> Inr ((), s)
      | Some x \<Rightarrow>
          if reach (us_wr s) a 4 < 4 then Inl BadPtr
          else Inr ((), mem_store a (enc32 (to_u32 x)) s))"

definition sys_wait :: "trapframe \<Rightarrow> nat \<Rightarrow> int \<Rightarrow> wres \<Rightarrow> ('z psys_scheme, sysres) kern" where
  "sys_wait tf status pid r =
     (case r of
        WSleep kid \<Rightarrow> kret (SSleep pid kid status)
      | WRet v err st \<Rightarrow> kbind (store_status status st) (\<lambda>_. sys_done tf err v))"

definition mips_syscall :: "'z psys_scheme kops \<Rightarrow> trapframe \<Rightarrow> ('z psys_scheme, sysres) kern" where
  "mips_syscall ops tf =
     kbind (kget v_spl) (\<lambda>spl.
     kbind (kassert (spl = 0)) (\<lambda>_.
     let callno = sint (tf_v0 tf); a0 = sint (tf_a0 tf); u0 = unat (tf_a0 tf); u1 = unat (tf_a1 tf);
         u2 = unat (tf_a2 tf); a1 = sint (tf_a1 tf); a2 = sint (tf_a2 tf)
     in
     if callno = 8 then kbind (k_reboot ops a0) (\<lambda>err. sys_done tf err 0)
     else if callno = 6 then kbind (sys_write (k_vop_write ops) a0 u1 u2) (sys_res tf)
     else if callno = 5 then kbind (sys_read (k_vop_read ops) a0 u1 u2) (sys_res tf)
     else if callno = 0 then kbind (sys__exit (k_vfs_close ops) a0) (\<lambda>_. kret SExit)
     else if callno = 4 then
       kbind (sys_open (k_vfs_open ops) (k_path ops) (raw_file (k_raw ops) 0) u0 a1 a2) (\<lambda>r.
       sys_res tf (map_sum id int r))
     else if callno = 7 then kbind (sys_close (k_vfs_close ops) a0) (\<lambda>err. sys_done tf err 0)
     else if callno = 3 then kbind (waitpid a0 a2) (sys_wait tf u1 a0)
     else if callno = 11 then kbind getpid (sys_done tf 0)
     else if callno = 2 then
       kbind (sys_fork (k_thread_fork ops) (\<lambda>t. fork_child (k_vfs_open ops) (k_raw ops) t tf)) (\<lambda>(err, retval).
       sys_done tf err retval)
     else if callno = 1 then
       kbind (execv (k_vfs_open ops) (k_vfs_close ops) (k_vop_read ops) (k_raw ops) u0 u1) (\<lambda>r.
       case r of Inl e \<Rightarrow> sys_done tf (errno_code e) 0 | Inr um \<Rightarrow> kret (SExec um))
     else sys_done tf (errno_code ENOSYS) 0))"

subsection \<open>Traps\<close>

abbreviation EX_IRQ :: nat where "EX_IRQ \<equiv> 0"
abbreviation EX_MOD :: nat where "EX_MOD \<equiv> 1"
abbreviation EX_TLBL :: nat where "EX_TLBL \<equiv> 2"
abbreviation EX_TLBS :: nat where "EX_TLBS \<equiv> 3"
abbreviation EX_IBE :: nat where "EX_IBE \<equiv> 6"
abbreviation EX_DBE :: nat where "EX_DBE \<equiv> 7"
abbreviation EX_SYS :: nat where "EX_SYS \<equiv> 8"
abbreviation NTRAPCODES :: nat where "NTRAPCODES \<equiv> 13"

definition kill_curthread :: "'z psys_scheme vfs_close \<Rightarrow> nat \<Rightarrow> ('z psys_scheme, unit) kern" where
  "kill_curthread vfs_close code =
     kbind (kassert (code < NTRAPCODES)) (\<lambda>_. sys__exit vfs_close (int code))"

definition set_spl :: "int \<Rightarrow> ('z psys_scheme, unit) kern" where
  "set_spl spl = kmod (\<lambda>s. s\<lparr>v_spl := spl\<rparr>)"

text \<open>
  A fault that nobody handles: a user program ends, a copy routine of the kernel resumes at its
  recovery address, anything else is a panic.
\<close>

definition trap_fatal ::
  "'z psys_scheme vfs_close \<Rightarrow> nat \<Rightarrow> nat \<Rightarrow> bool \<Rightarrow> trapframe \<Rightarrow> ('z psys_scheme, sysres) kern" where
  "trap_fatal vfs_close copyfail code iskern tf =
     (if \<not> iskern then kbind (kill_curthread vfs_close code) (\<lambda>_. kret SExit)
      else
        kbind (kget us_cur) (\<lambda>cur.
        kbind (kget us_badfault) (\<lambda>bad.
        if cur \<noteq> None \<and> bad then kret (SReturn (tf\<lparr>tf_epc := word_of_nat copyfail\<rparr>)) else khalt PanicCall)))"

definition trap_fault ::
  "'z psys_scheme kops \<Rightarrow> callenv \<Rightarrow> nat \<Rightarrow> nat \<Rightarrow> nat \<Rightarrow> bool \<Rightarrow> trapframe \<Rightarrow> ('z psys_scheme, sysres) kern" where
  "trap_fault ops env copyfail code vaddr iskern tf =
     (let fatal = trap_fatal (k_vfs_close ops) copyfail code iskern tf;
          fault = (\<lambda>ft.
            kbind (vm_fault (k_vop_read ops) env ft vaddr) (\<lambda>r.
            case r of
              VRet (Inr _) \<Rightarrow> kret (SReturn tf)
            | VRet (Inl _) \<Rightarrow> fatal
            | VExit \<Rightarrow> kbind (sys__exit (k_vfs_close ops) 0) (\<lambda>_. kret SExit)))
      in
      if code = EX_MOD then fault VM_FAULT_READONLY
      else if code = EX_TLBL then fault VM_FAULT_READ
      else if code = EX_TLBS then fault VM_FAULT_WRITE
      else if code = EX_IBE \<or> code = EX_DBE then khalt PanicCall
      else fatal)"

text \<open>
  The handler of all exceptions, without its checks of the kernel stack.  A thread that goes back
  to where it came from gets the interrupt level back that it had.
\<close>

definition mips_trap ::
  "'z psys_scheme kops \<Rightarrow> ('z psys_scheme, unit) kern \<Rightarrow> callenv \<Rightarrow> nat \<Rightarrow> nat \<Rightarrow> nat \<Rightarrow> bool \<Rightarrow> trapframe \<Rightarrow>
     ('z psys_scheme, sysres) kern" where
  "mips_trap ops interrupt env copyfail code vaddr iskern tf =
     kbind (kget v_spl) (\<lambda>savespl.
     kbind (set_spl SPL_HIGH) (\<lambda>_.
     kbind (kassert (code < NTRAPCODES)) (\<lambda>_.
     kbind (if code = EX_IRQ then kbind interrupt (\<lambda>_. kret (SReturn tf))
            else
              kbind (set_spl savespl) (\<lambda>_.
              if code = EX_SYS then kbind (kassert (savespl = 0)) (\<lambda>_. mips_syscall ops tf)
              else trap_fault ops env copyfail code vaddr iskern tf)) (\<lambda>r.
     case r of
       SReturn tf \<Rightarrow> kbind (set_spl savespl) (\<lambda>_. kret (SReturn tf))
     | _ \<Rightarrow> kret r))))"

end
