(* ===== verification/Process_Inv.thy ===== *)
theory Process_Inv
  imports Syscalls
begin

text \<open>
  The life of processes: starting, forking, ending and waiting, in any order and by any threads.

  The invariant says that the process table and the heap agree, that every process knows its
  number, and that parents are running processes of the table, so that no parent pointer dangles.
  It is kept by all calls, which therefore never follow a stray pointer; the exit code of a child
  reaches its parent whatever happens in between.  What the code loses is stated as well: the slot
  of a process that ends without a parent is never used again.
\<close>

section \<open>Invariant\<close>

definition in_table :: "'z psys_scheme \<Rightarrow> nat \<Rightarrow> nat \<Rightarrow> bool" where
  "in_table s p i \<longleftrightarrow> MIN_PROCESS \<le> i \<and> i < MAX_PROCESS \<and> proctable s ! i = Some p"

definition running :: "'z psys_scheme \<Rightarrow> nat \<Rightarrow> bool" where
  "running s p \<longleftrightarrow> (\<exists>pr. pr_heap s p = Some pr \<and> pr_exit pr = 0)"

definition proc_ok :: "'z psys_scheme \<Rightarrow> nat \<Rightarrow> process \<Rightarrow> bool" where
  "proc_ok s p pr \<longleftrightarrow>
     in_table s p (pr_PID pr) \<and> p < pr_next s \<and> (pr_exit pr = 0 \<or> pr_exit pr = 1) \<and>
     pr_fd_lock pr = Some lock_new \<and> (pr_exit pr = 0 \<longrightarrow> pr_exit_cv pr = CvLive \<and> pr_proc_cv pr = CvLive) \<and>
     (\<forall>q. pr_parent pr = Some q \<longrightarrow> q \<noteq> p \<and> running s q)"

definition ptab_ok :: "'z psys_scheme \<Rightarrow> bool" where
  "ptab_ok s \<longleftrightarrow>
     length (proctable s) = MAX_PROCESS \<and>
     (\<forall>p i. in_table s p i \<longrightarrow> (\<exists>pr. pr_heap s p = Some pr \<and> pr_PID pr = i)) \<and>
     (\<forall>p pr. pr_heap s p = Some pr \<longrightarrow> proc_ok s p pr) \<and>
     (\<forall>t p. t_process s t = Some p \<longrightarrow> running s p) \<and>
     (\<forall>t t' p. t_process s t = Some p \<longrightarrow> t_process s t' = Some p \<longrightarrow> t = t')"

lemma ptab_okD:
  assumes "ptab_ok s"
  shows "length (proctable s) = MAX_PROCESS"
    and "in_table s p i \<Longrightarrow> \<exists>pr. pr_heap s p = Some pr \<and> pr_PID pr = i"
    and "pr_heap s p = Some pr \<Longrightarrow> proc_ok s p pr"
    and "t_process s t = Some p \<Longrightarrow> running s p"
    and "t_process s t = Some p \<Longrightarrow> t_process s t' = Some p \<Longrightarrow> t = t'"
  using assms by (auto simp: ptab_ok_def)

text \<open>The invariant is about the process part of the state only.\<close>

lemma ptab_ok_cong:
  assumes "proctable s' = proctable s" and "pr_heap s' = pr_heap s" and "pr_next s' = pr_next s" and "t_process s' = t_process s"
  shows "ptab_ok s' = ptab_ok s"
  using assms by (simp add: ptab_ok_def proc_ok_def running_def in_table_def)

subsection \<open>Allocation with enough memory\<close>

lemma kalloc_free: "k_mem s = [] \<Longrightarrow> kalloc s = Inr (True, s)"
  by (simp add: kalloc_def)

lemma create_free:
  assumes "k_mem s = []"
  shows "lock_create_p s = Inr (Some lock_new, s)" and "cv_create_p s = Inr (CvLive, s)"
  using assms by (simp_all add: lock_create_p_def cv_create_p_def kbind_def kalloc_def)

subsection \<open>Slots\<close>

text \<open>A slot that the search takes, and the table once it was cleared.\<close>

definition slot_free :: "'z psys_scheme \<Rightarrow> nat \<Rightarrow> bool" where
  "slot_free s i =
     (case proctable s ! i of
        None \<Rightarrow> True
      | Some p \<Rightarrow> (case pr_heap s p of None \<Rightarrow> False | Some pr \<Rightarrow> pr_exit pr = 1 \<and> pr_parent pr = None))"

definition clear_slot :: "nat \<Rightarrow> 'z psys_scheme \<Rightarrow> 'z psys_scheme" where
  "clear_slot i s =
     s\<lparr>pr_heap := (case proctable s ! i of None \<Rightarrow> pr_heap s | Some p \<Rightarrow> (pr_heap s)(p := None)),
       proctable := (proctable s)[i := None]\<rparr>"

definition put_slot :: "nat \<Rightarrow> process \<Rightarrow> 'z psys_scheme \<Rightarrow> 'z psys_scheme" where
  "put_slot i pr s =
     s\<lparr>pr_heap := (pr_heap s)(pr_next s \<mapsto> pr), pr_next := Suc (pr_next s),
       proctable := (proctable s)[i := Some (pr_next s)]\<rparr>"

lemma ptab_get_ok: "ptab_ok s \<Longrightarrow> i < MAX_PROCESS \<Longrightarrow> ptab_get i s = Inr (proctable s ! i, s)"
  by (simp add: ptab_get_def ptab_okD(1))

lemma remove_process_ok:
  assumes "ptab_ok s" and "pr_heap s p = Some pr"
  shows "remove_process (pr_PID pr) s = Inr ((), clear_slot (pr_PID pr) s)"
proof -
  note ok = ptab_okD(3) [OF assms]
  have t: "pr_PID pr < MAX_PROCESS" "proctable s ! pr_PID pr = Some p" using ok by (auto simp: proc_ok_def in_table_def)
  have "pr_fd_lock pr = Some lock_new" using ok by (simp add: proc_ok_def)
  then have l: "lock_destroy_p (pr_fd_lock pr) s = Inr ((), s)" by (simp add: lock_destroy_p_def lock_new_def kassert_def)
  have g: "pr_get p s = Inr (pr, s)" using assms(2) by (simp add: pr_get_def)
  show ?thesis
    using ptab_get_ok [OF assms(1) t(1)] t(2) g l
    by (simp add: remove_process_def kbind_def clear_slot_def)
qed

lemma reclaimable_ok:
  assumes "ptab_ok s" and "pr_heap s p = Some pr"
  shows "reclaimable pr s = Inr (pr_exit pr = 1 \<and> pr_parent pr = None, s)"
proof (cases "pr_parent pr")
  case None
  then show ?thesis by (simp add: reclaimable_def)
next
  case (Some q)
  then have "running s q" using ptab_okD(3) [OF assms] by (simp add: proc_ok_def)
  then obtain qr where "pr_heap s q = Some qr" "pr_exit qr = 0" by (auto simp: running_def)
  then show ?thesis using Some by (simp add: reclaimable_def kbind_def pr_get_def)
qed

lemma find_slot_ok:
  assumes "ptab_ok s" and "\<forall>i\<in>set is. MIN_PROCESS \<le> i \<and> i < MAX_PROCESS"
  shows "find_slot is s =
     Inr (case List.find (slot_free s) is of None \<Rightarrow> (0, s) | Some i \<Rightarrow> (i, clear_slot i s))"
  using assms(2)
proof (induction "is")
  case Nil
  then show ?case by simp
next
  case (Cons i "is")
  have i: "MIN_PROCESS \<le> i" "i < MAX_PROCESS" using Cons.prems by simp_all
  note g = ptab_get_ok [OF assms(1) i(2)]
  show ?case
  proof (cases "proctable s ! i")
    case None
    then have "slot_free s i" "clear_slot i s = s"
      using list_update_id [of "proctable s" i] by (simp_all add: slot_free_def clear_slot_def)
    then show ?thesis using g None by (simp add: kbind_def)
  next
    case (Some p)
    then have "in_table s p i" using i by (simp add: in_table_def)
    then obtain pr where pr: "pr_heap s p = Some pr" "pr_PID pr = i" using ptab_okD(2) [OF assms(1)] by blast
    have f: "slot_free s i = (pr_exit pr = 1 \<and> pr_parent pr = None)" using Some pr by (simp add: slot_free_def)
    show ?thesis
      using g Some pr(1) reclaimable_ok [OF assms(1) pr(1)] remove_process_ok [OF assms(1) pr(1)] f pr(2) Cons
      by (simp add: kbind_def pr_get_def)
  qed
qed

lemma clear_slot_simps [simp]:
  "pr_next (clear_slot i s) = pr_next s" "t_process (clear_slot i s) = t_process s" "k_mem (clear_slot i s) = k_mem s"
  "us_cur (clear_slot i s) = us_cur s" "proc_lock (clear_slot i s) = proc_lock s" "proctable (clear_slot i s) = (proctable s)[i := None]"
  by (simp_all add: clear_slot_def)

lemma put_slot_simps [simp]:
  "pr_next (put_slot i pr s) = Suc (pr_next s)" "t_process (put_slot i pr s) = t_process s" "k_mem (put_slot i pr s) = k_mem s"
  "us_cur (put_slot i pr s) = us_cur s" "proc_lock (put_slot i pr s) = proc_lock s"
  "proctable (put_slot i pr s) = (proctable s)[i := Some (pr_next s)]" "pr_heap (put_slot i pr s) = (pr_heap s)(pr_next s \<mapsto> pr)"
  by (simp_all add: put_slot_def)

text \<open>What clearing a slot leaves of the heap: everything but an ended process.\<close>

lemma clear_slot_heap:
  assumes "ptab_ok s" and "MIN_PROCESS \<le> i" and "i < MAX_PROCESS"
  shows "pr_heap (clear_slot i s) p = (if proctable s ! i = Some p then None else pr_heap s p)"
  by (simp add: clear_slot_def split: option.split)

lemma running_clear:
  assumes "ptab_ok s" and "MIN_PROCESS \<le> i" and "i < MAX_PROCESS" and "\<And>p. proctable s ! i = Some p \<Longrightarrow> \<not> running s p"
  shows "running (clear_slot i s) p = running s p"
  using clear_slot_heap [OF assms(1-3), of p] assms(4) by (auto simp: running_def)

lemma slot_free_stopped:
  "slot_free s i \<Longrightarrow> proctable s ! i = Some p \<Longrightarrow> \<not> running s p"
  by (auto simp: slot_free_def running_def split: option.splits)

lemma ptab_ok_clear:
  assumes "ptab_ok s" and "MIN_PROCESS \<le> i" and "i < MAX_PROCESS" and "\<And>p. proctable s ! i = Some p \<Longrightarrow> \<not> running s p"
  shows "ptab_ok (clear_slot i s)"
proof -
  note run = running_clear [OF assms] and heap = clear_slot_heap [OF assms(1-3)]
  have tab: "in_table (clear_slot i s) p j \<longleftrightarrow> in_table s p j \<and> j \<noteq> i" for p j
    using assms(2,3) ptab_okD(1) [OF assms(1)] by (auto simp: in_table_def nth_list_update)
  have other: "in_table s p j \<Longrightarrow> j \<noteq> i \<Longrightarrow> proctable s ! i \<noteq> Some p" for p j
    using ptab_okD(2) [OF assms(1), of p j] ptab_okD(2) [OF assms(1), of p i] assms(2,3) by (auto simp: in_table_def)
  have "proc_ok (clear_slot i s) p pr" if "pr_heap (clear_slot i s) p = Some pr" for p pr
  proof -
    have h: "pr_heap s p = Some pr" "proctable s ! i \<noteq> Some p" using that by (simp_all add: heap split: if_splits)
    note ok = ptab_okD(3) [OF assms(1) h(1)]
    then have "pr_PID pr \<noteq> i" using h(2) by (auto simp: proc_ok_def in_table_def)
    with ok show ?thesis by (auto simp: proc_ok_def run tab)
  qed
  moreover have "\<exists>pr. pr_heap (clear_slot i s) p = Some pr \<and> pr_PID pr = j" if "in_table (clear_slot i s) p j" for p j
    using that ptab_okD(2) [OF assms(1)] other by (auto simp: tab heap)
  ultimately show ?thesis
    using ptab_okD(1,4) [OF assms(1)] ptab_okD(5) [OF assms(1)] unfolding ptab_ok_def by (simp add: run)
qed

lemma ptab_ok_put:
  assumes "ptab_ok s" and "MIN_PROCESS \<le> i" and "i < MAX_PROCESS" and "proctable s ! i = None"
    and "pr_PID pr = i" and "pr_exit pr = 0" and "pr_fd_lock pr = Some lock_new" and "pr_exit_cv pr = CvLive" and "pr_proc_cv pr = CvLive"
    and "\<And>q. pr_parent pr = Some q \<Longrightarrow> running s q"
  shows "ptab_ok (put_slot i pr s)"
proof -
  let ?n = "pr_next s"
  have fresh: "pr_heap s ?n = None"
    using ptab_okD(3) [OF assms(1), of ?n] by (cases "pr_heap s ?n") (auto simp: proc_ok_def)
  then have run: "running s p \<Longrightarrow> running (put_slot i pr s) p" for p by (auto simp: running_def)
  have nr: "\<not> running s ?n" using fresh by (simp add: running_def)
  have tab: "in_table (put_slot i pr s) p j \<longleftrightarrow> (if j = i then p = ?n else in_table s p j)" for p j
    using assms(2,3) ptab_okD(1) [OF assms(1)] by (auto simp: in_table_def nth_list_update)
  have no: "in_table s p j \<Longrightarrow> j \<noteq> i" "in_table s p j \<Longrightarrow> p \<noteq> ?n" for p j
    using assms(4) ptab_okD(2) [OF assms(1), of p j] fresh by (auto simp: in_table_def)
  have "proc_ok (put_slot i pr s) p pr'" if "pr_heap (put_slot i pr s) p = Some pr'" for p pr'
  proof (cases "p = ?n")
    case True
    then have "pr' = pr" using that by simp
    with True assms(5-10) nr run show ?thesis by (auto simp: proc_ok_def tab)
  next
    case False
    then have "pr_heap s p = Some pr'" using that by simp
    from ptab_okD(3) [OF assms(1) this] show ?thesis using run no by (auto simp: proc_ok_def tab less_Suc_eq)
  qed
  moreover have "\<exists>pr'. pr_heap (put_slot i pr s) p = Some pr' \<and> pr_PID pr' = j" if "in_table (put_slot i pr s) p j" for p j
    using that ptab_okD(2) [OF assms(1), of p j] no assms(5) by (auto simp: tab split: if_splits)
  ultimately show ?thesis
    using ptab_okD(1) [OF assms(1)] ptab_okD(4) [OF assms(1)] run ptab_okD(5) [OF assms(1)] unfolding ptab_ok_def by simp
qed

lemma ptab_ok_assign:
  assumes "ptab_ok s" and "running s p" and "\<And>t. t_process s t \<noteq> Some p"
  shows "ptab_ok (s\<lparr>t_process := (t_process s)(t \<mapsto> p)\<rparr>)"
  using assms unfolding ptab_ok_def by (auto simp: proc_ok_def running_def in_table_def)

lemma ptab_ok_leave:
  assumes "ptab_ok s"
  shows "ptab_ok (s\<lparr>t_process := (t_process s)(t := None)\<rparr>)"
  using assms unfolding ptab_ok_def by (auto simp: proc_ok_def running_def in_table_def split: if_splits)

subsection \<open>Ending a process\<close>

text \<open>What the loop over the children relies on: table and heap agree and parents exist.\<close>

definition links_ok :: "'z psys_scheme \<Rightarrow> bool" where
  "links_ok s \<longleftrightarrow>
     length (proctable s) = MAX_PROCESS \<and>
     (\<forall>p i. in_table s p i \<longrightarrow> (\<exists>pr. pr_heap s p = Some pr \<and> pr_PID pr = i)) \<and>
     (\<forall>p pr. pr_heap s p = Some pr \<longrightarrow> in_table s p (pr_PID pr) \<and> (\<forall>q. pr_parent pr = Some q \<longrightarrow> pr_heap s q \<noteq> None))"

definition orphans :: "nat \<Rightarrow> nat set \<Rightarrow> (nat \<Rightarrow> process option) \<Rightarrow> nat \<Rightarrow> process option" where
  "orphans p S h x =
     map_option (\<lambda>pr. if pr_parent pr = Some p \<and> pr_PID pr \<in> S then pr\<lparr>pr_parent := None\<rparr> else pr) (h x)"

lemma links_okD:
  assumes "links_ok s"
  shows "length (proctable s) = MAX_PROCESS"
    and "in_table s p i \<Longrightarrow> \<exists>pr. pr_heap s p = Some pr \<and> pr_PID pr = i"
    and "pr_heap s p = Some pr \<Longrightarrow> in_table s p (pr_PID pr)"
    and "pr_heap s p = Some pr \<Longrightarrow> pr_parent pr = Some q \<Longrightarrow> pr_heap s q \<noteq> None"
  using assms by (simp_all add: links_ok_def)

lemma links_PID:
  assumes "links_ok s" and "pr_heap s p = Some pr" and "pr_heap s q = Some qr"
  shows "pr_PID qr = pr_PID pr \<longleftrightarrow> q = p"
proof -
  have "in_table s p (pr_PID pr)" "in_table s q (pr_PID qr)" using assms by (simp_all add: links_ok_def)
  then show ?thesis using assms(2,3) by (auto simp: in_table_def)
qed

lemma links_upd:
  assumes "links_ok s" and "pr_heap s p = Some pr" and "pr_PID pr' = pr_PID pr" and "\<And>q. pr_parent pr' = Some q \<Longrightarrow> pr_parent pr = Some q"
  shows "links_ok (s\<lparr>pr_heap := (pr_heap s)(p \<mapsto> pr')\<rparr>)"
proof -
  have "in_table (s\<lparr>pr_heap := h\<rparr>) = in_table s" for h by (simp add: fun_eq_iff in_table_def)
  note tab = this
  note a = links_okD(1) [OF assms(1)] and b = links_okD(2) [OF assms(1)] and c = links_okD(3,4) [OF assms(1)]
  have "\<exists>xr. ((pr_heap s)(p \<mapsto> pr')) x = Some xr \<and> pr_PID xr = i" if "in_table s x i" for x i
    using b [OF that] assms(2,3) by auto
  moreover have "in_table s x (pr_PID xr) \<and> (\<forall>q. pr_parent xr = Some q \<longrightarrow> ((pr_heap s)(p \<mapsto> pr')) q \<noteq> None)"
    if "((pr_heap s)(p \<mapsto> pr')) x = Some xr" for x xr
  proof (cases "x = p")
    case True
    then have "xr = pr'" using that by simp
    then show ?thesis using True c(1) [OF assms(2)] c(2) [OF assms(2)] assms(3,4) by auto
  next
    case False
    then show ?thesis using that c(1) [of x xr] c(2) [of x xr] by auto
  qed
  ultimately show ?thesis unfolding links_ok_def using a by (simp add: tab)
qed

lemma orphan_children_ok:
  assumes "links_ok s" and "pr_heap s p = Some pr" and "pr_PID pr = pid" and "\<forall>i\<in>set is. MIN_PROCESS \<le> i \<and> i < MAX_PROCESS" and "distinct is"
  shows "orphan_children pid is s = Inr ((), s\<lparr>pr_heap := orphans p (set is - {pid}) (pr_heap s)\<rparr>)"
  using assms
proof (induction "is" arbitrary: s pr)
  case Nil
  have "orphans p {} (pr_heap s) = pr_heap s" by (rule ext) (simp add: orphans_def option.map_ident)
  then show ?case by simp
next
  case (Cons i "is")
  have i: "MIN_PROCESS \<le> i" "i < MAX_PROCESS" "i \<notin> set is" using Cons.prems(4,5) by simp_all
  have g: "ptab_get i s = Inr (proctable s ! i, s)" using Cons.prems(1) i by (simp add: ptab_get_def links_ok_def)
  let ?o = "orphans p ({i} - {pid}) (pr_heap s)"
  have step: "(case proctable s ! i of
              None \<Rightarrow> kret ()
            | Some x \<Rightarrow>
                kbind (pr_get x) (\<lambda>pr.
                case pr_parent pr of
                  None \<Rightarrow> kret ()
                | Some q \<Rightarrow>
                    if i = pid then kret ()
                    else
                      kbind (pr_get q) (\<lambda>qr.
                      if pr_PID qr = pid then pr_mod x (\<lambda>pr. pr\<lparr>pr_parent := None\<rparr>) else kret ()))) s = Inr ((), s\<lparr>pr_heap := ?o\<rparr>)
      \<and> links_ok (s\<lparr>pr_heap := ?o\<rparr>) \<and> (\<exists>pr'. ?o p = Some pr' \<and> pr_PID pr' = pid)"
  proof (cases "proctable s ! i")
    case None
    have "?o = pr_heap s"
    proof
      fix x
      show "?o x = pr_heap s x"
        using links_okD(3) [OF Cons.prems(1), of x] None by (cases "pr_heap s x") (auto simp: orphans_def in_table_def)
    qed
    then show ?thesis using None Cons.prems(1-3) by simp
  next
    case (Some x)
    then have "in_table s x i" using i by (simp add: in_table_def)
    from links_okD(2) [OF Cons.prems(1) this] obtain xr where xr: "pr_heap s x = Some xr" "pr_PID xr = i" by (elim exE conjE)
    have only: "?o = (pr_heap s)(x \<mapsto> if pr_parent xr = Some p \<and> i \<noteq> pid then xr\<lparr>pr_parent := None\<rparr> else xr)"
    proof
      fix y
      show "?o y = ((pr_heap s)(x \<mapsto> if pr_parent xr = Some p \<and> i \<noteq> pid then xr\<lparr>pr_parent := None\<rparr> else xr)) y"
      proof (cases "y = x")
        case True
        then show ?thesis using xr by (simp add: orphans_def)
      next
        case False
        then have "pr_PID yr \<noteq> i" if "pr_heap s y = Some yr" for yr
          using links_PID [OF Cons.prems(1) xr(1) that] xr(2) by simp
        then show ?thesis using False by (cases "pr_heap s y") (simp_all add: orphans_def)
      qed
    qed
    have l: "links_ok (s\<lparr>pr_heap := ?o\<rparr>)" unfolding only
      by (rule links_upd [OF Cons.prems(1) xr(1)]) (auto split: if_splits)
    have p: "\<exists>pr'. ?o p = Some pr' \<and> pr_PID pr' = pid" unfolding only using Cons.prems(2,3) xr by auto
    have q: "pr_heap s q \<noteq> None" if "pr_parent xr = Some q" for q using links_okD(4) [OF Cons.prems(1) xr(1) that] .
    have pid: "pr_PID qr = pid \<longleftrightarrow> q = p" if "pr_heap s q = Some qr" for q qr
      using links_PID [OF Cons.prems(1,2) that] Cons.prems(3) by simp
    have same: "(pr_heap s)(x \<mapsto> xr) = pr_heap s" using xr(1) by (simp add: fun_upd_idem)
    show ?thesis using l p Some xr q pid same unfolding only
      by (cases "pr_parent xr") (auto simp: kbind_def pr_get_def pr_mod_def)
  qed
  obtain pr' where pr': "?o p = Some pr'" "pr_PID pr' = pid" using step by blast
  have rest: "orphan_children pid is (s\<lparr>pr_heap := ?o\<rparr>) =
      Inr ((), s\<lparr>pr_heap := orphans p (set is - {pid}) ?o\<rparr>)"
    using Cons.IH [of "s\<lparr>pr_heap := ?o\<rparr>" pr'] step pr' Cons.prems(4,5) by simp
  have "orphans p (set is - {pid}) ?o = orphans p (set (i # is) - {pid}) (pr_heap s)"
    by (rule ext) (auto simp: orphans_def option.map_comp comp_def intro!: option.map_cong)
  then show ?case using g step rest by (simp add: kbind_def)
qed

lemma ptab_ok_links: "ptab_ok s \<Longrightarrow> links_ok s"
  unfolding links_ok_def using ptab_okD(1,2) ptab_okD(3) by (fastforce simp: proc_ok_def running_def)

text \<open>The state after a process with a parent has ended.\<close>

definition ended_pr :: "nat \<Rightarrow> int \<Rightarrow> nat \<Rightarrow> process \<Rightarrow> process" where
  "ended_pr p code x pr =
     (if x = p then pr\<lparr>pr_exit_code := code, pr_exit := 1, pr_exit_cv := CvFreed, pr_proc_cv := CvFreed\<rparr>
      else if pr_parent pr = Some p then pr\<lparr>pr_parent := None\<rparr> else pr)"

definition ended :: "nat \<Rightarrow> int \<Rightarrow> 'z psys_scheme \<Rightarrow> 'z psys_scheme" where
  "ended p code s = s\<lparr>pr_heap := \<lambda>x. map_option (ended_pr p code x) (pr_heap s x)\<rparr>"

lemma ended_pr_simps [simp]:
  "pr_PID (ended_pr p c x pr) = pr_PID pr" "pr_fd_lock (ended_pr p c x pr) = pr_fd_lock pr"
  "pr_exit (ended_pr p c x pr) = (if x = p then 1 else pr_exit pr)"
  "pr_exit_code (ended_pr p c x pr) = (if x = p then c else pr_exit_code pr)"
  "pr_exit_cv (ended_pr p c x pr) = (if x = p then CvFreed else pr_exit_cv pr)"
  "pr_proc_cv (ended_pr p c x pr) = (if x = p then CvFreed else pr_proc_cv pr)"
  "pr_parent (ended_pr p c x pr) = (if x \<noteq> p \<and> pr_parent pr = Some p then None else pr_parent pr)"
  by (simp_all add: ended_pr_def)

lemma ended_simps [simp]:
  "pr_next (ended p c s) = pr_next s" "t_process (ended p c s) = t_process s" "k_mem (ended p c s) = k_mem s"
  "us_cur (ended p c s) = us_cur s" "proc_lock (ended p c s) = proc_lock s" "proctable (ended p c s) = proctable s"
  "pr_heap (ended p c s) x = map_option (ended_pr p c x) (pr_heap s x)"
  by (simp_all add: ended_def)

lemma exit_process_ok:
  assumes "ptab_ok s" and "pr_heap s p = Some pr" and "pr_parent pr \<noteq> None"
  shows "exit_process (pr_PID pr) code s =
     Inr (0, s\<lparr>pr_heap := orphans p ({MIN_PROCESS..<MAX_PROCESS} - {pr_PID pr}) ((pr_heap s)(p \<mapsto> pr\<lparr>pr_exit_code := code, pr_exit := 1\<rparr>))\<rparr>)"
proof -
  let ?pr = "pr\<lparr>pr_exit_code := code, pr_exit := 1\<rparr>"
  let ?s = "s\<lparr>pr_heap := (pr_heap s)(p \<mapsto> ?pr)\<rparr>"
  have t: "pr_PID pr < MAX_PROCESS" "proctable s ! pr_PID pr = Some p"
    using ptab_okD(3) [OF assms(1,2)] by (auto simp: proc_ok_def in_table_def)
  have l: "links_ok ?s" using links_upd [OF ptab_ok_links [OF assms(1)] assms(2), of ?pr] by simp
  have m: "pr_mod p (\<lambda>pr. pr\<lparr>pr_exit_code := code, pr_exit := 1\<rparr>) s = Inr ((), ?s)" using assms(2) by (simp add: pr_mod_def)
  have o: "orphan_children (pr_PID pr) [MIN_PROCESS..<MAX_PROCESS] ?s =
      Inr ((), s\<lparr>pr_heap := orphans p ({MIN_PROCESS..<MAX_PROCESS} - {pr_PID pr}) ((pr_heap s)(p \<mapsto> ?pr))\<rparr>)"
    using orphan_children_ok [OF l, of p ?pr "pr_PID pr" "[MIN_PROCESS..<MAX_PROCESS]"] by simp
  show ?thesis unfolding exit_process_def
    using ptab_get_ok [OF assms(1) t(1)] t(2) m o assms(3)
    by (simp add: kbind_def pr_get_def)
qed

lemma exit_mark_ok:
  assumes "ptab_ok s" and "pr_heap s p = Some pr" and "pr_exit pr = 0" and "pr_parent pr \<noteq> None"
    and "proc_lock s = Some \<lparr>lk_owner = us_cur s\<rparr>"
  shows "exit_mark p code s = Inr (0, ended p code s)"
proof -
  let ?h = "orphans p ({MIN_PROCESS..<MAX_PROCESS} - {pr_PID pr}) ((pr_heap s)(p \<mapsto> pr\<lparr>pr_exit_code := code, pr_exit := 1\<rparr>))"
  note ok = ptab_okD(3) [OF assms(1,2)]
  have cv: "pr_exit_cv pr = CvLive" "pr_proc_cv pr = CvLive" using ok assms(3) by (simp_all add: proc_ok_def)
  have hp: "?h p = Some (pr\<lparr>pr_exit_code := code, pr_exit := 1\<rparr>)" by (simp add: orphans_def)
  have chk: "cv_check CvLive (s\<lparr>pr_heap := ?h\<rparr>) = Inr ((), s\<lparr>pr_heap := ?h\<rparr>)"
    using assms(5) by (simp add: cv_check_def proc_lock_mine_def kbind_def kassert_def lock_do_i_hold_def)
  have "(?h(p \<mapsto> pr\<lparr>pr_exit_code := code, pr_exit := 1, pr_exit_cv := CvFreed, pr_proc_cv := CvFreed\<rparr>)) x = pr_heap (ended p code s) x" for x
  proof (cases "x = p")
    case True
    then show ?thesis using assms(2) by (simp add: ended_pr_def)
  next
    case False
    have "pr_PID xr \<in> {MIN_PROCESS..<MAX_PROCESS} - {pr_PID pr}" if "pr_heap s x = Some xr" for xr
      using links_PID [OF ptab_ok_links [OF assms(1)] assms(2) that] False ptab_okD(3) [OF assms(1) that]
      by (simp add: proc_ok_def in_table_def)
    then show ?thesis using False by (cases "pr_heap s x") (simp_all add: ended_pr_def orphans_def)
  qed
  then have "?h(p \<mapsto> pr\<lparr>pr_exit_code := code, pr_exit := 1, pr_exit_cv := CvFreed, pr_proc_cv := CvFreed\<rparr>) = pr_heap (ended p code s)"
    by (rule ext)
  then have d: "destroy_cvs p (s\<lparr>pr_heap := ?h\<rparr>) = Inr ((), ended p code s)"
    using hp cv by (simp add: destroy_cvs_def kbind_def pr_get_def pr_mod_def cv_destroy_p_def) (simp add: ended_def)
  show ?thesis
    unfolding exit_mark_def kbind_def
    using assms(2,4) exit_process_ok [OF assms(1,2,4), of code] chk d cv(1) by (auto simp: pr_get_def)
qed

lemma ptab_ok_ended:
  assumes "ptab_ok s" and "pr_heap s p = Some pr"
  shows "ptab_ok (ended p code s\<lparr>t_process := \<lambda>t. if t_process s t = Some p then None else t_process s t\<rparr>)"
proof -
  let ?s = "ended p code s\<lparr>t_process := \<lambda>t. if t_process s t = Some p then None else t_process s t\<rparr>"
  have tab: "in_table ?s x i = in_table s x i" for x i by (simp add: in_table_def)
  have run: "running ?s q" if "running s q" "q \<noteq> p" for q using that by (auto simp: running_def)
  have "proc_ok ?s x xr" if "pr_heap ?s x = Some xr" for x xr
  proof -
    from that obtain yr where yr: "pr_heap s x = Some yr" "xr = ended_pr p code x yr" by auto
    with ptab_okD(3) [OF assms(1) yr(1)] show ?thesis
      by (auto simp: proc_ok_def tab intro!: run split: if_splits)
  qed
  moreover have "\<exists>xr. pr_heap ?s x = Some xr \<and> pr_PID xr = i" if "in_table ?s x i" for x i
    using that ptab_okD(2) [OF assms(1), of x i] by (auto simp: tab)
  moreover have "running ?s q" if "t_process ?s t = Some q" for t q
    using that ptab_okD(4) [OF assms(1), of t q] by (auto intro!: run split: if_splits)
  ultimately show ?thesis
    using ptab_okD(1) [OF assms(1)] ptab_okD(5) [OF assms(1)] unfolding ptab_ok_def by (auto split: if_splits)
qed

subsection \<open>Starting a process\<close>

definition new_slot :: "'z psys_scheme \<Rightarrow> nat option" where
  "new_slot s = List.find (slot_free s) [MIN_PROCESS..<MAX_PROCESS]"

definition fresh_pr :: "process \<Rightarrow> nat \<Rightarrow> nat option \<Rightarrow> process" where
  "fresh_pr raw i par =
     raw\<lparr>pr_PID := i, pr_exit := 0, pr_exit_cv := CvLive, pr_table := None, pr_proc_cv := CvLive,
         pr_fd_lock := Some lock_new, pr_parent := par\<rparr>"

definition started :: "process \<Rightarrow> nat \<Rightarrow> nat option \<Rightarrow> 'z psys_scheme \<Rightarrow> 'z psys_scheme" where
  "started raw i par s = put_slot i (fresh_pr raw i par) (clear_slot i s)"

lemma new_slotD: "new_slot s = Some i \<Longrightarrow> MIN_PROCESS \<le> i \<and> i < MAX_PROCESS \<and> slot_free s i"
  by (auto simp: new_slot_def find_Some_iff)

lemma find_new_slot:
  assumes "ptab_ok s"
  shows "find_slot [MIN_PROCESS..<MAX_PROCESS] s = Inr (case new_slot s of None \<Rightarrow> (0, s) | Some i \<Rightarrow> (i, clear_slot i s))"
  unfolding new_slot_def by (rule find_slot_ok [OF assms]) simp

lemma add_process_new_ok:
  assumes "ptab_ok s" and "k_mem s = []"
  shows "add_process_new raw s =
     Inr (case new_slot s of None \<Rightarrow> (None, s)
          | Some i \<Rightarrow> (Some (pr_next s), started (raw\<lparr>pr_exit_lock := Some lock_new\<rparr>) i None s))"
proof (cases "new_slot s")
  case None
  then show ?thesis using find_new_slot [OF assms(1)] by (simp add: add_process_new_def kbind_def)
next
  case (Some i)
  have m: "k_mem (clear_slot i s) = []" using assms(2) by simp
  have i: "i \<noteq> 0" using new_slotD [OF Some] by simp
  show ?thesis unfolding add_process_new_def kbind_def
    using find_new_slot [OF assms(1)] Some i kalloc_free [OF m] create_free [OF m]
    by (cases raw) (simp add: put_process_def kbind_def started_def put_slot_def fresh_pr_def)
qed

lemma add_process_child_ok:
  assumes "ptab_ok s" and "k_mem s = []"
  shows "add_process_child raw par s =
     Inr (case new_slot s of None \<Rightarrow> (None, s) | Some i \<Rightarrow> (Some (pr_next s), started raw i par s))"
proof (cases "new_slot s")
  case None
  then show ?thesis using find_new_slot [OF assms(1)] by (simp add: add_process_child_def kbind_def)
next
  case (Some i)
  have m: "k_mem (clear_slot i s) = []" using assms(2) by simp
  have i: "i \<noteq> 0" using new_slotD [OF Some] by simp
  show ?thesis unfolding add_process_child_def kbind_def
    using find_new_slot [OF assms(1)] Some i kalloc_free [OF m] create_free [OF m]
    by (simp add: put_process_def kbind_def started_def put_slot_def fresh_pr_def)
qed

lemma started_simps [simp]:
  "pr_next (started raw i par s) = Suc (pr_next s)" "t_process (started raw i par s) = t_process s" "k_mem (started raw i par s) = k_mem s"
  "us_cur (started raw i par s) = us_cur s" "proc_lock (started raw i par s) = proc_lock s"
  by (simp_all add: started_def)

lemma ptab_fresh: "ptab_ok s \<Longrightarrow> pr_heap s (pr_next s) = None"
  using ptab_okD(3) [of s "pr_next s"] by (cases "pr_heap s (pr_next s)") (auto simp: proc_ok_def)

lemma started_heap:
  assumes "ptab_ok s" and "new_slot s = Some i"
  shows "pr_heap (started raw i par s) p =
     (if p = pr_next s then Some (fresh_pr raw i par) else if proctable s ! i = Some p then None else pr_heap s p)"
  using new_slotD [OF assms(2)] clear_slot_heap [OF assms(1), of i p] by (simp add: started_def)

lemma ptab_ok_started:
  assumes "ptab_ok s" and "new_slot s = Some i" and "\<And>q. par = Some q \<Longrightarrow> running s q"
  shows "ptab_ok (started raw i par s)" and "running (started raw i par s) (pr_next s)" and "t_process s t \<noteq> Some (pr_next s)"
proof -
  have i: "MIN_PROCESS \<le> i" "i < MAX_PROCESS" "slot_free s i" using new_slotD [OF assms(2)] by simp_all
  note st = slot_free_stopped [OF i(3)]
  have c: "ptab_ok (clear_slot i s)" using ptab_ok_clear [OF assms(1) i(1,2) st] .
  have n: "proctable (clear_slot i s) ! i = None" using i(2) ptab_okD(1) [OF assms(1)] by simp
  have "running (clear_slot i s) q" if "par = Some q" for q
    using assms(3) [OF that] running_clear [OF assms(1) i(1,2) st] by simp
  then show "ptab_ok (started raw i par s)"
    unfolding started_def by (intro ptab_ok_put [OF c i(1,2) n]) (simp_all add: fresh_pr_def)
  show "running (started raw i par s) (pr_next s)"
    unfolding running_def started_heap [OF assms(1,2)] by (simp add: fresh_pr_def)
  show "t_process s t \<noteq> Some (pr_next s)"
    using ptab_okD(4) [OF assms(1), of t "pr_next s"] ptab_fresh [OF assms(1)] by (auto simp: running_def)
qed

subsection \<open>Calls of threads\<close>

text \<open>
  Threads start programs, fork, end, wait, and come back from the sleep in a wait; \<open>t_wait\<close> says
  which thread sleeps and for which child.
\<close>

record wsys = psys +
  t_wait :: "nat \<Rightarrow> (int \<times> nat) option"

datatype pcall = PNew nat | PFork nat nat | PExit nat int | PWait nat int | PWake nat

datatype pres = PStarted "nat option" | PEnded | PWaited wres

definition note_wait :: "nat \<Rightarrow> int \<Rightarrow> wres \<Rightarrow> ('z wsys_scheme, pres) kern" where
  "note_wait t pid r =
     kbind (kmod (\<lambda>s. s\<lparr>t_wait := (t_wait s)(t := case r of WSleep kid \<Rightarrow> Some (pid, kid) | WRet _ _ _ \<Rightarrow> None)\<rparr>)) (\<lambda>_.
     kret (PWaited r))"

fun pcall_run :: "process \<Rightarrow> pcall \<Rightarrow> ('z wsys_scheme, pres) kern" where
  "pcall_run raw (PNew t) =
     kbind (pswitch t) (\<lambda>_.
     kbind (run_register raw) (\<lambda>p.
     case p of
       None \<Rightarrow> kret (PStarted None)
     | Some p \<Rightarrow> kbind proc_lock_release (\<lambda>_. kret (PStarted (Some p)))))"
| "pcall_run raw (PFork t t') =
     kbind (kget (\<lambda>s. t_process s t)) (\<lambda>pproc.
     kbind (pswitch t') (\<lambda>_.
     kbind (fork_register raw pproc) (\<lambda>p. kret (PStarted p))))"
| "pcall_run raw (PExit t code) =
     kbind (pswitch t) (\<lambda>_.
     kbind (exit_register code) (\<lambda>_.
     kbind (kmod (\<lambda>s. s\<lparr>t_process := (t_process s)(t := None)\<rparr>)) (\<lambda>_. kret PEnded)))"
| "pcall_run raw (PWait t pid) =
     kbind (pswitch t) (\<lambda>_. kbind (waitpid pid 0) (note_wait t pid))"
| "pcall_run raw (PWake t) =
     kbind (kget (\<lambda>s. t_wait s t)) (\<lambda>w.
     case w of
       None \<Rightarrow> khalt BadPtr
     | Some (pid, kid) \<Rightarrow> kbind (pswitch t) (\<lambda>_. kbind (wait_resume pid kid) (note_wait t pid)))"

text \<open>
  Who may call what.  A process that waits for the number one past the table reads beyond its end,
  so this call is left out.
\<close>

fun pcall_legal :: "'z wsys_scheme \<Rightarrow> pcall \<Rightarrow> bool" where
  "pcall_legal s (PNew t) \<longleftrightarrow> t_process s t = None"
| "pcall_legal s (PFork t t') \<longleftrightarrow> t_process s t \<noteq> None \<and> t_wait s t = None \<and> t_process s t' = None"
| "pcall_legal s (PExit t code) \<longleftrightarrow> t_process s t \<noteq> None \<and> t_wait s t = None"
| "pcall_legal s (PWait t pid) \<longleftrightarrow> t_process s t \<noteq> None \<and> t_wait s t = None \<and> pid \<noteq> int MAX_PROCESS"
| "pcall_legal s (PWake t) \<longleftrightarrow> t_wait s t \<noteq> None"

definition waits_ok :: "'z wsys_scheme \<Rightarrow> bool" where
  "waits_ok s \<longleftrightarrow>
     (\<forall>t pid kid. t_wait s t = Some (pid, kid) \<longrightarrow>
       (\<exists>p pr. t_process s t = Some p \<and> pr_heap s kid = Some pr \<and> pr_parent pr = Some p \<and> pid = int (pr_PID pr)))"

definition pinv :: "'z wsys_scheme \<Rightarrow> bool" where
  "pinv s \<longleftrightarrow> ptab_ok s \<and> waits_ok s \<and> proc_lock s = Some lock_new \<and> k_mem s = []"

subsection \<open>The effect of each call\<close>

definition sw :: "nat \<Rightarrow> 'z psys_scheme \<Rightarrow> 'z psys_scheme" where
  "sw t s =
     s\<lparr>t_vmspace := (case us_cur s of None \<Rightarrow> t_vmspace s | Some c \<Rightarrow> (t_vmspace s)(c := us_vmspace s)),
       us_cur := Some t, us_vmspace := t_vmspace s t\<rparr>"

lemma pswitch_eq [simp]: "pswitch t s = Inr ((), sw t s)"
  by (simp add: pswitch_def sw_def)

lemma sw_simps [simp]:
  "proctable (sw t s) = proctable s" "pr_heap (sw t s) = pr_heap s" "pr_next (sw t s) = pr_next s" "t_process (sw t s) = t_process s"
  "proc_lock (sw t s) = proc_lock s" "k_mem (sw t s) = k_mem s" "us_cur (sw t s) = Some t"
  by (simp_all add: sw_def)

lemma wait_simps [simp]:
  "t_wait (sw t s) = t_wait s" "t_wait (started raw i par s) = t_wait s" "t_wait (ended p c s) = t_wait s" "t_wait (clear_slot i s) = t_wait s"
  by (simp_all add: sw_def started_def put_slot_def ended_def clear_slot_def)

text \<open>States with the same process part.\<close>

definition peq :: "'z wsys_scheme \<Rightarrow> 'z wsys_scheme \<Rightarrow> bool" where
  "peq s s' \<longleftrightarrow> proctable s' = proctable s \<and> pr_heap s' = pr_heap s \<and> pr_next s' = pr_next s \<and> t_process s' = t_process s \<and>
     proc_lock s' = proc_lock s \<and> k_mem s' = k_mem s \<and> t_wait s' = t_wait s"

lemma peq_pinv: "peq s s' \<Longrightarrow> pinv s' = pinv s"
  using ptab_ok_cong [of s' s] by (auto simp: pinv_def peq_def waits_ok_def)

lemma slot_cong:
  assumes "proctable s' = proctable s" and "pr_heap s' = pr_heap s"
  shows "new_slot s' = new_slot s"
  unfolding new_slot_def slot_free_def [abs_def] assms ..

lemma started_cong:
  assumes "proctable s' = proctable s" and "pr_heap s' = pr_heap s" and "pr_next s' = pr_next s"
  shows "pr_heap (started raw i par s') = pr_heap (started raw i par s)" and "proctable (started raw i par' s') = proctable (started raw i par s)"
  using assms by (simp_all add: started_def put_slot_def clear_slot_def split: option.split)

lemma proc_lock_take:
  "proc_lock s = Some lock_new \<Longrightarrow> proc_lock_acquire s = Inr ((), s\<lparr>proc_lock := Some \<lparr>lk_owner = us_cur s\<rparr>\<rparr>)"
  by (simp add: proc_lock_acquire_def on_proc_lock_def kbind_def lock_new_def)

lemma proc_lock_drop:
  "proc_lock s = Some \<lparr>lk_owner = us_cur s\<rparr> \<Longrightarrow> proc_lock_release s = Inr ((), s\<lparr>proc_lock := Some lock_new\<rparr>)"
  by (simp add: proc_lock_release_def on_proc_lock_def kbind_def lock_new_def)

definition eff_start :: "process \<Rightarrow> nat \<Rightarrow> nat option \<Rightarrow> nat \<Rightarrow> 'z psys_scheme \<Rightarrow> 'z psys_scheme" where
  "eff_start raw t par i s = started raw i par s\<lparr>t_process := (t_process s)(t \<mapsto> pr_next s)\<rparr>"

lemma pcall_new:
  assumes "pinv s"
  shows "kruns (pcall_run raw (PNew t)) s (\<lambda>r s'.
     case new_slot s of
       None \<Rightarrow> r = PStarted None \<and> peq (s\<lparr>proc_lock := Some \<lparr>lk_owner = Some t\<rparr>\<rparr>) s'
     | Some i \<Rightarrow> r = PStarted (Some (pr_next s)) \<and> peq (eff_start (raw\<lparr>pr_exit_lock := Some lock_new\<rparr>) t None i s) s')"
proof -
  let ?s = "sw t s\<lparr>proc_lock := Some \<lparr>lk_owner = Some t\<rparr>\<rparr>"
  have ok: "ptab_ok ?s" "k_mem ?s = []" using assms ptab_ok_cong [of ?s s] by (simp_all add: pinv_def)
  have n: "new_slot ?s = new_slot s" by (rule slot_cong) simp_all
  have l: "proc_lock_acquire (sw t s) = Inr ((), ?s)" using assms proc_lock_take [of "sw t s"] by (simp add: pinv_def)
  have h: "pr_heap (started raw' i None ?s) = pr_heap (started raw' i None s)"
    "proctable (started raw' i None ?s) = proctable (started raw' i None s)" for raw' i
    by (rule started_cong; simp)+
  show ?thesis
  proof (cases "new_slot s")
    case None
    then show ?thesis
      using l add_process_new_ok [OF ok, of raw] n
      by (simp add: kruns_simps run_register_def kruns_def [of "pswitch t"] kruns_def [of proc_lock_acquire] kruns_def [of "add_process_new raw"] peq_def)
  next
    case (Some i)
    let ?raw = "raw\<lparr>pr_exit_lock := Some lock_new\<rparr>"
    let ?t = "started ?raw i None ?s\<lparr>t_process := (t_process s)(t \<mapsto> pr_next s)\<rparr>"
    have r: "proc_lock_release ?t = Inr ((), ?t\<lparr>proc_lock := Some lock_new\<rparr>)" by (rule proc_lock_drop) simp
    have "run_register raw (sw t s) = Inr (Some (pr_next s), ?t)"
      using l add_process_new_ok [OF ok, of raw] n Some by (simp add: run_register_def kbind_def set_process_def)
    moreover have "proc_lock s = Some lock_new" using assms by (simp add: pinv_def)
    ultimately show ?thesis
      using Some r by (simp add: kruns_def kbind_def peq_def eff_start_def h)
  qed
qed

lemma pcall_fork:
  assumes "pinv s" and "t_process s t' = None"
  shows "kruns (pcall_run raw (PFork t t')) s (\<lambda>r s'.
     case new_slot s of
       None \<Rightarrow> r = PStarted None \<and> peq s s'
     | Some i \<Rightarrow> r = PStarted (Some (pr_next s)) \<and> peq (eff_start raw t' (t_process s t) i s) s')"
proof -
  let ?s = "sw t' s"
  have ok: "ptab_ok ?s" "k_mem ?s = []" using assms ptab_ok_cong [of ?s s] by (simp_all add: pinv_def)
  have n: "new_slot ?s = new_slot s" by (rule slot_cong) simp_all
  have c: "cur_process ?s = Inr (None, ?s)" using assms(2) by (simp add: cur_process_def kbind_def)
  show ?thesis
  proof (cases "new_slot s")
    case None
    have "fork_register raw (t_process s t) ?s = Inr (None, ?s)"
      using c add_process_child_ok [OF ok, of raw None] n None by (simp add: fork_register_def kbind_def)
    then show ?thesis using None by (simp add: kruns_def kbind_def peq_def)
  next
    case (Some i)
    let ?par = "t_process s t"
    let ?t = "started raw i None ?s\<lparr>pr_heap := pr_heap (started raw i ?par ?s), t_process := (t_process s)(t' \<mapsto> pr_next s)\<rparr>"
    have m: "pr_mod (pr_next s) (\<lambda>pr. pr\<lparr>pr_parent := ?par\<rparr>) (started raw i None ?s) =
        Inr ((), started raw i None ?s\<lparr>pr_heap := pr_heap (started raw i ?par ?s)\<rparr>)"
      by (simp add: pr_mod_def started_def fresh_pr_def)
    have "fork_register raw ?par ?s = Inr (Some (pr_next s), ?t)"
      using c add_process_child_ok [OF ok, of raw None] n Some m by (simp add: fork_register_def kbind_def set_process_def)
    moreover have "pr_heap (started raw i ?par ?s) = pr_heap (started raw i ?par s)" "proctable (started raw i None ?s) = proctable (started raw i ?par s)"
      by (rule started_cong; simp)+
    ultimately show ?thesis using Some by (simp add: kruns_def kbind_def peq_def eff_start_def)
  qed
qed

lemma pcall_exit:
  assumes "pinv s" and "t_process s t = Some p" and "pr_heap s p = Some pr"
  shows "kruns (pcall_run raw (PExit t code)) s (\<lambda>r s'. r = PEnded \<and>
     peq ((if pr_parent pr = None then s else ended p code s)\<lparr>t_process := (t_process s)(t := None)\<rparr>) s')"
proof -
  let ?s = "sw t s\<lparr>proc_lock := Some \<lparr>lk_owner = Some t\<rparr>\<rparr>"
  let ?e = "if pr_parent pr = None then ?s else ended p code ?s"
  have ok: "ptab_ok ?s" using assms ptab_ok_cong [of ?s s] by (simp add: pinv_def)
  have l: "proc_lock_acquire (sw t s) = Inr ((), ?s)" using assms proc_lock_take [of "sw t s"] by (simp add: pinv_def)
  have lf: "proc_lock s = Some lock_new" using assms by (simp add: pinv_def)
  have "running s p" using ptab_okD(4) [of s t p] assms by (simp add: pinv_def)
  then have x: "pr_exit pr = 0" using assms(3) by (simp add: running_def)
  have m: "my_process ?s = Inr (p, ?s)" using assms(2) by (simp add: my_process_def cur_process_def kbind_def)
  have "exit_mark p code ?s = Inr (0, ?e)"
  proof (cases "pr_parent pr")
    case None
    then show ?thesis using assms(3) by (simp add: exit_mark_def kbind_def pr_get_def)
  next
    case (Some q)
    then show ?thesis using exit_mark_ok [OF ok, of p pr code] assms(3) x by simp
  qed
  moreover have "proc_lock_release ?e = Inr ((), ?e\<lparr>proc_lock := Some lock_new\<rparr>)" by (rule proc_lock_drop) simp
  ultimately have "exit_register code (sw t s) = Inr ((), ?e\<lparr>proc_lock := Some lock_new\<rparr>)"
    using l m by (simp add: exit_register_def kbind_def)
  then show ?thesis using lf by (simp add: kruns_def kbind_def peq_def ended_def)
qed

lemma wait_loop_ok:
  assumes "ptab_ok s" and "pr_heap s kid = Some kr" and "proc_lock s = Some \<lparr>lk_owner = us_cur s\<rparr>"
  shows "wait_loop pid kid s =
     Inr (if pr_exit kr = 0 then (WSleep kid, s\<lparr>proc_lock := Some lock_new\<rparr>)
          else (WRet pid 0 (Some (pr_exit_code kr)), clear_slot (pr_PID kr) s\<lparr>proc_lock := Some lock_new\<rparr>))"
proof (cases "pr_exit kr = 0")
  case True
  then have "pr_exit_cv kr = CvLive" using ptab_okD(3) [OF assms(1,2)] by (simp add: proc_ok_def)
  then have "cv_check (pr_exit_cv kr) s = Inr ((), s)"
    using assms(3) by (simp add: cv_check_def proc_lock_mine_def kbind_def kassert_def lock_do_i_hold_def)
  then show ?thesis using True assms(2) proc_lock_drop [OF assms(3)] by (simp add: wait_loop_def kbind_def pr_get_def)
next
  case False
  have "proc_lock_release (clear_slot (pr_PID kr) s) = Inr ((), clear_slot (pr_PID kr) s\<lparr>proc_lock := Some lock_new\<rparr>)"
    using proc_lock_drop [of "clear_slot (pr_PID kr) s"] assms(3) by simp
  then show ?thesis using False assms(2) remove_process_ok [OF assms(1,2)]
    by (simp add: wait_loop_def wait_done_def kbind_def pr_get_def)
qed

text \<open>What a wait of thread \<open>t\<close> for \<open>kid\<close> does, first or after a sleep.\<close>

definition wait_effect :: "nat \<Rightarrow> int \<Rightarrow> nat \<Rightarrow> process \<Rightarrow> 'z wsys_scheme \<Rightarrow> pres \<Rightarrow> 'z wsys_scheme \<Rightarrow> bool" where
  "wait_effect t pid kid kr s r s' \<longleftrightarrow>
     (if pr_exit kr = 0 then r = PWaited (WSleep kid) \<and> peq (s\<lparr>t_wait := (t_wait s)(t \<mapsto> (pid, kid))\<rparr>) s'
      else r = PWaited (WRet pid 0 (Some (pr_exit_code kr))) \<and>
           peq (clear_slot (pr_PID kr) s\<lparr>t_wait := (t_wait s)(t := None)\<rparr>) s')"

lemma clear_slot_cong:
  assumes "proctable s' = proctable s" and "pr_heap s' = pr_heap s"
  shows "pr_heap (clear_slot i s') = pr_heap (clear_slot i s)"
  using assms by (simp add: clear_slot_def split: option.split)

lemma wait_loop_effect:
  assumes "pinv s" and "pr_heap s kid = Some kr"
  shows "kruns (kbind (wait_loop pid kid) (note_wait t pid)) (sw t s\<lparr>proc_lock := Some \<lparr>lk_owner = Some t\<rparr>\<rparr>) (wait_effect t pid kid kr s)"
proof -
  let ?s = "sw t s\<lparr>proc_lock := Some \<lparr>lk_owner = Some t\<rparr>\<rparr>"
  have ok: "ptab_ok ?s" using assms(1) ptab_ok_cong [of ?s s] by (simp add: pinv_def)
  have lf: "proc_lock s = Some lock_new" using assms by (simp add: pinv_def)
  have h: "pr_heap (clear_slot i ?s) = pr_heap (clear_slot i s)" for i by (rule clear_slot_cong) simp_all
  have w: "t_wait ?s = t_wait s" "t_wait (clear_slot i ?s) = t_wait s" for i by (simp_all add: sw_def clear_slot_def)
  show ?thesis
    using wait_loop_ok [OF ok, of kid kr pid] assms(2) lf
    by (simp add: kruns_def kbind_def note_wait_def wait_effect_def peq_def h w)
qed

lemma pcall_wake:
  assumes "pinv s" and "t_wait s t = Some (pid, kid)" and "pr_heap s kid = Some kr"
  shows "kruns (pcall_run raw (PWake t)) s (wait_effect t pid kid kr s)"
proof -
  have l: "proc_lock_acquire (sw t s) = Inr ((), sw t s\<lparr>proc_lock := Some \<lparr>lk_owner = Some t\<rparr>\<rparr>)"
    using assms proc_lock_take [of "sw t s"] by (simp add: pinv_def)
  show ?thesis
    using wait_loop_effect [OF assms(1,3), of pid t] assms(2) l
    by (simp add: wait_resume_def kruns_simps kruns_Inr [of "pswitch t" s "()"] kruns_Inr [of proc_lock_acquire "sw t s" "()"])
qed

text \<open>A wait that is refused.\<close>

definition wait_refused :: "errno \<Rightarrow> int option \<Rightarrow> 'z wsys_scheme \<Rightarrow> pres \<Rightarrow> 'z wsys_scheme \<Rightarrow> bool" where
  "wait_refused e st s r s' \<longleftrightarrow> r = PWaited (WRet (-1) (errno_code e) st) \<and> peq s s'"

definition kid_of :: "'z psys_scheme \<Rightarrow> int \<Rightarrow> nat option" where
  "kid_of s pid = (if int MIN_PROCESS \<le> pid \<and> pid < int MAX_PROCESS then proctable s ! nat pid else None)"

lemma pcall_wait:
  assumes "pinv s" and "t_process s t = Some p" and "t_wait s t = None" and "pid \<noteq> int MAX_PROCESS"
  shows "kruns (pcall_run raw (PWait t pid)) s (\<lambda>r s'.
     case kid_of s pid of
       None \<Rightarrow> wait_refused EAGAIN (Some (-1)) s r s'
     | Some kid \<Rightarrow> (\<exists>kr. pr_heap s kid = Some kr \<and> pid = int (pr_PID kr) \<and>
         (if pr_parent kr = Some p then wait_effect t pid kid kr s r s' else wait_refused ENOMEM None s r s')))"
proof -
  let ?l = "sw t s\<lparr>proc_lock := Some \<lparr>lk_owner = Some t\<rparr>\<rparr>"
  have tab: "ptab_ok s" using assms(1) by (simp add: pinv_def)
  have lf: "proc_lock s = Some lock_new" using assms by (simp add: pinv_def)
  have l: "proc_lock_acquire (sw t s) = Inr ((), ?l)" using lf proc_lock_take [of "sw t s"] by simp
  have d: "proc_lock_release ?l = Inr ((), ?l\<lparr>proc_lock := Some lock_new\<rparr>)" by (rule proc_lock_drop) simp
  have g: "process_get pid (sw t s) = Inr (kid_of s pid, sw t s)"
    using ptab_okD(1) [OF tab] assms(4) by (auto simp: process_get_def ptab_get_def kid_of_def)
  have c: "cur_process ?l = Inr (Some p, ?l)" using assms(2) by (simp add: cur_process_def kbind_def)
  have w: "(t_wait s)(t := None) = t_wait s" "t_wait ?l = t_wait s" using assms(3) by (simp_all add: fun_upd_idem)
  show ?thesis
  proof (cases "kid_of s pid")
    case None
    then show ?thesis using l d g lf w
      by (simp add: kruns_def kbind_def waitpid_def note_wait_def wait_refused_def peq_def)
  next
    case (Some kid)
    then have pid: "1 \<le> pid" "pid < 100" "proctable s ! nat pid = Some kid" by (auto simp: kid_of_def split: if_splits)
    then have "in_table s kid (nat pid)" by (auto simp: in_table_def)
    from ptab_okD(2) [OF tab this] obtain kr where kr: "pr_heap s kid = Some kr" "pr_PID kr = nat pid" by (elim exE conjE)
    have kg: "pr_get kid ?l = Inr (kr, ?l)" using kr(1) by (simp add: pr_get_def)
    have ex: "pr_exit kr = 0 \<or> pr_exit kr = 1" using ptab_okD(3) [OF tab kr(1)] by (simp add: proc_ok_def)
    have wl: "pr_exit kr = 1 \<Longrightarrow> wait_done pid kid ?l = wait_loop pid kid ?l"
      using kg by (simp add: wait_loop_def kbind_def)
    have "kruns (pcall_run raw (PWait t pid)) s Q =
        (if pr_parent kr = Some p then kruns (kbind (wait_loop pid kid) (note_wait t pid)) ?l Q
         else kruns (kbind proc_lock_release (\<lambda>_. kbind (kret (WRet (-1) (errno_code ENOMEM) None)) (note_wait t pid))) ?l Q)" for Q
      using l g c kg Some wl ex d by (auto simp: kruns_def kbind_def waitpid_def)
    note run = this
    show ?thesis
    proof (cases "pr_parent kr = Some p")
      case True
      have "wait_effect t pid kid kr s r s' \<Longrightarrow> \<exists>kr. pr_heap s kid = Some kr \<and> pid = int (pr_PID kr) \<and>
         (if pr_parent kr = Some p then wait_effect t pid kid kr s r s' else wait_refused ENOMEM None s r s')" for r s'
        using True kr pid by (intro exI [of _ kr]) simp
      note eff = this
      show ?thesis unfolding run Some option.case if_P [OF True]
        by (rule kruns_mono [OF wait_loop_effect [OF assms(1) kr(1)]]) (rule eff)
    next
      case False
      then show ?thesis using Some kr pid d lf w unfolding run
        by (simp add: kruns_def kbind_def note_wait_def wait_refused_def peq_def)
    qed
  qed
qed

subsection \<open>The invariant is kept\<close>

lemma waits_okD:
  assumes "waits_ok s" and "t_wait s t = Some (pid, kid)"
  obtains p pr where "t_process s t = Some p" and "pr_heap s kid = Some pr" and "pr_parent pr = Some p" and "pid = int (pr_PID pr)"
  using assms that unfolding waits_ok_def by blast

text \<open>A child with a parent stays in its slot when a new process starts.\<close>

lemma started_keeps:
  assumes "ptab_ok s" and "new_slot s = Some i" and "pr_heap s x = Some xr" and "pr_parent xr \<noteq> None \<or> pr_exit xr = 0"
  shows "pr_heap (started raw i par s) x = Some xr"
proof -
  have "x \<noteq> pr_next s" using ptab_fresh [OF assms(1)] assms(3) by auto
  moreover have "proctable s ! i \<noteq> Some x"
    using new_slotD [OF assms(2)] assms(3,4) by (auto simp: slot_free_def)
  ultimately show ?thesis using assms(3) by (simp add: started_heap [OF assms(1,2)])
qed

lemma pinv_start:
  assumes "pinv s" and "new_slot s = Some i" and "t_process s t = None" and "\<And>q. par = Some q \<Longrightarrow> running s q"
  shows "pinv (eff_start raw t par i s)"
proof -
  have s: "ptab_ok s" "waits_ok s" using assms(1) by (simp_all add: pinv_def)
  note st = ptab_ok_started [OF s(1) assms(2,4)]
  have "ptab_ok (eff_start raw t par i s)"
    unfolding eff_start_def using ptab_ok_assign [OF st(1) st(2)] st(3) by simp
  moreover have "waits_ok (eff_start raw t par i s)"
    unfolding waits_ok_def
  proof (intro allI impI)
    fix t' pid kid
    assume "t_wait (eff_start raw t par i s) t' = Some (pid, kid)"
    then have "t_wait s t' = Some (pid, kid)" by (simp add: eff_start_def)
    from waits_okD [OF s(2) this] obtain p pr where w: "t_process s t' = Some p" "pr_heap s kid = Some pr" "pr_parent pr = Some p" "pid = int (pr_PID pr)" .
    have "t' \<noteq> t" using w(1) assms(3) by auto
    moreover have "pr_heap (started raw i par s) kid = Some pr" using started_keeps [OF s(1) assms(2) w(2)] w(3) by simp
    ultimately show "\<exists>p pr. t_process (eff_start raw t par i s) t' = Some p \<and> pr_heap (eff_start raw t par i s) kid = Some pr \<and>
        pr_parent pr = Some p \<and> pid = int (pr_PID pr)"
      using w by (intro exI [of _ p] exI [of _ pr]) (simp add: eff_start_def)
  qed
  ultimately show ?thesis using assms(1) by (simp add: pinv_def eff_start_def)
qed

lemma pinv_exit:
  assumes "pinv s" and "t_process s t = Some p" and "t_wait s t = None" and "pr_heap s p = Some pr"
  shows "pinv ((if pr_parent pr = None then s else ended p code s)\<lparr>t_process := (t_process s)(t := None)\<rparr>)"
proof -
  have s: "ptab_ok s" "waits_ok s" using assms(1) by (simp_all add: pinv_def)
  have tp: "(\<lambda>t. if t_process s t = Some p then None else t_process s t) = (t_process s)(t := None)"
  proof (rule ext)
    fix t'
    show "(if t_process s t' = Some p then None else t_process s t') = ((t_process s)(t := None)) t'"
      using ptab_okD(5) [OF s(1) assms(2), of t'] assms(2) by (cases "t' = t") auto
  qed
  let ?f = "s\<lparr>t_process := (t_process s)(t := None)\<rparr>" and ?e = "ended p code s\<lparr>t_process := (t_process s)(t := None)\<rparr>"
  have tab: "ptab_ok ?f" "ptab_ok ?e" using ptab_ok_leave [OF s(1)] ptab_ok_ended [OF s(1) assms(4), of code] tp by simp_all
  have w: "waits_ok ?f \<and> waits_ok ?e"
    unfolding waits_ok_def
  proof (intro conjI allI impI)
    fix t' pid kid
    assume "t_wait ?f t' = Some (pid, kid)"
    then have tw: "t_wait s t' = Some (pid, kid)" by simp
    from waits_okD [OF s(2) tw] obtain q kr where w: "t_process s t' = Some q" "pr_heap s kid = Some kr" "pr_parent kr = Some q" "pid = int (pr_PID kr)" .
    have "t' \<noteq> t" using tw assms(3) by auto
    then show "\<exists>p pr. t_process ?f t' = Some p \<and> pr_heap ?f kid = Some pr \<and> pr_parent pr = Some p \<and> pid = int (pr_PID pr)"
      using w by simp
  next
    fix t' pid kid
    assume "t_wait ?e t' = Some (pid, kid)"
    then have tw: "t_wait s t' = Some (pid, kid)" by simp
    from waits_okD [OF s(2) tw] obtain q kr where w: "t_process s t' = Some q" "pr_heap s kid = Some kr" "pr_parent kr = Some q" "pid = int (pr_PID kr)" .
    have t: "t' \<noteq> t" using tw assms(3) by auto
    then have "q \<noteq> p" using ptab_okD(5) [OF s(1) assms(2), of t'] w(1) by auto
    then show "\<exists>p pr. t_process ?e t' = Some p \<and> pr_heap ?e kid = Some pr \<and> pr_parent pr = Some p \<and> pid = int (pr_PID pr)"
      using w t by simp
  qed
  show ?thesis using tab w assms(1) by (simp add: pinv_def)
qed

lemma pinv_wait:
  assumes "pinv s" and "t_process s t = Some p" and "pr_heap s kid = Some kr" and "pr_parent kr = Some p" and "pid = int (pr_PID kr)"
    and "wait_effect t pid kid kr s r s'"
  shows "pinv s'"
proof (cases "pr_exit kr = 0")
  case True
  let ?s = "s\<lparr>t_wait := (t_wait s)(t \<mapsto> (pid, kid))\<rparr>"
  have "ptab_ok ?s" using assms(1) ptab_ok_cong [of ?s s] by (simp add: pinv_def)
  moreover have "waits_ok ?s" using assms(1-5) by (auto simp: waits_ok_def pinv_def)
  ultimately have "pinv ?s" using assms(1) by (simp add: pinv_def)
  then show ?thesis using True assms(6) peq_pinv [of ?s s'] by (simp add: wait_effect_def)
next
  case False
  have s: "ptab_ok s" "waits_ok s" using assms(1) by (simp_all add: pinv_def)
  let ?s = "clear_slot (pr_PID kr) s\<lparr>t_wait := (t_wait s)(t := None)\<rparr>"
  have i: "MIN_PROCESS \<le> pr_PID kr" "pr_PID kr < MAX_PROCESS" "proctable s ! pr_PID kr = Some kid"
    using ptab_okD(3) [OF s(1) assms(3)] by (auto simp: proc_ok_def in_table_def)
  have "ptab_ok (clear_slot (pr_PID kr) s)"
    by (rule ptab_ok_clear [OF s(1) i(1,2)]) (use i(3) assms(3) False in \<open>simp add: running_def\<close>)
  then have tab: "ptab_ok ?s" using ptab_ok_cong [of ?s "clear_slot (pr_PID kr) s"] by simp
  have "waits_ok ?s" unfolding waits_ok_def
  proof (intro allI impI)
    fix t' pid' kid'
    assume "t_wait ?s t' = Some (pid', kid')"
    then have tw: "t_wait s t' = Some (pid', kid')" "t' \<noteq> t" by (auto split: if_splits)
    from waits_okD [OF s(2) tw(1)] obtain q qr where w: "t_process s t' = Some q" "pr_heap s kid' = Some qr" "pr_parent qr = Some q" "pid' = int (pr_PID qr)" .
    have "q \<noteq> p" using ptab_okD(5) [OF s(1) assms(2), of t'] w(1) tw(2) by auto
    then have "kid' \<noteq> kid" using w(2,3) assms(3,4) by auto
    then have "pr_heap (clear_slot (pr_PID kr) s) kid' = Some qr" using clear_slot_heap [OF s(1) i(1,2), of kid'] w(2) i(3) by simp
    then show "\<exists>p pr. t_process ?s t' = Some p \<and> pr_heap ?s kid' = Some pr \<and> pr_parent pr = Some p \<and> pid' = int (pr_PID pr)"
      using w by simp
  qed
  with tab have "pinv ?s" using assms(1) by (simp add: pinv_def)
  then show ?thesis using False assms(6) peq_pinv [of ?s s'] by (simp add: wait_effect_def)
qed

text \<open>
  Every legal call runs and keeps the invariant, except that a start with a full table returns
  with the lock held.
\<close>

definition start_failed :: "'z wsys_scheme \<Rightarrow> pcall \<Rightarrow> pres \<Rightarrow> 'z wsys_scheme \<Rightarrow> bool" where
  "start_failed s c r s' \<longleftrightarrow>
     (\<exists>t. c = PNew t \<and> new_slot s = None \<and> r = PStarted None \<and> proc_lock s' = Some \<lparr>lk_owner = Some t\<rparr>)"

lemma pinv_running: "pinv s \<Longrightarrow> t_process s t = Some p \<Longrightarrow> \<exists>pr. pr_heap s p = Some pr \<and> pr_exit pr = 0"
  using ptab_okD(4) [of s t p] by (simp add: pinv_def running_def)

lemma pcall_kept:
  assumes "pinv s" and "pcall_legal s c"
  shows "kruns (pcall_run raw c) s (\<lambda>r s'. pinv s' \<or> start_failed s c r s')"
proof (cases c)
  case (PNew t)
  have "pinv (eff_start (raw\<lparr>pr_exit_lock := Some lock_new\<rparr>) t None i s)" if "new_slot s = Some i" for i
    by (rule pinv_start [OF assms(1) that]) (use assms(2) PNew in simp_all)
  then show ?thesis unfolding PNew
    by (intro kruns_mono [OF pcall_new [OF assms(1)]])
      (auto simp: start_failed_def peq_def [of "s\<lparr>proc_lock := l\<rparr>" for l] dest!: peq_pinv split: option.splits)
next
  case (PFork t t')
  have "running s q" if "t_process s t = Some q" for q using ptab_okD(4) [of s t q] assms(1) that by (simp add: pinv_def)
  then have "pinv (eff_start raw t' (t_process s t) i s)" if "new_slot s = Some i" for i
    by (intro pinv_start [OF assms(1) that]) (use assms(2) PFork in simp_all)
  moreover have "t_process s t' = None" using assms(2) PFork by simp
  ultimately show ?thesis unfolding PFork using assms(1)
    by (intro kruns_mono [OF pcall_fork [OF assms(1)]]) (auto dest!: peq_pinv split: option.splits)
next
  case (PExit t code)
  then obtain p where p: "t_process s t = Some p" "t_wait s t = None" using assms(2) by auto
  from pinv_running [OF assms(1) p(1)] obtain pr where pr: "pr_heap s p = Some pr" by blast
  show ?thesis unfolding PExit
    by (rule kruns_mono [OF pcall_exit [OF assms(1) p(1) pr]]) (use peq_pinv pinv_exit [OF assms(1) p pr] in blast)
next
  case (PWait t pid)
  then obtain p where p: "t_process s t = Some p" "t_wait s t = None" "pid \<noteq> int MAX_PROCESS" using assms(2) by auto
  show ?thesis unfolding PWait
  proof (rule kruns_mono [OF pcall_wait [OF assms(1) p]], rule disjI1)
    fix r s'
    assume "case kid_of s pid of None \<Rightarrow> wait_refused EAGAIN (Some (-1)) s r s'
      | Some kid \<Rightarrow> (\<exists>kr. pr_heap s kid = Some kr \<and> pid = int (pr_PID kr) \<and>
         (if pr_parent kr = Some p then wait_effect t pid kid kr s r s' else wait_refused ENOMEM None s r s'))"
    then show "pinv s'"
      using assms(1) peq_pinv pinv_wait [OF assms(1) p(1)] by (auto simp: wait_refused_def split: option.splits if_splits)
  qed
next
  case (PWake t)
  then obtain pid kid where w: "t_wait s t = Some (pid, kid)" using assms(2) by auto
  have "waits_ok s" using assms(1) by (simp add: pinv_def)
  from waits_okD [OF this w] obtain p kr where k: "t_process s t = Some p" "pr_heap s kid = Some kr" "pr_parent kr = Some p" "pid = int (pr_PID kr)" .
  show ?thesis unfolding PWake
    by (rule kruns_mono [OF pcall_wake [OF assms(1) w k(2)]]) (use pinv_wait [OF assms(1) k] in blast)
qed

section \<open>Runs\<close>

text \<open>Sequences of calls by any threads, in any order, as long as no start fails.\<close>

inductive psteps :: "process \<Rightarrow> 'z wsys_scheme \<Rightarrow> (pcall \<times> pres) list \<Rightarrow> 'z wsys_scheme \<Rightarrow> bool" for raw s where
  none: "psteps raw s [] s"
| more: "psteps raw s cs s1 \<Longrightarrow> pcall_legal s1 c \<Longrightarrow> pcall_run raw c s1 = Inr (r, s2) \<Longrightarrow> \<not> start_failed s1 c r s2 \<Longrightarrow>
     psteps raw s (cs @ [(c, r)]) s2"

lemma psteps_pinv: "psteps raw s cs s' \<Longrightarrow> pinv s \<Longrightarrow> pinv s'"
proof (induction rule: psteps.induct)
  case (more cs s1 c r s2)
  from pcall_kept [OF more.IH [OF more.prems] more.hyps(2), of raw] more.hyps(3,4) show ?case by (simp add: kruns_def)
qed simp

text \<open>The child \<open>k\<close> of \<open>p\<close>, the process of thread \<open>t\<close>, has ended with \<open>code\<close> and has not been waited for.\<close>

definition zombie :: "nat \<Rightarrow> nat \<Rightarrow> nat \<Rightarrow> int \<Rightarrow> int \<Rightarrow> 'z psys_scheme \<Rightarrow> bool" where
  "zombie t p k pid code s \<longleftrightarrow>
     t_process s t = Some p \<and>
     (\<exists>kr. pr_heap s k = Some kr \<and> pr_exit kr = 1 \<and> pr_exit_code kr = code \<and> pr_parent kr = Some p \<and> pid = int (pr_PID kr))"

text \<open>Calls by which the parent's thread ends or takes the exit code.\<close>

fun parent_acts :: "nat \<Rightarrow> int \<Rightarrow> pcall \<Rightarrow> bool" where
  "parent_acts t pid (PExit u code) \<longleftrightarrow> u = t"
| "parent_acts t pid (PWait u n) \<longleftrightarrow> u = t \<and> n = pid"
| "parent_acts t pid (PWake u) \<longleftrightarrow> u = t"
| "parent_acts t pid (PNew u) \<longleftrightarrow> False"
| "parent_acts t pid (PFork u u') \<longleftrightarrow> False"

lemma zombie_peq: "peq s s' \<Longrightarrow> zombie t p k pid code s' = zombie t p k pid code s"
  by (simp add: zombie_def peq_def)

lemma zombie_start:
  assumes "pinv s" and "zombie t p k pid code s" and "new_slot s = Some i" and "t_process s u = None"
  shows "zombie t p k pid code (eff_start raw u par i s)"
  using assms started_keeps [of s i k _ raw par] by (auto simp: zombie_def pinv_def eff_start_def)

lemma zombie_exit:
  assumes "pinv s" and "zombie t p k pid code s" and "t_process s u = Some q" and "u \<noteq> t"
  shows "zombie t p k pid code ((if b then s else ended q c s)\<lparr>t_process := (t_process s)(u := None)\<rparr>)"
proof -
  have tab: "ptab_ok s" using assms(1) by (simp add: pinv_def)
  have tp: "t_process s t = Some p" using assms(2) by (simp add: zombie_def)
  then have "q \<noteq> p" using ptab_okD(5) [OF tab assms(3), of t] assms(4) by auto
  moreover have "q \<noteq> k" using pinv_running [OF assms(1,3)] assms(2) by (auto simp: zombie_def)
  ultimately show ?thesis using assms(2,4) by (auto simp: zombie_def)
qed

text \<open>A wait changes no process but the one waited for.\<close>

lemma wait_effect_other:
  assumes "pinv s" and "pr_heap s kid = Some kr" and "wait_effect u n kid kr s r s'" and "kid \<noteq> k"
  shows "pr_heap s' k = pr_heap s k" and "t_process s' = t_process s"
proof -
  have tab: "ptab_ok s" using assms(1) by (simp add: pinv_def)
  have i: "MIN_PROCESS \<le> pr_PID kr" "pr_PID kr < MAX_PROCESS" "proctable s ! pr_PID kr = Some kid"
    using ptab_okD(3) [OF tab assms(2)] by (auto simp: proc_ok_def in_table_def)
  have "pr_heap (clear_slot (pr_PID kr) s) k = pr_heap s k" using clear_slot_heap [OF tab i(1,2), of k] i(3) assms(4) by auto
  then show "pr_heap s' k = pr_heap s k" "t_process s' = t_process s"
    using assms(3) by (auto simp: wait_effect_def peq_def split: if_splits)
qed

lemma zombie_wait:
  assumes "pinv s" and "zombie t p k pid code s" and "pr_heap s kid = Some kr" and "wait_effect u n kid kr s r s'" and "kid \<noteq> k"
  shows "zombie t p k pid code s'"
  using assms(2) wait_effect_other [OF assms(1,3-5)] by (simp add: zombie_def)

lemma zombie_other:
  assumes "pinv s" and "zombie t p k pid code s" and "t_process s u = Some q" and "u \<noteq> t"
    and "pr_heap s kid = Some kr" and "pr_parent kr = Some q"
  shows "kid \<noteq> k"
proof -
  have "ptab_ok s" using assms(1) by (simp add: pinv_def)
  then have "q \<noteq> p" using ptab_okD(5) [of s u q t] assms(2-4) by (auto simp: zombie_def)
  then show ?thesis using assms(2,5,6) by (auto simp: zombie_def)
qed

lemma zombie_kept:
  assumes "pinv s" and "zombie t p k pid code s" and "pcall_legal s c" and "\<not> parent_acts t pid c"
  shows "kruns (pcall_run raw c) s (\<lambda>r s'. zombie t p k pid code s')"
proof (cases c)
  case (PNew u)
  have z: "zombie t p k pid code (s\<lparr>proc_lock := l\<rparr>)" for l using assms(2) by (simp add: zombie_def)
  show ?thesis unfolding PNew
    by (rule kruns_mono [OF pcall_new [OF assms(1)]])
      (use assms(3) PNew z in \<open>auto dest!: zombie_peq intro!: zombie_start [OF assms(1,2)] split: option.splits\<close>)
next
  case (PFork u u')
  then have "t_process s u' = None" using assms(3) by simp
  then show ?thesis unfolding PFork
    by (intro kruns_mono [OF pcall_fork [OF assms(1)]])
      (use assms(2) in \<open>auto dest!: zombie_peq intro!: zombie_start [OF assms(1,2)] split: option.splits\<close>)
next
  case (PExit u c')
  then obtain q where q: "t_process s u = Some q" "u \<noteq> t" using assms(3,4) by auto
  from pinv_running [OF assms(1) q(1)] obtain qr where qr: "pr_heap s q = Some qr" by blast
  show ?thesis unfolding PExit
    by (rule kruns_mono [OF pcall_exit [OF assms(1) q(1) qr]]) (use zombie_exit [OF assms(1,2) q] zombie_peq in blast)
next
  case (PWait u n)
  then obtain q where q: "t_process s u = Some q" "t_wait s u = None" "n \<noteq> int MAX_PROCESS" using assms(3) by auto
  show ?thesis unfolding PWait
  proof (rule kruns_mono [OF pcall_wait [OF assms(1) q]])
    fix r s'
    assume post: "case kid_of s n of None \<Rightarrow> wait_refused EAGAIN (Some (-1)) s r s'
      | Some kid \<Rightarrow> (\<exists>kr. pr_heap s kid = Some kr \<and> n = int (pr_PID kr) \<and>
         (if pr_parent kr = Some q then wait_effect u n kid kr s r s' else wait_refused ENOMEM None s r s'))"
    have "kid \<noteq> k" if "pr_heap s kid = Some kr" "n = int (pr_PID kr)" "pr_parent kr = Some q" for kid kr
    proof (cases "u = t")
      case True
      then have "n \<noteq> pid" using assms(4) PWait by simp
      then show ?thesis using that assms(2) by (auto simp: zombie_def)
    next
      case False
      then show ?thesis using zombie_other [OF assms(1,2) q(1) _ that(1,3)] by simp
    qed
    then show "zombie t p k pid code s'"
      using post assms(2) by (auto simp: wait_refused_def dest!: zombie_peq intro: zombie_wait [OF assms(1,2)] split: option.splits if_splits)
  qed
next
  case (PWake u)
  then obtain n kid where w: "t_wait s u = Some (n, kid)" "u \<noteq> t" using assms(3,4) by auto
  have "waits_ok s" using assms(1) by (simp add: pinv_def)
  from waits_okD [OF this w(1)] obtain q kr where k: "t_process s u = Some q" "pr_heap s kid = Some kr" "pr_parent kr = Some q" "n = int (pr_PID kr)" .
  have "kid \<noteq> k" by (rule zombie_other [OF assms(1,2) k(1) w(2) k(2,3)])
  then show ?thesis unfolding PWake
    by (intro kruns_mono [OF pcall_wake [OF assms(1) w(1) k(2)]]) (use zombie_wait [OF assms(1,2) k(2)] in blast)
qed

lemma zombie_steps:
  "psteps raw s cs s' \<Longrightarrow> pinv s \<Longrightarrow> zombie t p k pid code s \<Longrightarrow> \<forall>(c, r)\<in>set cs. \<not> parent_acts t pid c \<Longrightarrow> zombie t p k pid code s'"
proof (induction rule: psteps.induct)
  case (more cs s1 c r s2)
  have "pinv s1" using psteps_pinv [OF more.hyps(1) more.prems(1)] .
  moreover have "zombie t p k pid code s1" using more.IH more.prems by simp
  moreover have "\<not> parent_acts t pid c" using more.prems(3) by simp
  ultimately show ?case using zombie_kept [of s1 t p k pid code c raw] more.hyps(2,3) by (simp add: kruns_def)
qed simp

text \<open>A process that is neither ended nor run by any thread, and has no parent.\<close>

definition leaked :: "nat \<Rightarrow> process \<Rightarrow> 'z psys_scheme \<Rightarrow> bool" where
  "leaked k kr s \<longleftrightarrow> pr_heap s k = Some kr \<and> pr_exit kr = 0 \<and> pr_parent kr = None \<and> (\<forall>t. t_process s t \<noteq> Some k)"

lemma leaked_peq: "peq s s' \<Longrightarrow> leaked k kr s' = leaked k kr s"
  by (simp add: leaked_def peq_def)

lemma leaked_start:
  assumes "pinv s" and "leaked k kr s" and "new_slot s = Some i"
  shows "leaked k kr (eff_start raw u par i s)"
proof -
  have tab: "ptab_ok s" using assms(1) by (simp add: pinv_def)
  then have "pr_heap (started raw i par s) k = Some kr" using started_keeps [OF tab assms(3), of k kr] assms(2) by (simp add: leaked_def)
  moreover have "pr_next s \<noteq> k" using ptab_fresh [OF tab] assms(2) by (auto simp: leaked_def)
  ultimately show ?thesis using assms(2) by (simp add: leaked_def eff_start_def)
qed

lemma leaked_exit:
  assumes "leaked k kr s" and "t_process s u = Some q"
  shows "leaked k kr ((if b then s else ended q c s)\<lparr>t_process := (t_process s)(u := None)\<rparr>)"
proof -
  have "q \<noteq> k" using assms by (auto simp: leaked_def)
  then have "ended_pr q c k kr = kr" using assms(1) by (simp add: ended_pr_def leaked_def)
  then show ?thesis using assms(1) by (auto simp: leaked_def)
qed

lemma leaked_wait:
  assumes "pinv s" and "leaked k kr s" and "pr_heap s kid = Some xr" and "pr_parent xr \<noteq> None" and "wait_effect u n kid xr s r s'"
  shows "leaked k kr s'"
proof -
  have "kid \<noteq> k" using assms(2-4) by (auto simp: leaked_def)
  then show ?thesis using wait_effect_other [OF assms(1,3,5)] assms(2) by (simp add: leaked_def)
qed

lemma leaked_kept:
  assumes "pinv s" and "leaked k kr s" and "pcall_legal s c"
  shows "kruns (pcall_run raw c) s (\<lambda>r s'. leaked k kr s')"
proof (cases c)
  case (PNew u)
  have z: "leaked k kr (s\<lparr>proc_lock := l\<rparr>)" for l using assms(2) by (simp add: leaked_def)
  show ?thesis unfolding PNew
    by (rule kruns_mono [OF pcall_new [OF assms(1)]])
      (use z in \<open>auto dest!: leaked_peq intro!: leaked_start [OF assms(1,2)] split: option.splits\<close>)
next
  case (PFork u u')
  then have "t_process s u' = None" using assms(3) by simp
  then show ?thesis unfolding PFork
    by (intro kruns_mono [OF pcall_fork [OF assms(1)]])
      (use assms(2) in \<open>auto dest!: leaked_peq intro!: leaked_start [OF assms(1,2)] split: option.splits\<close>)
next
  case (PExit u c')
  then obtain q where q: "t_process s u = Some q" using assms(3) by auto
  from pinv_running [OF assms(1) q] obtain qr where qr: "pr_heap s q = Some qr" by blast
  show ?thesis unfolding PExit
    by (rule kruns_mono [OF pcall_exit [OF assms(1) q qr]]) (use leaked_exit [OF assms(2) q] leaked_peq in blast)
next
  case (PWait u n)
  then obtain q where q: "t_process s u = Some q" "t_wait s u = None" "n \<noteq> int MAX_PROCESS" using assms(3) by auto
  show ?thesis unfolding PWait
    by (rule kruns_mono [OF pcall_wait [OF assms(1) q]])
      (use assms(2) in \<open>auto simp: wait_refused_def dest!: leaked_peq intro: leaked_wait [OF assms(1,2)] split: option.splits if_splits\<close>)
next
  case (PWake u)
  then obtain n kid where w: "t_wait s u = Some (n, kid)" using assms(3) by auto
  have "waits_ok s" using assms(1) by (simp add: pinv_def)
  from waits_okD [OF this w] obtain q xr where x: "t_process s u = Some q" "pr_heap s kid = Some xr" "pr_parent xr = Some q" "n = int (pr_PID xr)" .
  show ?thesis unfolding PWake
    by (rule kruns_mono [OF pcall_wake [OF assms(1) w x(2)]]) (use leaked_wait [OF assms(1,2) x(2)] x(3) in auto)
qed

lemma leaked_steps:
  "psteps raw s cs s' \<Longrightarrow> pinv s \<Longrightarrow> leaked k kr s \<Longrightarrow> leaked k kr s'"
proof (induction rule: psteps.induct)
  case (more cs s1 c r s2)
  have "pinv s1" using psteps_pinv [OF more.hyps(1) more.prems(1)] .
  then show ?case using leaked_kept [of s1 k kr c raw] more by (simp add: kruns_def)
qed simp

section \<open>Properties\<close>

text \<open>A booted system without processes, and one with a program (thread 1) and its child (thread 2).\<close>

definition praw :: process where
  "praw = \<lparr>pr_PID = 0, pr_exit_code = 0, pr_exit = 0, pr_exit_cv = CvNull, pr_exit_lock = None, pr_table = None,
     pr_proc_cv = CvNull, pr_fd_lock = None, pr_parent = None\<rparr>"

definition wempty :: wsys where
  "wempty = psys.extend (vsys.extend vdemo
     (psys.fields [] None Map.empty 0 Map.empty 0 Map.empty 0 Map.empty Map.empty)) (wsys.fields Map.empty)"

definition wdemo :: wsys where
  "wdemo = wempty\<lparr>proctable := None # Some 0 # Some 1 # replicate 97 None, proc_lock := Some lock_new,
     pr_heap := [0 \<mapsto> fresh_pr praw 1 None, 1 \<mapsto> fresh_pr praw 2 (Some 0)], pr_next := 2,
     t_process := [1 \<mapsto> 0, 2 \<mapsto> 1]\<rparr>"

lemma wempty_simps [simp]:
  "pr_heap wempty = Map.empty" "t_process wempty = Map.empty" "t_wait wempty = Map.empty" "k_mem wempty = []"
  by (simp_all add: wempty_def vdemo_def fdemo_def fsys.defs vsys.defs psys.defs wsys.defs)

lemma wdemo_simps [simp]:
  "pr_heap wdemo = [0 \<mapsto> fresh_pr praw 1 None, 1 \<mapsto> fresh_pr praw 2 (Some 0)]" "t_process wdemo = [1 \<mapsto> 0, 2 \<mapsto> 1]"
  "t_wait wdemo = Map.empty" "k_mem wdemo = []" "proc_lock wdemo = Some lock_new" "pr_next wdemo = 2"
  "proctable wdemo = None # Some 0 # Some 1 # replicate 97 None"
  by (simp_all add: wdemo_def)

lemma wdemo_pinv: "pinv wdemo"
proof -
  have t: "in_table wdemo p i \<longleftrightarrow> (i = 1 \<and> p = 0) \<or> (i = 2 \<and> p = 1)" for p i
    by (auto simp: in_table_def nth_Cons split: nat.splits)
  show ?thesis by (auto simp: pinv_def ptab_ok_def waits_ok_def proc_ok_def t running_def fresh_pr_def split: if_splits)
qed



text \<open>
  C15: The exit code of a child reaches its parent.  After the child's \<^verbatim>\<open>_exit\<close>, whatever other
  threads do, and whatever else the parent does short of ending or waiting for this child, a
  \<^verbatim>\<open>waitpid\<close> of the parent returns the child's number and code, and frees its slot.  The same
  holds when the parent already sleeps in \<^verbatim>\<open>waitpid\<close> and is woken.
\<close>

theorem exit_code_reaches_parent:
  assumes "pinv s" and "t_process s t = Some p" and "t_process s u = Some k" and "t_wait s u = None"
    and "pr_heap s k = Some kr" and "pr_parent kr = Some p"
    and "pcall_run raw (PExit u code) s = Inr (r1, s1)" and "psteps raw s1 cs s2"
    and "\<forall>(c, r)\<in>set cs. \<not> parent_acts t (int (pr_PID kr)) c"
    and "w = (if t_wait s2 t = None then PWait t (int (pr_PID kr)) else PWake t)"
    and "t_wait s2 t = None \<or> t_wait s2 t = Some (int (pr_PID kr), k)"
  shows "kruns (pcall_run raw w) s2 (\<lambda>r s3. r = PWaited (WRet (int (pr_PID kr)) 0 (Some code)) \<and> proctable s3 ! pr_PID kr = None)"
proof -
  let ?pid = "int (pr_PID kr)"
  let ?e = "ended k code s\<lparr>t_process := (t_process s)(u := None)\<rparr>"
  have tab: "ptab_ok s" using assms(1) by (simp add: pinv_def)
  have kp: "k \<noteq> p" using ptab_okD(3) [OF tab assms(5)] assms(6) by (auto simp: proc_ok_def)
  then have ut: "u \<noteq> t" using assms(2,3) by auto
  have "peq ?e s1" using pcall_exit [OF assms(1,3,5), of raw code] assms(6,7) by (simp add: kruns_def)
  moreover have "pinv ?e" using pinv_exit [OF assms(1,3,4,5), of code] assms(6) by simp
  moreover have "zombie t p k ?pid code ?e" using assms(2,5,6) ut kp by (simp add: zombie_def)
  ultimately have "pinv s1" "zombie t p k ?pid code s1" using peq_pinv zombie_peq by blast+
  then have s2: "pinv s2" "zombie t p k ?pid code s2" using psteps_pinv [OF assms(8)] zombie_steps [OF assms(8)] assms(9) by simp_all
  then obtain zr where z: "t_process s2 t = Some p" "pr_heap s2 k = Some zr" "pr_exit zr = 1" "pr_exit_code zr = code"
    "pr_parent zr = Some p" "pr_PID zr = pr_PID kr" by (auto simp: zombie_def)
  have tab2: "ptab_ok s2" using s2(1) by (simp add: pinv_def)
  have i: "MIN_PROCESS \<le> pr_PID kr" "pr_PID kr < MAX_PROCESS" "proctable s2 ! pr_PID kr = Some k"
    using ptab_okD(3) [OF tab2 z(2)] z(6) by (auto simp: proc_ok_def in_table_def)
  have eff: "r = PWaited (WRet ?pid 0 (Some code)) \<and> proctable s3 ! pr_PID kr = None" if "wait_effect t ?pid k zr s2 r s3" for r s3
    using that z i ptab_okD(1) [OF tab2] by (simp add: wait_effect_def peq_def)
  show ?thesis
  proof (cases "t_wait s2 t")
    case None
    have kid: "kid_of s2 ?pid = Some k" using i by (simp add: kid_of_def)
    show ?thesis unfolding assms(10) if_P [OF None]
      by (rule kruns_mono [OF pcall_wait [OF s2(1) z(1) None]]) (use kid z i eff in auto)
  next
    case (Some x)
    then have w: "t_wait s2 t = Some (?pid, k)" using assms(11) by simp
    show ?thesis unfolding assms(10) using w
      by (simp only: option.distinct if_False) (rule kruns_mono [OF pcall_wake [OF s2(1) w z(2)]], rule eff)
  qed
qed

theorem exit_code_reaches_parent_witness:
  "\<exists>s1. pcall_run praw (PExit 2 7) wdemo = Inr (PEnded, s1) \<and>
     kruns (pcall_run praw (PWait 1 2)) s1 (\<lambda>r s2. r = PWaited (WRet 2 0 (Some 7)) \<and> proctable s2 ! 2 = None)"
proof -
  have "kruns (pcall_run praw (PExit 2 7)) wdemo (\<lambda>r s'. r = PEnded \<and> t_wait s' = Map.empty)"
    by (rule kruns_mono [OF pcall_exit [OF wdemo_pinv, of 2 1 "fresh_pr praw 2 (Some 0)"]])
      (auto simp: peq_def fresh_pr_def)
  then obtain s1 where s1: "pcall_run praw (PExit 2 7) wdemo = Inr (PEnded, s1)" "t_wait s1 = Map.empty" by (auto simp: kruns_iff)
  show ?thesis
    using exit_code_reaches_parent [OF wdemo_pinv _ _ _ _ _ s1(1) psteps.none _ refl, where t = 1 and p = 0 and k = 1 and kr = "fresh_pr praw 2 (Some 0)"] s1
    by (intro exI [of _ s1]) (simp add: fresh_pr_def)
qed

text \<open>
  C37: A process without a parent - a program started by the kernel, or a child whose parent ended
  first - is never marked as ended.  When it ends its slot is lost: whatever happens later, the
  process table still holds the dead process, and the search for a free slot never takes it.
\<close>

theorem orphan_slot_lost:
  assumes "pinv s" and "t_process s t = Some p" and "t_wait s t = None" and "pr_heap s p = Some pr" and "pr_parent pr = None"
    and "pcall_run raw (PExit t code) s = Inr (r1, s1)" and "psteps raw s1 cs s2"
  shows "proctable s2 ! pr_PID pr = Some p \<and> \<not> slot_free s2 (pr_PID pr) \<and> (\<forall>u. t_process s2 u \<noteq> Some p)"
proof -
  let ?e = "s\<lparr>t_process := (t_process s)(t := None)\<rparr>"
  have tab: "ptab_ok s" using assms(1) by (simp add: pinv_def)
  have x: "pr_exit pr = 0" using pinv_running [OF assms(1,2)] assms(4) by simp
  have "t_process ?e u \<noteq> Some p" for u using ptab_okD(5) [OF tab assms(2), of u] by auto
  then have "leaked p pr ?e" using assms(4,5) x by (simp add: leaked_def)
  moreover have "peq ?e s1" using pcall_exit [OF assms(1,2,4), of raw code] assms(5,6) by (simp add: kruns_def)
  moreover have "pinv ?e" using pinv_exit [OF assms(1-4), of code] assms(5) by simp
  ultimately have "pinv s1" "leaked p pr s1" using peq_pinv leaked_peq by blast+
  then have s2: "pinv s2" "leaked p pr s2" using psteps_pinv [OF assms(7)] leaked_steps [OF assms(7)] by simp_all
  then have "proc_ok s2 p pr" using ptab_okD(3) [of s2 p pr] by (simp add: pinv_def leaked_def)
  then show ?thesis using s2(2) by (simp add: leaked_def proc_ok_def in_table_def slot_free_def)
qed

theorem orphan_slot_lost_witness:
  "\<exists>s1. pcall_run praw (PExit 1 0) wdemo = Inr (PEnded, s1) \<and> proctable s1 ! 1 = Some 0 \<and> \<not> slot_free s1 1"
proof -
  have "kruns (pcall_run praw (PExit 1 0)) wdemo (\<lambda>r s'. r = PEnded)"
    by (rule kruns_mono [OF pcall_exit [OF wdemo_pinv, of 1 0 "fresh_pr praw 1 None"]]) auto
  then obtain s1 where s1: "pcall_run praw (PExit 1 0) wdemo = Inr (PEnded, s1)" by (auto simp: kruns_iff)
  show ?thesis
    using orphan_slot_lost [OF wdemo_pinv _ _ _ _ s1 psteps.none, where p = 0 and pr = "fresh_pr praw 1 None"] s1
    by (intro exI [of _ s1]) (simp add: fresh_pr_def)
qed

end
