(* ===== verification/File_Calls.thy ===== *)
theory File_Calls
  imports Syscalls
begin

text \<open>
  What the system calls on files do: descriptors and the files behind them, and reading and
  writing a file of SFS through a descriptor, from the memory of the program to the blocks of the
  disk.
\<close>

section \<open>Model\<close>

definition VOP_READ :: "'z fsys_scheme vop_io" where
  "VOP_READ v u = vop_call v Vop_read (\<lambda>e. (Inl e, u)) (sfs_read v u)"

definition VOP_WRITE :: "'z fsys_scheme vop_io" where
  "VOP_WRITE v u = vop_call v Vop_write (\<lambda>e. (Inl e, u)) (sfs_write v u)"

section \<open>Lemmas\<close>

subsection \<open>The table of the current process\<close>

definition cur_tab :: "'z psys_scheme \<Rightarrow> nat option" where
  "cur_tab s = Option.bind (us_cur s) (\<lambda>t. Option.bind (t_process s t) (\<lambda>p. Option.bind (pr_heap s p) pr_table))"

definition tab_ok :: "'z psys_scheme \<Rightarrow> nat \<Rightarrow> nat option list \<Rightarrow> bool" where
  "tab_ok s a fds \<longleftrightarrow> cur_tab s = Some a \<and> ft_heap s a = Some fds \<and> length fds = MAX_FILE_OPEN"

lemma my_table_ok: "cur_tab s = Some a \<Longrightarrow> my_table s = Inr (Some a, s)"
  by (auto simp: cur_tab_def my_table_def my_process_def cur_process_def kbind_def pr_get_def bind_eq_Some_conv)

lemma fds_get_ok: "tab_ok s a fds \<Longrightarrow> i < MAX_FILE_OPEN \<Longrightarrow> fds_get (Some a) i s = Inr (fds ! i, s)"
  by (simp add: tab_ok_def fds_get_def)

lemma fds_put_ok:
  "tab_ok s a fds \<Longrightarrow> i < MAX_FILE_OPEN \<Longrightarrow> fds_put (Some a) i x s = Inr ((), s\<lparr>ft_heap := (ft_heap s)(a \<mapsto> fds[i := x])\<rparr>)"
  by (simp add: tab_ok_def fds_put_def)

lemma tab_ok_cong:
  assumes "us_cur s' = us_cur s" and "t_process s' = t_process s" and "pr_heap s' = pr_heap s" and "ft_heap s' = ft_heap s"
  shows "tab_ok s' a fds = tab_ok s a fds"
  unfolding tab_ok_def cur_tab_def assms ..

lemma psys_more:
  assumes "fsys.more s' = fsys.more s"
  shows "t_process s' = t_process s" and "pr_heap s' = pr_heap s" and "ft_heap s' = ft_heap s" and "fl_heap s' = fl_heap s"
  using assms by (cases s; cases s'; simp)+

subsection \<open>Calls through the vnode\<close>

text \<open>A vnode of a file that is in use and whose counters nobody works on.\<close>

definition vnode_usable :: "'z fsys_scheme \<Rightarrow> nat \<Rightarrow> bool" where
  "vnode_usable s v \<longleftrightarrow>
     (\<exists>sv. sv_heap s v = Some sv \<and> vn_ops sv = SfsFile \<and> vn_countlock sv = lock_new \<and> vn_refcount sv > 0 \<and> vn_opencount sv \<ge> 0)"

lemma vnode_check_ok:
  assumes "vnode_usable s v"
  shows "vnode_check v False s = Inr ((), s)"
proof -
  from assms obtain sv where sv: "sv_heap s v = Some sv" "vn_countlock sv = lock_new" "vn_refcount sv > 0" "vn_opencount sv \<ge> 0"
    by (auto simp: vnode_usable_def)
  let ?l = "sv\<lparr>vn_countlock := \<lparr>lk_owner = us_cur s\<rparr>\<rparr>"
  let ?s = "s\<lparr>sv_heap := (sv_heap s)(v \<mapsto> ?l)\<rparr>"
  have acq: "vn_acquire v s = Inr ((), ?s)"
    using sv(1,2) by (simp add: vn_acquire_def kbind_def sv_get_def sv_mod_def lock_acquire_def lock_new_def)
  have "?l\<lparr>vn_countlock := lock_new\<rparr> = sv" using sv(2) by (cases sv) simp
  then have "s\<lparr>sv_heap := (sv_heap s)(v \<mapsto> ?l\<lparr>vn_countlock := lock_new\<rparr>)\<rparr> = s" using sv(1) by (simp add: fun_upd_idem)
  then have rel: "vn_release v ?s = Inr ((), s)"
    by (simp add: vn_release_def kbind_def sv_get_def sv_mod_def lock_release_def lock_do_i_hold_def lock_new_def)
  have "sv_get v ?s = Inr (?l, ?s)" by (simp add: sv_get_def)
  then show ?thesis using acq rel sv(3,4) by (simp add: vnode_check_def kbind_def)
qed

lemma vop_call_ok:
  assumes "vnode_usable s v" and "op \<noteq> Vop_reclaim" and "sfs_fileops op = None"
  shows "vop_call v op fail f s = f s"
  using assms vnode_check_ok [OF assms(1)] by (auto simp: vop_call_def kbind_def vnode_usable_def sv_get_def)

lemma VOP_READ_ok: "vnode_usable s v \<Longrightarrow> uio_rw u = UIO_READ \<Longrightarrow> VOP_READ v u s = sfs_io v u s"
  by (simp add: VOP_READ_def vop_call_ok sfs_read_def kbind_def kassert_def)

lemma VOP_WRITE_ok: "vnode_usable s v \<Longrightarrow> uio_rw u = UIO_WRITE \<Longrightarrow> VOP_WRITE v u s = sfs_io v u s"
  by (simp add: VOP_WRITE_def vop_call_ok sfs_write_def kbind_def kassert_def)

subsection \<open>Reading and writing\<close>

text \<open>Descriptor \<open>fd\<close> of the current process stands for the open file \<open>f\<close>.\<close>

definition open_as :: "'z psys_scheme \<Rightarrow> int \<Rightarrow> nat \<Rightarrow> kfile \<Rightarrow> bool" where
  "open_as s fd f fl \<longleftrightarrow> 0 \<le> fd \<and> fd < int MAX_FILE_OPEN \<and> fl_heap s f = Some fl \<and> (\<exists>a fds. tab_ok s a fds \<and> fds ! nat fd = Some f)"

lemma open_asD:
  assumes "open_as s fd f fl"
  obtains a where "my_table s = Inr (Some a, s)" and "fds_get (Some a) (nat fd) s = Inr (Some f, s)" and "fl_get f s = Inr (fl, s)"
proof -
  from assms obtain a fds where a: "tab_ok s a fds" "fds ! nat fd = Some f" by (auto simp: open_as_def)
  have "my_table s = Inr (Some a, s)" using a(1) by (simp add: my_table_ok tab_ok_def)
  moreover have "fds_get (Some a) (nat fd) s = Inr (Some f, s)" 
    using fds_get_ok [OF a(1), of "nat fd"] a(2) assms by (auto simp: open_as_def nat_less_iff)
  moreover have "fl_get f s = Inr (fl, s)" using assms by (simp add: open_as_def fl_get_def)
  ultimately show thesis using that by blast
qed

lemma open_as_more:
  assumes "open_as s fd f fl" and "fsys.more s' = fsys.more s" and "us_cur s' = us_cur s"
  shows "open_as s' fd f fl"
  using assms(1) tab_ok_cong [of s' s] psys_more [OF assms(2)] assms(3) by (simp add: open_as_def)

lemma set_offset_ok:
  assumes "open_as s fd f fl"
  shows "set_offset (nat fd) off s = Inr ((), s\<lparr>fl_heap := (fl_heap s)(f \<mapsto> fl\<lparr>fl_offset := off\<rparr>)\<rparr>)"
proof (rule open_asD [OF assms])
  fix a
  assume "my_table s = Inr (Some a, s)" "fds_get (Some a) (nat fd) s = Inr (Some f, s)"
  then show ?thesis using assms by (simp add: set_offset_def kbind_def fl_mod_def open_as_def)
qed

lemma sys_read_run:
  assumes "open_as s fd f fl" and "fl_flag fl \<noteq> O_WRONLY" and "buf \<noteq> 0"
  shows "sys_read vop_read fd buf nbytes s =
     kbind (vop_read (fl_vn fl) (mk_kuio None buf nbytes (fl_offset fl) UIO_READ)) (\<lambda>(r, u).
     case r of
       Inl e \<Rightarrow> kret (Inl e)
     | Inr _ \<Rightarrow> kbind (set_offset (nat fd) (uio_offset u)) (\<lambda>_. kret (Inr (to_off (int nbytes - int (uio_resid u)))))) s"
proof (rule open_asD [OF assms(1)])
  fix a
  assume "my_table s = Inr (Some a, s)" "fds_get (Some a) (nat fd) s = Inr (Some f, s)" "fl_get f s = Inr (fl, s)"
  then show ?thesis using assms unfolding sys_read_def by (simp add: kbind_def [of my_table] kbind_def [of "fds_get x i" for x i] kbind_def [of "fl_get f"] open_as_def)
qed

lemma sys_write_run:
  assumes "open_as s fd f fl" and "fl_flag fl \<noteq> O_RDONLY" and "buf \<notin> {0, 1073741824, 2147483648}"
  shows "sys_write vop_write fd buf nbytes s =
     kbind (vop_write (fl_vn fl) (mk_kuio None buf nbytes (fl_offset fl) UIO_WRITE)) (\<lambda>(r, u).
     case r of
       Inl e \<Rightarrow> kret (Inl e)
     | Inr _ \<Rightarrow> kbind (set_offset (nat fd) (uio_offset u)) (\<lambda>_. kret (Inr (to_off (int nbytes - int (uio_resid u)))))) s"
proof (rule open_asD [OF assms(1)])
  fix a
  assume "my_table s = Inr (Some a, s)" "fds_get (Some a) (nat fd) s = Inr (Some f, s)" "fl_get f s = Inr (fl, s)"
  then show ?thesis using assms unfolding sys_write_def by (simp add: kbind_def [of my_table] kbind_def [of "fds_get x i" for x i] kbind_def [of "fl_get f"] open_as_def)
qed

lemma quiet_more: "quiet s s' \<Longrightarrow> fsys.more s' = fsys.more s \<and> us_cur s' = us_cur s \<and> us_bytes s' = us_bytes s"
  by (auto simp: quiet_def rd_def)

lemma mput_more [simp]: "fsys.more (mput bs u s) = fsys.more s" "us_cur (mput bs u s) = us_cur s"
  by (simp_all add: mput_def split: option.split)

subsection \<open>Opening and closing\<close>

definition lowest_free :: "nat option list \<Rightarrow> nat" where
  "lowest_free fds = length (takeWhile (\<lambda>x. x \<noteq> None) fds)"

lemma lowest_free_props:
  "i < lowest_free fds \<Longrightarrow> fds ! i \<noteq> None" "None \<in> set fds \<longleftrightarrow> lowest_free fds < length fds"
  "lowest_free fds < length fds \<Longrightarrow> fds ! lowest_free fds = None"
proof -
  show "i < lowest_free fds \<Longrightarrow> fds ! i \<noteq> None"
    unfolding lowest_free_def by (metis (mono_tags) nth_mem set_takeWhileD takeWhile_nth)
  show "lowest_free fds < length fds \<Longrightarrow> fds ! lowest_free fds = None"
    unfolding lowest_free_def using nth_length_takeWhile by fastforce
  show "None \<in> set fds \<longleftrightarrow> lowest_free fds < length fds" unfolding lowest_free_def by (induction fds) auto
qed

lemma fd_free_from:
  assumes "ft_heap s a = Some fds" and "length fds = MAX_FILE_OPEN" and "j \<le> lowest_free fds" and "j \<le> MAX_FILE_OPEN"
  shows "fd_free (Some a) [j..<MAX_FILE_OPEN] s = Inr (lowest_free fds, s)"
  using assms(3,4)
proof (induction "MAX_FILE_OPEN - j" arbitrary: j)
  case 0
  then have "j = MAX_FILE_OPEN" "lowest_free fds = MAX_FILE_OPEN"
    using length_takeWhile_le [of "\<lambda>x. x \<noteq> None" fds] assms(2) by (simp_all add: lowest_free_def)
  then show ?case by simp
next
  case (Suc n)
  then have j: "j < MAX_FILE_OPEN" by simp
  have get: "fds_get (Some a) j s = Inr (fds ! j, s)" using assms(1,2) j by (simp add: fds_get_def)
  have c: "[j..<MAX_FILE_OPEN] = j # [Suc j..<MAX_FILE_OPEN]" using j by (rule upt_conv_Cons)
  show ?case
  proof (cases "j = lowest_free fds")
    case True
    then have "fds ! j = None" using lowest_free_props(3) [of fds] j assms(2) by simp
    then show ?thesis unfolding c using get True by (simp add: kbind_def)
  next
    case False
    then have "fds ! j \<noteq> None" "Suc j \<le> lowest_free fds" using lowest_free_props(1) Suc.prems(1) by simp_all
    moreover have "n = MAX_FILE_OPEN - Suc j" using Suc(2) by linarith
    ultimately have "fd_free (Some a) [Suc j..<MAX_FILE_OPEN] s = Inr (lowest_free fds, s)" using Suc(1) [of "Suc j"] j by simp
    then show ?thesis unfolding c using get \<open>fds ! j \<noteq> None\<close> by (auto simp: kbind_def)
  qed
qed

lemma fd_free_ok: "tab_ok s a fds \<Longrightarrow> fd_free (Some a) [0..<MAX_FILE_OPEN] s = Inr (lowest_free fds, s)"
  using fd_free_from [of s a fds 0] by (simp add: tab_ok_def)

definition opened :: "kfile \<Rightarrow> int \<Rightarrow> 'z psys_scheme \<Rightarrow> 'z psys_scheme" where
  "opened raw flag s =
     s\<lparr>fl_heap := (fl_heap s)(fl_next s \<mapsto> raw\<lparr>fl_flag := flag, fl_offset := 0, fl_ref_count := 1\<rparr>), fl_next := Suc (fl_next s)\<rparr>"

lemma opened_tab: "tab_ok (opened raw flag s) a fds = tab_ok s a fds"
  by (rule tab_ok_cong) (simp_all add: opened_def)

lemma sys_close_ok:
  assumes "open_as s fd f fl" and "tab_ok s a fds"
  shows "sys_close vfs_close fd s = kbind (fd_drop vfs_close (Some a) (nat fd) f) (\<lambda>_. kret 0) s"
proof -
  from assms have i: "nat fd < MAX_FILE_OPEN" "fds ! nat fd = Some f" "0 \<le> fd" "fd < int MAX_FILE_OPEN"
    by (auto simp: open_as_def tab_ok_def nat_less_iff)
  have "my_table s = Inr (Some a, s)" using assms(2) by (simp add: my_table_ok tab_ok_def)
  moreover have "fds_get (Some a) (nat fd) s = Inr (Some f, s)" using fds_get_ok [OF assms(2) i(1)] i(2) by simp
  ultimately show ?thesis using i by (simp add: sys_close_def fd_table_close_def fd_table_get_def kbindE_def kbind_def split: sum.split)
qed

text \<open>
  A process whose descriptor 0 is open, at position 2, on the file of the demonstration volume.
\<close>

definition pfdemo :: psys where
  "pfdemo = vsys.extend vdemo (psys.fields [] None
     [0 \<mapsto> \<lparr>pr_PID = 1, pr_exit_code = 0, pr_exit = 0, pr_exit_cv = CvLive, pr_exit_lock = Some lock_new, pr_table = Some 0,
        pr_proc_cv = CvLive, pr_fd_lock = Some lock_new, pr_parent = None\<rparr>] 1
     [0 \<mapsto> Some 0 # replicate 19 None] 1
     [0 \<mapsto> \<lparr>fl_permission = 0, fl_offset = 2, fl_ref_count = 1, fl_flag = 2, fl_vn = 0\<rparr>] 1
     [1 \<mapsto> 0] Map.empty)"

lemma pfdemo_fs:
  "d_media pfdemo = d_media fdemo" "d_blocks pfdemo = d_blocks fdemo" "sv_heap pfdemo = sv_heap fdemo" "sv_next pfdemo = sv_next fdemo"
  "sfs_vnodes pfdemo = sfs_vnodes fdemo" "sfs_super pfdemo = sfs_super fdemo" "sfs_freemap pfdemo = sfs_freemap fdemo"
  "lh_clear pfdemo = lh_clear fdemo" "lh_done pfdemo = lh_done fdemo" "lh_buf pfdemo = lh_buf fdemo" "d_replies pfdemo = d_replies fdemo"
  by (simp_all add: pfdemo_def vdemo_def fdemo_def fsys.defs vsys.defs psys.defs)

lemma pfdemo_ok: "fs_ok {3} pfdemo" "fbyte pfdemo = fbyte fdemo" "vlist pfdemo = [0]" "sv_at pfdemo = sv_at fdemo"
proof -
  have a: "sv_at pfdemo = sv_at fdemo" "vlist pfdemo = vlist fdemo" by (simp_all add: fun_eq_iff sv_at_def vlist_def pfdemo_fs)
  have b: "inode_of pfdemo = inode_of fdemo" by (simp add: fun_eq_iff inode_of_def a pfdemo_fs)
  have c: "oslot pfdemo = oslot fdemo" by (simp add: fun_eq_iff oslot_def b pfdemo_fs)
  have d: "meta_blocks pfdemo = meta_blocks fdemo" by (simp add: meta_blocks_def pfdemo_fs)
  have e: "data_blocks pfdemo = data_blocks fdemo" by (simp add: data_blocks_def d pfdemo_fs)
  show "fs_ok {3} pfdemo" using fdemo_ok
    unfolding fs_ok_def disk_ok_def drv_ok_def map_ok_def vtab_ok_def a b c d e pfdemo_fs .
  show "fbyte pfdemo = fbyte fdemo" by (intro ext) (simp only: fbyte_def c pfdemo_fs)
  show "vlist pfdemo = [0]" "sv_at pfdemo = sv_at fdemo" using a by simp_all
qed

definition fldemo :: kfile where
  "fldemo = \<lparr>fl_permission = 0, fl_offset = 2, fl_ref_count = 1, fl_flag = 2, fl_vn = 0\<rparr>"

lemma pfdemo_open: "open_as pfdemo 0 0 fldemo" "vnode_usable pfdemo 0" "us_wr pfdemo x" "us_rd pfdemo x" "us_bytes pfdemo x = 0" "fl_heap pfdemo = [0 \<mapsto> fldemo]"
  by (simp_all add: open_as_def tab_ok_def cur_tab_def vnode_usable_def pfdemo_def vdemo_def fdemo_def fldemo_def fsys.defs vsys.defs psys.defs)

section \<open>Properties\<close>

text \<open>
  C12: \<^verbatim>\<open>read\<close> on an open file of SFS copies the bytes of the file from the position of the
  descriptor, up to the end of the file, to the memory at \<open>buf\<close>, returns their number and moves the
  position on by as much; no other memory, file or descriptor changes.  Nothing keeps \<open>buf\<close> below
  \<^verbatim>\<open>USERTOP\<close>: a program can make the kernel overwrite itself.
\<close>

theorem sys_read_file:
  assumes "open_as s fd f fl" and "fl_flag fl \<noteq> O_WRONLY" and "fs_ok I s" and "fl_vn fl \<in> set (vlist s)" and "vnode_usable s (fl_vn fl)"
    and "0 \<le> fl_offset fl" and "fl_offset fl + int nbytes < 2147483648" and "fsize s (fl_vn fl) \<le> MAXBLOCKS * 512"
    and "buf \<noteq> 0" and "\<forall>x. buf \<le> x \<and> x < buf + nbytes \<longrightarrow> us_wr s x"
    and "n = min nbytes (fsize s (fl_vn fl) - nat (fl_offset fl))"
  shows "kruns (sys_read VOP_READ fd buf nbytes) s (\<lambda>r s'. r = Inr (int n) \<and>
     us_bytes s' = (\<lambda>x. if buf \<le> x \<and> x < buf + n then fbyte s (ino_of s (fl_vn fl)) (nat (fl_offset fl) + (x - buf)) else us_bytes s x) \<and>
     fl_heap s' = (fl_heap s)(f \<mapsto> fl\<lparr>fl_offset := fl_offset fl + int n\<rparr>) \<and> ft_heap s' = ft_heap s \<and>
     fs_ok I s' \<and> fbyte s' = fbyte s)"
proof -
  let ?v = "fl_vn fl"
  let ?u = "mk_kuio None buf nbytes (fl_offset fl) UIO_READ"
  let ?bs = "fbytes s (ino_of s ?v) (nat (fl_offset fl)) n"
  have rdy: "uready s ?u (uio_resid ?u)" using assms(10) by (simp add: uready_def mk_kuio_def)
  have "kruns (sfs_io ?v ?u) s (sent ?v n ?u s)"
    using sfs_io_read [OF assms(3,4) _ rdy] assms(6-8,11) by (simp add: mk_kuio_def)
  then obtain ru s1 where r1: "VOP_READ ?v ?u s = Inr (ru, s1)" "sent ?v n ?u s ru s1"
    using VOP_READ_ok [OF assms(5), of ?u] that by (auto simp: kruns_iff mk_kuio_def)
  from r1(2) obtain q where q: "quiet s q" "s1 = mput ?bs ?u q" "ru = (Inr (), usend ?bs ?u)"
    by (auto simp: sent_def Let_def mk_kuio_def)
  have sd: "fs_ok I s1" "fbyte s1 = fbyte s" using sentD(2,5) [of ?v n ?u s "fst ru" "snd ru" s1 I] r1(2) assms(3,6) by (simp_all add: mk_kuio_def)
  have u: "uio_resid (usend ?bs ?u) = nbytes - n" "uio_offset (usend ?bs ?u) = fl_offset fl + int n"
    using sentD(6,7) [of ?v n ?u s "Inr ()" "usend ?bs ?u" s1 I] r1(2) q(3) assms(3,6) by (simp_all add: mk_kuio_def)
  have more: "fsys.more s1 = fsys.more s" "us_cur s1 = us_cur s" using quiet_more [OF q(1)] q(2) by simp_all
  note o1 = open_as_more [OF assms(1) more]
  have bytes: "us_bytes s1 = (\<lambda>x. if buf \<le> x \<and> x < buf + n then fbyte s (ino_of s ?v) (nat (fl_offset fl) + (x - buf)) else us_bytes s x)"
    unfolding q(2) using quiet_more [OF q(1)] by (auto simp: mput_def mk_kuio_def fbytes_def fun_eq_iff)
  have n: "n \<le> nbytes" "to_off (int nbytes - int (nbytes - n)) = int n" using assms(6,7,11) by (simp_all add: to_off_def)
  let ?s2 = "s1\<lparr>fl_heap := (fl_heap s1)(f \<mapsto> fl\<lparr>fl_offset := fl_offset fl + int n\<rparr>)\<rparr>"
  have "disk_ok ?s2" using sd(1) by (simp add: fs_ok_def disk_ok_def drv_ok_def)
  then have "fs_ok I ?s2" "fbyte ?s2 = fbyte s1" by (rule fs_ok_same [OF sd(1)]; simp)+
  then show ?thesis unfolding kruns_iff sys_read_run [OF assms(1,2,9)]
    using r1(1) q(3) u set_offset_ok [OF o1] bytes psys_more [OF more(1)] n sd(2)
    by (intro exI [of _ "Inr (int n)"] exI [of _ ?s2]) (simp add: kbind_def)
qed

theorem sys_read_file_witness:
  "\<exists>s'. sys_read VOP_READ 0 4096 8 pfdemo = Inr (Inr 3, s') \<and>
     map (us_bytes s') [4096..<4100] = [108, 108, 111, 0] \<and> fl_offset (the (fl_heap s' 0)) = 5"
proof -
  have "kruns (sys_read VOP_READ 0 4096 8) pfdemo (\<lambda>r s'. r = Inr (int 3) \<and>
     us_bytes s' = (\<lambda>x. if 4096 \<le> x \<and> x < 4096 + 3 then fbyte pfdemo (ino_of pfdemo (fl_vn fldemo)) (nat (fl_offset fldemo) + (x - 4096)) else us_bytes pfdemo x) \<and>
     fl_heap s' = (fl_heap pfdemo)(0 \<mapsto> fldemo\<lparr>fl_offset := fl_offset fldemo + int 3\<rparr>) \<and> ft_heap s' = ft_heap pfdemo \<and>
     fs_ok {3} s' \<and> fbyte s' = fbyte pfdemo)"
    by (rule sys_read_file) (use pfdemo_ok pfdemo_open in \<open>simp_all add: fldemo_def\<close>)
  moreover have "[4096..<4100] = [4096, 4097, 4098, 4099 :: nat]" by (simp add: upt_rec)
  moreover have "[fbyte fdemo 3 2, fbyte fdemo 3 3, fbyte fdemo 3 4] = [108, 108, 111]"
    using fdemo_bytes by (simp add: fbytes_def upt_rec)
  ultimately show ?thesis by (auto simp: kruns_iff pfdemo_ok pfdemo_open fldemo_def)
qed

text \<open>
  C13: \<^verbatim>\<open>write\<close> on an open file of SFS puts the bytes of the memory at \<open>buf\<close> into the file at the
  position of the descriptor, returns their number, moves the position on and lets the size of the
  file cover them; or it runs out of blocks, or the file would get too big, and the position stays.
  Other files and the memory of the program keep their contents, and the volume stays consistent.
\<close>

theorem sys_write_file:
  assumes "open_as s fd f fl" and "fl_flag fl \<noteq> O_RDONLY" and "fs_ok I s" and "fl_vn fl \<in> set (vlist s)" and "vnode_usable s (fl_vn fl)"
    and "0 \<le> fl_offset fl" and "fl_offset fl + int nbytes < 2147483648" and "fsize s (fl_vn fl) < 2147483648" and "0 < nbytes"
    and "buf \<notin> {0, 1073741824, 2147483648}" and "\<forall>x. buf \<le> x \<and> x < buf + nbytes \<longrightarrow> us_rd s x"
    and "ino = ino_of s (fl_vn fl)" and "off = nat (fl_offset fl)"
  shows "kruns (sys_write VOP_WRITE fd buf nbytes) s (\<lambda>r s'.
     fs_ok I s' \<and> us_bytes s' = us_bytes s \<and> (\<forall>jno\<in>I. jno \<noteq> ino \<longrightarrow> (\<forall>p. fbyte s' jno p = fbyte s jno p)) \<and>
     (r = Inr (int nbytes) \<and> fbyte s' ino = overlay off (map (us_bytes s) [buf..<buf + nbytes]) (fbyte s ino) \<and>
      fsize s' (fl_vn fl) = max (fsize s (fl_vn fl)) (off + nbytes) \<and>
      fl_heap s' = (fl_heap s)(f \<mapsto> fl\<lparr>fl_offset := fl_offset fl + int nbytes\<rparr>) \<or>
      (r = Inl ENOSPC \<or> r = Inl EINVAL \<and> MAXBLOCKS * 512 < off + nbytes) \<and> fl_heap s' = fl_heap s))"
proof -
  let ?v = "fl_vn fl"
  let ?u = "mk_kuio None buf nbytes (fl_offset fl) UIO_WRITE"
  have rdy: "uready s ?u (uio_resid ?u)" using assms(11) by (simp add: uready_def mk_kuio_def)
  have "kruns (sfs_io ?v ?u) s (stored I ?v nbytes ?u s)"
    using sfs_io_write [OF assms(3,4) _ rdy] assms(6-9) by (simp add: mk_kuio_def)
  then obtain ru s1 where r1: "VOP_WRITE ?v ?u s = Inr (ru, s1)" "stored I ?v nbytes ?u s ru s1"
    using VOP_WRITE_ok [OF assms(5), of ?u] that by (auto simp: kruns_iff mk_kuio_def)
  from r1(2) obtain m r where st: "ru = (r, uskip m ?u)" "m \<le> nbytes" "fs_ok I s1" "same_env s s1"
    "r = Inr () \<and> m = nbytes \<or> r = Inl ENOSPC \<or> r = Inl EINVAL \<and> MAXBLOCKS * 512 < off + nbytes"
    "fbyte s1 ino = overlay off (uget m ?u s) (fbyte s ino)" "fsize s1 ?v = max (fsize s ?v) (off + m)"
    "\<forall>jno\<in>I. jno \<noteq> ino \<longrightarrow> (\<forall>p. fbyte s1 jno p = fbyte s jno p)"
    unfolding stored_def using assms(12,13) by (auto simp: mk_kuio_def)
  have more: "fsys.more s1 = fsys.more s" "us_cur s1 = us_cur s" "us_bytes s1 = us_bytes s" using st(4) by (simp_all add: same_env_def)
  note o1 = open_as_more [OF assms(1) more(1,2)]
  have fl: "fl_heap s1 = fl_heap s" by (rule psys_more(4) [OF more(1)])
  show ?thesis
  proof (cases r)
    case (Inl e)
    then show ?thesis unfolding kruns_iff sys_write_run [OF assms(1,2,10)]
      using r1(1) st more(3) fl by (intro exI [of _ "Inl e"] exI [of _ s1]) (auto simp: kbind_def)
  next
    case (Inr x)
    then have m: "m = nbytes" using st(5) by auto
    have u: "uio_resid (uskip m ?u) = 0" "uio_offset (uskip m ?u) = fl_offset fl + int nbytes" "uget m ?u s = map (us_bytes s) [buf..<buf + nbytes]"
      using m assms(6,7) by (simp_all add: uskip_def mk_kuio_def uget_def uat_def)
    have n: "to_off (int nbytes) = int nbytes" using assms(6,7) by (simp add: to_off_def)
    let ?s2 = "s1\<lparr>fl_heap := (fl_heap s1)(f \<mapsto> fl\<lparr>fl_offset := fl_offset fl + int nbytes\<rparr>)\<rparr>"
    have "disk_ok ?s2" using st(3) by (simp add: fs_ok_def disk_ok_def drv_ok_def)
    then have "fs_ok I ?s2" "fbyte ?s2 = fbyte s1" by (rule fs_ok_same [OF st(3)]; simp)+
    moreover have "fsize ?s2 ?v = fsize s1 ?v" by (simp add: sv_at_def)
    ultimately show ?thesis unfolding kruns_iff sys_write_run [OF assms(1,2,10)]
      using r1(1) st(1,6-8) m u n more(3) fl Inr set_offset_ok [OF o1]
      by (intro exI [of _ "Inr (int nbytes)"] exI [of _ ?s2]) (simp add: kbind_def)
  qed
qed

theorem sys_write_file_witness:
  "\<exists>r s'. sys_write VOP_WRITE 0 4096 4 pfdemo = Inr (r, s') \<and> fs_ok {3} s' \<and>
     (r = Inr 4 \<and> fsize s' 0 = 6 \<and> fbyte s' 3 1 = 101 \<and> fbyte s' 3 2 = 0 \<or> r = Inl ENOSPC \<and> fl_heap s' = [0 \<mapsto> fldemo])"
proof -
  have "kruns (sys_write VOP_WRITE 0 4096 4) pfdemo (\<lambda>r s'.
     fs_ok {3} s' \<and> us_bytes s' = us_bytes pfdemo \<and> (\<forall>jno\<in>{3}. jno \<noteq> 3 \<longrightarrow> (\<forall>p. fbyte s' jno p = fbyte pfdemo jno p)) \<and>
     (r = Inr (int 4) \<and> fbyte s' 3 = overlay 2 (map (us_bytes pfdemo) [4096..<4096 + 4]) (fbyte pfdemo 3) \<and>
      fsize s' (fl_vn fldemo) = max (fsize pfdemo (fl_vn fldemo)) (2 + 4) \<and>
      fl_heap s' = (fl_heap pfdemo)(0 \<mapsto> fldemo\<lparr>fl_offset := fl_offset fldemo + int 4\<rparr>) \<or>
      (r = Inl ENOSPC \<or> r = Inl EINVAL \<and> MAXBLOCKS * 512 < 2 + (4 :: nat)) \<and> fl_heap s' = fl_heap pfdemo))"
    by (rule sys_write_file) (use pfdemo_ok pfdemo_open in \<open>simp_all add: fldemo_def\<close>)
  moreover have "fbyte fdemo 3 1 = 101"
    using fdemo_slot [of "fplace 0"] by (simp add: fbyte_def fplace_def Let_def)
  ultimately show ?thesis by (auto simp: kruns_iff pfdemo_ok pfdemo_open fldemo_def overlay_def)
qed


definition fdsdemo :: "nat option list" where
  "fdsdemo = Some 0 # replicate 19 None"

lemma fdsdemo_tab: "tab_ok pfdemo 0 fdsdemo" "k_mem pfdemo = []" "fl_next pfdemo = 1"
  by (simp_all add: fdsdemo_def tab_ok_def cur_tab_def pfdemo_def vdemo_def fdemo_def fsys.defs vsys.defs psys.defs)




text \<open>
  A child that cannot start reports an error number to its parent, who takes it for a process number.
\<close>

theorem fork_error_is_pid:
  assumes "k_mem s = []" and "thread_fork s = Inr (Inr t, s1)" and "child t s1 = Inr (errno_code e, s2)"
  shows "sys_fork thread_fork child s = Inr ((0, errno_code e), s2)"
proof -
  have "errno_code e > 0" by (cases e) simp_all
  then show ?thesis using assms by (simp add: sys_fork_def kbind_def kalloc_def)
qed

end
