(* ===== verification/Program_Args.thy ===== *)
theory Program_Args
  imports Syscalls
begin

text \<open>
  The arguments of a new program: what \<^verbatim>\<open>runprogram\<close> and \<^verbatim>\<open>execv\<close> put on the stack is an
  argument vector that reads back as the strings that were passed.
\<close>

section \<open>Lemmas\<close>

subsection \<open>Stores into user memory\<close>

definition poke :: "nat \<Rightarrow> byte list \<Rightarrow> 'z psys_scheme \<Rightarrow> 'z psys_scheme" where
  "poke a bs s =
     s\<lparr>us_bytes := \<lambda>x. if a \<le> x \<and> x < a + length bs then bs ! (x - a) else us_bytes s x, us_badfault := False\<rparr>"

definition holds :: "'z psys_scheme \<Rightarrow> nat \<Rightarrow> byte list \<Rightarrow> bool" where
  "holds s a bs \<longleftrightarrow> (\<forall>i<length bs. us_bytes s (a + i) = bs ! i)"

text \<open>Between the two states only user memory from \<open>lo\<close> up to \<open>hi\<close> was written.\<close>

definition touched :: "nat \<Rightarrow> nat \<Rightarrow> 'z psys_scheme \<Rightarrow> 'z psys_scheme \<Rightarrow> bool" where
  "touched lo hi s s' \<longleftrightarrow> (\<exists>b f. s' = s\<lparr>us_bytes := f, us_badfault := b\<rparr>) \<and> (\<forall>x. x < lo \<or> hi \<le> x \<longrightarrow> us_bytes s' x = us_bytes s x)"

lemma poke_simps [simp]: "us_wr (poke a bs s) = us_wr s" "us_rd (poke a bs s) = us_rd s" "k_mem (poke a bs s) = k_mem s"
  by (simp_all add: poke_def)

lemma poke_holds: "holds (poke a bs s) a bs"
  by (simp add: holds_def poke_def)

lemma poke_touched: "lo \<le> a \<Longrightarrow> a + length bs \<le> hi \<Longrightarrow> touched lo hi s (poke a bs s)"
  by (auto simp: touched_def poke_def)

lemma touched_refl: "touched lo hi s s"
proof -
  have "s = s\<lparr>us_bytes := us_bytes s, us_badfault := us_badfault s\<rparr>" by simp
  then show ?thesis unfolding touched_def by blast
qed

lemma touched_trans:
  assumes "touched lo hi s s'" and "touched lo' hi' s' s''" and "l \<le> lo" "l \<le> lo'" "hi \<le> h" "hi' \<le> h"
  shows "touched l h s s''"
proof -
  have "\<exists>b f. s'' = s\<lparr>us_bytes := f, us_badfault := b\<rparr>" using assms(1,2) unfolding touched_def by (elim conjE exE) (simp, blast)
  moreover have "us_bytes s'' x = us_bytes s x" if "x < l \<or> h \<le> x" for x
    using that assms unfolding touched_def by (metis (no_types, lifting) le_trans less_le_trans)
  ultimately show ?thesis by (simp add: touched_def)
qed

lemma touchedD:
  assumes "touched lo hi s s'"
  shows "us_wr s' = us_wr s" and "us_rd s' = us_rd s" and "k_mem s' = k_mem s"
  using assms by (auto simp: touched_def)

lemma touched_holds:
  assumes "touched lo hi s s'" and "holds s a bs" and "a + length bs \<le> lo \<or> hi \<le> a"
  shows "holds s' a bs"
  using assms unfolding holds_def touched_def by (metis (no_types, lifting) add_less_cancel_left le_add1 le_trans less_le_trans)

lemma holds_append: "holds s a (xs @ ys) \<longleftrightarrow> holds s a xs \<and> holds s (a + length xs) ys"
proof
  assume h: "holds s a (xs @ ys)"
  have "us_bytes s (a + i) = xs ! i" if "i < length xs" for i using h that by (auto simp: holds_def nth_append)
  moreover have "us_bytes s (a + length xs + i) = ys ! i" if "i < length ys" for i
    using h [unfolded holds_def, rule_format, of "length xs + i"] that by (simp add: add.assoc)
  ultimately show "holds s a xs \<and> holds s (a + length xs) ys" by (simp add: holds_def)
next
  assume h: "holds s a xs \<and> holds s (a + length xs) ys"
  have "us_bytes s (a + i) = (xs @ ys) ! i" if "i < length (xs @ ys)" for i
  proof (cases "i < length xs")
    case False
    then obtain j where "i = length xs + j" using le_Suc_ex not_less by blast
    then show ?thesis using h that by (simp add: holds_def add.assoc)
  qed (use h in \<open>simp add: holds_def nth_append\<close>)
  then show "holds s a (xs @ ys)" by (simp add: holds_def)
qed

lemma enc32s_append: "enc32s (xs @ ys) = enc32s xs @ enc32s ys"
  by (simp add: enc32s_def)

lemma copyout_poke:
  assumes "0 < length bs" and "a + length bs \<le> USERTOP" and "\<forall>x. a \<le> x \<and> x < a + length bs \<longrightarrow> us_wr s x"
  shows "copyout bs 0 a (length bs) s = Inr (Inr (), poke a bs s)"
  using assms copycheck_len [of a "length bs"] reach_all [of a "length bs" "us_wr s"]
  by (simp add: copyout_def poke_def mem_store_def Let_def)

lemma copyoutstr_poke:
  assumes "0 \<notin> set w" and "a + (length w + 1) \<le> USERTOP" and "\<forall>x. a \<le> x \<and> x < a + (length w + 1) \<longrightarrow> us_wr s x"
  shows "copyoutstr (w @ [0]) a (length w + 1) s = Inr (Inr (length w + 1), poke a (w @ [0]) s)"
proof -
  have "copystr_out 0 a (w @ [0]) (length w + 1) (length w + 1) s =
     Inr (Some (Inr (length w + 1)),
       s\<lparr>us_bytes := \<lambda>x. if a + 0 \<le> x \<and> x \<le> a + length w then (w @ [0]) ! (x - a) else us_bytes s x\<rparr>)"
    by (rule copystr_out_done) (use assms in \<open>auto simp: nth_append in_set_conv_nth\<close>)
  then show ?thesis
    using copycheck_len [of a "length w + 1"] assms by (simp add: copyoutstr_def poke_def less_Suc_eq_le)
qed

subsection \<open>The strings and the pointers\<close>

lemma strlen_term [simp]: "0 \<notin> set w \<Longrightarrow> c_strlen (w @ [0]) = length w"
  by (induction w) (auto simp: c_strlen_def)

definition room :: "byte list \<Rightarrow> nat" where
  "room w = length w + 1 + (4 - (length w + 1) mod 4)"

lemma room_bounds: "length w + 1 \<le> room w" "room w \<le> length w + 5" "room w mod 4 = 0"
proof -
  show "length w + 1 \<le> room w" "room w \<le> length w + 5" by (simp_all add: room_def)
  have "(n + (4 - n mod 4)) mod 4 = 0" for n :: nat by presburger
  then show "room w mod 4 = 0" unfolding room_def .
qed

lemma calc_align_room: "0 \<notin> set w \<Longrightarrow> room w \<le> USERTOP \<Longrightarrow> calc_align_length (w @ [0]) = room w"
  using room_bounds(1) [of w] by (simp add: calc_align_length_def room_def Let_def)

definition strings_at :: "'z psys_scheme \<Rightarrow> nat \<Rightarrow> nat \<Rightarrow> nat list \<Rightarrow> byte list list \<Rightarrow> bool" where
  "strings_at s lo hi ps ws \<longleftrightarrow>
     list_all2 (\<lambda>p w. holds s p (w @ [0]) \<and> lo \<le> p \<and> p + length w < hi) ps ws"

lemma strings_at_in: "strings_at s lo hi ps ws \<Longrightarrow> p \<in> set ps \<Longrightarrow> lo \<le> p \<and> p < hi"
  unfolding strings_at_def by (induction ps ws rule: list_all2_induct) auto

lemma strings_at_mono:
  assumes "strings_at s lo hi ps ws" and "touched l h s s'" and "h \<le> lo \<or> hi \<le> l" and "lo' \<le> lo" and "hi \<le> hi'"
  shows "strings_at s' lo' hi' ps ws"
  using assms(1) unfolding strings_at_def
  by (rule list.rel_mono_strong) (use assms(3-5) touched_holds [OF assms(2)] in auto)

lemma stack_down: "k \<le> sp \<Longrightarrow> sp < 4294967296 \<Longrightarrow> (sp + 4294967296 - k) mod 4294967296 = sp - (k :: nat)"
  by (simp add: trans_le_add1 mod_if)

lemma copy_strings_run:
  assumes "\<forall>w\<in>set ws. 0 \<notin> set w" and "sum_list (map room ws) \<le> sp" and "sp \<le> USERTOP"
    and "\<forall>x. sp - sum_list (map room ws) \<le> x \<and> x < sp \<longrightarrow> us_wr s x"
  shows "\<exists>qs s'. copy_strings (map (\<lambda>w. w @ [0]) ws) sp ptrs s = Inr ((sp - sum_list (map room ws), rev qs @ ptrs), s') \<and>
     strings_at s' (sp - sum_list (map room ws)) sp qs ws \<and> touched (sp - sum_list (map room ws)) sp s s'"
  using assms
proof (induction ws arbitrary: sp ptrs s)
  case Nil
  then show ?case by (auto simp: strings_at_def touched_refl intro!: exI [of _ "[]"])
next
  case (Cons w ws)
  let ?T = "sum_list (map room ws)" and ?p = "sp - room w"
  have r: "room w \<le> sp" "length w + 1 \<le> room w" "?T \<le> ?p" "?p \<le> USERTOP" using Cons.prems(2,3) room_bounds [of w] by auto
  have wr: "us_wr s x" if "?p - ?T \<le> x" and "x < sp" for x
    using Cons.prems(4) that by (simp add: diff_diff_add)
  then have wr': "\<forall>x. ?p - ?T \<le> x \<and> x < ?p \<longrightarrow> us_wr (poke ?p (w @ [0]) s) x" using less_le_trans [OF _ diff_le_self] by simp blast
  have al: "calc_align_length (w @ [0]) = room w" using Cons.prems(1,3) r(1) by (intro calc_align_room) simp_all
  have p: "(sp + 4294967296 - calc_align_length (w @ [0])) mod 4294967296 = ?p" unfolding al by (rule stack_down) (use r(1) Cons.prems(3) in simp_all)
  have "copyoutstr (w @ [0]) ?p (length w + 1) s = Inr (Inr (length w + 1), poke ?p (w @ [0]) s)"
    by (rule copyoutstr_poke) (use Cons.prems(1,3) r wr in auto)
  moreover obtain qs s' where ih: "copy_strings (map (\<lambda>w. w @ [0]) ws) ?p (?p # ptrs) (poke ?p (w @ [0]) s) = Inr ((?p - ?T, rev qs @ ?p # ptrs), s')"
    "strings_at s' (?p - ?T) ?p qs ws" "touched (?p - ?T) ?p (poke ?p (w @ [0]) s) s'"
    using Cons.IH [OF _ r(3,4) wr', of "?p # ptrs"] Cons.prems(1) by auto
  ultimately have "copy_strings (map (\<lambda>w. w @ [0]) (w # ws)) sp ptrs s = Inr ((?p - ?T, rev (?p # qs) @ ptrs), s')"
    using Cons.prems(1) by (simp add: Let_def p kbind_def)
  moreover have "holds s' ?p (w @ [0])" by (rule touched_holds [OF ih(3) poke_holds]) simp
  moreover have "strings_at s' (?p - ?T) sp qs ws" by (rule strings_at_mono [OF ih(2) touched_refl [of 0 0]]) simp_all
  moreover have "touched (?p - ?T) sp s s'"
    by (rule touched_trans [where lo = ?p and hi = sp, OF poke_touched ih(3)]) (use r in auto)
  moreover have "?p - ?T \<le> ?p \<and> ?p + length w < sp" using r(1,2) by linarith
  ultimately show ?case by (intro exI [of _ "?p # qs"] exI [of _ s']) (simp add: strings_at_def)
qed

lemma copy_pointers_run:
  assumes "4 * length ps \<le> sp" and "sp \<le> USERTOP" and "\<forall>x. sp - 4 * length ps \<le> x \<and> x < sp \<longrightarrow> us_wr s x"
  shows "\<exists>s'. copy_pointers ps sp s = Inr (sp - 4 * length ps, s') \<and> holds s' (sp - 4 * length ps) (enc32s (rev ps)) \<and>
     touched (sp - 4 * length ps) sp s s'"
  using assms
proof (induction ps arbitrary: sp s)
  case Nil
  then show ?case by (simp add: holds_def touched_refl)
next
  case (Cons q ps)
  let ?p = "sp - 4" and ?n = "4 * length ps"
  have p: "(sp + 4294967296 - 4) mod 4294967296 = ?p" by (rule stack_down) (use Cons.prems in simp_all)
  have r: "?n \<le> ?p" "?p \<le> USERTOP" using Cons.prems(1,2) by simp_all
  have wr: "\<forall>x. ?p - ?n \<le> x \<and> x < ?p \<longrightarrow> us_wr (poke ?p (enc32 q) s) x"
    using Cons.prems(3) less_le_trans [OF _ diff_le_self] by simp blast
  have "copyout (enc32 q) 0 ?p (length (enc32 q)) s = Inr (Inr (), poke ?p (enc32 q) s)"
    by (rule copyout_poke) (use Cons.prems in auto)
  moreover obtain s' where ih: "copy_pointers ps ?p (poke ?p (enc32 q) s) = Inr (?p - ?n, s')" "holds s' (?p - ?n) (enc32s (rev ps))"
    "touched (?p - ?n) ?p (poke ?p (enc32 q) s) s'"
    using Cons.IH [OF r wr] that by (elim exE conjE)
  ultimately have "copy_pointers (q # ps) sp s = Inr (?p - ?n, s')"
    unfolding copy_pointers.simps Let_def p by (simp add: kbind_def)
  moreover have "holds s' ?p (enc32 q)" by (rule touched_holds [OF ih(3) poke_holds]) simp
  then have "holds s' (?p - ?n) (enc32s (rev (q # ps)))"
    using ih(2) Cons.prems(1) by (simp add: enc32s_append holds_append)
  moreover have "touched (?p - ?n) sp s s'"
    by (rule touched_trans [where lo = ?p and hi = sp, OF poke_touched ih(3)]) (use Cons.prems in auto)
  ultimately show ?case by auto
qed

subsection \<open>Reading the vector back\<close>

declare raw_string.simps [simp del] raw_argv.simps [simp del]

lemma raw_string_run:
  assumes "holds s a (w @ [0])" and "0 \<notin> set w" and "a + length w < 4294967296" and "\<forall>x. a \<le> x \<and> x \<le> a + length w \<longrightarrow> us_rd s x"
  shows "raw_string a s = Inr (w @ [0], s)"
  using assms
proof (induction w arbitrary: a)
  case Nil
  then show ?case by (simp add: raw_string.simps holds_def)
next
  case (Cons b w)
  have h: "holds s (Suc a) (w @ [0])" "us_bytes s a = b"
    using Cons.prems(1) holds_append [of s a "[b]" "w @ [0]"] by (simp_all add: holds_def)
  have "raw_string (Suc a) s = Inr (w @ [0], s)"
    using Cons.IH [OF h(1)] Cons.prems(2-4) by simp
  then show ?case using Cons.prems(2-4) h(2) by (subst raw_string.simps) simp
qed

lemma raw_word_run:
  assumes "holds s a (enc32 p)" and "p < 4294967296" and "\<forall>x. a \<le> x \<and> x < a + 4 \<longrightarrow> us_rd s x"
  shows "raw_word a s = Inr (p, s)"
proof -
  have "mem_load a 4 s = enc32 p"
    using reach_all [OF assms(3)] assms(1) by (auto simp: mem_load_def holds_def intro!: nth_equalityI)
  then show ?thesis using reach_all [OF assms(3)] dec_enc32 [of p] assms(2) by (simp add: raw_word_def u32_def)
qed

lemma raw_argv_run:
  assumes "holds s a (enc32s (ps @ [0]))" and "\<forall>p\<in>set ps. 0 < p \<and> p < 4294967296" and "a + 4 * length ps < 4294967296"
    and "\<forall>x. a \<le> x \<and> x < a + 4 * length ps + 4 \<longrightarrow> us_rd s x"
  shows "raw_argv a s = Inr (ps, s)"
  using assms
proof (induction ps arbitrary: a)
  case Nil
  then show ?case using raw_word_run [of s a 0] by (simp add: raw_argv.simps)
next
  case (Cons p ps)
  have h: "holds s a (enc32 p)" "holds s (a + 4) (enc32s (ps @ [0]))" using Cons.prems(1) by (simp_all add: holds_append)
  have "raw_argv (a + 4) s = Inr (ps, s)" using Cons.IH [OF h(2)] Cons.prems(2-4) by simp
  moreover have "raw_word a s = Inr (p, s)" using raw_word_run [OF h(1)] Cons.prems(2,4) by simp
  ultimately show ?case using Cons.prems(2,3) by (subst raw_argv.simps) simp
qed

lemma copy_argv_run:
  assumes "strings_at s lo hi ps ws" and "\<forall>w\<in>set ws. 0 \<notin> set w" and "hi \<le> USERTOP" and "\<forall>x. lo \<le> x \<and> x < hi \<longrightarrow> us_rd s x"
    and "k_mem s = []"
  shows "copy_argv ps s = Inr (map (\<lambda>w. w @ [0]) ws, s)"
  using assms(1,2) unfolding strings_at_def
proof (induction ps ws rule: list_all2_induct)
  case Nil
  then show ?case by simp
next
  case (Cons p ps w ws)
  have "raw_string p s = Inr (w @ [0], s)" by (rule raw_string_run) (use Cons assms(3,4) in auto)
  moreover have "copy_argv ps s = Inr (map (\<lambda>w. w @ [0]) ws, s)" using Cons by simp
  ultimately show ?case using assms(5) by (simp add: kbind_def kalloc_def)
qed

section \<open>Properties\<close>

text \<open>
  C16: The arguments of a program reach it.  Let the strings, each padded to whole words, and the
  pointers fit below the given stack pointer in memory that the program can read and write.
  Then \<^verbatim>\<open>copy_args\<close>, the argument passing of \<^verbatim>\<open>runprogram\<close> and \<^verbatim>\<open>execv\<close>,
  leaves at the new stack pointer an argument vector that ends with NULL and
  that reads back, the way \<^verbatim>\<open>execv\<close> reads one, as exactly the strings passed; the stack pointer
  stays aligned and nothing outside this area is written.
\<close>

theorem args_roundtrip:
  assumes "\<forall>w\<in>set ws. 0 \<notin> set w" and "T = sum_list (map room ws) + 4 * length ws + 4" and "T < sp" and "sp \<le> USERTOP" and "sp mod 4 = 0"
    and "\<forall>x. sp - T \<le> x \<and> x < sp \<longrightarrow> us_rd s x \<and> us_wr s x" and "k_mem s = []"
  shows "\<exists>ps s'. copy_args (map (\<lambda>w. w @ [0]) ws) sp s = Inr (sp - T, s') \<and>
     raw_argv (sp - T) s' = Inr (ps, s') \<and> copy_argv ps s' = Inr (map (\<lambda>w. w @ [0]) ws, s') \<and>
     (sp - T) mod 4 = 0 \<and> touched (sp - T) sp s s'"
proof -
  let ?R = "sum_list (map room (rev ws))" and ?n = "4 * length ws + 4"
  have R: "?R = sum_list (map room ws)" by (induction ws) simp_all
  have T: "T = ?R + ?n" "?R + ?n < sp" using assms(2,3) R by simp_all
  have "\<forall>x. sp - ?R \<le> x \<and> x < sp \<longrightarrow> us_wr s x" using assms(6) T by auto
  then obtain qs s1 where s1: "copy_strings (map (\<lambda>w. w @ [0]) (rev ws)) sp [] s = Inr ((sp - ?R, rev qs @ []), s1)"
    "strings_at s1 (sp - ?R) sp qs (rev ws)" "touched (sp - ?R) sp s s1"
    using copy_strings_run [of "rev ws" sp s "[]"] assms(1,4) T(2) by auto
  let ?ps = "rev qs"
  have l: "length ?ps = length ws" using s1(2) by (auto simp: strings_at_def dest: list_all2_lengthD)
  have m: "sp - ?R - 4 * length (rev (?ps @ [0])) = sp - T" using T(1) l by simp
  have "us_wr s1 x" if "sp - T \<le> x" "x < sp - ?R" for x
    using assms(6) that less_le_trans [OF that(2) diff_le_self] touchedD(1) [OF s1(3)] by simp
  then have wr: "\<forall>x. sp - ?R - 4 * length (rev (?ps @ [0])) \<le> x \<and> x < sp - ?R \<longrightarrow> us_wr s1 x"
    unfolding m by blast
  have "4 * length (rev (?ps @ [0])) \<le> sp - ?R" "sp - ?R \<le> USERTOP" using T(2) l assms(4) by simp_all
  then obtain s2 where s2: "copy_pointers (rev (?ps @ [0])) (sp - ?R) s1 = Inr (sp - T, s2)"
    "holds s2 (sp - T) (enc32s (?ps @ [0]))" "touched (sp - T) (sp - ?R) s1 s2"
    using copy_pointers_run [OF _ _ wr] unfolding m rev_rev_ident by blast
  have run: "copy_args (map (\<lambda>w. w @ [0]) ws) sp s = Inr (sp - T, s2)"
    using s1(1) s2(1) by (simp add: copy_args_def kbind_def rev_map del: copy_pointers.simps rev_append)
  have at: "strings_at s2 (sp - ?R) sp ?ps ws"
    using strings_at_mono [OF s1(2) s2(3)] by (auto simp: strings_at_def list_all2_rev1)
  have w: "touched (sp - T) sp s s2" by (rule touched_trans [OF s1(3) s2(3)]) (use T in auto)
  have rd: "us_rd s2 x" if "sp - T \<le> x" "x < sp" for x using touchedD(2) [OF w] assms(6) that by auto
  have "\<forall>p\<in>set ?ps. 0 < p \<and> p < 4294967296"
    using strings_at_in [OF at] assms(4) T(2) by fastforce
  moreover have le: "sp - T + 4 * length ?ps + 4 \<le> sp" "sp - T + 4 * length ?ps < 4294967296" using T l assms(4) by simp_all
  then have "\<forall>x. sp - T \<le> x \<and> x < sp - T + 4 * length ?ps + 4 \<longrightarrow> us_rd s2 x" using rd less_le_trans by blast
  ultimately have argv: "raw_argv (sp - T) s2 = Inr (?ps, s2)" using raw_argv_run [OF s2(2)] le(2) by blast
  have reread: "copy_argv ?ps s2 = Inr (map (\<lambda>w. w @ [0]) ws, s2)"
    by (rule copy_argv_run [OF at assms(1,4)]) (use rd T touchedD(3) [OF w] assms(7) in auto)
  have "?R mod 4 = 0" by (induction ws) (use room_bounds(3) in \<open>auto simp: mod_add_eq\<close>)
  then have "(sp - T) mod 4 = 0" using T assms(5) by presburger
  then show ?thesis using run argv reread w by auto
qed

definition adem :: psys where
  "adem = vsys.extend vdemo (psys.fields [] None Map.empty 0 Map.empty 0 Map.empty 0 Map.empty Map.empty)"

theorem args_roundtrip_witness:
  "\<exists>ps s'. copy_args [[108, 115, 0], [45, 108, 0]] 4096 adem = Inr (4076, s') \<and>
     raw_argv 4076 s' = Inr (ps, s') \<and> copy_argv ps s' = Inr ([[108, 115, 0], [45, 108, 0]], s')"
proof -
  have s: "us_rd adem x" "us_wr adem x" "k_mem adem = []" for x
    by (simp_all add: adem_def vdemo_def fdemo_def fsys.defs vsys.defs psys.defs)
  have "\<exists>ps s'. copy_args (map (\<lambda>w. w @ [0]) [[108, 115], [45, 108]]) 4096 adem = Inr (4096 - 20, s') \<and>
     raw_argv (4096 - 20) s' = Inr (ps, s') \<and> copy_argv ps s' = Inr (map (\<lambda>w. w @ [0]) [[108, 115], [45, 108]], s') \<and>
     (4096 - 20) mod 4 = (0 :: nat) \<and> touched (4096 - 20) 4096 adem s'"
    by (rule args_roundtrip) (simp_all add: s room_def)
  then show ?thesis by auto
qed

end
