(* ===== verification/Vfs.thy ===== *)
theory Vfs
  imports Process
begin

text \<open>
  The virtual file system layer: the list of named devices (\<^verbatim>\<open>kern/fs/vfs/vfslist.c\<close>), the
  translation of path names (\<^verbatim>\<open>vfslookup.c\<close>), the current directory (\<^verbatim>\<open>vfscwd.c\<close>), the
  operations on paths (\<^verbatim>\<open>vfspath.c\<close>) and the creation of the vnode of a device
  (\<^verbatim>\<open>device.c\<close>).

  The operations of vnodes and file systems are reached through their tables, so the table is an
  argument of every operation that uses it.  A path is the list of its bytes without the
  terminator; the layer overwrites the colon of a path it is given, which no caller reads again.
\<close>

section \<open>Model\<close>

subsection \<open>State\<close>

record knowndev =
  kd_name :: "byte list"
  kd_rawname :: "byte list option"
  kd_device :: "nat option"
  kd_vnode :: nat
  kd_fs :: "nat option"

text \<open>The vnode of a device: the counters with their lock, and the device.\<close>

record dvnode =
  dv_refcount :: int
  dv_opencount :: int
  dv_countlock :: klock
  dv_dev :: "nat option"

text \<open>\<^verbatim>\<open>rw_lock\<close> of a vnode: no lock, a lock, or a lock that has been freed.\<close>

datatype rwst = RwNull | RwLive klock | RwFreed

record nsys = psys +
  knowndevs :: "nat array"
  kd_heap :: "nat \<Rightarrow> knowndev option"
  kd_next :: nat
  knowndevs_lock :: "klock option"
  bootfs_vnode :: "nat option"
  bootfs_lock :: "klock option"
  t_cwd :: "nat \<Rightarrow> nat option"
  rw_lock :: "nat \<Rightarrow> rwst"
  dv_heap :: "nat \<Rightarrow> dvnode option"
  dv_next :: nat

text \<open>The operations on vnodes, with the counters of \<^verbatim>\<open>vnode.c\<close>, and on file systems.\<close>

record 's vnode_ops =
  vop_incref :: "nat \<Rightarrow> ('s, unit) kern"
  vop_decref :: "nat \<Rightarrow> ('s, unit) kern"
  vop_incopen :: "nat \<Rightarrow> ('s, unit) kern"
  vop_decopen :: "nat \<Rightarrow> ('s, unit) kern"
  vop_fs :: "nat \<Rightarrow> nat option"
  vop_open :: "nat \<Rightarrow> nat \<Rightarrow> ('s, errno + unit) kern"
  vop_readlink :: "'s vop_io"
  vop_gettype :: "nat \<Rightarrow> ('s, errno + nat) kern"
  vop_truncate :: "nat \<Rightarrow> int \<Rightarrow> ('s, errno + unit) kern"
  vop_namefile :: "'s vop_io"
  vop_creat :: "nat \<Rightarrow> byte list \<Rightarrow> bool \<Rightarrow> ('s, errno + nat) kern"
  vop_symlink :: "nat \<Rightarrow> byte list \<Rightarrow> byte list \<Rightarrow> ('s, errno + unit) kern"
  vop_mkdir :: "nat \<Rightarrow> byte list \<Rightarrow> ('s, errno + unit) kern"
  vop_link :: "nat \<Rightarrow> byte list \<Rightarrow> nat \<Rightarrow> ('s, errno + unit) kern"
  vop_remove :: "nat \<Rightarrow> byte list \<Rightarrow> ('s, errno + unit) kern"
  vop_rmdir :: "nat \<Rightarrow> byte list \<Rightarrow> ('s, errno + unit) kern"
  vop_rename :: "nat \<Rightarrow> byte list \<Rightarrow> nat \<Rightarrow> byte list \<Rightarrow> ('s, errno + unit) kern"
  vop_lookup :: "nat \<Rightarrow> byte list \<Rightarrow> ('s, errno + nat) kern"
  vop_lookparent :: "nat \<Rightarrow> byte list \<Rightarrow> nat \<Rightarrow> ('s, errno + nat \<times> byte list) kern"
  fs_sync :: "nat \<Rightarrow> ('s, errno + unit) kern"
  fs_getvolname :: "nat \<Rightarrow> ('s, byte list option) kern"
  fs_getroot :: "nat \<Rightarrow> ('s, nat) kern"
  fs_unmount :: "nat \<Rightarrow> ('s, errno + unit) kern"

abbreviation NAME_MAX :: nat where "NAME_MAX \<equiv> 255"

definition kd_get :: "nat \<Rightarrow> ('z nsys_scheme, knowndev) kern" where
  "kd_get p s = (case kd_heap s p of None \<Rightarrow> Inl BadPtr | Some kd \<Rightarrow> Inr (kd, s))"

definition kd_set_fs :: "nat \<Rightarrow> nat option \<Rightarrow> ('z nsys_scheme, unit) kern" where
  "kd_set_fs p fs s =
     (case kd_heap s p of
        None \<Rightarrow> Inl BadPtr
      | Some kd \<Rightarrow> Inr ((), s\<lparr>kd_heap := (kd_heap s)(p \<mapsto> kd\<lparr>kd_fs := fs\<rparr>)\<rparr>))"

text \<open>The length of the list, and the device at an index.\<close>

definition kd_num :: "('z nsys_scheme, nat) kern" where
  "kd_num = kget (\<lambda>s. nat (array_getnum (knowndevs s)))"

definition kd_at :: "nat \<Rightarrow> ('z nsys_scheme, nat \<times> knowndev) kern" where
  "kd_at i =
     kbind (kget knowndevs) (\<lambda>a.
     case array_getguy a (int i) of
       Inl h \<Rightarrow> khalt h
     | Inr None \<Rightarrow> khalt BadPtr
     | Inr (Some p) \<Rightarrow> kbind (kd_get p) (\<lambda>kd. kret (p, kd)))"

definition kd_lock :: "(nat option \<Rightarrow> (klock, unit) kern) \<Rightarrow> ('z nsys_scheme, unit) kern" where
  "kd_lock m =
     kbind (kget us_cur) (\<lambda>cur.
     kbind (kget knowndevs_lock) (\<lambda>l.
     case l of
       None \<Rightarrow> khalt AssertFail
     | Some l \<Rightarrow> (case m cur l of Inl h \<Rightarrow> khalt h | Inr (_, l') \<Rightarrow> kmod (\<lambda>s. s\<lparr>knowndevs_lock := Some l'\<rparr>))))"

definition boot_lock :: "(nat option \<Rightarrow> (klock, unit) kern) \<Rightarrow> ('z nsys_scheme, unit) kern" where
  "boot_lock m =
     kbind (kget us_cur) (\<lambda>cur.
     kbind (kget bootfs_lock) (\<lambda>l.
     case l of
       None \<Rightarrow> khalt AssertFail
     | Some l \<Rightarrow> (case m cur l of Inl h \<Rightarrow> khalt h | Inr (_, l') \<Rightarrow> kmod (\<lambda>s. s\<lparr>bootfs_lock := Some l'\<rparr>))))"

definition kd_lock_mine :: "('z nsys_scheme, unit) kern" where
  "kd_lock_mine =
     kbind (kget us_cur) (\<lambda>cur.
     kbind (kget knowndevs_lock) (\<lambda>l.
     case l of None \<Rightarrow> khalt BadPtr | Some l \<Rightarrow> kassert (lock_do_i_hold cur l)))"

subsection \<open>The list of devices\<close>

fun sync_loop :: "'z nsys_scheme vnode_ops \<Rightarrow> nat list \<Rightarrow> ('z nsys_scheme, unit) kern" where
  "sync_loop ops [] = kret ()"
| "sync_loop ops (i # is) =
     kbind (kd_at i) (\<lambda>(_, dev).
     kbind (case kd_fs dev of None \<Rightarrow> kret () | Some fs \<Rightarrow> kbind (fs_sync ops fs) (\<lambda>_. kret ())) (\<lambda>_.
     sync_loop ops is))"

definition vfs_sync :: "'z nsys_scheme vnode_ops \<Rightarrow> ('z nsys_scheme, unit) kern" where
  "vfs_sync ops =
     kbind (kd_lock lock_acquire) (\<lambda>_.
     kbind kd_num (\<lambda>num.
     kbind (sync_loop ops [0..<num]) (\<lambda>_. kd_lock lock_release)))"

text \<open>The tests that \<^verbatim>\<open>vfs_getroot\<close> makes on one device: a result, or on to the next.\<close>

definition getroot_test ::
  "'z nsys_scheme vnode_ops \<Rightarrow> byte list \<Rightarrow> knowndev \<Rightarrow> ('z nsys_scheme, (errno + nat) option) kern" where
  "getroot_test ops devname kd =
     kbind
       (case kd_fs kd of
          Some fs \<Rightarrow>
            kbind (fs_getvolname ops fs) (\<lambda>volname.
            if kd_name kd = devname \<or> volname = Some devname
            then kbind (fs_getroot ops fs) (\<lambda>v. kret (Some (Inr v)))
            else kret None)
        | None \<Rightarrow> kret (if kd_rawname kd \<noteq> None \<and> kd_name kd = devname then Some (Inl ENXIO) else None)) (\<lambda>r.
     if r \<noteq> None then kret r
     else if kd_name kd = devname then
       kbind (kassert (kd_fs kd = None)) (\<lambda>_.
       kbind (kassert (kd_rawname kd = None)) (\<lambda>_.
       kbind (kassert (kd_device kd \<noteq> None)) (\<lambda>_.
       kbind (vop_incref ops (kd_vnode kd)) (\<lambda>_. kret (Some (Inr (kd_vnode kd)))))))
     else if kd_rawname kd = Some devname then
       kbind (kassert (kd_device kd \<noteq> None)) (\<lambda>_.
       kbind (vop_incref ops (kd_vnode kd)) (\<lambda>_. kret (Some (Inr (kd_vnode kd)))))
     else kret None)"

fun getroot_loop ::
  "'z nsys_scheme vnode_ops \<Rightarrow> byte list \<Rightarrow> nat list \<Rightarrow> ('z nsys_scheme, errno + nat) kern" where
  "getroot_loop ops devname [] = kret (Inl ENODEV)"
| "getroot_loop ops devname (i # is) =
     kbind (kd_at i) (\<lambda>(_, kd).
     kbind (getroot_test ops devname kd) (\<lambda>r.
     case r of Some res \<Rightarrow> kret res | None \<Rightarrow> getroot_loop ops devname is))"

definition vfs_getroot :: "'z nsys_scheme vnode_ops \<Rightarrow> byte list \<Rightarrow> ('z nsys_scheme, errno + nat) kern" where
  "vfs_getroot ops devname =
     kbind (kd_lock lock_acquire) (\<lambda>_.
     kbind kd_num (\<lambda>num.
     kbind (getroot_loop ops devname [0..<num]) (\<lambda>r.
     kbind (kd_lock lock_release) (\<lambda>_. kret r))))"

fun getdevname_loop :: "nat \<Rightarrow> nat list \<Rightarrow> ('z nsys_scheme, byte list option) kern" where
  "getdevname_loop fs [] = kret None"
| "getdevname_loop fs (i # is) =
     kbind (kd_at i) (\<lambda>(_, kd). if kd_fs kd = Some fs then kret (Some (kd_name kd)) else getdevname_loop fs is)"

definition vfs_getdevname :: "nat \<Rightarrow> ('z nsys_scheme, byte list option) kern" where
  "vfs_getdevname fs =
     kbind (kd_lock lock_acquire) (\<lambda>_.
     kbind kd_num (\<lambda>num.
     kbind (getdevname_loop fs [0..<num]) (\<lambda>r.
     kbind (kd_lock lock_release) (\<lambda>_. kret r))))"

definition mkrawname :: "byte list \<Rightarrow> byte list" where
  "mkrawname name = name @ [114, 97, 119]"

definition samestring :: "byte list option \<Rightarrow> byte list option \<Rightarrow> bool" where
  "samestring a b \<longleftrightarrow> a \<noteq> None \<and> b \<noteq> None \<and> a = b"

definition samestring3 :: "byte list option \<Rightarrow> byte list option \<Rightarrow> byte list option \<Rightarrow> byte list option \<Rightarrow> bool" where
  "samestring3 a b c d \<longleftrightarrow> samestring a b \<or> samestring a c \<or> samestring a d"

fun badnames_loop ::
  "'z nsys_scheme vnode_ops \<Rightarrow> byte list option \<Rightarrow> byte list option \<Rightarrow> byte list option \<Rightarrow> nat list \<Rightarrow>
     ('z nsys_scheme, bool) kern" where
  "badnames_loop ops n1 n2 n3 [] = kret False"
| "badnames_loop ops n1 n2 n3 (i # is) =
     kbind (kd_at i) (\<lambda>(_, kd).
     kbind (case kd_fs kd of
              None \<Rightarrow> kret False
            | Some fs \<Rightarrow> kbind (fs_getvolname ops fs) (\<lambda>volname. kret (samestring3 volname n1 n2 n3))) (\<lambda>b.
     if b then kret True
     else if samestring3 (kd_rawname kd) n1 n2 n3 \<or> samestring3 (Some (kd_name kd)) n1 n2 n3 then kret True
     else badnames_loop ops n1 n2 n3 is))"

definition badnames ::
  "'z nsys_scheme vnode_ops \<Rightarrow> byte list option \<Rightarrow> byte list option \<Rightarrow> byte list option \<Rightarrow>
     ('z nsys_scheme, bool) kern" where
  "badnames ops n1 n2 n3 =
     kbind kd_lock_mine (\<lambda>_.
     kbind kd_num (\<lambda>num. badnames_loop ops n1 n2 n3 [0..<num]))"

text \<open>
  The vnode of a device; \<^verbatim>\<open>VOP_INIT\<close> allocates the lock of the counters, and its failure is a
  panic.
\<close>

definition dev_create_vnode :: "nat option \<Rightarrow> ('z nsys_scheme, nat option) kern" where
  "dev_create_vnode dev =
     kbind kalloc (\<lambda>ok.
     if \<not> ok then kret None
     else
       kbind lock_create_p (\<lambda>l.
       case l of
         None \<Rightarrow> khalt PanicCall
       | Some l \<Rightarrow>
           kbind (kget dv_next) (\<lambda>v.
           kbind (kmod (\<lambda>s. s\<lparr>dv_heap := (dv_heap s)(v \<mapsto> \<lparr>dv_refcount = 1, dv_opencount = 0, dv_countlock = l, dv_dev = dev\<rparr>),
                             dv_next := Suc v\<rparr>)) (\<lambda>_.
           kret (Some v)))))"

definition dv_free :: "nat \<Rightarrow> ('z nsys_scheme, unit) kern" where
  "dv_free v = kmod (\<lambda>s. s\<lparr>dv_heap := (dv_heap s)(v := None)\<rparr>)"

definition add_to_list :: "nat \<Rightarrow> ('z nsys_scheme, errno + unit) kern" where
  "add_to_list p =
     kbind kalloc (\<lambda>ok. kzoom knowndevs (\<lambda>a s. s\<lparr>knowndevs := a\<rparr>) (array_add (\<lambda>_. ok) p))"

definition vfs_doadd ::
  "'z nsys_scheme vnode_ops \<Rightarrow> byte list \<Rightarrow> bool \<Rightarrow> nat option \<Rightarrow> nat option \<Rightarrow> ('z nsys_scheme, errno + unit) kern" where
  "vfs_doadd ops dname mountable dev fs =
     kbind kalloc (\<lambda>ok.
     if \<not> ok then kret (Inl ENOMEM)
     else
       kbind (if mountable then kalloc else kret True) (\<lambda>ok.
       if \<not> ok then kret (Inl ENOMEM)
       else
         kbind (dev_create_vnode dev) (\<lambda>vnode.
         case vnode of
           None \<Rightarrow> kret (Inl ENOMEM)
         | Some v \<Rightarrow>
             kbind kalloc (\<lambda>ok.
             if \<not> ok then kbind (dv_free v) (\<lambda>_. kret (Inl ENOMEM))
             else
               let rawname = (if mountable then Some (mkrawname dname) else None);
                   kd = \<lparr>kd_name = dname, kd_rawname = rawname, kd_device = dev, kd_vnode = v, kd_fs = fs\<rparr> in
               kbind (kget kd_next) (\<lambda>p.
               kbind (kmod (\<lambda>s. s\<lparr>kd_heap := (kd_heap s)(p \<mapsto> kd), kd_next := Suc p\<rparr>)) (\<lambda>_.
               kbind (case fs of None \<Rightarrow> kret None | Some f \<Rightarrow> fs_getvolname ops f) (\<lambda>volname.
               kbind (kd_lock lock_acquire) (\<lambda>_.
               kbind (badnames ops (Some dname) rawname volname) (\<lambda>bad.
               kbind (if \<not> bad then add_to_list p else kret (Inl EEXIST)) (\<lambda>err.
               kbind (kd_lock lock_release) (\<lambda>_. kret err)))))))))))"

definition vfs_adddev ::
  "'z nsys_scheme vnode_ops \<Rightarrow> byte list \<Rightarrow> nat option \<Rightarrow> bool \<Rightarrow> ('z nsys_scheme, errno + unit) kern" where
  "vfs_adddev ops devname dev mountable = vfs_doadd ops devname mountable dev None"

definition vfs_addfs ::
  "'z nsys_scheme vnode_ops \<Rightarrow> byte list \<Rightarrow> nat \<Rightarrow> ('z nsys_scheme, errno + unit) kern" where
  "vfs_addfs ops devname fs = vfs_doadd ops devname False None (Some fs)"

fun findmount_loop :: "byte list \<Rightarrow> nat list \<Rightarrow> ('z nsys_scheme, errno + nat \<times> knowndev) kern" where
  "findmount_loop devname [] = kret (Inl ENODEV)"
| "findmount_loop devname (i # is) =
     kbind (kd_at i) (\<lambda>(p, dev).
     if kd_rawname dev = None then findmount_loop devname is
     else if kd_name dev = devname then kret (Inr (p, dev))
     else findmount_loop devname is)"

definition findmount :: "byte list \<Rightarrow> ('z nsys_scheme, errno + nat \<times> knowndev) kern" where
  "findmount devname =
     kbind kd_lock_mine (\<lambda>_. kbind kd_num (\<lambda>num. findmount_loop devname [0..<num]))"

definition vfs_mount ::
  "byte list \<Rightarrow> (nat \<Rightarrow> ('z nsys_scheme, errno + nat) kern) \<Rightarrow> ('z nsys_scheme, errno + unit) kern" where
  "vfs_mount devname mountfunc =
     kbind (kd_lock lock_acquire) (\<lambda>_.
     kbind
       (kbindE (findmount devname) (\<lambda>(p, kd).
        if kd_fs kd \<noteq> None then kret (Inl EBUSY)
        else
          kbind (kassert (kd_rawname kd \<noteq> None)) (\<lambda>_.
          case kd_device kd of
            None \<Rightarrow> khalt AssertFail
          | Some dev \<Rightarrow>
              kbindE (mountfunc dev) (\<lambda>fs.
              kbind (kd_set_fs p (Some fs)) (\<lambda>_. kret (Inr ()))))))
       (\<lambda>r. kbind (kd_lock lock_release) (\<lambda>_. kret r)))"

definition vfs_unmount :: "'z nsys_scheme vnode_ops \<Rightarrow> byte list \<Rightarrow> ('z nsys_scheme, errno + unit) kern" where
  "vfs_unmount ops devname =
     kbind (kd_lock lock_acquire) (\<lambda>_.
     kbind
       (kbindE (findmount devname) (\<lambda>(p, kd).
        case kd_fs kd of
          None \<Rightarrow> kret (Inl EINVAL)
        | Some fs \<Rightarrow>
            kbind (kassert (kd_rawname kd \<noteq> None)) (\<lambda>_.
            kbind (kassert (kd_device kd \<noteq> None)) (\<lambda>_.
            kbindE (fs_sync ops fs) (\<lambda>_.
            kbindE (fs_unmount ops fs) (\<lambda>_.
            kbind (kd_set_fs p None) (\<lambda>_. kret (Inr ()))))))))
       (\<lambda>r. kbind (kd_lock lock_release) (\<lambda>_. kret r)))"

text \<open>One device of \<^verbatim>\<open>vfs_unmountall\<close>: sync, a second attempt if it fails, unmount.\<close>

definition unmount_one ::
  "'z nsys_scheme vnode_ops \<Rightarrow> nat \<Rightarrow> knowndev \<Rightarrow> ('z nsys_scheme, unit) kern" where
  "unmount_one ops p dev =
     (case kd_fs dev of
        None \<Rightarrow> kret ()
      | Some fs \<Rightarrow>
          if kd_rawname dev = None then kret ()
          else
            kbind (fs_sync ops fs) (\<lambda>r.
            kbind (case r of Inl _ \<Rightarrow> fs_sync ops fs | Inr _ \<Rightarrow> kret r) (\<lambda>r.
            case r of
              Inl _ \<Rightarrow> kret ()
            | Inr _ \<Rightarrow>
                kbind (fs_unmount ops fs) (\<lambda>r.
                case r of Inl _ \<Rightarrow> kret () | Inr _ \<Rightarrow> kd_set_fs p None))))"

fun unmountall_loop :: "'z nsys_scheme vnode_ops \<Rightarrow> nat list \<Rightarrow> ('z nsys_scheme, unit) kern" where
  "unmountall_loop ops [] = kret ()"
| "unmountall_loop ops (i # is) =
     kbind (kd_at i) (\<lambda>(p, dev). kbind (unmount_one ops p dev) (\<lambda>_. unmountall_loop ops is))"

definition vfs_unmountall :: "'z nsys_scheme vnode_ops \<Rightarrow> ('z nsys_scheme, unit) kern" where
  "vfs_unmountall ops =
     kbind (kd_lock lock_acquire) (\<lambda>_.
     kbind kd_num (\<lambda>num.
     kbind (unmountall_loop ops [0..<num]) (\<lambda>_. kd_lock lock_release)))"

subsection \<open>The current directory and the boot file system\<close>

definition cur_thread :: "('z nsys_scheme, nat) kern" where
  "cur_thread = kbind (kget us_cur) (\<lambda>cur. case cur of None \<Rightarrow> khalt BadPtr | Some t \<Rightarrow> kret t)"

definition vfs_getcurdir :: "'z nsys_scheme vnode_ops \<Rightarrow> ('z nsys_scheme, errno + nat) kern" where
  "vfs_getcurdir ops =
     kbind cur_thread (\<lambda>t.
     kbind (kget (\<lambda>s. t_cwd s t)) (\<lambda>cwd.
     case cwd of
       None \<Rightarrow> kret (Inl ENOENT)
     | Some v \<Rightarrow> kbind (vop_incref ops v) (\<lambda>_. kret (Inr v))))"

definition set_cwd :: "'z nsys_scheme vnode_ops \<Rightarrow> nat option \<Rightarrow> ('z nsys_scheme, unit) kern" where
  "set_cwd ops dir =
     kbind cur_thread (\<lambda>t.
     kbind (kget (\<lambda>s. t_cwd s t)) (\<lambda>old.
     kbind (kmod (\<lambda>s. s\<lparr>t_cwd := (t_cwd s)(t := dir)\<rparr>)) (\<lambda>_.
     case old of None \<Rightarrow> kret () | Some v \<Rightarrow> vop_decref ops v)))"

abbreviation S_IFMT :: nat where "S_IFMT \<equiv> 28672"
abbreviation S_IFDIR :: nat where "S_IFDIR \<equiv> 8192"

definition vfs_setcurdir :: "'z nsys_scheme vnode_ops \<Rightarrow> nat \<Rightarrow> ('z nsys_scheme, errno + unit) kern" where
  "vfs_setcurdir ops dir =
     kbindE (vop_gettype ops dir) (\<lambda>vtype.
     if vtype AND S_IFMT \<noteq> S_IFDIR then kret (Inl ENOTDIR)
     else
       kbind (vop_incref ops dir) (\<lambda>_.
       kbind (set_cwd ops (Some dir)) (\<lambda>_. kret (Inr ()))))"

definition vfs_clearcurdir :: "'z nsys_scheme vnode_ops \<Rightarrow> ('z nsys_scheme, unit) kern" where
  "vfs_clearcurdir ops = set_cwd ops None"

definition vfs_initbootfs :: "('z nsys_scheme, unit) kern" where
  "vfs_initbootfs =
     kbind lock_create_p (\<lambda>l.
     kbind (kmod (\<lambda>s. s\<lparr>bootfs_lock := l\<rparr>)) (\<lambda>_. if l = None then khalt PanicCall else kret ()))"

definition change_bootfs :: "'z nsys_scheme vnode_ops \<Rightarrow> nat option \<Rightarrow> ('z nsys_scheme, unit) kern" where
  "change_bootfs ops newguy =
     kbind (boot_lock lock_acquire) (\<lambda>_.
     kbind (kget bootfs_vnode) (\<lambda>oldguy.
     kbind (kmod (\<lambda>s. s\<lparr>bootfs_vnode := newguy\<rparr>)) (\<lambda>_.
     kbind (boot_lock lock_release) (\<lambda>_.
     case oldguy of None \<Rightarrow> kret () | Some v \<Rightarrow> vop_decref ops v))))"

definition vfs_clearbootfs :: "'z nsys_scheme vnode_ops \<Rightarrow> ('z nsys_scheme, unit) kern" where
  "vfs_clearbootfs ops = change_bootfs ops None"

subsection \<open>Path names\<close>

abbreviation colon_char :: byte where "colon_char \<equiv> 58"
abbreviation slash_char :: byte where "slash_char \<equiv> 47"

text \<open>The first colon or slash: the indices \<^verbatim>\<open>slash\<close> and \<^verbatim>\<open>colon\<close>, -1 for none.\<close>

fun find_sep :: "int \<Rightarrow> byte list \<Rightarrow> int \<times> int" where
  "find_sep i [] = (-1, -1)"
| "find_sep i (c # cs) =
     (if c = colon_char then (-1, i) else if c = slash_char then (i, -1) else find_sep (i + 1) cs)"

fun skip_slashes :: "byte list \<Rightarrow> byte list" where
  "skip_slashes [] = []"
| "skip_slashes (c # cs) = (if c = slash_char then skip_slashes cs else c # cs)"

text \<open>The rest of the path and the vnode to start from.\<close>

definition getdevice ::
  "'z nsys_scheme vnode_ops \<Rightarrow> byte list \<Rightarrow> ('z nsys_scheme, errno + byte list \<times> nat) kern" where
  "getdevice ops pathname =
     (let (slash, colon) = find_sep 0 pathname in
      if colon < 0 \<and> slash \<noteq> 0 then kbindE (vfs_getcurdir ops) (\<lambda>v. kret (Inr (pathname, v)))
      else if colon > 0 then
        kbindE (vfs_getroot ops (take (nat colon) pathname)) (\<lambda>v.
        kret (Inr (skip_slashes (drop (nat colon + 1) pathname), v)))
      else
        kbind (kassert (colon = 0 \<or> slash = 0)) (\<lambda>_.
        kbindE
          (if hd pathname = slash_char then
             kbind (boot_lock lock_acquire) (\<lambda>_.
             kbind (kget bootfs_vnode) (\<lambda>b.
             case b of
               None \<Rightarrow> kbind (boot_lock lock_release) (\<lambda>_. kret (Inl ENOENT))
             | Some v \<Rightarrow>
                 kbind (vop_incref ops v) (\<lambda>_.
                 kbind (boot_lock lock_release) (\<lambda>_. kret (Inr v)))))
           else
             kbind (kassert (hd pathname = colon_char)) (\<lambda>_.
             kbindE (vfs_getcurdir ops) (\<lambda>vn.
             case vop_fs ops vn of
               None \<Rightarrow> khalt AssertFail
             | Some fs \<Rightarrow>
                 kbind (fs_getroot ops fs) (\<lambda>v.
                 kbind (vop_decref ops vn) (\<lambda>_. kret (Inr v))))))
          (\<lambda>v. kret (Inr (skip_slashes (drop 1 pathname), v)))))"

definition vfs_lookparent ::
  "'z nsys_scheme vnode_ops \<Rightarrow> byte list \<Rightarrow> nat \<Rightarrow> ('z nsys_scheme, errno + nat \<times> byte list) kern" where
  "vfs_lookparent ops pathname buflen =
     kbindE (getdevice ops pathname) (\<lambda>(pathname, startvn).
     kbind (if pathname = [] then kret (Inl EINVAL) else vop_lookparent ops startvn pathname buflen) (\<lambda>r.
     kbind (vop_decref ops startvn) (\<lambda>_. kret r)))"

definition vfs_lookup ::
  "'z nsys_scheme vnode_ops \<Rightarrow> byte list \<Rightarrow> ('z nsys_scheme, errno + nat) kern" where
  "vfs_lookup ops pathname =
     kbindE (getdevice ops pathname) (\<lambda>(pathname, startvn).
     if pathname = [] then kret (Inr startvn)
     else
       kbind (vop_lookup ops startvn pathname) (\<lambda>r.
       kbind (vop_decref ops startvn) (\<lambda>_. kret r)))"

definition vfs_chdir :: "'z nsys_scheme vnode_ops \<Rightarrow> byte list \<Rightarrow> ('z nsys_scheme, errno + unit) kern" where
  "vfs_chdir ops pathname =
     kbindE (vfs_lookup ops pathname) (\<lambda>vn.
     kbind (vfs_setcurdir ops vn) (\<lambda>r.
     kbind (vop_decref ops vn) (\<lambda>_. kret r)))"

text \<open>
  The name may not contain a colon at all: the length that is compared with 0 is that of the rest
  of the name from the colon on.
\<close>

definition vfs_setbootfs :: "'z nsys_scheme vnode_ops \<Rightarrow> byte list \<Rightarrow> ('z nsys_scheme, errno + unit) kern" where
  "vfs_setbootfs ops fsname =
     (let tmp = take (NAME_MAX - 1) fsname in
      if length (dropWhile (\<lambda>c. c \<noteq> colon_char) tmp) > 0 then kret (Inl EINVAL)
      else
        kbindE (vfs_chdir ops (tmp @ [colon_char])) (\<lambda>_.
        kbindE (vfs_getcurdir ops) (\<lambda>newguy.
        kbind (change_bootfs ops (Some newguy)) (\<lambda>_. kret (Inr ())))))"

definition vfs_getcwd :: "'z nsys_scheme vnode_ops \<Rightarrow> uio \<Rightarrow> ('z nsys_scheme, (errno + unit) \<times> uio) kern" where
  "vfs_getcwd ops u =
     kbind (kassert (uio_rw u = UIO_READ)) (\<lambda>_.
     kbind (vfs_getcurdir ops) (\<lambda>r.
     case r of
       Inl e \<Rightarrow> kret (Inl e, u)
     | Inr cwd \<Rightarrow>
         (case vop_fs ops cwd of
            None \<Rightarrow> khalt AssertFail
          | Some fs \<Rightarrow>
              kbind (fs_getvolname ops fs) (\<lambda>vol.
              kbind (if vol = None then vfs_getdevname fs else kret vol) (\<lambda>name.
              case name of
                None \<Rightarrow> khalt AssertFail
              | Some name \<Rightarrow>
                  kbind
                    (kthen (kbind (uiomove 0 name (length name) u) (\<lambda>(r, _, u). kret (r, u))) (\<lambda>u.
                     kthen (kbind (uiomove 0 [colon_char] 1 u) (\<lambda>(r, _, u). kret (r, u))) (\<lambda>u.
                     vop_namefile ops cwd u)))
                    (\<lambda>ru. kbind (vop_decref ops cwd) (\<lambda>_. kret ru)))))))"

subsection \<open>Operations on paths\<close>

abbreviation O_ACCMODE :: nat where "O_ACCMODE \<equiv> 3"
abbreviation O_CREAT :: nat where "O_CREAT \<equiv> 4"
abbreviation O_EXCL :: nat where "O_EXCL \<equiv> 8"
abbreviation O_TRUNC :: nat where "O_TRUNC \<equiv> 16"
abbreviation O_APPEND :: nat where "O_APPEND \<equiv> 32"

text \<open>The vnode named by the path, made first if the flags say so.\<close>

definition open_find :: "'z nsys_scheme vnode_ops \<Rightarrow> byte list \<Rightarrow> nat \<Rightarrow> ('z nsys_scheme, errno + nat) kern" where
  "open_find ops pathname openflags =
     (if openflags AND O_CREAT \<noteq> 0 then
        kbindE (vfs_lookparent ops pathname (NAME_MAX + 1)) (\<lambda>(dir, name).
        kbind (vop_creat ops dir name (openflags AND O_EXCL \<noteq> 0)) (\<lambda>r.
        kbind (vop_decref ops dir) (\<lambda>_. kret r)))
      else vfs_lookup ops pathname)"

definition set_rw_lock :: "nat \<Rightarrow> rwst \<Rightarrow> ('z nsys_scheme, unit) kern" where
  "set_rw_lock v l = kmod (\<lambda>s. s\<lparr>rw_lock := (rw_lock s)(v := l)\<rparr>)"

text \<open>The end of an open: everything is undone, or the vnode gets its lock.\<close>

definition open_end :: "'z nsys_scheme vnode_ops \<Rightarrow> nat \<Rightarrow> errno + unit \<Rightarrow> ('z nsys_scheme, errno + nat) kern" where
  "open_end ops vn r =
     (case r of
        Inl e \<Rightarrow>
          kbind (vop_decopen ops vn) (\<lambda>_.
          kbind (vop_decref ops vn) (\<lambda>_. kret (Inl e)))
      | Inr _ \<Rightarrow>
          kbind lock_create_p (\<lambda>l.
          kbind (set_rw_lock vn (case l of None \<Rightarrow> RwNull | Some l \<Rightarrow> RwLive l)) (\<lambda>_. kret (Inr vn))))"

text \<open>The truncation that the flags ask for; it needs write access.\<close>

definition open_trunc :: "'z nsys_scheme vnode_ops \<Rightarrow> nat \<Rightarrow> nat \<Rightarrow> ('z nsys_scheme, errno + unit) kern" where
  "open_trunc ops vn openflags =
     (let how = openflags AND O_ACCMODE; canwrite = (how = 1 \<or> how = 2) in
      if openflags AND O_TRUNC = 0 then kret (Inr ())
      else if \<not> canwrite then kret (Inl EINVAL)
      else vop_truncate ops vn 0)"

definition open_vnode :: "'z nsys_scheme vnode_ops \<Rightarrow> nat \<Rightarrow> nat \<Rightarrow> ('z nsys_scheme, errno + nat) kern" where
  "open_vnode ops vn openflags =
     kbind (vop_open ops vn openflags) (\<lambda>r.
     case r of
       Inl e \<Rightarrow> kbind (vop_decref ops vn) (\<lambda>_. kret (Inl e))
     | Inr _ \<Rightarrow>
         kbind (vop_incopen ops vn) (\<lambda>_.
         kbind (open_trunc ops vn openflags) (open_end ops vn)))"

definition vfs_open :: "'z nsys_scheme vnode_ops \<Rightarrow> byte list \<Rightarrow> nat \<Rightarrow> ('z nsys_scheme, errno + nat) kern" where
  "vfs_open ops pathname openflags =
     (if openflags AND O_ACCMODE > 2 then kret (Inl EINVAL)
      else kbindE (open_find ops pathname openflags) (\<lambda>vn. open_vnode ops vn openflags))"

definition vfs_close :: "'z nsys_scheme vnode_ops \<Rightarrow> nat \<Rightarrow> ('z nsys_scheme, unit) kern" where
  "vfs_close ops vn =
     kbind (kget (\<lambda>s. rw_lock s vn)) (\<lambda>l.
     kbind (case l of
              RwNull \<Rightarrow> khalt AssertFail
            | RwFreed \<Rightarrow> khalt BadPtr
            | RwLive l \<Rightarrow> kbind (kassert (lk_owner l = None)) (\<lambda>_. set_rw_lock vn RwFreed)) (\<lambda>_.
     kbind (vop_decopen ops vn) (\<lambda>_. vop_decref ops vn)))"

text \<open>The shape that the operations on one name have: find the directory, act, let it go.\<close>

definition at_parent ::
  "'z nsys_scheme vnode_ops \<Rightarrow> byte list \<Rightarrow> (nat \<Rightarrow> byte list \<Rightarrow> ('z nsys_scheme, errno + unit) kern) \<Rightarrow>
     ('z nsys_scheme, errno + unit) kern" where
  "at_parent ops pathname f =
     kbindE (vfs_lookparent ops pathname (NAME_MAX + 1)) (\<lambda>(dir, name).
     kbind (f dir name) (\<lambda>r.
     kbind (vop_decref ops dir) (\<lambda>_. kret r)))"

definition vfs_remove :: "'z nsys_scheme vnode_ops \<Rightarrow> byte list \<Rightarrow> ('z nsys_scheme, errno + unit) kern" where
  "vfs_remove ops pathname = at_parent ops pathname (vop_remove ops)"

definition vfs_symlink :: "'z nsys_scheme vnode_ops \<Rightarrow> byte list \<Rightarrow> byte list \<Rightarrow> ('z nsys_scheme, errno + unit) kern" where
  "vfs_symlink ops contents pathname = at_parent ops pathname (\<lambda>dir name. vop_symlink ops dir name contents)"

definition vfs_mkdir :: "'z nsys_scheme vnode_ops \<Rightarrow> byte list \<Rightarrow> ('z nsys_scheme, errno + unit) kern" where
  "vfs_mkdir ops pathname = at_parent ops pathname (vop_mkdir ops)"

definition vfs_rmdir :: "'z nsys_scheme vnode_ops \<Rightarrow> byte list \<Rightarrow> ('z nsys_scheme, errno + unit) kern" where
  "vfs_rmdir ops pathname = at_parent ops pathname (vop_rmdir ops)"

definition vfs_readlink :: "'z nsys_scheme vnode_ops \<Rightarrow> byte list \<Rightarrow> uio \<Rightarrow> ('z nsys_scheme, (errno + unit) \<times> uio) kern" where
  "vfs_readlink ops pathname u =
     kbind (vfs_lookup ops pathname) (\<lambda>r.
     case r of
       Inl e \<Rightarrow> kret (Inl e, u)
     | Inr vn \<Rightarrow>
         kbind (vop_readlink ops vn u) (\<lambda>ru.
         kbind (vop_decref ops vn) (\<lambda>_. kret ru)))"

text \<open>Both ends must be on the same file system; a device is on none.\<close>

definition same_fs :: "'z nsys_scheme vnode_ops \<Rightarrow> nat \<Rightarrow> nat \<Rightarrow> bool" where
  "same_fs ops v w \<longleftrightarrow> vop_fs ops v \<noteq> None \<and> vop_fs ops w \<noteq> None \<and> vop_fs ops v = vop_fs ops w"

definition vfs_rename ::
  "'z nsys_scheme vnode_ops \<Rightarrow> byte list \<Rightarrow> byte list \<Rightarrow> ('z nsys_scheme, errno + unit) kern" where
  "vfs_rename ops oldpath newpath =
     kbindE (vfs_lookparent ops oldpath (NAME_MAX + 1)) (\<lambda>(olddir, oldname).
     kbind (vfs_lookparent ops newpath (NAME_MAX + 1)) (\<lambda>r.
     case r of
       Inl e \<Rightarrow> kbind (vop_decref ops olddir) (\<lambda>_. kret (Inl e))
     | Inr (newdir, newname) \<Rightarrow>
         kbind (if \<not> same_fs ops olddir newdir then kret (Inl EXDEV)
                else vop_rename ops olddir oldname newdir newname) (\<lambda>r.
         kbind (vop_decref ops newdir) (\<lambda>_.
         kbind (vop_decref ops olddir) (\<lambda>_. kret r)))))"

definition vfs_link ::
  "'z nsys_scheme vnode_ops \<Rightarrow> byte list \<Rightarrow> byte list \<Rightarrow> ('z nsys_scheme, errno + unit) kern" where
  "vfs_link ops oldpath newpath =
     kbindE (vfs_lookup ops oldpath) (\<lambda>oldfile.
     kbind (vfs_lookparent ops newpath (NAME_MAX + 1)) (\<lambda>r.
     case r of
       Inl e \<Rightarrow> kbind (vop_decref ops oldfile) (\<lambda>_. kret (Inl e))
     | Inr (newdir, newname) \<Rightarrow>
         kbind (if \<not> same_fs ops oldfile newdir then kret (Inl EXDEV)
                else vop_link ops newdir newname oldfile) (\<lambda>r.
         kbind (vop_decref ops newdir) (\<lambda>_.
         kbind (vop_decref ops oldfile) (\<lambda>_. kret r)))))"

end
