(* ===== verification/Vfs_Refs.thy ===== *)
theory Vfs_Refs
  imports Vfs
begin

text \<open>
  The references that the virtual file system layer takes and gives back.  What the layer relies
  on is the contract of the vnode operations, a locale: a lookup hands out one reference to the
  vnode it returns, counters go up and down by one, and no operation changes the tables of the
  layer itself.  Its clients are the operations on paths: each gives every reference back that
  it took, except the one it returns.
\<close>

section \<open>The contract of the vnode operations\<close>

text \<open>
  What is visible of the vnodes in a state: whether the tables behind them are in order, the
  vnodes that exist even without a reference, and the references and opens that are counted.
\<close>

record 's vnode_view =
  w_good :: "'s \<Rightarrow> bool"
  w_pinned :: "'s \<Rightarrow> nat \<Rightarrow> bool"
  w_refs :: "'s \<Rightarrow> nat \<Rightarrow> int"
  w_opens :: "'s \<Rightarrow> nat \<Rightarrow> int"

definition same_vfs :: "'z nsys_scheme \<Rightarrow> 'z nsys_scheme \<Rightarrow> bool" where
  "same_vfs s s' \<longleftrightarrow> us_cur s' = us_cur s \<and> knowndevs s' = knowndevs s \<and> kd_heap s' = kd_heap s \<and>
     knowndevs_lock s' = knowndevs_lock s \<and> bootfs_vnode s' = bootfs_vnode s \<and> bootfs_lock s' = bootfs_lock s \<and>
     t_cwd s' = t_cwd s \<and> rw_lock s' = rw_lock s \<and> k_mem s' = k_mem s"

definition eff :: "'z nsys_scheme vnode_view \<Rightarrow> 'z nsys_scheme \<Rightarrow> 'z nsys_scheme \<Rightarrow> bool" where
  "eff W s s' \<longleftrightarrow> w_good W s' \<and> same_vfs s s' \<and> (\<forall>v. w_pinned W s v \<longrightarrow> w_pinned W s' v)"

definition bump :: "nat option \<Rightarrow> (nat \<Rightarrow> int) \<Rightarrow> nat \<Rightarrow> int" where
  "bump v R = (case v of None \<Rightarrow> R | Some v \<Rightarrow> R(v := R v + 1))"

text \<open>\<open>after W s v s'\<close>: from \<open>s\<close> to \<open>s'\<close> one reference to \<open>v\<close> was gained, or none.\<close>

definition after :: "'z nsys_scheme vnode_view \<Rightarrow> 'z nsys_scheme \<Rightarrow> nat option \<Rightarrow> 'z nsys_scheme \<Rightarrow> bool" where
  "after W s v s' \<longleftrightarrow> eff W s s' \<and> w_opens W s' = w_opens W s \<and> w_refs W s' = bump v (w_refs W s)"

definition gains :: "'z nsys_scheme vnode_view \<Rightarrow> ('a \<Rightarrow> nat option) \<Rightarrow> ('z nsys_scheme, 'a) kern \<Rightarrow> 'z nsys_scheme \<Rightarrow> bool" where
  "gains W g m s = kruns m s (\<lambda>r. after W s (g r))"

abbreviation none :: "'a \<Rightarrow> nat option" where "none \<equiv> \<lambda>_. None"

definition res_vn :: "errno + nat \<Rightarrow> nat option" where
  "res_vn r = (case r of Inl _ \<Rightarrow> None | Inr v \<Rightarrow> Some v)"

definition res_dir :: "errno + nat \<times> 'a \<Rightarrow> nat option" where
  "res_dir r = (case r of Inl _ \<Rightarrow> None | Inr (v, _) \<Rightarrow> Some v)"

lemma res_simps [simp]: "res_vn (Inl e) = None" "res_vn (Inr v) = Some v" "res_dir (Inl e) = None" "res_dir (Inr (v, x)) = Some v"
  by (simp_all add: res_vn_def res_dir_def)

text \<open>The locks and the lock of a vnode are no part of what the vnodes are.\<close>

definition framed :: "('z nsys_scheme \<Rightarrow> 'a) \<Rightarrow> bool" where
  "framed f \<longleftrightarrow> (\<forall>s x. f (s\<lparr>knowndevs_lock := x\<rparr>) = f s) \<and> (\<forall>s x. f (s\<lparr>bootfs_lock := x\<rparr>) = f s) \<and> (\<forall>s x. f (s\<lparr>rw_lock := x\<rparr>) = f s)"

locale vnode_layer =
  fixes ops :: "'z nsys_scheme vnode_ops" and W :: "'z nsys_scheme vnode_view" and fsok :: "nat \<Rightarrow> bool"
  assumes frames: "framed (w_good W)" "framed (w_pinned W)" "framed (w_refs W)" "framed (w_opens W)"
    and refs_nonneg: "w_good W s \<Longrightarrow> 0 \<le> w_refs W s v"
    and incref: "w_good W s \<Longrightarrow> w_pinned W s v \<or> 0 < w_refs W s v \<Longrightarrow> gains W (\<lambda>_. Some v) (vop_incref ops v) s"
    and decref: "w_good W s \<Longrightarrow> 0 < w_refs W s v \<Longrightarrow>
      kruns (vop_decref ops v) s (\<lambda>_ s'. eff W s s' \<and> w_opens W s' = w_opens W s \<and> w_refs W s' = (w_refs W s)(v := w_refs W s v - 1))"
    and incopen: "w_good W s \<Longrightarrow> 0 < w_refs W s v \<Longrightarrow>
      kruns (vop_incopen ops v) s (\<lambda>_ s'. eff W s s' \<and> w_refs W s' = w_refs W s \<and> w_opens W s' = (w_opens W s)(v := w_opens W s v + 1))"
    and decopen: "w_good W s \<Longrightarrow> 0 < w_refs W s v \<Longrightarrow> 0 < w_opens W s v \<Longrightarrow>
      kruns (vop_decopen ops v) s (\<lambda>_ s'. eff W s s' \<and> w_refs W s' = w_refs W s \<and> w_opens W s' = (w_opens W s)(v := w_opens W s v - 1))"
    and opens_nonneg: "w_good W s \<Longrightarrow> 0 \<le> w_opens W s v"
    and open_neutral: "w_good W s \<Longrightarrow> 0 < w_refs W s v \<Longrightarrow> gains W none (vop_open ops v flags) s"
    and truncate_neutral: "w_good W s \<Longrightarrow> 0 < w_refs W s v \<Longrightarrow> gains W none (vop_truncate ops v len) s"
    and creat_gains: "w_good W s \<Longrightarrow> 0 < w_refs W s v \<Longrightarrow> gains W res_vn (vop_creat ops v name excl) s"
    and lookup_gains: "w_good W s \<Longrightarrow> 0 < w_refs W s v \<Longrightarrow> gains W res_vn (vop_lookup ops v name) s"
    and lookparent_gains: "w_good W s \<Longrightarrow> 0 < w_refs W s v \<Longrightarrow> gains W res_dir (vop_lookparent ops v name n) s"
    and remove_neutral: "w_good W s \<Longrightarrow> 0 < w_refs W s v \<Longrightarrow> gains W none (vop_remove ops v name) s"
    and rename_neutral: "w_good W s \<Longrightarrow> 0 < w_refs W s v \<Longrightarrow> 0 < w_refs W s w \<Longrightarrow> gains W none (vop_rename ops v n1 w n2) s"
    and link_neutral: "w_good W s \<Longrightarrow> 0 < w_refs W s v \<Longrightarrow> 0 < w_refs W s w \<Longrightarrow> gains W none (vop_link ops v name w) s"
    and getvolname_neutral: "w_good W s \<Longrightarrow> fsok f \<Longrightarrow> gains W none (fs_getvolname ops f) s"
    and getroot_gains: "w_good W s \<Longrightarrow> fsok f \<Longrightarrow> gains W Some (fs_getroot ops f) s"

section \<open>The state of the layer\<close>

definition kd_ok :: "'z nsys_scheme vnode_view \<Rightarrow> (nat \<Rightarrow> bool) \<Rightarrow> 'z nsys_scheme \<Rightarrow> knowndev \<Rightarrow> bool" where
  "kd_ok W fsok s kd \<longleftrightarrow> (case kd_fs kd of None \<Rightarrow> kd_device kd \<noteq> None | Some f \<Rightarrow> fsok f) \<and>
     (kd_rawname kd \<noteq> None \<longrightarrow> kd_device kd \<noteq> None) \<and> (kd_device kd \<noteq> None \<longrightarrow> w_pinned W s (kd_vnode kd))"

definition list_ok :: "'z nsys_scheme vnode_view \<Rightarrow> (nat \<Rightarrow> bool) \<Rightarrow> 'z nsys_scheme \<Rightarrow> bool" where
  "list_ok W fsok s \<longleftrightarrow> array_inv (knowndevs s) \<and>
     (\<forall>p\<in>set (array_list (knowndevs s)). \<exists>kd. kd_heap s p = Some kd \<and> kd_ok W fsok s kd)"

definition cwd_ok :: "'z nsys_scheme vnode_ops \<Rightarrow> 'z nsys_scheme vnode_view \<Rightarrow> (nat \<Rightarrow> bool) \<Rightarrow> 'z nsys_scheme \<Rightarrow> bool" where
  "cwd_ok ops W fsok s \<longleftrightarrow> us_cur s \<noteq> None \<and>
     (\<forall>t v. t_cwd s t = Some v \<longrightarrow> 0 < w_refs W s v \<and> (\<exists>f. vop_fs ops v = Some f \<and> fsok f)) \<and>
     (\<forall>v. bootfs_vnode s = Some v \<longrightarrow> 0 < w_refs W s v)"

definition vfs_ok :: "'z nsys_scheme vnode_ops \<Rightarrow> 'z nsys_scheme vnode_view \<Rightarrow> (nat \<Rightarrow> bool) \<Rightarrow> 'z nsys_scheme \<Rightarrow> bool" where
  "vfs_ok ops W fsok s \<longleftrightarrow> w_good W s \<and> k_mem s = [] \<and> knowndevs_lock s = Some lock_new \<and> bootfs_lock s = Some lock_new \<and>
     list_ok W fsok s \<and> cwd_ok ops W fsok s"

section \<open>Lemmas\<close>

subsection \<open>Effects\<close>

lemma bump_ge: "R v \<le> bump x R v"
  by (simp add: bump_def split: option.split)

lemma bump_gain: "bump (Some v) R v = R v + 1" "bump None R = R"
  by (simp_all add: bump_def)

lemma bump_drop: "(bump x (bump (Some v) R))(v := bump x (bump (Some v) R) v - 1) = bump x R"
  by (auto simp: bump_def fun_eq_iff split: option.split)

lemma eff_refl: "w_good W s \<Longrightarrow> eff W s s"
  by (simp add: eff_def same_vfs_def)

lemma eff_trans: "eff W s s' \<Longrightarrow> eff W s' s'' \<Longrightarrow> eff W s s''"
  by (auto simp: eff_def same_vfs_def)

lemma eff_good: "eff W s s' \<Longrightarrow> w_good W s'"
  by (simp add: eff_def)

lemma after_good: "after W s v s' \<Longrightarrow> w_good W s'"
  by (simp add: after_def eff_def)

lemma after_refl: "w_good W s \<Longrightarrow> after W s None s"
  by (simp add: after_def eff_refl bump_gain)

lemma after_trans: "after W s None s' \<Longrightarrow> after W s' v s'' \<Longrightarrow> after W s v s''"
  by (auto simp: after_def bump_gain intro: eff_trans)

lemma after_trans': "after W s v s' \<Longrightarrow> after W s' None s'' \<Longrightarrow> after W s v s''"
  by (auto simp: after_def bump_gain intro: eff_trans)

lemma after_ge: "after W s v s' \<Longrightarrow> w_refs W s w \<le> w_refs W s' w"
  by (simp add: after_def bump_ge)

lemma gains_ret: "w_good W s \<Longrightarrow> g x = None \<Longrightarrow> gains W g (kret x) s"
  by (simp add: gains_def kruns_ret after_refl)

lemma gains_cong: "gains W g m s \<Longrightarrow> (\<And>r. g r = h r) \<Longrightarrow> gains W h m s"
  unfolding gains_def by (rule kruns_mono) auto

text \<open>After a step without a gain, the gain of the rest is the gain of all.\<close>

lemma gains_bind:
  assumes "gains W none m s" and "\<And>r s'. after W s None s' \<Longrightarrow> gains W g (f r) s'"
  shows "gains W g (kbind m f) s"
  unfolding gains_def kruns_bind
proof (rule kruns_mono [OF assms(1) [unfolded gains_def]])
  fix r s'
  assume a: "after W s None s'"
  show "kruns (f r) s' (\<lambda>r. after W s (g r))"
    by (rule kruns_mono [OF assms(2) [OF a, of r, unfolded gains_def]]) (rule after_trans [OF a])
qed

text \<open>A value that is computed from a result without further steps.\<close>

lemma gains_map:
  assumes "gains W g m s" and "\<And>r. h (f r) = g r"
  shows "gains W h (kbind m (\<lambda>r. kret (f r))) s"
  unfolding gains_def kruns_bind kruns_ret
  by (rule kruns_mono [OF assms(1) [unfolded gains_def]]) (simp add: assms(2))

lemma vfs_okD:
  assumes "vfs_ok ops W fsok s"
  shows "w_good W s" and "k_mem s = []" and "knowndevs_lock s = Some lock_new" and "bootfs_lock s = Some lock_new"
    and "list_ok W fsok s" and "cwd_ok ops W fsok s"
  using assms by (simp_all add: vfs_ok_def)

lemma list_ok_eff: "list_ok W fsok s \<Longrightarrow> eff W s s' \<Longrightarrow> list_ok W fsok s'"
  by (auto simp: list_ok_def eff_def same_vfs_def kd_ok_def)

lemma vfs_ok_eff:
  assumes "vfs_ok ops W fsok s" and "eff W s s'" and "\<And>v. 0 < w_refs W s v \<Longrightarrow> 0 < w_refs W s' v"
  shows "vfs_ok ops W fsok s'"
proof -
  have "same_vfs s s'" "w_good W s'" using assms(2) by (simp_all add: eff_def)
  moreover have "cwd_ok ops W fsok s'" using vfs_okD(6) [OF assms(1)] \<open>same_vfs s s'\<close> assms(3) by (auto simp: cwd_ok_def same_vfs_def)
  ultimately show ?thesis using vfs_okD [OF assms(1)] list_ok_eff [OF _ assms(2)] by (simp add: vfs_ok_def same_vfs_def)
qed

lemma vfs_ok_after: "vfs_ok ops W fsok s \<Longrightarrow> after W s v s' \<Longrightarrow> vfs_ok ops W fsok s'"
  by (rule vfs_ok_eff) (auto simp: after_def bump_ge intro: less_le_trans)

subsection \<open>Locks\<close>

lemma kd_lock_acquire:
  "knowndevs_lock s = Some lock_new \<Longrightarrow> kd_lock lock_acquire s = Inr ((), s\<lparr>knowndevs_lock := Some \<lparr>lk_owner = us_cur s\<rparr>\<rparr>)"
  by (simp add: kd_lock_def kbind_def lock_acquire_def lock_new_def)

lemma kd_lock_release:
  "knowndevs_lock s = Some \<lparr>lk_owner = us_cur s\<rparr> \<Longrightarrow> kd_lock lock_release s = Inr ((), s\<lparr>knowndevs_lock := Some lock_new\<rparr>)"
  by (simp add: kd_lock_def kbind_def lock_release_def lock_do_i_hold_def lock_new_def)

lemma boot_lock_acquire:
  "bootfs_lock s = Some lock_new \<Longrightarrow> boot_lock lock_acquire s = Inr ((), s\<lparr>bootfs_lock := Some \<lparr>lk_owner = us_cur s\<rparr>\<rparr>)"
  by (simp add: boot_lock_def kbind_def lock_acquire_def lock_new_def)

lemma boot_lock_release:
  "bootfs_lock s = Some \<lparr>lk_owner = us_cur s\<rparr> \<Longrightarrow> boot_lock lock_release s = Inr ((), s\<lparr>bootfs_lock := Some lock_new\<rparr>)"
  by (simp add: boot_lock_def kbind_def lock_release_def lock_do_i_hold_def lock_new_def)

lemma kd_at_run:
  assumes "list_ok W fsok s" and "i < nat (arr_num (knowndevs s))"
  obtains p kd where "kd_at i s = Inr ((p, kd), s)" and "kd_ok W fsok s kd"
proof -
  let ?a = "knowndevs s"
  have inv: "array_inv ?a" using assms(1) by (simp add: list_ok_def)
  have g: "array_getguy ?a (int i) = Inr (Some (array_list ?a ! i))"
    using array_getguy_list [OF inv, of "int i"] assms(2) by simp
  have "array_list ?a ! i \<in> set (array_list ?a)"
    using assms(2) inv by (intro nth_mem) (auto simp: array_list_def array_cells_def array_inv_def array_shape_def split: option.splits)
  then obtain kd where "kd_heap s (array_list ?a ! i) = Some kd" "kd_ok W fsok s kd" using assms(1) by (auto simp: list_ok_def)
  with g show thesis by (intro that [of "array_list ?a ! i" kd]) (simp_all add: kd_at_def kbind_def kd_get_def)
qed

subsection \<open>Paths\<close>

definition res_start :: "errno + 'a \<times> nat \<Rightarrow> nat option" where
  "res_start r = (case r of Inl _ \<Rightarrow> None | Inr (_, v) \<Rightarrow> Some v)"

definition test_vn :: "(errno + nat) option \<Rightarrow> nat option" where
  "test_vn r = Option.bind r res_vn"

lemma res_start_simps [simp]: "res_start (Inl e) = None" "res_start (Inr (x, v)) = Some v"
  "test_vn None = None" "test_vn (Some r) = res_vn r"
  by (simp_all add: res_start_def test_vn_def)

lemma find_sep_ge: "find_sep i cs = (a, b) \<Longrightarrow> (a = -1 \<or> i \<le> a) \<and> (b = -1 \<or> i \<le> b)"
  by (induction cs arbitrary: i) (fastforce split: if_splits)+

lemma find_sep_hd: "find_sep 0 cs = (a, b) \<Longrightarrow> b = 0 \<or> a = 0 \<Longrightarrow> hd cs = colon_char \<or> hd cs = slash_char"
  using find_sep_ge [of "0 + 1" "tl cs" a b] by (cases cs) (auto split: if_splits)

lemma gains_startE:
  assumes "gains W res_vn m s"
  shows "gains W res_start (kbindE m (\<lambda>v. kret (Inr (x, v)))) s"
  unfolding gains_def kruns_bindE kruns_ret
  by (rule kruns_mono [OF assms [unfolded gains_def]]) (auto split: sum.split)

lemma lock_made: "k_mem s = [] \<Longrightarrow> lock_create_p s = Inr (Some lock_new, s)"
  by (simp add: lock_create_p_def kbind_def kalloc_def)

text \<open>\<open>opened_vn W s v s'\<close>: from \<open>s\<close> to \<open>s'\<close> the vnode \<open>v\<close> was opened.\<close>

definition opened_vn :: "'z nsys_scheme vnode_view \<Rightarrow> 'z nsys_scheme \<Rightarrow> nat \<Rightarrow> 'z nsys_scheme \<Rightarrow> bool" where
  "opened_vn W s v s' \<longleftrightarrow> eff W (s\<lparr>rw_lock := (rw_lock s)(v := RwLive lock_new)\<rparr>) s' \<and>
     w_refs W s' = bump (Some v) (w_refs W s) \<and> w_opens W s' = bump (Some v) (w_opens W s)"

definition opened_or_not :: "'z nsys_scheme vnode_view \<Rightarrow> 'z nsys_scheme \<Rightarrow> errno + nat \<Rightarrow> 'z nsys_scheme \<Rightarrow> bool" where
  "opened_or_not W s r s' = (case r of Inl e \<Rightarrow> after W s None s' | Inr v \<Rightarrow> opened_vn W s v s')"

definition closed_vn :: "'z nsys_scheme vnode_view \<Rightarrow> 'z nsys_scheme \<Rightarrow> nat \<Rightarrow> 'z nsys_scheme \<Rightarrow> bool" where
  "closed_vn W s v s' \<longleftrightarrow> eff W (s\<lparr>rw_lock := (rw_lock s)(v := RwFreed)\<rparr>) s' \<and>
     w_refs W s' = (w_refs W s)(v := w_refs W s v - 1) \<and> w_opens W s' = (w_opens W s)(v := w_opens W s v - 1)"

subsection \<open>Clients of the contract\<close>

context vnode_layer
begin

lemma frame [simp]:
  "w_good W (s\<lparr>knowndevs_lock := x\<rparr>) = w_good W s" "w_good W (s\<lparr>bootfs_lock := x\<rparr>) = w_good W s" "w_good W (s\<lparr>rw_lock := y\<rparr>) = w_good W s"
  "w_pinned W (s\<lparr>knowndevs_lock := x\<rparr>) = w_pinned W s" "w_pinned W (s\<lparr>bootfs_lock := x\<rparr>) = w_pinned W s" "w_pinned W (s\<lparr>rw_lock := y\<rparr>) = w_pinned W s"
  "w_refs W (s\<lparr>knowndevs_lock := x\<rparr>) = w_refs W s" "w_refs W (s\<lparr>bootfs_lock := x\<rparr>) = w_refs W s" "w_refs W (s\<lparr>rw_lock := y\<rparr>) = w_refs W s"
  "w_opens W (s\<lparr>knowndevs_lock := x\<rparr>) = w_opens W s" "w_opens W (s\<lparr>bootfs_lock := x\<rparr>) = w_opens W s" "w_opens W (s\<lparr>rw_lock := y\<rparr>) = w_opens W s"
  using frames by (simp_all add: framed_def)

text \<open>A reference that was gained is given back after a further step.\<close>

lemma drop_ref:
  assumes "w_good W s" and "after W s (Some v) s1" and "gains W g m s1"
  shows "kruns (kbind m (\<lambda>r. kbind (vop_decref ops v) (\<lambda>_. kret (h r)))) s1 (\<lambda>x s'. \<exists>r. x = h r \<and> after W s (g r) s')"
  unfolding kruns_bind kruns_ret
proof (rule kruns_mono [OF assms(3) [unfolded gains_def]])
  fix r s2
  assume a: "after W s1 (g r) s2"
  have refs: "w_refs W s2 = bump (g r) (bump (Some v) (w_refs W s))" using a assms(2) by (simp add: after_def)
  have "0 < w_refs W s2 v"
    using bump_ge [of "bump (Some v) (w_refs W s)" v "g r"] refs_nonneg [OF assms(1), of v] by (simp add: refs bump_gain)
  then show "kruns (vop_decref ops v) s2 (\<lambda>_ s'. \<exists>q. h r = h q \<and> after W s (g q) s')"
  proof (rule kruns_mono [OF decref [OF after_good [OF a]]], intro exI [of _ r] conjI refl)
    fix s3
    assume d: "eff W s2 s3 \<and> w_opens W s3 = w_opens W s2 \<and> w_refs W s3 = (w_refs W s2)(v := w_refs W s2 v - 1)"
    have "eff W s s3" using a assms(2) d by (auto simp: after_def intro: eff_trans)
    moreover have "w_refs W s3 = bump (g r) (w_refs W s)" using d unfolding refs by (simp only: bump_drop)
    ultimately show "after W s (g r) s3" using a assms(2) d by (simp add: after_def)
  qed
qed

lemma drop_gains:
  assumes "w_good W s" and "after W s (Some v) s1" and "gains W g m s1"
  shows "kruns (kbind m (\<lambda>r. kbind (vop_decref ops v) (\<lambda>_. kret r))) s1 (\<lambda>r. after W s (g r))"
  by (rule kruns_mono [OF drop_ref [OF assms, where h = "\<lambda>r. r"]]) auto

lemma drop_now:
  assumes "w_good W s" and "after W s (Some v) s1"
  shows "kruns (kbind (vop_decref ops v) (\<lambda>_. kret x)) s1 (\<lambda>r s'. r = x \<and> after W s None s')"
  using drop_ref [OF assms, of none "kret ()" "\<lambda>_. x"] gains_ret [OF after_good [OF assms(2)], of none "()"] by (simp add: kruns_simps)

lemma with_kd_lock:
  assumes "w_good W s" and "knowndevs_lock s = Some lock_new" and "gains W g m (s\<lparr>knowndevs_lock := Some \<lparr>lk_owner = us_cur s\<rparr>\<rparr>)"
  shows "gains W g (kbind (kd_lock lock_acquire) (\<lambda>_. kbind m (\<lambda>r. kbind (kd_lock lock_release) (\<lambda>_. kret r)))) s"
proof -
  let ?s1 = "s\<lparr>knowndevs_lock := Some \<lparr>lk_owner = us_cur s\<rparr>\<rparr>"
  from assms(3) obtain r s2 where m: "m ?s1 = Inr (r, s2)" "after W ?s1 (g r) s2" by (auto simp: gains_def kruns_iff)
  then have same: "same_vfs ?s1 s2" by (simp add: after_def eff_def)
  have "after W s (g r) (s2\<lparr>knowndevs_lock := Some lock_new\<rparr>)"
    using m(2) assms(2) by (auto simp: after_def eff_def same_vfs_def)
  moreover have "knowndevs_lock s2 = Some \<lparr>lk_owner = us_cur s2\<rparr>" using same by (simp add: same_vfs_def)
  ultimately show ?thesis using m(1) kd_lock_acquire [OF assms(2)] kd_lock_release [of s2] by (simp add: gains_def kruns_iff kbind_def)
qed

lemma with_boot_lock:
  assumes "w_good W s" and "bootfs_lock s = Some lock_new" and "gains W g m (s\<lparr>bootfs_lock := Some \<lparr>lk_owner = us_cur s\<rparr>\<rparr>)"
  shows "gains W g (kbind (boot_lock lock_acquire) (\<lambda>_. kbind m (\<lambda>r. kbind (boot_lock lock_release) (\<lambda>_. kret r)))) s"
proof -
  let ?s1 = "s\<lparr>bootfs_lock := Some \<lparr>lk_owner = us_cur s\<rparr>\<rparr>"
  from assms(3) obtain r s2 where m: "m ?s1 = Inr (r, s2)" "after W ?s1 (g r) s2" by (auto simp: gains_def kruns_iff)
  then have same: "same_vfs ?s1 s2" by (simp add: after_def eff_def)
  have "after W s (g r) (s2\<lparr>bootfs_lock := Some lock_new\<rparr>)"
    using m(2) assms(2) by (auto simp: after_def eff_def same_vfs_def)
  moreover have "bootfs_lock s2 = Some \<lparr>lk_owner = us_cur s2\<rparr>" using same by (simp add: same_vfs_def)
  ultimately show ?thesis using m(1) boot_lock_acquire [OF assms(2)] boot_lock_release [of s2] by (simp add: gains_def kruns_iff kbind_def)
qed

lemma getroot_test_gains:
  assumes "w_good W s" and "kd_ok W fsok s kd"
  shows "gains W test_vn (getroot_test ops devname kd) s"
proof -
  have dev: "gains W test_vn (kbind (vop_incref ops (kd_vnode kd)) (\<lambda>_. kret (Some (Inr (kd_vnode kd))))) s'"
    if "after W s None s'" "kd_device kd \<noteq> None" for s'
  proof (rule gains_map)
    have "w_pinned W s' (kd_vnode kd)" using that assms(2) by (auto simp: kd_ok_def after_def eff_def)
    then show "gains W (\<lambda>_. Some (kd_vnode kd)) (vop_incref ops (kd_vnode kd)) s'" using incref after_good [OF that(1)] by blast
  qed simp
  show ?thesis
  proof (cases "kd_fs kd")
    case None
    then have d: "kd_device kd \<noteq> None" using assms(2) by (simp add: kd_ok_def)
    show ?thesis
      using None d dev [OF after_refl [OF assms(1)] d] gains_ret [OF assms(1), of test_vn "Some (Inl ENXIO)"] gains_ret [OF assms(1), of test_vn None]
      by (auto simp: getroot_test_def gains_def kruns_simps)
  next
    case (Some f)
    then have f: "fsok f" using assms(2) by (simp add: kd_ok_def)
    let ?hit = "\<lambda>vol. kd_name kd = devname \<or> vol = Some devname"
    have root: "kruns (fs_getroot ops f) s' (\<lambda>v. after W s (Some v))" if "after W s None s'" for s'
      by (rule kruns_mono [OF getroot_gains [OF after_good [OF that] f, unfolded gains_def]]) (rule after_trans [OF that])
    have raw: "kruns (kbind (vop_incref ops (kd_vnode kd)) (\<lambda>_. kret (Some (Inr (kd_vnode kd))))) s' (\<lambda>r. after W s (test_vn r))"
      if "after W s None s'" "kd_rawname kd = Some devname" for s'
    proof (rule kruns_mono)
      show "kruns (kbind (vop_incref ops (kd_vnode kd)) (\<lambda>_. kret (Some (Inr (kd_vnode kd))))) s' (\<lambda>r. after W s' (test_vn r))"
        using dev [OF that(1)] that(2) assms(2) by (auto simp: gains_def kd_ok_def)
    qed (rule after_trans [OF that(1)])
    have step: "kruns (if ?hit vol then kbind (fs_getroot ops f) (\<lambda>v. kret (Some (Inr v))) else kret None) s1
        (\<lambda>r s'. kruns (if r \<noteq> None then kret r
          else if kd_name kd = devname then khalt AssertFail
          else if kd_rawname kd = Some devname then
            kbind (kassert (kd_device kd \<noteq> None)) (\<lambda>_. kbind (vop_incref ops (kd_vnode kd)) (\<lambda>_. kret (Some (Inr (kd_vnode kd)))))
          else kret None) s' (\<lambda>r. after W s (test_vn r)))" if a: "after W s None s1" for vol s1
      using root [OF a] raw [OF a] a assms(2) by (auto simp: kruns_simps kd_ok_def)
    show ?thesis unfolding gains_def getroot_test_def kruns_bind [of "case kd_fs kd of None \<Rightarrow> _ | Some x \<Rightarrow> _ x"]
      unfolding Some option.case kruns_bind [of "fs_getvolname ops f"]
      by (rule kruns_mono [OF getvolname_neutral [OF assms(1) f, unfolded gains_def]], drule step)
        (auto simp: kruns_simps split: if_splits)
  qed
qed

lemma getroot_loop_gains:
  assumes "w_good W s" and "list_ok W fsok s" and "\<forall>i\<in>set is. i < nat (arr_num (knowndevs s))"
  shows "gains W res_vn (getroot_loop ops devname is) s"
  using assms
proof (induction "is" arbitrary: s)
  case Nil
  then show ?case using gains_ret [of W s res_vn] by (simp only: getroot_loop.simps res_simps)
next
  case (Cons i "is")
  obtain p kd where at: "kd_at i s = Inr ((p, kd), s)" "kd_ok W fsok s kd" using kd_at_run [OF Cons.prems(2)] Cons.prems(3) by auto
  have "kruns (getroot_test ops devname kd) s
     (\<lambda>r s'. kruns (case r of None \<Rightarrow> getroot_loop ops devname is | Some res \<Rightarrow> kret res) s' (\<lambda>r. after W s (res_vn r)))"
  proof (rule kruns_mono [OF getroot_test_gains [OF Cons.prems(1) at(2), unfolded gains_def]])
    fix r s1
    assume a: "after W s (test_vn r) s1"
    show "kruns (case r of None \<Rightarrow> getroot_loop ops devname is | Some res \<Rightarrow> kret res) s1 (\<lambda>r. after W s (res_vn r))"
    proof (cases r)
      case None
      then have n: "after W s None s1" using a by simp
      have "gains W res_vn (getroot_loop ops devname is) s1"
        using Cons.IH [OF after_good [OF n]] list_ok_eff [OF Cons.prems(2)] n Cons.prems(3) by (auto simp: after_def eff_def same_vfs_def)
      then show ?thesis unfolding None option.case gains_def by (rule kruns_mono) (rule after_trans [OF n])
    next
      case (Some res)
      then show ?thesis using a by (simp add: kruns_simps)
    qed
  qed
  then show ?case by (simp add: gains_def kruns_bind kruns_Inr [of "kd_at i" s, OF at(1)])
qed

lemma vfs_getroot_gains:
  assumes "vfs_ok ops W fsok s"
  shows "gains W res_vn (vfs_getroot ops devname) s"
proof -
  let ?s1 = "s\<lparr>knowndevs_lock := Some \<lparr>lk_owner = us_cur s\<rparr>\<rparr>" and ?n = "nat (arr_num (knowndevs s))"
  note ok = vfs_okD [OF assms]
  have "list_ok W fsok ?s1" using ok(5) by (simp add: list_ok_def kd_ok_def)
  then have "gains W res_vn (getroot_loop ops devname [0..<?n]) ?s1" using getroot_loop_gains [of ?s1 "[0..<?n]"] ok(1) by simp
  from with_kd_lock [OF ok(1,3) this] show ?thesis
    unfolding vfs_getroot_def gains_def kruns_bind kd_num_def kruns_get kruns_Inr [of "kd_lock lock_acquire" s, OF kd_lock_acquire [OF ok(3)]] by (simp add: array_getnum_def)
qed

lemma getcurdir_gains:
  assumes "vfs_ok ops W fsok s"
  shows "kruns (vfs_getcurdir ops) s (\<lambda>r s'. after W s (res_vn r) s' \<and> (\<forall>v. r = Inr v \<longrightarrow> (\<exists>f. vop_fs ops v = Some f \<and> fsok f)))"
proof -
  note ok = vfs_okD [OF assms]
  obtain t where t: "us_cur s = Some t" using ok(6) by (auto simp: cwd_ok_def)
  show ?thesis
  proof (cases "t_cwd s t")
    case None
    then show ?thesis using t after_refl [OF ok(1)] by (simp add: vfs_getcurdir_def cur_thread_def kruns_simps)
  next
    case (Some v)
    then have v: "0 < w_refs W s v" "\<exists>f. vop_fs ops v = Some f \<and> fsok f" using ok(6) by (auto simp: cwd_ok_def)
    have "kruns (vop_incref ops v) s (\<lambda>_. after W s (Some v))" using incref [OF ok(1)] v(1) by (simp add: gains_def)
    then show ?thesis using t Some v(2) by (simp add: vfs_getcurdir_def cur_thread_def kruns_simps)
  qed
qed

lemma boot_gains:
  assumes "vfs_ok ops W fsok s"
  shows "gains W res_vn (kbind (boot_lock lock_acquire) (\<lambda>_.
     kbind (kget bootfs_vnode) (\<lambda>b.
     case b of
       None \<Rightarrow> kbind (boot_lock lock_release) (\<lambda>_. kret (Inl ENOENT))
     | Some v \<Rightarrow> kbind (vop_incref ops v) (\<lambda>_. kbind (boot_lock lock_release) (\<lambda>_. kret (Inr v)))))) s"
proof -
  note ok = vfs_okD [OF assms]
  let ?s1 = "s\<lparr>bootfs_lock := Some \<lparr>lk_owner = us_cur s\<rparr>\<rparr>"
  have g1: "w_good W ?s1" using ok(1) by simp
  note acq = kruns_Inr [of "boot_lock lock_acquire" s, OF boot_lock_acquire [OF ok(4)]]
  show ?thesis
  proof (cases "bootfs_vnode s")
    case None
    from with_boot_lock [OF ok(1,4) gains_ret [OF g1, of res_vn "Inl ENOENT"]] None show ?thesis
      by (simp add: gains_def kruns_simps acq)
  next
    case (Some v)
    then have "0 < w_refs W ?s1 v" using ok(6) by (simp add: cwd_ok_def)
    then have "gains W (\<lambda>_. Some v) (vop_incref ops v) ?s1" using incref g1 by blast
    from with_boot_lock [OF ok(1,4) gains_map [OF this, of res_vn "\<lambda>_. Inr v"]] Some show ?thesis
      by (simp add: gains_def kruns_simps acq)
  qed
qed

lemma curroot_gains:
  assumes "vfs_ok ops W fsok s"
  shows "gains W res_vn (kbindE (vfs_getcurdir ops) (\<lambda>vn.
     case vop_fs ops vn of
       None \<Rightarrow> khalt AssertFail
     | Some fs \<Rightarrow> kbind (fs_getroot ops fs) (\<lambda>v. kbind (vop_decref ops vn) (\<lambda>_. kret (Inr v))))) s"
  unfolding gains_def kruns_bindE
proof (rule kruns_mono [OF getcurdir_gains [OF assms]])
  fix r s1
  assume a: "after W s (res_vn r) s1 \<and> (\<forall>v. r = Inr v \<longrightarrow> (\<exists>f. vop_fs ops v = Some f \<and> fsok f))"
  show "case r of Inl e \<Rightarrow> after W s (res_vn (Inl e)) s1
    | Inr vn \<Rightarrow> kruns (case vop_fs ops vn of None \<Rightarrow> khalt AssertFail
        | Some fs \<Rightarrow> kbind (fs_getroot ops fs) (\<lambda>v. kbind (vop_decref ops vn) (\<lambda>_. kret (Inr v)))) s1 (\<lambda>r. after W s (res_vn r))"
  proof (cases r)
    case (Inl e)
    then show ?thesis using a by simp
  next
    case (Inr vn)
    then obtain f where f: "vop_fs ops vn = Some f" "fsok f" "after W s (Some vn) s1" using a by auto
    have "kruns (kbind (fs_getroot ops f) (\<lambda>v. kbind (vop_decref ops vn) (\<lambda>_. kret (Inr v)))) s1 (\<lambda>x s'. \<exists>v. x = Inr v \<and> after W s (Some v) s')"
      using drop_ref [OF vfs_okD(1) [OF assms] f(3) getroot_gains [OF after_good [OF f(3)] f(2)], of Inr] .
    then show ?thesis unfolding Inr sum.case f(1) option.case by (rule kruns_mono) auto
  qed
qed

lemma getdevice_gains:
  assumes "vfs_ok ops W fsok s"
  shows "gains W res_start (getdevice ops pathname) s"
proof -
  obtain slash colon where sep: "find_sep 0 pathname = (slash, colon)" by fastforce
  have cur: "gains W res_vn (vfs_getcurdir ops) s"
    unfolding gains_def by (rule kruns_mono [OF getcurdir_gains [OF assms]]) simp
  consider "colon < 0 \<and> slash \<noteq> 0" | "0 < colon" | "\<not> (colon < 0 \<and> slash \<noteq> 0)" "\<not> 0 < colon" by blast
  then show ?thesis
  proof cases
    case 1
    then show ?thesis using gains_startE [OF cur] by (simp add: getdevice_def sep)
  next
    case 2
    then show ?thesis using gains_startE [OF vfs_getroot_gains [OF assms]] by (simp add: getdevice_def sep)
  next
    case 3
    then have c: "colon = 0 \<or> slash = 0" by auto
    have h: "hd pathname \<noteq> slash_char \<Longrightarrow> hd pathname = colon_char" using find_sep_hd [OF sep] c by auto
    have n: "(colon < 0 \<and> slash \<noteq> 0) = False" "(0 < colon) = False" "(colon = 0 \<or> slash = 0) = True" using 3 c by auto
    show ?thesis
    proof (cases "hd pathname = slash_char")
      case True
      show ?thesis using gains_startE [OF boot_gains [OF assms], of "skip_slashes (drop 1 pathname)"]
        unfolding getdevice_def sep Let_def prod.case n if_False gains_def kruns_bind kruns_assert if_P [OF True] by simp
    next
      case False
      show ?thesis using gains_startE [OF curroot_gains [OF assms], of "skip_slashes (drop 1 pathname)"] h [OF False]
        unfolding getdevice_def sep Let_def prod.case n if_False gains_def kruns_bind kruns_bindE kruns_assert if_not_P [OF False] by simp
    qed
  qed
qed

lemma vfs_lookparent_gains:
  assumes "vfs_ok ops W fsok s"
  shows "gains W res_dir (vfs_lookparent ops pathname n) s"
  unfolding gains_def vfs_lookparent_def kruns_bindE
proof (rule kruns_mono [OF getdevice_gains [OF assms, unfolded gains_def]])
  fix r :: "errno + byte list \<times> nat" and s1
  assume a: "after W s (res_start r) s1"
  show "case r of Inl e \<Rightarrow> after W s (res_dir (Inl e)) s1
    | Inr x \<Rightarrow> kruns (case x of (sub, startvn) \<Rightarrow>
        kbind (if sub = [] then kret (Inl EINVAL) else vop_lookparent ops startvn sub n) (\<lambda>r. kbind (vop_decref ops startvn) (\<lambda>_. kret r))) s1
        (\<lambda>r. after W s (res_dir r))"
  proof (cases r)
    case (Inr x)
    obtain sub v where x: "x = (sub, v)" by fastforce
    have b: "after W s (Some v) s1" using a Inr x by simp
    have pos: "0 < w_refs W s1 v" using b refs_nonneg [OF vfs_okD(1) [OF assms], of v] by (simp add: after_def bump_gain)
    have "gains W res_dir (if sub = [] then kret (Inl EINVAL) else vop_lookparent ops v sub n) s1"
      using lookparent_gains [OF after_good [OF b] pos] by (auto intro: gains_ret after_good [OF b])
    from drop_gains [OF vfs_okD(1) [OF assms] b this] show ?thesis by (simp add: Inr x)
  qed (use a in simp)
qed

lemma vfs_lookup_gains:
  assumes "vfs_ok ops W fsok s"
  shows "gains W res_vn (vfs_lookup ops pathname) s"
  unfolding gains_def vfs_lookup_def kruns_bindE
proof (rule kruns_mono [OF getdevice_gains [OF assms, unfolded gains_def]])
  fix r :: "errno + byte list \<times> nat" and s1
  assume a: "after W s (res_start r) s1"
  show "case r of Inl e \<Rightarrow> after W s (res_vn (Inl e)) s1
    | Inr x \<Rightarrow> kruns (case x of (sub, startvn) \<Rightarrow>
        if sub = [] then kret (Inr startvn) else kbind (vop_lookup ops startvn sub) (\<lambda>r. kbind (vop_decref ops startvn) (\<lambda>_. kret r))) s1
        (\<lambda>r. after W s (res_vn r))"
  proof (cases r)
    case (Inr x)
    obtain sub v where x: "x = (sub, v)" by fastforce
    have b: "after W s (Some v) s1" using a Inr x by simp
    have pos: "0 < w_refs W s1 v" using b refs_nonneg [OF vfs_okD(1) [OF assms], of v] by (simp add: after_def bump_gain)
    from drop_gains [OF vfs_okD(1) [OF assms] b lookup_gains [OF after_good [OF b] pos]] b show ?thesis
      by (simp add: Inr x kruns_ret)
  qed (use a in simp)
qed

text \<open>What is done with the directory of a path, when it keeps the references.\<close>

lemma at_parent_gains:
  assumes "vfs_ok ops W fsok s" and "\<And>s1 v name. vfs_ok ops W fsok s1 \<Longrightarrow> 0 < w_refs W s1 v \<Longrightarrow> gains W g (f v name) s1"
    and "\<And>e. g (Inl e) = None"
  shows "gains W g (kbindE (vfs_lookparent ops pathname n) (\<lambda>(dir, name). kbind (f dir name) (\<lambda>r. kbind (vop_decref ops dir) (\<lambda>_. kret r)))) s"
  unfolding gains_def kruns_bindE
proof (rule kruns_mono [OF vfs_lookparent_gains [OF assms(1), unfolded gains_def]])
  fix r :: "errno + nat \<times> byte list" and s1
  assume a: "after W s (res_dir r) s1"
  show "case r of Inl e \<Rightarrow> after W s (g (Inl e)) s1
    | Inr x \<Rightarrow> kruns (case x of (dir, name) \<Rightarrow> kbind (f dir name) (\<lambda>r. kbind (vop_decref ops dir) (\<lambda>_. kret r))) s1 (\<lambda>r. after W s (g r))"
  proof (cases r)
    case (Inr x)
    obtain v name where x: "x = (v, name)" by fastforce
    have b: "after W s (Some v) s1" using a Inr x by simp
    have pos: "0 < w_refs W s1 v" using b refs_nonneg [OF vfs_okD(1) [OF assms(1)], of v] by (simp add: after_def bump_gain)
    from drop_gains [OF vfs_okD(1) [OF assms(1)] b assms(2) [OF vfs_ok_after [OF assms(1) b] pos]] show ?thesis by (simp add: Inr x)
  qed (use a assms(3) in simp)
qed

lemma open_find_gains:
  assumes "vfs_ok ops W fsok s"
  shows "gains W res_vn (open_find ops pathname flags) s"
proof (cases "flags AND O_CREAT \<noteq> 0")
  case True
  have "gains W res_vn (kbindE (vfs_lookparent ops pathname (NAME_MAX + 1)) (\<lambda>(dir, name).
     kbind (vop_creat ops dir name (flags AND O_EXCL \<noteq> 0)) (\<lambda>r. kbind (vop_decref ops dir) (\<lambda>_. kret r)))) s"
    by (rule at_parent_gains [OF assms]) (auto intro: creat_gains vfs_okD(1))
  then show ?thesis using True by (simp add: open_find_def)
next
  case False
  then show ?thesis using vfs_lookup_gains [OF assms] by (simp add: open_find_def)
qed

lemma vfs_remove_neutral: "vfs_ok ops W fsok s \<Longrightarrow> gains W none (vfs_remove ops pathname) s"
  unfolding vfs_remove_def at_parent_def by (rule at_parent_gains) (auto intro: remove_neutral vfs_okD(1))

lemma two_drops:
  assumes "w_good W s" and "after W s (Some v) s1" and "after W s1 (Some w) s2" and "gains W none m s2"
  shows "kruns (kbind m (\<lambda>r. kbind (vop_decref ops w) (\<lambda>_. kbind (vop_decref ops v) (\<lambda>_. kret r)))) s2 (\<lambda>_. after W s None)"
  unfolding kruns_bind kruns_ret
proof (rule kruns_mono [OF drop_gains [OF after_good [OF assms(2)] assms(3,4), unfolded kruns_bind kruns_ret]])
  fix r s3
  assume "kruns (vop_decref ops w) s3 (\<lambda>_. after W s1 None)"
  then show "kruns (vop_decref ops w) s3 (\<lambda>_ s'. kruns (vop_decref ops v) s' (\<lambda>_. after W s None))"
  proof (rule kruns_mono)
    fix s4
    assume "after W s1 None s4"
    then have "after W s (Some v) s4" by (rule after_trans' [OF assms(2)])
    from drop_now [OF assms(1) this, of "()"] show "kruns (vop_decref ops v) s4 (\<lambda>_. after W s None)" by (simp add: kruns_simps)
  qed
qed

lemma pair_neutral:
  assumes "vfs_ok ops W fsok s" and "after W s (Some v) s1"
    and "\<And>s2 w name. w_good W s2 \<Longrightarrow> 0 < w_refs W s2 v \<Longrightarrow> 0 < w_refs W s2 w \<Longrightarrow> gains W none (f w name) s2"
  shows "kruns (kbind (vfs_lookparent ops pathname n) (\<lambda>r.
     case r of
       Inl e \<Rightarrow> kbind (vop_decref ops v) (\<lambda>_. kret (Inl e))
     | Inr (w, name) \<Rightarrow> kbind (f w name) (\<lambda>r. kbind (vop_decref ops w) (\<lambda>_. kbind (vop_decref ops v) (\<lambda>_. kret r))))) s1 (\<lambda>_. after W s None)"
  unfolding kruns_bind [of "vfs_lookparent ops pathname n"]
proof (rule kruns_mono [OF vfs_lookparent_gains [OF vfs_ok_after [OF assms(1,2)], unfolded gains_def]])
  fix r :: "errno + nat \<times> byte list" and s2
  assume a: "after W s1 (res_dir r) s2"
  note good = vfs_okD(1) [OF assms(1)]
  show "kruns (case r of
       Inl e \<Rightarrow> kbind (vop_decref ops v) (\<lambda>_. kret (Inl e))
     | Inr (w, name) \<Rightarrow> kbind (f w name) (\<lambda>r. kbind (vop_decref ops w) (\<lambda>_. kbind (vop_decref ops v) (\<lambda>_. kret r)))) s2 (\<lambda>_. after W s None)"
  proof (cases r)
    case (Inl e)
    then have "after W s (Some v) s2" using a after_trans' [OF assms(2)] by simp
    from drop_now [OF good this] show ?thesis unfolding Inl sum.case by (rule kruns_mono) simp
  next
    case (Inr x)
    obtain w name where x: "x = (w, name)" by fastforce
    have b: "after W s1 (Some w) s2" using a Inr x by simp
    have v1: "0 < w_refs W s1 v" using assms(2) refs_nonneg [OF good, of v] by (simp add: after_def bump_gain)
    have w2: "0 < w_refs W s2 w" using b refs_nonneg [OF after_good [OF assms(2)], of w] by (simp add: after_def bump_gain)
    have v2: "0 < w_refs W s2 v" using v1 after_ge [OF b, of v] by simp
    from two_drops [OF good assms(2) b assms(3) [OF after_good [OF b] v2 w2]] show ?thesis by (simp add: Inr x)
  qed
qed

lemma vfs_rename_neutral:
  assumes "vfs_ok ops W fsok s"
  shows "gains W none (vfs_rename ops oldpath newpath) s"
  unfolding gains_def vfs_rename_def kruns_bindE
proof (rule kruns_mono [OF vfs_lookparent_gains [OF assms, unfolded gains_def]])
  fix r :: "errno + nat \<times> byte list" and s1
  assume a: "after W s (res_dir r) s1"
  show "case r of Inl e \<Rightarrow> after W s None s1
    | Inr x \<Rightarrow> kruns (case x of (olddir, oldname) \<Rightarrow>
        kbind (vfs_lookparent ops newpath (NAME_MAX + 1)) (\<lambda>r.
        case r of
          Inl e \<Rightarrow> kbind (vop_decref ops olddir) (\<lambda>_. kret (Inl e))
        | Inr (newdir, newname) \<Rightarrow>
            kbind (if \<not> same_fs ops olddir newdir then kret (Inl EXDEV) else vop_rename ops olddir oldname newdir newname) (\<lambda>r.
            kbind (vop_decref ops newdir) (\<lambda>_. kbind (vop_decref ops olddir) (\<lambda>_. kret r))))) s1 (\<lambda>r. after W s None)"
  proof (cases r)
    case (Inr x)
    obtain v name where x: "x = (v, name)" by fastforce
    have b: "after W s (Some v) s1" using a Inr x by simp
    have "gains W none (if \<not> same_fs ops v w then kret (Inl EXDEV) else vop_rename ops v name w n2) s2"
      if "w_good W s2" "0 < w_refs W s2 v" "0 < w_refs W s2 w" for s2 w n2
      using that rename_neutral by (auto intro: gains_ret)
    from pair_neutral [OF assms b this] show ?thesis by (simp add: Inr x)
  qed (use a in simp)
qed

lemma vfs_link_neutral:
  assumes "vfs_ok ops W fsok s"
  shows "gains W none (vfs_link ops oldpath newpath) s"
  unfolding gains_def vfs_link_def kruns_bindE
proof (rule kruns_mono [OF vfs_lookup_gains [OF assms, unfolded gains_def]])
  fix r s1
  assume a: "after W s (res_vn r) s1"
  show "case r of Inl e \<Rightarrow> after W s None s1
    | Inr v \<Rightarrow> kruns (kbind (vfs_lookparent ops newpath (NAME_MAX + 1)) (\<lambda>r.
        case r of
          Inl e \<Rightarrow> kbind (vop_decref ops v) (\<lambda>_. kret (Inl e))
        | Inr (newdir, newname) \<Rightarrow>
            kbind (if \<not> same_fs ops v newdir then kret (Inl EXDEV) else vop_link ops newdir newname v) (\<lambda>r.
            kbind (vop_decref ops newdir) (\<lambda>_. kbind (vop_decref ops v) (\<lambda>_. kret r))))) s1 (\<lambda>r. after W s None)"
  proof (cases r)
    case (Inr v)
    have b: "after W s (Some v) s1" using a Inr by simp
    have "gains W none (if \<not> same_fs ops v w then kret (Inl EXDEV) else vop_link ops w n2 v) s2"
      if "w_good W s2" "0 < w_refs W s2 v" "0 < w_refs W s2 w" for s2 w n2
      using that link_neutral by (auto intro: gains_ret)
    from pair_neutral [OF assms b this] show ?thesis by (simp add: Inr)
  qed (use a in simp)
qed

lemma open_end_counts:
  assumes "vfs_ok ops W fsok s" and "eff W s s4" and "w_refs W s4 = bump (Some v) (w_refs W s)" and "w_opens W s4 = bump (Some v) (w_opens W s)"
  shows "kruns (open_end ops v r) s4 (opened_or_not W s)"
proof (cases r)
  case (Inl e)
  note good = vfs_okD(1) [OF assms(1)]
  have pos: "0 < w_refs W s4 v" "0 < w_opens W s4 v"
    using refs_nonneg [OF good, of v] opens_nonneg [OF good, of v] by (simp_all add: assms(3,4) bump_gain)
  show ?thesis unfolding Inl open_end_def sum.case kruns_bind [of "vop_decopen ops v"]
  proof (rule kruns_mono [OF decopen [OF eff_good [OF assms(2)] pos]])
    fix s5
    assume d: "eff W s4 s5 \<and> w_refs W s5 = w_refs W s4 \<and> w_opens W s5 = (w_opens W s4)(v := w_opens W s4 v - 1)"
    have "after W s (Some v) s5" using assms(2-4) d by (auto simp: after_def bump_def intro: eff_trans)
    from drop_now [OF good this] show "kruns (kbind (vop_decref ops v) (\<lambda>_. kret (Inl e))) s5 (opened_or_not W s)"
      by (rule kruns_mono) (simp add: opened_or_not_def)
  qed
next
  case (Inr x)
  have "k_mem s4 = []" using assms(2) vfs_okD(2) [OF assms(1)] by (simp add: eff_def same_vfs_def)
  moreover have "opened_vn W s v (s4\<lparr>rw_lock := (rw_lock s4)(v := RwLive lock_new)\<rparr>)"
    using assms(2-4) by (auto simp: opened_vn_def eff_def same_vfs_def)
  ultimately show ?thesis unfolding Inr open_end_def sum.case
    by (simp add: kruns_bind kruns_Inr [of lock_create_p s4, OF lock_made] set_rw_lock_def kruns_simps opened_or_not_def)
qed

lemma open_trunc_neutral: "w_good W s \<Longrightarrow> 0 < w_refs W s v \<Longrightarrow> gains W none (open_trunc ops v flags) s"
  unfolding open_trunc_def Let_def using truncate_neutral by (auto intro: gains_ret)

lemma open_vnode_counts:
  assumes "vfs_ok ops W fsok s" and "after W s (Some v) s1"
  shows "kruns (open_vnode ops v flags) s1 (opened_or_not W s)"
  unfolding open_vnode_def kruns_bind [of "vop_open ops v flags"]
proof -
  have pos: "0 < w_refs W s1 v" using assms(2) refs_nonneg [OF vfs_okD(1) [OF assms(1)], of v] by (simp add: after_def bump_gain)
  show "kruns (vop_open ops v flags) s1 (\<lambda>r s'. kruns (case r of
      Inl e \<Rightarrow> kbind (vop_decref ops v) (\<lambda>_. kret (Inl e))
    | Inr _ \<Rightarrow> kbind (vop_incopen ops v) (\<lambda>_. kbind (open_trunc ops v flags) (open_end ops v))) s' (opened_or_not W s))"
  proof (rule kruns_mono [OF open_neutral [OF after_good [OF assms(2)] pos, unfolded gains_def]])
    fix r :: "errno + unit" and s2
    assume "after W s1 None s2"
    then have c: "after W s (Some v) s2" by (rule after_trans' [OF assms(2)])
    then have pos2: "0 < w_refs W s2 v" using refs_nonneg [OF vfs_okD(1) [OF assms(1)], of v] by (simp add: after_def bump_gain)
    have "kruns (vop_incopen ops v) s2 (\<lambda>_ s'. kruns (open_trunc ops v flags) s' (\<lambda>r s''. kruns (open_end ops v r) s'' (opened_or_not W s)))"
    proof (rule kruns_mono [OF incopen [OF after_good [OF c] pos2]])
      fix s3
      assume i: "eff W s2 s3 \<and> w_refs W s3 = w_refs W s2 \<and> w_opens W s3 = (w_opens W s2)(v := w_opens W s2 v + 1)"
      then have g3: "w_good W s3" "0 < w_refs W s3 v" using pos2 by (auto simp: eff_def)
      show "kruns (open_trunc ops v flags) s3 (\<lambda>r s''. kruns (open_end ops v r) s'' (opened_or_not W s))"
        by (rule kruns_mono [OF open_trunc_neutral [OF g3, unfolded gains_def]], rule open_end_counts [OF assms(1)])
          (use c i in \<open>auto simp: after_def bump_gain bump_def intro: eff_trans\<close>)
    qed
    moreover have "kruns (kbind (vop_decref ops v) (\<lambda>_. kret (Inl e))) s2 (opened_or_not W s)" for e
      by (rule kruns_mono [OF drop_now [OF vfs_okD(1) [OF assms(1)] c]]) (simp add: opened_or_not_def)
    ultimately show "kruns (case r of
      Inl e \<Rightarrow> kbind (vop_decref ops v) (\<lambda>_. kret (Inl e))
    | Inr _ \<Rightarrow> kbind (vop_incopen ops v) (\<lambda>_. kbind (open_trunc ops v flags) (open_end ops v))) s2 (opened_or_not W s)"
      by (cases r) (simp_all add: kruns_bind)
  qed
qed

lemma vfs_open_counts:
  assumes "vfs_ok ops W fsok s"
  shows "kruns (vfs_open ops pathname flags) s (opened_or_not W s)"
proof (cases "flags AND O_ACCMODE > 2")
  case True
  then show ?thesis using after_refl [OF vfs_okD(1) [OF assms]] by (simp add: vfs_open_def kruns_ret opened_or_not_def)
next
  case False
  show ?thesis unfolding vfs_open_def if_not_P [OF False] kruns_bindE
    by (rule kruns_mono [OF open_find_gains [OF assms, unfolded gains_def]])
      (auto simp: opened_or_not_def [of W s "Inl _"] intro: open_vnode_counts [OF assms] split: sum.split)
qed

lemma vfs_close_counts:
  assumes "w_good W s" and "rw_lock s v = RwLive lock_new" and "0 < w_refs W s v" and "0 < w_opens W s v"
  shows "kruns (vfs_close ops v) s (\<lambda>_. closed_vn W s v)"
proof -
  let ?s1 = "s\<lparr>rw_lock := (rw_lock s)(v := RwFreed)\<rparr>"
  have "kruns (vop_decopen ops v) ?s1 (\<lambda>_ s'. kruns (vop_decref ops v) s' (\<lambda>_. closed_vn W s v))"
  proof (rule kruns_mono [OF decopen])
    fix s2
    assume d: "eff W ?s1 s2 \<and> w_refs W s2 = w_refs W ?s1 \<and> w_opens W s2 = (w_opens W ?s1)(v := w_opens W ?s1 v - 1)"
    have "0 < w_refs W s2 v" "w_good W s2" using d assms(3) by (auto simp: eff_def)
    then show "kruns (vop_decref ops v) s2 (\<lambda>_. closed_vn W s v)"
      by (intro kruns_mono [OF decref]) (use d in \<open>auto simp: closed_vn_def intro: eff_trans\<close>)
  qed (use assms in simp_all)
  then show ?thesis using assms(2) by (simp add: vfs_close_def kruns_simps set_rw_lock_def lock_new_def)
qed

end

end
