(* ===== verification/Devices.thy ===== *)
theory Devices
  imports Vfs_Refs
begin

text \<open>
  Devices as files: the vnode operations of \<^verbatim>\<open>kern/fs/vfs/device.c\<close>, the counters of
  \<^verbatim>\<open>kern/fs/vfs/vnode.c\<close> for their vnodes, the null device of \<^verbatim>\<open>kern/fs/vfs/devnull.c\<close>,
  the devices that \<^verbatim>\<open>kern/dev/generic/console.c\<close>, \<^verbatim>\<open>random.c\<close> and \<^verbatim>\<open>kern/dev/lamebus/lhd.c\<close> enter,
  and the start of the layer, \<^verbatim>\<open>vfs_bootstrap\<close>.  They keep the contract that the operations on
  paths rely on: the locale \<open>device_layer\<close> is what a driver promises, and it gives \<open>vnode_layer\<close>.
  A counter is an integer here; it would take two thousand million opens to leave its 32 bits.
\<close>

section \<open>Model\<close>

subsection \<open>Devices and their vnodes\<close>

record 's device =
  d_open :: "nat \<Rightarrow> ('s, errno + unit) kern"
  d_close :: "('s, errno + unit) kern"
  d_io :: "uio \<Rightarrow> ('s, (errno + unit) \<times> uio) kern"
  d_ioctl :: "int \<Rightarrow> nat \<Rightarrow> ('s, errno + unit) kern"
  d_blocks :: nat
  d_blocksize :: nat

definition dv_get :: "nat \<Rightarrow> ('z nsys_scheme, dvnode) kern" where
  "dv_get v s = (case dv_heap s v of None \<Rightarrow> Inl BadPtr | Some d \<Rightarrow> Inr (d, s))"

definition dv_mod :: "nat \<Rightarrow> (dvnode \<Rightarrow> dvnode) \<Rightarrow> ('z nsys_scheme, unit) kern" where
  "dv_mod v f s =
     (case dv_heap s v of None \<Rightarrow> Inl BadPtr | Some d \<Rightarrow> Inr ((), s\<lparr>dv_heap := (dv_heap s)(v \<mapsto> f d)\<rparr>))"

definition dv_lock :: "nat \<Rightarrow> (nat option \<Rightarrow> (klock, unit) kern) \<Rightarrow> ('z nsys_scheme, unit) kern" where
  "dv_lock v m =
     kbind (kget us_cur) (\<lambda>cur.
     kbind (dv_get v) (\<lambda>d.
     case m cur (dv_countlock d) of
       Inl h \<Rightarrow> khalt h
     | Inr (_, l) \<Rightarrow> dv_mod v (\<lambda>d. d\<lparr>dv_countlock := l\<rparr>)))"

definition dvnode_check :: "nat \<Rightarrow> bool \<Rightarrow> ('z nsys_scheme, unit) kern" where
  "dvnode_check v reclaim =
     kbind (dv_lock v lock_acquire) (\<lambda>_.
     kbind (dv_get v) (\<lambda>d.
     if dv_refcount d < 0 \<or> dv_refcount d = 0 \<and> \<not> reclaim then khalt PanicCall
     else if dv_opencount d < 0 then khalt PanicCall
     else dv_lock v lock_release))"

text \<open>The device of a vnode, where it is dereferenced.\<close>

definition dev_of :: "(nat \<Rightarrow> 'z nsys_scheme device) \<Rightarrow> nat \<Rightarrow> ('z nsys_scheme, 'z nsys_scheme device) kern" where
  "dev_of devs v =
     kbind (dv_get v) (\<lambda>d. case dv_dev d of None \<Rightarrow> khalt BadPtr | Some n \<Rightarrow> kret (devs n))"

definition dev_open :: "(nat \<Rightarrow> 'z nsys_scheme device) \<Rightarrow> nat \<Rightarrow> nat \<Rightarrow> ('z nsys_scheme, errno + unit) kern" where
  "dev_open devs v flags =
     (if flags AND (O_CREAT OR O_TRUNC OR O_EXCL OR O_APPEND) \<noteq> 0 then kret (Inl EINVAL)
      else kbind (dev_of devs v) (\<lambda>d. d_open d flags))"

definition dev_close :: "(nat \<Rightarrow> 'z nsys_scheme device) \<Rightarrow> nat \<Rightarrow> ('z nsys_scheme, errno + unit) kern" where
  "dev_close devs v = kbind (dev_of devs v) d_close"

definition dev_reclaim :: "nat \<Rightarrow> ('z nsys_scheme, errno + unit) kern" where
  "dev_reclaim v = kret (Inr ())"

definition dev_read :: "(nat \<Rightarrow> 'z nsys_scheme device) \<Rightarrow> 'z nsys_scheme vop_io" where
  "dev_read devs v u = kbind (kassert (uio_rw u = UIO_READ)) (\<lambda>_. kbind (dev_of devs v) (\<lambda>d. d_io d u))"

definition dev_write :: "(nat \<Rightarrow> 'z nsys_scheme device) \<Rightarrow> 'z nsys_scheme vop_io" where
  "dev_write devs v u = kbind (kassert (uio_rw u = UIO_WRITE)) (\<lambda>_. kbind (dev_of devs v) (\<lambda>d. d_io d u))"

definition dev_ioctl :: "(nat \<Rightarrow> 'z nsys_scheme device) \<Rightarrow> nat \<Rightarrow> int \<Rightarrow> nat \<Rightarrow> ('z nsys_scheme, errno + unit) kern" where
  "dev_ioctl devs v op arg = kbind (dev_of devs v) (\<lambda>d. d_ioctl d op arg)"

abbreviation S_IFCHR :: nat where "S_IFCHR \<equiv> 16384"
abbreviation S_IFBLK :: nat where "S_IFBLK \<equiv> 20480"

definition dev_gettype :: "(nat \<Rightarrow> 'z nsys_scheme device) \<Rightarrow> nat \<Rightarrow> ('z nsys_scheme, errno + nat) kern" where
  "dev_gettype devs v = kbind (dev_of devs v) (\<lambda>d. kret (Inr (if d_blocks d > 0 then S_IFBLK else S_IFCHR)))"

text \<open>The mode, the number of links, the number of blocks and the size.\<close>

definition dev_stat :: "(nat \<Rightarrow> 'z nsys_scheme device) \<Rightarrow> nat \<Rightarrow> ('z nsys_scheme, errno + nat \<times> nat \<times> nat \<times> int) kern" where
  "dev_stat devs v =
     kbind (dvnode_check v False) (\<lambda>_.
     kbindE (dev_gettype devs v) (\<lambda>mode.
     kbind (dev_of devs v) (\<lambda>d.
     kret (Inr (mode, 1, d_blocks d, if d_blocks d > 0 then to_off (int (d_blocks d * d_blocksize d)) else 0)))))"

text \<open>
  The remainder is taken of the position as an unsigned number, because the block size is one; a
  block size of 0 is a division by zero.
\<close>

definition dev_tryseek :: "(nat \<Rightarrow> 'z nsys_scheme device) \<Rightarrow> nat \<Rightarrow> int \<Rightarrow> ('z nsys_scheme, errno + unit) kern" where
  "dev_tryseek devs v pos =
     kbind (dev_of devs v) (\<lambda>d.
     if d_blocks d = 0 then kret (Inl ESPIPE)
     else if d_blocksize d = 0 then khalt IntOverflow
     else if to_u32 pos mod d_blocksize d \<noteq> 0 then kret (Inl EINVAL)
     else if pos < 0 then kret (Inl EINVAL)
     else if to_u32 pos div d_blocksize d \<ge> d_blocks d then kret (Inl EINVAL)
     else kret (Inr ()))"

definition null_fsync :: "nat \<Rightarrow> ('z nsys_scheme, errno + unit) kern" where
  "null_fsync v = kret (Inr ())"

definition dev_mmap :: "nat \<Rightarrow> ('z nsys_scheme, errno + unit) kern" where
  "dev_mmap v = kret (Inl EUNIMP)"

definition dev_truncate :: "(nat \<Rightarrow> 'z nsys_scheme device) \<Rightarrow> nat \<Rightarrow> int \<Rightarrow> ('z nsys_scheme, errno + unit) kern" where
  "dev_truncate devs v len =
     kbind (dev_of devs v) (\<lambda>d.
     kret (if d_blocks d > 0 \<and> to_off (int (d_blocks d * d_blocksize d)) = len then Inr () else Inl EINVAL))"

definition dev_namefile :: "'z nsys_scheme vop_io" where
  "dev_namefile v u = kret (Inr (), u)"

definition null_io :: "'z nsys_scheme vop_io" where
  "null_io v u = kret (Inl EINVAL, u)"

text \<open>All the operations on directories: a device is none.\<close>

definition null_nameop :: "('z nsys_scheme, errno + 'a) kern" where
  "null_nameop = kret (Inl ENOTDIR)"

subsection \<open>The counters\<close>

definition dvnode_incref :: "nat \<Rightarrow> ('z nsys_scheme, unit) kern" where
  "dvnode_incref v =
     kbind (dv_lock v lock_acquire) (\<lambda>_.
     kbind (dv_mod v (\<lambda>d. d\<lparr>dv_refcount := dv_refcount d + 1\<rparr>)) (\<lambda>_.
     dv_lock v lock_release))"

definition dvnode_decref :: "nat \<Rightarrow> ('z nsys_scheme, unit) kern" where
  "dvnode_decref v =
     kbind (dv_lock v lock_acquire) (\<lambda>_.
     kbind (dv_get v) (\<lambda>d.
     kbind (kassert (dv_refcount d > 0)) (\<lambda>_.
     if dv_refcount d > 1 then
       kbind (dv_mod v (\<lambda>d. d\<lparr>dv_refcount := dv_refcount d - 1\<rparr>)) (\<lambda>_. dv_lock v lock_release)
     else
       kbind (dv_lock v lock_release) (\<lambda>_.
       kbind (dvnode_check v True) (\<lambda>_.
       kbind (dev_reclaim v) (\<lambda>_. kret ()))))))"

definition dvnode_incopen :: "nat \<Rightarrow> ('z nsys_scheme, unit) kern" where
  "dvnode_incopen v =
     kbind (dv_lock v lock_acquire) (\<lambda>_.
     kbind (dv_mod v (\<lambda>d. d\<lparr>dv_opencount := dv_opencount d + 1\<rparr>)) (\<lambda>_.
     dv_lock v lock_release))"

definition dvnode_decopen :: "(nat \<Rightarrow> 'z nsys_scheme device) \<Rightarrow> nat \<Rightarrow> ('z nsys_scheme, unit) kern" where
  "dvnode_decopen devs v =
     kbind (dv_lock v lock_acquire) (\<lambda>_.
     kbind (dv_get v) (\<lambda>d.
     kbind (kassert (dv_opencount d > 0)) (\<lambda>_.
     kbind (dv_mod v (\<lambda>d. d\<lparr>dv_opencount := dv_opencount d - 1\<rparr>)) (\<lambda>_.
     kbind (dv_lock v lock_release) (\<lambda>_.
     if dv_opencount d - 1 > 0 then kret ()
     else
       kbind (dvnode_check v False) (\<lambda>_.
       kbind (dev_close devs v) (\<lambda>_. kret ())))))))"

definition dev_lookup :: "nat \<Rightarrow> byte list \<Rightarrow> ('z nsys_scheme, errno + nat) kern" where
  "dev_lookup dir pathname =
     (if length pathname > 0 then kret (Inl ENOENT)
      else kbind (dvnode_incref dir) (\<lambda>_. kret (Inr dir)))"

definition dev_lookparent :: "nat \<Rightarrow> byte list \<Rightarrow> nat \<Rightarrow> ('z nsys_scheme, errno + nat \<times> byte list) kern" where
  "dev_lookparent dir pathname buflen = kret (Inl ENOTDIR)"

text \<open>A call through the table of a device: the check, then the operation.\<close>

definition dev_call :: "nat \<Rightarrow> ('z nsys_scheme, 'a) kern \<Rightarrow> ('z nsys_scheme, 'a) kern" where
  "dev_call v m = kbind (dvnode_check v False) (\<lambda>_. m)"

text \<open>
  The part of the table that the operations on paths call, with the counters, for a system that
  has devices only; there is no file system to call.
\<close>

definition dev_vnode_ops :: "(nat \<Rightarrow> 'z nsys_scheme device) \<Rightarrow> 'z nsys_scheme vnode_ops" where
  "dev_vnode_ops devs =
     \<lparr>vop_incref = dvnode_incref, vop_decref = dvnode_decref, vop_incopen = dvnode_incopen,
      vop_decopen = dvnode_decopen devs, vop_fs = (\<lambda>_. None),
      vop_open = (\<lambda>v flags. dev_call v (dev_open devs v flags)),
      vop_readlink = (\<lambda>v u. dev_call v (null_io v u)),
      vop_gettype = (\<lambda>v. dev_call v (dev_gettype devs v)),
      vop_truncate = (\<lambda>v len. dev_call v (dev_truncate devs v len)),
      vop_namefile = (\<lambda>v u. dev_call v (dev_namefile v u)),
      vop_creat = (\<lambda>v name excl. dev_call v null_nameop),
      vop_symlink = (\<lambda>v name contents. dev_call v null_nameop),
      vop_mkdir = (\<lambda>v name. dev_call v null_nameop),
      vop_link = (\<lambda>v name w. dev_call v null_nameop),
      vop_remove = (\<lambda>v name. dev_call v null_nameop),
      vop_rmdir = (\<lambda>v name. dev_call v null_nameop),
      vop_rename = (\<lambda>v n1 w n2. dev_call v null_nameop),
      vop_lookup = (\<lambda>v name. dev_call v (dev_lookup v name)),
      vop_lookparent = (\<lambda>v name n. dev_call v (dev_lookparent v name n)),
      fs_sync = (\<lambda>_. khalt BadPtr), fs_getvolname = (\<lambda>_. khalt BadPtr),
      fs_getroot = (\<lambda>_. khalt BadPtr), fs_unmount = (\<lambda>_. khalt BadPtr)\<rparr>"

subsection \<open>The null device\<close>

definition nullopen :: "nat \<Rightarrow> ('s, errno + unit) kern" where
  "nullopen openflags = kret (Inr ())"

definition nullclose :: "('s, errno + unit) kern" where
  "nullclose = kret (Inr ())"

definition nullio :: "uio \<Rightarrow> ('s, (errno + unit) \<times> uio) kern" where
  "nullio u = kret (Inr (), if uio_rw u = UIO_WRITE then u\<lparr>uio_resid := 0\<rparr> else u)"

definition nullioctl :: "int \<Rightarrow> nat \<Rightarrow> ('s, errno + unit) kern" where
  "nullioctl op arg = kret (Inl EINVAL)"

definition null_device :: "'s device" where
  "null_device = \<lparr>d_open = nullopen, d_close = nullclose, d_io = nullio, d_ioctl = nullioctl, d_blocks = 0, d_blocksize = 1\<rparr>"

subsection \<open>The other devices\<close>

text \<open>
  The console, the disk and the random generator; what they move is the work of their drivers, an
  argument here.
\<close>

definition con_open :: "nat \<Rightarrow> ('s, errno + unit) kern" where
  "con_open openflags = kret (Inr ())"

definition con_close :: "('s, errno + unit) kern" where
  "con_close = kret (Inr ())"

definition con_ioctl :: "int \<Rightarrow> nat \<Rightarrow> ('s, errno + unit) kern" where
  "con_ioctl op arg = kret (Inl EINVAL)"

definition lhd_open :: "nat \<Rightarrow> ('s, errno + unit) kern" where
  "lhd_open openflags = kret (Inr ())"

definition lhd_close :: "('s, errno + unit) kern" where
  "lhd_close = kret (Inr ())"

definition lhd_ioctl :: "int \<Rightarrow> nat \<Rightarrow> ('s, errno + unit) kern" where
  "lhd_ioctl op arg = kret (Inl EIOCTL)"

definition randopen :: "nat \<Rightarrow> ('s, errno + unit) kern" where
  "randopen openflags = kret (if openflags \<noteq> nat O_RDONLY then Inl EIO else Inr ())"

definition randclose :: "('s, errno + unit) kern" where
  "randclose = kret (Inr ())"

definition randio :: "(uio \<Rightarrow> ('s, (errno + unit) \<times> uio) kern) \<Rightarrow> uio \<Rightarrow> ('s, (errno + unit) \<times> uio) kern" where
  "randio rs_read u = (if uio_rw u \<noteq> UIO_READ then kret (Inl EIO, u) else rs_read u)"

definition randioctl :: "int \<Rightarrow> nat \<Rightarrow> ('s, errno + unit) kern" where
  "randioctl op arg = kret (Inl EIOCTL)"

datatype devkind = NullDev | ConsoleDev | RandomDev | DiskDev nat

record 's drivers =
  drv_con_io :: "uio \<Rightarrow> ('s, (errno + unit) \<times> uio) kern"
  drv_rs_read :: "uio \<Rightarrow> ('s, (errno + unit) \<times> uio) kern"
  drv_lhd_io :: "uio \<Rightarrow> ('s, (errno + unit) \<times> uio) kern"

text \<open>The structures that \<^verbatim>\<open>attach_console_to_vfs\<close>, \<^verbatim>\<open>config_random\<close> and \<^verbatim>\<open>config_lhd\<close> fill in.\<close>

definition kernel_device :: "'s drivers \<Rightarrow> devkind \<Rightarrow> 's device" where
  "kernel_device io k =
     (case k of
        NullDev \<Rightarrow> null_device
      | ConsoleDev \<Rightarrow> \<lparr>d_open = con_open, d_close = con_close, d_io = drv_con_io io, d_ioctl = con_ioctl, d_blocks = 0, d_blocksize = 1\<rparr>
      | RandomDev \<Rightarrow> \<lparr>d_open = randopen, d_close = randclose, d_io = randio (drv_rs_read io), d_ioctl = randioctl, d_blocks = 0, d_blocksize = 1\<rparr>
      | DiskDev nsect \<Rightarrow> \<lparr>d_open = lhd_open, d_close = lhd_close, d_io = drv_lhd_io io, d_ioctl = lhd_ioctl, d_blocks = nsect, d_blocksize = LHD_SECTSIZE\<rparr>)"

definition kernel_ops :: "'z nsys_scheme drivers \<Rightarrow> (nat \<Rightarrow> devkind) \<Rightarrow> 'z nsys_scheme vnode_ops" where
  "kernel_ops io kinds = dev_vnode_ops (\<lambda>n. kernel_device io (kinds n))"

subsection \<open>The start of the layer\<close>

definition null_name :: "byte list" where
  "null_name = [110, 117, 108, 108]"

text \<open>\<open>dev\<close> is the address of the structure that is allocated for the device.\<close>

definition devnull_create :: "'z nsys_scheme vnode_ops \<Rightarrow> nat \<Rightarrow> ('z nsys_scheme, unit) kern" where
  "devnull_create ops dev =
     kbind kalloc (\<lambda>ok.
     if \<not> ok then khalt PanicCall
     else
       kbind (vfs_adddev ops null_name (Some dev) False) (\<lambda>r.
       case r of Inl e \<Rightarrow> khalt PanicCall | Inr _ \<Rightarrow> kret ()))"

definition vfs_bootstrap :: "'z nsys_scheme vnode_ops \<Rightarrow> nat \<Rightarrow> ('z nsys_scheme, unit) kern" where
  "vfs_bootstrap ops dev =
     kbind kalloc (\<lambda>ok.
     case array_create ok of
       None \<Rightarrow> khalt PanicCall
     | Some a \<Rightarrow>
         kbind (kmod (\<lambda>s. s\<lparr>knowndevs := a\<rparr>)) (\<lambda>_.
         kbind lock_create_p (\<lambda>l.
         kbind (kmod (\<lambda>s. s\<lparr>knowndevs_lock := l\<rparr>)) (\<lambda>_.
         if l = None then khalt PanicCall
         else kbind vfs_initbootfs (\<lambda>_. devnull_create ops dev)))))"

section \<open>Lemmas\<close>

text \<open>What the vnodes of devices show: the reference of the device list itself is not counted.\<close>

definition dv_ok :: "dvnode \<Rightarrow> bool" where
  "dv_ok d \<longleftrightarrow> dv_countlock d = lock_new \<and> 1 \<le> dv_refcount d \<and> 0 \<le> dv_opencount d \<and> (dv_dev d = None \<longrightarrow> dv_refcount d = 1)"

definition dev_view :: "'z nsys_scheme vnode_view" where
  "dev_view =
     \<lparr>w_good = (\<lambda>s. \<forall>v d. dv_heap s v = Some d \<longrightarrow> dv_ok d),
      w_pinned = (\<lambda>s v. \<exists>d. dv_heap s v = Some d \<and> dv_dev d \<noteq> None),
      w_refs = (\<lambda>s v. case dv_heap s v of None \<Rightarrow> 0 | Some d \<Rightarrow> dv_refcount d - 1),
      w_opens = (\<lambda>s v. case dv_heap s v of None \<Rightarrow> 0 | Some d \<Rightarrow> dv_opencount d)\<rparr>"

lemma dev_view_simps [simp]:
  "w_good dev_view s \<longleftrightarrow> (\<forall>v d. dv_heap s v = Some d \<longrightarrow> dv_ok d)"
  "w_pinned dev_view s v \<longleftrightarrow> (\<exists>d. dv_heap s v = Some d \<and> dv_dev d \<noteq> None)"
  "w_refs dev_view s v = (case dv_heap s v of None \<Rightarrow> 0 | Some d \<Rightarrow> dv_refcount d - 1)"
  "w_opens dev_view s v = (case dv_heap s v of None \<Rightarrow> 0 | Some d \<Rightarrow> dv_opencount d)"
  by (simp_all add: dev_view_def)

definition dv_upd :: "nat \<Rightarrow> dvnode \<Rightarrow> 'z nsys_scheme \<Rightarrow> 'z nsys_scheme" where
  "dv_upd v d s = s\<lparr>dv_heap := (dv_heap s)(v \<mapsto> d)\<rparr>"

lemma dv_locked:
  assumes "dv_heap s v = Some d" and "dv_countlock d = lock_new"
  shows "dv_lock v lock_acquire s = Inr ((), dv_upd v (d\<lparr>dv_countlock := \<lparr>lk_owner = us_cur s\<rparr>\<rparr>) s)"
  using assms by (simp add: dv_lock_def kbind_def dv_get_def dv_mod_def dv_upd_def lock_acquire_def lock_new_def)

lemma dv_unlocked:
  "dv_countlock d = \<lparr>lk_owner = us_cur s\<rparr> \<Longrightarrow>
    dv_lock v lock_release (dv_upd v d s) = Inr ((), dv_upd v (d\<lparr>dv_countlock := lock_new\<rparr>) s)"
  by (simp add: dv_lock_def kbind_def dv_get_def dv_mod_def dv_upd_def lock_release_def lock_do_i_hold_def lock_new_def)

lemma dv_upd_simps [simp]:
  "dv_get v (dv_upd v d s) = Inr (d, dv_upd v d s)" "dv_mod v f (dv_upd v d s) = Inr ((), dv_upd v (f d) s)" "us_cur (dv_upd v d s) = us_cur s"
  by (simp_all add: dv_get_def dv_mod_def dv_upd_def)

lemma dv_upd_same: "dv_heap s v = Some d \<Longrightarrow> dv_upd v d s = s"
  by (simp add: dv_upd_def fun_upd_idem)

lemmas dv_run = dv_locked dv_unlocked dv_ok_def kbind_def

lemma dvnode_check_ok: "dv_heap s v = Some d \<Longrightarrow> dv_ok d \<Longrightarrow> dvnode_check v r s = Inr ((), s)"
  using dv_upd_same [of s v d] by (cases d) (auto simp: dvnode_check_def dv_run)

lemma dvnode_counts:
  assumes "dv_heap s v = Some d" and "dv_ok d"
  shows "dvnode_incref v s = Inr ((), dv_upd v (d\<lparr>dv_refcount := dv_refcount d + 1\<rparr>) s)"
    and "1 < dv_refcount d \<Longrightarrow> dvnode_decref v s = Inr ((), dv_upd v (d\<lparr>dv_refcount := dv_refcount d - 1\<rparr>) s)"
    and "dvnode_incopen v s = Inr ((), dv_upd v (d\<lparr>dv_opencount := dv_opencount d + 1\<rparr>) s)"
  using assms by (cases d; simp add: dvnode_incref_def dvnode_decref_def dvnode_incopen_def dv_run)+

lemma dvnode_decopen_closes:
  assumes "dv_heap s v = Some d" and "dv_ok d" and "0 < dv_opencount d"
    and "\<And>s d'. dv_heap s v = Some d' \<Longrightarrow> dv_dev d' = dv_dev d \<Longrightarrow> \<exists>r. dev_close devs v s = Inr (r, s)"
  shows "dvnode_decopen devs v s = Inr ((), dv_upd v (d\<lparr>dv_opencount := dv_opencount d - 1\<rparr>) s)"
proof -
  let ?d = "d\<lparr>dv_opencount := dv_opencount d - 1\<rparr>"
  let ?s = "dv_upd v ?d s"
  have h: "dv_heap ?s v = Some ?d" by (simp add: dv_upd_def)
  have ok: "dv_ok ?d" using assms(2,3) by (simp add: dv_ok_def)
  obtain r where "dev_close devs v ?s = Inr (r, ?s)" using assms(4) [OF h] by auto
  with dvnode_check_ok [OF h ok, of False] show ?thesis
    using assms(1-3) by (cases d) (simp add: dvnode_decopen_def dv_run)
qed

text \<open>
  What a device promises: opening and closing it return, and leave the tables of the layer and
  the vnodes of devices as they are.
\<close>

locale device_layer =
  fixes devs :: "nat \<Rightarrow> 'z nsys_scheme device"
  assumes open_returns: "\<exists>r. d_open (devs n) flags s = Inr (r, s)"
    and close_returns: "\<exists>r. d_close (devs n) s = Inr (r, s)"
begin

lemma dev_of_run: "dv_heap s v = Some d \<Longrightarrow> dv_dev d = Some n \<Longrightarrow> dev_of devs v s = Inr (devs n, s)"
  by (simp add: dev_of_def kbind_def dv_get_def)

text \<open>A vnode with a reference beside that of its device list has a device.\<close>

lemma referenced:
  assumes "w_good dev_view s" and "0 < w_refs dev_view s v"
  obtains d n where "dv_heap s v = Some d" "dv_ok d" "1 < dv_refcount d" "dv_dev d = Some n"
proof -
  obtain d where d: "dv_heap s v = Some d" "1 < dv_refcount d" using assms(2) by (auto split: option.splits)
  moreover from d(1) have "dv_ok d" using assms(1) by simp
  moreover from this d(2) obtain n where "dv_dev d = Some n" by (cases "dv_dev d") (auto simp: dv_ok_def)
  ultimately show thesis using that by blast
qed

lemma dev_call_run: "w_good dev_view s \<Longrightarrow> 0 < w_refs dev_view s v \<Longrightarrow> dev_call v m s = m s"
  by (erule (1) referenced) (simp add: dev_call_def kbind_def dvnode_check_ok)

lemma decopen_run:
  assumes "dv_heap s v = Some d" and "dv_ok d" and "0 < dv_opencount d" and "dv_dev d = Some n"
  shows "dvnode_decopen devs v s = Inr ((), dv_upd v (d\<lparr>dv_opencount := dv_opencount d - 1\<rparr>) s)"
  using close_returns [of n] assms(4) by (intro dvnode_decopen_closes [OF assms(1-3)]) (auto simp: dev_close_def kbind_def dev_of_run)

lemma dev_neutral:
  assumes "w_good dev_view s" and "0 < w_refs dev_view s v"
  shows "gains dev_view none (dev_call v (dev_open devs v flags)) s"
    and "gains dev_view none (dev_call v (dev_truncate devs v len)) s"
proof -
  obtain d n where d: "dv_heap s v = Some d" "dv_dev d = Some n" using assms by (rule referenced)
  obtain r where "d_open (devs n) flags s = Inr (r, s)" using open_returns by blast
  then show "gains dev_view none (dev_call v (dev_open devs v flags)) s"
    using after_refl [OF assms(1)] by (simp add: gains_def kruns_iff dev_call_run [OF assms] dev_open_def kbind_def dev_of_run [OF d])
  show "gains dev_view none (dev_call v (dev_truncate devs v len)) s"
    using after_refl [OF assms(1)] by (simp add: gains_def kruns_iff dev_call_run [OF assms] dev_truncate_def kbind_def dev_of_run [OF d])
qed

lemma no_directory:
  assumes "w_good dev_view s" and "0 < w_refs dev_view s v"
  shows "gains dev_view g (dev_call v (kret x)) s \<longleftrightarrow> after dev_view s (g x) s"
  by (simp add: gains_def kruns_iff dev_call_run [OF assms])

end

lemma dv_bounds: "w_good dev_view s \<Longrightarrow> dv_heap s v = Some d \<Longrightarrow> 1 \<le> dv_refcount d \<and> 0 \<le> dv_opencount d"
  unfolding dev_view_simps dv_ok_def by blast

lemma dev_count_moved:
  assumes "w_good dev_view s" and "dv_heap s v = Some d" and "dv_dev d = Some n"
  shows "1 \<le> r \<Longrightarrow> eff dev_view s (dv_upd v (d\<lparr>dv_refcount := r\<rparr>) s) \<and> w_opens dev_view (dv_upd v (d\<lparr>dv_refcount := r\<rparr>) s) = w_opens dev_view s \<and>
      w_refs dev_view (dv_upd v (d\<lparr>dv_refcount := r\<rparr>) s) = (w_refs dev_view s)(v := r - 1)"
    and "0 \<le> c \<Longrightarrow> eff dev_view s (dv_upd v (d\<lparr>dv_opencount := c\<rparr>) s) \<and> w_refs dev_view (dv_upd v (d\<lparr>dv_opencount := c\<rparr>) s) = w_refs dev_view s \<and>
      w_opens dev_view (dv_upd v (d\<lparr>dv_opencount := c\<rparr>) s) = (w_opens dev_view s)(v := c)"
  using assms by (auto simp: eff_def same_vfs_def dv_upd_def dv_ok_def fun_eq_iff split: option.splits)

lemma dev_ref_gained:
  assumes "w_good dev_view s" and "dv_heap s v = Some d" and "dv_dev d = Some n"
  shows "gains dev_view (\<lambda>_. Some v) (dvnode_incref v) s"
proof -
  have ok: "dv_ok d" using assms(1,2) by simp
  then have "1 \<le> dv_refcount d + 1" by (simp add: dv_ok_def)
  with dev_count_moved(1) [OF assms this] show ?thesis
    using assms(2) by (simp add: gains_def kruns_iff after_def bump_def dvnode_counts(1) [OF assms(2) ok])
qed

sublocale device_layer \<subseteq> vl: vnode_layer "dev_vnode_ops devs" dev_view "\<lambda>_. False"
proof
  fix s :: "'z nsys_scheme" and v
  assume good: "w_good dev_view s"
  show "0 \<le> w_refs dev_view s v" "0 \<le> w_opens dev_view s v"
    using dv_bounds [OF good, of v] by (auto split: option.splits)
  show "gains dev_view (\<lambda>_. Some v) (vop_incref (dev_vnode_ops devs) v) s" if "w_pinned dev_view s v \<or> 0 < w_refs dev_view s v"
    using that referenced [OF good, of v] dev_ref_gained [OF good, of v] by (fastforce simp: dev_vnode_ops_def)
next
  fix s :: "'z nsys_scheme" and v w :: nat and name n1 n2 :: "byte list" and excl n len flags
  assume g: "w_good dev_view s" "0 < w_refs dev_view s v"
  then obtain d k where d: "dv_heap s v = Some d" "dv_ok d" "1 < dv_refcount d" "dv_dev d = Some k" by (rule referenced)
  note run = dvnode_counts [OF d(1,2)] and no = no_directory [OF g] and mv = dev_count_moved [OF g(1) d(1,4)] and idle = after_refl [OF g(1)]
  have c: "0 \<le> dv_opencount d" using d(2) by (simp add: dv_ok_def)
  show "kruns (vop_decref (dev_vnode_ops devs) v) s (\<lambda>_ s'. eff dev_view s s' \<and> w_opens dev_view s' = w_opens dev_view s \<and>
      w_refs dev_view s' = (w_refs dev_view s)(v := w_refs dev_view s v - 1))"
    using mv(1) [of "dv_refcount d - 1"] d by (simp add: dev_vnode_ops_def kruns_iff run)
  show "kruns (vop_incopen (dev_vnode_ops devs) v) s (\<lambda>_ s'. eff dev_view s s' \<and> w_refs dev_view s' = w_refs dev_view s \<and>
      w_opens dev_view s' = (w_opens dev_view s)(v := w_opens dev_view s v + 1))"
    using mv(2) [of "dv_opencount d + 1"] d c by (simp add: dev_vnode_ops_def kruns_iff run)
  show "kruns (vop_decopen (dev_vnode_ops devs) v) s (\<lambda>_ s'. eff dev_view s s' \<and> w_refs dev_view s' = w_refs dev_view s \<and>
      w_opens dev_view s' = (w_opens dev_view s)(v := w_opens dev_view s v - 1))" if "0 < w_opens dev_view s v"
    using mv(2) [of "dv_opencount d - 1"] d that by (simp add: dev_vnode_ops_def kruns_iff decopen_run [OF d(1,2) _ d(4)])
  show "gains dev_view none (vop_open (dev_vnode_ops devs) v flags) s" "gains dev_view none (vop_truncate (dev_vnode_ops devs) v len) s"
    using dev_neutral [OF g] by (simp_all add: dev_vnode_ops_def)
  show "gains dev_view res_vn (vop_creat (dev_vnode_ops devs) v name excl) s" "gains dev_view res_dir (vop_lookparent (dev_vnode_ops devs) v name n) s"
    "gains dev_view none (vop_remove (dev_vnode_ops devs) v name) s" "gains dev_view none (vop_rename (dev_vnode_ops devs) v n1 w n2) s"
    "gains dev_view none (vop_link (dev_vnode_ops devs) v name w) s"
    using idle by (simp_all only: dev_vnode_ops_def vnode_ops.simps null_nameop_def dev_lookparent_def no res_simps)
  show "gains dev_view res_vn (vop_lookup (dev_vnode_ops devs) v name) s"
    using idle dev_ref_gained [OF g(1) d(1)] d(4)
    by (auto simp: dev_vnode_ops_def gains_def kruns_simps dev_call_run [OF g, unfolded fun_eq_iff] kruns_iff dev_lookup_def kbind_def run)
qed (auto simp: framed_def fun_eq_iff)

section \<open>The devices of the kernel\<close>

interpretation kdevs: device_layer "\<lambda>n. kernel_device io (kinds n)"
  by unfold_locales
    (auto simp: kernel_device_def null_device_def nullopen_def nullclose_def con_open_def con_close_def randopen_def randclose_def
      lhd_open_def lhd_close_def split: devkind.split)

abbreviation dev_vfs_ok :: "'z nsys_scheme drivers \<Rightarrow> (nat \<Rightarrow> devkind) \<Rightarrow> 'z nsys_scheme \<Rightarrow> bool" where
  "dev_vfs_ok io kinds \<equiv> vfs_ok (kernel_ops io kinds) dev_view (\<lambda>_. False)"

text \<open>The references and the opens are those of \<open>s\<close>, and the layer is in order.\<close>

definition counts_kept :: "'z nsys_scheme drivers \<Rightarrow> (nat \<Rightarrow> devkind) \<Rightarrow> 'z nsys_scheme \<Rightarrow> 'z nsys_scheme \<Rightarrow> bool" where
  "counts_kept io kinds s s' \<longleftrightarrow> dev_vfs_ok io kinds s' \<and> w_refs dev_view s' = w_refs dev_view s \<and> w_opens dev_view s' = w_opens dev_view s"

lemma after_kept: "dev_vfs_ok io kinds s \<Longrightarrow> after dev_view s None s' \<Longrightarrow> counts_kept io kinds s s'"
  using vfs_ok_after [of "kernel_ops io kinds" dev_view _ s None s'] by (simp add: counts_kept_def after_def bump_gain)

lemma vfs_ok_rw: "vfs_ok ops dev_view f (s\<lparr>rw_lock := x\<rparr>) = vfs_ok ops dev_view f s"
  by (simp add: vfs_ok_def list_ok_def cwd_ok_def kd_ok_def)

lemma opened_ok:
  assumes "dev_vfs_ok io kinds s" and "opened_vn dev_view s v s'"
  shows "dev_vfs_ok io kinds s'" and "rw_lock s' v = RwLive lock_new" and "0 < w_refs dev_view s' v" and "0 < w_opens dev_view s' v"
proof -
  let ?s = "s\<lparr>rw_lock := (rw_lock s)(v := RwLive lock_new)\<rparr>"
  have ok: "dev_vfs_ok io kinds ?s" using assms(1) by (simp only: vfs_ok_rw)
  have e: "eff dev_view ?s s'" "w_refs dev_view s' = bump (Some v) (w_refs dev_view ?s)" "w_opens dev_view s' = bump (Some v) (w_opens dev_view s)"
    using assms(2) by (simp_all add: opened_vn_def fun_eq_iff)
  show "dev_vfs_ok io kinds s'" by (rule vfs_ok_eff [OF ok e(1)]) (simp only: e(2) less_le_trans [OF _ bump_ge])
  show "rw_lock s' v = RwLive lock_new" using e(1) by (simp add: eff_def same_vfs_def)
  have "0 \<le> w_refs dev_view ?s v" "0 \<le> w_opens dev_view s v"
    using dv_bounds [OF vfs_okD(1) [OF assms(1)], of v] by (auto split: option.splits)
  then show "0 < w_refs dev_view s' v" "0 < w_opens dev_view s' v" by (simp_all only: e(2,3) bump_gain)
qed

lemma closed_back:
  assumes "dev_vfs_ok io kinds s" and "opened_vn dev_view s v s'" and "closed_vn dev_view s' v s''"
  shows "counts_kept io kinds s s''"
proof -
  let ?s = "s\<lparr>rw_lock := rw_lock s''\<rparr>"
  have r: "w_refs dev_view s'' = w_refs dev_view ?s" "w_opens dev_view s'' = w_opens dev_view s"
    using assms(2,3) by (auto simp: opened_vn_def closed_vn_def bump_def fun_eq_iff)
  have pin: "w_pinned dev_view (x\<lparr>rw_lock := y\<rparr>) = w_pinned dev_view x" for x :: "'a nsys_scheme" and y by (simp add: fun_eq_iff)
  have e: "eff dev_view ?s s''"
    using assms(2,3) unfolding opened_vn_def closed_vn_def eff_def same_vfs_def pin by (simp del: dev_view_simps)
  have "dev_vfs_ok io kinds ?s" using assms(1) by (simp only: vfs_ok_rw)
  from vfs_ok_eff [OF this e] have "dev_vfs_ok io kinds s''" by (simp only: r)
  with r show ?thesis by (simp add: counts_kept_def fun_eq_iff)
qed

text \<open>
  C21: Opening a device by its path and closing it again is balanced.  \<^verbatim>\<open>vfs_open\<close> always returns.
  When it fails, on whatever path, every reference and open it took is given back.  When it
  succeeds, the vnode has one reference and one open more and nothing else has changed, and
  \<^verbatim>\<open>vfs_close\<close> brings the counters of all vnodes back to what they were.
\<close>

theorem vfs_open_close_balanced:
  assumes "dev_vfs_ok io kinds s"
  shows "kruns (vfs_open (kernel_ops io kinds) pathname flags) s (\<lambda>r s'.
    case r of
      Inl e \<Rightarrow> counts_kept io kinds s s'
    | Inr v \<Rightarrow> w_refs dev_view s' = (w_refs dev_view s)(v := w_refs dev_view s v + 1) \<and>
        w_opens dev_view s' = (w_opens dev_view s)(v := w_opens dev_view s v + 1) \<and>
        kruns (vfs_close (kernel_ops io kinds) v) s' (\<lambda>_. counts_kept io kinds s))"
proof (rule kruns_mono [OF kdevs.vl.vfs_open_counts [OF assms [unfolded kernel_ops_def], folded kernel_ops_def]])
  fix r s'
  assume o: "opened_or_not dev_view s r s'"
  show "case r of
      Inl e \<Rightarrow> counts_kept io kinds s s'
    | Inr v \<Rightarrow> w_refs dev_view s' = (w_refs dev_view s)(v := w_refs dev_view s v + 1) \<and>
        w_opens dev_view s' = (w_opens dev_view s)(v := w_opens dev_view s v + 1) \<and>
        kruns (vfs_close (kernel_ops io kinds) v) s' (\<lambda>_. counts_kept io kinds s)"
  proof (cases r)
    case (Inl e)
    then show ?thesis using o after_kept [OF assms] by (simp add: opened_or_not_def)
  next
    case (Inr v)
    then have v: "opened_vn dev_view s v s'" using o by (simp add: opened_or_not_def)
    note ok = opened_ok [OF assms v]
    have "kruns (vfs_close (kernel_ops io kinds) v) s' (\<lambda>_. counts_kept io kinds s)"
      unfolding kernel_ops_def by (rule kruns_mono [OF kdevs.vl.vfs_close_counts [OF vfs_okD(1) [OF ok(1)] ok(2-4)]]) (rule closed_back [OF assms v])
    then show ?thesis using v Inr by (simp add: opened_vn_def bump_def)
  qed
qed

text \<open>A system with the console, whose vnode is open twice, and the null device.\<close>

definition ndemo :: nsys where
  "ndemo = psys.extend (vsys.extend vdemo (psys.fields [] None Map.empty 0 Map.empty 0 Map.empty 0 Map.empty Map.empty))
     (nsys.fields \<lparr>arr_num = 2, arr_max = 2, arr_v = Some [Some 0, Some 1]\<rparr>
        [0 \<mapsto> \<lparr>kd_name = null_name, kd_rawname = None, kd_device = Some 0, kd_vnode = 0, kd_fs = None\<rparr>,
         1 \<mapsto> \<lparr>kd_name = [99, 111, 110], kd_rawname = None, kd_device = Some 1, kd_vnode = 1, kd_fs = None\<rparr>] 2
        (Some lock_new) None (Some lock_new) Map.empty (\<lambda>v. if v = 1 then RwLive lock_new else RwNull)
        [0 \<mapsto> \<lparr>dv_refcount = 1, dv_opencount = 0, dv_countlock = lock_new, dv_dev = Some 0\<rparr>,
         1 \<mapsto> \<lparr>dv_refcount = 3, dv_opencount = 2, dv_countlock = lock_new, dv_dev = Some 1\<rparr>] 2)"

definition kinds_demo :: "nat \<Rightarrow> devkind" where
  "kinds_demo n = (if n = 0 then NullDev else ConsoleDev)"

definition io_demo :: "'s drivers" where
  "io_demo = \<lparr>drv_con_io = nullio, drv_rs_read = nullio, drv_lhd_io = nullio\<rparr>"

lemma ndemo_simps:
  "us_cur ndemo = Some 1" "k_mem ndemo = []" "t_cwd ndemo = Map.empty" "bootfs_vnode ndemo = None" "bootfs_lock ndemo = Some lock_new"
  "knowndevs_lock ndemo = Some lock_new" "knowndevs ndemo = \<lparr>arr_num = 2, arr_max = 2, arr_v = Some [Some 0, Some 1]\<rparr>"
  "kd_heap ndemo = [0 \<mapsto> \<lparr>kd_name = null_name, kd_rawname = None, kd_device = Some 0, kd_vnode = 0, kd_fs = None\<rparr>,
         1 \<mapsto> \<lparr>kd_name = [99, 111, 110], kd_rawname = None, kd_device = Some 1, kd_vnode = 1, kd_fs = None\<rparr>]"
  "rw_lock ndemo = (\<lambda>v. if v = 1 then RwLive lock_new else RwNull)"
  "dv_heap ndemo = [0 \<mapsto> \<lparr>dv_refcount = 1, dv_opencount = 0, dv_countlock = lock_new, dv_dev = Some 0\<rparr>,
         1 \<mapsto> \<lparr>dv_refcount = 3, dv_opencount = 2, dv_countlock = lock_new, dv_dev = Some 1\<rparr>]"
  by (simp_all add: ndemo_def vdemo_def fdemo_def nsys.defs psys.defs vsys.defs fsys.defs)

lemma ndemo_ok: "vfs_ok ops dev_view (\<lambda>_. False) ndemo"
  by (auto simp: vfs_ok_def list_ok_def cwd_ok_def kd_ok_def dv_ok_def ndemo_simps array_inv_def array_shape_def array_list_def array_cells_def
      split: if_splits)

theorem vfs_open_close_balanced_witness:
  "kruns (vfs_open (kernel_ops io_demo kinds_demo) [110, 117, 108, 108, 58] 0) ndemo (\<lambda>r s'.
    case r of
      Inl e \<Rightarrow> counts_kept io_demo kinds_demo ndemo s'
    | Inr v \<Rightarrow> w_refs dev_view s' = (w_refs dev_view ndemo)(v := w_refs dev_view ndemo v + 1) \<and>
        w_opens dev_view s' = (w_opens dev_view ndemo)(v := w_opens dev_view ndemo v + 1) \<and>
        kruns (vfs_close (kernel_ops io_demo kinds_demo) v) s' (\<lambda>_. counts_kept io_demo kinds_demo ndemo))"
  by (rule vfs_open_close_balanced [OF ndemo_ok])

text \<open>
  \<^verbatim>\<open>vfs_remove\<close>, \<^verbatim>\<open>vfs_rename\<close> and \<^verbatim>\<open>vfs_link\<close> on any paths of a system of devices return,
  and give back every reference that they took on the way.
\<close>

lemma vfs_name_operations_balanced:
  assumes "dev_vfs_ok io kinds s"
  shows "kruns (vfs_remove (kernel_ops io kinds) oldpath) s (\<lambda>_. counts_kept io kinds s) \<and>
    kruns (vfs_rename (kernel_ops io kinds) oldpath newpath) s (\<lambda>_. counts_kept io kinds s) \<and>
    kruns (vfs_link (kernel_ops io kinds) oldpath newpath) s (\<lambda>_. counts_kept io kinds s)"
  using kdevs.vl.vfs_remove_neutral [OF assms [unfolded kernel_ops_def], of oldpath]
    kdevs.vl.vfs_rename_neutral [OF assms [unfolded kernel_ops_def], of oldpath newpath]
    kdevs.vl.vfs_link_neutral [OF assms [unfolded kernel_ops_def], of oldpath newpath] after_kept [OF assms]
  unfolding kernel_ops_def [symmetric] gains_def by (blast intro: kruns_mono)

text \<open>
  C40: \<^verbatim>\<open>vfs_close\<close> destroys the lock of a vnode even when the vnode stays open.  Of a device that
  is open twice the first close succeeds and leaves it open once; the second close destroys the
  lock that is no longer there.
\<close>

theorem second_close_faults:
  assumes "dev_vfs_ok io kinds s" and "rw_lock s v = RwLive lock_new" and "1 < w_refs dev_view s v" and "1 < w_opens dev_view s v"
  shows "\<exists>s'. vfs_close (kernel_ops io kinds) v s = Inr ((), s') \<and> 0 < w_opens dev_view s' v \<and> 0 < w_refs dev_view s' v \<and>
    vfs_close (kernel_ops io kinds) v s' = Inl BadPtr"
proof -
  obtain s' where c: "vfs_close (kernel_ops io kinds) v s = Inr ((), s')" "closed_vn dev_view s v s'"
    using kdevs.vl.vfs_close_counts [OF vfs_okD(1) [OF assms(1)] assms(2), of io kinds] assms(3,4) by (auto simp: kruns_iff kernel_ops_def)
  then have "rw_lock s' v = RwFreed" by (simp add: closed_vn_def eff_def same_vfs_def)
  then have "vfs_close (kernel_ops io kinds) v s' = Inl BadPtr" by (simp add: vfs_close_def kbind_def)
  moreover have "0 < w_opens dev_view s' v" "0 < w_refs dev_view s' v" using c(2) assms(3,4) by (simp_all only: closed_vn_def fun_upd_same)
  ultimately show ?thesis using c(1) by blast
qed

theorem second_close_faults_witness:
  "\<exists>s'. vfs_close (kernel_ops io_demo kinds_demo) 1 ndemo = Inr ((), s') \<and> 0 < w_opens dev_view s' 1 \<and> 0 < w_refs dev_view s' 1 \<and>
    vfs_close (kernel_ops io_demo kinds_demo) 1 s' = Inl BadPtr"
  by (rule second_close_faults [OF ndemo_ok]) (simp_all add: ndemo_simps)

end
