(* ===== verification/Device_Names.thy ===== *)
theory Device_Names
  imports Devices
begin

text \<open>
  The names of devices: \<^verbatim>\<open>vfs_getroot\<close> resolves a name in the list of devices, and
  \<^verbatim>\<open>vfs_adddev\<close> extends the list only with names that resolve to the new device.
\<close>

section \<open>Specification\<close>

definition kd_list :: "'z nsys_scheme \<Rightarrow> knowndev list" where
  "kd_list s = map (\<lambda>p. the (kd_heap s p)) (array_list (knowndevs s))"

definition has_name :: "byte list \<Rightarrow> knowndev \<Rightarrow> bool" where
  "has_name n kd \<longleftrightarrow> kd_name kd = n \<or> kd_rawname kd = Some n"

text \<open>What a name stands for: the first device that has it, and not the device itself when it is to be mounted.\<close>

fun resolve :: "knowndev list \<Rightarrow> byte list \<Rightarrow> errno + nat" where
  "resolve [] n = Inl ENODEV"
| "resolve (kd # kds) n =
     (if kd_name kd = n then (if kd_rawname kd \<noteq> None then Inl ENXIO else Inr (kd_vnode kd))
      else if kd_rawname kd = Some n then Inr (kd_vnode kd)
      else resolve kds n)"

section \<open>Lemmas\<close>

lemma resolve_append: "resolve (kds @ kds') n = (if \<exists>kd\<in>set kds. has_name n kd then resolve kds n else resolve kds' n)"
  by (induction kds) (auto simp: has_name_def)

lemma kd_list_nth:
  assumes "list_ok W (\<lambda>_. False) s" and "i < nat (arr_num (knowndevs s))"
  obtains p where "kd_at i s = Inr ((p, kd_list s ! i), s)" and "kd_fs (kd_list s ! i) = None" and "kd_device (kd_list s ! i) \<noteq> None"
proof -
  let ?a = "knowndevs s" and ?p = "array_list (knowndevs s) ! i"
  have inv: "array_inv ?a" and all: "\<forall>p\<in>set (array_list ?a). \<exists>kd. kd_heap s p = Some kd \<and> kd_ok W (\<lambda>_. False) s kd"
    using assms(1) by (simp_all add: list_ok_def)
  have len: "i < length (array_list ?a)" using assms(2) inv by simp
  then obtain kd where kd: "kd_heap s ?p = Some kd" "kd_ok W (\<lambda>_. False) s kd" using all nth_mem by blast
  have "array_getguy ?a (int i) = Inr (Some ?p)" using array_getguy_list [OF inv, of "int i"] assms(2) by simp
  then have "kd_at i s = Inr ((?p, kd), s)" using kd(1) by (simp add: kd_at_def kbind_def kd_get_def)
  moreover have "kd_list s ! i = kd" using len kd(1) by (simp add: kd_list_def)
  ultimately show thesis using kd(2) by (intro that [of ?p]) (auto simp: kd_ok_def split: option.splits)
qed

definition clash :: "byte list option \<Rightarrow> byte list option \<Rightarrow> byte list option \<Rightarrow> knowndev \<Rightarrow> bool" where
  "clash n1 n2 n3 kd \<longleftrightarrow> samestring3 (kd_rawname kd) n1 n2 n3 \<or> samestring3 (Some (kd_name kd)) n1 n2 n3"

lemma clash_names: "clash (Some n) m None kd \<longleftrightarrow> (\<exists>x \<in> {n} \<union> set_option m. has_name x kd)"
  by (cases m; cases "kd_rawname kd") (auto simp: clash_def samestring3_def samestring_def has_name_def)

lemma badnames_loop_runs:
  assumes "list_ok W (\<lambda>_. False) s" and "\<forall>i\<in>set is. i < nat (arr_num (knowndevs s))"
  shows "badnames_loop ops n1 n2 n3 is s = Inr (\<exists>i\<in>set is. clash n1 n2 n3 (kd_list s ! i), s)"
  using assms(2)
proof (induction "is")
  case (Cons i "is")
  obtain p where "kd_at i s = Inr ((p, kd_list s ! i), s)" "kd_fs (kd_list s ! i) = None" using kd_list_nth [OF assms(1), of i] Cons.prems by auto
  with Cons show ?case by (simp add: kbind_def clash_def)
qed simp

lemma kd_list_length: "list_ok W f s \<Longrightarrow> length (kd_list s) = nat (arr_num (knowndevs s))"
  by (simp add: kd_list_def list_ok_def)

lemma kd_list_index: "list_ok W f s \<Longrightarrow> map ((!) (kd_list s)) [0..<nat (arr_num (knowndevs s))] = kd_list s"
  using map_nth [of "kd_list s"] by (simp add: kd_list_length)

lemma badnames_runs:
  assumes "list_ok W (\<lambda>_. False) s" and "knowndevs_lock s = Some \<lparr>lk_owner = us_cur s\<rparr>"
  shows "badnames ops (Some n) m None s = Inr (\<exists>kd\<in>set (kd_list s). \<exists>x \<in> {n} \<union> set_option m. has_name x kd, s)"
proof -
  let ?is = "[0..<nat (arr_num (knowndevs s))]"
  have "set (kd_list s) = (\<lambda>i. kd_list s ! i) ` set ?is" using arg_cong [OF kd_list_index [OF assms(1)], of set] by (simp only: set_map)
  then have "(\<exists>i\<in>set ?is. clash (Some n) m None (kd_list s ! i)) \<longleftrightarrow> (\<exists>kd\<in>set (kd_list s). clash (Some n) m None kd)" by simp
  then show ?thesis using badnames_loop_runs [OF assms(1), of ?is ops "Some n" m None] assms(2)
    by (simp add: badnames_def kbind_def kd_lock_mine_def lock_do_i_hold_def kd_num_def array_getnum_def clash_names)
qed

lemma getroot_loop_value:
  assumes "list_ok W (\<lambda>_. False) s" and "\<forall>i\<in>set is. i < nat (arr_num (knowndevs s))" and "getroot_loop ops n is s = Inr (r, s')"
  shows "r = resolve (map ((!) (kd_list s)) is) n"
  using assms(2,3)
proof (induction "is")
  case (Cons i "is")
  obtain p where "kd_at i s = Inr ((p, kd_list s ! i), s)" "kd_fs (kd_list s ! i) = None" "kd_device (kd_list s ! i) \<noteq> None"
    using kd_list_nth [OF assms(1), of i] Cons.prems(1) by auto
  with Cons show ?case by (auto simp: kbind_def getroot_test_def split: if_splits sum.splits)
qed simp

lemma getroot_refines:
  assumes "dev_vfs_ok io kinds s"
  shows "kruns (vfs_getroot (kernel_ops io kinds) n) s (\<lambda>r s'. r = resolve (kd_list s) n \<and> after dev_view s (res_vn r) s')"
proof -
  note ok = vfs_okD [OF assms]
  let ?s = "s\<lparr>knowndevs_lock := Some \<lparr>lk_owner = us_cur s\<rparr>\<rparr>"
  have l: "list_ok dev_view (\<lambda>_. False) ?s" using ok(5) by (simp add: list_ok_def kd_ok_def)
  have k: "kd_list ?s = kd_list s" by (simp add: kd_list_def)
  have "r = resolve (kd_list s) n" if "vfs_getroot (kernel_ops io kinds) n s = Inr (r, s')" for r s'
    using that getroot_loop_value [OF l, of "[0..<nat (arr_num (knowndevs s))]" "kernel_ops io kinds" n] kd_list_index [OF l]
    by (auto simp: vfs_getroot_def kbind_def kd_lock_acquire [OF ok(3)] kd_num_def array_getnum_def k split: sum.splits)
  then show ?thesis using kdevs.vl.vfs_getroot_gains [OF assms [unfolded kernel_ops_def], of n]
    by (auto simp: gains_def kruns_iff kernel_ops_def)
qed

text \<open>The device that is entered, and the state in which it is allocated but not yet in the list.\<close>

definition new_kd :: "'z nsys_scheme \<Rightarrow> byte list \<Rightarrow> bool \<Rightarrow> nat \<Rightarrow> knowndev" where
  "new_kd s name mountable dev =
     \<lparr>kd_name = name, kd_rawname = (if mountable then Some (mkrawname name) else None), kd_device = Some dev, kd_vnode = dv_next s, kd_fs = None\<rparr>"

definition with_dev :: "byte list \<Rightarrow> bool \<Rightarrow> nat \<Rightarrow> 'z nsys_scheme \<Rightarrow> 'z nsys_scheme" where
  "with_dev name mountable dev s =
     s\<lparr>dv_heap := (dv_heap s)(dv_next s \<mapsto> \<lparr>dv_refcount = 1, dv_opencount = 0, dv_countlock = lock_new, dv_dev = Some dev\<rparr>),
       dv_next := Suc (dv_next s),
       kd_heap := (kd_heap s)(kd_next s \<mapsto> new_kd s name mountable dev), kd_next := Suc (kd_next s)\<rparr>"

lemma adddev_start:
  assumes "k_mem s = []"
  shows "vfs_adddev ops name (Some dev) mountable s =
    kbind (kd_lock lock_acquire) (\<lambda>_.
    kbind (badnames ops (Some name) (kd_rawname (new_kd s name mountable dev)) None) (\<lambda>bad.
    kbind (if \<not> bad then add_to_list (kd_next s) else kret (Inl EEXIST)) (\<lambda>err.
    kbind (kd_lock lock_release) (\<lambda>_. kret err)))) (with_dev name mountable dev s)"
  using assms
  by (cases mountable) (simp_all add: vfs_adddev_def vfs_doadd_def Let_def kalloc_def dev_create_vnode_def lock_made with_dev_def new_kd_def)

text \<open>Addresses that are not in use.\<close>

definition fresh_next :: "'z nsys_scheme \<Rightarrow> bool" where
  "fresh_next s \<longleftrightarrow> kd_heap s (kd_next s) = None \<and> dv_heap s (dv_next s) = None"

lemma with_dev_ok:
  assumes "dev_vfs_ok io kinds s" and "fresh_next s"
  shows "dev_vfs_ok io kinds (with_dev name mountable dev s)" and "kd_list (with_dev name mountable dev s) = kd_list s"
proof -
  note ok = vfs_okD [OF assms(1)]
  have new: "p \<noteq> kd_next s" if "p \<in> set (array_list (knowndevs s))" for p
    using that ok(5) assms(2) by (auto simp: list_ok_def fresh_next_def)
  then show "kd_list (with_dev name mountable dev s) = kd_list s" by (auto simp: kd_list_def with_dev_def)
  have "list_ok dev_view (\<lambda>_. False) (with_dev name mountable dev s)"
    using ok(5) new assms(2) by (fastforce simp: list_ok_def with_dev_def kd_ok_def fresh_next_def split: option.splits)
  moreover have "cwd_ok (kernel_ops io kinds) dev_view (\<lambda>_. False) (with_dev name mountable dev s)"
    using ok(6) assms(2) by (auto simp: cwd_ok_def with_dev_def fresh_next_def)
  ultimately show "dev_vfs_ok io kinds (with_dev name mountable dev s)"
    using ok(1-4) by (auto simp: vfs_ok_def with_dev_def dv_ok_def)
qed

lemma add_to_list_runs:
  assumes "array_inv (knowndevs s)" and "arr_num (knowndevs s) < 2 ^ 29 - 1" and "k_mem s = []"
  obtains a where "add_to_list p s = Inr (Inr (), s\<lparr>knowndevs := a\<rparr>)" and "array_inv a" and "array_list a = array_list (knowndevs s) @ [p]"
proof (rule array_add_cases [OF assms(1,2), of "\<lambda>_. True" p])
  fix a
  assume "array_add (\<lambda>_. True) p (knowndevs s) = Inr (Inr (), a)" "array_inv a" "array_list a = array_list (knowndevs s) @ [p]"
  then show thesis using assms(3) by (intro that [of a]) (simp_all add: add_to_list_def kbind_def kalloc_def kzoom_def)
qed simp

lemma listed_ok:
  assumes "dev_vfs_ok io kinds s" and "kd_heap s p = Some kd" and "kd_ok dev_view (\<lambda>_. False) s kd"
    and "array_inv a" and "array_list a = array_list (knowndevs s) @ [p]"
  shows "dev_vfs_ok io kinds (s\<lparr>knowndevs := a\<rparr>)" and "kd_list (s\<lparr>knowndevs := a\<rparr>) = kd_list s @ [kd]"
  using assms by (auto simp: vfs_ok_def list_ok_def cwd_ok_def kd_ok_def kd_list_def)

lemma kd_lock_held_kd_list [simp]: "kd_list (s\<lparr>knowndevs_lock := l\<rparr>) = kd_list s"
  by (simp add: kd_list_def)

text \<open>
  \<^verbatim>\<open>vfs_adddev\<close> enters the device at the end of the list, unless one of its names is in use.
\<close>

lemma adddev_runs:
  fixes name :: "byte list" and mountable :: bool and dev :: nat
  assumes "dev_vfs_ok io kinds s" and "fresh_next s" and "arr_num (knowndevs s) < 2 ^ 29 - 1"
  defines "kd \<equiv> new_kd s name mountable dev"
  defines "used \<equiv> \<exists>kd'\<in>set (kd_list s). \<exists>x \<in> {name} \<union> set_option (kd_rawname kd). has_name x kd'"
  shows "kruns (vfs_adddev ops name (Some dev) mountable) s (\<lambda>r s'. dev_vfs_ok io kinds s' \<and>
    (if used then r = Inl EEXIST \<and> kd_list s' = kd_list s else r = Inr () \<and> kd_list s' = kd_list s @ [kd]))"
proof -
  let ?s = "with_dev name mountable dev s"
  let ?l = "?s\<lparr>knowndevs_lock := Some \<lparr>lk_owner = us_cur ?s\<rparr>\<rparr>"
  note ok1 = with_dev_ok [OF assms(1,2), of name mountable dev]
  note ok = vfs_okD [OF ok1(1)]
  have lk: "knowndevs_lock ?s = Some lock_new" by (rule ok(3))
  have l: "list_ok dev_view (\<lambda>_. False) ?l" using ok(5) by (simp add: list_ok_def kd_ok_def)
  have bad: "badnames ops (Some name) (kd_rawname kd) None ?l = Inr (used, ?l)"
    using badnames_runs [OF l, of ops name "kd_rawname kd"] ok1(2) by (simp add: used_def)
  have same: "?s\<lparr>knowndevs_lock := Some lock_new\<rparr> = ?s" using lk by simp
  show ?thesis
  proof (cases used)
    case True
    then have "vfs_adddev ops name (Some dev) mountable s = Inr (Inl EEXIST, ?s)"
      using bad lk same by (simp add: adddev_start vfs_okD(2) [OF assms(1)] kbind_def kd_lock_acquire kd_lock_release kd_def)
    then show ?thesis using True ok1 by (simp add: kruns_iff)
  next
    case False
    have num: "knowndevs ?l = knowndevs s" by (simp add: with_dev_def)
    obtain a where a: "add_to_list (kd_next s) ?l = Inr (Inr (), ?l\<lparr>knowndevs := a\<rparr>)" "array_inv a" "array_list a = array_list (knowndevs ?l) @ [kd_next s]"
      using add_to_list_runs [of ?l "kd_next s"] l assms(3) ok(2) num by (auto simp: list_ok_def)
    let ?a = "?s\<lparr>knowndevs := a\<rparr>"
    have "vfs_adddev ops name (Some dev) mountable s = Inr (Inr (), ?l\<lparr>knowndevs := a, knowndevs_lock := Some lock_new\<rparr>)"
      using bad lk a(1) False
      by (simp add: adddev_start vfs_okD(2) [OF assms(1)] kbind_def kd_lock_acquire kd_lock_release kd_def)
    moreover have "?l\<lparr>knowndevs := a, knowndevs_lock := Some lock_new\<rparr> = ?a" using same by (cases ?s) simp
    moreover have "kd_heap ?s (kd_next s) = Some kd" "kd_ok dev_view (\<lambda>_. False) ?s kd"
      by (simp_all add: with_dev_def kd_def kd_ok_def new_kd_def)
    ultimately show ?thesis using False listed_ok [OF ok1(1) _ _ a(2), of "kd_next s" kd] a(3) ok1(2) by (simp add: kruns_iff)
  qed
qed

lemma resolve_ENODEV: "resolve kds n \<noteq> Inl ENODEV \<longleftrightarrow> (\<exists>kd\<in>set kds. has_name n kd)"
  by (induction kds) (auto simp: has_name_def)

definition name_used :: "knowndev list \<Rightarrow> byte list \<Rightarrow> bool \<Rightarrow> bool" where
  "name_used kds name mountable \<longleftrightarrow> resolve kds name \<noteq> Inl ENODEV \<or> mountable \<and> resolve kds (mkrawname name) \<noteq> Inl ENODEV"

text \<open>What a name stands for once the device is entered with the vnode \<open>v\<close>.\<close>

definition entered :: "knowndev list \<Rightarrow> byte list \<Rightarrow> bool \<Rightarrow> nat \<Rightarrow> byte list \<Rightarrow> errno + nat" where
  "entered kds name mountable v n =
     (if n = name then (if mountable then Inl ENXIO else Inr v)
      else if mountable \<and> n = mkrawname name then Inr v
      else resolve kds n)"

lemma resolve_entered:
  "\<not> name_used (kd_list s) name mountable \<Longrightarrow> resolve (kd_list s @ [new_kd s name mountable dev]) n = entered (kd_list s) name mountable (dv_next s) n"
  using resolve_append [of "kd_list s" "[]" n]
  by (auto simp: resolve_append name_used_def resolve_ENODEV new_kd_def entered_def split: if_splits)

text \<open>
  C22: A device that \<^verbatim>\<open>vfs_adddev\<close> enters is found again under its name, and no name becomes
  ambiguous.  If a name of the new device already stands for something, the call fails with
  \<^verbatim>\<open>EEXIST\<close> and every name resolves as before.  Otherwise it succeeds: the name of a device that is
  not mountable, and the raw name of one that is, lead \<^verbatim>\<open>vfs_getroot\<close> to the vnode made for it; the
  plain name of a mountable device gives \<^verbatim>\<open>ENXIO\<close>; and every other name resolves as before.
\<close>

theorem adddev_getroot_roundtrip:
  assumes "dev_vfs_ok io kinds s" and "fresh_next s" and "arr_num (knowndevs s) < 2 ^ 29 - 1"
  shows "kruns (vfs_adddev (kernel_ops io kinds) name (Some dev) mountable) s (\<lambda>r s'.
    r = (if name_used (kd_list s) name mountable then Inl EEXIST else Inr ()) \<and>
    (\<forall>n. kruns (vfs_getroot (kernel_ops io kinds) n) s' (\<lambda>v _.
      v = (if r = Inr () then entered (kd_list s) name mountable (dv_next s) n else resolve (kd_list s) n))))"
proof (rule kruns_mono [OF adddev_runs [OF assms, where name = name and mountable = mountable and dev = dev]])
  let ?kd = "new_kd s name mountable dev"
  let ?used = "\<exists>kd\<in>set (kd_list s). \<exists>x\<in>{name} \<union> set_option (kd_rawname ?kd). has_name x kd"
  fix r s'
  assume a: "dev_vfs_ok io kinds s' \<and> (if ?used then r = Inl EEXIST \<and> kd_list s' = kd_list s else r = Inr () \<and> kd_list s' = kd_list s @ [?kd])"
  have u: "?used = name_used (kd_list s) name mountable" by (auto simp: name_used_def resolve_ENODEV new_kd_def)
  have "kruns (vfs_getroot (kernel_ops io kinds) n) s' (\<lambda>v _.
      v = (if r = Inr () then entered (kd_list s) name mountable (dv_next s) n else resolve (kd_list s) n))" for n
    using a resolve_entered [of s name mountable dev n] unfolding u
    by (intro kruns_mono [OF getroot_refines, of io kinds s' n]) (auto split: if_splits)
  with a show "r = (if name_used (kd_list s) name mountable then Inl EEXIST else Inr ()) \<and>
    (\<forall>n. kruns (vfs_getroot (kernel_ops io kinds) n) s' (\<lambda>v _.
      v = (if r = Inr () then entered (kd_list s) name mountable (dv_next s) n else resolve (kd_list s) n)))"
    unfolding u by (simp split: if_splits)
qed

theorem adddev_getroot_roundtrip_witness:
  "\<exists>s'. vfs_adddev (kernel_ops io_demo kinds_demo) [108, 104, 100, 48] (Some 2) True ndemo = Inr (Inr (), s') \<and>
    (\<exists>s''. vfs_getroot (kernel_ops io_demo kinds_demo) [108, 104, 100, 48, 114, 97, 119] s' = Inr (Inr 2, s'')) \<and>
    (\<exists>s''. vfs_getroot (kernel_ops io_demo kinds_demo) null_name s' = Inr (Inr 0, s''))"
proof -
  have l: "kd_list ndemo = [\<lparr>kd_name = null_name, kd_rawname = None, kd_device = Some 0, kd_vnode = 0, kd_fs = None\<rparr>,
      \<lparr>kd_name = [99, 111, 110], kd_rawname = None, kd_device = Some 1, kd_vnode = 1, kd_fs = None\<rparr>]"
    by (simp add: kd_list_def ndemo_simps array_list_def array_cells_def)
  have d: "kd_next ndemo = 2" "dv_next ndemo = 2"
    by (simp_all add: ndemo_def vdemo_def fdemo_def nsys.defs psys.defs vsys.defs fsys.defs)
  have f: "fresh_next ndemo" by (simp add: fresh_next_def ndemo_simps d)
  have "\<not> name_used (kd_list ndemo) [108, 104, 100, 48] True" by (simp add: name_used_def l null_name_def mkrawname_def)
  then obtain s' where a: "vfs_adddev (kernel_ops io_demo kinds_demo) [108, 104, 100, 48] (Some 2) True ndemo = Inr (Inr (), s')"
      "\<And>n. kruns (vfs_getroot (kernel_ops io_demo kinds_demo) n) s' (\<lambda>v _. v = entered (kd_list ndemo) [108, 104, 100, 48] True 2 n)"
    using adddev_getroot_roundtrip [OF ndemo_ok f, of io_demo kinds_demo "[108, 104, 100, 48]" 2 True]
    by (auto simp: kruns_iff ndemo_simps d)
  have "entered (kd_list ndemo) [108, 104, 100, 48] True 2 [108, 104, 100, 48, 114, 97, 119] = Inr 2" "entered (kd_list ndemo) [108, 104, 100, 48] True 2 null_name = Inr 0"
    by (simp_all add: entered_def l null_name_def mkrawname_def)
  then show ?thesis using a(1) a(2) [of "[108, 104, 100, 48, 114, 97, 119]"] a(2) [of null_name] by (auto simp: kruns_iff)
qed

end
