(* ===== verification/Spec2Isabelle.thy ===== *)
theory Spec2Isabelle
  imports Array_Lib Queue_Lib Bitmap_Lib Kheap Synch Process_Inv File_Calls Program_Args Device_Names
begin

text \<open>
  The kernel of this repository, OS/161 with the thread, process, file and memory systems written
  for it, as a library of definitions translated from the C sources and theorems about them.
  Paths below are relative to \<^verbatim>\<open>src/kern\<close>.

  \<^bold>\<open>Parts and theories.\<close>  Each theory holds the definitions of its part under the names of the
  C functions, then the lemmas.

  \<^item> \<^verbatim>\<open>OS161_Prelude\<close>: error codes, the ways a kernel function can fail to return, the state passing
  computations that stand for C functions, and the rules of total correctness for them.
  \<^item> \<^verbatim>\<open>Array_Lib\<close>, \<^verbatim>\<open>Queue_Lib\<close>, \<^verbatim>\<open>Bitmap_Lib\<close>: \<^verbatim>\<open>lib/array.c\<close>, \<^verbatim>\<open>queue.c\<close>, \<^verbatim>\<open>bitmap.c\<close>.  They refine
  lists, first-in first-out queues and sets of numbers.
  \<^item> \<^verbatim>\<open>Lock_View\<close>: a sleep lock as one system call sees it, the thread that owns it.
  \<^item> \<^verbatim>\<open>Coremap\<close>, \<^verbatim>\<open>Kheap\<close>: physical memory (\<^verbatim>\<open>vm/vm.c\<close>, \<^verbatim>\<open>arch/mips/mips/ram.c\<close>) and the kernel heap
  (\<^verbatim>\<open>lib/kheap.c\<close>) on top of it, through the contract \<^verbatim>\<open>page_alloc\<close>.  Blocks handed out
  never overlap and no sequence of calls makes the heap fail.
  \<^item> \<^verbatim>\<open>Threads\<close>: \<^verbatim>\<open>thread/thread.c\<close>, \<^verbatim>\<open>scheduler.c\<close>, the switch of \<^verbatim>\<open>pcb.c\<close> and the interrupt level
  of \<^verbatim>\<open>spl.c\<close>; the run queue is used through the contract \<^verbatim>\<open>fifo\<close>.
  \<^item> \<^verbatim>\<open>Synch\<close>: \<^verbatim>\<open>thread/synch.c\<close>, \<^verbatim>\<open>hardclock.c\<close> and timer interrupts, as a step relation that
  interleaves threads.  Mutual exclusion, no lost wakeup, no failed assertion in any reachable state.
  \<^item> \<^verbatim>\<open>Uio\<close>, \<^verbatim>\<open>Disk\<close>, \<^verbatim>\<open>Sfs_Format\<close>: copies to and from user memory (\<^verbatim>\<open>lib/copyinout.c\<close>,
  \<^verbatim>\<open>userprog/uio.c\<close>), the disk driver (\<^verbatim>\<open>dev/lamebus/lhd.c\<close>) with the block routines
  (\<^verbatim>\<open>fs/sfs/sfs_io.c\<close>), and the structures on the disk (\<^verbatim>\<open>include/kern/sfs.h\<close>).
  \<^item> \<^verbatim>\<open>Sfs\<close>, \<^verbatim>\<open>Sfs_File\<close>, \<^verbatim>\<open>Sfs_Write\<close>: the file system (\<^verbatim>\<open>fs/sfs/sfs_vnode.c\<close>, \<^verbatim>\<open>sfs_fs.c\<close>) with the
  vnode counters (\<^verbatim>\<open>fs/vfs/vnode.c\<close>).  Files are byte arrays: what is written is read back,
  and other files do not change.
  \<^item> \<^verbatim>\<open>Addrspace\<close>, \<^verbatim>\<open>Vm_Fault\<close>: address spaces, the loader, the TLB and the fault handler
  (\<^verbatim>\<open>vm/addrspace.c\<close>, \<^verbatim>\<open>userprog/loadelf.c\<close>, \<^verbatim>\<open>vm/vm-tlb.c\<close>, \<^verbatim>\<open>vm/uw-vmstats.c\<close>, \<^verbatim>\<open>vm/vm.c\<close>).
  \<^item> \<^verbatim>\<open>Process\<close>, \<^verbatim>\<open>Syscalls\<close>, \<^verbatim>\<open>Process_Inv\<close>: the process table, the file descriptors, the system calls
  and traps (\<^verbatim>\<open>syscalls/\<close>, \<^verbatim>\<open>userprog/runprogram.c\<close>, \<^verbatim>\<open>arch/mips/mips/syscall.c\<close>, \<^verbatim>\<open>trap.c\<close>), and the
  invariant that every sequence of starts, forks, exits and waits keeps.
  \<^item> \<^verbatim>\<open>File_Calls\<close>, \<^verbatim>\<open>Program_Args\<close>: reading and writing through a descriptor down to the disk, and
  the argument vector of a new program.
  \<^item> \<^verbatim>\<open>Vfs\<close>, \<^verbatim>\<open>Vfs_Refs\<close>, \<^verbatim>\<open>Devices\<close>, \<^verbatim>\<open>Device_Names\<close>: path names, the device list, the current directory
  and the operations on paths (\<^verbatim>\<open>fs/vfs/vfslist.c\<close>, \<^verbatim>\<open>vfslookup.c\<close>, \<^verbatim>\<open>vfscwd.c\<close>, \<^verbatim>\<open>vfspath.c\<close>), the
  devices (\<^verbatim>\<open>device.c\<close>, \<^verbatim>\<open>devnull.c\<close>), the balance of references and the resolution of names.

  \<^bold>\<open>State.\<close>  The state of a part is a record, and the records extend each other in the order in which
  the parts call each other: memory of the program, disk, file system, address spaces, processes,
  path names.  A C function is a function from a state to a result and a new state, or to the reason
  why it does not return: a failed assertion, a panic, an access through a bad pointer, a signed
  overflow, a wait for a lock, or a recursion bound.  Errors that a function returns are values.
  Pointers are addresses in a heap that maps them to structures; what the code frees is no longer
  there, so a use after a free halts.  Sizes and addresses wrap around at 32 bits where the code can
  reach the limit.

  \<^bold>\<open>Contracts.\<close>  \<^verbatim>\<open>fifo\<close> (run queue), \<^verbatim>\<open>slot_alloc\<close> (bitmaps), \<^verbatim>\<open>page_alloc\<close> (core map), \<^verbatim>\<open>vnode_layer\<close>
  (vnodes, for the operations on paths) and \<^verbatim>\<open>device_layer\<close> (drivers, which gives \<^verbatim>\<open>vnode_layer\<close>)
  are locales; each is interpreted on the definitions of this library.

  \<^bold>\<open>Outside.\<close>  What the hardware does is part of the state or an argument: the answers of the disk,
  the interrupts that arrive while the processor is idle, the contents of uninitialised memory, the
  outcome of every request to the allocator where a part does not model it.  Calls through a table
  of vnode operations take the table, or the operation, as an argument.

  \<^bold>\<open>Interleaving.\<close>  \<^verbatim>\<open>Synch\<close> interleaves threads at every point where interrupts can be on.  The parts
  above it describe one call at a time: a lock that another thread holds ends the run with the
  value that stands for waiting, and the sequences in \<^verbatim>\<open>Process_Inv\<close> interleave whole calls and the
  two halves of a wait.

  \<^bold>\<open>Bounds.\<close>  Where a loop does not visibly end, its recursion has a bound.  \<^verbatim>\<open>q_grow\<close> and \<^verbatim>\<open>q_addtail\<close> call
  each other to a depth of one; the searches of the heap walk at most one step more than there are
  page references, which is enough because the lists have no cycle; the loops that wake sleepers and
  empty the run queue are bounded by the length of the array and the size of the queue.  The theorems
  state that the calls return, so the bounds are enough.  The idle loop is the exception: it ends only
  when an interrupt of the list it is given wakes a thread, and the theorems in \<^verbatim>\<open>Synch\<close> speak of the
  steps in which one does.  All other loops are total functions.

  \<^bold>\<open>What does not hold.\<close>  Some theorems state what the code does where it differs from what it is meant
  to do: a signal that is lost between the halves of \<^verbatim>\<open>cv_wait\<close>, a block write that reports success
  without writing, a slot of the process table that is never used again, a descriptor that stays
  usable after \<^verbatim>\<open>close\<close>, a second \<^verbatim>\<open>vfs_close\<close> that destroys a freed lock, and a write fault that
  skips loading the page.

  \<^bold>\<open>Not modelled.\<close>  Console and bus drivers, the emulator file system, timer and random hardware, the
  network card, boot, the menu and console output, which are input and output; assembly below the
  level of C; \<^verbatim>\<open>dumbvm.c\<close> and the earlier versions of the address spaces in \<^verbatim>\<open>vm/\<close>, which the
  configuration does not use; test drivers, the exercises of \<^verbatim>\<open>asst1\<close> and user programs.  The table of
  vnode operations for paths is instantiated with devices, not with SFS, whose operations are
  verified on their own.
\<close>

end
